(* ===== verification/Prelude.thy ===== *)
theory Prelude
  imports Main "HOL-Library.Word" "HOL-Library.Monad_Syntax"
begin

text \<open>
  Shared types, automation and generic lemmas of the development: the C integer types at their
  width (LP64), nullable pointers, and the option monad in which the pointer code is written.

  A C function whose execution may be undefined (a null pointer is dereferenced, a masked tag bit is
  misread) returns an \<open>option\<close>: \<open>None\<close> is undefined behaviour or a loop that never returns,
  \<open>Some r\<close> is a run that returns \<open>r\<close>. A theorem that a result is \<open>Some\<close> therefore
  states memory safety and termination at once.
\<close>

unbundle bit_operations_syntax

type_synonym u8 = "8 word"
type_synonym u32 = "32 word"
type_synonym u64 = "64 word"
type_synonym size_t = "64 word"

text \<open>Addresses of objects, and pointers to them: \<open>None\<close> is \<open>NULL\<close>.\<close>

type_synonym addr = nat
type_synonym ptr = "nat option"

named_theorems ptr_simps \<open>unfolding of the pointer level accessors\<close>
named_theorems frame_rules \<open>representation predicates depend on their own nodes only\<close>

definition hd_opt :: "'a list \<Rightarrow> 'a option" where
  "hd_opt xs = (case xs of [] \<Rightarrow> None | x # _ \<Rightarrow> Some x)"

definition last_opt :: "'a list \<Rightarrow> 'a option" where
  "last_opt xs = (if xs = [] then None else Some (last xs))"

lemma hd_opt_simps [simp]:
  "hd_opt [] = None" "hd_opt (x # xs) = Some x"
  by (simp_all add: hd_opt_def)

lemma last_opt_simps [simp]:
  "last_opt [] = None" "last_opt (xs @ [x]) = Some x" "last_opt [x] = Some x"
  "last_opt (x # y # xs) = last_opt (y # xs)"
  by (simp_all add: last_opt_def)

lemma opt_conv:
  "xs \<noteq> [] \<Longrightarrow> hd_opt xs = Some (hd xs)" "xs \<noteq> [] \<Longrightarrow> last_opt xs = Some (last xs)"
  by (cases xs, auto simp: last_opt_def)

lemma last_opt_Cons: "last_opt (x # xs) = (if xs = [] then Some x else last_opt xs)"
  by (simp add: last_opt_def)

lemma last_opt_append: "last_opt (xs @ ys) = (if ys = [] then last_opt xs else last_opt ys)"
  by (simp add: last_opt_def)

lemma hd_opt_append: "hd_opt (xs @ ys) = (if xs = [] then hd_opt ys else hd_opt xs)"
  by (cases xs) simp_all

lemma hd_opt_None_iff [simp]: "hd_opt xs = None \<longleftrightarrow> xs = []"
  by (cases xs) simp_all

lemma last_opt_None_iff [simp]: "last_opt xs = None \<longleftrightarrow> xs = []"
  by (simp add: last_opt_def)

lemma opt_in_set: "hd_opt xs = Some x \<Longrightarrow> x \<in> set xs" "last_opt xs = Some x \<Longrightarrow> x \<in> set xs"
  by (cases xs, auto simp: last_opt_def split: if_splits)

lemma hd_opt_Some_iff: "hd_opt xs = Some x \<longleftrightarrow> (\<exists>ys. xs = x # ys)"
  by (cases xs) auto

lemma last_opt_Some_iff: "last_opt xs = Some x \<longleftrightarrow> (\<exists>ys. xs = ys @ [x])"
  by (cases xs rule: rev_cases) auto

lemma bind_eq_Some_iff: "(m \<bind> f) = Some r \<longleftrightarrow> (\<exists>x. m = Some x \<and> f x = Some r)"
  by (cases m) auto

lemma split_list_distinct:
  assumes "x \<in> set xs" "distinct xs"
  obtains as bs where "xs = as @ x # bs" "x \<notin> set as" "x \<notin> set bs" "remove1 x xs = as @ bs"
proof -
  from assms(1) obtain as bs where *: "xs = as @ x # bs" "x \<notin> set as"
    by (meson split_list_first)
  with assms(2) have "x \<notin> set bs" by auto
  moreover from * have "remove1 x xs = as @ bs" by (simp add: remove1_append)
  ultimately show ?thesis using that * by blast
qed


subsection \<open>Word arithmetic\<close>

lemma unat_bound: "unat (w :: u64) < 18446744073709551616" "unat (v :: u32) < 4294967296"
  using unsigned_less [of w, where 'a = nat] unsigned_less [of v, where 'a = nat] by simp_all

text \<open>The test \<open>s + k < s\<close> by which the C code detects a wrapped 64-bit sum.\<close>

lemma word_add_overflow:
  fixes s :: u64
  assumes "k < 2 ^ 64"
  shows "s + of_nat k < s \<longleftrightarrow> 2 ^ 64 \<le> unat s + k"
proof -
  have u: "unat (s + of_nat k) = (unat s + k) mod 2 ^ 64"
    using assms by (simp add: unat_word_ariths unat_of_nat mod_add_right_eq)
  have s: "unat s < 2 ^ 64" using unat_bound(1) [of s] by simp
  show ?thesis
  proof (cases "unat s + k < 2 ^ 64")
    case True
    then show ?thesis by (simp add: word_less_nat_alt u)
  next
    case False
    with assms s have "(unat s + k) mod 2 ^ 64 = unat s + k - 2 ^ 64"
      by (simp add: mod_if)
    with False assms s show ?thesis by (simp add: word_less_nat_alt u)
  qed
qed

end
