(* ===== verification/Errno.thy ===== *)
theory Errno
  imports Prelude
begin

text \<open>
  Error codes (\<open>include/eaf/utils/errno.h\<close>) and their description table
  (\<open>src/utils/errno.c\<close>, \<open>src/utils/errno.h\<close>). Codes are C \<open>int\<close>s; success is 0 and
  every failure is negative.
\<close>

definition eaf_errno_success :: int where "eaf_errno_success = 0"
definition eaf_errno_unknown :: int where "eaf_errno_unknown = - 1"
definition eaf_errno_duplicate :: int where "eaf_errno_duplicate = - 2"
definition eaf_errno_memory :: int where "eaf_errno_memory = - 3"
definition eaf_errno_state :: int where "eaf_errno_state = - 4"
definition eaf_errno_notfound :: int where "eaf_errno_notfound = - 5"
definition eaf_errno_overflow :: int where "eaf_errno_overflow = - 6"
definition eaf_errno_timeout :: int where "eaf_errno_timeout = - 7"
definition eaf_errno_invalid :: int where "eaf_errno_invalid = - 8"
definition eaf_errno_transfer :: int where "eaf_errno_transfer = - 9"

lemmas errno_defs = eaf_errno_success_def eaf_errno_unknown_def eaf_errno_duplicate_def
  eaf_errno_memory_def eaf_errno_state_def eaf_errno_notfound_def eaf_errno_overflow_def
  eaf_errno_timeout_def eaf_errno_invalid_def eaf_errno_transfer_def

text \<open>The rows of \<open>errno.h\<close>, in the order of the second, multi-read inclusion.\<close>

definition err_table :: "(int \<times> string) list" where
  "err_table =
    [(eaf_errno_success, ''success''),
     (eaf_errno_unknown, ''unknown or system error''),
     (eaf_errno_duplicate, ''duplicated operation or request''),
     (eaf_errno_memory, ''memory lack''),
     (eaf_errno_state, ''wrong state''),
     (eaf_errno_notfound, ''not found''),
     (eaf_errno_overflow, ''overflow''),
     (eaf_errno_timeout, ''timeout''),
     (eaf_errno_invalid, ''invalid parameters''),
     (eaf_errno_transfer, ''transmission protocol error'')]"

text \<open>The lookup loop: the first row whose code matches, \<open>NULL\<close> after the last row.\<close>

fun strerror_loop :: "(int \<times> string) list \<Rightarrow> int \<Rightarrow> string option" where
  "strerror_loop [] err = None"
| "strerror_loop ((e, s) # rows) err = (if err = e then Some s else strerror_loop rows err)"

definition eaf_strerror :: "int \<Rightarrow> string option" where
  "eaf_strerror err = strerror_loop err_table err"

lemma strerror_loop_map_of: "strerror_loop rows err = map_of rows err"
  by (induction rows) auto

text \<open>The ten rows written out by code, so that the claims below are case distinctions.\<close>

lemma dom_err_table: "fst ` set err_table = {-9..0}"
  by (simp add: err_table_def errno_defs set_eq_iff) presburger

lemma distinct_err_table: "distinct (map fst err_table)" "distinct (map snd err_table)"
  by (simp_all add: err_table_def errno_defs)

text \<open>\<open>eaf_strerror\<close> describes exactly the ten defined codes, \<open>NULL\<close> is returned for any other
  integer, and two defined codes never share a description.\<close>

theorem strerror_complete:
  "(eaf_strerror err \<noteq> None \<longleftrightarrow> -9 \<le> err \<and> err \<le> 0) \<and>
   (eaf_strerror err = eaf_strerror err' \<and> eaf_strerror err \<noteq> None \<longrightarrow> err = err')"
proof (intro conjI impI)
  show "eaf_strerror err \<noteq> None \<longleftrightarrow> -9 \<le> err \<and> err \<le> 0"
    using dom_err_table by (auto simp: eaf_strerror_def strerror_loop_map_of map_of_eq_None_iff)
next
  assume *: "eaf_strerror err = eaf_strerror err' \<and> eaf_strerror err \<noteq> None"
  then obtain s where "map_of err_table err = Some s" "map_of err_table err' = Some s"
    by (metis eaf_strerror_def strerror_loop_map_of option.exhaust)
  then have "(err, s) \<in> set err_table" "(err', s) \<in> set err_table"
    by (simp_all add: map_of_SomeD)
  with distinct_err_table(2) show "err = err'"
    by (metis distinct_map inj_onD prod.inject snd_conv)
qed

theorem strerror_complete_witness:
  "eaf_strerror (- 6) = Some ''overflow'' \<and> eaf_strerror (- 6) = eaf_strerror (- 6) \<and> eaf_strerror 1 = None"
  using strerror_complete [of 1 "- 6"]
  by (simp add: eaf_strerror_def err_table_def errno_defs)

end
