(* ===== verification/DList.thy ===== *)
theory DList
  imports Prelude
begin

text \<open>
  The intrusive doubly linked list of \<open>src/utils/list.c\<close>, on a heap of nodes. A list handler is the
  record of its head, tail and size; every operation takes the handler and the node heap and returns
  both, or \<open>None\<close> where the C code would dereference \<open>NULL\<close>. \<open>list_rep\<close> relates a handler
  and a heap to the sequence of node addresses they represent; each operation is shown to implement
  the sequence operation the other components use.
\<close>

subsection \<open>Nodes, handlers and field access\<close>

record lnode =
  p_after :: ptr
  p_before :: ptr

record elist =
  head :: ptr
  tail :: ptr
  lsize :: size_t

type_synonym lheap = "addr \<Rightarrow> lnode"
type_synonym lstate = "elist \<times> lheap"

text \<open>\<open>p->p_after = v\<close> and \<open>p->p_before = v\<close> for a pointer that may be \<open>NULL\<close>.\<close>

definition set_after :: "lheap \<Rightarrow> ptr \<Rightarrow> ptr \<Rightarrow> lheap option" where
  "set_after h p v = (case p of None \<Rightarrow> None | Some a \<Rightarrow> Some (h(a := (h a)\<lparr>p_after := v\<rparr>)))"

definition set_before :: "lheap \<Rightarrow> ptr \<Rightarrow> ptr \<Rightarrow> lheap option" where
  "set_before h p v = (case p of None \<Rightarrow> None | Some a \<Rightarrow> Some (h(a := (h a)\<lparr>p_before := v\<rparr>)))"

lemma set_link_simps [ptr_simps]:
  "set_after h None v = None" "set_after h (Some a) v = Some (h(a := (h a)\<lparr>p_after := v\<rparr>))"
  "set_before h None v = None" "set_before h (Some a) v = Some (h(a := (h a)\<lparr>p_before := v\<rparr>))"
  by (simp_all add: set_after_def set_before_def)

subsection \<open>The operations of list.c\<close>

definition list_lite_set_once :: "elist \<Rightarrow> lheap \<Rightarrow> addr \<Rightarrow> lstate" where
  "list_lite_set_once l h n =
     (l\<lparr>head := Some n, tail := Some n, lsize := 1\<rparr>, h(n := (h n)\<lparr>p_after := None, p_before := None\<rparr>))"

definition eaf_list_init :: "elist" where
  "eaf_list_init = \<lparr>head = None, tail = None, lsize = 0\<rparr>"

definition eaf_list_push_back :: "elist \<Rightarrow> lheap \<Rightarrow> addr \<Rightarrow> lstate option" where
  "eaf_list_push_back l h n =
     (if head l = None then Some (list_lite_set_once l h n)
      else do {
        let h1 = h(n := (h n)\<lparr>p_after := None, p_before := tail l\<rparr>);
        h2 \<leftarrow> set_after h1 (tail l) (Some n);
        Some (l\<lparr>tail := Some n, lsize := lsize l + 1\<rparr>, h2)
      })"

definition eaf_list_push_front :: "elist \<Rightarrow> lheap \<Rightarrow> addr \<Rightarrow> lstate option" where
  "eaf_list_push_front l h n =
     (if head l = None then Some (list_lite_set_once l h n)
      else do {
        let h1 = h(n := (h n)\<lparr>p_before := None, p_after := head l\<rparr>);
        h2 \<leftarrow> set_before h1 (head l) (Some n);
        Some (l\<lparr>head := Some n, lsize := lsize l + 1\<rparr>, h2)
      })"

definition eaf_list_insert_before :: "elist \<Rightarrow> lheap \<Rightarrow> addr \<Rightarrow> addr \<Rightarrow> lstate option" where
  "eaf_list_insert_before l h pos n =
     (if head l = Some pos then eaf_list_push_front l h n
      else do {
        let h1 = h(n := (h n)\<lparr>p_before := p_before (h pos), p_after := Some pos\<rparr>);
        h2 \<leftarrow> set_after h1 (p_before (h1 pos)) (Some n);
        h3 \<leftarrow> set_before h2 (Some pos) (Some n);
        Some (l\<lparr>lsize := lsize l + 1\<rparr>, h3)
      })"

definition eaf_list_insert_after :: "elist \<Rightarrow> lheap \<Rightarrow> addr \<Rightarrow> addr \<Rightarrow> lstate option" where
  "eaf_list_insert_after l h pos n =
     (if tail l = Some pos then eaf_list_push_back l h n
      else do {
        let h1 = h(n := (h n)\<lparr>p_before := Some pos, p_after := p_after (h pos)\<rparr>);
        h2 \<leftarrow> set_before h1 (p_after (h1 pos)) (Some n);
        h3 \<leftarrow> set_after h2 (Some pos) (Some n);
        Some (l\<lparr>lsize := lsize l + 1\<rparr>, h3)
      })"

definition eaf_list_begin :: "elist \<Rightarrow> ptr" where
  "eaf_list_begin l = head l"

definition eaf_list_end :: "elist \<Rightarrow> ptr" where
  "eaf_list_end l = tail l"

definition eaf_list_next :: "lheap \<Rightarrow> addr \<Rightarrow> ptr" where
  "eaf_list_next h n = p_after (h n)"

definition eaf_list_prev :: "lheap \<Rightarrow> addr \<Rightarrow> ptr" where
  "eaf_list_prev h n = p_before (h n)"

text \<open>The size is decremented first, on every path, as in the source.\<close>

definition eaf_list_erase :: "elist \<Rightarrow> lheap \<Rightarrow> addr \<Rightarrow> lstate option" where
  "eaf_list_erase l h n =
     (let l1 = l\<lparr>lsize := lsize l - 1\<rparr> in
      if head l1 = Some n \<and> tail l1 = Some n then Some (l1\<lparr>head := None, tail := None\<rparr>, h)
      else if head l1 = Some n then do {
        h1 \<leftarrow> set_before h (p_after (h n)) None;
        Some (l1\<lparr>head := p_after (h1 n)\<rparr>, h1)
      }
      else if tail l1 = Some n then do {
        h1 \<leftarrow> set_after h (p_before (h n)) None;
        Some (l1\<lparr>tail := p_before (h1 n)\<rparr>, h1)
      }
      else do {
        h1 \<leftarrow> set_after h (p_before (h n)) (p_after (h n));
        h2 \<leftarrow> set_before h1 (p_after (h1 n)) (p_before (h1 n));
        Some (l1, h2)
      })"

definition eaf_list_pop_front :: "elist \<Rightarrow> lheap \<Rightarrow> (ptr \<times> lstate) option" where
  "eaf_list_pop_front l h =
     (case head l of
        None \<Rightarrow> Some (None, (l, h))
      | Some n \<Rightarrow> do { s \<leftarrow> eaf_list_erase l h n; Some (Some n, s) })"

definition eaf_list_pop_back :: "elist \<Rightarrow> lheap \<Rightarrow> (ptr \<times> lstate) option" where
  "eaf_list_pop_back l h =
     (case tail l of
        None \<Rightarrow> Some (None, (l, h))
      | Some n \<Rightarrow> do { s \<leftarrow> eaf_list_erase l h n; Some (Some n, s) })"

definition eaf_list_size :: "elist \<Rightarrow> size_t" where
  "eaf_list_size l = lsize l"

subsection \<open>Representation\<close>

text \<open>\<open>seg h p xs q\<close>: the nodes \<open>xs\<close> are linked in this order; the first one points back to
  \<open>p\<close>, the last one forward to \<open>q\<close>.\<close>

fun seg :: "lheap \<Rightarrow> ptr \<Rightarrow> addr list \<Rightarrow> ptr \<Rightarrow> bool" where
  "seg h p [] q = True"
| "seg h p (x # xs) q \<longleftrightarrow>
     p_before (h x) = p \<and> p_after (h x) = (if xs = [] then q else hd_opt xs) \<and> seg h (Some x) xs q"

definition list_rep :: "lstate \<Rightarrow> addr list \<Rightarrow> bool" where
  "list_rep s xs \<longleftrightarrow> distinct xs \<and> head (fst s) = hd_opt xs \<and> tail (fst s) = last_opt xs \<and>
     lsize (fst s) = of_nat (length xs) \<and> seg (snd s) None xs None"

lemma seg_append:
  "seg h p (xs @ ys) q \<longleftrightarrow>
     seg h p xs (if ys = [] then q else hd_opt ys) \<and> seg h (if xs = [] then p else last_opt xs) ys q"
  by (induction xs arbitrary: p) (auto simp: hd_opt_append last_opt_Cons)

lemma seg_frame [frame_rules]:
  "(\<And>x. x \<in> set xs \<Longrightarrow> h' x = h x) \<Longrightarrow> seg h' p xs q = seg h p xs q"
  by (induction xs arbitrary: p) auto

lemma seg_upd_other [simp]: "a \<notin> set xs \<Longrightarrow> seg (h(a := v)) p xs q = seg h p xs q"
  by (rule seg_frame) auto

text \<open>Re-targeting the last forward link, and the first backward link, of a segment.\<close>

lemma seg_set_last:
  assumes "seg h p (xs @ [x]) q" "x \<notin> set xs"
  shows "seg (h(x := (h x)\<lparr>p_after := q'\<rparr>)) p (xs @ [x]) q'"
  using assms by (simp add: seg_append)

lemma seg_set_first:
  assumes "seg h p (x # xs) q" "x \<notin> set xs"
  shows "seg (h(x := (h x)\<lparr>p_before := p'\<rparr>)) p' (x # xs) q"
  using assms by simp

subsection \<open>Each operation implements the sequence operation\<close>

text \<open>\<open>implements s s' xs xs' ns\<close>: the list state \<open>s'\<close> represents \<open>xs'\<close> and differs from
  \<open>s\<close> only in the nodes \<open>xs\<close> and \<open>ns\<close>.\<close>

definition implements :: "lstate option \<Rightarrow> lheap \<Rightarrow> addr set \<Rightarrow> addr list \<Rightarrow> bool" where
  "implements r h A xs' \<longleftrightarrow>
     (\<exists>s. r = Some s \<and> list_rep s xs' \<and> (\<forall>a. a \<notin> A \<longrightarrow> snd s a = h a))"

lemmas list_ops = eaf_list_push_back_def eaf_list_push_front_def eaf_list_insert_before_def
  eaf_list_insert_after_def eaf_list_erase_def list_lite_set_once_def

lemma list_rep_init: "list_rep (eaf_list_init, h) []"
  by (simp add: list_rep_def eaf_list_init_def)

lemma push_back_implements:
  assumes "list_rep (l, h) xs" "n \<notin> set xs"
  shows "implements (eaf_list_push_back l h n) h (insert n (set xs)) (xs @ [n])"
  using assms
  by (cases xs rule: rev_cases)
    (auto simp: list_ops implements_def list_rep_def set_link_simps seg_append hd_opt_append last_opt_append
      opt_conv)

lemma push_front_implements:
  assumes "list_rep (l, h) xs" "n \<notin> set xs"
  shows "implements (eaf_list_push_front l h n) h (insert n (set xs)) (n # xs)"
  using assms
  by (cases xs)
    (auto simp: list_ops implements_def list_rep_def set_link_simps last_opt_Cons)

lemma erase_implements:
  assumes "list_rep (l, h) xs" "n \<in> set xs"
  shows "implements (eaf_list_erase l h n) h (set xs) (remove1 n xs)"
proof -
  from assms have "distinct xs" by (simp add: list_rep_def)
  with assms(2) obtain as bs where xs: "xs = as @ n # bs" and rm: "remove1 n xs = as @ bs"
    and nin: "n \<notin> set as" "n \<notin> set bs"
    by (rule split_list_distinct)
  show ?thesis
    unfolding rm using assms(1) nin
    by (cases as rule: rev_cases; cases bs)
      (auto simp: xs list_ops implements_def list_rep_def set_link_simps seg_append hd_opt_append
        last_opt_append last_opt_Cons Let_def opt_conv dest: opt_in_set split: if_splits)
qed

lemma insert_before_implements:
  assumes "list_rep (l, h) (as @ pos # bs)" "n \<notin> set (as @ pos # bs)"
  shows "implements (eaf_list_insert_before l h pos n) h (insert n (set (as @ pos # bs))) (as @ n # pos # bs)"
proof (cases as rule: rev_cases)
  case Nil
  with assms push_front_implements [of l h "pos # bs" n] show ?thesis
    by (simp add: list_rep_def eaf_list_insert_before_def)
next
  case (snoc ys y)
  with assms show ?thesis
    by (auto simp: list_ops implements_def list_rep_def set_link_simps seg_append hd_opt_append
        last_opt_append last_opt_Cons opt_conv dest: opt_in_set split: if_splits)
qed

lemma insert_after_implements:
  assumes "list_rep (l, h) (as @ pos # bs)" "n \<notin> set (as @ pos # bs)"
  shows "implements (eaf_list_insert_after l h pos n) h (insert n (set (as @ pos # bs))) (as @ pos # n # bs)"
proof (cases bs)
  case Nil
  with assms push_back_implements [of l h "as @ [pos]" n] show ?thesis
    by (simp add: list_rep_def eaf_list_insert_after_def last_opt_append)
next
  case (Cons y ys)
  with assms show ?thesis
    by (auto simp: list_ops implements_def list_rep_def set_link_simps seg_append hd_opt_append
        last_opt_append last_opt_Cons opt_conv dest: opt_in_set split: if_splits)
qed

lemma pop_front_rep:
  assumes "list_rep (l, h) xs"
  shows "\<exists>s. eaf_list_pop_front l h = Some (hd_opt xs, s) \<and> list_rep s (tl xs) \<and>
    (\<forall>a. a \<notin> set xs \<longrightarrow> snd s a = h a)"
proof (cases xs)
  case Nil
  with assms show ?thesis by (auto simp: eaf_list_pop_front_def list_rep_def)
next
  case (Cons x ys)
  with assms erase_implements [OF assms, of x] show ?thesis
    by (auto simp: eaf_list_pop_front_def implements_def list_rep_def)
qed

lemma pop_back_rep:
  assumes "list_rep (l, h) xs"
  shows "\<exists>s. eaf_list_pop_back l h = Some (last_opt xs, s) \<and> list_rep s (butlast xs) \<and>
    (\<forall>a. a \<notin> set xs \<longrightarrow> snd s a = h a)"
proof (cases xs rule: rev_cases)
  case Nil
  with assms show ?thesis by (auto simp: eaf_list_pop_back_def list_rep_def)
next
  case (snoc ys y)
  with assms erase_implements [OF assms, of y] show ?thesis
    by (auto simp: eaf_list_pop_back_def implements_def list_rep_def remove1_append)
qed

subsection \<open>Iteration\<close>

text \<open>The \<open>for (it = begin; it != NULL; it = next(it))\<close> loop that the clients of the list write,
  and its mirror image from the end: the nodes in the order of the visit.\<close>

partial_function (option) list_walk :: "(addr \<Rightarrow> ptr) \<Rightarrow> ptr \<Rightarrow> addr list option" where
  "list_walk step p =
     (case p of
        None \<Rightarrow> Some []
      | Some a \<Rightarrow> do { xs \<leftarrow> list_walk step (step a); Some (a # xs) })"

lemma list_walk_simps [simp]:
  "list_walk step None = Some []"
  "list_walk step (Some a) = do { xs \<leftarrow> list_walk step (step a); Some (a # xs) }"
  by (simp_all add: list_walk.simps)

lemma walk_forward: "seg h p xs None \<Longrightarrow> list_walk (eaf_list_next h) (hd_opt xs) = Some xs"
proof (induction xs arbitrary: p)
  case (Cons x xs)
  then show ?case by (cases xs) (auto simp: eaf_list_next_def)
qed simp

lemma walk_backward: "seg h None xs q \<Longrightarrow> list_walk (eaf_list_prev h) (last_opt xs) = Some (rev xs)"
proof (induction xs arbitrary: q rule: rev_induct)
  case (snoc x xs)
  then have s: "seg h None xs (Some x)" and b: "p_before (h x) = last_opt xs"
    by (auto simp: seg_append split: if_splits)
  from snoc.IH [OF s] b show ?case by (simp add: eaf_list_prev_def)
qed simp

subsection \<open>The queue interface\<close>

text \<open>Clients use the list as a FIFO queue: they push at the back and drain the front in a
  \<open>while ((node = pop_front(...)) != NULL)\<close> loop.\<close>

partial_function (option) drain ::
  "('s \<Rightarrow> ('a option \<times> 's) option) \<Rightarrow> 's \<Rightarrow> ('a list \<times> 's) option" where
  "drain deq s = do {
     (r, s1) \<leftarrow> deq s;
     case r of
       None \<Rightarrow> Some ([], s1)
     | Some x \<Rightarrow> do { (xs, s2) \<leftarrow> drain deq s1; Some (x # xs, s2) }
   }"

fun enq_all :: "('s \<Rightarrow> 'a \<Rightarrow> 's option) \<Rightarrow> 's \<Rightarrow> 'a list \<Rightarrow> 's option" where
  "enq_all enq s [] = Some s"
| "enq_all enq s (x # xs) = do { s1 \<leftarrow> enq s x; enq_all enq s1 xs }"

locale fifo_queue =
  fixes rep :: "'s \<Rightarrow> 'a list \<Rightarrow> bool"
    and enq :: "'s \<Rightarrow> 'a \<Rightarrow> 's option"
    and deq :: "'s \<Rightarrow> ('a option \<times> 's) option"
  assumes enq_rep: "rep s xs \<Longrightarrow> x \<notin> set xs \<Longrightarrow> \<exists>s'. enq s x = Some s' \<and> rep s' (xs @ [x])"
    and deq_empty: "rep s [] \<Longrightarrow> \<exists>s'. deq s = Some (None, s') \<and> rep s' []"
    and deq_rep: "rep s (x # xs) \<Longrightarrow> \<exists>s'. deq s = Some (Some x, s') \<and> rep s' xs"
begin

lemma enq_all_rep:
  "rep s xs \<Longrightarrow> distinct (xs @ ys) \<Longrightarrow> \<exists>s'. enq_all enq s ys = Some s' \<and> rep s' (xs @ ys)"
proof (induction ys arbitrary: s xs)
  case (Cons y ys)
  then obtain s1 where "enq s y = Some s1" "rep s1 (xs @ [y])"
    using enq_rep [of s xs y] by auto
  with Cons.IH [of s1 "xs @ [y]"] Cons.prems(2) show ?case by auto
qed simp

lemma drain_rep: "rep s xs \<Longrightarrow> \<exists>s'. drain deq s = Some (xs, s') \<and> rep s' []"
proof (induction xs arbitrary: s)
  case Nil
  from deq_empty [OF this] show ?case by (auto simp: drain.simps [of deq s])
next
  case (Cons x xs)
  from deq_rep [OF Cons.prems] obtain s1 where "deq s = Some (Some x, s1)" "rep s1 xs"
    by blast
  with Cons.IH [of s1] show ?case by (auto simp: drain.simps [of deq s])
qed

lemma fifo: "rep s [] \<Longrightarrow> distinct xs \<Longrightarrow>
  \<exists>s' s''. enq_all enq s xs = Some s' \<and> drain deq s' = Some (xs, s'') \<and> rep s'' []"
  using enq_all_rep [of s "[]" xs] drain_rep by fastforce

end

interpretation list_queue: fifo_queue list_rep "\<lambda>(l, h). eaf_list_push_back l h" "\<lambda>(l, h). eaf_list_pop_front l h"
proof unfold_locales
  fix s xs x
  assume "list_rep s xs" "x \<notin> set xs"
  then show "\<exists>s'. (case s of (l, h) \<Rightarrow> eaf_list_push_back l h) x = Some s' \<and> list_rep s' (xs @ [x])"
    using push_back_implements [of "fst s" "snd s" xs x] by (auto simp: implements_def split: prod.splits)
next
  fix s
  assume "list_rep s []"
  then show "\<exists>s'. (case s of (l, h) \<Rightarrow> eaf_list_pop_front l h) = Some (None, s') \<and> list_rep s' []"
    using pop_front_rep [of "fst s" "snd s" "[]"] by (auto split: prod.splits)
next
  fix s x xs
  assume "list_rep s (x # xs)"
  then show "\<exists>s'. (case s of (l, h) \<Rightarrow> eaf_list_pop_front l h) = Some (Some x, s') \<and> list_rep s' xs"
    using pop_front_rep [of "fst s" "snd s" "x # xs"] by (auto split: prod.splits)
qed

subsection \<open>Properties\<close>

text \<open>A concrete list of three nodes, on which the hypotheses below hold.\<close>

definition demo_list :: lstate where
  "demo_list = (\<lparr>head = Some 1, tail = Some 3, lsize = 3\<rparr>,
     (\<lambda>a. if a = 1 then \<lparr>p_after = Some 2, p_before = None\<rparr>
          else if a = 2 then \<lparr>p_after = Some 3, p_before = Some 1\<rparr>
          else \<lparr>p_after = None, p_before = Some 2\<rparr>))"

lemma demo_list_rep: "list_rep (fst demo_list, snd demo_list) [1, 2, 3]"
  by (simp add: demo_list_def list_rep_def)

text \<open>inserting a fresh node at the back, at the front, before and after a node of a well formed list
  never dereferences \<open>NULL\<close>, yields the list with the node at exactly that position (links, end
  pointers and size included), and writes no node outside the list.\<close>

theorem list_insertions:
  assumes "list_rep (l, h) (as @ pos # bs)" "n \<notin> set (as @ pos # bs)"
  defines "A \<equiv> insert n (set (as @ pos # bs))"
  shows "implements (eaf_list_push_back l h n) h A (as @ pos # bs @ [n]) \<and>
    implements (eaf_list_push_front l h n) h A (n # as @ pos # bs) \<and>
    implements (eaf_list_insert_before l h pos n) h A (as @ n # pos # bs) \<and>
    implements (eaf_list_insert_after l h pos n) h A (as @ pos # n # bs)"
  using push_back_implements [OF assms(1,2)] push_front_implements [OF assms(1,2)]
    insert_before_implements [OF assms(1,2)] insert_after_implements [OF assms(1,2)]
  by (simp add: A_def)

theorem list_insertions_witness:
  "implements (eaf_list_insert_before (fst demo_list) (snd demo_list) 2 7) (snd demo_list) {1, 2, 3, 7} [1, 7, 2, 3]"
proof -
  have "list_rep (fst demo_list, snd demo_list) ([1] @ 2 # [3])" "7 \<notin> set ([1] @ 2 # [3 :: nat])"
    using demo_list_rep by simp_all
  from list_insertions [OF this] show ?thesis by (simp add: insert_commute)
qed

text \<open>erasing a node of the list, and popping either end, removes exactly that node; popping the empty
  list returns \<open>NULL\<close> and leaves it empty.\<close>

theorem list_removals:
  assumes "list_rep (l, h) xs"
  shows "(n \<in> set xs \<longrightarrow> implements (eaf_list_erase l h n) h (set xs) (remove1 n xs)) \<and>
    (\<exists>s. eaf_list_pop_front l h = Some (hd_opt xs, s) \<and> list_rep s (tl xs)) \<and>
    (\<exists>s. eaf_list_pop_back l h = Some (last_opt xs, s) \<and> list_rep s (butlast xs))"
  using erase_implements [OF assms] pop_front_rep [OF assms] pop_back_rep [OF assms] by blast

theorem list_removals_witness:
  "implements (eaf_list_erase (fst demo_list) (snd demo_list) 2) (snd demo_list) {1, 2, 3} [1, 3]"
  using list_removals [OF demo_list_rep, of 2] by simp

text \<open>C38: nodes pushed at the back of an empty list come out of the pop-front loop in the order they were
  pushed, none lost or repeated, and the loop ends with the list empty.\<close>

theorem list_fifo:
  assumes "list_rep s []" "distinct xs"
  shows "\<exists>s' s''. enq_all (\<lambda>(l, h). eaf_list_push_back l h) s xs = Some s' \<and>
    drain (\<lambda>(l, h). eaf_list_pop_front l h) s' = Some (xs, s'') \<and> list_rep s'' []"
  by (rule list_queue.fifo [OF assms])

theorem list_fifo_witness:
  "\<exists>s' s''. enq_all (\<lambda>(l, h). eaf_list_push_back l h) (eaf_list_init, snd demo_list) [5, 4, 9] = Some s' \<and>
    drain (\<lambda>(l, h). eaf_list_pop_front l h) s' = Some ([5, 4, 9], s'') \<and> list_rep s'' []"
  by (rule list_fifo [OF list_rep_init]) simp

text \<open>two lists may share the node heap. Moving a node from one to the back of the other (erase, then
  push back: what the scheduler does with its busy and wait lists) leaves both well formed, the
  first without the node, the second with it at the end.\<close>

theorem list_move:
  assumes "list_rep (l1, h) xs" "list_rep (l2, h) ys" "set xs \<inter> set ys = {}" "n \<in> set xs"
  shows "\<exists>l1' l2' h1 h2. eaf_list_erase l1 h n = Some (l1', h1) \<and> eaf_list_push_back l2 h1 n = Some (l2', h2) \<and>
    list_rep (l1', h2) (remove1 n xs) \<and> list_rep (l2', h2) (ys @ [n])"
proof -
  from erase_implements [OF assms(1,4)] obtain l1' h1 where e: "eaf_list_erase l1 h n = Some (l1', h1)"
    and r1: "list_rep (l1', h1) (remove1 n xs)" and f1: "\<And>a. a \<notin> set xs \<Longrightarrow> h1 a = h a"
    by (auto simp: implements_def)
  from assms(2,3) f1 have r2: "list_rep (l2, h1) ys"
    using seg_frame [of ys h1 h None None] by (auto simp: list_rep_def)
  have "n \<notin> set ys" using assms(3,4) by blast
  from push_back_implements [OF r2 this] obtain l2' h2 where p: "eaf_list_push_back l2 h1 n = Some (l2', h2)"
    and r3: "list_rep (l2', h2) (ys @ [n])" and f2: "\<And>a. a \<notin> insert n (set ys) \<Longrightarrow> h2 a = h1 a"
    by (auto simp: implements_def)
  have d: "distinct xs" using assms(1) by (simp add: list_rep_def)
  have "list_rep (l1', h2) (remove1 n xs)"
    using r1 f2 d assms(3) seg_frame [of "remove1 n xs" h2 h1 None None] by (auto simp: list_rep_def)
  with e p r3 show ?thesis by blast
qed

theorem list_move_witness:
  "\<exists>l1' l2' h1 h2. eaf_list_erase (fst demo_list) (snd demo_list) 2 = Some (l1', h1) \<and>
    eaf_list_push_back eaf_list_init h1 2 = Some (l2', h2) \<and>
    list_rep (l1', h2) [1, 3] \<and> list_rep (l2', h2) [2]"
  using list_move [OF demo_list_rep list_rep_init, of 2] by simp

text \<open>walking a well formed list forward from \<open>begin\<close> visits its nodes in order and stops; walking
  backward from \<open>end\<close> visits them in reverse. \<open>eaf_list_size\<close> is their number modulo \<open>2 ^ 64\<close>.\<close>

theorem list_iteration:
  assumes "list_rep (l, h) xs"
  shows "list_walk (eaf_list_next h) (eaf_list_begin l) = Some xs \<and>
    list_walk (eaf_list_prev h) (eaf_list_end l) = Some (rev xs) \<and>
    unat (eaf_list_size l) = length xs mod 2 ^ 64"
proof -
  from assms have "seg h None xs None" "head l = hd_opt xs" "tail l = last_opt xs" "lsize l = of_nat (length xs)"
    by (simp_all add: list_rep_def)
  then show ?thesis
    using walk_forward [of h None xs] walk_backward [of h xs None]
    by (simp add: eaf_list_begin_def eaf_list_end_def eaf_list_size_def unat_of_nat)
qed

theorem list_iteration_witness:
  "list_walk (eaf_list_prev (snd demo_list)) (eaf_list_end (fst demo_list)) = Some [3, 2, 1]"
  using list_iteration [OF demo_list_rep] by simp

end
