(* ===== verification/Message.thy ===== *)
theory Message
  imports Prelude
begin

text \<open>
  Messages of \<open>src/core/message.c\<close>: the communicated structure with its packed word
  \<open>encs\<close> (receipt in bits 0-14, request flag in bit 15, token in bits 32-63), and the heap of
  reference counted message objects. \<open>malloc\<close>, the lock constructor and the contents of fresh
  memory are parameters (\<open>msg_env\<close>). Touching an object that is not allocated is \<open>None\<close>.
\<close>

subsection \<open>Structures\<close>

type_synonym i32 = "32 word"
type_synonym fnptr = "64 word"

datatype msg_type = eaf_msg_type_req | eaf_msg_type_rsp

record eaf_msg =
  msg_id :: u32
  msg_from :: u32
  encs :: u64
  uuid :: u64
  orig :: u64

record eaf_msg_full =
  msg :: eaf_msg
  refcnt :: size_t
  data_size :: size_t

type_synonym mheap = "addr \<Rightarrow> eaf_msg_full option"

record msg_env =
  malloc :: "size_t \<Rightarrow> ptr"
  lock_init :: int
  sizeof_msg_full :: size_t
  fresh_memory :: eaf_msg_full

definition EAF_MSG_ENCS_REQ :: u64 where
  "EAF_MSG_ENCS_REQ = push_bit 15 1"

subsection \<open>Creation and destruction\<close>

definition eaf_msg_create :: "msg_env \<Rightarrow> mheap \<Rightarrow> u32 \<Rightarrow> size_t \<Rightarrow> ptr \<times> mheap" where
  "eaf_msg_create env H i sz =
     (let malloc_size = sizeof_msg_full env + sz in
      case malloc env malloc_size of
        None \<Rightarrow> (None, H)
      | Some a \<Rightarrow>
          if lock_init env < 0 then (None, H(a := None))
          else let m = fresh_memory env in
            (Some a, H(a \<mapsto> m\<lparr>msg := (msg m)\<lparr>msg_id := i, msg_from := - 1\<rparr>, refcnt := 1, data_size := sz\<rparr>)))"

definition eaf_msg_destroy :: "mheap \<Rightarrow> addr \<Rightarrow> mheap" where
  "eaf_msg_destroy H a = H(a := None)"

definition upd_msg :: "mheap \<Rightarrow> addr \<Rightarrow> (eaf_msg \<Rightarrow> eaf_msg) \<Rightarrow> mheap" where
  "upd_msg H a f = (case H a of None \<Rightarrow> H | Some m \<Rightarrow> H(a \<mapsto> m\<lparr>msg := f (msg m)\<rparr>))"

definition eaf_msg_create_req :: "msg_env \<Rightarrow> mheap \<Rightarrow> u32 \<Rightarrow> size_t \<Rightarrow> fnptr \<Rightarrow> ptr \<times> mheap" where
  "eaf_msg_create_req env H i sz rsp_fn =
     (case eaf_msg_create env H i sz of
        (None, H1) \<Rightarrow> (None, H1)
      | (Some a, H1) \<Rightarrow>
          (Some a, upd_msg H1 a (\<lambda>m. m\<lparr>encs := EAF_MSG_ENCS_REQ, uuid := of_nat a, orig := rsp_fn\<rparr>)))"

definition eaf_msg_create_rsp :: "msg_env \<Rightarrow> mheap \<Rightarrow> eaf_msg \<Rightarrow> size_t \<Rightarrow> ptr \<times> mheap" where
  "eaf_msg_create_rsp env H req sz =
     (case eaf_msg_create env H (msg_id req) sz of
        (None, H1) \<Rightarrow> (None, H1)
      | (Some a, H1) \<Rightarrow>
          (Some a, upd_msg H1 a (\<lambda>m. m\<lparr>encs := 0, uuid := uuid req, orig := orig req\<rparr>)))"

subsection \<open>Reference counting\<close>

definition eaf_msg_add_ref :: "mheap \<Rightarrow> addr \<Rightarrow> mheap option" where
  "eaf_msg_add_ref H a =
     (case H a of None \<Rightarrow> None | Some m \<Rightarrow> Some (H(a \<mapsto> m\<lparr>refcnt := refcnt m + 1\<rparr>)))"

definition eaf_msg_dec_ref :: "mheap \<Rightarrow> addr \<Rightarrow> mheap option" where
  "eaf_msg_dec_ref H a =
     (case H a of None \<Rightarrow> None
      | Some m \<Rightarrow>
          let H1 = H(a \<mapsto> m\<lparr>refcnt := refcnt m - 1\<rparr>); need_destroy = (refcnt m - 1 = 0) in
          Some (if \<not> need_destroy then H1 else eaf_msg_destroy H1 a))"

subsection \<open>Accessors\<close>

text \<open>The address of the payload is represented by the address of its message.\<close>

definition eaf_msg_get_data :: "mheap \<Rightarrow> addr \<Rightarrow> (ptr \<times> size_t) option" where
  "eaf_msg_get_data H a =
     (case H a of None \<Rightarrow> None
      | Some m \<Rightarrow> Some (if data_size m \<noteq> 0 then Some a else None, data_size m))"

definition eaf_msg_get_type :: "eaf_msg \<Rightarrow> msg_type" where
  "eaf_msg_get_type m = (if encs m AND EAF_MSG_ENCS_REQ \<noteq> 0 then eaf_msg_type_req else eaf_msg_type_rsp)"

definition eaf_msg_set_rsp_fn :: "eaf_msg \<Rightarrow> fnptr \<Rightarrow> eaf_msg" where
  "eaf_msg_set_rsp_fn m fn = m\<lparr>orig := fn\<rparr>"

definition eaf_msg_get_rsp_fn :: "eaf_msg \<Rightarrow> fnptr" where
  "eaf_msg_get_rsp_fn m = orig m"

text \<open>Negating \<open>INT_MIN\<close> is undefined.\<close>

definition eaf_msg_set_receipt :: "eaf_msg \<Rightarrow> i32 \<Rightarrow> eaf_msg option" where
  "eaf_msg_set_receipt m receipt =
     (if sint receipt = - (2 ^ 31) then None
      else let r = (if sint receipt < 0 then - receipt else receipt);
               e = encs m AND 0xFFFFFFFFFFFF8000 in
        Some (m\<lparr>encs := e OR scast (r AND 0x7FFF)\<rparr>))"

definition eaf_msg_get_receipt :: "eaf_msg \<Rightarrow> int" where
  "eaf_msg_get_receipt m = - sint (ucast (encs m AND 0x7FFF) :: i32)"

definition eaf_msg_set_token :: "eaf_msg \<Rightarrow> i32 \<Rightarrow> eaf_msg" where
  "eaf_msg_set_token m token =
     (let e = encs m AND 0xFFFFFFFF in m\<lparr>encs := e OR push_bit 32 (scast token)\<rparr>)"

definition eaf_msg_get_token :: "eaf_msg \<Rightarrow> i32" where
  "eaf_msg_get_token m = ucast (drop_bit 32 (encs m))"

subsection \<open>The packed word\<close>

lemma masks:
  "(0xFFFFFFFF :: u64) = mask 32" "(0x7FFF :: u64) = mask 15" "(0x7FFF :: i32) = mask 15"
  "(0xFFFFFFFFFFFF8000 :: u64) = NOT (mask 15)"
  by (simp_all add: mask_eq_exp_minus_1 not_eq_complement)

lemmas encs_defs = eaf_msg_get_type_def eaf_msg_set_receipt_def eaf_msg_get_receipt_def
  eaf_msg_set_token_def eaf_msg_get_token_def EAF_MSG_ENCS_REQ_def masks

lemma get_type_bit: "eaf_msg_get_type m = (if bit (encs m) 15 then eaf_msg_type_req else eaf_msg_type_rsp)"
proof -
  have "encs m AND push_bit 15 1 \<noteq> 0 \<longleftrightarrow> bit (encs m) 15"
    by (simp add: bit_iff_and_push_bit_not_eq_0)
  then show ?thesis by (simp add: eaf_msg_get_type_def EAF_MSG_ENCS_REQ_def)
qed

lemma get_token_set_token: "eaf_msg_get_token (eaf_msg_set_token m t) = t"
  by (rule bit_word_eqI) (auto simp: encs_defs bit_simps)

lemma get_receipt_set_token: "eaf_msg_get_receipt (eaf_msg_set_token m t) = eaf_msg_get_receipt m"
proof -
  have "(encs m AND mask 32 OR push_bit 32 (scast t)) AND mask 15 = encs m AND (mask 15 :: u64)"
    by (rule bit_word_eqI) (auto simp: bit_simps)
  then show ?thesis by (simp add: encs_defs)
qed

lemma get_type_set_token: "eaf_msg_get_type (eaf_msg_set_token m t) = eaf_msg_get_type m"
  by (simp add: get_type_bit encs_defs bit_simps)

lemma uint_abs_word:
  fixes r :: i32
  assumes "sint r \<noteq> - (2 ^ 31)"
  shows "uint (if sint r < 0 then - r else r) = \<bar>sint r\<bar>"
proof (cases "sint r < 0")
  case True
  have "- (2 ^ 31) \<le> sint r" using sint_greater_eq [of r] by simp
  with True assms have *: "0 \<le> - sint r" "- sint r < 2 ^ 32" by simp_all
  have "uint (- r) = (- uint r) mod 2 ^ 32" by (simp add: uint_word_ariths)
  also have "\<dots> = (- sint r) mod 2 ^ 32"
    by (simp add: uint_sint take_bit_eq_mod mod_minus_eq)
  also have "\<dots> = - sint r" using * by simp
  finally show ?thesis using True by simp
next
  case False
  have "sint r < 2 ^ 31" using sint_less [of r] by simp
  with False have "take_bit 32 (sint r) = sint r" by (simp add: take_bit_int_eq_self)
  with False show ?thesis by (simp add: uint_sint)
qed

lemma receipt_bits:
  fixes e :: u64 and r :: i32
  shows "ucast ((e AND NOT (mask 15) OR scast (r AND mask 15)) AND mask 15) = r AND mask 15"
    and "bit (e AND NOT (mask 15) OR scast (r AND mask 15)) 15 = bit e 15"
    and "drop_bit 32 (e AND NOT (mask 15) OR scast (r AND mask 15)) = drop_bit 32 e"
  by (rule bit_word_eqI, auto simp: bit_simps dest: bit_imp_le_length)+

lemma sint_low_mask: "sint (r AND mask 15 :: i32) = uint r mod 2 ^ 15"
proof -
  have u: "uint (r AND mask 15) = uint r mod 2 ^ 15"
    by (metis take_bit_eq_mask take_bit_eq_mod unsigned_take_bit_eq)
  then have "uint (r AND mask 15) < 2 ^ 31"
    by (simp add: less_trans [OF pos_mod_bound])
  then have "sint (r AND mask 15) = uint (r AND mask 15)"
    by (simp add: sint_uint) (simp add: signed_take_bit_int_eq_self order_trans [of _ 0])
  with u show ?thesis by simp
qed

lemma set_receipt_effect:
  assumes "sint r \<noteq> - (2 ^ 31)"
  shows "\<exists>m'. eaf_msg_set_receipt m r = Some m' \<and> eaf_msg_get_receipt m' = - (\<bar>sint r\<bar> mod 2 ^ 15) \<and>
    eaf_msg_get_type m' = eaf_msg_get_type m \<and> eaf_msg_get_token m' = eaf_msg_get_token m \<and>
    m'\<lparr>encs := encs m\<rparr> = m"
proof -
  define r' :: i32 where "r' = (if sint r < 0 then - r else r)"
  have "uint r' = \<bar>sint r\<bar>" using uint_abs_word [OF assms] by (simp add: r'_def)
  then show ?thesis
    using assms receipt_bits [of "encs m" r'] sint_low_mask [of r']
    unfolding eaf_msg_set_receipt_def eaf_msg_get_receipt_def eaf_msg_get_token_def get_type_bit masks
    by (simp add: r'_def [symmetric] Let_def)
qed

subsection \<open>Reference counts as natural numbers\<close>

datatype ref_op = AddRef | DecRef

text \<open>A history of the two counting calls on one message, and its specification on natural numbers:
  \<open>None\<close> is a call on a message that is already gone.\<close>

fun run_refs :: "mheap \<Rightarrow> addr \<Rightarrow> ref_op list \<Rightarrow> mheap option" where
  "run_refs H a [] = Some H"
| "run_refs H a (AddRef # ops) = do { H1 \<leftarrow> eaf_msg_add_ref H a; run_refs H1 a ops }"
| "run_refs H a (DecRef # ops) = do { H1 \<leftarrow> eaf_msg_dec_ref H a; run_refs H1 a ops }"

fun count_refs :: "nat \<Rightarrow> ref_op list \<Rightarrow> nat option" where
  "count_refs k [] = Some k"
| "count_refs k (AddRef # ops) = (if k = 0 then None else count_refs (k + 1) ops)"
| "count_refs k (DecRef # ops) = (if k = 0 then None else count_refs (k - 1) ops)"

definition with_refs :: "mheap \<Rightarrow> addr \<Rightarrow> eaf_msg_full \<Rightarrow> nat \<Rightarrow> mheap" where
  "with_refs H a m k = H(a := if k = 0 then None else Some (m\<lparr>refcnt := of_nat k\<rparr>))"

lemma of_nat_eq_0_word: "k < 2 ^ 64 \<Longrightarrow> (of_nat k :: size_t) = 0 \<longleftrightarrow> k = 0"
  by (simp add: word_of_nat_eq_0_iff nat_dvd_not_less) (auto dest: nat_dvd_not_less)

lemma add_ref_with_refs: "0 < k \<Longrightarrow> eaf_msg_add_ref (with_refs H a m k) a = Some (with_refs H a m (k + 1))"
  by (simp add: eaf_msg_add_ref_def with_refs_def add.commute)

lemma dec_ref_with_refs:
  "0 < k \<Longrightarrow> k < 2 ^ 64 \<Longrightarrow> eaf_msg_dec_ref (with_refs H a m k) a = Some (with_refs H a m (k - 1))"
  using of_nat_eq_0_word [of "k - 1"]
  by (simp add: eaf_msg_dec_ref_def eaf_msg_destroy_def with_refs_def of_nat_diff Let_def)

lemma refs_gone:
  "eaf_msg_add_ref (with_refs H a m 0) a = None" "eaf_msg_dec_ref (with_refs H a m 0) a = None"
  by (simp_all add: eaf_msg_add_ref_def eaf_msg_dec_ref_def with_refs_def)

lemma run_refs_count:
  "k + length ops < 2 ^ 64 \<Longrightarrow>
     run_refs (with_refs H a m k) a ops = map_option (with_refs H a m) (count_refs k ops)"
proof (induction ops arbitrary: k)
  case (Cons oper ops)
  show ?case
  proof (cases "k = 0")
    case True
    then show ?thesis by (cases oper) (simp_all add: refs_gone)
  next
    case False
    with Cons.prems Cons.IH [of "k + 1"] Cons.IH [of "k - 1"] show ?thesis
      by (cases oper) (simp_all add: add_ref_with_refs dec_ref_with_refs)
  qed
qed simp

subsection \<open>Properties\<close>

text \<open>receipt, request flag and token share one 64-bit word without disturbing each other. A token is
  read back as it was set, for every \<open>int\<close>; setting a receipt never fails for any value but
  \<open>INT_MIN\<close>, and reads back as minus its absolute value modulo \<open>2 ^ 15\<close> (so error codes, which are
  negative and small, are read back exactly).\<close>

theorem msg_word_fields:
  assumes "sint r \<noteq> - (2 ^ 31)"
  shows "\<exists>m'. eaf_msg_set_receipt m r = Some m' \<and> eaf_msg_get_receipt m' = - (\<bar>sint r\<bar> mod 2 ^ 15) \<and>
    eaf_msg_get_type m' = eaf_msg_get_type m \<and> eaf_msg_get_token m' = eaf_msg_get_token m \<and>
    eaf_msg_get_token (eaf_msg_set_token m' t) = t \<and>
    eaf_msg_get_receipt (eaf_msg_set_token m' t) = eaf_msg_get_receipt m' \<and>
    eaf_msg_get_type (eaf_msg_set_token m' t) = eaf_msg_get_type m"
  using set_receipt_effect [OF assms, of m]
  by (auto simp: get_token_set_token get_receipt_set_token get_type_set_token)

theorem msg_word_fields_witness:
  "\<exists>m'. eaf_msg_set_receipt \<lparr>msg_id = 1, msg_from = 2, encs = EAF_MSG_ENCS_REQ, uuid = 3, orig = 4\<rparr> (- 4) = Some m' \<and>
     eaf_msg_get_receipt m' = - 4"
  using msg_word_fields [of "- 4" "\<lparr>msg_id = 1, msg_from = 2, encs = EAF_MSG_ENCS_REQ, uuid = 3, orig = 4\<rparr>"]
  by auto

definition demo_msg :: eaf_msg_full where
  "demo_msg = \<lparr>msg = \<lparr>msg_id = 9, msg_from = 8, encs = 77, uuid = 6, orig = 5\<rparr>, refcnt = 1, data_size = 0\<rparr>"

text \<open>C39: a message whose counter stands at \<open>k\<close> follows the natural-number counter through every
  sequence of \<open>eaf_msg_add_ref\<close> and \<open>eaf_msg_dec_ref\<close>: it is freed exactly when the count reaches
  0, no other object changes, and the only sequences that touch freed memory are those that make a
  call after the count reached 0.\<close>

theorem msg_refcount:
  assumes "H a = Some m" "refcnt m = of_nat k" "0 < k" "k + length ops < 2 ^ 64"
  shows "run_refs H a ops =
    (case count_refs k ops of
       None \<Rightarrow> None
     | Some j \<Rightarrow> Some (H(a := if j = 0 then None else Some (m\<lparr>refcnt := of_nat j\<rparr>))))"
proof -
  have "with_refs H a m k = H" using assms(1-3) by (auto simp: with_refs_def)
  with run_refs_count [OF assms(4), of H a m] show ?thesis
    by (simp add: with_refs_def split: option.splits)
qed

theorem msg_refcount_witness:
  "run_refs [7 \<mapsto> demo_msg] 7 [AddRef, DecRef, DecRef] = Some Map.empty"
  using msg_refcount [of "[7 \<mapsto> demo_msg]" 7 demo_msg 1 "[AddRef, DecRef, DecRef]"]
  by (simp add: demo_msg_def)


lemma create_req_eq:
  assumes "malloc env (sizeof_msg_full env + sz) = Some a" "0 \<le> lock_init env"
  shows "eaf_msg_create_req env H i sz fn =
    (Some a, H(a \<mapsto> (fresh_memory env)\<lparr>refcnt := 1, data_size := sz,
       msg := (msg (fresh_memory env))\<lparr>msg_id := i, msg_from := - 1, encs := EAF_MSG_ENCS_REQ, uuid := of_nat a, orig := fn\<rparr>\<rparr>))"
  using assms by (simp add: eaf_msg_create_req_def eaf_msg_create_def upd_msg_def Let_def)

lemma create_rsp_eq:
  assumes "malloc env (sizeof_msg_full env + sz) = Some a" "0 \<le> lock_init env"
  shows "eaf_msg_create_rsp env H req sz =
    (Some a, H(a \<mapsto> (fresh_memory env)\<lparr>refcnt := 1, data_size := sz,
       msg := (msg (fresh_memory env))\<lparr>msg_id := msg_id req, msg_from := - 1, encs := 0, uuid := uuid req, orig := orig req\<rparr>\<rparr>))"
  using assms by (simp add: eaf_msg_create_rsp_def eaf_msg_create_def upd_msg_def Let_def)

lemma create_fails:
  assumes "malloc env (sizeof_msg_full env + sz) = None \<or> lock_init env < 0"
    and "\<And>a. malloc env (sizeof_msg_full env + sz) = Some a \<Longrightarrow> H a = None"
  shows "eaf_msg_create_req env H i sz fn = (None, H)" "eaf_msg_create_rsp env H req sz = (None, H)"
  using assms
  by (auto simp: eaf_msg_create_req_def eaf_msg_create_rsp_def eaf_msg_create_def Let_def
      intro!: ext split: option.splits)

text \<open>a response created from a request is a response with the request's id, and carries the request's
  unique id and response handler, so the sender's handler is found from the response alone; both
  start with one reference and the requested payload size, whatever the fresh memory held. The
  response's fields do not alias the request.\<close>

theorem msg_response_carries_request:
  assumes "malloc env (sizeof_msg_full env + sz) = Some a" "malloc env (sizeof_msg_full env + sz') = Some b"
    and "a \<noteq> b" "0 \<le> lock_init env"
  shows "\<exists>H1 H2 q r. eaf_msg_create_req env H i sz fn = (Some a, H1) \<and> H1 a = Some q \<and>
    eaf_msg_create_rsp env H1 (msg q) sz' = (Some b, H2) \<and> H2 b = Some r \<and> H2 a = Some q \<and>
    eaf_msg_get_type (msg q) = eaf_msg_type_req \<and> eaf_msg_get_type (msg r) = eaf_msg_type_rsp \<and>
    msg_id (msg r) = i \<and> uuid (msg r) = of_nat a \<and> eaf_msg_get_rsp_fn (msg r) = fn \<and>
    refcnt q = 1 \<and> refcnt r = 1 \<and>
    eaf_msg_get_data H2 b = Some (if sz' = 0 then None else Some b, sz')"
proof -
  have "eaf_msg_get_type (m\<lparr>encs := EAF_MSG_ENCS_REQ\<rparr>) = eaf_msg_type_req"
    "eaf_msg_get_type (m\<lparr>encs := 0\<rparr>) = eaf_msg_type_rsp" for m :: eaf_msg
    by (simp_all add: get_type_bit EAF_MSG_ENCS_REQ_def bit_simps)
  then show ?thesis
    using create_req_eq [OF assms(1,4), of H i fn] create_rsp_eq [OF assms(2,4)] assms(3)
    by (simp add: get_type_bit eaf_msg_get_rsp_fn_def eaf_msg_get_data_def)
qed

text \<open>An environment whose \<open>malloc\<close> places a block according to its size, with dirty memory.\<close>

definition demo_env :: msg_env where
  "demo_env = \<lparr>malloc = (\<lambda>n. if n = 100 then Some 16 else if n = 92 then Some 32 else None), lock_init = 0,
     sizeof_msg_full = 88, fresh_memory = demo_msg\<rparr>"

theorem msg_response_carries_request_witness:
  "\<exists>H1 H2 q r. eaf_msg_create_req demo_env Map.empty 5 12 77 = (Some 16, H1) \<and> H1 16 = Some q \<and>
    eaf_msg_create_rsp demo_env H1 (msg q) 4 = (Some 32, H2) \<and> H2 32 = Some r \<and>
    eaf_msg_get_type (msg r) = eaf_msg_type_rsp \<and> eaf_msg_get_rsp_fn (msg r) = 77"
  using msg_response_carries_request [of demo_env 12 16 4 32 Map.empty 5 77]
  by (auto simp: demo_env_def)

text \<open>when \<open>malloc\<close> or the lock constructor fails, both constructors return \<open>NULL\<close> and leave the
  heap as it was: nothing leaks.\<close>

theorem msg_create_failure:
  assumes "malloc env (sizeof_msg_full env + sz) = None \<or> lock_init env < 0"
    and "\<And>a. malloc env (sizeof_msg_full env + sz) = Some a \<Longrightarrow> H a = None"
  shows "eaf_msg_create_req env H i sz fn = (None, H) \<and> eaf_msg_create_rsp env H req sz = (None, H)"
  using create_fails [OF assms] by simp

theorem msg_create_failure_witness:
  "eaf_msg_create_req (demo_env\<lparr>lock_init := - 1\<rparr>) [7 \<mapsto> demo_msg] 5 12 77 = (None, [7 \<mapsto> demo_msg])"
  using msg_create_failure [of "demo_env\<lparr>lock_init := - 1\<rparr>" 12 "[7 \<mapsto> demo_msg]" 5 77 "msg demo_msg"]
  by (simp add: demo_env_def)

end
