(* ===== verification/ClockTime.thy ===== *)
theory ClockTime
  imports Errno
begin

text \<open>
  Clock arithmetic of \<open>powerpack/src/powerpack/time.c\<close> on 64-bit seconds and 32-bit nanoseconds
  (which need not be normalised), with the wrap-around of both fields, and the calendar conversion
  \<open>eaf_time_getsystem\<close>. The libc clock calls are parameters.
\<close>

subsection \<open>Clock values\<close>

datatype clock_time = Clock (tv_sec: u64) (tv_nsec: u32)

text \<open>The order of the clock: seconds first, then nanoseconds.\<close>

instantiation clock_time :: linorder
begin

definition less_eq_clock_time :: "clock_time \<Rightarrow> clock_time \<Rightarrow> bool" where
  "less_eq_clock_time a b \<longleftrightarrow> tv_sec a < tv_sec b \<or> tv_sec a = tv_sec b \<and> tv_nsec a \<le> tv_nsec b"

definition less_clock_time :: "clock_time \<Rightarrow> clock_time \<Rightarrow> bool" where
  "less_clock_time a b \<longleftrightarrow> tv_sec a < tv_sec b \<or> tv_sec a = tv_sec b \<and> tv_nsec a < tv_nsec b"

instance
  by standard (auto simp: less_eq_clock_time_def less_clock_time_def clock_time.expand)

end

definition MSEC_IN_SEC :: nat where "MSEC_IN_SEC = 1000"
definition USEC_IN_SEC :: nat where "USEC_IN_SEC = MSEC_IN_SEC * 1000"
definition NSEC_IN_SEC :: nat where "NSEC_IN_SEC = USEC_IN_SEC * 1000"

lemma NSEC_IN_SEC [simp]: "NSEC_IN_SEC = 1000000000"
  by (simp add: NSEC_IN_SEC_def USEC_IN_SEC_def MSEC_IN_SEC_def)

definition EAF_TIME_IGNORE_OVERFLOW :: u32 where
  "EAF_TIME_IGNORE_OVERFLOW = 1"

abbreviation ignores :: "u32 \<Rightarrow> bool" where
  "ignores flags \<equiv> flags AND EAF_TIME_IGNORE_OVERFLOW \<noteq> 0"

text \<open>The value of a clock in nanoseconds, as a natural number.\<close>

definition nanos :: "clock_time \<Rightarrow> nat" where
  "nanos t = unat (tv_sec t) * 1000000000 + unat (tv_nsec t)"

definition normal :: "clock_time \<Rightarrow> bool" where
  "normal t \<longleftrightarrow> unat (tv_nsec t) < 1000000000"

text \<open>The normalised clock of a number of nanoseconds, seconds modulo \<open>2 ^ 64\<close>.\<close>

definition clock_of :: "nat \<Rightarrow> clock_time" where
  "clock_of n = Clock (of_nat (n div 1000000000)) (of_nat (n mod 1000000000))"

subsection \<open>Comparison and difference\<close>

definition eaf_time_diffclock :: "clock_time \<Rightarrow> clock_time \<Rightarrow> int \<times> clock_time" where
  "eaf_time_diffclock t1 t2 =
     (let large_is_t1 =
            (if tv_sec t1 > tv_sec t2 then True
             else if tv_sec t1 < tv_sec t2 then False
             else tv_nsec t1 > tv_nsec t2);
          large_t = (if large_is_t1 then t1 else t2);
          little_t = (if large_is_t1 then t2 else t1);
          sec = tv_sec large_t - tv_sec little_t;
          dif = (if tv_nsec large_t < tv_nsec little_t
                 then Clock (sec - 1) (tv_nsec little_t - tv_nsec large_t)
                 else Clock sec (tv_nsec large_t - tv_nsec little_t)) in
      (if tv_sec dif = 0 \<and> tv_nsec dif = 0 then 0 else if \<not> large_is_t1 then - 1 else 1, dif))"

subsection \<open>Normalisation and addition\<close>

text \<open>The loop \<open>while (nsec >= NSEC_IN_SEC)\<close>, which appears three times.\<close>

function nsec_loop :: "u64 \<Rightarrow> u32 \<Rightarrow> u64 \<times> u32" where
  "nsec_loop s n =
     (if of_nat NSEC_IN_SEC \<le> n then nsec_loop (s + 1) (n - of_nat NSEC_IN_SEC) else (s, n))"
  by pat_completeness auto
termination
  by (relation "measure (\<lambda>(s, n). unat n)") (auto simp: word_le_nat_alt unat_sub)

declare nsec_loop.simps [simp del]

definition eaf_time_fmtclock_ext :: "clock_time \<Rightarrow> clock_time \<Rightarrow> u32 \<Rightarrow> int \<times> clock_time" where
  "eaf_time_fmtclock_ext dst src flags =
     (let (s, n) = nsec_loop (tv_sec src) (tv_nsec src);
          tmp = Clock s n;
          flag_overflow = (tv_sec tmp < tv_sec src) in
      if flag_overflow \<and> \<not> ignores flags then (- 1, dst)
      else (if flag_overflow then - 1 else 0, tmp))"

text \<open>
  The steps add up their overflow flags in one integer: the first contributes the \<open>- 1\<close> returned by
  \<open>eaf_time_fmtclock_ext\<close>, the others \<open>1\<close>.
\<close>

definition eaf_time_addclock_ext :: "clock_time \<Rightarrow> clock_time \<Rightarrow> clock_time \<Rightarrow> u32 \<Rightarrow> int \<times> clock_time" where
  "eaf_time_addclock_ext dst src dif flags =
     (let fin = (\<lambda>flag. if flag \<noteq> 0 then - 1 else 0 :: int);
          (step1, tmp1) = eaf_time_fmtclock_ext src src flags;
          flag1 = step1 in
      if step1 \<noteq> 0 \<and> \<not> ignores flags then (fin flag1, dst)
      else let
          sec2 = tv_sec tmp1 + tv_sec dif;
          step2 = (if sec2 < tv_sec tmp1 then 1 else 0 :: int);
          flag2 = flag1 + step2 in
      if step2 \<noteq> 0 \<and> \<not> ignores flags then (fin flag2, dst)
      else let
          (sec3, tmp_nsec) = nsec_loop sec2 (tv_nsec dif);
          step3 = (if sec3 < sec2 then 1 else 0 :: int);
          flag3 = flag2 + step3 in
      if step3 \<noteq> 0 \<and> \<not> ignores flags then (fin flag3, dst)
      else let
          nsec3 = tv_nsec tmp1 + tmp_nsec;
          (sec4, nsec4) = nsec_loop sec3 nsec3;
          step4 = (if sec4 < sec3 then 1 else 0 :: int);
          flag4 = flag3 + step4 in
      if step4 \<noteq> 0 \<and> \<not> ignores flags then (fin flag4, dst)
      else (fin flag4, Clock sec4 nsec4))"

definition eaf_time_addclock :: "clock_time \<Rightarrow> clock_time \<Rightarrow> int \<times> clock_time" where
  "eaf_time_addclock dst dif = eaf_time_addclock_ext dst dst dif 0"

text \<open>The loop that splits milliseconds into seconds and the rest.\<close>

function msec_loop :: "u64 \<Rightarrow> u64 \<Rightarrow> u64 \<times> u64" where
  "msec_loop sec msec =
     (if of_nat MSEC_IN_SEC \<le> msec then msec_loop (sec + 1) (msec - of_nat MSEC_IN_SEC) else (sec, msec))"
  by pat_completeness auto
termination
  by (relation "measure (\<lambda>(s, n). unat n)") (auto simp: word_le_nat_alt unat_sub MSEC_IN_SEC_def)

declare msec_loop.simps [simp del]

definition eaf_time_addclock_msec :: "clock_time \<Rightarrow> u64 \<Rightarrow> int \<times> clock_time" where
  "eaf_time_addclock_msec dst msec =
     (let (sec, rest) = msec_loop 0 msec in
      eaf_time_addclock dst (Clock sec (ucast (rest * 1000 * 1000))))"


subsection \<open>Reading the clocks\<close>

text \<open>
  The POSIX branch of the readers. \<open>gettimeofday\<close>, \<open>clock_gettime\<close>, \<open>time\<close> and
  \<open>gmtime_r\<close> are parameters: \<open>None\<close> is a failing call. \<open>calendar_time\<close> and \<open>tm\<close>
  have the fields of \<open>eaf_calendar_time_t\<close> and of the libc structure.
\<close>

record calendar_time =
  year :: u32
  month :: u32
  day :: u32
  hour :: u32
  minute :: u32
  second :: u32
  mseconds :: u32

record tm =
  tm_sec :: u32
  tm_min :: u32
  tm_hour :: u32
  tm_mday :: u32
  tm_mon :: u32
  tm_year :: u32
  tm_yday :: u32

definition eaf_time_get :: "(u64 \<times> u64) option \<Rightarrow> clock_time \<Rightarrow> int \<times> clock_time" where
  "eaf_time_get gettimeofday tv =
     (case gettimeofday of
        None \<Rightarrow> (eaf_errno_unknown, tv)
      | Some (sec, usec) \<Rightarrow> (0, Clock sec (ucast usec * 1000)))"

definition eaf_time_getclock :: "(u64 \<times> u64) option \<Rightarrow> clock_time \<Rightarrow> int \<times> clock_time" where
  "eaf_time_getclock clock_gettime ts =
     (case clock_gettime of None \<Rightarrow> (- 1, ts) | Some (sec, nsec) \<Rightarrow> (0, Clock sec (ucast nsec)))"

definition eaf_time_getsystem ::
  "u64 option \<Rightarrow> (u64 \<Rightarrow> tm option) \<Rightarrow> (u64 \<times> u64) option \<Rightarrow> calendar_time \<Rightarrow> int \<times> calendar_time" where
  "eaf_time_getsystem time gmtime_r gettimeofday tv =
     (case time of
        None \<Rightarrow> (eaf_errno_unknown, tv)
      | Some cur_time \<Rightarrow>
          (case gmtime_r cur_time of
             None \<Rightarrow> (eaf_errno_unknown, tv)
           | Some t \<Rightarrow>
               let (ret, tmp_clock) = eaf_time_get gettimeofday (Clock 0 0) in
               if ret < 0 then (eaf_errno_unknown, tv)
               else (eaf_errno_success,
                 \<lparr>year = tm_yday t + 1900, month = tm_mon t + 1, day = tm_mday t, hour = tm_hour t,
                  minute = tm_min t, second = tm_sec t, mseconds = tv_nsec tmp_clock div 1000 div 1000\<rparr>)))"

subsection \<open>The loops in closed form, and sums of clocks\<close>

lemma nsec_loop_eq:
  "nsec_loop s n = (s + of_nat (unat n div 1000000000), of_nat (unat n mod 1000000000))"
proof (induction s n rule: nsec_loop.induct)
  case (1 s n)
  show ?case
  proof (cases "1000000000 \<le> n")
    case True
    then have le: "1000000000 \<le> unat n" by (simp add: word_le_nat_alt)
    then have d: "unat (n - 1000000000) = unat n - 1000000000"
      using True by (simp add: unat_sub)
    have m: "unat n div 1000000000 = Suc ((unat n - 1000000000) div 1000000000)"
      "unat n mod 1000000000 = (unat n - 1000000000) mod 1000000000"
      using le by (simp_all add: le_div_geq le_mod_geq)
    from True "1.IH" show ?thesis
      unfolding m by (subst nsec_loop.simps) (simp add: d algebra_simps)
  next
    case False
    then have "unat n < 1000000000" by (simp add: word_le_nat_alt)
    with False show ?thesis by (subst nsec_loop.simps) simp
  qed
qed

lemma msec_loop_eq:
  "msec_loop s n = (s + of_nat (unat n div 1000), of_nat (unat n mod 1000))"
proof (induction s n rule: msec_loop.induct)
  case (1 s n)
  show ?case
  proof (cases "1000 \<le> n")
    case True
    then have le: "1000 \<le> unat n" by (simp add: word_le_nat_alt)
    then have d: "unat (n - 1000) = unat n - 1000"
      using True by (simp add: unat_sub)
    have m: "unat n div 1000 = Suc ((unat n - 1000) div 1000)"
      "unat n mod 1000 = (unat n - 1000) mod 1000"
      using le by (simp_all add: le_div_geq le_mod_geq)
    from True "1.IH" show ?thesis
      unfolding m by (subst msec_loop.simps) (simp add: MSEC_IN_SEC_def d algebra_simps)
  next
    case False
    then have "unat n < 1000" by (simp add: word_le_nat_alt)
    with False show ?thesis by (subst msec_loop.simps) (simp add: MSEC_IN_SEC_def)
  qed
qed

lemma word_add_no_overflow:
  fixes s :: u64
  assumes "unat s + k < 2 ^ 64"
  shows "unat (s + of_nat k) = unat s + k"
  using assms by (simp add: unat_word_ariths unat_of_nat)

lemma carry_div:
  fixes G :: nat
  assumes "0 < G"
  shows "(s * G + n + (t * G + m)) div G = s + n div G + t + m div G + (n mod G + m mod G) div G"
    and "(s * G + n + (t * G + m)) mod G = (n mod G + m mod G) mod G"
proof -
  have *: "s * G + n + (t * G + m) = (n + m) + (s + t) * G" by (simp add: algebra_simps)
  show "(s * G + n + (t * G + m)) div G = s + n div G + t + m div G + (n mod G + m mod G) div G"
    unfolding * using assms by (simp only: div_mult_self1) (simp add: div_add1_eq [of n])
  show "(s * G + n + (t * G + m)) mod G = (n mod G + m mod G) mod G"
    unfolding * by (simp only: mod_mult_self1 mod_add_eq)
qed

lemma nanos_div_mod:
  "(nanos a + nanos b) div 1000000000 =
     unat (tv_sec a) + unat (tv_nsec a) div 1000000000 + unat (tv_sec b) + unat (tv_nsec b) div 1000000000 +
     (unat (tv_nsec a) mod 1000000000 + unat (tv_nsec b) mod 1000000000) div 1000000000"
  "(nanos a + nanos b) mod 1000000000 =
     (unat (tv_nsec a) mod 1000000000 + unat (tv_nsec b) mod 1000000000) mod 1000000000"
  by (simp_all only: nanos_def) (rule carry_div; simp)+

lemma nsec3_unat:
  fixes n m :: u32
  shows "unat (of_nat (unat n mod 1000000000) + of_nat (unat m mod 1000000000) :: u32) =
    unat n mod 1000000000 + unat m mod 1000000000"
proof -
  have "unat n mod 1000000000 < 1000000000" "unat m mod 1000000000 < 1000000000" by simp_all
  then have "unat n mod 1000000000 + unat m mod 1000000000 < 4294967296" by linarith
  then show ?thesis by (simp add: unat_word_ariths unat_of_nat)
qed

lemma clock_sum:
  "Clock (tv_sec a + of_nat (unat (tv_nsec a) div 1000000000) + tv_sec b + of_nat (unat (tv_nsec b) div 1000000000) +
       of_nat ((unat (tv_nsec a) mod 1000000000 + unat (tv_nsec b) mod 1000000000) div 1000000000))
     (of_nat ((unat (tv_nsec a) mod 1000000000 + unat (tv_nsec b) mod 1000000000) mod 1000000000)) =
   clock_of (nanos a + nanos b)"
  by (simp add: clock_of_def nanos_div_mod)

lemma addclock_ext_ignore:
  "ignores flags \<Longrightarrow> snd (eaf_time_addclock_ext dst src dif flags) = clock_of (nanos src + nanos dif)"
  unfolding clock_sum [symmetric]
  by (simp add: eaf_time_addclock_ext_def eaf_time_fmtclock_ext_def nsec_loop_eq nsec3_unat Let_def)

lemma addclock_ext_exact:
  assumes "\<not> ignores flags"
  shows "eaf_time_addclock_ext dst src dif flags =
    (if (nanos src + nanos dif) div 1000000000 < 2 ^ 64 then (0, clock_of (nanos src + nanos dif)) else (- 1, dst))"
proof -
  define q1 q2 q3 where "q1 = unat (tv_nsec src) div 1000000000" and "q2 = unat (tv_nsec dif) div 1000000000"
    and "q3 = (unat (tv_nsec src) mod 1000000000 + unat (tv_nsec dif) mod 1000000000) div 1000000000"
  have q: "q1 < 2 ^ 64" "q2 < 2 ^ 64" "q3 < 2 ^ 64"
    using unat_bound(2) [of "tv_nsec src"] unat_bound(2) [of "tv_nsec dif"] by (auto simp: q1_def q2_def q3_def)
  define s1 where "s1 = tv_sec src + of_nat q1"
  define s2 where "s2 = s1 + of_nat (unat (tv_sec dif))"
  define s3 where "s3 = s2 + of_nat q2"
  define s4 where "s4 = s3 + of_nat q3"
  have d: "unat (tv_sec dif) < 2 ^ 64" using unat_bound(1) [of "tv_sec dif"] by simp
  note lt = word_add_overflow [OF q(1), of "tv_sec src", folded s1_def]
    word_add_overflow [OF d, of s1, folded s2_def]
    word_add_overflow [OF q(2), of s2, folded s3_def] word_add_overflow [OF q(3), of s3, folded s4_def]
  have S: "(nanos src + nanos dif) div 1000000000 = unat (tv_sec src) + q1 + unat (tv_sec dif) + q2 + q3"
    by (simp add: nanos_div_mod q1_def q2_def q3_def)
  have eval: "eaf_time_addclock_ext dst src dif flags =
    (if s1 < tv_sec src \<or> s2 < s1 \<or> s3 < s2 \<or> s4 < s3 then (- 1, dst) else (0, clock_of (nanos src + nanos dif)))"
    unfolding clock_sum [symmetric] using assms
    by (simp add: eaf_time_addclock_ext_def eaf_time_fmtclock_ext_def nsec_loop_eq nsec3_unat Let_def
        s1_def s2_def s3_def s4_def q1_def q2_def q3_def)
  have "(s1 < tv_sec src \<or> s2 < s1 \<or> s3 < s2 \<or> s4 < s3) \<longleftrightarrow>
    2 ^ 64 \<le> unat (tv_sec src) + q1 + unat (tv_sec dif) + q2 + q3"
    using lt word_add_no_overflow [of "tv_sec src" q1, folded s1_def]
      word_add_no_overflow [of s1 "unat (tv_sec dif)", folded s2_def]
      word_add_no_overflow [of s2 q2, folded s3_def]
    by (smt (verit) add_le_same_cancel1 linorder_not_less trans_le_add1)
  then show ?thesis by (simp add: eval S)
qed

lemma addclock_msec_exact:
  "eaf_time_addclock_msec dst msec =
    (if (nanos dst + unat msec * 1000000) div 1000000000 < 2 ^ 64
     then (0, clock_of (nanos dst + unat msec * 1000000)) else (- 1, dst))"
proof -
  let ?d = "Clock (of_nat (unat msec div 1000)) (ucast (of_nat (unat msec mod 1000) * 1000 * 1000 :: u64))"
  have r: "unat msec mod 1000 * 1000000 < 2 ^ 32" by (simp add: less_le_trans [of _ "1000 * 1000000"])
  have "unat (of_nat (unat msec mod 1000) * 1000 * 1000 :: u64) = unat msec mod 1000 * 1000000"
    using r by (simp add: unat_word_ariths unat_of_nat)
  then have n: "unat (tv_nsec ?d) = unat msec mod 1000 * 1000000"
    using r by (simp add: unsigned_ucast_eq take_bit_eq_mod)
  have "unat msec div 1000 < 2 ^ 64" using unat_bound(1) [of msec] by simp
  then have s: "unat (tv_sec ?d) = unat msec div 1000" by (simp add: unat_of_nat)
  have "nanos ?d = unat msec div 1000 * 1000000000 + unat msec mod 1000 * 1000000"
    by (simp only: nanos_def n s)
  also have "\<dots> = (unat msec div 1000 * 1000 + unat msec mod 1000) * 1000000"
    by (simp only: add_mult_distrib mult.assoc)
  finally have N: "nanos ?d = unat msec * 1000000" by (simp only: div_mult_mod_eq)
  have "eaf_time_addclock_msec dst msec = eaf_time_addclock_ext dst dst ?d 0"
    by (simp add: eaf_time_addclock_msec_def msec_loop_eq eaf_time_addclock_def)
  with N show ?thesis
    using addclock_ext_exact [of 0 dst dst ?d] by (simp only: N) simp
qed

lemma diffclock_fst:
  "fst (eaf_time_diffclock a b) = (if a < b then - 1 else if a = b then 0 else 1)"
proof -
  have eq: "a = b \<longleftrightarrow> tv_sec a = tv_sec b \<and> tv_nsec a = tv_nsec b" by (auto simp: clock_time.expand)
  show ?thesis
    by (cases "tv_sec a" "tv_sec b" rule: linorder_cases; cases "tv_nsec a" "tv_nsec b" rule: linorder_cases)
      (auto simp: eaf_time_diffclock_def less_clock_time_def Let_def eq not_less_iff_gr_or_eq)
qed

lemma diffclock_snd:
  "snd (eaf_time_diffclock a b) =
    (let L = max a b; l = min a b; sec = tv_sec L - tv_sec l in
     if tv_nsec L < tv_nsec l then Clock (sec - 1) (tv_nsec l - tv_nsec L) else Clock sec (tv_nsec L - tv_nsec l))"
proof -
  have "a = b" if "tv_sec a = tv_sec b" "tv_nsec a = tv_nsec b" using that by (simp add: clock_time.expand)
  then show ?thesis
    by (auto simp: eaf_time_diffclock_def max_def min_def less_eq_clock_time_def Let_def not_less)
qed

lemma nanos_mono: "normal a \<Longrightarrow> normal b \<Longrightarrow> a \<le> b \<Longrightarrow> nanos a \<le> nanos b"
  by (auto simp: nanos_def normal_def less_eq_clock_time_def word_less_nat_alt word_le_nat_alt)

lemma diff_no_borrow:
  assumes "l \<le> L" "tv_nsec l \<le> tv_nsec L"
  shows "nanos (Clock (tv_sec L - tv_sec l) (tv_nsec L - tv_nsec l)) = nanos L - nanos l"
proof -
  have "tv_sec l \<le> tv_sec L" using assms(1) by (auto simp: less_eq_clock_time_def)
  with assms(2) show ?thesis
    by (simp add: nanos_def unat_sub word_le_nat_alt algebra_simps)
qed

lemma nat_gap: "(s + Suc d) * G + n - (s * G + (n + e)) = Suc d * G - (e :: nat)"
  by (simp only: add_mult_distrib)

lemma diff_borrow:
  assumes "l \<le> L" "tv_nsec L < tv_nsec l" "normal l"
  shows "nanos (Clock (tv_sec L - tv_sec l - 1) (tv_nsec l - tv_nsec L)) + 1000000000 =
    nanos L - nanos l + 2 * (unat (tv_nsec l) - unat (tv_nsec L))"
proof -
  have lt: "tv_sec l < tv_sec L" using assms by (auto simp: less_eq_clock_time_def)
  then have s: "unat (tv_sec L - tv_sec l) = unat (tv_sec L) - unat (tv_sec l)" "unat (tv_sec l) < unat (tv_sec L)"
    by (simp_all add: unat_sub word_less_nat_alt word_le_nat_alt)
  then have "1 \<le> tv_sec L - tv_sec l" by (simp add: word_le_nat_alt)
  then have s': "unat (tv_sec L - tv_sec l - 1) = unat (tv_sec L) - unat (tv_sec l) - 1"
    by (simp add: unat_sub s)
  have "unat (tv_nsec L) < unat (tv_nsec l)" using assms(2) by (simp add: word_less_nat_alt)
  then obtain e where e: "unat (tv_nsec l) = unat (tv_nsec L) + e" by (metis less_imp_add_positive)
  have "unat (tv_nsec l - tv_nsec L) = unat (tv_nsec l) - unat (tv_nsec L)"
    using assms(2) by (simp add: unat_sub)
  then have n: "unat (tv_nsec l - tv_nsec L) = e" by (simp add: e)
  obtain d where d: "unat (tv_sec L) = unat (tv_sec l) + Suc d" using less_imp_Suc_add [OF s(2)] by auto
  have "nanos (Clock (tv_sec L - tv_sec l - 1) (tv_nsec l - tv_nsec L)) = d * 1000000000 + e"
    by (simp only: nanos_def clock_time.sel s' n) (simp add: d)
  moreover have "nanos L - nanos l = Suc d * 1000000000 - e"
    unfolding nanos_def d e by (simp only: nat_gap)
  moreover have "e \<le> Suc d * 1000000000"
    using assms(3) e by (simp add: normal_def)
  ultimately show ?thesis by (simp add: e)
qed

subsection \<open>Properties\<close>

text \<open>the result of \<open>eaf_time_diffclock\<close> is the comparison of the two clocks in the order of
  seconds and nanoseconds, for every pair of clocks, normalised or not.\<close>

theorem time_compare:
  "fst (eaf_time_diffclock a b) = (if a < b then - 1 else if a = b then 0 else 1)"
  by (rule diffclock_fst)

text \<open>C40: addition is exact. \<open>eaf_time_addclock\<close> and \<open>eaf_time_addclock_msec\<close> store the normalised sum and
  return 0 when its seconds fit 64 bits; otherwise they return -1 and leave the destination
  untouched. With the ignore-overflow flag \<open>eaf_time_addclock_ext\<close> stores the sum with its seconds
  reduced modulo \<open>2 ^ 64\<close>. The loops end for all inputs.\<close>

theorem time_addition:
  "eaf_time_addclock dst dif =
     (if (nanos dst + nanos dif) div NSEC_IN_SEC < 2 ^ 64 then (0, clock_of (nanos dst + nanos dif)) else (- 1, dst)) \<and>
   eaf_time_addclock_msec dst msec =
     (if (nanos dst + unat msec * 1000000) div NSEC_IN_SEC < 2 ^ 64
      then (0, clock_of (nanos dst + unat msec * 1000000)) else (- 1, dst)) \<and>
   snd (eaf_time_addclock_ext dst src dif EAF_TIME_IGNORE_OVERFLOW) = clock_of (nanos src + nanos dif)"
  using addclock_ext_exact [of 0 dst dst dif] addclock_msec_exact [of dst msec]
    addclock_ext_ignore [of EAF_TIME_IGNORE_OVERFLOW dst src dif]
  by (simp add: eaf_time_addclock_def EAF_TIME_IGNORE_OVERFLOW_def)

text \<open>the difference stored by \<open>eaf_time_diffclock\<close> between two normalised clocks is exact when no
  borrow from the seconds is needed. When one is needed the nanoseconds are subtracted the wrong
  way round, and the stored difference is right only if the nanosecond fields are exactly half a
  second apart.\<close>

theorem time_difference:
  assumes "normal a" "normal b" "a \<le> b"
  shows "nanos (snd (eaf_time_diffclock b a)) = nanos b - nanos a \<longleftrightarrow>
    tv_nsec a \<le> tv_nsec b \<or> unat (tv_nsec a) - unat (tv_nsec b) = 500000000"
proof (cases "tv_nsec a \<le> tv_nsec b")
  case True
  with assms show ?thesis
    by (auto simp: diffclock_snd max_def min_def Let_def diff_no_borrow leD)
next
  case False
  then have lt: "tv_nsec b < tv_nsec a" by simp
  with assms(3) have "snd (eaf_time_diffclock b a) = Clock (tv_sec b - tv_sec a - 1) (tv_nsec a - tv_nsec b)"
    by (auto simp: diffclock_snd max_def min_def Let_def)
  with diff_borrow [OF assms(3) lt assms(1)] False show ?thesis by auto
qed

theorem time_difference_witness:
  "nanos (snd (eaf_time_diffclock (Clock 2 0) (Clock 1 999999999))) \<noteq> 1"
  using time_difference [of "Clock 1 999999999" "Clock 2 0"]
  by (simp add: normal_def less_eq_clock_time_def nanos_def)

text \<open>The two overflow flags of \<open>- 1\<close> and \<open>1\<close> cancel: a sum that wraps twice is reported as exact.\<close>

lemma addclock_lost_overflow:
  "eaf_time_addclock_ext (Clock 0 0) (Clock (- 1) 4000000000) (Clock (- 1) 0) EAF_TIME_IGNORE_OVERFLOW =
    (0, Clock 2 0)"
  by (simp add: eaf_time_addclock_ext_def eaf_time_fmtclock_ext_def nsec_loop_eq EAF_TIME_IGNORE_OVERFLOW_def)

text \<open>The calendar year is computed from the day of the year.\<close>

lemma getsystem_year:
  "time = Some c \<Longrightarrow> gmtime_r c = Some t \<Longrightarrow> tod = Some u \<Longrightarrow>
     year (snd (eaf_time_getsystem time gmtime_r tod tv)) = tm_yday t + 1900"
  by (simp add: eaf_time_getsystem_def eaf_time_get_def split: prod.splits)

end
