(* ===== verification/Hash.thy ===== *)
theory Hash
  imports Prelude
begin

text \<open>
  The BKDR hashes of \<open>powerpack/src/powerpack/hash.c\<close>: the loop over the bytes of the data, with the
  32-bit and the 64-bit accumulator wrapping at their own width.
\<close>

fun eaf_hash32_bkdr :: "u8 list \<Rightarrow> u32 \<Rightarrow> u32" where
  "eaf_hash32_bkdr [] seed = seed"
| "eaf_hash32_bkdr (b # p_dat) seed = eaf_hash32_bkdr p_dat (seed * 131313 + ucast b)"

fun eaf_hash64_bkdr :: "u8 list \<Rightarrow> u64 \<Rightarrow> u64" where
  "eaf_hash64_bkdr [] seed = seed"
| "eaf_hash64_bkdr (b # p_dat) seed = eaf_hash64_bkdr p_dat (seed * 131313 + ucast b)"

lemma hash_append:
  "eaf_hash32_bkdr (xs @ ys) s = eaf_hash32_bkdr ys (eaf_hash32_bkdr xs s)"
  "eaf_hash64_bkdr (xs @ ys) t = eaf_hash64_bkdr ys (eaf_hash64_bkdr xs t)"
  by (induction xs arbitrary: s t) auto

lemma ucast_step: "(ucast (t * 131313 + ucast (b :: u8) :: u64) :: u32) = ucast t * 131313 + ucast b"
proof -
  have "uint (t * 131313 + ucast b) mod 2 ^ 32 = (uint t * 131313 + uint b) mod 2 ^ 32"
  proof -
    have "uint (t * 131313 + ucast b) = (uint t * 131313 + uint b) mod 2 ^ 64"
      by (simp add: uint_word_ariths unsigned_ucast_eq take_bit_eq_mod mod_simps)
    then show ?thesis by (simp add: mod_mod_cancel)
  qed
  then have "uint (ucast (t * 131313 + ucast b :: u64) :: u32) = uint (ucast t * 131313 + ucast b :: u32)"
    by (simp add: unsigned_ucast_eq take_bit_eq_mod uint_word_ariths mod_simps)
  then show ?thesis by (simp add: word_uint_eq_iff)
qed

text \<open>Both hashes are incremental (hashing a concatenation continues from the hash of its first part,
  the seed being the hash of the empty string), and the 32-bit hash is the low half of the 64-bit
  one, so the two never disagree on 32 bits.\<close>

theorem hash_incremental:
  "eaf_hash32_bkdr (xs @ ys) s = eaf_hash32_bkdr ys (eaf_hash32_bkdr xs s) \<and>
   eaf_hash64_bkdr (xs @ ys) t = eaf_hash64_bkdr ys (eaf_hash64_bkdr xs t) \<and>
   ucast (eaf_hash64_bkdr xs t) = eaf_hash32_bkdr xs (ucast t)"
proof -
  have "ucast (eaf_hash64_bkdr xs t) = eaf_hash32_bkdr xs (ucast t)"
    by (induction xs arbitrary: t) (simp_all add: ucast_step)
  then show ?thesis by (simp add: hash_append)
qed

end
