(* ===== verification/MapLow.thy ===== *)
theory MapLow
  imports Prelude "HOL-Library.Tree"
begin

text \<open>
  The intrusive red-black tree of \<open>src/utils/map_low.c\<close> at pointer level: nodes with parent,
  children and colour on a heap, and every routine of the file as a transformer of heap and root.
  The word \<open>__rb_parent_color\<close> (parent address with the colour in bit 0) is kept as two fields;
  the packing itself is modelled and justified at the end of this theory. Representation and
  correctness are in the theories \<open>MapLowInsert\<close> and \<open>MapLowErase\<close>.

  The source writes each rebalancing step twice, for a left and for a right child, the second text
  being the mirror image of the first. Here the step has a parameter \<open>d\<close>: \<open>d = Lft\<close> is the first
  text and \<open>d = Rgt\<close> the second.
\<close>

subsection \<open>Nodes\<close>

datatype rb_color = RB_RED | RB_BLACK

record rb_node =
  rb_parent :: ptr
  rb_color :: rb_color
  rb_right :: ptr
  rb_left :: ptr

type_synonym rb_heap = "addr \<Rightarrow> rb_node"
type_synonym rb_state = "rb_heap \<times> ptr"

datatype side = Lft | Rgt

fun opp :: "side \<Rightarrow> side" where
  "opp Lft = Rgt"
| "opp Rgt = Lft"

fun child :: "side \<Rightarrow> rb_node \<Rightarrow> ptr" where
  "child Lft n = rb_left n"
| "child Rgt n = rb_right n"

fun upd_child :: "side \<Rightarrow> ptr \<Rightarrow> rb_node \<Rightarrow> rb_node" where
  "upd_child Lft p n = n\<lparr>rb_left := p\<rparr>"
| "upd_child Rgt p n = n\<lparr>rb_right := p\<rparr>"

definition set_child :: "side \<Rightarrow> rb_heap \<Rightarrow> addr \<Rightarrow> ptr \<Rightarrow> rb_heap" where
  "set_child d h a p = h(a := upd_child d p (h a))"

definition rb_is_red :: "rb_heap \<Rightarrow> addr \<Rightarrow> bool" where
  "rb_is_red h a \<longleftrightarrow> rb_color (h a) = RB_RED"

definition rb_is_black :: "rb_heap \<Rightarrow> addr \<Rightarrow> bool" where
  "rb_is_black h a \<longleftrightarrow> rb_color (h a) = RB_BLACK"

definition rb_set_black :: "rb_heap \<Rightarrow> addr \<Rightarrow> rb_heap" where
  "rb_set_black h a = h(a := (h a)\<lparr>rb_color := RB_BLACK\<rparr>)"

text \<open>The parent word read without masking the colour bit: an address only for a red node.\<close>

definition rb_red_parent :: "rb_heap \<Rightarrow> addr \<Rightarrow> ptr option" where
  "rb_red_parent h a = (if rb_is_red h a then Some (rb_parent (h a)) else None)"

definition rb_set_parent_color :: "rb_heap \<Rightarrow> addr \<Rightarrow> ptr \<Rightarrow> rb_color \<Rightarrow> rb_heap" where
  "rb_set_parent_color h a p c = h(a := (h a)\<lparr>rb_parent := p, rb_color := c\<rparr>)"

definition rb_set_parent :: "rb_heap \<Rightarrow> addr \<Rightarrow> ptr \<Rightarrow> rb_heap" where
  "rb_set_parent h a p = h(a := (h a)\<lparr>rb_parent := p\<rparr>)"

text \<open>\<open>if (p) rb_set_parent_color(p, q, c)\<close>, \<open>p && rb_is_red(p)\<close> and \<open>!p || rb_is_black(p)\<close>.\<close>

definition set_pc_if :: "rb_heap \<Rightarrow> ptr \<Rightarrow> ptr \<Rightarrow> rb_color \<Rightarrow> rb_heap" where
  "set_pc_if h p q c = (case p of None \<Rightarrow> h | Some a \<Rightarrow> rb_set_parent_color h a q c)"

definition red_ptr :: "rb_heap \<Rightarrow> ptr \<Rightarrow> bool" where
  "red_ptr h p = (case p of None \<Rightarrow> False | Some a \<Rightarrow> rb_is_red h a)"

definition rb_change_child :: "addr \<Rightarrow> ptr \<Rightarrow> ptr \<Rightarrow> rb_state \<Rightarrow> rb_state" where
  "rb_change_child old_node new_node parent st =
     (case st of (h, root) \<Rightarrow>
        (case parent of
           Some p \<Rightarrow>
             if rb_left (h p) = Some old_node then (set_child Lft h p new_node, root)
             else (set_child Rgt h p new_node, root)
         | None \<Rightarrow> (h, new_node)))"

definition rb_rotate_set_parents :: "addr \<Rightarrow> addr \<Rightarrow> rb_state \<Rightarrow> rb_color \<Rightarrow> rb_state" where
  "rb_rotate_set_parents old new_node st color =
     (case st of (h, root) \<Rightarrow>
        let parent = rb_parent (h old);
            h1 = h(new_node := (h new_node)\<lparr>rb_parent := rb_parent (h old), rb_color := rb_color (h old)\<rparr>);
            h2 = rb_set_parent_color h1 old (Some new_node) color in
        rb_change_child old (Some new_node) parent (h2, root))"

subsection \<open>Insertion\<close>

text \<open>
  Case 1 (uncle \<open>u\<close> red) and cases 2 and 3 (rotations) of the loop body, for a parent \<open>p\<close> that is
  the \<open>d\<close>-child of the grandparent \<open>g\<close>.
\<close>

definition rb_insert_flip :: "addr \<Rightarrow> addr \<Rightarrow> addr \<Rightarrow> rb_heap \<Rightarrow> ptr \<times> rb_heap" where
  "rb_insert_flip u p g h =
     (let h1 = rb_set_parent_color h u (Some g) RB_BLACK;
          h2 = rb_set_parent_color h1 p (Some g) RB_BLACK;
          parent = rb_parent (h2 g) in
      (parent, rb_set_parent_color h2 g parent RB_RED))"

definition rb_insert_rotate :: "side \<Rightarrow> addr \<Rightarrow> addr \<Rightarrow> addr \<Rightarrow> rb_state \<Rightarrow> rb_state" where
  "rb_insert_rotate d node p g st =
     (case st of (h, root) \<Rightarrow>
        let tmp = child (opp d) (h p);
            (parent, tmp, h) =
              (if Some node = tmp then
                 let tmp = child d (h node);
                     h1 = set_child (opp d) h p tmp;
                     h2 = set_child d h1 node (Some p);
                     h3 = set_pc_if h2 tmp (Some p) RB_BLACK;
                     h4 = rb_set_parent_color h3 p (Some node) RB_RED in
                 (node, child (opp d) (h4 node), h4)
               else (p, tmp, h));
            h5 = set_child d h g tmp;
            h6 = set_child (opp d) h5 parent (Some g);
            h7 = set_pc_if h6 tmp (Some g) RB_BLACK in
        rb_rotate_set_parents g parent (h7, root) RB_RED)"

partial_function (option) rb_insert_loop :: "addr \<Rightarrow> ptr \<Rightarrow> rb_state \<Rightarrow> rb_state option" where
  "rb_insert_loop node parent st =
     (case st of (h, root) \<Rightarrow>
        (case parent of
           None \<Rightarrow> Some (rb_set_parent_color h node None RB_BLACK, root)
         | Some p \<Rightarrow>
             if rb_is_black h p then Some (h, root)
             else do {
               gparent \<leftarrow> rb_red_parent h p;
               g \<leftarrow> gparent;
               let d = (if rb_right (h g) \<noteq> Some p then Lft else Rgt);
               let tmp = child (opp d) (h g);
               if red_ptr h tmp then do {
                 u \<leftarrow> tmp;
                 let (parent', h') = rb_insert_flip u p g h;
                 rb_insert_loop g parent' (h', root)
               }
               else Some (rb_insert_rotate d node p g (h, root))
             }))"

definition rb_insert :: "addr \<Rightarrow> rb_state \<Rightarrow> rb_state option" where
  "rb_insert node st = do { parent \<leftarrow> rb_red_parent (fst st) node; rb_insert_loop node parent st }"

text \<open>\<open>*rb_link\<close>: the root pointer or a child field.\<close>

datatype rb_link = RootLink | ChildLink side addr

fun read_link :: "rb_state \<Rightarrow> rb_link \<Rightarrow> ptr" where
  "read_link (h, root) RootLink = root"
| "read_link (h, root) (ChildLink d a) = child d (h a)"

fun write_link :: "rb_state \<Rightarrow> rb_link \<Rightarrow> ptr \<Rightarrow> rb_state" where
  "write_link (h, root) RootLink p = (h, p)"
| "write_link (h, root) (ChildLink d a) p = (set_child d h a p, root)"

definition eaf_map_low_link_node :: "addr \<Rightarrow> ptr \<Rightarrow> rb_link \<Rightarrow> rb_state \<Rightarrow> rb_state" where
  "eaf_map_low_link_node node parent link st =
     (case st of (h, root) \<Rightarrow>
        write_link (h(node := \<lparr>rb_parent = parent, rb_color = RB_RED, rb_right = None, rb_left = None\<rparr>), root)
          link (Some node))"

definition eaf_map_low_insert_color :: "addr \<Rightarrow> rb_state \<Rightarrow> rb_state option" where
  "eaf_map_low_insert_color node st = rb_insert node st"

subsection \<open>Erasure\<close>

text \<open>The \<open>do ... while\<close> that walks to the leftmost node below the right child.\<close>

partial_function (option) rb_succ_loop :: "rb_heap \<Rightarrow> addr \<Rightarrow> addr \<Rightarrow> (addr \<times> addr) option" where
  "rb_succ_loop h successor tmp =
     (let parent = successor; successor = tmp in
      case rb_left (h tmp) of
        None \<Rightarrow> Some (parent, successor)
      | Some tmp' \<Rightarrow> rb_succ_loop h successor tmp')"

definition rb_erase_augmented :: "addr \<Rightarrow> rb_state \<Rightarrow> (ptr \<times> rb_state) option" where
  "rb_erase_augmented node st =
     (case st of (h, root) \<Rightarrow>
        let child = rb_right (h node); tmp = rb_left (h node); pc = h node; parent = rb_parent pc in
        case tmp of
          None \<Rightarrow>
            (let (h1, root1) = rb_change_child node child parent (h, root) in
             case child of
               Some c \<Rightarrow> Some (None, rb_set_parent_color h1 c parent (rb_color pc), root1)
             | None \<Rightarrow> Some (if rb_color pc = RB_BLACK then parent else None, h1, root1))
        | Some t \<Rightarrow>
            (case child of
               None \<Rightarrow>
                 (let h1 = rb_set_parent_color h t parent (rb_color pc) in
                  Some (None, rb_change_child node (Some t) parent (h1, root)))
             | Some c \<Rightarrow> do {
                 (parent, successor, child2, h1) \<leftarrow>
                   (case rb_left (h c) of
                      None \<Rightarrow> Some (c, c, rb_right (h c), h)
                    | Some t' \<Rightarrow> do {
                        (parent, successor) \<leftarrow> rb_succ_loop h c t';
                        let child2 = rb_right (h successor);
                        let h1 = set_child Lft h parent child2;
                        let h2 = set_child Rgt h1 successor (Some c);
                        Some (parent, successor, child2, rb_set_parent h2 c (Some successor)) });
                 tmp \<leftarrow> rb_left (h1 node);
                 let h2 = set_child Lft h1 successor (Some tmp);
                 let h3 = rb_set_parent h2 tmp (Some successor);
                 let pc = h3 node;
                 let (h4, root4) = rb_change_child node (Some successor) (rb_parent pc) (h3, root);
                 case child2 of
                   Some c2 \<Rightarrow>
                     (let h5 = rb_set_parent_color h4 successor (rb_parent pc) (rb_color pc) in
                      Some (None, rb_set_parent_color h5 c2 (Some parent) RB_BLACK, root4))
                 | None \<Rightarrow>
                     (let pc2 = h4 successor;
                          h5 = rb_set_parent_color h4 successor (rb_parent pc) (rb_color pc) in
                      Some (if rb_color pc2 = RB_BLACK then Some parent else None, h5, root4)) }))"

declare rb_insert_loop.simps [code] rb_succ_loop.simps [code]

text \<open>The cases of \<open>____rb_erase_color\<close> for a deficient node that is the \<open>d\<close>-child of \<open>parent\<close>.\<close>

definition rb_erase_case1 :: "side \<Rightarrow> addr \<Rightarrow> addr \<Rightarrow> rb_state \<Rightarrow> (addr \<times> rb_state) option" where
  "rb_erase_case1 d parent sibling st =
     (case st of (h, root) \<Rightarrow> do {
        let tmp1 = child d (h sibling);
        let h1 = set_child (opp d) h parent tmp1;
        let h2 = set_child d h1 sibling (Some parent);
        t \<leftarrow> tmp1;
        let h3 = rb_set_parent_color h2 t (Some parent) RB_BLACK;
        Some (t, rb_rotate_set_parents parent sibling (h3, root) RB_RED) })"

definition rb_erase_case3 :: "side \<Rightarrow> addr \<Rightarrow> addr \<Rightarrow> addr \<Rightarrow> rb_heap \<Rightarrow> rb_heap" where
  "rb_erase_case3 d parent sibling tmp2 h =
     (let tmp1 = child (opp d) (h tmp2);
          h1 = set_child d h sibling tmp1;
          h2 = set_child (opp d) h1 tmp2 (Some sibling);
          h3 = set_child (opp d) h2 parent (Some tmp2) in
      set_pc_if h3 tmp1 (Some sibling) RB_BLACK)"

definition rb_erase_case4 :: "side \<Rightarrow> addr \<Rightarrow> addr \<Rightarrow> addr \<Rightarrow> rb_state \<Rightarrow> rb_state" where
  "rb_erase_case4 d parent sibling tmp1 st =
     (case st of (h, root) \<Rightarrow>
        let tmp2 = child d (h sibling);
            h1 = set_child (opp d) h parent tmp2;
            h2 = set_child d h1 sibling (Some parent);
            h3 = rb_set_parent_color h2 tmp1 (Some sibling) RB_BLACK;
            h4 = (case tmp2 of None \<Rightarrow> h3 | Some t \<Rightarrow> rb_set_parent h3 t (Some parent)) in
        rb_rotate_set_parents parent sibling (h4, root) RB_BLACK)"

partial_function (option) rb_erase_color :: "ptr \<Rightarrow> addr \<Rightarrow> rb_state \<Rightarrow> rb_state option" where
  "rb_erase_color node parent st = do {
     let d = (if node \<noteq> rb_right (fst st parent) then Lft else Rgt);
     s0 \<leftarrow> child (opp d) (fst st parent);
     (sibling, h, root) \<leftarrow> (if rb_is_red (fst st) s0 then rb_erase_case1 d parent s0 st else Some (s0, st));
     let tmp1 = child (opp d) (h sibling);
     if \<not> red_ptr h tmp1 then
       (let tmp2 = child d (h sibling) in
        if \<not> red_ptr h tmp2 then
          (let h1 = rb_set_parent_color h sibling (Some parent) RB_RED in
           if rb_is_red h1 parent then Some (rb_set_black h1 parent, root)
           else case rb_parent (h1 parent) of
                  Some p \<Rightarrow> rb_erase_color (Some parent) p (h1, root)
                | None \<Rightarrow> Some (h1, root))
        else do {
          t2 \<leftarrow> tmp2;
          Some (rb_erase_case4 d parent t2 sibling (rb_erase_case3 d parent sibling t2 h, root)) })
     else do {
       t1 \<leftarrow> tmp1;
       Some (rb_erase_case4 d parent sibling t1 (h, root)) } }"

definition eaf_map_low_erase :: "addr \<Rightarrow> rb_state \<Rightarrow> rb_state option" where
  "eaf_map_low_erase node st = do {
     (rebalance, st1) \<leftarrow> rb_erase_augmented node st;
     case rebalance of Some p \<Rightarrow> rb_erase_color None p st1 | None \<Rightarrow> Some st1 }"

subsection \<open>Iteration\<close>

text \<open>\<open>while (n->rb_left) n = n->rb_left\<close> (\<open>d = Lft\<close>) and its mirror.\<close>

partial_function (option) rb_descend :: "side \<Rightarrow> rb_heap \<Rightarrow> addr \<Rightarrow> addr option" where
  "rb_descend d h n = (case child d (h n) of None \<Rightarrow> Some n | Some m \<Rightarrow> rb_descend d h m)"

text \<open>\<open>while ((parent = rb_parent(node)) && node == parent->rb_right) node = parent\<close> for \<open>d = Rgt\<close>.\<close>

partial_function (option) rb_ascend :: "side \<Rightarrow> rb_heap \<Rightarrow> addr \<Rightarrow> ptr option" where
  "rb_ascend d h node =
     (case rb_parent (h node) of
        None \<Rightarrow> Some None
      | Some p \<Rightarrow> if Some node = child d (h p) then rb_ascend d h p else Some (Some p))"

declare rb_erase_color.simps [code] rb_descend.simps [code] rb_ascend.simps [code]

definition rb_empty_node :: "rb_heap \<Rightarrow> addr \<Rightarrow> bool" where
  "rb_empty_node h a \<longleftrightarrow> rb_parent (h a) = Some a \<and> rb_color (h a) = RB_RED"

definition eaf_map_low_first :: "rb_state \<Rightarrow> ptr option" where
  "eaf_map_low_first st =
     (case snd st of None \<Rightarrow> Some None | Some n \<Rightarrow> map_option Some (rb_descend Lft (fst st) n))"

definition eaf_map_low_last :: "rb_state \<Rightarrow> ptr option" where
  "eaf_map_low_last st =
     (case snd st of None \<Rightarrow> Some None | Some n \<Rightarrow> map_option Some (rb_descend Rgt (fst st) n))"

definition eaf_map_low_next :: "rb_heap \<Rightarrow> addr \<Rightarrow> ptr option" where
  "eaf_map_low_next h node =
     (if rb_empty_node h node then Some None
      else case rb_right (h node) of
             Some r \<Rightarrow> map_option Some (rb_descend Lft h r)
           | None \<Rightarrow> rb_ascend Rgt h node)"

definition eaf_map_low_prev :: "rb_heap \<Rightarrow> addr \<Rightarrow> ptr option" where
  "eaf_map_low_prev h node =
     (if rb_empty_node h node then Some None
      else case rb_left (h node) of
             Some l \<Rightarrow> map_option Some (rb_descend Rgt h l)
           | None \<Rightarrow> rb_ascend Lft h node)"

subsection \<open>The packed parent word\<close>

text \<open>
  The macros of the file on the word itself. Nodes are aligned to at least four bytes, so for such
  an address \<open>p\<close> the pair of parent and colour survives packing, and the two partial updates change
  one half each: this is what the two record fields stand for.
\<close>

definition pc_color :: "u64 \<Rightarrow> u64" where "pc_color pc = pc AND 1"
definition pc_parent :: "u64 \<Rightarrow> u64" where "pc_parent pc = pc AND NOT 3"

fun color_bit :: "rb_color \<Rightarrow> u64" where
  "color_bit RB_RED = 0"
| "color_bit RB_BLACK = 1"

definition pc_set_parent_color :: "u64 \<Rightarrow> rb_color \<Rightarrow> u64" where
  "pc_set_parent_color p c = p OR color_bit c"

definition pc_set_parent :: "u64 \<Rightarrow> u64 \<Rightarrow> u64" where
  "pc_set_parent pc p = pc_color pc OR p"

definition pc_set_black :: "u64 \<Rightarrow> u64" where
  "pc_set_black pc = pc OR 1"

definition rb_aligned :: "u64 \<Rightarrow> bool" where
  "rb_aligned p \<longleftrightarrow> p AND 3 = 0"

text \<open>packing. For aligned parents the macros read back what \<open>rb_set_parent_color\<close> stored,
  \<open>rb_set_parent\<close> changes the parent and keeps the colour, \<open>rb_set_black\<close> changes the colour and
  keeps the parent, and the word of a red node is the parent itself (\<open>rb_red_parent\<close>).\<close>

theorem rb_packed_word:
  assumes "rb_aligned p" "rb_aligned q"
  shows "pc_parent (pc_set_parent_color p c) = p \<and> pc_color (pc_set_parent_color p c) = color_bit c \<and>
    pc_set_parent (pc_set_parent_color p c) q = pc_set_parent_color q c \<and>
    pc_set_black (pc_set_parent_color p c) = pc_set_parent_color p RB_BLACK \<and>
    pc_set_parent_color p RB_RED = p"
proof -
  have al: False if "rb_aligned r" "bit r n" "bit (3 :: u64) n" for r n
  proof -
    have "bit (r AND 3) n = bit 0 n" using that(1) by (simp add: rb_aligned_def)
    then show ?thesis using that(2,3) by (simp add: bit_and_iff)
  qed
  have al0: False if "rb_aligned r" "bit r 0" for r
    using al [OF that] by (simp add: bit_numeral_rec)
  note simps = pc_parent_def pc_color_def pc_set_parent_color_def pc_set_parent_def pc_set_black_def
    bit_simps bit_1_iff
  have "pc_parent (pc_set_parent_color p c) = p" "pc_color (pc_set_parent_color p c) = color_bit c"
    "pc_set_parent (pc_set_parent_color p c) q = pc_set_parent_color q c"
    "pc_set_black (pc_set_parent_color p c) = pc_set_parent_color p RB_BLACK"
    by (cases c; rule bit_word_eqI; use assms in \<open>auto simp: simps bit_numeral_rec dest: al al0\<close>)+
  then show ?thesis by (simp add: pc_set_parent_color_def)
qed

theorem rb_packed_word_witness:
  "pc_parent (pc_set_parent_color 64 RB_BLACK) = 64 \<and> pc_set_parent (pc_set_parent_color 64 RB_BLACK) 128 = 129"
  using rb_packed_word [of 64 128 RB_BLACK]
  by (simp add: rb_aligned_def pc_set_parent_color_def)

end
