(* ===== verification/RbZipper.thy ===== *)
theory RbZipper
  imports MapLow
begin

text \<open>
  The trees the heap of \<open>MapLow\<close> represents: binary trees of (address, colour), the red-black
  conditions on them, and contexts ("zippers") that describe the path from a subtree up to the root,
  which is the shape in which the two rebalancing loops of the source move through the tree.
\<close>

subsection \<open>Trees and mirrored construction\<close>

type_synonym ptree = "(addr \<times> rb_color) tree"

definition addrs :: "ptree \<Rightarrow> addr list" where
  "addrs t = map fst (inorder t)"

lemma addrs_simps [simp]:
  "addrs Leaf = []"
  "addrs (Node l x r) = addrs l @ fst x # addrs r"
  by (simp_all add: addrs_def)

fun root_ptr :: "ptree \<Rightarrow> ptr" where
  "root_ptr Leaf = None"
| "root_ptr (Node l (a, c) r) = Some a"

fun rcol :: "ptree \<Rightarrow> rb_color" where
  "rcol Leaf = RB_BLACK"
| "rcol (Node l (a, c) r) = c"

fun paint :: "rb_color \<Rightarrow> ptree \<Rightarrow> ptree" where
  "paint c Leaf = Leaf"
| "paint c (Node l (a, c') r) = Node l (a, c) r"

text \<open>\<open>mk d l x r\<close> has \<open>l\<close> as its \<open>d\<close>-subtree and \<open>r\<close> on the other side.\<close>

fun mk :: "side \<Rightarrow> ptree \<Rightarrow> addr \<times> rb_color \<Rightarrow> ptree \<Rightarrow> ptree" where
  "mk Lft l x r = Node l x r"
| "mk Rgt l x r = Node r x l"

lemma opp_opp [simp]: "opp (opp d) = d"
  by (cases d) auto

lemma opp_neq [simp]: "opp d \<noteq> d" "d \<noteq> opp d"
  by (cases d; simp)+

lemma neq_opp: "d \<noteq> e \<longleftrightarrow> e = opp d"
  by (cases d; cases e) auto

lemma mk_opp [simp]: "mk (opp d) l x r = mk d r x l"
  by (cases d) auto

lemma root_ptr_mk [simp]: "root_ptr (mk d l (a, c) r) = Some a"
  by (cases d) auto

lemma rcol_mk [simp]: "rcol (mk d l (a, c) r) = c"
  by (cases d) auto

lemma paint_mk [simp]: "paint c (mk d l (a, c') r) = mk d l (a, c) r"
  by (cases d) auto

lemma mk_not_Leaf [simp]: "mk d l x r \<noteq> Leaf" "Leaf \<noteq> mk d l x r"
  by (cases d; simp)+

lemma ex_mk: "t \<noteq> Leaf \<Longrightarrow> \<exists>l a c r. t = mk d l (a, c) r"
  by (cases t; cases d) auto

lemma root_ptr_None [simp]: "root_ptr t = None \<longleftrightarrow> t = Leaf"
  by (cases t) auto

lemma root_ptr_SomeD: "root_ptr t = Some a \<Longrightarrow> a \<in> set (addrs t)"
  by (cases t) auto

lemma addrs_paint [simp]: "addrs (paint c t) = addrs t"
  by (cases t) auto

lemma root_ptr_paint [simp]: "root_ptr (paint c t) = root_ptr t"
  by (cases t) auto

lemma paint_same: "rcol t = c \<Longrightarrow> paint c t = t"
  by (cases t) auto

lemma set_addrs_mk [simp]: "set (addrs (mk d l x r)) = insert (fst x) (set (addrs l) \<union> set (addrs r))"
  by (cases d) auto

lemma distinct_addrs_mk [simp]:
  "distinct (addrs (mk d l x r)) \<longleftrightarrow>
   fst x \<notin> set (addrs l) \<and> fst x \<notin> set (addrs r) \<and> distinct (addrs l) \<and> distinct (addrs r) \<and>
   set (addrs l) \<inter> set (addrs r) = {}"
  by (cases d) auto

subsection \<open>Red-black conditions\<close>

text \<open>Conditions 4 (no red node has a red child), 5 (equal black heights) and 2 (black root).\<close>

fun bh :: "ptree \<Rightarrow> nat" where
  "bh Leaf = 0"
| "bh (Node l (a, c) r) = bh l + (if c = RB_BLACK then 1 else 0)"

fun invc :: "ptree \<Rightarrow> bool" where
  "invc Leaf \<longleftrightarrow> True"
| "invc (Node l (a, c) r) \<longleftrightarrow>
     invc l \<and> invc r \<and> (c = RB_RED \<longrightarrow> rcol l = RB_BLACK \<and> rcol r = RB_BLACK)"

fun invh :: "ptree \<Rightarrow> bool" where
  "invh Leaf \<longleftrightarrow> True"
| "invh (Node l (a, c) r) \<longleftrightarrow> invh l \<and> invh r \<and> bh l = bh r"

definition rbt :: "ptree \<Rightarrow> bool" where
  "rbt t \<longleftrightarrow> invc t \<and> invh t \<and> rcol t = RB_BLACK"

lemma invc_mk [simp]:
  "invc (mk d l (a, c) r) \<longleftrightarrow>
     invc l \<and> invc r \<and> (c = RB_RED \<longrightarrow> rcol l = RB_BLACK \<and> rcol r = RB_BLACK)"
  by (cases d) auto

lemma invh_mk [simp]: "invh (mk d l (a, c) r) \<longleftrightarrow> invh l \<and> invh r \<and> bh l = bh r"
  by (cases d) auto

lemma bh_mk: "invh (mk d l (a, c) r) \<Longrightarrow> bh (mk d l (a, c) r) = bh l + (if c = RB_BLACK then 1 else 0)"
  by (cases d) auto

lemma bh_mk_eq [simp]: "bh l = bh r \<Longrightarrow> bh (mk d l (a, c) r) = bh r + (if c = RB_BLACK then 1 else 0)"
  by (cases d) auto

lemma invc_paint_black [simp]: "invc t \<Longrightarrow> invc (paint RB_BLACK t)"
  by (cases t) auto

lemma invh_paint [simp]: "invh (paint c t) = invh t"
  by (cases t) auto

lemma rcol_paint_black [simp]: "rcol (paint RB_BLACK t) = RB_BLACK"
  by (cases t) auto

lemma bh_paint_black: "bh (paint RB_BLACK t) = bh t + (if rcol t = RB_RED then 1 else 0)"
  by (cases t) (auto, metis rb_color.exhaust)

lemma not_red [simp]: "c \<noteq> RB_RED \<longleftrightarrow> c = RB_BLACK" "c \<noteq> RB_BLACK \<longleftrightarrow> c = RB_RED"
  by (cases c; simp)+

text \<open>The height bound conditions 4 and 5 give (comment at the head of the file): at most twice the
  black height, and so logarithmic in the number of nodes.\<close>

lemma height_bh: "invc t \<Longrightarrow> invh t \<Longrightarrow> height t \<le> 2 * bh t + (if rcol t = RB_RED then 1 else 0)"
proof (induction t rule: invc.induct)
  case (2 l a c r)
  then show ?case by (cases c) (auto split: if_splits)
qed simp

lemma size1_bh: "invh t \<Longrightarrow> 2 ^ bh t \<le> size1 t"
proof (induction t rule: invh.induct)
  case (2 l a c r)
  then have "2 ^ bh l \<le> size1 l" "2 ^ bh l \<le> size1 r" by auto
  then show ?case by (cases c) auto
qed simp

lemma rbt_height: "rbt t \<Longrightarrow> 2 ^ (height t div 2) \<le> size t + 1"
proof -
  assume t: "rbt t"
  then have "height t \<le> 2 * bh t" using height_bh [of t] by (simp add: rbt_def)
  then have "height t div 2 \<le> bh t" by simp
  then have "(2::nat) ^ (height t div 2) \<le> 2 ^ bh t" by (rule power_increasing) simp
  also have "\<dots> \<le> size1 t" using t by (auto simp: rbt_def intro: size1_bh)
  finally show ?thesis by (simp add: size1_size)
qed

subsection \<open>Contexts\<close>

text \<open>\<open>Fr d a c s\<close>: the hole is the \<open>d\<close>-child of node \<open>a\<close> of colour \<open>c\<close>, \<open>s\<close> the other subtree.
  The list goes from the hole up to the root.\<close>

datatype frame = Fr side addr rb_color ptree

fun plug :: "ptree \<Rightarrow> frame list \<Rightarrow> ptree" where
  "plug t [] = t"
| "plug t (Fr d a c s # fs) = plug (mk d t (a, c) s) fs"

fun par_of :: "frame list \<Rightarrow> ptr" where
  "par_of [] = None"
| "par_of (Fr d a c s # fs) = Some a"

fun caddrs :: "frame list \<Rightarrow> addr list" where
  "caddrs [] = []"
| "caddrs (Fr d a c s # fs) = a # addrs s @ caddrs fs"

text \<open>The parts of the in-order sequence before and after the hole.\<close>

fun before :: "frame list \<Rightarrow> addr list" where
  "before [] = []"
| "before (Fr Lft a c s # fs) = before fs"
| "before (Fr Rgt a c s # fs) = before fs @ addrs s @ [a]"

fun after :: "frame list \<Rightarrow> addr list" where
  "after [] = []"
| "after (Fr Lft a c s # fs) = a # addrs s @ after fs"
| "after (Fr Rgt a c s # fs) = after fs"

fun fr_before :: "side \<Rightarrow> addr \<Rightarrow> ptree \<Rightarrow> addr list" where
  "fr_before Lft a s = []"
| "fr_before Rgt a s = addrs s @ [a]"

fun fr_after :: "side \<Rightarrow> addr \<Rightarrow> ptree \<Rightarrow> addr list" where
  "fr_after Lft a s = a # addrs s"
| "fr_after Rgt a s = []"

lemma before_Fr: "before (Fr d a c s # fs) = before fs @ fr_before d a s"
  by (cases d) auto

lemma after_Fr: "after (Fr d a c s # fs) = fr_after d a s @ after fs"
  by (cases d) auto

lemma addrs_plug: "addrs (plug t fs) = before fs @ addrs t @ after fs"
proof (induction fs arbitrary: t)
  case (Cons f fs)
  obtain d a c s where "f = Fr d a c s" by (cases f)
  with Cons show ?case by (cases d) auto
qed simp

lemma set_caddrs: "set (caddrs fs) = set (before fs) \<union> set (after fs)"
proof (induction fs)
  case (Cons f fs)
  obtain d a c s where "f = Fr d a c s" by (cases f)
  with Cons show ?case by (cases d) auto
qed simp

lemma distinct_caddrs: "distinct (caddrs fs) \<longleftrightarrow> distinct (before fs @ after fs)"
proof (induction fs)
  case (Cons f fs)
  obtain d a c s where "f = Fr d a c s" by (cases f)
  with Cons show ?case by (cases d) (auto simp: set_caddrs)
qed simp

lemma distinct_plug:
  "distinct (addrs (plug t fs)) \<longleftrightarrow>
   distinct (addrs t) \<and> distinct (caddrs fs) \<and> set (addrs t) \<inter> set (caddrs fs) = {}"
  by (auto simp: addrs_plug distinct_caddrs set_caddrs)

lemma plug_append: "plug t (fs @ gs) = plug (plug t fs) gs"
  by (induction t fs rule: plug.induct) auto

lemma caddrs_append [simp]: "caddrs (fs @ gs) = caddrs fs @ caddrs gs"
  by (induction fs rule: caddrs.induct) auto

lemma root_of_plug: "root_ptr t = None \<Longrightarrow> root_ptr (plug t fs) = None \<longleftrightarrow> fs = []"
proof -
  have "plug u gs \<noteq> Leaf" if "u \<noteq> Leaf" for u gs
    using that by (induction u gs rule: plug.induct) auto
  then show "root_ptr t = None \<Longrightarrow> root_ptr (plug t fs) = None \<longleftrightarrow> fs = []"
    by (cases "(t, fs)" rule: plug.cases) auto
qed

text \<open>A node of the tree is the focus of some context.\<close>

lemma find_focus:
  "a \<in> set (addrs t) \<Longrightarrow> \<exists>l c r fs. t = plug (Node l (a, c) r) fs"
proof (induction t)
  case (Node l x r)
  obtain b cb where x: "x = (b, cb)" by (cases x)
  consider "a = b" | "a \<in> set (addrs l)" | "a \<in> set (addrs r)" using Node.prems x by auto
  then show ?case
  proof cases
    case 1
    have "Node l x r = plug (Node l (a, cb) r) []" using x 1 by simp
    then show ?thesis by blast
  next
    case 2
    then obtain l' c r' fs where "l = plug (Node l' (a, c) r') fs" using Node.IH by blast
    then have "Node l x r = plug (Node l' (a, c) r') (fs @ [Fr Lft b cb r])"
      by (simp add: plug_append x)
    then show ?thesis by blast
  next
    case 3
    then obtain l' c r' fs where "r = plug (Node l' (a, c) r') fs" using Node.IH by blast
    then have "Node l x r = plug (Node l' (a, c) r') (fs @ [Fr Rgt b cb l])"
      by (simp add: plug_append x)
    then show ?thesis by blast
  qed
qed simp

subsection \<open>Red-black conditions of a context\<close>

text \<open>\<open>ctx_c k fs\<close>: a subtree with root colour \<open>k\<close> fits; \<open>ctx_h n fs\<close>: one of black height \<open>n\<close> fits.\<close>

fun ctx_c :: "rb_color \<Rightarrow> frame list \<Rightarrow> bool" where
  "ctx_c k [] \<longleftrightarrow> k = RB_BLACK"
| "ctx_c k (Fr d a c s # fs) \<longleftrightarrow>
     invc s \<and> (c = RB_RED \<longrightarrow> k = RB_BLACK \<and> rcol s = RB_BLACK) \<and> ctx_c c fs"

fun ctx_h :: "nat \<Rightarrow> frame list \<Rightarrow> bool" where
  "ctx_h n [] \<longleftrightarrow> True"
| "ctx_h n (Fr d a c s # fs) \<longleftrightarrow>
     invh s \<and> bh s = n \<and> ctx_h (n + (if c = RB_BLACK then 1 else 0)) fs"

lemma rbt_plug:
  "rbt (plug t fs) \<longleftrightarrow> invc t \<and> invh t \<and> ctx_c (rcol t) fs \<and> ctx_h (bh t) fs"
proof (induction t fs rule: plug.induct)
  case (1 t)
  then show ?case by (auto simp: rbt_def)
next
  case (2 t d a c s fs)
  have "invh (mk d t (a, c) s) \<Longrightarrow> bh (mk d t (a, c) s) = bh t + (if c = RB_BLACK then 1 else 0)"
    by (rule bh_mk)
  with 2 show ?case by auto
qed

lemma ctx_c_black: "ctx_c k fs \<Longrightarrow> ctx_c RB_BLACK fs"
  by (cases "(k, fs)" rule: ctx_c.cases) auto

subsection \<open>The rebalancing routines on trees\<close>

text \<open>What the loop of \<open>__rb_insert\<close> does to a red focus \<open>t\<close>.\<close>

fun split_at :: "side \<Rightarrow> ptree \<Rightarrow> ptree \<times> (addr \<times> rb_color) \<times> ptree" where
  "split_at d Leaf = (Leaf, (0, RB_BLACK), Leaf)"
| "split_at Lft (Node l x r) = (l, x, r)"
| "split_at Rgt (Node l x r) = (r, x, l)"

lemma split_at_mk [simp]: "split_at d (mk d l x r) = (l, x, r)"
  by (cases d) auto

fun ins_fix :: "ptree \<Rightarrow> frame list \<Rightarrow> ptree" where
  "ins_fix t [] = paint RB_BLACK t"
| "ins_fix t [f] = plug t [f]"
| "ins_fix t (Fr d p c s # Fr e g cg u # fs) =
     (if c = RB_BLACK then plug t (Fr d p c s # Fr e g cg u # fs)
      else if rcol u = RB_RED
        then ins_fix (mk e (mk d t (p, RB_BLACK) s) (g, RB_RED) (paint RB_BLACK u)) fs
      else if d = e then plug (mk d t (p, cg) (mk d s (g, RB_RED) u)) fs
      else case split_at e t of (t1, (n, _), t2) \<Rightarrow>
             plug (mk e (mk e s (p, RB_RED) t1) (n, cg) (mk e t2 (g, RB_RED) u)) fs)"

text \<open>What the loop of \<open>____rb_erase_color\<close> does to a focus whose paths lack one black node;
  \<open>del_black\<close> is the part of the body after case 1, with a black sibling.\<close>

fun del_black :: "ptree \<Rightarrow> side \<Rightarrow> addr \<Rightarrow> rb_color \<Rightarrow> ptree \<Rightarrow> ptree + ptree" where
  "del_black t d p c s =
     (case split_at d s of (sl, (x, _), sr) \<Rightarrow>
        if rcol sr = RB_BLACK then
          if rcol sl = RB_BLACK then
            (let t' = mk d t (p, RB_BLACK) (mk d sl (x, RB_RED) sr) in
             if c = RB_RED then Inr t' else Inl t')
          else (case split_at d sl of (a, (y, _), b) \<Rightarrow>
                  Inr (mk d (mk d t (p, RB_BLACK) a) (y, c) (mk d b (x, RB_BLACK) sr)))
        else Inr (mk d (mk d t (p, RB_BLACK) sl) (x, c) (paint RB_BLACK sr)))"

fun del_fix :: "ptree \<Rightarrow> frame list \<Rightarrow> ptree" where
  "del_fix t [] = t"
| "del_fix t (Fr d p c s # fs) =
     (if rcol s = RB_RED then
        (case split_at d s of (sl, (x, _), sr) \<Rightarrow>
           (case del_black t d p RB_RED sl of
              Inr t' \<Rightarrow> plug t' (Fr d x c sr # fs)
            | Inl t' \<Rightarrow> plug t' (Fr d x c sr # fs)))
      else (case del_black t d p c s of Inr t' \<Rightarrow> plug t' fs | Inl t' \<Rightarrow> del_fix t' fs))"

subsection \<open>Correctness on trees\<close>

lemma addrs_mk: "addrs (mk Lft l x r) = addrs l @ fst x # addrs r"
  "addrs (mk Rgt l x r) = addrs r @ fst x # addrs l"
  by auto

lemma addrs_plug_cong: "addrs t = addrs t' \<Longrightarrow> addrs (plug t fs) = addrs (plug t' fs)"
  by (simp add: addrs_plug)

lemma rbt_plugI:
  "rbt (plug t fs) \<Longrightarrow> addrs t = addrs t' \<Longrightarrow>
   rbt (plug t fs) \<and> addrs (plug t fs) = addrs (plug t' fs)"
  by (simp add: addrs_plug)

lemma red_not_Leaf: "rcol t = RB_RED \<Longrightarrow> t \<noteq> Leaf"
  by (cases t) auto

lemma red_mk:
  assumes "rcol t = RB_RED" obtains l a r where "t = mk d l (a, RB_RED) r"
  using ex_mk [OF red_not_Leaf [OF assms], of d] assms by auto

lemma bh_pos_mk:
  assumes "0 < bh t" obtains l a c r where "t = mk d l (a, c) r"
proof -
  have "t \<noteq> Leaf" using assms by auto
  then show thesis using ex_mk [of t d] that by blast
qed

lemma ins_fix_correct:
  assumes "rcol t = RB_RED" "invc t" "invh t" "ctx_c RB_BLACK fs" "ctx_h (bh t) fs"
  shows "rbt (ins_fix t fs) \<and> addrs (ins_fix t fs) = addrs (plug t fs)"
  using assms
proof (induction t fs rule: ins_fix.induct)
  case (1 t)
  then show ?case by (simp add: rbt_def)
next
  case (2 t f)
  obtain d a c s where f: "f = Fr d a c s" by (cases f)
  with "2.prems" have "c = RB_BLACK" by auto
  then have "rbt (plug t [f])" using 2 f by (subst rbt_plug) auto
  then show ?case by simp
next
  case (3 t d p c s e g cg u fs)
  show ?case
  proof (cases "c = RB_BLACK")
    case True
    have "rbt (plug t (Fr d p c s # Fr e g cg u # fs))"
      using "3.prems" True by (subst rbt_plug) auto
    then show ?thesis using True by simp
  next
    case False
    then have c: "c = RB_RED" by simp
    with "3.prems" have cg: "cg = RB_BLACK" by (auto intro: ccontr)
    show ?thesis
    proof (cases "rcol u = RB_RED")
      case True
      let ?t = "mk e (mk d t (p, RB_BLACK) s) (g, RB_RED) (paint RB_BLACK u)"
      have bh: "bh ?t = Suc (bh t)" "invh ?t" using "3.prems" c cg True by (auto simp: bh_paint_black)
      have "ctx_c RB_BLACK fs" using "3.prems" c cg by simp
      then have ih: "rbt (ins_fix ?t fs) \<and> addrs (ins_fix ?t fs) = addrs (plug ?t fs)"
        using "3.prems" False True c cg bh by (intro 3(1)) auto
      have "addrs ?t = addrs (mk e (mk d t (p, c) s) (g, cg) u)" by (cases d; cases e) auto
      with ih addrs_plug_cong [OF this, of fs] show ?thesis using False True by simp
    next
      case u: False
      show ?thesis
      proof (cases "d = e")
        case True
        have "rbt (plug (mk d t (p, cg) (mk d s (g, RB_RED) u)) fs)"
          using "3.prems" c cg u True by (subst rbt_plug) auto
        moreover have "addrs (mk d t (p, cg) (mk d s (g, RB_RED) u)) = addrs (mk e (mk d t (p, c) s) (g, cg) u)"
          using True by (cases d) auto
        ultimately show ?thesis using rbt_plugI False u True by simp
      next
        case de: False
        then have d: "d = opp e" by (cases d; cases e) auto
        obtain t1 n t2 where t: "t = mk e t1 (n, RB_RED) t2" using red_mk [OF 3(2)] by blast
        let ?t = "mk e (mk e s (p, RB_RED) t1) (n, cg) (mk e t2 (g, RB_RED) u)"
        have "rbt (plug ?t fs)" using "3.prems" c cg u t by (subst rbt_plug) auto
        moreover have "addrs ?t = addrs (mk e (mk d t (p, c) s) (g, cg) u)"
          using t d by (cases e) auto
        ultimately show ?thesis using rbt_plugI False u de t by simp
      qed
    qed
  qed
qed

lemma del_black_correct:
  assumes "rcol t = RB_BLACK" "invc t" "invh t" "invc s" "invh s" "rcol s = RB_BLACK" "bh s = Suc (bh t)"
  shows "case del_black t d p c s of
           Inr t' \<Rightarrow> addrs t' = addrs (mk d t (p, c) s) \<and> invc t' \<and> invh t' \<and>
                     bh t' = Suc (bh t) + (if c = RB_BLACK then 1 else 0) \<and>
                     (c = RB_BLACK \<longrightarrow> rcol t' = RB_BLACK)
         | Inl t' \<Rightarrow> c = RB_BLACK \<and> addrs t' = addrs (mk d t (p, c) s) \<and> invc t' \<and> invh t' \<and>
                     bh t' = Suc (bh t) \<and> rcol t' = RB_BLACK"
proof -
  obtain sl x cx sr where s: "s = mk d sl (x, cx) sr" using bh_pos_mk [of s d thesis] assms(7) by auto
  with assms(6) have cx: "cx = RB_BLACK" by simp
  show ?thesis
  proof (cases "rcol sr = RB_BLACK")
    case sr: True
    show ?thesis
    proof (cases "rcol sl = RB_BLACK")
      case sl: True
      let ?t = "mk d t (p, RB_BLACK) (mk d sl (x, RB_RED) sr)"
      have "addrs ?t = addrs (mk d t (p, c) s)" by (cases d) (simp_all add: s)
      moreover have "invc ?t" "invh ?t" "bh ?t = Suc (bh t)"
        using assms s cx sr sl by auto
      moreover have "del_black t d p c s = (if c = RB_RED then Inr ?t else Inl ?t)"
        using s sr sl by simp
      ultimately show ?thesis by simp
    next
      case False
      then obtain a y b where sl: "sl = mk d a (y, RB_RED) b" using red_mk [of sl d] by auto
      let ?t = "mk d (mk d t (p, RB_BLACK) a) (y, c) (mk d b (x, RB_BLACK) sr)"
      have "addrs ?t = addrs (mk d t (p, c) s)" by (cases d) (simp_all add: s sl)
      moreover have "invc ?t" "invh ?t" "bh ?t = Suc (bh t) + (if c = RB_BLACK then 1 else 0)"
        using assms s cx sr sl by auto
      moreover have "del_black t d p c s = Inr ?t"
        using s sr sl by simp
      ultimately show ?thesis by simp
    qed
  next
    case False
    then obtain a y b where sr: "sr = mk d a (y, RB_RED) b" using red_mk [of sr d] by auto
    let ?t = "mk d (mk d t (p, RB_BLACK) sl) (x, c) (paint RB_BLACK sr)"
    have "addrs ?t = addrs (mk d t (p, c) s)" by (cases d) (simp_all add: s)
    moreover have "invc ?t" "invh ?t" "bh ?t = Suc (bh t) + (if c = RB_BLACK then 1 else 0)"
      using assms s cx sr by auto
    moreover have "del_black t d p c s = Inr ?t"
      using s sr by simp
    ultimately show ?thesis by simp
  qed
qed

lemma del_fix_correct:
  assumes "rcol t = RB_BLACK" "invc t" "invh t" "ctx_c RB_BLACK fs" "ctx_h (Suc (bh t)) fs"
  shows "rbt (del_fix t fs) \<and> addrs (del_fix t fs) = addrs (plug t fs)"
  using assms
proof (induction t fs rule: del_fix.induct)
  case (1 t)
  then show ?case by (simp add: rbt_def)
next
  case (2 t d p c s fs)
  have s: "invc s" "invh s" "bh s = Suc (bh t)" using "2.prems" by auto
  show ?case
  proof (cases "rcol s = RB_RED")
    case True
    then obtain sl x sr where s': "s = mk d sl (x, RB_RED) sr" using red_mk [of s d] by auto
    have c: "c = RB_BLACK" using "2.prems" True by auto
    have sl: "invc sl" "invh sl" "rcol sl = RB_BLACK" "bh sl = Suc (bh t)" using s s' by auto
    let ?D = "del_black t d p RB_RED sl"
    have D: "case ?D of
           Inr t' \<Rightarrow> addrs t' = addrs (mk d t (p, RB_RED) sl) \<and> invc t' \<and> invh t' \<and> bh t' = Suc (bh t)
         | Inl t' \<Rightarrow> False"
      using del_black_correct [of t sl RB_RED d p] 2 sl by (auto split: sum.splits)
    then obtain t' where t': "?D = Inr t'" "addrs t' = addrs (mk d t (p, RB_RED) sl)" "invc t'" "invh t'"
      "bh t' = Suc (bh t)" by (cases ?D) auto
    have "rbt (plug t' (Fr d x c sr # fs))" using "2.prems" c t' s s' by (subst rbt_plug) auto
    moreover have "addrs (mk d t' (x, c) sr) = addrs (mk d t (p, c) s)"
      using t'(2) s' by (cases d) auto
    ultimately show ?thesis using rbt_plugI [of "mk d t' (x, c) sr" fs] True t' s' by simp
  next
    case False
    then have rs: "rcol s = RB_BLACK" by simp
    note D = del_black_correct [where d = d and p = p and c = c, OF 2(2-4) s(1,2) rs s(3)]
    show ?thesis
    proof (cases "del_black t d p c s")
      case (Inl t')
      with D have t': "c = RB_BLACK" "addrs t' = addrs (mk d t (p, c) s)" "invc t'" "invh t'"
        "bh t' = Suc (bh t)" "rcol t' = RB_BLACK" by auto
      have "rbt (del_fix t' fs) \<and> addrs (del_fix t' fs) = addrs (plug t' fs)"
        using "2.prems" t' Inl False by (intro 2(1)) auto
      then show ?thesis using False Inl addrs_plug_cong [OF t'(2), of fs] by simp
    next
      case (Inr t')
      with D have t': "addrs t' = addrs (mk d t (p, c) s)" "invc t'" "invh t'"
        "bh t' = Suc (bh t) + (if c = RB_BLACK then 1 else 0)" "c = RB_BLACK \<longrightarrow> rcol t' = RB_BLACK" by auto
      have "ctx_c c fs" using "2.prems" by simp
      then have "ctx_c (rcol t') fs" using t'(5) ctx_c_black by (cases "rcol t'"; cases c) auto
      then have "rbt (plug t' fs)" using "2.prems" t' by (subst rbt_plug) (auto simp del: del_black.simps)
      then show ?thesis using False Inr rbt_plugI [OF _ t'(1)] by (simp del: del_black.simps)
    qed
  qed
qed

end
