(* ===== verification/MapLowInsert.thy ===== *)
theory MapLowInsert
  imports RbZipper
begin

text \<open>
  The heap representation of trees and contexts, and the insertion half of \<open>map_low.c\<close>:
  \<open>rb_insert_loop\<close> refines \<open>ins_fix\<close>.
\<close>

subsection \<open>Representation\<close>

fun tree_at :: "rb_heap \<Rightarrow> ptr \<Rightarrow> ptree \<Rightarrow> bool" where
  "tree_at h q Leaf \<longleftrightarrow> True"
| "tree_at h q (Node l (a, c) r) \<longleftrightarrow>
     rb_parent (h a) = q \<and> rb_color (h a) = c \<and> rb_left (h a) = root_ptr l \<and>
     rb_right (h a) = root_ptr r \<and> tree_at h (Some a) l \<and> tree_at h (Some a) r"

fun ctx_at :: "rb_state \<Rightarrow> ptr \<Rightarrow> frame list \<Rightarrow> bool" where
  "ctx_at (h, root) p [] \<longleftrightarrow> root = p"
| "ctx_at (h, root) p (Fr d a c s # fs) \<longleftrightarrow>
     child d (h a) = p \<and> child (opp d) (h a) = root_ptr s \<and> rb_color (h a) = c \<and>
     rb_parent (h a) = par_of fs \<and> tree_at h (Some a) s \<and> ctx_at (h, root) (Some a) fs"

text \<open>\<open>t\<close> in context \<open>fs\<close> is what the state represents; \<open>rb_rep st t\<close> for the whole tree.\<close>

definition rep :: "rb_state \<Rightarrow> ptree \<Rightarrow> frame list \<Rightarrow> bool" where
  "rep st t fs \<longleftrightarrow>
     tree_at (fst st) (par_of fs) t \<and> ctx_at st (root_ptr t) fs \<and>
     distinct (addrs t) \<and> distinct (caddrs fs) \<and> set (addrs t) \<inter> set (caddrs fs) = {}"

definition rb_rep :: "rb_state \<Rightarrow> ptree \<Rightarrow> bool" where
  "rb_rep st t \<longleftrightarrow> tree_at (fst st) None t \<and> snd st = root_ptr t \<and> distinct (addrs t)"

lemma tree_at_mk [simp]:
  "tree_at h q (mk d l (a, c) r) \<longleftrightarrow>
     rb_parent (h a) = q \<and> rb_color (h a) = c \<and> child d (h a) = root_ptr l \<and>
     child (opp d) (h a) = root_ptr r \<and> tree_at h (Some a) l \<and> tree_at h (Some a) r"
  by (cases d) auto

lemma rep_plug: "rb_rep st (plug t fs) \<longleftrightarrow> rep st t fs"
proof (induction t fs rule: plug.induct)
  case (1 t)
  then show ?case by (cases st) (auto simp: rb_rep_def rep_def)
next
  case (2 t d a c s fs)
  then show ?case by (cases st) (auto simp: rep_def)
qed

lemma tree_at_frame:
  "(\<And>a. a \<in> set (addrs t) \<Longrightarrow> h' a = h a) \<Longrightarrow> tree_at h' q t \<longleftrightarrow> tree_at h q t"
  by (induction h q t rule: tree_at.induct) auto

lemma ctx_at_frame:
  "(\<And>a. a \<in> set (caddrs fs) \<Longrightarrow> h' a = h a) \<Longrightarrow> ctx_at (h', root) p fs \<longleftrightarrow> ctx_at (h, root) p fs"
proof (induction fs arbitrary: p)
  case (Cons f fs)
  obtain d a c s where f: "f = Fr d a c s" by (cases f)
  have "tree_at h' (Some a) s \<longleftrightarrow> tree_at h (Some a) s"
    using Cons.prems f by (intro tree_at_frame) auto
  then show ?case using Cons f by auto
qed simp

lemma tree_at_upd [simp]: "a \<notin> set (addrs t) \<Longrightarrow> tree_at (h(a := n)) q t \<longleftrightarrow> tree_at h q t"
  by (rule tree_at_frame) auto

lemma ctx_at_upd [simp]: "a \<notin> set (caddrs fs) \<Longrightarrow> ctx_at (h(a := n), root) p fs \<longleftrightarrow> ctx_at (h, root) p fs"
  by (rule ctx_at_frame) auto

lemma child_upd_child [simp]:
  "child d (upd_child d p n) = p"
  "child (opp d) (upd_child d p n) = child (opp d) n"
  "child d (upd_child (opp d) p n) = child d n"
  by (cases d; simp)+

lemma upd_child_fields [simp]:
  "rb_parent (upd_child d p n) = rb_parent n"
  "rb_color (upd_child d p n) = rb_color n"
  "child d (n\<lparr>rb_parent := q\<rparr>) = child d n"
  "child d (n\<lparr>rb_color := c\<rparr>) = child d n"
  by (cases d; simp)+

lemma upd_child_both: "rb_left (upd_child d p n) = (if d = Lft then p else rb_left n)"
  "rb_right (upd_child d p n) = (if d = Rgt then p else rb_right n)"
  by (cases d; simp)+

lemma child_cases: "rb_left n = child Lft n" "rb_right n = child Rgt n"
  by simp_all

lemma child_either: "e = d \<or> e = opp d" for d e :: side
  by (cases d; cases e) auto

text \<open>Writes to the heap keep everything outside the addresses written.\<close>

definition same_off :: "addr set \<Rightarrow> rb_heap \<Rightarrow> rb_heap \<Rightarrow> bool" where
  "same_off A h h' \<longleftrightarrow> (\<forall>a. a \<notin> A \<longrightarrow> h' a = h a)"

lemma same_off_refl [simp]: "same_off A h h"
  by (simp add: same_off_def)

lemma same_off_trans: "same_off A h h' \<Longrightarrow> same_off A h' h'' \<Longrightarrow> same_off A h h''"
  by (simp add: same_off_def)

lemma same_off_mono: "same_off A h h' \<Longrightarrow> A \<subseteq> B \<Longrightarrow> same_off B h h'"
  by (auto simp: same_off_def)

lemma tree_at_same_off: "same_off A h h' \<Longrightarrow> A \<inter> set (addrs t) = {} \<Longrightarrow> tree_at h q t \<Longrightarrow> tree_at h' q t"
  using tree_at_frame [of t h' h q] by (auto simp: same_off_def)

text \<open>Replacing the subtree in the hole: \<open>__rb_change_child\<close>.\<close>

lemma change_child_ctx:
  assumes "ctx_at (h, root) (Some old) fs" "old \<notin> set (caddrs fs)" "distinct (caddrs fs)"
  obtains h' root' where "rb_change_child old new (par_of fs) (h, root) = (h', root')"
    "ctx_at (h', root') new fs" "same_off (set (caddrs fs)) h h'"
proof (cases fs)
  case Nil
  then show thesis using that assms by (auto simp: rb_change_child_def)
next
  case (Cons f gs)
  obtain d a c s where f: "f = Fr d a c s" by (cases f)
  have s: "root_ptr s \<noteq> Some old"
    using root_ptr_SomeD [of s old] assms(2) Cons f by auto
  have "rb_change_child old new (par_of fs) (h, root) = (set_child d h a new, root)"
    using assms Cons f s by (cases d) (auto simp: rb_change_child_def)
  moreover have "ctx_at (set_child d h a new, root) new fs"
    using assms Cons f by (auto simp: set_child_def)
  moreover have "same_off (set (caddrs fs)) h (set_child d h a new)"
    using Cons f by (auto simp: same_off_def set_child_def)
  ultimately show thesis by (rule that)
qed

text \<open>Painting a subtree's root and hanging it below \<open>q\<close>.\<close>

lemma tree_at_paint:
  assumes "tree_at h q t" "distinct (addrs t)"
  shows "tree_at (set_pc_if h (root_ptr t) q' c) q' (paint c t)"
  using assms by (cases t) (auto simp: set_pc_if_def rb_set_parent_color_def)

lemma set_pc_if_same_off: "same_off (set (addrs t)) h (set_pc_if h (root_ptr t) q c)"
  by (cases t) (auto simp: set_pc_if_def rb_set_parent_color_def same_off_def)

lemma set_pc_if_other [simp]: "a \<notin> set (addrs t) \<Longrightarrow> set_pc_if h (root_ptr t) q c a = h a"
  using set_pc_if_same_off [of t h q c] by (simp add: same_off_def)

lemma tree_at_set_pc_if [simp]:
  "set (addrs t) \<inter> set (addrs u) = {} \<Longrightarrow> tree_at (set_pc_if h (root_ptr t) q c) q' u \<longleftrightarrow> tree_at h q' u"
  by (rule tree_at_frame) (auto intro: set_pc_if_other)

lemma tree_at_set_pc_if' [simp]:
  "set (addrs u) \<inter> set (addrs t) = {} \<Longrightarrow> tree_at (set_pc_if h (root_ptr t) q c) q' u \<longleftrightarrow> tree_at h q' u"
  by (rule tree_at_set_pc_if) auto

lemma ctx_at_set_pc_if [simp]:
  "set (addrs t) \<inter> set (caddrs fs) = {} \<Longrightarrow>
   ctx_at (set_pc_if h (root_ptr t) q c, root) p fs \<longleftrightarrow> ctx_at (h, root) p fs"
  by (rule ctx_at_frame) (auto intro: set_pc_if_other)

lemma red_ptr_root: "tree_at h q t \<Longrightarrow> red_ptr h (root_ptr t) \<longleftrightarrow> rcol t = RB_RED"
  by (cases t) (auto simp: red_ptr_def rb_is_red_def)

text \<open>Rotations end with \<open>__rb_rotate_set_parents\<close>: \<open>new\<close> takes the place of \<open>old\<close> in the context.\<close>

lemma rotate_ctx:
  assumes "ctx_at (h, root) (Some old) fs" "rb_parent (h old) = par_of fs"
    "old \<notin> set (caddrs fs)" "new \<notin> set (caddrs fs)" "old \<noteq> new" "distinct (caddrs fs)"
  obtains h' root' where "rb_rotate_set_parents old new (h, root) col = (h', root')"
    "ctx_at (h', root') (Some new) fs"
    "h' new = (h new)\<lparr>rb_parent := par_of fs, rb_color := rb_color (h old)\<rparr>"
    "h' old = (h old)\<lparr>rb_parent := Some new, rb_color := col\<rparr>"
    "\<forall>a. a \<noteq> old \<longrightarrow> a \<noteq> new \<longrightarrow> a \<notin> set (caddrs fs) \<longrightarrow> h' a = h a"
proof -
  let ?h1 = "h(new := (h new)\<lparr>rb_parent := rb_parent (h old), rb_color := rb_color (h old)\<rparr>)"
  let ?h2 = "rb_set_parent_color ?h1 old (Some new) col"
  have "ctx_at (?h2, root) (Some old) fs"
    using assms by (auto simp: rb_set_parent_color_def)
  then obtain h' root' where r: "rb_change_child old (Some new) (par_of fs) (?h2, root) = (h', root')"
    "ctx_at (h', root') (Some new) fs" "same_off (set (caddrs fs)) ?h2 h'"
    using change_child_ctx [of ?h2 root old fs "Some new"] assms by blast
  show thesis
  proof (rule that)
    show "rb_rotate_set_parents old new (h, root) col = (h', root')"
      using r(1) assms(2) by (simp add: rb_rotate_set_parents_def Let_def)
    show "ctx_at (h', root') (Some new) fs" by (rule r(2))
  qed (use r(3) assms in \<open>auto simp: same_off_def rb_set_parent_color_def\<close>)
qed

subsection \<open>Insertion\<close>

lemma root_ptr_neq: "a \<notin> set (addrs t) \<Longrightarrow> root_ptr t \<noteq> Some a" "a \<notin> set (addrs t) \<Longrightarrow> Some a \<noteq> root_ptr t"
  using root_ptr_SomeD [of t a] by auto

lemma insert_rotate_outer:
  assumes "rep (h, root) t (Fr e p RB_RED s # Fr e g cg u # fs)" "root_ptr t = Some n" "rcol s = RB_BLACK"
  shows "rb_rep (rb_insert_rotate e n p g (h, root)) (plug (mk e t (p, cg) (mk e s (g, RB_RED) u)) fs) \<and>
    same_off (set (addrs t) \<union> set (caddrs (Fr e p RB_RED s # Fr e g cg u # fs))) h
      (fst (rb_insert_rotate e n p g (h, root)))"
proof -
  let ?h6 = "set_child (opp e) (set_child e h g (root_ptr s)) p (Some g)"
  let ?h7 = "set_pc_if ?h6 (root_ptr s) (Some g) RB_BLACK"
  note r = assms(1) [unfolded rep_def, simplified]
  have ns: "Some n \<noteq> root_ptr s" using r root_ptr_SomeD [OF assms(2)] root_ptr_SomeD [of s n] by auto
  have pg: "p \<noteq> g" using r by auto
  have h7: "?h7 p = upd_child (opp e) (Some g) (h p)" "?h7 g = upd_child e (root_ptr s) (h g)"
    "\<And>a. a \<noteq> p \<Longrightarrow> a \<noteq> g \<Longrightarrow> a \<notin> set (addrs s) \<Longrightarrow> ?h7 a = h a"
    using r pg by (auto simp: set_child_def)
  have "ctx_at (?h7, root) (Some g) fs"
    using r by (subst ctx_at_frame [where h = h]) (auto intro!: h7(3))
  moreover have "rb_parent (?h7 g) = par_of fs" using r h7(2) by simp
  moreover have "g \<notin> set (caddrs fs)" "p \<notin> set (caddrs fs)" "g \<noteq> p" "distinct (caddrs fs)" using r by auto
  ultimately obtain h' root' where q: "rb_rotate_set_parents g p (?h7, root) RB_RED = (h', root')"
    "ctx_at (h', root') (Some p) fs"
    "h' p = (?h7 p)\<lparr>rb_parent := par_of fs, rb_color := rb_color (?h7 g)\<rparr>"
    "h' g = (?h7 g)\<lparr>rb_parent := Some p, rb_color := RB_RED\<rparr>"
    "\<forall>a. a \<noteq> g \<longrightarrow> a \<noteq> p \<longrightarrow> a \<notin> set (caddrs fs) \<longrightarrow> h' a = ?h7 a"
    by (rule rotate_ctx [where col = RB_RED]) blast
  have off: "h' a = h a" if "a \<noteq> g" "a \<noteq> p" "a \<notin> set (caddrs fs)" "a \<notin> set (addrs s)" for a
    using q(5) h7(3) [of a] that by simp
  have eq: "rb_insert_rotate e n p g (h, root) = (h', root')"
    using r ns q(1) by (simp add: rb_insert_rotate_def Let_def)
  have "tree_at ?h7 (Some g) (paint RB_BLACK s)"
    using r by (intro tree_at_paint [where q = "Some p"]) (auto simp: set_child_def)
  then have s: "tree_at h' (Some g) s"
    using r assms(3) by (subst tree_at_frame [where h = ?h7]) (auto simp: paint_same intro!: q(5) [rule_format])
  have t: "tree_at h' (Some p) t"
    using r by (subst tree_at_frame [where h = h]) (auto intro!: off)
  have u: "tree_at h' (Some g) u"
    using r by (subst tree_at_frame [where h = h]) (auto intro!: off)
  have "rep (h', root') (mk e t (p, cg) (mk e s (g, RB_RED) u)) fs"
    using r s t u pg assms(2) by (auto simp: rep_def q h7)
  moreover have "same_off (set (addrs t) \<union> set (caddrs (Fr e p RB_RED s # Fr e g cg u # fs))) h h'"
    unfolding same_off_def by (auto intro!: off)
  ultimately show ?thesis by (simp add: eq rep_plug)
qed

lemma insert_rotate_inner:
  assumes "rep (h, root) (mk e t1 (n, RB_RED) t2) (Fr (opp e) p RB_RED s # Fr e g cg u # fs)"
    "rcol t1 = RB_BLACK" "rcol t2 = RB_BLACK"
  shows "rb_rep (rb_insert_rotate e n p g (h, root))
    (plug (mk e (mk e s (p, RB_RED) t1) (n, cg) (mk e t2 (g, RB_RED) u)) fs) \<and>
    same_off (set (addrs (mk e t1 (n, RB_RED) t2)) \<union> set (caddrs (Fr (opp e) p RB_RED s # Fr e g cg u # fs))) h
      (fst (rb_insert_rotate e n p g (h, root)))"
proof -
  let ?h2 = "set_child e (set_child (opp e) h p (root_ptr t1)) n (Some p)"
  let ?h3 = "set_pc_if ?h2 (root_ptr t1) (Some p) RB_BLACK"
  let ?h4 = "rb_set_parent_color ?h3 p (Some n) RB_RED"
  let ?h6 = "set_child (opp e) (set_child e ?h4 g (root_ptr t2)) n (Some g)"
  let ?h7 = "set_pc_if ?h6 (root_ptr t2) (Some g) RB_BLACK"
  note r = assms(1) [unfolded rep_def, simplified]
  have ne: "p \<noteq> g" "p \<noteq> n" "n \<noteq> g" using r by auto
  have h3: "?h3 p = upd_child (opp e) (root_ptr t1) (h p)" "?h3 n = upd_child e (Some p) (h n)" "?h3 g = h g"
    "\<And>a. a \<noteq> p \<Longrightarrow> a \<noteq> n \<Longrightarrow> a \<notin> set (addrs t1) \<Longrightarrow> ?h3 a = h a"
    using r ne by (auto simp: set_child_def)
  have h7: "?h7 p = (upd_child (opp e) (root_ptr t1) (h p))\<lparr>rb_parent := Some n, rb_color := RB_RED\<rparr>"
    "?h7 n = upd_child (opp e) (Some g) (upd_child e (Some p) (h n))" "?h7 g = upd_child e (root_ptr t2) (h g)"
    "\<And>a. a \<noteq> p \<Longrightarrow> a \<noteq> g \<Longrightarrow> a \<noteq> n \<Longrightarrow> a \<notin> set (addrs t2) \<Longrightarrow> ?h7 a = ?h3 a"
    using r ne h3 by (auto simp: set_child_def rb_set_parent_color_def)
  have h7': "?h7 a = h a" if "a \<noteq> p" "a \<noteq> g" "a \<noteq> n" "a \<notin> set (addrs t1)" "a \<notin> set (addrs t2)" for a
    using h7(4) [of a] h3(4) [of a] that by simp
  have "ctx_at (?h7, root) (Some g) fs"
    using r by (subst ctx_at_frame [where h = h]) (auto intro!: h7')
  moreover have "rb_parent (?h7 g) = par_of fs" using r by (simp add: h7(3))
  moreover have "g \<notin> set (caddrs fs)" "n \<notin> set (caddrs fs)" "g \<noteq> n" "distinct (caddrs fs)" using r by auto
  ultimately obtain h' root' where q: "rb_rotate_set_parents g n (?h7, root) RB_RED = (h', root')"
    "ctx_at (h', root') (Some n) fs"
    "h' n = (?h7 n)\<lparr>rb_parent := par_of fs, rb_color := rb_color (?h7 g)\<rparr>"
    "h' g = (?h7 g)\<lparr>rb_parent := Some n, rb_color := RB_RED\<rparr>"
    "\<forall>a. a \<noteq> g \<longrightarrow> a \<noteq> n \<longrightarrow> a \<notin> set (caddrs fs) \<longrightarrow> h' a = ?h7 a"
    by (rule rotate_ctx [where col = RB_RED]) blast
  have hp: "h' p = ?h7 p" using q(5) ne r by auto
  have off: "h' a = h a" if "a \<noteq> g" "a \<noteq> p" "a \<noteq> n" "a \<notin> set (caddrs fs)" "a \<notin> set (addrs t1)" "a \<notin> set (addrs t2)" for a
    using q(5) h7' [of a] that by simp
  have c4: "child (opp e) (?h4 n) = root_ptr t2"
    using r ne h3 by (simp add: rb_set_parent_color_def)
  have "rb_insert_rotate e n p g (h, root) = rb_rotate_set_parents g n (?h7, root) RB_RED"
    using r c4 ne by (simp add: rb_insert_rotate_def Let_def set_child_def)
  then have eq: "rb_insert_rotate e n p g (h, root) = (h', root')" using q(1) by simp
  have "tree_at ?h3 (Some p) (paint RB_BLACK t1)"
    using r by (intro tree_at_paint [where q = "Some n"]) (auto simp: set_child_def)
  then have "tree_at ?h7 (Some p) (paint RB_BLACK t1)"
    using r by (subst tree_at_frame [where h = ?h3]) (auto intro!: h7(4))
  then have t1: "tree_at h' (Some p) t1"
    using r assms(2) by (subst tree_at_frame [where h = ?h7]) (auto simp: paint_same intro!: q(5) [rule_format])
  have h6: "?h6 a = h a" if "a \<noteq> p" "a \<noteq> g" "a \<noteq> n" "a \<notin> set (addrs t1)" for a
    using h3(4) [of a] that by (simp add: set_child_def rb_set_parent_color_def)
  have "tree_at ?h6 (Some n) t2"
    using r ne by (subst tree_at_frame [where h = h]) (auto intro!: h6)
  then have "tree_at ?h7 (Some g) (paint RB_BLACK t2)"
    using r by (intro tree_at_paint [where q = "Some n"]) auto
  then have t2: "tree_at h' (Some g) t2"
    using r assms(3) by (subst tree_at_frame [where h = ?h7]) (auto simp: paint_same intro!: q(5) [rule_format])
  have s: "tree_at h' (Some p) s"
    using r by (subst tree_at_frame [where h = h]) (auto intro!: off)
  have u: "tree_at h' (Some g) u"
    using r by (subst tree_at_frame [where h = h]) (auto intro!: off)
  have "rep (h', root') (mk e (mk e s (p, RB_RED) t1) (n, cg) (mk e t2 (g, RB_RED) u)) fs"
    using r s u t1 t2 ne by (auto simp: rep_def q(2-4) h7(1-3) hp)
  moreover have "same_off (set (addrs (mk e t1 (n, RB_RED) t2)) \<union>
      set (caddrs (Fr (opp e) p RB_RED s # Fr e g cg u # fs))) h h'"
    unfolding same_off_def by (auto intro!: off)
  ultimately show ?thesis by (simp add: eq rep_plug)
qed

text \<open>The colour flip of case 1.\<close>

lemma insert_flip_rep:
  assumes "rep (h, root) t (Fr d p c s # Fr e g cg u # fs)" "root_ptr u = Some ua"
  obtains h' where "rb_insert_flip ua p g h = (par_of fs, h')"
    "rep (h', root) (mk e (mk d t (p, RB_BLACK) s) (g, RB_RED) (paint RB_BLACK u)) fs"
    "same_off (insert p (insert g (set (addrs u)))) h h'"
proof -
  note r = assms(1) [unfolded rep_def, simplified]
  let ?h1 = "set_pc_if h (root_ptr u) (Some g) RB_BLACK"
  let ?h' = "rb_set_parent_color (rb_set_parent_color ?h1 p (Some g) RB_BLACK) g (par_of fs) RB_RED"
  have ua: "ua \<in> set (addrs u)" using assms(2) root_ptr_SomeD by blast
  have ne: "p \<noteq> g" "ua \<noteq> g" "ua \<noteq> p" using r ua by auto
  have h1: "?h1 p = h p" "?h1 g = h g" using r by auto
  have dis: "set (addrs u) \<inter> set (addrs t) = {}" "set (addrs u) \<inter> set (addrs s) = {}" using r by auto
  have eq: "rb_insert_flip ua p g h = (par_of fs, ?h')"
    using r ne assms(2) by (auto simp: rb_insert_flip_def Let_def set_pc_if_def rb_set_parent_color_def)
  have "tree_at ?h1 (Some g) (paint RB_BLACK u)"
    using r by (intro tree_at_paint [where q = "Some g"]) auto
  then have u: "tree_at ?h' (Some g) (paint RB_BLACK u)"
    using r by (simp add: rb_set_parent_color_def)
  have "rep (?h', root) (mk e (mk d t (p, RB_BLACK) s) (g, RB_RED) (paint RB_BLACK u)) fs"
    using r u ne h1 dis by (auto simp: rep_def rb_set_parent_color_def)
  moreover have "same_off (insert p (insert g (set (addrs u)))) h ?h'"
    by (auto simp: same_off_def rb_set_parent_color_def)
  ultimately show thesis using eq by (intro that)
qed

lemma rb_insert_loop_refines:
  assumes "rep (h, root) t fs" "root_ptr t = Some n" "rcol t = RB_RED" "invc t" "ctx_c RB_BLACK fs"
  shows "\<exists>st'. rb_insert_loop n (par_of fs) (h, root) = Some st' \<and> rb_rep st' (ins_fix t fs) \<and>
    same_off (set (addrs t) \<union> set (caddrs fs)) h (fst st')"
  using assms
proof (induction t fs arbitrary: h n rule: ins_fix.induct)
  case (1 t)
  then have "tree_at h None t" "root = Some n" "distinct (addrs t)" by (auto simp: rep_def)
  then have "rb_rep (rb_set_parent_color h n None RB_BLACK, root) (paint RB_BLACK t)"
    using tree_at_paint [of h None t None RB_BLACK] 1(2) by (simp add: rb_rep_def set_pc_if_def)
  moreover have "same_off (set (addrs t)) h (rb_set_parent_color h n None RB_BLACK)"
    using root_ptr_SomeD [OF 1(2)] by (auto simp: same_off_def rb_set_parent_color_def)
  ultimately show ?case by (subst rb_insert_loop.simps) simp
next
  case (2 t f)
  obtain d a c s where f: "f = Fr d a c s" by (cases f)
  have "rb_is_black h a" using 2 f by (auto simp: rep_def rb_is_black_def)
  then show ?case using 2(1) f
    by (subst rb_insert_loop.simps) (simp add: rep_plug [symmetric])
next
  case (3 t d p c s e g cg u fs)
  note r = "3.prems"(1) [unfolded rep_def, simplified]
  show ?case
  proof (cases "c = RB_BLACK")
    case True
    then have "rb_is_black h p" using r by (simp add: rb_is_black_def)
    then show ?thesis using True "3.prems"(1)
      by (subst rb_insert_loop.simps) (simp add: rep_plug [symmetric])
  next
    case False
    then have c: "c = RB_RED" by simp
    have hp: "\<not> rb_is_black h p" "rb_is_red h p" "rb_parent (h p) = Some g"
      using r c by (auto simp: rb_is_black_def rb_is_red_def)
    have pu: "root_ptr u \<noteq> Some p" using r root_ptr_SomeD [of u p] by auto
    have side: "(if rb_right (h g) \<noteq> Some p then Lft else Rgt) = e"
      using r pu by (cases e) auto
    have tmp: "child (opp e) (h g) = root_ptr u" using r by auto
    have red: "red_ptr h (root_ptr u) \<longleftrightarrow> rcol u = RB_RED"
      using r by (intro red_ptr_root) auto
    show ?thesis
    proof (cases "rcol u = RB_RED")
      case True
      then obtain ua where ua: "root_ptr u = Some ua" by (cases u) auto
      let ?t = "mk e (mk d t (p, RB_BLACK) s) (g, RB_RED) (paint RB_BLACK u)"
      obtain h' where f: "rb_insert_flip ua p g h = (par_of fs, h')" "rep (h', root) ?t fs"
          "same_off (insert p (insert g (set (addrs u)))) h h'"
        using insert_flip_rep [OF "3.prems"(1) ua] by blast
      have "ctx_c RB_BLACK fs" "invc ?t"
        using "3.prems" c True ctx_c_black by (auto intro: ctx_c_black)
      then obtain st' where st': "rb_insert_loop g (par_of fs) (h', root) = Some st'"
          "rb_rep st' (ins_fix ?t fs)" "same_off (set (addrs ?t) \<union> set (caddrs fs)) h' (fst st')"
        using "3.IH" [OF False True f(2)] by auto
      have "same_off (set (addrs t) \<union> set (caddrs (Fr d p c s # Fr e g cg u # fs))) h h'"
        using f(3) by (rule same_off_mono) auto
      moreover have "same_off (set (addrs t) \<union> set (caddrs (Fr d p c s # Fr e g cg u # fs))) h' (fst st')"
        using st'(3) by (rule same_off_mono) auto
      ultimately have "same_off (set (addrs t) \<union> set (caddrs (Fr d p c s # Fr e g cg u # fs))) h (fst st')"
        by (rule same_off_trans)
      then show ?thesis using c True hp side tmp red ua f(1) st'(1,2)
        by (subst rb_insert_loop.simps) (simp add: rb_red_parent_def)
    next
      case u: False
      have loop: "rb_insert_loop n (par_of (Fr d p c s # Fr e g cg u # fs)) (h, root) =
          Some (rb_insert_rotate e n p g (h, root))"
        using hp side tmp red u by (subst rb_insert_loop.simps) (simp add: rb_red_parent_def)
      show ?thesis
      proof (cases "d = e")
        case True
        have "rcol s = RB_BLACK" using "3.prems" c by auto
        then show ?thesis using loop insert_rotate_outer [of h root t e p s g cg u fs n] "3.prems" True c u
          by auto
      next
        case de: False
        then have d: "d = opp e" by (cases d; cases e) auto
        obtain t1 m t2 where t: "t = mk e t1 (m, RB_RED) t2" using red_mk [OF "3.prems"(3)] by blast
        then have "m = n" "rcol t1 = RB_BLACK" "rcol t2 = RB_BLACK" using "3.prems" by auto
        then show ?thesis using loop insert_rotate_inner [of h root e t1 n t2 p s g cg u fs] "3.prems" t d c u
          by auto
      qed
    qed
  qed
qed

text \<open>An empty link of the tree: the context whose hole is a leaf, as the pair of arguments
  \<open>parent\<close> and \<open>rb_link\<close> the caller of \<open>eaf_map_low_link_node\<close> has found.\<close>

fun link_of :: "frame list \<Rightarrow> rb_link" where
  "link_of [] = RootLink"
| "link_of (Fr d a c s # fs) = ChildLink d a"

lemma link_node_rep:
  assumes "rep (h, root) Leaf fs" "n \<notin> set (caddrs fs)"
  shows "\<exists>h' root'. eaf_map_low_link_node n (par_of fs) (link_of fs) (h, root) = (h', root') \<and>
    rep (h', root') (Node Leaf (n, RB_RED) Leaf) fs \<and> same_off (insert n (set (caddrs fs))) h h'"
proof (cases fs)
  case Nil
  then show ?thesis using assms
    by (auto simp: rep_def eaf_map_low_link_node_def same_off_def)
next
  case (Cons f gs)
  obtain d a c s where "f = Fr d a c s" by (cases f)
  then show ?thesis using assms Cons
    by (auto simp: rep_def eaf_map_low_link_node_def same_off_def set_child_def)
qed

lemma low_insert:
  assumes "rb_rep st (plug Leaf fs)" "rbt (plug Leaf fs)" "n \<notin> set (caddrs fs)"
  shows "\<exists>st' t'. eaf_map_low_insert_color n (eaf_map_low_link_node n (par_of fs) (link_of fs) st) = Some st' \<and>
    rb_rep st' t' \<and> rbt t' \<and> addrs t' = before fs @ n # after fs \<and>
    same_off (insert n (set (caddrs fs))) (fst st) (fst st')"
proof -
  obtain h root where st: "st = (h, root)" by (cases st)
  let ?t = "Node Leaf (n, RB_RED) Leaf :: ptree"
  obtain h1 root1 where l: "eaf_map_low_link_node n (par_of fs) (link_of fs) (h, root) = (h1, root1)"
    "rep (h1, root1) ?t fs" "same_off (insert n (set (caddrs fs))) h h1"
    using link_node_rep [of h root fs n] assms st by (auto simp: rep_plug)
  have c: "ctx_c RB_BLACK fs" "ctx_h (bh ?t) fs" using assms(2) by (auto simp: rbt_plug)
  obtain st' where i: "rb_insert_loop n (par_of fs) (h1, root1) = Some st'" "rb_rep st' (ins_fix ?t fs)"
    "same_off (set (addrs ?t) \<union> set (caddrs fs)) h1 (fst st')"
    using rb_insert_loop_refines [OF l(2), of n] c by auto
  have "rb_red_parent h1 n = Some (par_of fs)"
    using l(2) by (simp add: rep_def rb_red_parent_def rb_is_red_def)
  then have "eaf_map_low_insert_color n (h1, root1) = Some st'"
    using i(1) by (simp add: eaf_map_low_insert_color_def rb_insert_def)
  moreover have "rbt (ins_fix ?t fs) \<and> addrs (ins_fix ?t fs) = addrs (plug ?t fs)"
    using c by (intro ins_fix_correct) auto
  moreover have "same_off (insert n (set (caddrs fs))) h (fst st')"
    using l(3) i(3) by (auto intro: same_off_trans)
  ultimately show ?thesis using st l(1) i(2) by (auto simp: addrs_plug)
qed

end
