(* ===== verification/MapLowErase.thy ===== *)
theory MapLowErase
  imports MapLowInsert
begin

text \<open>
  The erasing half of \<open>map_low.c\<close>: \<open>rb_erase_augmented\<close> takes the node out of the tree and names
  the place that lacks a black node, \<open>rb_erase_color\<close> repairs it and refines \<open>del_fix\<close>.
\<close>

subsection \<open>The cases of the repair loop\<close>

lemma set_parent_as_pc:
  "tree_at h q t \<Longrightarrow> (case root_ptr t of None \<Rightarrow> h | Some a \<Rightarrow> rb_set_parent h a q') = set_pc_if h (root_ptr t) q' (rcol t)"
  by (cases t) (auto simp: rb_set_parent_def set_pc_if_def rb_set_parent_color_def)

text \<open>Case 4, stated for the half-finished heap case 3 leaves: the links from \<open>p\<close> to the sibling
  \<open>x\<close> and the parents of \<open>x\<close> and of the roots below it are about to be overwritten.\<close>

lemma erase_case4_rep:
  assumes ctx: "ctx_at (h, root) (Some p) fs" "rb_parent (h p) = par_of fs" "rb_color (h p) = c"
    and t: "child d (h p) = root_ptr t" "tree_at h (Some p) t"
    and x: "child d (h x) = root_ptr sl" "child (opp d) (h x) = root_ptr sr"
    and s: "tree_at h q1 sl" "tree_at h q2 sr" "root_ptr sr = Some r"
    and dis: "distinct (addrs (mk d t (p, c) (mk d sl (x, cx) sr)))" "distinct (caddrs fs)"
      "set (addrs (mk d t (p, c) (mk d sl (x, cx) sr))) \<inter> set (caddrs fs) = {}"
  shows "rb_rep (rb_erase_case4 d p x r (h, root)) (plug (mk d (mk d t (p, RB_BLACK) sl) (x, c) (paint RB_BLACK sr)) fs) \<and>
    same_off (set (addrs (mk d t (p, c) (mk d sl (x, cx) sr))) \<union> set (caddrs fs)) h
      (fst (rb_erase_case4 d p x r (h, root)))"
proof -
  let ?h2 = "set_child d (set_child (opp d) h p (root_ptr sl)) x (Some p)"
  let ?h3 = "set_pc_if ?h2 (root_ptr sr) (Some x) RB_BLACK"
  let ?h4 = "set_pc_if ?h3 (root_ptr sl) (Some p) (rcol sl)"
  note r = dis [simplified]
  have ne: "p \<noteq> x" using r by auto
  have h4: "?h4 p = upd_child (opp d) (root_ptr sl) (h p)" "?h4 x = upd_child d (Some p) (h x)"
    "\<And>a. a \<noteq> p \<Longrightarrow> a \<noteq> x \<Longrightarrow> a \<notin> set (addrs sl) \<Longrightarrow> a \<notin> set (addrs sr) \<Longrightarrow> ?h4 a = h a"
    using r ne by (auto simp: set_child_def)
  have sl2: "tree_at ?h2 q1 sl"
    using s r ne by (subst tree_at_frame [where h = h]) (auto simp: set_child_def)
  then have sl3: "tree_at ?h3 q1 sl" using r by auto
  have sr2: "tree_at ?h2 q2 sr"
    using s r ne by (subst tree_at_frame [where h = h]) (auto simp: set_child_def)
  have "ctx_at (?h4, root) (Some p) fs"
    using r ctx by (subst ctx_at_frame [where h = h]) (auto intro!: h4(3))
  moreover have "rb_parent (?h4 p) = par_of fs" using ctx by (simp add: h4)
  moreover have "p \<notin> set (caddrs fs)" "x \<notin> set (caddrs fs)" "p \<noteq> x" "distinct (caddrs fs)" using r by auto
  ultimately obtain h' root' where q: "rb_rotate_set_parents p x (?h4, root) RB_BLACK = (h', root')"
    "ctx_at (h', root') (Some x) fs"
    "h' x = (?h4 x)\<lparr>rb_parent := par_of fs, rb_color := rb_color (?h4 p)\<rparr>"
    "h' p = (?h4 p)\<lparr>rb_parent := Some x, rb_color := RB_BLACK\<rparr>"
    "\<forall>a. a \<noteq> p \<longrightarrow> a \<noteq> x \<longrightarrow> a \<notin> set (caddrs fs) \<longrightarrow> h' a = ?h4 a"
    by (rule rotate_ctx [where col = RB_BLACK]) blast
  have off: "h' a = h a" if "a \<noteq> p" "a \<noteq> x" "a \<notin> set (caddrs fs)" "a \<notin> set (addrs sl)" "a \<notin> set (addrs sr)" for a
    using q(5) h4(3) [of a] that by simp
  have h3eq: "rb_set_parent_color ?h2 r (Some x) RB_BLACK = ?h3" using s(3) by (simp add: set_pc_if_def)
  have h4eq: "(case root_ptr sl of None \<Rightarrow> ?h3 | Some a \<Rightarrow> rb_set_parent ?h3 a (Some p)) = ?h4"
    using sl3 by (rule set_parent_as_pc)
  have eq: "rb_erase_case4 d p x r (h, root) = (h', root')"
    unfolding rb_erase_case4_def prod.case Let_def x(1) h3eq h4eq q(1) ..
  have "tree_at ?h3 (Some x) (paint RB_BLACK sr)"
    using sr2 r by (intro tree_at_paint) auto
  then have "tree_at ?h4 (Some x) (paint RB_BLACK sr)" using r by auto
  then have sr': "tree_at h' (Some x) (paint RB_BLACK sr)"
    using r by (subst tree_at_frame [where h = ?h4]) (auto intro!: q(5) [rule_format])
  have "tree_at ?h4 (Some p) (paint (rcol sl) sl)"
    using sl3 r by (intro tree_at_paint) auto
  then have sl': "tree_at h' (Some p) sl"
    using r by (subst tree_at_frame [where h = ?h4]) (auto simp: paint_same intro!: q(5) [rule_format])
  have t': "tree_at h' (Some p) t"
    using r t by (subst tree_at_frame [where h = h]) (auto intro!: off)
  have "rep (h', root') (mk d (mk d t (p, RB_BLACK) sl) (x, c) (paint RB_BLACK sr)) fs"
    using r t x ctx sr' sl' t' ne by (auto simp: rep_def q(2-4) h4(1,2))
  moreover have "same_off (set (addrs (mk d t (p, c) (mk d sl (x, cx) sr))) \<union> set (caddrs fs)) h h'"
    unfolding same_off_def by (auto intro!: off)
  ultimately show ?thesis by (simp add: eq rep_plug)
qed

text \<open>Case 1: afterwards the deficient subtree has a red parent and a black sibling.\<close>

lemma erase_case1_rep:
  assumes "rep (h, root) t (Fr d p c (mk d sl (x, RB_RED) sr) # fs)" "rcol sl = RB_BLACK" "root_ptr sl = Some y"
  shows "\<exists>h' root'. rb_erase_case1 d p x (h, root) = Some (y, h', root') \<and>
    rep (h', root') t (Fr d p RB_RED sl # Fr d x c sr # fs) \<and>
    same_off (set (addrs t) \<union> set (caddrs (Fr d p c (mk d sl (x, RB_RED) sr) # fs))) h h'"
proof -
  let ?h2 = "set_child d (set_child (opp d) h p (root_ptr sl)) x (Some p)"
  let ?h3 = "set_pc_if ?h2 (root_ptr sl) (Some p) RB_BLACK"
  note r = assms(1) [unfolded rep_def, simplified]
  have ne: "p \<noteq> x" using r by auto
  have h3: "?h3 p = upd_child (opp d) (root_ptr sl) (h p)" "?h3 x = upd_child d (Some p) (h x)"
    "\<And>a. a \<noteq> p \<Longrightarrow> a \<noteq> x \<Longrightarrow> a \<notin> set (addrs sl) \<Longrightarrow> ?h3 a = h a"
    using r ne by (auto simp: set_child_def)
  have sl2: "tree_at ?h2 (Some x) sl"
    using r ne by (subst tree_at_frame [where h = h]) (auto simp: set_child_def)
  have "ctx_at (?h3, root) (Some p) fs"
    using r by (subst ctx_at_frame [where h = h]) (auto intro!: h3(3))
  moreover have "rb_parent (?h3 p) = par_of fs" using r by (simp add: h3)
  moreover have "p \<notin> set (caddrs fs)" "x \<notin> set (caddrs fs)" "p \<noteq> x" "distinct (caddrs fs)" using r by auto
  ultimately obtain h' root' where q: "rb_rotate_set_parents p x (?h3, root) RB_RED = (h', root')"
    "ctx_at (h', root') (Some x) fs"
    "h' x = (?h3 x)\<lparr>rb_parent := par_of fs, rb_color := rb_color (?h3 p)\<rparr>"
    "h' p = (?h3 p)\<lparr>rb_parent := Some x, rb_color := RB_RED\<rparr>"
    "\<forall>a. a \<noteq> p \<longrightarrow> a \<noteq> x \<longrightarrow> a \<notin> set (caddrs fs) \<longrightarrow> h' a = ?h3 a"
    by (rule rotate_ctx [where col = RB_RED]) blast
  have off: "h' a = h a" if "a \<noteq> p" "a \<noteq> x" "a \<notin> set (caddrs fs)" "a \<notin> set (addrs sl)" for a
    using q(5) h3(3) [of a] that by simp
  have "?h3 = rb_set_parent_color ?h2 y (Some p) RB_BLACK" using assms(3) by (simp add: set_pc_if_def)
  then have eq: "rb_erase_case1 d p x (h, root) = Some (y, h', root')"
    using r q(1) assms(3) by (simp add: rb_erase_case1_def Let_def)
  have "tree_at ?h3 (Some p) (paint RB_BLACK sl)"
    using sl2 r by (intro tree_at_paint) auto
  then have sl': "tree_at h' (Some p) sl"
    using r assms(2) by (subst tree_at_frame [where h = ?h3]) (auto simp: paint_same intro!: q(5) [rule_format])
  have t': "tree_at h' (Some p) t" "tree_at h' (Some x) sr"
    using r by (subst tree_at_frame [where h = h], auto intro!: off)+
  have "rep (h', root') t (Fr d p RB_RED sl # Fr d x c sr # fs)"
    using r sl' t' ne by (auto simp: rep_def q(2-4) h3(1,2))
  moreover have "same_off (set (addrs t) \<union> set (caddrs (Fr d p c (mk d sl (x, RB_RED) sr) # fs))) h h'"
    unfolding same_off_def by (auto intro!: off)
  ultimately show ?thesis by (simp add: eq)
qed

lemma root_ptr_mk_side: "root_ptr t = Some a \<Longrightarrow> \<exists>l c r. t = mk d l (a, c) r"
  by (cases t; cases d) auto

text \<open>The part of the loop body after case 1, for a black sibling \<open>s\<close> rooted at \<open>x\<close>.\<close>

definition rb_erase_black :: "side \<Rightarrow> addr \<Rightarrow> addr \<Rightarrow> rb_state \<Rightarrow> rb_state option" where
  "rb_erase_black d parent sibling st = (case st of (h, root) \<Rightarrow>
     let tmp1 = child (opp d) (h sibling) in
     if \<not> red_ptr h tmp1 then
       (let tmp2 = child d (h sibling) in
        if \<not> red_ptr h tmp2 then
          (let h1 = rb_set_parent_color h sibling (Some parent) RB_RED in
           if rb_is_red h1 parent then Some (rb_set_black h1 parent, root)
           else case rb_parent (h1 parent) of
                  Some p \<Rightarrow> rb_erase_color (Some parent) p (h1, root)
                | None \<Rightarrow> Some (h1, root))
        else do {
          t2 \<leftarrow> tmp2;
          Some (rb_erase_case4 d parent t2 sibling (rb_erase_case3 d parent sibling t2 h, root)) })
     else do {
       t1 \<leftarrow> tmp1;
       Some (rb_erase_case4 d parent sibling t1 (h, root)) })"

lemma rb_erase_color_step:
  "rb_erase_color node parent st = do {
     let d = (if node \<noteq> rb_right (fst st parent) then Lft else Rgt);
     s0 \<leftarrow> child (opp d) (fst st parent);
     (sibling, st1) \<leftarrow> (if rb_is_red (fst st) s0 then rb_erase_case1 d parent s0 st else Some (s0, st));
     rb_erase_black d parent sibling st1 }"
  unfolding rb_erase_black_def by (rule rb_erase_color.simps)

text \<open>Case 2: the sibling turns red; a red parent absorbs the deficit.\<close>

lemma erase_case2_rep:
  assumes "rep (h, root) t (Fr d p c (mk d sl (x, RB_BLACK) sr) # fs)"
    "rcol sl = RB_BLACK" "rcol sr = RB_BLACK"
  shows "\<exists>h1. rb_erase_black d p x (h, root) =
      (if c = RB_RED then Some (h1, root)
       else case par_of fs of Some g \<Rightarrow> rb_erase_color (Some p) g (h1, root) | None \<Rightarrow> Some (h1, root)) \<and>
    rep (h1, root) (mk d t (p, RB_BLACK) (mk d sl (x, RB_RED) sr)) fs \<and>
    same_off {p, x} h h1"
proof -
  note r = assms(1) [unfolded rep_def, simplified]
  let ?h1 = "rb_set_parent_color h x (Some p) RB_RED"
  have red: "\<not> red_ptr h (child (opp d) (h x))" "\<not> red_ptr h (child d (h x))"
    using r assms red_ptr_root [of h "Some x" sr] red_ptr_root [of h "Some x" sl] by auto
  have ne: "p \<noteq> x" using r by auto
  have p: "rb_is_red ?h1 p \<longleftrightarrow> c = RB_RED" "rb_parent (?h1 p) = par_of fs"
    using r ne by (auto simp: rb_is_red_def rb_set_parent_color_def)
  show ?thesis
  proof (cases "c = RB_RED")
    case True
    have "rep (rb_set_black ?h1 p, root) (mk d t (p, RB_BLACK) (mk d sl (x, RB_RED) sr)) fs"
      using r ne by (auto simp: rep_def rb_set_black_def rb_set_parent_color_def)
    moreover have "rb_erase_black d p x (h, root) = Some (rb_set_black ?h1 p, root)"
      using red p True by (simp add: rb_erase_black_def Let_def)
    moreover have "same_off {p, x} h (rb_set_black ?h1 p)"
      by (auto simp: same_off_def rb_set_black_def rb_set_parent_color_def)
    ultimately show ?thesis using True by auto
  next
    case False
    have "rep (?h1, root) (mk d t (p, RB_BLACK) (mk d sl (x, RB_RED) sr)) fs"
      using r ne False by (auto simp: rep_def rb_set_parent_color_def)
    moreover have "rb_erase_black d p x (h, root) =
        (case par_of fs of Some g \<Rightarrow> rb_erase_color (Some p) g (?h1, root) | None \<Rightarrow> Some (?h1, root))"
      using red p False by (simp add: rb_erase_black_def Let_def)
    moreover have "same_off {p, x} h ?h1"
      by (auto simp: same_off_def rb_set_parent_color_def)
    ultimately show ?thesis using False by auto
  qed
qed

text \<open>Cases 3 and 4.\<close>

lemma erase_far_red_rep:
  assumes "rep (h, root) t (Fr d p c (mk d sl (x, RB_BLACK) sr) # fs)" "rcol sr = RB_RED"
  shows "\<exists>st'. rb_erase_black d p x (h, root) = Some st' \<and>
    rb_rep st' (plug (mk d (mk d t (p, RB_BLACK) sl) (x, c) (paint RB_BLACK sr)) fs) \<and>
    same_off (set (addrs t) \<union> set (caddrs (Fr d p c (mk d sl (x, RB_BLACK) sr) # fs))) h (fst st')"
proof -
  note r = assms(1) [unfolded rep_def, simplified]
  obtain y where y: "root_ptr sr = Some y" using assms(2) by (cases sr) auto
  have red: "red_ptr h (child (opp d) (h x))"
    using r assms red_ptr_root [of h "Some x" sr] by auto
  have "rb_erase_black d p x (h, root) = Some (rb_erase_case4 d p x y (h, root))"
    using red r y by (simp add: rb_erase_black_def Let_def)
  moreover have "same_off (set (addrs (mk d t (p, c) (mk d sl (x, RB_BLACK) sr))) \<union> set (caddrs fs)) h
      (fst (rb_erase_case4 d p x y (h, root))) \<and>
      rb_rep (rb_erase_case4 d p x y (h, root)) (plug (mk d (mk d t (p, RB_BLACK) sl) (x, c) (paint RB_BLACK sr)) fs)"
    using r y
    by (intro conjI conjunct1 [OF erase_case4_rep [where cx = RB_BLACK and c = c and ?q1.0 = "Some x" and ?q2.0 = "Some x"]]
        conjunct2 [OF erase_case4_rep [where cx = RB_BLACK and c = c and ?q1.0 = "Some x" and ?q2.0 = "Some x"]]) auto
  ultimately show ?thesis by (auto elim!: same_off_mono)
qed

lemma erase_near_red_rep:
  assumes "rep (h, root) t (Fr d p c (mk d (mk d a (y, RB_RED) b) (x, RB_BLACK) sr) # fs)"
    "rcol sr = RB_BLACK" "rcol b = RB_BLACK"
  shows "\<exists>st'. rb_erase_black d p x (h, root) = Some st' \<and>
    rb_rep st' (plug (mk d (mk d t (p, RB_BLACK) a) (y, c) (mk d b (x, RB_BLACK) sr)) fs) \<and>
    same_off (set (addrs t) \<union> set (caddrs (Fr d p c (mk d (mk d a (y, RB_RED) b) (x, RB_BLACK) sr) # fs))) h (fst st')"
proof -
  note r = assms(1) [unfolded rep_def, simplified]
  let ?h3 = "set_child (opp d) (set_child (opp d) (set_child d h x (root_ptr b)) y (Some x)) p (Some y)"
  let ?h4 = "set_pc_if ?h3 (root_ptr b) (Some x) RB_BLACK"
  have ne: "p \<noteq> x" "p \<noteq> y" "x \<noteq> y" using r by auto
  have red: "\<not> red_ptr h (child (opp d) (h x))" "red_ptr h (child d (h x))"
    using r assms(2) red_ptr_root [of h "Some x" sr] by (auto simp: red_ptr_def rb_is_red_def)
  have h4: "?h4 p = upd_child (opp d) (Some y) (h p)" "?h4 x = upd_child d (root_ptr b) (h x)"
    "?h4 y = upd_child (opp d) (Some x) (h y)"
    "\<And>e. e \<noteq> p \<Longrightarrow> e \<noteq> x \<Longrightarrow> e \<noteq> y \<Longrightarrow> e \<notin> set (addrs b) \<Longrightarrow> ?h4 e = h e"
    using r ne by (auto simp: set_child_def)
  have c3: "rb_erase_case3 d p x y h = ?h4"
    using r by (simp add: rb_erase_case3_def Let_def)
  have eq: "rb_erase_black d p x (h, root) = Some (rb_erase_case4 d p y x (?h4, root))"
    using red r c3 by (simp add: rb_erase_black_def Let_def)
  have "tree_at ?h3 (Some y) b"
    using r by (subst tree_at_frame [where h = h]) (auto simp: set_child_def)
  then have "tree_at ?h4 (Some x) (paint RB_BLACK b)"
    using r by (intro tree_at_paint) auto
  then have b: "tree_at ?h4 (Some x) b" using assms(3) by (simp add: paint_same)
  have sub: "tree_at ?h4 (Some y) a" "tree_at ?h4 (Some x) sr" "tree_at ?h4 (Some p) t"
    using r by (subst tree_at_frame [where h = h], auto intro!: h4(4))+
  have ctx: "ctx_at (?h4, root) (Some p) fs"
    using r by (subst ctx_at_frame [where h = h]) (auto intro!: h4(4))
  let ?s = "mk d b (x, RB_BLACK) sr"
  have s: "tree_at ?h4 (rb_parent (h x)) ?s"
    using r b sub ne by (simp add: h4)
  have 4: "rb_rep (rb_erase_case4 d p y x (?h4, root))
      (plug (mk d (mk d t (p, RB_BLACK) a) (y, c) (paint RB_BLACK ?s)) fs) \<and>
    same_off (set (addrs (mk d t (p, c) (mk d a (y, RB_RED) ?s))) \<union> set (caddrs fs)) ?h4
      (fst (rb_erase_case4 d p y x (?h4, root)))"
    by (rule erase_case4_rep [OF ctx _ _ _ sub(3) _ _ sub(1) s])
      (use r ne in \<open>auto simp: h4\<close>)
  let ?A = "set (addrs t) \<union> set (caddrs (Fr d p c (mk d (mk d a (y, RB_RED) b) (x, RB_BLACK) sr) # fs))"
  have "same_off ?A h ?h4" unfolding same_off_def by (auto simp: set_child_def)
  moreover have "same_off ?A ?h4 (fst (rb_erase_case4 d p y x (?h4, root)))"
    using conjunct2 [OF 4] by (rule same_off_mono) auto
  ultimately have "same_off ?A h (fst (rb_erase_case4 d p y x (?h4, root)))" by (rule same_off_trans)
  with eq 4 show ?thesis by auto
qed

text \<open>The body after case 1, and the loop.\<close>

lemma erase_black_refines:
  assumes "rep (h, root) t (Fr d p c s # fs)" "root_ptr s = Some x" "rcol s = RB_BLACK" "invc s"
  shows "case del_black t d p c s of
      Inr t' \<Rightarrow> \<exists>st'. rb_erase_black d p x (h, root) = Some st' \<and> rb_rep st' (plug t' fs) \<and>
                  same_off (set (addrs t) \<union> set (caddrs (Fr d p c s # fs))) h (fst st')
    | Inl t' \<Rightarrow> \<exists>h1. rb_erase_black d p x (h, root) =
                    (case par_of fs of Some g \<Rightarrow> rb_erase_color (Some p) g (h1, root) | None \<Rightarrow> Some (h1, root)) \<and>
                  rep (h1, root) t' fs \<and> root_ptr t' = Some p \<and>
                  same_off (set (addrs t) \<union> set (caddrs (Fr d p c s # fs))) h h1"
proof -
  obtain sl cx sr where "s = mk d sl (x, cx) sr" using root_ptr_mk_side [OF assms(2), of d] by auto
  then have s: "s = mk d sl (x, RB_BLACK) sr" using assms(3) by simp
  consider (2) "rcol sr = RB_BLACK" "rcol sl = RB_BLACK" | (3) "rcol sr = RB_BLACK" "rcol sl = RB_RED"
    | (4) "rcol sr = RB_RED" by (cases "rcol sr"; cases "rcol sl") auto
  then show ?thesis
  proof cases
    case 2
    obtain h1 where h1: "rb_erase_black d p x (h, root) =
        (if c = RB_RED then Some (h1, root)
         else case par_of fs of Some g \<Rightarrow> rb_erase_color (Some p) g (h1, root) | None \<Rightarrow> Some (h1, root))"
      "rep (h1, root) (mk d t (p, RB_BLACK) (mk d sl (x, RB_RED) sr)) fs" "same_off {p, x} h h1"
      using erase_case2_rep [of h root t d p c sl x sr fs] assms s 2 by blast
    have "same_off (set (addrs t) \<union> set (caddrs (Fr d p c s # fs))) h h1"
      using h1(3) s by (auto elim!: same_off_mono)
    then show ?thesis using h1(1,2) 2 s by (auto simp: Let_def rep_plug)
  next
    case 3
    then obtain a y b where sl: "sl = mk d a (y, RB_RED) b" using red_mk [of sl d] by auto
    have "rcol b = RB_BLACK" using assms(4) s sl by simp
    then show ?thesis using erase_near_red_rep [of h root t d p c a y b x sr fs] assms(1) s sl 3(1)
      by (auto simp: Let_def)
  next
    case 4
    then show ?thesis using erase_far_red_rep [of h root t d p c sl x sr fs] assms(1) s
      by (auto simp: Let_def)
  qed
qed

lemma rb_erase_color_refines:
  assumes "rep (h, root) t fs" "fs \<noteq> []" "rcol t = RB_BLACK" "invc t" "invh t" "ctx_c RB_BLACK fs"
    "ctx_h (Suc (bh t)) fs"
  shows "\<exists>st'. rb_erase_color (root_ptr t) (the (par_of fs)) (h, root) = Some st' \<and> rb_rep st' (del_fix t fs) \<and>
    same_off (set (addrs t) \<union> set (caddrs fs)) h (fst st')"
  using assms
proof (induction t fs arbitrary: h root rule: del_fix.induct)
  case (1 t)
  then show ?case by simp
next
  case (2 t d p c s fs)
  note r = "2.prems"(1) [unfolded rep_def, simplified]
  let ?A = "set (addrs t) \<union> set (caddrs (Fr d p c s # fs))"
  have s: "invc s" "invh s" "bh s = Suc (bh t)" using "2.prems" by auto
  obtain x where x: "root_ptr s = Some x" using s(3) by (cases s) auto
  have tx: "root_ptr t \<noteq> Some x" using root_ptr_SomeD [OF x] root_ptr_SomeD [of t x] r by auto
  have side: "(if root_ptr t \<noteq> rb_right (h p) then Lft else Rgt) = d"
    using r x tx by (cases d) auto
  have sib: "child (opp d) (h p) = Some x" using r x by simp
  have red: "rb_is_red h x \<longleftrightarrow> rcol s = RB_RED"
    using r x red_ptr_root [of h "Some p" s] by (simp add: red_ptr_def)
  show ?case
  proof (cases "rcol s = RB_RED")
    case True
    then obtain sl x' sr where s': "s = mk d sl (x', RB_RED) sr" using red_mk [of s d] by auto
    then have s': "s = mk d sl (x, RB_RED) sr" using x by simp
    have sl: "invc sl" "invh sl" "rcol sl = RB_BLACK" "bh sl = Suc (bh t)" using s s' by auto
    obtain y where y: "root_ptr sl = Some y" using sl(4) by (cases sl) auto
    obtain h1 root1 where c1: "rb_erase_case1 d p x (h, root) = Some (y, h1, root1)"
      "rep (h1, root1) t (Fr d p RB_RED sl # Fr d x c sr # fs)" "same_off ?A h h1"
      using erase_case1_rep [of h root t d p c sl x sr fs y] "2.prems"(1) s' sl(3) y by auto
    obtain t' where D: "del_black t d p RB_RED sl = Inr t'"
      using del_black_correct [of t sl RB_RED d p] "2.prems" sl by (auto split: sum.splits)
    obtain st' where b: "rb_erase_black d p y (h1, root1) = Some st'" "rb_rep st' (plug t' (Fr d x c sr # fs))"
      "same_off (set (addrs t) \<union> set (caddrs (Fr d p RB_RED sl # Fr d x c sr # fs))) h1 (fst st')"
      using erase_black_refines [OF c1(2) y sl(3,1)] D by (auto simp del: del_black.simps)
    have "same_off ?A h1 (fst st')" using b(3) by (rule same_off_mono) (auto simp: s')
    then have "same_off ?A h (fst st')" using c1(3) same_off_trans by blast
    then show ?thesis using True red side sib c1(1) b(1,2) D s'
      by (subst rb_erase_color_step) (simp add: Let_def del: del_black.simps)
  next
    case False
    then have rs: "rcol s = RB_BLACK" by simp
    have step: "rb_erase_color (root_ptr t) p (h, root) = rb_erase_black d p x (h, root)"
      using False red side sib by (subst rb_erase_color_step) (simp add: Let_def)
    note D = erase_black_refines [OF "2.prems"(1) x rs s(1)]
    note C = del_black_correct [where d = d and p = p and c = c, OF "2.prems"(3-5) s(1,2) rs s(3)]
    show ?thesis
    proof (cases "del_black t d p c s")
      case (Inr t')
      then show ?thesis using D step False by (simp del: del_black.simps)
    next
      case (Inl t')
      with D obtain h1 where h1: "rb_erase_black d p x (h, root) =
          (case par_of fs of Some g \<Rightarrow> rb_erase_color (Some p) g (h1, root) | None \<Rightarrow> Some (h1, root))"
        "rep (h1, root) t' fs" "root_ptr t' = Some p" "same_off ?A h h1" by (auto simp del: del_black.simps)
      show ?thesis
      proof (cases fs)
        case Nil
        then show ?thesis using step h1 Inl False by (auto simp: rep_plug [symmetric] simp del: del_black.simps)
      next
        case (Cons f gs)
        obtain e g cg u where f: "f = Fr e g cg u" by (cases f)
        have "\<exists>st'. rb_erase_color (root_ptr t') (the (par_of fs)) (h1, root) = Some st' \<and>
            rb_rep st' (del_fix t' fs) \<and> same_off (set (addrs t') \<union> set (caddrs fs)) h1 (fst st')"
          using "2.prems" C Inl False h1(2) Cons by (intro "2.IH") (auto simp del: del_black.simps)
        then obtain st' where st': "rb_erase_color (Some p) g (h1, root) = Some st'"
            "rb_rep st' (del_fix t' fs)" "same_off (set (addrs t') \<union> set (caddrs fs)) h1 (fst st')"
          using h1(3) Cons f by auto
        have "set (addrs t') = set (addrs (mk d t (p, c) s))" using C Inl by (auto simp del: del_black.simps)
        then have "same_off ?A h1 (fst st')" using st'(3) by (auto elim!: same_off_mono)
        then have "same_off ?A h (fst st')" using h1(4) same_off_trans by blast
        then show ?thesis using step h1(1) st'(1,2) Inl False Cons f by (simp del: del_black.simps)
      qed
    qed
  qed
qed

end
