(* ===== verification/MapLowDelete.thy ===== *)
theory MapLowDelete
  imports MapLowErase
begin

text \<open>
  \<open>eaf_map_low_erase\<close> as a whole: unlinking a node with at most one child, or exchanging it with the
  leftmost node of its right subtree, followed by the repair loop.
\<close>

subsection \<open>The successor\<close>

definition left_spine :: "frame list \<Rightarrow> bool" where
  "left_spine ms \<longleftrightarrow> (\<forall>f \<in> set ms. \<exists>a c u. f = Fr Lft a c u)"

lemma left_spine_simps [simp]:
  "left_spine []"
  "left_spine (Fr d a c u # ms) \<longleftrightarrow> d = Lft \<and> left_spine ms"
  "left_spine (ms @ ns) \<longleftrightarrow> left_spine ms \<and> left_spine ns"
  by (auto simp: left_spine_def)

lemma left_spine_before: "left_spine ms \<Longrightarrow> before ms = []"
  by (induction ms rule: before.induct) auto

text \<open>The loop follows the left spine and returns its last two nodes.\<close>

lemma rb_succ_loop_spine:
  "tree_at h q t \<Longrightarrow> root_ptr t = Some m \<Longrightarrow>
   \<exists>s cs c2 ms. t = plug (Node Leaf (s, cs) c2) ms \<and> left_spine ms \<and>
     rb_succ_loop h p m = Some (case par_of ms of None \<Rightarrow> p | Some p' \<Rightarrow> p', s)"
proof (induction t arbitrary: q p m)
  case (Node l x r)
  obtain a c where x: "x = (a, c)" by (cases x)
  then have m: "m = a" using Node.prems(2) by simp
  show ?case
  proof (cases l)
    case Leaf
    have "Node l x r = plug (Node Leaf (a, c) r) []" using Leaf x by simp
    moreover have "rb_succ_loop h p m = Some (p, a)"
      using Node.prems(1) x m Leaf by (subst rb_succ_loop.simps) simp
    ultimately show ?thesis by (metis left_spine_simps(1) option.simps(4) par_of.simps(1))
  next
    case (Node l1 y l2)
    then obtain b where b: "root_ptr l = Some b" by (cases y) auto
    have tl: "tree_at h (Some a) l" using Node.prems(1) x by simp
    obtain s cs c2 ms where i: "l = plug (Node Leaf (s, cs) c2) ms" "left_spine ms"
      "rb_succ_loop h a b = Some (case par_of ms of None \<Rightarrow> a | Some p' \<Rightarrow> p', s)"
      using Node.IH(1) [OF tl b, of a] by blast
    have "Node l x r = plug (Node Leaf (s, cs) c2) (ms @ [Fr Lft a c r])"
      using i(1) x by (simp add: plug_append)
    moreover have "rb_succ_loop h p m = Some (case par_of (ms @ [Fr Lft a c r]) of None \<Rightarrow> p | Some p' \<Rightarrow> p', s)"
      using Node.prems(1) x m b i(3) by (subst rb_succ_loop.simps) (cases "ms" rule: par_of.cases; simp)
    moreover have "left_spine (ms @ [Fr Lft a c r])" using i(2) by simp
    ultimately show ?thesis by blast
  qed
qed simp

lemma tree_at_reparent:
  "tree_at h q t \<Longrightarrow> distinct (addrs t) \<Longrightarrow> root_ptr t = Some a \<Longrightarrow> tree_at (rb_set_parent h a q') q' t"
  by (cases t) (auto simp: rb_set_parent_def)

lemma root_ptr_plug: "fs \<noteq> [] \<Longrightarrow> \<exists>a \<in> set (caddrs fs). \<forall>t. root_ptr (plug t fs) = Some a"
proof (induction fs)
  case (Cons f fs)
  obtain d a c s where f: "f = Fr d a c s" by (cases f)
  show ?case
  proof (cases "fs = []")
    case False
    then obtain b where "b \<in> set (caddrs fs)" "\<forall>t. root_ptr (plug t fs) = Some b" using Cons by blast
    then show ?thesis using f by auto
  qed (use f in simp)
qed simp

text \<open>Taking the leftmost node \<open>s\<close> out of a subtree rooted at \<open>c\<close> and hanging the rest below \<open>q'\<close>.\<close>

lemma take_leftmost:
  assumes "tree_at h q r" "distinct (addrs r)" "root_ptr r = Some c"
    and r: "r = plug (Node Leaf (s, cs) c2) (Fr Lft p cp u # ms)"
  shows "tree_at (set_pc_if (rb_set_parent (set_child Lft h p (root_ptr c2)) c q') (root_ptr c2) (Some p) RB_BLACK) q'
      (plug (paint RB_BLACK c2) (Fr Lft p cp u # ms)) \<and>
    root_ptr (plug (paint RB_BLACK c2) (Fr Lft p cp u # ms)) = Some c"
proof -
  let ?ms = "Fr Lft p cp u # ms"
  let ?h0 = "rb_set_parent h c None"
  have "rb_rep (?h0, Some c) r"
    using tree_at_reparent [OF assms(1-3), of None] assms(2,3) by (simp add: rb_rep_def)
  then have rp: "rep (?h0, Some c) (Node Leaf (s, cs) c2) ?ms" by (simp only: rep_plug r)
  let ?h1 = "set_child Lft ?h0 p (root_ptr c2)"
  let ?k = "set_pc_if ?h1 (root_ptr c2) (Some p) RB_BLACK"
  note r' = rp [unfolded rep_def, simplified]
  have "tree_at ?h1 (Some s) c2" using r' by (auto simp: set_child_def)
  then have c2: "tree_at ?k (Some p) (paint RB_BLACK c2)" using r' by (intro tree_at_paint) auto
  have "ctx_at (?h1, Some c) (root_ptr c2) ?ms" using r' by (auto simp: set_child_def)
  then have "ctx_at (?k, Some c) (root_ptr c2) ?ms" using r' by (subst ctx_at_set_pc_if) auto
  then have "rep (?k, Some c) (paint RB_BLACK c2) ?ms" using r' c2 by (auto simp: rep_def)
  then have k: "rb_rep (?k, Some c) (plug (paint RB_BLACK c2) ?ms)" by (simp only: rep_plug)
  have "c \<in> set (caddrs ?ms)" using root_ptr_plug [of ?ms] assms(3) r by fastforce
  then have "c \<notin> set (addrs c2)" using r' by auto
  then have "rb_set_parent ?k c q' = set_pc_if (rb_set_parent (set_child Lft h p (root_ptr c2)) c q') (root_ptr c2) (Some p) RB_BLACK"
    by (cases "root_ptr c2") (auto simp: fun_eq_iff rb_set_parent_def set_pc_if_def rb_set_parent_color_def set_child_def dest: root_ptr_SomeD)
  moreover have "tree_at (rb_set_parent ?k c q') q' (plug (paint RB_BLACK c2) ?ms)"
    using k by (intro tree_at_reparent) (auto simp: rb_rep_def)
  moreover have "root_ptr (plug (paint RB_BLACK c2) ?ms) = Some c" using k by (simp add: rb_rep_def)
  ultimately show ?thesis by simp
qed

text \<open>The subterm of \<open>rb_erase_augmented\<close> that finds the successor and closes the gap it leaves.\<close>

definition rb_take_successor :: "rb_heap \<Rightarrow> addr \<Rightarrow> (addr \<times> addr \<times> ptr \<times> rb_heap) option" where
  "rb_take_successor h c =
     (case rb_left (h c) of
        None \<Rightarrow> Some (c, c, rb_right (h c), h)
      | Some t' \<Rightarrow> do {
          (parent, successor) \<leftarrow> rb_succ_loop h c t';
          let child2 = rb_right (h successor);
          let h1 = set_child Lft h parent child2;
          let h2 = set_child Rgt h1 successor (Some c);
          Some (parent, successor, child2, rb_set_parent h2 c (Some successor)) })"

lemma take_successor:
  assumes "tree_at h q r" "root_ptr r = Some c" "distinct (addrs r)"
  shows "\<exists>s cs c2 ms H. r = plug (Node Leaf (s, cs) c2) ms \<and> left_spine ms \<and>
    rb_take_successor h c = Some (case par_of ms of None \<Rightarrow> s | Some p \<Rightarrow> p, s, root_ptr c2, H) \<and>
    same_off (set (addrs r)) h H \<and> rb_color (H s) = cs \<and>
    rb_right (H s) = root_ptr (plug (paint RB_BLACK c2) ms) \<and>
    tree_at (set_pc_if H (root_ptr c2) (Some (case par_of ms of None \<Rightarrow> s | Some p \<Rightarrow> p)) RB_BLACK) (Some s)
      (plug (paint RB_BLACK c2) ms)"
proof (cases r)
  case (Node l x c2)
  obtain cc where x: "x = (c, cc)" using assms(2) Node by (cases x) auto
  note t = assms(1) [unfolded Node x, simplified]
  show ?thesis
  proof (cases l)
    case Leaf
    have "rb_take_successor h c = Some (c, c, root_ptr c2, h)"
      using t Leaf by (simp add: rb_take_successor_def)
    moreover have "tree_at (set_pc_if h (root_ptr c2) (Some c) RB_BLACK) (Some c) (paint RB_BLACK c2)"
      using t assms(3) Node x by (intro tree_at_paint) auto
    moreover have "r = plug (Node Leaf (c, cc) c2) []" using Node x Leaf by simp
    ultimately show ?thesis using t
      by (intro exI [of _ c] exI [of _ cc] exI [of _ c2] exI [of _ "[]"] exI [of _ h]) simp
  next
    case (Node l1 y l2)
    then obtain b where b: "root_ptr l = Some b" by (cases y) auto
    obtain s cs d2 ms0 where i: "l = plug (Node Leaf (s, cs) d2) ms0" "left_spine ms0"
      "rb_succ_loop h c b = Some (case par_of ms0 of None \<Rightarrow> c | Some p' \<Rightarrow> p', s)"
      using rb_succ_loop_spine [of h "Some c" l b c] t b by auto
    define ms where "ms = ms0 @ [Fr Lft c cc c2]"
    have r: "r = plug (Node Leaf (s, cs) d2) ms"
      using \<open>r = Node l x c2\<close> x i(1) by (simp add: ms_def plug_append)
    obtain p cp u ms' where ms: "ms = Fr Lft p cp u # ms'"
      using i(2) by (cases ms0; auto simp: ms_def left_spine_def)
    have p: "(case par_of ms0 of None \<Rightarrow> c | Some p' \<Rightarrow> p') = p"
      using ms by (cases ms0 rule: par_of.cases) (auto simp: ms_def)
    let ?h1 = "set_child Lft h p (root_ptr d2)"
    let ?H = "rb_set_parent (set_child Rgt ?h1 s (Some c)) c (Some s)"
    let ?K = "set_pc_if (rb_set_parent ?h1 c (Some s)) (root_ptr d2) (Some p) RB_BLACK"
    let ?r' = "plug (paint RB_BLACK d2) ms"
    have rs: "rep (h(c := (h c)\<lparr>rb_parent := None\<rparr>), Some c) (Node Leaf (s, cs) d2) ms"
      using tree_at_reparent [OF assms(1,3,2), of None] assms(2,3)
      by (simp add: rep_plug [symmetric] rb_rep_def r [symmetric] rb_set_parent_def)
    have K: "tree_at ?K (Some s) ?r'" "root_ptr ?r' = Some c"
      using take_leftmost [OF assms(1,3,2) r [unfolded ms], of "Some s"] by (simp_all add: ms)
    have dis: "s \<notin> set (addrs d2)" "s \<notin> set (caddrs ms)" "p \<in> set (caddrs ms)" "p \<notin> set (addrs d2)"
      using rs by (auto simp: rep_def ms)
    then have sr: "s \<notin> set (addrs ?r')" by (simp add: addrs_plug set_caddrs)
    have cr: "c \<in> set (addrs ?r')" using K(2) root_ptr_SomeD by blast
    then have sc: "s \<noteq> c" using sr by auto
    have sp: "s \<noteq> p" using dis by auto
    have hs: "h s = \<lparr>rb_parent = Some p, rb_color = cs, rb_right = root_ptr d2, rb_left = None\<rparr>"
      using rs sc by (auto simp: rep_def ms)
    have take: "rb_take_successor h c = Some (p, s, root_ptr d2, ?H)"
      using t b i(3) p hs by (simp add: rb_take_successor_def Let_def)
    have eqH: "set_pc_if ?H (root_ptr d2) (Some p) RB_BLACK a = ?K a" if "a \<noteq> s" for a
      using that by (cases "root_ptr d2") (auto simp: set_pc_if_def rb_set_parent_color_def rb_set_parent_def set_child_def)
    have eqH': "set_pc_if ?H (root_ptr d2) (Some p) RB_BLACK a = ?K a" if "a \<in> set (addrs ?r')" for a
    proof (rule eqH)
      show "a \<noteq> s" using that sr by auto
    qed
    have "tree_at (set_pc_if ?H (root_ptr d2) (Some p) RB_BLACK) (Some s) ?r'"
      using K(1) eqH' by (subst tree_at_frame [where h = ?K]) simp_all
    moreover have "same_off (set (addrs r)) h ?H"
      using dis cr by (auto simp: r addrs_plug set_caddrs same_off_def rb_set_parent_def set_child_def)
    moreover have "rb_color (?H s) = cs" "rb_right (?H s) = root_ptr ?r'"
      using hs sc sp K(2) by (auto simp: rb_set_parent_def set_child_def)
    moreover have "left_spine ms" using i(2) by (simp add: ms_def)
    moreover have "(case par_of ms of None \<Rightarrow> s | Some p \<Rightarrow> p) = p" by (simp add: ms)
    ultimately show ?thesis using take r by blast
  qed
qed (use assms in simp)

subsection \<open>Unlinking\<close>

lemma set_pc_if_cong: "h a = h' a \<Longrightarrow> set_pc_if h p q c a = set_pc_if h' p q c a"
  by (cases p) (auto simp: set_pc_if_def rb_set_parent_color_def)

lemma rb_erase_augmented_unfold:
  "rb_erase_augmented node (h, root) =
     (case (rb_left (h node), rb_right (h node)) of
        (Some t, Some c) \<Rightarrow> do {
          (parent, successor, child2, h1) \<leftarrow> rb_take_successor h c;
          tmp \<leftarrow> rb_left (h1 node);
          let h2 = set_child Lft h1 successor (Some tmp);
          let h3 = rb_set_parent h2 tmp (Some successor);
          let pc = h3 node;
          let (h4, root4) = rb_change_child node (Some successor) (rb_parent pc) (h3, root);
          let pc2 = h4 successor;
          let h5 = rb_set_parent_color h4 successor (rb_parent pc) (rb_color pc);
          case child2 of
            Some c2 \<Rightarrow> Some (None, rb_set_parent_color h5 c2 (Some parent) RB_BLACK, root4)
          | None \<Rightarrow> Some (if rb_color pc2 = RB_BLACK then Some parent else None, h5, root4) }
      | (Some t, None) \<Rightarrow>
          Some (None, rb_change_child node (Some t) (rb_parent (h node))
            (rb_set_parent_color h t (rb_parent (h node)) (rb_color (h node)), root))
      | (None, ch) \<Rightarrow>
          (let (h1, root1) = rb_change_child node ch (rb_parent (h node)) (h, root) in
           case ch of
             Some c \<Rightarrow> Some (None, rb_set_parent_color h1 c (rb_parent (h node)) (rb_color (h node)), root1)
           | None \<Rightarrow> Some (if rb_color (h node) = RB_BLACK then rb_parent (h node) else None, h1, root1)))"
  unfolding rb_erase_augmented_def rb_take_successor_def Let_def prod.case
  by (cases "rb_left (h node)"; cases "rb_right (h node)") (simp_all split: prod.split)

text \<open>No left child: the right subtree moves up.\<close>

lemma erase_no_left:
  assumes "rep (h, root) (Node Leaf (n, c) r) fs"
  shows "\<exists>h' root'. rb_erase_augmented n (h, root) =
      Some (if r = Leaf \<and> c = RB_BLACK then par_of fs else None, h', root') \<and>
    rep (h', root') (paint c r) fs \<and> same_off (set (addrs r) \<union> set (caddrs fs)) h h'"
proof -
  note r = assms [unfolded rep_def, simplified]
  obtain h1 root1 where c: "rb_change_child n (root_ptr r) (par_of fs) (h, root) = (h1, root1)"
    "ctx_at (h1, root1) (root_ptr r) fs" "same_off (set (caddrs fs)) h h1"
    using r change_child_ctx [of h root n fs "root_ptr r"] by blast
  let ?h' = "set_pc_if h1 (root_ptr r) (par_of fs) c"
  have "tree_at h1 (Some n) r" using r c(3) by (auto elim!: tree_at_same_off)
  then have "tree_at ?h' (par_of fs) (paint c r)" using r by (intro tree_at_paint) auto
  moreover have "ctx_at (?h', root1) (root_ptr r) fs" using r c(2) by auto
  ultimately have "rep (?h', root1) (paint c r) fs" using r by (auto simp: rep_def)
  moreover have "same_off (set (addrs r) \<union> set (caddrs fs)) h ?h'"
    using c(3) by (auto simp: same_off_def)
  moreover have "rb_erase_augmented n (h, root) =
      Some (if r = Leaf \<and> c = RB_BLACK then par_of fs else None, ?h', root1)"
    using r c(1) by (cases "root_ptr r") (auto simp: rb_erase_augmented_unfold Let_def set_pc_if_def)
  ultimately show ?thesis by blast
qed

text \<open>No right child: the left subtree moves up.\<close>

lemma erase_no_right:
  assumes "rep (h, root) (Node l (n, c) Leaf) fs" "l \<noteq> Leaf"
  shows "\<exists>h' root'. rb_erase_augmented n (h, root) = Some (None, h', root') \<and>
    rep (h', root') (paint c l) fs \<and> same_off (set (addrs l) \<union> set (caddrs fs)) h h'"
proof -
  note r = assms(1) [unfolded rep_def, simplified]
  obtain t where t: "root_ptr l = Some t" using assms(2) by (cases "root_ptr l") auto
  let ?h1 = "set_pc_if h (root_ptr l) (par_of fs) c"
  have l: "tree_at ?h1 (par_of fs) (paint c l)" using r by (intro tree_at_paint) auto
  have "ctx_at (?h1, root) (Some n) fs" using r by auto
  then obtain h' root' where c: "rb_change_child n (root_ptr l) (par_of fs) (?h1, root) = (h', root')"
    "ctx_at (h', root') (root_ptr l) fs" "same_off (set (caddrs fs)) ?h1 h'"
    using r change_child_ctx [of ?h1 root n fs "root_ptr l"] by blast
  have "tree_at h' (par_of fs) (paint c l)" using l r c(3) by (auto elim!: tree_at_same_off)
  then have "rep (h', root') (paint c l) fs" using c(2) r by (auto simp: rep_def)
  moreover have "same_off (set (addrs l) \<union> set (caddrs fs)) h h'"
    using c(3) by (auto simp: same_off_def)
  moreover have "rb_erase_augmented n (h, root) = Some (None, h', root')"
    using r c(1) t by (simp add: rb_erase_augmented_unfold set_pc_if_def)
  ultimately show ?thesis by blast
qed

text \<open>Two children: the successor \<open>s\<close> takes the place and colour of \<open>n\<close>.\<close>

lemma erase_two:
  assumes "rep (h, root) (Node l (n, c) r) fs" "l \<noteq> Leaf" "r \<noteq> Leaf"
  shows "\<exists>s cs c2 ms h' root'. r = plug (Node Leaf (s, cs) c2) ms \<and> left_spine ms \<and>
    rb_erase_augmented n (h, root) = Some (if c2 = Leaf \<and> cs = RB_BLACK then par_of (ms @ Fr Rgt s c l # fs) else None, h', root') \<and>
    rep (h', root') (paint RB_BLACK c2) (ms @ Fr Rgt s c l # fs) \<and>
    same_off (set (addrs l) \<union> set (addrs r) \<union> set (caddrs fs)) h h'"
proof -
  note R = assms(1) [unfolded rep_def, simplified]
  obtain lr where lr: "root_ptr l = Some lr" using assms(2) by (cases "root_ptr l") auto
  obtain rr where rr: "root_ptr r = Some rr" using assms(3) by (cases "root_ptr r") auto
  obtain s cs c2 ms H where S: "r = plug (Node Leaf (s, cs) c2) ms" "left_spine ms"
    "rb_take_successor h rr = Some (case par_of ms of None \<Rightarrow> s | Some p \<Rightarrow> p, s, root_ptr c2, H)"
    "same_off (set (addrs r)) h H" "rb_color (H s) = cs" "rb_right (H s) = root_ptr (plug (paint RB_BLACK c2) ms)"
    "tree_at (set_pc_if H (root_ptr c2) (Some (case par_of ms of None \<Rightarrow> s | Some p \<Rightarrow> p)) RB_BLACK) (Some s)
      (plug (paint RB_BLACK c2) ms)"
    using take_successor [of h "Some n" r rr] R rr by blast
  define p where "p = (case par_of ms of None \<Rightarrow> s | Some p \<Rightarrow> p)"
  let ?r' = "plug (paint RB_BLACK c2) ms"
  have par: "par_of (ms @ Fr Rgt s c l # fs) = Some p" by (cases ms rule: par_of.cases) (simp_all add: p_def)
  have sets: "set (addrs r) = insert s (set (addrs ?r'))" "set (addrs c2) \<subseteq> set (addrs ?r')"
    by (auto simp: S(1) addrs_plug)
  have dr: "distinct (addrs ?r')" "s \<notin> set (addrs ?r')"
  proof -
    have "distinct (addrs (plug (Node Leaf (s, cs) c2) ms))" using R S(1) by simp
    then show "distinct (addrs ?r')" "s \<notin> set (addrs ?r')"
      unfolding distinct_plug by (auto simp: addrs_plug set_caddrs distinct_caddrs)
  qed
  have ns: "n \<noteq> s" "s \<notin> set (addrs l)" "s \<notin> set (caddrs fs)" "lr \<noteq> n" "lr \<noteq> s" "n \<notin> set (addrs ?r')"
    "set (addrs l) \<inter> set (addrs ?r') = {}" "set (addrs ?r') \<inter> set (caddrs fs) = {}"
    using R sets root_ptr_SomeD [OF lr] by auto
  let ?h2 = "set_child Lft H s (Some lr)"
  let ?h3 = "rb_set_parent ?h2 lr (Some s)"
  have Hn: "H n = h n" using S(4) R by (auto simp: same_off_def)
  have Hl: "rb_left (H n) = Some lr" using Hn R lr by simp
  have h3n: "?h3 n = h n" using ns Hn by (simp add: set_child_def rb_set_parent_def)
  have offH: "H a = h a" if "a \<notin> set (addrs r)" for a using S(4) that by (simp add: same_off_def)
  have "ctx_at (?h3, root) (Some n) fs"
    using R root_ptr_SomeD [OF lr] sets
    by (subst ctx_at_frame [where h = h]) (auto simp: set_child_def rb_set_parent_def intro!: offH)
  then obtain h4 root4 where c: "rb_change_child n (Some s) (par_of fs) (?h3, root) = (h4, root4)"
    "ctx_at (h4, root4) (Some s) fs" "same_off (set (caddrs fs)) ?h3 h4"
    using R change_child_ctx [of ?h3 root n fs "Some s"] by blast
  let ?h5 = "rb_set_parent_color h4 s (par_of fs) c"
  let ?h6 = "set_pc_if ?h5 (root_ptr c2) (Some p) RB_BLACK"
  have h4: "h4 a = ?h3 a" if "a \<notin> set (caddrs fs)" for a using c(3) that by (simp add: same_off_def)
  have sc2: "s \<notin> set (addrs c2)" using dr sets by auto
  have h6s: "?h6 s = (upd_child Lft (Some lr) (H s))\<lparr>rb_parent := par_of fs, rb_color := c\<rparr>"
    using ns sc2 h4 [of s] by (simp add: rb_set_parent_color_def set_child_def rb_set_parent_def)
  have h6r: "?h6 a = set_pc_if H (root_ptr c2) (Some p) RB_BLACK a" if "a \<in> set (addrs ?r')" for a
  proof -
    have a: "a \<noteq> s" "a \<noteq> lr" "a \<notin> set (caddrs fs)" using that dr ns root_ptr_SomeD [OF lr] by auto
    then have "?h5 a = H a" using h4 [of a] by (simp add: rb_set_parent_color_def set_child_def rb_set_parent_def)
    then show ?thesis by (rule set_pc_if_cong)
  qed
  have r': "tree_at ?h6 (Some s) ?r'"
    using S(7) h6r by (subst tree_at_frame [where h = "set_pc_if H (root_ptr c2) (Some p) RB_BLACK"]) (simp_all add: p_def)
  have "tree_at ?h2 (Some n) l"
    using R sets ns by (subst tree_at_frame [where h = h]) (auto simp: set_child_def intro!: offH)
  then have "tree_at ?h3 (Some s) l" using R lr by (intro tree_at_reparent) auto
  then have "tree_at h4 (Some s) l" using R c(3) by (auto elim!: tree_at_same_off)
  then have l': "tree_at ?h6 (Some s) l"
    using ns sets by (subst tree_at_set_pc_if) (auto simp: rb_set_parent_color_def)
  have "ctx_at (?h5, root4) (Some s) fs" using c(2) ns by (simp add: rb_set_parent_color_def)
  then have ctx: "ctx_at (?h6, root4) (Some s) fs" using ns sets by (subst ctx_at_set_pc_if) auto
  have "rep (?h6, root4) (Node l (s, c) ?r') fs"
    using R l' r' ctx h6s lr dr ns S(6) by (auto simp: rep_def)
  then have "rb_rep (?h6, root4) (plug (paint RB_BLACK c2) (ms @ Fr Rgt s c l # fs))"
    by (simp add: plug_append rep_plug)
  then have rep: "rep (?h6, root4) (paint RB_BLACK c2) (ms @ Fr Rgt s c l # fs)" by (simp only: rep_plug)
  have off: "same_off (set (addrs l) \<union> set (addrs r) \<union> set (caddrs fs)) h ?h6"
    unfolding same_off_def
  proof (intro allI impI)
    fix a assume a: "a \<notin> set (addrs l) \<union> set (addrs r) \<union> set (caddrs fs)"
    then have "a \<notin> set (addrs c2)" "a \<noteq> s" "a \<noteq> lr" using sets root_ptr_SomeD [OF lr] by auto
    then show "?h6 a = h a"
      using a h4 [of a] offH [of a] by (simp add: rb_set_parent_color_def set_child_def rb_set_parent_def)
  qed
  have cs: "rb_color (h4 s) = cs" using h4 [of s] ns S(5) by (simp add: set_child_def rb_set_parent_def)
  have "rb_erase_augmented n (h, root) =
      Some (if c2 = Leaf \<and> cs = RB_BLACK then Some p else None, ?h6, root4)"
    using R lr rr S(3) Hl h3n c(1) cs
    by (cases "root_ptr c2") (auto simp: rb_erase_augmented_unfold p_def [symmetric] Let_def set_pc_if_def)
  then show ?thesis using S(1,2) rep off par by metis
qed

subsection \<open>Erasing\<close>

lemma ctx_readdress:
  "ctx_c k (ms @ Fr d a c l # fs) \<longleftrightarrow> ctx_c k (ms @ Fr d b c l # fs)"
  "ctx_h m (ms @ Fr d a c l # fs) \<longleftrightarrow> ctx_h m (ms @ Fr d b c l # fs)"
proof -
  show "ctx_c k (ms @ Fr d a c l # fs) \<longleftrightarrow> ctx_c k (ms @ Fr d b c l # fs)"
    by (induction k ms rule: ctx_c.induct) auto
  show "ctx_h m (ms @ Fr d a c l # fs) \<longleftrightarrow> ctx_h m (ms @ Fr d b c l # fs)"
    by (induction m ms rule: ctx_h.induct) auto
qed

text \<open>A subtree of black height 0 is empty or a single red node.\<close>

lemma bh_0: "bh t = 0 \<Longrightarrow> invh t \<Longrightarrow> invc t \<Longrightarrow> t = Leaf \<or> (rcol t = RB_RED \<and> size t = 1)"
proof (cases t)
  case (Node l x r)
  moreover assume "bh t = 0" "invh t" "invc t"
  moreover obtain a c where "x = (a, c)" by (cases x)
  moreover have "u = Leaf" if "bh u = 0" "rcol u = RB_BLACK" for u
    using that by (cases u) (auto split: if_splits)
  ultimately show ?thesis by (cases c) auto
qed simp

text \<open>After unlinking, either the tree is already balanced or a black node is missing at a leaf.\<close>

lemma erase_finish:
  assumes "rep st1 X gs" "ctx_c c gs" "invc X" "invh X"
    and "X \<noteq> Leaf \<longrightarrow> rcol X = c \<and> ctx_h (bh X) gs"
    and "X = Leaf \<longrightarrow> ctx_h (if c = RB_BLACK then 1 else 0) gs"
  shows "\<exists>st' t'. (case (if X = Leaf \<and> c = RB_BLACK then par_of gs else None) of
        Some p \<Rightarrow> rb_erase_color None p st1 | None \<Rightarrow> Some st1) = Some st' \<and>
      rb_rep st' t' \<and> rbt t' \<and> addrs t' = addrs (plug X gs) \<and>
      same_off (set (addrs X) \<union> set (caddrs gs)) (fst st1) (fst st')"
proof (cases "X = Leaf \<and> c = RB_BLACK \<and> gs \<noteq> []")
  case True
  obtain h root where st: "st1 = (h, root)" by (cases st1)
  obtain d p e s fs where gs: "gs = Fr d p e s # fs" using True by (metis frame.exhaust list.exhaust)
  have "\<exists>st'. rb_erase_color (root_ptr X) (the (par_of gs)) (h, root) = Some st' \<and> rb_rep st' (del_fix X gs) \<and>
      same_off (set (addrs X) \<union> set (caddrs gs)) h (fst st')"
    using assms True st by (intro rb_erase_color_refines) auto
  moreover have "rbt (del_fix X gs) \<and> addrs (del_fix X gs) = addrs (plug X gs)"
    using assms True by (intro del_fix_correct) auto
  ultimately show ?thesis using True gs st by auto
next
  case False
  then have "(case (if X = Leaf \<and> c = RB_BLACK then par_of gs else None) of
      Some p \<Rightarrow> rb_erase_color None p st1 | None \<Rightarrow> Some st1) = Some st1" by auto
  moreover have "rbt (plug X gs)"
  proof (cases "X = Leaf")
    case True
    then have "ctx_h 0 gs" using False assms(6) by (cases c) auto
    then show ?thesis using True assms(2) ctx_c_black by (auto simp: rbt_plug)
  qed (use assms in \<open>auto simp: rbt_plug\<close>)
  moreover have "rb_rep st1 (plug X gs)" using assms(1) by (simp add: rep_plug)
  ultimately show ?thesis by fastforce
qed

lemma low_erase:
  assumes "rb_rep st (plug (Node l (n, c) r) fs)" "rbt (plug (Node l (n, c) r) fs)"
  shows "\<exists>st' t'. eaf_map_low_erase n st = Some st' \<and> rb_rep st' t' \<and> rbt t' \<and>
    addrs t' = before fs @ addrs l @ addrs r @ after fs \<and>
    same_off (set (addrs (plug (Node l (n, c) r) fs))) (fst st) (fst st')"
proof -
  obtain h root where st: "st = (h, root)" by (cases st)
  have R: "rep (h, root) (Node l (n, c) r) fs" using assms(1) st by (simp add: rep_plug)
  have I: "invc (Node l (n, c) r)" "invh (Node l (n, c) r)" "ctx_c c fs" "ctx_h (bh (Node l (n, c) r)) fs"
    using assms(2) unfolding rbt_plug rcol.simps by blast+
  let ?A = "set (addrs (plug (Node l (n, c) r) fs))"
  have A: "?A = insert n (set (addrs l) \<union> set (addrs r) \<union> set (caddrs fs))"
    by (auto simp: addrs_plug set_caddrs)
  show ?thesis
  proof (cases "l = Leaf \<or> r = Leaf")
    case True
    define X where "X = (if l = Leaf then paint c r else paint c l)"
    have X: "invc X" "invh X" "X \<noteq> Leaf \<longrightarrow> rcol X = c \<and> ctx_h (bh X) fs"
      "X = Leaf \<longrightarrow> ctx_h (if c = RB_BLACK then 1 else 0) fs"
      "X = Leaf \<longleftrightarrow> l = Leaf \<and> r = Leaf" "addrs X = addrs l @ addrs r"
    proof -
      define u where "u = (if l = Leaf then r else l)"
      have u0: "bh u = 0" "invh u" "invc u" "c = RB_RED \<longrightarrow> rcol u = RB_BLACK"
        using I True unfolding u_def by (cases "l = Leaf"; simp)+
      then have u: "u = Leaf \<or> (rcol u = RB_RED \<and> size u = 1)" by (intro bh_0) auto
      then have c: "u \<noteq> Leaf \<longrightarrow> c = RB_BLACK" using u0 by (cases c) auto
      have Xu: "X = paint c u" by (simp add: X_def u_def)
      have s1: "u = Leaf \<or> (\<exists>a k. u = Node Leaf (a, k) Leaf)" using u by (cases u) auto
      have lr: "l = Leaf \<and> r = u \<or> l = u \<and> r = Leaf" using True by (auto simp: u_def)
      have h: "ctx_h (if c = RB_BLACK then 1 else 0) fs" using I(2,4) u0(1) lr by (auto split: if_splits)
      show "X = Leaf \<longrightarrow> ctx_h (if c = RB_BLACK then 1 else 0) fs" using h by simp
      show "invc X" "invh X" "X \<noteq> Leaf \<longrightarrow> rcol X = c \<and> ctx_h (bh X) fs"
        using s1 c Xu h by auto
      show "X = Leaf \<longleftrightarrow> l = Leaf \<and> r = Leaf" using s1 Xu lr by auto
      show "addrs X = addrs l @ addrs r" using Xu lr by auto
    qed
    obtain h' root' where e: "rb_erase_augmented n (h, root) =
        Some (if X = Leaf \<and> c = RB_BLACK then par_of fs else None, h', root')"
      "rep (h', root') X fs" "same_off (set (addrs l) \<union> set (addrs r) \<union> set (caddrs fs)) h h'"
    proof (cases "l = Leaf")
      case True
      then show thesis using erase_no_left [of h root n c r fs] R that X(5) by (auto simp: X_def)
    next
      case False
      then show thesis using erase_no_right [of h root l n c fs] R that X(5) \<open>l = Leaf \<or> r = Leaf\<close>
        by (auto simp: X_def)
    qed
    obtain st' t' where f: "(case (if X = Leaf \<and> c = RB_BLACK then par_of fs else None) of
        Some p \<Rightarrow> rb_erase_color None p (h', root') | None \<Rightarrow> Some (h', root')) = Some st'"
      "rb_rep st' t'" "rbt t'" "addrs t' = addrs (plug X fs)"
      "same_off (set (addrs X) \<union> set (caddrs fs)) h' (fst st')"
      using erase_finish [OF e(2) I(3) X(1-4)] by auto
    have "same_off ?A h (fst st')"
      using e(3) f(5) unfolding A X(6) same_off_def by auto
    moreover have "eaf_map_low_erase n st = Some st'"
      using e(1) f(1) st by (auto simp: eaf_map_low_erase_def)
    ultimately show ?thesis using f(2-4) st X(6) by (auto simp: addrs_plug)
  next
    case False
    obtain s cs c2 ms h' root' where e: "r = plug (Node Leaf (s, cs) c2) ms" "left_spine ms"
      "rb_erase_augmented n (h, root) = Some (if c2 = Leaf \<and> cs = RB_BLACK then par_of (ms @ Fr Rgt s c l # fs) else None, h', root')"
      "rep (h', root') (paint RB_BLACK c2) (ms @ Fr Rgt s c l # fs)"
      "same_off (set (addrs l) \<union> set (addrs r) \<union> set (caddrs fs)) h h'"
      using erase_two [OF R] False by blast
    let ?X = "paint RB_BLACK c2" and ?gs = "ms @ Fr Rgt s c l # fs"
    have "rbt (plug (Node Leaf (s, cs) c2) (ms @ Fr Rgt n c l # fs))"
      using assms(2) e(1) by (simp add: plug_append)
    then have I2: "invc (Node Leaf (s, cs) c2)" "invh (Node Leaf (s, cs) c2)" "ctx_c cs ?gs"
      "ctx_h (bh (Node Leaf (s, cs) c2)) ?gs"
      unfolding rbt_plug rcol.simps ctx_readdress [of _ ms Rgt n c l fs s] by blast+
    have u: "c2 = Leaf \<or> (rcol c2 = RB_RED \<and> size c2 = 1)" using I2 by (intro bh_0) auto
    have X: "invc ?X" "invh ?X" "?X \<noteq> Leaf \<longrightarrow> rcol ?X = cs \<and> ctx_h (bh ?X) ?gs"
      "?X = Leaf \<longrightarrow> ctx_h (if cs = RB_BLACK then 1 else 0) ?gs" "?X = Leaf \<longleftrightarrow> c2 = Leaf"
    proof -
      obtain a k where "c2 = Leaf \<or> c2 = Node Leaf (a, k) Leaf \<and> k = RB_RED" using u by (cases c2) auto
      then show "invc ?X" "invh ?X" "?X \<noteq> Leaf \<longrightarrow> rcol ?X = cs \<and> ctx_h (bh ?X) ?gs"
        "?X = Leaf \<longrightarrow> ctx_h (if cs = RB_BLACK then 1 else 0) ?gs" "?X = Leaf \<longleftrightarrow> c2 = Leaf"
        using I2 by (auto split: if_splits)
    qed
    obtain st' t' where f: "(case (if ?X = Leaf \<and> cs = RB_BLACK then par_of ?gs else None) of
        Some p \<Rightarrow> rb_erase_color None p (h', root') | None \<Rightarrow> Some (h', root')) = Some st'"
      "rb_rep st' t'" "rbt t'" "addrs t' = addrs (plug ?X ?gs)"
      "same_off (set (addrs ?X) \<union> set (caddrs ?gs)) h' (fst st')"
      using erase_finish [OF e(4) I2(3) X(1-4)] by auto
    have r: "addrs r = s # addrs c2 @ after ms" using e(1,2) by (simp add: addrs_plug left_spine_before)
    have "after (ms @ gs) = after ms @ after gs" for gs using e(2)
      by (induction ms rule: after.induct) auto
    moreover have "before (ms @ gs) = before gs" for gs using e(2)
      by (induction ms rule: before.induct) auto
    ultimately have "addrs t' = before fs @ addrs l @ addrs r @ after fs"
      using f(4) r by (simp add: addrs_plug)
    moreover have "set (caddrs ms) = set (after ms)" using e(2) by (simp add: set_caddrs left_spine_before)
    then have "same_off ?A h (fst st')"
      using e(5) f(5) r unfolding A same_off_def by auto
    moreover have "eaf_map_low_erase n st = Some st'"
      using e(3) f(1) X(5) st by (auto simp: eaf_map_low_erase_def)
    ultimately show ?thesis using f(2,3) st by auto
  qed
qed

end
