(* ===== verification/EafMap.thy ===== *)
theory EafMap
  imports MapLowDelete Errno
begin

text \<open>
  The ordered map of \<open>src/utils/map.c\<close>: a red-black tree with a comparison function and a node count.
  A map is represented by the list of its nodes in key order (\<open>map_ok\<close>); each operation is proved to
  act on that list as a sorted finite map does, given that the comparison function decides a linear
  order of keys (locale \<open>map_order\<close>, interpreted in \<open>Comparators\<close> for the comparison functions of
  the program).
\<close>

subsection \<open>Operations\<close>

record 'a eaf_map =
  map_low :: ptr
  cmp_fn :: "addr \<Rightarrow> addr \<Rightarrow> 'a \<Rightarrow> int"
  cmp_arg :: 'a
  map_size :: size_t

definition eaf_map_init :: "(addr \<Rightarrow> addr \<Rightarrow> 'a \<Rightarrow> int) \<Rightarrow> 'a \<Rightarrow> 'a eaf_map" where
  "eaf_map_init cmp arg = \<lparr>map_low = None, cmp_fn = cmp, cmp_arg = arg, map_size = 0\<rparr>"

partial_function (option) insert_search ::
  "'a eaf_map \<Rightarrow> addr \<Rightarrow> rb_heap \<Rightarrow> ptr \<Rightarrow> rb_link \<Rightarrow> (int + ptr \<times> rb_link) option" where
  "insert_search handler node h parent new_node =
     (case read_link (h, map_low handler) new_node of
        None \<Rightarrow> Some (Inr (parent, new_node))
      | Some cur \<Rightarrow>
          (let result = cmp_fn handler node cur (cmp_arg handler) in
           if result < 0 then insert_search handler node h (Some cur) (ChildLink Lft cur)
           else if result > 0 then insert_search handler node h (Some cur) (ChildLink Rgt cur)
           else Some (Inl eaf_errno_duplicate)))"

definition eaf_map_insert :: "'a eaf_map \<Rightarrow> addr \<Rightarrow> rb_heap \<Rightarrow> (int \<times> 'a eaf_map \<times> rb_heap) option" where
  "eaf_map_insert handler node h = do {
     found \<leftarrow> insert_search handler node h None RootLink;
     case found of
       Inl err \<Rightarrow> Some (err, handler, h)
     | Inr (parent, new_node) \<Rightarrow> do {
         (h', root') \<leftarrow> eaf_map_low_insert_color node
           (eaf_map_low_link_node node parent new_node (h, map_low handler));
         Some (eaf_errno_success, handler\<lparr>map_size := map_size handler + 1, map_low := root'\<rparr>, h') } }"

definition eaf_map_erase :: "'a eaf_map \<Rightarrow> addr \<Rightarrow> rb_heap \<Rightarrow> ('a eaf_map \<times> rb_heap) option" where
  "eaf_map_erase handler node h = do {
     (h', root') \<leftarrow> eaf_map_low_erase node (h, map_low handler);
     Some (handler\<lparr>map_size := map_size handler - 1, map_low := root'\<rparr>, h') }"

definition eaf_map_size :: "'a eaf_map \<Rightarrow> size_t" where
  "eaf_map_size handler = map_size handler"

partial_function (option) map_find_loop :: "'a eaf_map \<Rightarrow> addr \<Rightarrow> rb_heap \<Rightarrow> ptr \<Rightarrow> ptr option" where
  "map_find_loop handler key h node =
     (case node of
        None \<Rightarrow> Some None
      | Some n \<Rightarrow>
          (let result = cmp_fn handler key n (cmp_arg handler) in
           if result < 0 then map_find_loop handler key h (rb_left (h n))
           else if result > 0 then map_find_loop handler key h (rb_right (h n))
           else Some (Some n)))"

definition eaf_map_find :: "'a eaf_map \<Rightarrow> addr \<Rightarrow> rb_heap \<Rightarrow> ptr option" where
  "eaf_map_find handler key h = map_find_loop handler key h (map_low handler)"

partial_function (option) find_lower_loop :: "'a eaf_map \<Rightarrow> addr \<Rightarrow> rb_heap \<Rightarrow> ptr \<Rightarrow> ptr \<Rightarrow> ptr option" where
  "find_lower_loop handler key h lower_node node =
     (case node of
        None \<Rightarrow> Some lower_node
      | Some n \<Rightarrow>
          (let result = cmp_fn handler key n (cmp_arg handler) in
           if result < 0 then find_lower_loop handler key h lower_node (rb_left (h n))
           else if result > 0 then find_lower_loop handler key h (Some n) (rb_right (h n))
           else Some (Some n)))"

definition eaf_map_find_lower :: "'a eaf_map \<Rightarrow> addr \<Rightarrow> rb_heap \<Rightarrow> ptr option" where
  "eaf_map_find_lower handler key h = find_lower_loop handler key h None (map_low handler)"

partial_function (option) find_upper_loop :: "'a eaf_map \<Rightarrow> addr \<Rightarrow> rb_heap \<Rightarrow> ptr \<Rightarrow> ptr \<Rightarrow> ptr option" where
  "find_upper_loop handler key h upper_node node =
     (case node of
        None \<Rightarrow> Some upper_node
      | Some n \<Rightarrow>
          (let result = cmp_fn handler key n (cmp_arg handler) in
           if result < 0 then find_upper_loop handler key h (Some n) (rb_left (h n))
           else if result > 0 then find_upper_loop handler key h upper_node (rb_right (h n))
           else Some (if upper_node = None then rb_right (h n) else upper_node)))"

definition eaf_map_find_upper :: "'a eaf_map \<Rightarrow> addr \<Rightarrow> rb_heap \<Rightarrow> ptr option" where
  "eaf_map_find_upper handler key h = find_upper_loop handler key h None (map_low handler)"

definition eaf_map_begin :: "'a eaf_map \<Rightarrow> rb_heap \<Rightarrow> ptr option" where
  "eaf_map_begin handler h = eaf_map_low_first (h, map_low handler)"

definition eaf_map_end :: "'a eaf_map \<Rightarrow> rb_heap \<Rightarrow> ptr option" where
  "eaf_map_end handler h = eaf_map_low_last (h, map_low handler)"

definition eaf_map_next :: "addr \<Rightarrow> rb_heap \<Rightarrow> ptr option" where
  "eaf_map_next node h = eaf_map_low_next h node"

definition eaf_map_prev :: "addr \<Rightarrow> rb_heap \<Rightarrow> ptr option" where
  "eaf_map_prev node h = eaf_map_low_prev h node"

declare insert_search.simps [code] map_find_loop.simps [code] find_lower_loop.simps [code]
  find_upper_loop.simps [code]

subsection \<open>Iteration\<close>

lemma rb_descend_left: "tree_at h q t \<Longrightarrow> root_ptr t = Some m \<Longrightarrow> rb_descend Lft h m = Some (hd (addrs t))"
proof (induction t arbitrary: q m)
  case (Node l x r)
  then show ?case
    by (subst rb_descend.simps, cases l; cases x) (auto simp: hd_append)
qed simp

lemma rb_descend_right: "tree_at h q t \<Longrightarrow> root_ptr t = Some m \<Longrightarrow> rb_descend Rgt h m = Some (last (addrs t))"
proof (induction t arbitrary: q m)
  case (Node l x r)
  then show ?case
    by (subst rb_descend.simps, cases r; cases x) (auto simp: last_append)
qed simp

lemma rb_ascend_right:
  "ctx_at st (Some n) fs \<Longrightarrow> rb_parent (fst st n) = par_of fs \<Longrightarrow> distinct (n # caddrs fs) \<Longrightarrow>
   rb_ascend Rgt (fst st) n = Some (hd_opt (after fs))"
proof (induction fs arbitrary: n)
  case Nil
  then show ?case by (subst rb_ascend.simps) (simp add: hd_opt_def)
next
  case (Cons f fs)
  obtain d a c s where f: "f = Fr d a c s" by (cases f)
  have s: "root_ptr s \<noteq> Some n" using Cons.prems f root_ptr_SomeD [of s n] by auto
  have ih: "rb_ascend Rgt (fst st) a = Some (hd_opt (after fs))"
    using Cons.prems f by (intro Cons.IH; cases st) auto
  show ?case using Cons.prems f s ih
    by (subst rb_ascend.simps, cases d; cases st) (auto simp: hd_opt_def)
qed

lemma rb_ascend_left:
  "ctx_at st (Some n) fs \<Longrightarrow> rb_parent (fst st n) = par_of fs \<Longrightarrow> distinct (n # caddrs fs) \<Longrightarrow>
   rb_ascend Lft (fst st) n = Some (last_opt (before fs))"
proof (induction fs arbitrary: n)
  case Nil
  then show ?case by (subst rb_ascend.simps) (simp add: last_opt_def)
next
  case (Cons f fs)
  obtain d a c s where f: "f = Fr d a c s" by (cases f)
  have s: "root_ptr s \<noteq> Some n" using Cons.prems f root_ptr_SomeD [of s n] by auto
  have ih: "rb_ascend Lft (fst st) a = Some (last_opt (before fs))"
    using Cons.prems f by (intro Cons.IH; cases st) auto
  show ?case using Cons.prems f s ih
    by (subst rb_ascend.simps, cases d; cases st) (auto simp: last_opt_def)
qed

lemma addrs_not_Nil [simp]: "addrs t = [] \<longleftrightarrow> t = Leaf"
  by (cases t) auto

lemma rep_not_empty:
  "rep (h, root) (Node l (n, c) r) fs \<Longrightarrow> \<not> rb_empty_node h n"
  by (cases fs rule: par_of.cases) (auto simp: rep_def rb_empty_node_def)

lemma low_next:
  assumes "rb_rep (h, root) (plug (Node l (n, c) r) fs)"
  shows "eaf_map_low_next h n = Some (hd_opt (addrs r @ after fs))"
proof -
  have R: "rep (h, root) (Node l (n, c) r) fs" using assms by (simp add: rep_plug)
  note r = R [unfolded rep_def, simplified]
  show ?thesis
  proof (cases "r = Leaf")
    case True
    then show ?thesis using r rep_not_empty [OF R] rb_ascend_right [of "(h, root)" n fs]
      by (simp add: eaf_map_low_next_def)
  next
    case False
    then obtain m where m: "root_ptr r = Some m" by (cases "root_ptr r") auto
    then show ?thesis using r False rep_not_empty [OF R] rb_descend_left [of h "Some n" r m]
      by (simp add: eaf_map_low_next_def opt_conv hd_append)
  qed
qed

lemma low_prev:
  assumes "rb_rep (h, root) (plug (Node l (n, c) r) fs)"
  shows "eaf_map_low_prev h n = Some (last_opt (before fs @ addrs l))"
proof -
  have R: "rep (h, root) (Node l (n, c) r) fs" using assms by (simp add: rep_plug)
  note r = R [unfolded rep_def, simplified]
  show ?thesis
  proof (cases "l = Leaf")
    case True
    then show ?thesis using r rep_not_empty [OF R] rb_ascend_left [of "(h, root)" n fs]
      by (simp add: eaf_map_low_prev_def)
  next
    case False
    then obtain m where m: "root_ptr l = Some m" by (cases "root_ptr l") auto
    then show ?thesis using r False rep_not_empty [OF R] rb_descend_right [of h "Some n" l m]
      by (simp add: eaf_map_low_prev_def opt_conv last_append)
  qed
qed

lemma low_first: "rb_rep st t \<Longrightarrow> eaf_map_low_first st = Some (hd_opt (addrs t))"
  by (cases t; cases st)
    (auto simp: eaf_map_low_first_def rb_rep_def opt_conv dest!: rb_descend_left split: option.splits)

lemma low_last: "rb_rep st t \<Longrightarrow> eaf_map_low_last st = Some (last_opt (addrs t))"
  by (cases t; cases st)
    (auto simp: eaf_map_low_last_def rb_rep_def opt_conv dest!: rb_descend_right split: option.splits)

subsection \<open>The map contract\<close>

text \<open>\<open>map_ok key h m xs\<close>: the map \<open>m\<close> on the heap \<open>h\<close> is a balanced search tree whose nodes, in
  strictly increasing key order, are \<open>xs\<close>, and its counter is their number.\<close>

definition map_ok :: "(addr \<Rightarrow> 'k::linorder) \<Rightarrow> rb_heap \<Rightarrow> 'a eaf_map \<Rightarrow> addr list \<Rightarrow> bool" where
  "map_ok key h m xs \<longleftrightarrow>
     (\<exists>t. rb_rep (h, map_low m) t \<and> rbt t \<and> addrs t = xs) \<and>
     sorted_wrt (\<lambda>a b. key a < key b) xs \<and> unat (map_size m) = length xs"

lemma read_link_ctx: "ctx_at st p fs \<Longrightarrow> read_link st (link_of fs) = p"
  by (cases fs rule: link_of.cases; cases st) auto

lemma map_ok_distinct: "map_ok key h m xs \<Longrightarrow> distinct xs"
  by (auto simp: map_ok_def rb_rep_def)

lemma map_ok_frame:
  assumes "map_ok key h m xs" "same_off A h h'" "A \<inter> set xs = {}"
  shows "map_ok key h' m xs"
proof -
  obtain t where t: "rb_rep (h, map_low m) t" "rbt t" "addrs t = xs"
    using assms(1) by (auto simp: map_ok_def)
  have "rb_rep (h', map_low m) t"
    using t assms(2,3) by (auto simp: rb_rep_def elim!: tree_at_same_off)
  then show ?thesis using assms(1) t by (auto simp: map_ok_def)
qed

locale map_order =
  fixes cmp :: "addr \<Rightarrow> addr \<Rightarrow> 'a \<Rightarrow> int" and arg :: 'a and key :: "addr \<Rightarrow> 'k::linorder"
  assumes cmp_less: "cmp a b arg < 0 \<longleftrightarrow> key a < key b"
    and cmp_greater: "0 < cmp a b arg \<longleftrightarrow> key b < key a"
begin

lemma key_apart:
  "k < key a \<Longrightarrow> \<forall>b \<in> B. key a < key b \<Longrightarrow> \<forall>b \<in> B. key b \<noteq> k"
  "k < key a \<Longrightarrow> \<forall>b \<in> B. key a < key b \<Longrightarrow> \<forall>b \<in> B. k < key b"
  "key a < k \<Longrightarrow> \<forall>b \<in> B. key b < key a \<Longrightarrow> \<forall>b \<in> B. key b \<noteq> k"
  "key a < k \<Longrightarrow> \<forall>b \<in> B. key b < key a \<Longrightarrow> \<forall>b \<in> B. key b < k"
  by (auto dest: less_trans)

lemma search_spec:
  assumes "rep (h, map_low m) u fs" "sorted_wrt (\<lambda>a b. key a < key b) (addrs (plug u fs))"
    "cmp_fn m = cmp" "cmp_arg m = arg"
    "\<forall>a \<in> set (before fs). key a < key n" "\<forall>a \<in> set (after fs). key n < key a"
  shows "(\<exists>a \<in> set (addrs u). key a = key n) \<and>
      insert_search m n h (par_of fs) (link_of fs) = Some (Inl eaf_errno_duplicate) \<or>
    (\<forall>a \<in> set (addrs u). key a \<noteq> key n) \<and>
      (\<exists>gs. insert_search m n h (par_of fs) (link_of fs) = Some (Inr (par_of gs, link_of gs)) \<and>
         plug u fs = plug Leaf gs \<and>
         (\<forall>a \<in> set (before gs). key a < key n) \<and> (\<forall>a \<in> set (after gs). key n < key a))"
  using assms
proof (induction u arbitrary: fs)
  case Leaf
  then have "read_link (h, map_low m) (link_of fs) = None"
    by (intro read_link_ctx) (simp add: rep_def)
  then have "insert_search m n h (par_of fs) (link_of fs) = Some (Inr (par_of fs, link_of fs))"
    by (subst insert_search.simps) simp
  then show ?case using Leaf by auto
next
  case (Node l x r)
  obtain a c where x: "x = (a, c)" by (cases x)
  have rd: "read_link (h, map_low m) (link_of fs) = Some a"
    using Node.prems(1) x by (intro read_link_ctx) (simp add: rep_def)
  have srt: "\<forall>b \<in> set (before fs) \<union> set (addrs l). key b < key a"
    "\<forall>b \<in> set (addrs r) \<union> set (after fs). key a < key b"
    using Node.prems(2) x by (auto simp: addrs_plug sorted_wrt_append)
  consider "key n < key a" | "key a < key n" | "key a = key n" by (metis neqE)
  then show ?case
  proof cases
    case 1
    let ?fs = "Fr Lft a c r # fs"
    have step: "insert_search m n h (par_of fs) (link_of fs) = insert_search m n h (par_of ?fs) (link_of ?fs)"
      using rd 1 cmp_less Node.prems(3,4) by (subst insert_search.simps) simp
    have "rep (h, map_low m) l ?fs" using Node.prems(1) x by (auto simp: rep_def)
    moreover have "\<forall>b \<in> set (addrs r). key b \<noteq> key n" using srt by (intro key_apart(1) [OF 1]) auto
    moreover have "\<forall>b \<in> set (after ?fs). key n < key b" using srt key_apart(2) [OF 1, of "set (after ?fs) - {a}"] 1 by auto
    ultimately show ?thesis
      using Node.IH(1) [of ?fs] Node.prems x 1 unfolding step by auto
  next
    case 2
    let ?fs = "Fr Rgt a c l # fs"
    have step: "insert_search m n h (par_of fs) (link_of fs) = insert_search m n h (par_of ?fs) (link_of ?fs)"
      using rd 2 cmp_less [of n a] cmp_greater [of n a] Node.prems(3,4)
      by (subst insert_search.simps) (auto simp: Let_def)
    have "rep (h, map_low m) r ?fs" using Node.prems(1) x by (auto simp: rep_def)
    moreover have "\<forall>b \<in> set (addrs l). key b \<noteq> key n" using srt by (intro key_apart(3) [OF 2]) auto
    moreover have "\<forall>b \<in> set (before ?fs). key b < key n" using srt key_apart(4) [OF 2, of "set (before ?fs) - {a}"] 2 by auto
    ultimately show ?thesis
      using Node.IH(2) [of ?fs] Node.prems x 2 unfolding step by auto
  next
    case 3
    then have "insert_search m n h (par_of fs) (link_of fs) = Some (Inl eaf_errno_duplicate)"
      using rd cmp_less [of n a] cmp_greater [of n a] Node.prems(3,4)
      by (subst insert_search.simps) (auto simp: Let_def)
    then show ?thesis using 3 x by auto
  qed
qed

text \<open>Insertion: a duplicate key is refused and nothing changes; otherwise the node enters at its place.\<close>

lemma insert_spec:
  assumes "map_ok key h m xs" "cmp_fn m = cmp" "cmp_arg m = arg" "n \<notin> set xs" "Suc (length xs) < 2 ^ 64"
  shows "if \<exists>a \<in> set xs. key a = key n then eaf_map_insert m n h = Some (eaf_errno_duplicate, m, h)
    else \<exists>m' h' ys zs. eaf_map_insert m n h = Some (eaf_errno_success, m', h') \<and>
      xs = ys @ zs \<and> map_ok key h' m' (ys @ n # zs) \<and> cmp_fn m' = cmp \<and> cmp_arg m' = arg \<and>
      same_off (insert n (set xs)) h h'"
proof -
  obtain t where t: "rb_rep (h, map_low m) t" "rbt t" "addrs t = xs"
    using assms(1) by (auto simp: map_ok_def)
  have srt: "sorted_wrt (\<lambda>a b. key a < key b) xs" "unat (map_size m) = length xs"
    using assms(1) by (auto simp: map_ok_def)
  have "rep (h, map_low m) t []" using t(1) by (simp add: rep_plug [symmetric])
  then have S: "(\<exists>a \<in> set xs. key a = key n) \<and> insert_search m n h None RootLink = Some (Inl eaf_errno_duplicate) \<or>
    (\<forall>a \<in> set xs. key a \<noteq> key n) \<and>
      (\<exists>gs. insert_search m n h None RootLink = Some (Inr (par_of gs, link_of gs)) \<and> t = plug Leaf gs \<and>
         (\<forall>a \<in> set (before gs). key a < key n) \<and> (\<forall>a \<in> set (after gs). key n < key a))"
    using search_spec [of h m t "[]" n] assms t srt by simp
  show ?thesis
  proof (cases "\<exists>a \<in> set xs. key a = key n")
    case True
    then have "insert_search m n h None RootLink = Some (Inl eaf_errno_duplicate)" using S by blast
    then show ?thesis using True by (simp add: eaf_map_insert_def)
  next
    case False
    then obtain gs where gs: "insert_search m n h None RootLink = Some (Inr (par_of gs, link_of gs))"
      "t = plug Leaf gs" "\<forall>a \<in> set (before gs). key a < key n" "\<forall>a \<in> set (after gs). key n < key a"
      using S by blast
    have xs: "xs = before gs @ after gs" using gs(2) t(3) by (simp add: addrs_plug)
    then have "set (caddrs gs) = set xs" by (simp add: set_caddrs)
    then obtain st' t' where i: "eaf_map_low_insert_color n (eaf_map_low_link_node n (par_of gs) (link_of gs) (h, map_low m)) = Some st'"
      "rb_rep st' t'" "rbt t'" "addrs t' = before gs @ n # after gs" "same_off (insert n (set xs)) h (fst st')"
      using low_insert [of "(h, map_low m)" gs n] t gs(2) assms(4) by auto
    obtain h' root' where st': "st' = (h', root')" by (cases st')
    let ?m' = "m\<lparr>map_size := map_size m + 1, map_low := root'\<rparr>"
    have "unat (map_size m + 1) = Suc (length xs)"
      using srt(2) assms(5) by (simp add: unat_word_ariths)
    moreover have "sorted_wrt (\<lambda>a b. key a < key b) (before gs @ n # after gs)"
      using srt(1) gs(3,4) xs by (auto simp: sorted_wrt_append)
    ultimately have "map_ok key h' ?m' (before gs @ n # after gs)"
      using i st' xs by (auto simp: map_ok_def)
    moreover have "eaf_map_insert m n h = Some (eaf_errno_success, ?m', h')"
      using gs(1) i(1) st' by (simp add: eaf_map_insert_def)
    ultimately show ?thesis using False xs i(5) st' assms(2,3)
      by (intro if_not_P [THEN iffD2] ) auto
  qed
qed

lemma find_spec:
  assumes "tree_at h q u" "sorted_wrt (\<lambda>a b. key a < key b) (addrs u)" "cmp_fn m = cmp" "cmp_arg m = arg"
  shows "map_find_loop m n h (root_ptr u) = Some (find (\<lambda>a. key a = key n) (addrs u))"
  using assms
proof (induction u arbitrary: q)
  case (Node l x r)
  obtain a c where x: "x = (a, c)" by (cases x)
  have srt: "\<forall>b \<in> set (addrs l). key b < key a" "\<forall>b \<in> set (addrs r). key a < key b"
    using Node.prems(2) x by (auto simp: sorted_wrt_append)
  have ih: "map_find_loop m n h (root_ptr l) = Some (find (\<lambda>a. key a = key n) (addrs l))"
    "map_find_loop m n h (root_ptr r) = Some (find (\<lambda>a. key a = key n) (addrs r))"
    using Node x by (auto simp: sorted_wrt_append)
  have none: "find (\<lambda>a. key a = key n) ys = None" if "\<forall>b \<in> set ys. key b \<noteq> key n" for ys
    using that by (simp add: find_None_iff)
  have app: "find P (ys @ zs) = (case find P ys of None \<Rightarrow> find P zs | Some y \<Rightarrow> Some y)" for P and ys zs :: "addr list"
    by (induction ys) auto
  consider "key n < key a" | "key a < key n" | "key a = key n" by (metis neqE)
  then show ?case
  proof cases
    case 1
    then have "find (\<lambda>a. key a = key n) (addrs r) = None" using srt by (intro none key_apart(1) [OF 1])
    then show ?thesis using ih Node.prems x 1 cmp_less [of n a]
      by (subst map_find_loop.simps) (auto simp: app split: option.split)
  next
    case 2
    then have "find (\<lambda>a. key a = key n) (addrs l) = None" using srt by (intro none key_apart(3) [OF 2])
    then show ?thesis using ih Node.prems x 2 cmp_less [of n a] cmp_greater [of n a]
      by (subst map_find_loop.simps) (auto simp: app Let_def split: option.split)
  next
    case 3
    then have "find (\<lambda>a. key a = key n) (addrs l) = None" using srt 3 by (intro none) auto
    then show ?thesis using x 3 cmp_less [of n a] cmp_greater [of n a] Node.prems(3,4)
      by (subst map_find_loop.simps) (auto simp: app Let_def split: option.split)
  qed
qed (subst map_find_loop.simps, simp)

lemma filter_all_or_none:
  "\<forall>b \<in> set ys. P b \<Longrightarrow> filter P ys = ys"
  "\<forall>b \<in> set ys. \<not> P b \<Longrightarrow> filter P ys = []"
  by (simp_all add: filter_empty_conv)

lemma find_lower_spec:
  assumes "tree_at h q u" "sorted_wrt (\<lambda>a b. key a < key b) (addrs u)" "cmp_fn m = cmp" "cmp_arg m = arg"
  shows "find_lower_loop m n h acc (root_ptr u) =
    Some (case last_opt (filter (\<lambda>a. key a \<le> key n) (addrs u)) of None \<Rightarrow> acc | Some a \<Rightarrow> Some a)"
  using assms
proof (induction u arbitrary: q acc)
  case (Node l x r)
  obtain a c where x: "x = (a, c)" by (cases x)
  have srt: "\<forall>b \<in> set (addrs l). key b < key a" "\<forall>b \<in> set (addrs r). key a < key b"
    using Node.prems(2) x by (auto simp: sorted_wrt_append)
  have ih: "find_lower_loop m n h acc (root_ptr l) =
      Some (case last_opt (filter (\<lambda>a. key a \<le> key n) (addrs l)) of None \<Rightarrow> acc | Some a \<Rightarrow> Some a)"
    "find_lower_loop m n h acc (root_ptr r) =
      Some (case last_opt (filter (\<lambda>a. key a \<le> key n) (addrs r)) of None \<Rightarrow> acc | Some a \<Rightarrow> Some a)" for acc
    using Node x by (auto simp: sorted_wrt_append)
  consider "key n < key a" | "key a < key n" | "key a = key n" by (metis neqE)
  then show ?case
  proof cases
    case 1
    then have "filter (\<lambda>a. key a \<le> key n) (addrs r) = []"
      using key_apart(2) [OF 1 srt(2)] by (intro filter_all_or_none) (auto simp: not_le)
    then show ?thesis using ih Node.prems x 1 cmp_less [of n a]
      by (subst find_lower_loop.simps) auto
  next
    case 2
    then show ?thesis using ih Node.prems x 2 cmp_less [of n a] cmp_greater [of n a]
      by (subst find_lower_loop.simps) (auto simp: Let_def last_opt_append last_opt_Cons split: option.split)
  next
    case 3
    then have "filter (\<lambda>a. key a \<le> key n) (addrs r) = []"
      using srt(2) by (intro filter_all_or_none) auto
    then show ?thesis using x 3 cmp_less [of n a] cmp_greater [of n a] Node.prems(3,4)
      by (subst find_lower_loop.simps) (auto simp: Let_def)
  qed
qed (subst find_lower_loop.simps, simp)

text \<open>The upper search finds the successor of a key that is absent.\<close>

lemma find_upper_spec:
  assumes "tree_at h q u" "sorted_wrt (\<lambda>a b. key a < key b) (addrs u)" "cmp_fn m = cmp" "cmp_arg m = arg"
    "\<forall>a \<in> set (addrs u). key a \<noteq> key n"
  shows "find_upper_loop m n h acc (root_ptr u) =
    Some (case hd_opt (filter (\<lambda>a. key n < key a) (addrs u)) of None \<Rightarrow> acc | Some a \<Rightarrow> Some a)"
  using assms
proof (induction u arbitrary: q acc)
  case (Node l x r)
  obtain a c where x: "x = (a, c)" by (cases x)
  have srt: "\<forall>b \<in> set (addrs l). key b < key a" "\<forall>b \<in> set (addrs r). key a < key b"
    using Node.prems(2) x by (auto simp: sorted_wrt_append)
  have ih: "find_upper_loop m n h acc (root_ptr l) =
      Some (case hd_opt (filter (\<lambda>a. key n < key a) (addrs l)) of None \<Rightarrow> acc | Some a \<Rightarrow> Some a)"
    "find_upper_loop m n h acc (root_ptr r) =
      Some (case hd_opt (filter (\<lambda>a. key n < key a) (addrs r)) of None \<Rightarrow> acc | Some a \<Rightarrow> Some a)" for acc
    using Node x by (auto simp: sorted_wrt_append)
  have "key a \<noteq> key n" using Node.prems(5) x by simp
  then consider "key n < key a" | "key a < key n" by (metis neqE)
  then show ?case
  proof cases
    case 1
    then show ?thesis using ih Node.prems x 1 cmp_less [of n a]
      by (subst find_upper_loop.simps) (auto simp: hd_opt_append split: option.split)
  next
    case 2
    then have "filter (\<lambda>a. key n < key a) (addrs l) = []"
      using key_apart(4) [OF 2 srt(1)] by (intro filter_all_or_none) (auto simp: not_less)
    then show ?thesis using ih Node.prems x 2 cmp_less [of n a] cmp_greater [of n a]
      by (subst find_upper_loop.simps) (auto simp: Let_def)
  qed
qed (subst find_upper_loop.simps, simp)

text \<open>The searches on a well-formed map.\<close>

lemma searches:
  assumes "map_ok key h m xs" "cmp_fn m = cmp" "cmp_arg m = arg"
  shows "eaf_map_find m n h = Some (find (\<lambda>a. key a = key n) xs)"
    and "eaf_map_find_lower m n h = Some (last_opt (filter (\<lambda>a. key a \<le> key n) xs))"
    and "\<forall>a \<in> set xs. key a \<noteq> key n \<Longrightarrow>
      eaf_map_find_upper m n h = Some (hd_opt (filter (\<lambda>a. key n < key a) xs))"
proof -
  obtain t where t: "tree_at h None t" "map_low m = root_ptr t" "addrs t = xs"
    "sorted_wrt (\<lambda>a b. key a < key b) (addrs t)"
    using assms(1) by (auto simp: map_ok_def rb_rep_def)
  show "eaf_map_find m n h = Some (find (\<lambda>a. key a = key n) xs)"
    using find_spec [OF t(1,4) assms(2,3)] t by (simp add: eaf_map_find_def)
  show "eaf_map_find_lower m n h = Some (last_opt (filter (\<lambda>a. key a \<le> key n) xs))"
    using find_lower_spec [OF t(1,4) assms(2,3)] t
    by (simp add: eaf_map_find_lower_def split: option.split)
  show "eaf_map_find_upper m n h = Some (hd_opt (filter (\<lambda>a. key n < key a) xs))"
    if "\<forall>a \<in> set xs. key a \<noteq> key n"
    using find_upper_spec [OF t(1,4) assms(2,3)] t that
    by (simp add: eaf_map_find_upper_def split: option.split)
qed

end

text \<open>Operations that do not compare keys.\<close>

lemma init_ok: "map_ok key h (eaf_map_init cmp arg) []"
  by (auto simp: map_ok_def eaf_map_init_def rb_rep_def rbt_def intro!: exI [of _ Leaf])

lemma map_ok_split:
  assumes "map_ok key h m xs" "n \<in> set xs"
  obtains l c r fs where "rb_rep (h, map_low m) (plug (Node l (n, c) r) fs)" "rbt (plug (Node l (n, c) r) fs)"
    "xs = before fs @ addrs l @ n # addrs r @ after fs"
proof -
  obtain t where t: "rb_rep (h, map_low m) t" "rbt t" "addrs t = xs"
    using assms(1) by (auto simp: map_ok_def)
  obtain l c r fs where f: "t = plug (Node l (n, c) r) fs" using find_focus assms(2) t(3) by blast
  show thesis using t that [of l c r fs] unfolding f by (simp add: addrs_plug)
qed

lemma erase_spec:
  assumes "map_ok key h m xs" "n \<in> set xs"
  shows "\<exists>m' h'. eaf_map_erase m n h = Some (m', h') \<and> map_ok key h' m' (remove1 n xs) \<and>
    cmp_fn m' = cmp_fn m \<and> cmp_arg m' = cmp_arg m \<and> same_off (set xs) h h'"
proof -
  obtain l c r fs where f: "rb_rep (h, map_low m) (plug (Node l (n, c) r) fs)" "rbt (plug (Node l (n, c) r) fs)"
    "xs = before fs @ addrs l @ n # addrs r @ after fs"
    using map_ok_split [OF assms] by blast
  obtain st' t' where e: "eaf_map_low_erase n (h, map_low m) = Some st'" "rb_rep st' t'" "rbt t'"
    "addrs t' = before fs @ addrs l @ addrs r @ after fs" "same_off (set xs) h (fst st')"
    using low_erase [OF f(1,2)] f(3) by (auto simp: addrs_plug)
  obtain h' root' where st': "st' = (h', root')" by (cases st')
  have "distinct xs" using assms(1) by (rule map_ok_distinct)
  then have rem: "remove1 n xs = addrs t'" using f(3) e(4) by (auto simp: remove1_append)
  have "sorted_wrt (\<lambda>a b. key a < key b) xs" using assms(1) by (simp add: map_ok_def)
  then have "sorted_wrt (\<lambda>a b. key a < key b) (addrs t')" using f(3) e(4) by (auto simp: sorted_wrt_append)
  moreover have "unat (map_size m - 1) = length (addrs t')"
  proof -
    have sz: "unat (map_size m) = Suc (length (addrs t'))" using assms(1) f(3) e(4) by (simp add: map_ok_def)
    then have "map_size m \<noteq> 0" by auto
    then show ?thesis using sz by (simp add: unat_minus_one)
  qed
  ultimately have "map_ok key h' (m\<lparr>map_size := map_size m - 1, map_low := root'\<rparr>) (remove1 n xs)"
    using e(2,3) st' rem by (auto simp: map_ok_def)
  then show ?thesis using e(1,5) st' by (simp add: eaf_map_erase_def)
qed

lemma iteration_spec:
  assumes "map_ok key h m xs"
  shows "eaf_map_begin m h = Some (hd_opt xs)" "eaf_map_end m h = Some (last_opt xs)"
    "xs = ys @ n # zs \<Longrightarrow> eaf_map_next n h = Some (hd_opt zs)"
    "xs = ys @ n # zs \<Longrightarrow> eaf_map_prev n h = Some (last_opt ys)"
proof -
  show "eaf_map_begin m h = Some (hd_opt xs)" "eaf_map_end m h = Some (last_opt xs)"
    using assms low_first low_last by (auto simp: map_ok_def eaf_map_begin_def eaf_map_end_def)
  assume xs: "xs = ys @ n # zs"
  then have "n \<in> set xs" by simp
  then obtain l c r fs where f: "rb_rep (h, map_low m) (plug (Node l (n, c) r) fs)"
    "rbt (plug (Node l (n, c) r) fs)" "xs = before fs @ addrs l @ n # addrs r @ after fs"
    by (rule map_ok_split [OF assms])
  have "distinct xs" using assms by (rule map_ok_distinct)
  then have "ys = before fs @ addrs l" "zs = addrs r @ after fs"
    using xs f(3) append_Cons_eq_iff [of n ys zs "before fs @ addrs l" "addrs r @ after fs"] by auto
  then show "eaf_map_next n h = Some (hd_opt zs)" "eaf_map_prev n h = Some (last_opt ys)"
    using low_next [OF f(1)] low_prev [OF f(1)] by (simp_all add: eaf_map_next_def eaf_map_prev_def)
qed

lemma size_spec: "map_ok key h m xs \<Longrightarrow> unat (eaf_map_size m) = length xs"
  by (simp add: map_ok_def eaf_map_size_def)

end
