(* ===== verification/Comparators.thy ===== *)
theory Comparators
  imports EafMap ClockTime "HOL-Library.Product_Lexorder"
begin

text \<open>
  The map under the comparison functions of the program: the request table of \<open>powerpack/message.c\<close>,
  the poll table of \<open>powerpack/net.c\<close>, the three tables of \<open>powerpack/monitor.c\<close> and the three of
  \<open>powerpack/watchdog.c\<close>. A comparison function gets two node addresses and reads the records that
  contain them (\<open>EAF_CONTAINER_OF\<close>), here a function from node addresses to records. Each decides the
  order of a key, which makes the contract of \<open>EafMap\<close> hold for its map. The properties of the map
  close the theory.
\<close>

subsection \<open>Records and comparison functions\<close>

record pp_message_record =
  pm_uuid :: u64
  pm_orig_req :: ptr
  pm_orig_rsp :: ptr
  pm_orig_from :: u32
  pm_ret :: int

definition message_on_cmp_record :: "(addr \<Rightarrow> pp_message_record) \<Rightarrow> addr \<Rightarrow> addr \<Rightarrow> unit \<Rightarrow> int" where
  "message_on_cmp_record rc key1 key2 arg =
     (if pm_uuid (rc key1) = pm_uuid (rc key2) then 0
      else if pm_uuid (rc key1) < pm_uuid (rc key2) then - 1 else 1)"

record poll_data =
  pd_local :: "(nat \<times> nat) option"
  pd_id :: u32
  pd_sock :: int
  pd_evts :: u32
  pd_timeout :: u32

definition net_on_cmp_record :: "(addr \<Rightarrow> poll_data) \<Rightarrow> addr \<Rightarrow> addr \<Rightarrow> unit \<Rightarrow> int" where
  "net_on_cmp_record rc key1 key2 arg =
     (if pd_id (rc key1) = pd_id (rc key2) then 0
      else if pd_id (rc key1) < pd_id (rc key2) then - 1 else 1)"

record monitor_service_data =
  ms_gid :: u32
  ms_sid :: u32
  ms_sls :: "nat \<times> nat"

record monitor_dataflow_data =
  md_from :: u32
  md_to :: u32
  md_count :: u64

definition monitor_cmp_service_record_group ::
  "(addr \<Rightarrow> monitor_service_data) \<Rightarrow> addr \<Rightarrow> addr \<Rightarrow> unit \<Rightarrow> int" where
  "monitor_cmp_service_record_group rc key1 key2 arg =
     (if ms_gid (rc key1) < ms_gid (rc key2) then - 1
      else if ms_gid (rc key1) > ms_gid (rc key2) then 1
      else if ms_sid (rc key1) < ms_sid (rc key2) then - 1
      else if ms_sid (rc key1) > ms_sid (rc key2) then 1
      else 0)"

definition monitor_cmp_service_record_split ::
  "(addr \<Rightarrow> monitor_service_data) \<Rightarrow> addr \<Rightarrow> addr \<Rightarrow> unit \<Rightarrow> int" where
  "monitor_cmp_service_record_split rc key1 key2 arg =
     (if ms_sid (rc key1) = ms_sid (rc key2) then 0
      else if ms_sid (rc key1) < ms_sid (rc key2) then - 1 else 1)"

definition monitor_cmp_dataflow_record ::
  "(addr \<Rightarrow> monitor_dataflow_data) \<Rightarrow> addr \<Rightarrow> addr \<Rightarrow> unit \<Rightarrow> int" where
  "monitor_cmp_dataflow_record rc key1 key2 arg =
     (if md_from (rc key1) < md_from (rc key2) then - 1
      else if md_from (rc key1) > md_from (rc key2) then 1
      else if md_to (rc key1) < md_to (rc key2) then - 1
      else if md_to (rc key1) > md_to (rc key2) then 1
      else 0)"

record watch_entry =
  we_sid :: u32
  we_interval :: u32
  we_timeout :: u32
  we_jitter :: u32

record watchdog_record =
  wd_begin :: clock_time
  wd_end :: clock_time
  wd_cerrc :: u64
  wd_token :: int
  wd_rec :: addr

text \<open>The idle stack: by \<open>begin\<close>, then by the watched service; the busy stack: by \<open>end\<close>, then by the
  address of the entry.\<close>

definition watchdog_on_cmp_begin ::
  "(addr \<Rightarrow> watch_entry) \<Rightarrow> (addr \<Rightarrow> watchdog_record) \<Rightarrow> addr \<Rightarrow> addr \<Rightarrow> unit \<Rightarrow> int" where
  "watchdog_on_cmp_begin tab rc key1 key2 arg =
     (let ret = fst (eaf_time_diffclock (wd_begin (rc key1)) (wd_begin (rc key2))) in
      if ret \<noteq> 0 then ret
      else if we_sid (tab (wd_rec (rc key1))) = we_sid (tab (wd_rec (rc key2))) then 0
      else if we_sid (tab (wd_rec (rc key1))) < we_sid (tab (wd_rec (rc key2))) then - 1 else 1)"

definition watchdog_on_cmp_end :: "(addr \<Rightarrow> watchdog_record) \<Rightarrow> addr \<Rightarrow> addr \<Rightarrow> unit \<Rightarrow> int" where
  "watchdog_on_cmp_end rc key1 key2 arg =
     (let ret = fst (eaf_time_diffclock (wd_end (rc key1)) (wd_end (rc key2))) in
      if ret \<noteq> 0 then ret
      else if wd_rec (rc key1) = wd_rec (rc key2) then 0
      else if wd_rec (rc key1) < wd_rec (rc key2) then - 1 else 1)"

text \<open>The token table compares by subtraction. Tokens are array indices, so the \<open>int\<close> subtraction does
  not overflow.\<close>

definition watchdog_on_cmp_token :: "(addr \<Rightarrow> watchdog_record) \<Rightarrow> addr \<Rightarrow> addr \<Rightarrow> unit \<Rightarrow> int" where
  "watchdog_on_cmp_token rc key1 key2 arg = wd_token (rc key1) - wd_token (rc key2)"

subsection \<open>The contract for each of them\<close>

interpretation message_map: map_order "message_on_cmp_record rc" "()" "\<lambda>a. pm_uuid (rc a)" for rc
  by unfold_locales (auto simp: message_on_cmp_record_def)

interpretation net_map: map_order "net_on_cmp_record rc" "()" "\<lambda>a. pd_id (rc a)" for rc
  by unfold_locales (auto simp: net_on_cmp_record_def)

interpretation monitor_group_map: map_order "monitor_cmp_service_record_group rc" "()"
  "\<lambda>a. (ms_gid (rc a), ms_sid (rc a))" for rc
  by unfold_locales (auto simp: monitor_cmp_service_record_group_def less_prod_simp)

interpretation monitor_split_map: map_order "monitor_cmp_service_record_split rc" "()" "\<lambda>a. ms_sid (rc a)" for rc
  by unfold_locales (auto simp: monitor_cmp_service_record_split_def)

interpretation monitor_dataflow_map: map_order "monitor_cmp_dataflow_record rc" "()"
  "\<lambda>a. (md_from (rc a), md_to (rc a))" for rc
  by unfold_locales (auto simp: monitor_cmp_dataflow_record_def less_prod_simp)

interpretation watchdog_idle_map: map_order "watchdog_on_cmp_begin tab rc" "()"
  "\<lambda>a. (wd_begin (rc a), we_sid (tab (wd_rec (rc a))))" for tab rc
  by unfold_locales (auto simp: watchdog_on_cmp_begin_def diffclock_fst less_prod_simp Let_def)

interpretation watchdog_busy_map: map_order "watchdog_on_cmp_end rc" "()"
  "\<lambda>a. (wd_end (rc a), wd_rec (rc a))" for rc
  by unfold_locales (auto simp: watchdog_on_cmp_end_def diffclock_fst less_prod_simp Let_def)

interpretation watchdog_token_map: map_order "watchdog_on_cmp_token rc" "()" "\<lambda>a. wd_token (rc a)" for rc
  by unfold_locales (auto simp: watchdog_on_cmp_token_def)

subsection \<open>Properties of the map\<close>

text \<open>A map of three monitor records, keyed by service id, as the witness of the properties below.\<close>

definition demo_rec :: "addr \<Rightarrow> monitor_service_data" where
  "demo_rec a = \<lparr>ms_gid = 0, ms_sid = of_nat a, ms_sls = (0, a)\<rparr>"

definition demo_rb_heap :: rb_heap where
  "demo_rb_heap = (\<lambda>a.
     if a = 12 then \<lparr>rb_parent = None, rb_color = RB_BLACK, rb_right = Some 14, rb_left = Some 11\<rparr>
     else \<lparr>rb_parent = Some 12, rb_color = RB_RED, rb_right = None, rb_left = None\<rparr>)"

definition demo_map :: "unit eaf_map" where
  "demo_map = \<lparr>map_low = Some 12, cmp_fn = monitor_cmp_service_record_split demo_rec, cmp_arg = (), map_size = 3\<rparr>"

definition demo_tree :: ptree where
  "demo_tree = Node (Node Leaf (11, RB_RED) Leaf) (12, RB_BLACK) (Node Leaf (14, RB_RED) Leaf)"

fun insert_all :: "'a eaf_map \<Rightarrow> rb_heap \<Rightarrow> addr list \<Rightarrow> ('a eaf_map \<times> rb_heap) option" where
  "insert_all m h [] = Some (m, h)"
| "insert_all m h (n # ns) = do { (r, m', h') \<leftarrow> eaf_map_insert m n h; insert_all m' h' ns }"

abbreviation demo_key :: "addr \<Rightarrow> u32" where "demo_key \<equiv> \<lambda>a. ms_sid (demo_rec a)"

lemma demo_ok: "map_ok demo_key demo_rb_heap demo_map [11, 12, 14]"
  "cmp_fn demo_map = monitor_cmp_service_record_split demo_rec" "cmp_arg demo_map = ()"
  by (auto simp: map_ok_def rb_rep_def demo_rb_heap_def demo_map_def demo_tree_def demo_rec_def rbt_def
      intro!: exI [of _ demo_tree])

lemma demo_rep: "rb_rep (demo_rb_heap, Some 12) (plug (Node Leaf (14, RB_RED) Leaf) [Fr Rgt 12 RB_BLACK (Node Leaf (11, RB_RED) Leaf)])"
  "rbt (plug (Node Leaf (14, RB_RED) Leaf) [Fr Rgt 12 RB_BLACK (Node Leaf (11, RB_RED) Leaf)])"
  by (auto simp: rb_rep_def demo_rb_heap_def rbt_def)

lemma insort_middle:
  "\<forall>a \<in> set ys. key a < key n \<Longrightarrow> \<forall>a \<in> set zs. key n < key a \<Longrightarrow> insort_key key n (ys @ zs) = ys @ n # zs"
proof (induction ys)
  case Nil
  then show ?case by (cases zs) (auto simp: less_imp_le)
next
  case (Cons y ys)
  then show ?case by (auto simp: leD)
qed

text \<open>C33: linking a new node at an empty link of a red-black tree and calling
  \<open>eaf_map_low_insert_color\<close> returns (no null dereference, the loop ends), gives a red-black tree
  again, whose in-order sequence has the node at that place, and writes no other nodes.\<close>

theorem map_low_insert:
  assumes "rb_rep st (plug Leaf fs)" "rbt (plug Leaf fs)" "n \<notin> set (caddrs fs)"
  shows "\<exists>st' t'. eaf_map_low_insert_color n (eaf_map_low_link_node n (par_of fs) (link_of fs) st) = Some st' \<and>
    rb_rep st' t' \<and> rbt t' \<and> addrs t' = before fs @ n # after fs \<and>
    same_off (insert n (set (caddrs fs))) (fst st) (fst st')"
  using assms by (rule low_insert)

theorem map_low_insert_witness:
  "\<exists>st' t'. eaf_map_low_insert_color 13 (eaf_map_low_link_node 13 (Some 14) (ChildLink Lft 14) (demo_rb_heap, Some 12)) = Some st' \<and>
    rb_rep st' t' \<and> rbt t' \<and> addrs t' = [11, 12, 13, 14]"
  using map_low_insert [of "(demo_rb_heap, Some 12)"
      "[Fr Lft 14 RB_RED Leaf, Fr Rgt 12 RB_BLACK (Node Leaf (11, RB_RED) Leaf)]" 13] demo_rep
  by auto

text \<open>C34: \<open>eaf_map_low_erase\<close> of any node of a red-black tree returns, gives a red-black tree again
  without that node and with the order of the others kept, and writes only nodes of the tree.\<close>

theorem map_low_erase:
  assumes "rb_rep st t" "rbt t" "n \<in> set (addrs t)"
  shows "\<exists>st' t'. eaf_map_low_erase n st = Some st' \<and> rb_rep st' t' \<and> rbt t' \<and>
    addrs t' = remove1 n (addrs t) \<and> same_off (set (addrs t)) (fst st) (fst st')"
proof -
  obtain l c r fs where t: "t = plug (Node l (n, c) r) fs" using find_focus [OF assms(3)] by blast
  have "distinct (addrs t)" using assms(1) by (simp add: rb_rep_def)
  then have "remove1 n (addrs t) = before fs @ addrs l @ addrs r @ after fs"
    by (auto simp: t addrs_plug remove1_append)
  then show ?thesis using low_erase [of st l n c r fs] assms(1,2) unfolding t by simp
qed

theorem map_low_erase_witness:
  "\<exists>st' t'. eaf_map_low_erase 12 (demo_rb_heap, Some 12) = Some st' \<and> rb_rep st' t' \<and> rbt t' \<and> addrs t' = [11, 14]"
  using map_low_erase [of "(demo_rb_heap, Some 12)" "plug (Node Leaf (14, RB_RED) Leaf) [Fr Rgt 12 RB_BLACK (Node Leaf (11, RB_RED) Leaf)]" 12] demo_rep
  by auto

text \<open>In a red-black tree of \<open>n\<close> nodes on the heap no node is deeper than twice the binary
  logarithm of \<open>n + 1\<close>, so every search path of the map is that short.\<close>

theorem map_height:
  assumes "map_ok key h m xs"
  shows "\<exists>t. rb_rep (h, map_low m) t \<and> addrs t = xs \<and> 2 ^ (height t div 2) \<le> length xs + 1"
proof -
  obtain t where t: "rb_rep (h, map_low m) t" "rbt t" "addrs t = xs"
    using assms by (auto simp: map_ok_def)
  have "length (addrs t) = size t" by (simp add: addrs_def)
  then show ?thesis using t rbt_height [of t] by auto
qed

theorem map_height_witness:
  "\<exists>t. rb_rep (demo_rb_heap, map_low demo_map) t \<and> addrs t = [11, 12, 14] \<and> 2 ^ (height t div 2) \<le> Suc 3"
  using map_height [OF demo_ok(1)] by (simp add: numeral_3_eq_3)

text \<open>C35: \<open>eaf_map_insert\<close> on a well-formed map refuses a key that is present, changing nothing, and
  otherwise succeeds with the node at its place in the key order; the map stays well formed.\<close>

theorem map_insert:
  assumes "map_order cmp arg key" "map_ok key h m xs" "cmp_fn m = cmp" "cmp_arg m = arg"
    "n \<notin> set xs" "Suc (length xs) < 2 ^ 64"
  shows "if \<exists>a \<in> set xs. key a = key n then eaf_map_insert m n h = Some (eaf_errno_duplicate, m, h)
    else \<exists>m' h'. eaf_map_insert m n h = Some (eaf_errno_success, m', h') \<and>
      map_ok key h' m' (insort_key key n xs) \<and> same_off (insert n (set xs)) h h'"
proof (cases "\<exists>a \<in> set xs. key a = key n")
  case True
  then show ?thesis using map_order.insert_spec [OF assms] by simp
next
  case False
  then obtain m' h' ys zs where i: "eaf_map_insert m n h = Some (eaf_errno_success, m', h')"
      "xs = ys @ zs" "map_ok key h' m' (ys @ n # zs)" "same_off (insert n (set xs)) h h'"
    using map_order.insert_spec [OF assms] by auto
  have "insort_key key n (ys @ zs) = ys @ n # zs"
    using i(3) by (intro insort_middle) (auto simp: map_ok_def sorted_wrt_append)
  then show ?thesis using False i by auto
qed

theorem map_insert_witness:
  "eaf_map_insert demo_map (12 + 2 ^ 32) demo_rb_heap = Some (eaf_errno_duplicate, demo_map, demo_rb_heap) \<and>
   (\<exists>m' h'. eaf_map_insert demo_map 13 demo_rb_heap = Some (eaf_errno_success, m', h') \<and>
      map_ok demo_key h' m' [11, 12, 13, 14])"
proof -
  note i = map_insert [OF monitor_split_map.map_order_axioms demo_ok]
  have "demo_key (12 + 2 ^ 32) = demo_key 12" "demo_key 13 \<noteq> demo_key a" if "a \<in> {11, 12, 14}" for a
    using that by (auto simp: demo_rec_def)
  then show ?thesis
    using i [of "12 + 2 ^ 32"] i [of 13] by (auto simp: demo_rec_def split: if_splits)
qed

text \<open>C36: \<open>eaf_map_erase\<close> takes exactly the given node out of a well-formed map and keeps it well formed.\<close>

theorem map_erase:
  assumes "map_ok key h m xs" "n \<in> set xs"
  shows "\<exists>m' h'. eaf_map_erase m n h = Some (m', h') \<and> map_ok key h' m' (remove1 n xs) \<and>
    unat (eaf_map_size m') = length xs - 1 \<and> same_off (set xs) h h'"
  using erase_spec [OF assms] size_spec assms(2) by (fastforce simp: length_remove1)

theorem map_erase_witness:
  "\<exists>m' h'. eaf_map_erase demo_map 12 demo_rb_heap = Some (m', h') \<and> map_ok demo_key h' m' [11, 14]"
  using map_erase [OF demo_ok(1), of 12] by auto



text \<open>iteration enumerates the nodes of a well-formed map in key order in both directions and
  ends with \<open>NULL\<close>: \<open>begin\<close> and \<open>end\<close> are the first and last node, \<open>next\<close> and \<open>prev\<close> the
  neighbours, and the size is the number of nodes.\<close>

theorem map_iteration:
  assumes "map_ok key h m xs"
  shows "eaf_map_begin m h = Some (hd_opt xs) \<and> eaf_map_end m h = Some (last_opt xs) \<and>
    unat (eaf_map_size m) = length xs \<and>
    (\<forall>ys n zs. xs = ys @ n # zs \<longrightarrow>
       eaf_map_next n h = Some (hd_opt zs) \<and> eaf_map_prev n h = Some (last_opt ys))"
  using iteration_spec [OF assms] size_spec [OF assms] by blast

theorem map_iteration_witness:
  "eaf_map_begin demo_map demo_rb_heap = Some (Some 11) \<and> eaf_map_next 11 demo_rb_heap = Some (Some 12) \<and>
   eaf_map_next 14 demo_rb_heap = Some None \<and> eaf_map_prev 12 demo_rb_heap = Some (Some 11)"
proof -
  note i = map_iteration [OF demo_ok(1)]
  have n: "[11, 12, 14] = ys @ n # zs \<Longrightarrow> eaf_map_next n demo_rb_heap = Some (hd_opt zs) \<and>
      eaf_map_prev n demo_rb_heap = Some (last_opt ys)" for ys n zs
    using i by blast
  show ?thesis using i n [of "[]" 11 "[12, 14]"] n [of "[11]" 12 "[14]"] n [of "[11, 12]" 14 "[]"] by simp
qed

text \<open>the eight comparison functions of the program decide the order of their keys, so that the
  laws above hold for their maps.\<close>

theorem comparators_order:
  "(message_on_cmp_record pm a b () < 0 \<longleftrightarrow> pm_uuid (pm a) < pm_uuid (pm b)) \<and>
   (net_on_cmp_record pd a b () < 0 \<longleftrightarrow> pd_id (pd a) < pd_id (pd b)) \<and>
   (monitor_cmp_service_record_group ms a b () < 0 \<longleftrightarrow>
      (ms_gid (ms a), ms_sid (ms a)) < (ms_gid (ms b), ms_sid (ms b))) \<and>
   (monitor_cmp_service_record_split ms a b () < 0 \<longleftrightarrow> ms_sid (ms a) < ms_sid (ms b)) \<and>
   (monitor_cmp_dataflow_record md a b () < 0 \<longleftrightarrow> (md_from (md a), md_to (md a)) < (md_from (md b), md_to (md b))) \<and>
   (watchdog_on_cmp_begin tab wd a b () < 0 \<longleftrightarrow>
      (wd_begin (wd a), we_sid (tab (wd_rec (wd a)))) < (wd_begin (wd b), we_sid (tab (wd_rec (wd b))))) \<and>
   (watchdog_on_cmp_end wd a b () < 0 \<longleftrightarrow> (wd_end (wd a), wd_rec (wd a)) < (wd_end (wd b), wd_rec (wd b))) \<and>
   (watchdog_on_cmp_token wd a b () < 0 \<longleftrightarrow> wd_token (wd a) < wd_token (wd b))"
  by (intro conjI message_map.cmp_less net_map.cmp_less monitor_group_map.cmp_less monitor_split_map.cmp_less
      monitor_dataflow_map.cmp_less watchdog_idle_map.cmp_less watchdog_busy_map.cmp_less watchdog_token_map.cmp_less)

text \<open>The upper search is wrong for a key that is present: with the keys 11 to 14 inserted in the order
  12, 11, 14, 13 it returns 14 for the key 12, although 13 is the first greater one.\<close>

lemma find_upper_present:
  "map_option (\<lambda>(m, h). (eaf_map_find_upper m 12 h, eaf_map_next 12 h))
     (insert_all (eaf_map_init (monitor_cmp_service_record_split demo_rec) ()) demo_rb_heap [12, 11, 14, 13]) =
   Some (Some (Some 14), Some (Some 13))"
  by code_simp

end
