(* ===== verification/Service.thy ===== *)
theory Service
  imports Prelude Errno Message
begin

text \<open>
  The runtime of \<open>src/core/service.c\<close>: groups of services, each group run by one thread, their message
  queues and state machines, the calls that send, resume, exit and tear down, and the user code
  (handlers and hooks) the runtime calls.

  State. A \<open>world\<close> holds the global context \<open>g_eaf_ctx\<close>, the message heap of \<open>Message\<close>, the heap of
  queue records and the thread-local slot of the thread that executes. A service is referred to by
  its group and its index in the group. The intrusive lists (\<open>busy_list\<close>, \<open>wait_list\<close>, message queues)
  are HOL lists of indices or record addresses, which the properties of \<open>DList\<close> justify: a node is
  pushed only when it is in no list and erased only from the list it is in.

  Results. \<open>None\<close> is undefined behaviour (null or dangling dereference), a failed assertion, or a call
  that never returns. Each call is one atomic action; the locks therefore have no effect here.

  User code is a parameter \<open>e_ucode\<close> that maps a call to its result and the world it leaves;
  system calls that may fail are parameters too.
\<close>

subsection \<open>Types\<close>

datatype srv_state =
    eaf_service_state_init0 | eaf_service_state_init1 | eaf_service_state_init2
  | eaf_service_state_idle | eaf_service_state_busy | eaf_service_state_yield
  | eaf_service_state_exit0 | eaf_service_state_exit1

datatype ctx_state = eaf_ctx_state_init | eaf_ctx_state_busy | eaf_ctx_state_teardown | eaf_ctx_state_exit

datatype exit_executor = eaf_exit_executor_eaf | eaf_exit_executor_user

record entrypoint =
  msg_table :: "(u32 \<times> fnptr) list"
  ep_on_init :: fnptr
  ep_on_exit :: fnptr

record msgq_record =
  req_fn :: fnptr
  r_from :: u32
  r_to :: u32
  r_service :: "nat \<times> nat"
  r_msg :: addr

record service =
  s_entry :: "entrypoint option"
  s_alive :: bool
  s_lazyload :: bool
  s_id :: u32
  s_branch :: u32
  s_state :: srv_state
  s_unsafe :: u64
  s_cur_msg :: ptr
  s_queue :: "addr list"
  s_capacity :: size_t

record group =
  g_index :: nat
  g_cc0 :: u32
  g_tid :: u64
  g_yield_hook :: fnptr
  g_yield_arg :: u64
  g_cur_run :: "nat option"
  g_busy :: "nat list"
  g_wait :: "nat list"
  g_sem :: nat
  g_services :: "service list"

record hooks =
  on_service_init_before :: fnptr
  on_service_init_after :: fnptr
  on_service_exit_before :: fnptr
  on_service_exit_after :: fnptr
  on_service_yield :: fnptr
  on_service_resume :: fnptr
  on_service_register :: fnptr
  on_message_send_before :: fnptr
  on_message_send_after :: fnptr
  on_message_handle_before :: fnptr
  on_message_handle_after :: fnptr
  on_load_before :: fnptr
  on_load_after :: fnptr
  on_exit_before :: fnptr
  on_exit_after :: fnptr

record summary =
  executor :: exit_executor
  reason :: int

record ctx =
  c_state :: ctx_state
  c_ready :: nat
  c_summary :: summary
  c_failure :: bool
  c_groups :: "group list"
  c_hook :: "(addr \<times> hooks) option"

record world =
  w_ctx :: "ctx option"
  w_mheap :: mheap
  w_recs :: "addr \<Rightarrow> msgq_record option"
  w_tls :: "nat option"

text \<open>Calls out of the runtime: service entry points, message handlers and yield hooks, and the hooks
  an observer has injected.\<close>

datatype ucall =
    UInit fnptr | UExit fnptr
  | UMsg fnptr u32 u32 addr
  | UYield fnptr "nat \<times> nat" u64
  | UHook fnptr
  | UHookId fnptr u32
  | UHookMsg fnptr u32 u32 addr
  | UHookSent fnptr u32 u32 addr int
  | UHookRet fnptr int

fun is_hook :: "ucall \<Rightarrow> bool" where
  "is_hook (UInit f) = False"
| "is_hook (UExit f) = False"
| "is_hook (UMsg f from to m) = False"
| "is_hook (UYield f s arg) = False"
| "is_hook (UHook f) = True"
| "is_hook (UHookId f i) = True"
| "is_hook (UHookMsg f from to m) = True"
| "is_hook (UHookSent f from to m ret) = True"
| "is_hook (UHookRet f ret) = True"

record env =
  e_ucode :: "ucall \<Rightarrow> world \<Rightarrow> (int \<times> world) option"
  e_alloc :: "world \<Rightarrow> ptr"
  e_menv :: "world \<Rightarrow> msg_env"
  e_calloc :: "size_t \<Rightarrow> bool"
  e_ready_init :: int
  e_tls_init :: int
  e_lock_init :: "nat \<Rightarrow> int"
  e_sem_init :: "nat \<Rightarrow> int"
  e_thread_init :: "nat \<Rightarrow> int"
  e_tls_set :: "nat \<Rightarrow> int"
  e_thread_id :: "nat \<Rightarrow> u64"

definition EAF_SERVICE_CC0_YIELD :: u32 where "EAF_SERVICE_CC0_YIELD = 1"
definition PUSH_FLAG_FORCE :: int where "PUSH_FLAG_FORCE = 1"

subsection \<open>Access\<close>

definition grp :: "world \<Rightarrow> nat \<Rightarrow> group option" where
  "grp w gi = (case w_ctx w of None \<Rightarrow> None
     | Some c \<Rightarrow> if gi < length (c_groups c) then Some (c_groups c ! gi) else None)"

definition srv :: "world \<Rightarrow> nat \<times> nat \<Rightarrow> service option" where
  "srv w s = (case grp w (fst s) of None \<Rightarrow> None
     | Some g \<Rightarrow> if snd s < length (g_services g) then Some (g_services g ! snd s) else None)"

definition upd_ctx :: "(ctx \<Rightarrow> ctx) \<Rightarrow> world \<Rightarrow> world" where
  "upd_ctx f w = w\<lparr>w_ctx := map_option f (w_ctx w)\<rparr>"

definition upd_grp :: "nat \<Rightarrow> (group \<Rightarrow> group) \<Rightarrow> world \<Rightarrow> world" where
  "upd_grp gi f = upd_ctx (\<lambda>c. c\<lparr>c_groups := (c_groups c)[gi := f (c_groups c ! gi)]\<rparr>)"

definition upd_srv_g :: "nat \<Rightarrow> (service \<Rightarrow> service) \<Rightarrow> group \<Rightarrow> group" where
  "upd_srv_g si f g = g\<lparr>g_services := (g_services g)[si := f (g_services g ! si)]\<rparr>"

definition upd_srv :: "nat \<times> nat \<Rightarrow> (service \<Rightarrow> service) \<Rightarrow> world \<Rightarrow> world" where
  "upd_srv s f = upd_grp (fst s) (upd_srv_g (snd s) f)"

definition ctx_state_of :: "world \<Rightarrow> ctx_state option" where
  "ctx_state_of w = map_option c_state (w_ctx w)"

definition sem_post :: "nat \<Rightarrow> world \<Rightarrow> world" where
  "sem_post gi = upd_grp gi (\<lambda>g. g\<lparr>g_sem := g_sem g + 1\<rparr>)"

definition sem_trypend :: "nat \<Rightarrow> world \<Rightarrow> world" where
  "sem_trypend gi = upd_grp gi (\<lambda>g. g\<lparr>g_sem := g_sem g - 1\<rparr>)"

subsection \<open>Hooks\<close>

definition hook_fn :: "(hooks \<Rightarrow> fnptr) \<Rightarrow> world \<Rightarrow> fnptr option" where
  "hook_fn f w = (case w_ctx w of None \<Rightarrow> None
     | Some c \<Rightarrow> Some (case c_hook c of None \<Rightarrow> 0 | Some h \<Rightarrow> f (snd h)))"

definition hook_call :: "env \<Rightarrow> (hooks \<Rightarrow> fnptr) \<Rightarrow> (fnptr \<Rightarrow> ucall) \<Rightarrow> world \<Rightarrow> (int \<times> world) option" where
  "hook_call E f u w = do { p \<leftarrow> hook_fn f w; if p = 0 then Some (0, w) else e_ucode E (u p) w }"

definition hook_message_handle_before :: "env \<Rightarrow> addr \<Rightarrow> world \<Rightarrow> (int \<times> world) option" where
  "hook_message_handle_before E r w = do {
     m \<leftarrow> w_recs w r;
     hook_call E on_message_handle_before (\<lambda>p. UHookMsg p (r_from m) (r_to m) (r_msg m)) w }"

definition hook_message_handle_after :: "env \<Rightarrow> addr \<Rightarrow> world \<Rightarrow> world option" where
  "hook_message_handle_after E r w = do {
     m \<leftarrow> w_recs w r;
     (_, w) \<leftarrow> hook_call E on_message_handle_after (\<lambda>p. UHookMsg p (r_from m) (r_to m) (r_msg m)) w;
     Some w }"

definition hook_service :: "env \<Rightarrow> (hooks \<Rightarrow> fnptr) \<Rightarrow> u32 \<Rightarrow> world \<Rightarrow> world option" where
  "hook_service E f i w = do { (_, w) \<leftarrow> hook_call E f (\<lambda>p. UHookId p i) w; Some w }"

definition hook_service_yield :: "env \<Rightarrow> u32 \<Rightarrow> world \<Rightarrow> world option" where
  "hook_service_yield E = hook_service E on_service_yield"

definition hook_service_resume :: "env \<Rightarrow> u32 \<Rightarrow> world \<Rightarrow> world option" where
  "hook_service_resume E = hook_service E on_service_resume"

definition hook_service_init_before :: "env \<Rightarrow> u32 \<Rightarrow> world \<Rightarrow> world option" where
  "hook_service_init_before E = hook_service E on_service_init_before"

definition hook_service_init_after :: "env \<Rightarrow> u32 \<Rightarrow> world \<Rightarrow> world option" where
  "hook_service_init_after E = hook_service E on_service_init_after"

definition hook_service_exit_before :: "env \<Rightarrow> u32 \<Rightarrow> world \<Rightarrow> world option" where
  "hook_service_exit_before E = hook_service E on_service_exit_before"

definition hook_service_exit_after :: "env \<Rightarrow> u32 \<Rightarrow> world \<Rightarrow> world option" where
  "hook_service_exit_after E = hook_service E on_service_exit_after"

definition hook_service_register :: "env \<Rightarrow> u32 \<Rightarrow> world \<Rightarrow> (int \<times> world) option" where
  "hook_service_register E i = hook_call E on_service_register (\<lambda>p. UHookId p i)"

definition hook_message_send_before :: "env \<Rightarrow> u32 \<Rightarrow> u32 \<Rightarrow> addr \<Rightarrow> world \<Rightarrow> (int \<times> world) option" where
  "hook_message_send_before E from to m = hook_call E on_message_send_before (\<lambda>p. UHookMsg p from to m)"

definition hook_message_send_after :: "env \<Rightarrow> u32 \<Rightarrow> u32 \<Rightarrow> addr \<Rightarrow> int \<Rightarrow> world \<Rightarrow> world option" where
  "hook_message_send_after E from to m ret w = do {
     (_, w) \<leftarrow> hook_call E on_message_send_after (\<lambda>p. UHookSent p from to m ret) w; Some w }"

definition hook_cleanup_before :: "env \<Rightarrow> world \<Rightarrow> world option" where
  "hook_cleanup_before E w = do { (_, w) \<leftarrow> hook_call E on_exit_before UHook w; Some w }"

definition hook_cleanup_after :: "env \<Rightarrow> (addr \<times> hooks) option \<Rightarrow> world \<Rightarrow> world option" where
  "hook_cleanup_after E hook w =
     (case hook of None \<Rightarrow> Some w
      | Some h \<Rightarrow> if on_exit_after (snd h) = 0 then Some w
                 else do { (_, w) \<leftarrow> e_ucode E (UHook (on_exit_after (snd h))) w; Some w })"

definition hook_load_before :: "env \<Rightarrow> world \<Rightarrow> world option" where
  "hook_load_before E w = do { (_, w) \<leftarrow> hook_call E on_load_before UHook w; Some w }"

definition hook_load_after :: "env \<Rightarrow> int \<Rightarrow> world \<Rightarrow> world option" where
  "hook_load_after E ret w = do { (_, w) \<leftarrow> hook_call E on_load_after (\<lambda>p. UHookRet p ret) w; Some w }"

subsection \<open>Finding services\<close>

fun find_in_services :: "u32 \<Rightarrow> service list \<Rightarrow> nat \<Rightarrow> nat option" where
  "find_in_services i [] j = None"
| "find_in_services i (s # ss) j = (if s_id s \<noteq> i then find_in_services i ss (j + 1) else Some j)"

fun find_in_groups :: "u32 \<Rightarrow> group list \<Rightarrow> nat \<Rightarrow> (nat \<times> nat) option" where
  "find_in_groups i [] k = None"
| "find_in_groups i (g # gs) k =
     (case find_in_services i (g_services g) 0 of Some j \<Rightarrow> Some (k, j) | None \<Rightarrow> find_in_groups i gs (k + 1))"

definition eaf_service_find_service :: "u32 \<Rightarrow> world \<Rightarrow> (nat \<times> nat) option option" where
  "eaf_service_find_service i w = do {
     c \<leftarrow> w_ctx w;
     case find_in_groups i (c_groups c) 0 of
       None \<Rightarrow> Some None
     | Some s \<Rightarrow> do { v \<leftarrow> srv w s; Some (if s_entry v \<noteq> None then Some s else None) } }"

subsection \<open>States and the two lists of a group\<close>

definition in_wait_list :: "srv_state \<Rightarrow> bool" where
  "in_wait_list st \<longleftrightarrow> st \<in> {eaf_service_state_init0, eaf_service_state_init2, eaf_service_state_idle,
     eaf_service_state_yield, eaf_service_state_exit1}"

definition set_state_g :: "nat \<Rightarrow> srv_state \<Rightarrow> group \<Rightarrow> group" where
  "set_state_g si st g =
     (let g1 = (if in_wait_list (s_state (g_services g ! si))
                then g\<lparr>g_wait := remove1 si (g_wait g)\<rparr> else g\<lparr>g_busy := remove1 si (g_busy g)\<rparr>);
          g2 = (if in_wait_list st then g1\<lparr>g_wait := g_wait g1 @ [si]\<rparr> else g1\<lparr>g_busy := g_busy g1 @ [si]\<rparr>) in
      upd_srv_g si (\<lambda>s. s\<lparr>s_state := st\<rparr>) g2)"

definition eaf_service_set_state :: "nat \<times> nat \<Rightarrow> srv_state \<Rightarrow> world \<Rightarrow> world" where
  "eaf_service_set_state s st = upd_grp (fst s) (set_state_g (snd s) st)"

definition eaf_get_first_busy_service :: "nat \<Rightarrow> world \<Rightarrow> nat option option" where
  "eaf_get_first_busy_service gi w = map_option (\<lambda>g. hd_opt (g_busy g)) (grp w gi)"

definition eaf_service_reset_yield_branch :: "nat \<times> nat \<Rightarrow> world \<Rightarrow> world" where
  "eaf_service_reset_yield_branch s = upd_srv s (\<lambda>v. v\<lparr>s_branch := 0\<rparr>)"

definition eaf_service_destroy_msg_record :: "addr \<Rightarrow> world \<Rightarrow> world option" where
  "eaf_service_destroy_msg_record r w = do {
     m \<leftarrow> w_recs w r;
     H \<leftarrow> eaf_msg_dec_ref (w_mheap w) (r_msg m);
     Some (w\<lparr>w_mheap := H, w_recs := (w_recs w)(r := None)\<rparr>) }"

definition eaf_service_reset :: "nat \<times> nat \<Rightarrow> world \<Rightarrow> world option" where
  "eaf_service_reset s w = do {
     let w = eaf_service_reset_yield_branch s w;
     v \<leftarrow> srv w s;
     r \<leftarrow> s_cur_msg v;
     w \<leftarrow> eaf_service_destroy_msg_record r w;
     Some (upd_srv s (\<lambda>v. v\<lparr>s_cur_msg := None\<rparr>) w) }"

definition eaf_group_set_cur_run :: "nat \<Rightarrow> nat \<Rightarrow> world \<Rightarrow> world" where
  "eaf_group_set_cur_run gi si = upd_grp gi (\<lambda>g. g\<lparr>g_cur_run := Some si\<rparr>)"

definition eaf_group_call_yield_hook :: "env \<Rightarrow> nat \<Rightarrow> world \<Rightarrow> world option" where
  "eaf_group_call_yield_hook E gi w = do {
     g \<leftarrow> grp w gi;
     if g_yield_hook g = 0 then Some w
     else do {
       si \<leftarrow> g_cur_run g;
       (_, w) \<leftarrow> e_ucode E (UYield (g_yield_hook g) (gi, si) (g_yield_arg g)) w;
       Some w } }"

definition eaf_group_check_cc0 :: "nat \<Rightarrow> u32 \<Rightarrow> world \<Rightarrow> bool option" where
  "eaf_group_check_cc0 gi m w = map_option (\<lambda>g. g_cc0 g AND m \<noteq> 0) (grp w gi)"

definition eaf_group_clear_cc0 :: "nat \<Rightarrow> world \<Rightarrow> world" where
  "eaf_group_clear_cc0 gi = upd_grp gi (\<lambda>g. g\<lparr>g_cc0 := 0\<rparr>)"

subsection \<open>Running a service\<close>

definition eaf_service_resume_message :: "env \<Rightarrow> nat \<times> nat \<Rightarrow> world \<Rightarrow> world option" where
  "eaf_service_resume_message E s w = do {
     v \<leftarrow> srv w s;
     r \<leftarrow> s_cur_msg v;
     m \<leftarrow> w_recs w r;
     full \<leftarrow> w_mheap w (r_msg m);
     (_, w) \<leftarrow> (case eaf_msg_get_type (msg full) of
        eaf_msg_type_req \<Rightarrow> e_ucode E (UMsg (req_fn m) (r_from m) (r_to m) (r_msg m)) w
      | eaf_msg_type_rsp \<Rightarrow>
          let rsp_fn = eaf_msg_get_rsp_fn (msg full) in
          if rsp_fn \<noteq> 0 then e_ucode E (UMsg rsp_fn (r_from m) (r_to m) (r_msg m)) w else Some (0, w));
     yielded \<leftarrow> eaf_group_check_cc0 (fst s) EAF_SERVICE_CC0_YIELD w;
     if yielded then do {
       let w = eaf_service_set_state s eaf_service_state_yield w;
       w \<leftarrow> eaf_group_call_yield_hook E (fst s) w;
       hook_service_yield E (s_id v) w }
     else do {
       w \<leftarrow> hook_message_handle_after E r w;
       eaf_service_reset s w } }"

definition eaf_group_finish_service_init :: "nat \<times> nat \<Rightarrow> world \<Rightarrow> world option" where
  "eaf_group_finish_service_init s w = do {
     let w = eaf_service_set_state s eaf_service_state_idle w;
     v \<leftarrow> srv w s;
     Some (if 0 < length (s_queue v) then eaf_service_set_state s eaf_service_state_busy w else w) }"

definition eaf_do_service_init :: "env \<Rightarrow> nat \<times> nat \<Rightarrow> world \<Rightarrow> world option" where
  "eaf_do_service_init E s w = do {
     let w = eaf_group_clear_cc0 (fst s) w;
     v \<leftarrow> srv w s;
     w \<leftarrow> hook_service_init_before E (s_id v) w;
     v \<leftarrow> srv w s;
     entry \<leftarrow> s_entry v;
     (_, w) \<leftarrow> e_ucode E (UInit (ep_on_init entry)) w;
     yielded \<leftarrow> eaf_group_check_cc0 (fst s) EAF_SERVICE_CC0_YIELD w;
     if yielded then None
     else do {
       let w = eaf_service_reset_yield_branch s w;
       w \<leftarrow> hook_service_init_after E (s_id v) w;
       eaf_group_finish_service_init s w } }"

definition eaf_handle_new_message :: "env \<Rightarrow> nat \<times> nat \<Rightarrow> world \<Rightarrow> world option" where
  "eaf_handle_new_message E s w = do {
     v \<leftarrow> srv w s;
     w \<leftarrow> (if s_state v = eaf_service_state_init1 then eaf_do_service_init E s w else Some w);
     v \<leftarrow> srv w s;
     if s_state v \<noteq> eaf_service_state_busy then None
     else if s_cur_msg v \<noteq> None then eaf_service_resume_message E s w
     else case s_queue v of
       [] \<Rightarrow> Some (eaf_service_set_state s eaf_service_state_idle w)
     | r # q \<Rightarrow> do {
         let w = upd_srv s (\<lambda>v. v\<lparr>s_queue := q, s_cur_msg := Some r\<rparr>) w;
         (ret, w) \<leftarrow> hook_message_handle_before E r w;
         if ret < 0 then eaf_service_reset s w
         else eaf_service_resume_message E s w } }"

text \<open>One turn of the event loop. \<open>None\<close> inside: no service is busy and the thread goes on to wait in
  \<open>eaf_compat_sem_pend\<close>. Looking for a busy service and waiting are two steps of the thread, between
  which others may run; \<open>eaf_compat_sem_pend\<close> without a time limit returns when it could take a post,
  and blocks (\<open>None\<close> inside) as long as there is none.\<close>

definition eaf_service_thread_loop :: "env \<Rightarrow> nat \<Rightarrow> world \<Rightarrow> world option option" where
  "eaf_service_thread_loop E gi w = do {
     first \<leftarrow> eaf_get_first_busy_service gi w;
     case first of
       None \<Rightarrow> Some None
     | Some si \<Rightarrow> do {
         let w = sem_trypend gi w;
         let w = eaf_group_set_cur_run gi si w;
         let w = eaf_group_clear_cc0 gi w;
         w \<leftarrow> eaf_handle_new_message E (gi, si) w;
         Some (Some w) } }"

definition sem_pend :: "nat \<Rightarrow> world \<Rightarrow> world option option" where
  "sem_pend gi w = map_option (\<lambda>g. if g_sem g = 0 then None else Some (sem_trypend gi w)) (grp w gi)"

end
