(* ===== verification/ServiceApi.thy ===== *)
theory ServiceApi
  imports Service
begin

text \<open>
  The calls of \<open>service.c\<close> that user code and the main thread make: sending, resuming, registering,
  exit and teardown, initialisation, loading and cleanup, and the body of the group thread.
\<close>

subsection \<open>Sending\<close>

definition eaf_service_push_msg ::
  "env \<Rightarrow> nat \<times> nat \<Rightarrow> addr \<Rightarrow> u32 \<Rightarrow> u32 \<Rightarrow> (msgq_record \<Rightarrow> msgq_record) option \<Rightarrow> int \<Rightarrow> world \<Rightarrow> (int \<times> world) option" where
  "eaf_service_push_msg E s m from to on_create flag w = do {
     v \<leftarrow> srv w s;
     if flag \<noteq> PUSH_FLAG_FORCE \<and> s_capacity v \<le> of_nat (length (s_queue v)) then Some (eaf_errno_overflow, w)
     else case e_alloc E w of
       None \<Rightarrow> Some (eaf_errno_memory, w)
     | Some r \<Rightarrow> do {
         let rc = \<lparr>req_fn = 0, r_from = from, r_to = to, r_service = s, r_msg = m\<rparr>;
         H \<leftarrow> eaf_msg_add_ref (w_mheap w) m;
         let rc = (case on_create of None \<Rightarrow> rc | Some f \<Rightarrow> f rc);
         let w = w\<lparr>w_mheap := H, w_recs := (w_recs w)(r \<mapsto> rc)\<rparr>;
         v \<leftarrow> srv w s;
         if s_state v = eaf_service_state_exit0 then do {
           H \<leftarrow> eaf_msg_dec_ref (w_mheap w) m;
           Some (eaf_errno_state, w\<lparr>w_mheap := H, w_recs := (w_recs w)(r := None)\<rparr>) }
         else do {
           let w = (case s_state v of
                eaf_service_state_init2 \<Rightarrow> eaf_service_set_state s eaf_service_state_init1 w
              | eaf_service_state_idle \<Rightarrow> eaf_service_set_state s eaf_service_state_busy w
              | _ \<Rightarrow> w);
           let w = upd_srv s (\<lambda>v. v\<lparr>s_queue := s_queue v @ [r]\<rparr>) w;
           let w = sem_post (fst s) w;
           Some (eaf_errno_success, w) } } }"

fun find_handler :: "u32 \<Rightarrow> (u32 \<times> fnptr) list \<Rightarrow> fnptr" where
  "find_handler i [] = 0"
| "find_handler i ((j, f) # t) = (if j = i then f else find_handler i t)"

definition eaf_send_req_impl :: "env \<Rightarrow> u32 \<Rightarrow> u32 \<Rightarrow> addr \<Rightarrow> world \<Rightarrow> (int \<times> world) option" where
  "eaf_send_req_impl E from to req w = do {
     full \<leftarrow> w_mheap w req;
     let w = w\<lparr>w_mheap := (w_mheap w)(req \<mapsto> full\<lparr>msg := (msg full)\<lparr>msg_from := from\<rparr>\<rparr>)\<rparr>;
     found \<leftarrow> eaf_service_find_service to w;
     case found of
       None \<Rightarrow> Some (eaf_errno_notfound, w)
     | Some s \<Rightarrow> do {
         v \<leftarrow> srv w s;
         entry \<leftarrow> s_entry v;
         let msg_proc = find_handler (msg_id (msg full)) (msg_table entry);
         if msg_proc = 0 then Some (eaf_errno_notfound, w)
         else eaf_service_push_msg E s req from to (Some (\<lambda>r. r\<lparr>req_fn := msg_proc\<rparr>)) 0 w } }"

definition eaf_send_rsp_impl :: "env \<Rightarrow> u32 \<Rightarrow> u32 \<Rightarrow> addr \<Rightarrow> world \<Rightarrow> (int \<times> world) option" where
  "eaf_send_rsp_impl E from to rsp w = do {
     found \<leftarrow> eaf_service_find_service to w;
     case found of
       None \<Rightarrow> Some (eaf_errno_notfound, w)
     | Some s \<Rightarrow> eaf_service_push_msg E s rsp from to None PUSH_FLAG_FORCE w }"

definition eaf_send_req :: "env \<Rightarrow> u32 \<Rightarrow> u32 \<Rightarrow> addr \<Rightarrow> world \<Rightarrow> (int \<times> world) option" where
  "eaf_send_req E from to req w =
     (if ctx_state_of w \<noteq> Some eaf_ctx_state_busy then Some (eaf_errno_state, w)
      else do {
        (ret, w) \<leftarrow> hook_message_send_before E from to req w;
        if ret < 0 then Some (ret, w)
        else do {
          (ret, w) \<leftarrow> eaf_send_req_impl E from to req w;
          w \<leftarrow> hook_message_send_after E from to req ret w;
          Some (ret, w) } })"

definition eaf_send_rsp :: "env \<Rightarrow> u32 \<Rightarrow> u32 \<Rightarrow> addr \<Rightarrow> world \<Rightarrow> (int \<times> world) option" where
  "eaf_send_rsp E from to rsp w =
     (if ctx_state_of w \<noteq> Some eaf_ctx_state_busy then Some (eaf_errno_state, w)
      else do {
        (ret, w) \<leftarrow> hook_message_send_before E from to rsp w;
        if ret < 0 then Some (ret, w)
        else do {
          (ret, w) \<leftarrow> eaf_send_rsp_impl E from to rsp w;
          w \<leftarrow> hook_message_send_after E from to rsp ret w;
          Some (ret, w) } })"

subsection \<open>Resuming, registering, hooks\<close>

definition eaf_resume :: "env \<Rightarrow> u32 \<Rightarrow> world \<Rightarrow> (int \<times> world) option" where
  "eaf_resume E srv_id w = do {
     found \<leftarrow> eaf_service_find_service srv_id w;
     case found of
       None \<Rightarrow> Some (eaf_errno_notfound, w)
     | Some s \<Rightarrow> do {
         w \<leftarrow> hook_service_resume E srv_id w;
         v \<leftarrow> srv w s;
         if s_state v = eaf_service_state_yield
         then Some (eaf_errno_success, sem_post (fst s) (eaf_service_set_state s eaf_service_state_busy w))
         else Some (eaf_errno_state, w) } }"

text \<open>The loops of \<open>eaf_register\<close>: the inner one stops at the first match, the outer one goes on.\<close>

fun last_in_groups :: "u32 \<Rightarrow> group list \<Rightarrow> nat \<Rightarrow> (nat \<times> nat) option \<Rightarrow> (nat \<times> nat) option" where
  "last_in_groups i [] k acc = acc"
| "last_in_groups i (g # gs) k acc =
     last_in_groups i gs (k + 1)
       (case find_in_services i (g_services g) 0 of Some j \<Rightarrow> Some (k, j) | None \<Rightarrow> acc)"

definition eaf_register :: "env \<Rightarrow> u32 \<Rightarrow> entrypoint \<Rightarrow> world \<Rightarrow> (int \<times> world) option" where
  "eaf_register E i entry w =
     (if ctx_state_of w \<noteq> Some eaf_ctx_state_init then Some (eaf_errno_state, w)
      else if ep_on_init entry = 0 \<or> ep_on_exit entry = 0 then Some (eaf_errno_invalid, w)
      else do {
        c \<leftarrow> w_ctx w;
        case last_in_groups i (c_groups c) 0 None of
          None \<Rightarrow> Some (eaf_errno_notfound, w)
        | Some s \<Rightarrow> do {
            v \<leftarrow> srv w s;
            if s_entry v \<noteq> None then Some (eaf_errno_duplicate, w)
            else do {
              (ret, w) \<leftarrow> hook_service_register E i w;
              if ret < 0 then Some (ret, w)
              else Some (eaf_errno_success, upd_srv s (\<lambda>v. v\<lparr>s_entry := Some entry\<rparr>) w) } } })"

definition eaf_inject :: "addr \<times> hooks \<Rightarrow> size_t \<Rightarrow> size_t \<Rightarrow> world \<Rightarrow> int \<times> world" where
  "eaf_inject hook sz sizeof_hook w =
     (case w_ctx w of
        None \<Rightarrow> (eaf_errno_state, w)
      | Some c \<Rightarrow>
          if sz \<noteq> sizeof_hook then (eaf_errno_invalid, w)
          else if c_hook c \<noteq> None then (eaf_errno_duplicate, w)
          else (eaf_errno_success, upd_ctx (\<lambda>c. c\<lparr>c_hook := Some hook\<rparr>) w))"

definition eaf_uninject :: "ptr \<Rightarrow> world \<Rightarrow> int \<times> world" where
  "eaf_uninject hook w =
     (case w_ctx w of
        None \<Rightarrow> (eaf_errno_state, w)
      | Some c \<Rightarrow>
          if map_option fst (c_hook c) \<noteq> hook then (eaf_errno_invalid, w)
          else (eaf_errno_success, upd_ctx (\<lambda>c. c\<lparr>c_hook := None\<rparr>) w))"

subsection \<open>The current service\<close>

definition eaf_get_current_service :: "world \<Rightarrow> (nat \<times> nat) option" where
  "eaf_get_current_service w = do {
     gi \<leftarrow> w_tls w;
     g \<leftarrow> grp w gi;
     si \<leftarrow> g_cur_run g;
     Some (gi, si) }"

text \<open>The returned locals are represented by the position of the service.\<close>

definition eaf_service_get_local :: "world \<Rightarrow> (nat \<times> nat) option" where
  "eaf_service_get_local w = (if w_ctx w = None then None else eaf_get_current_service w)"

definition eaf_service_self :: "world \<Rightarrow> u32" where
  "eaf_service_self w =
     (case eaf_service_get_local w of None \<Rightarrow> - 1
      | Some s \<Rightarrow> (case srv w s of None \<Rightarrow> - 1 | Some v \<Rightarrow> s_id v))"

definition eaf_group_begin :: "world \<Rightarrow> nat option" where
  "eaf_group_begin w = do { c \<leftarrow> w_ctx w; if c_groups c = [] then None else Some 0 }"

definition eaf_group_size :: "world \<Rightarrow> nat option" where
  "eaf_group_size w = map_option (\<lambda>c. length (c_groups c)) (w_ctx w)"

definition eaf_group_next :: "nat \<Rightarrow> world \<Rightarrow> nat option option" where
  "eaf_group_next gi w = do {
     c \<leftarrow> w_ctx w;
     g \<leftarrow> grp w gi;
     Some (if length (c_groups c) - 1 \<le> g_index g then None else Some (g_index g + 1)) }"

definition eaf_service_begin :: "nat \<Rightarrow> world \<Rightarrow> (nat \<times> nat) option" where
  "eaf_service_begin gi w = do { g \<leftarrow> grp w gi; if g_services g = [] then None else Some (gi, 0) }"

definition eaf_service_next :: "nat \<Rightarrow> nat \<times> nat \<Rightarrow> world \<Rightarrow> (nat \<times> nat) option option" where
  "eaf_service_next gi s w = do {
     g \<leftarrow> grp w gi;
     Some (if length (g_services g) - 1 \<le> snd s then None else Some (gi, snd s + 1)) }"

definition eaf_message_queue_size :: "nat \<times> nat \<Rightarrow> world \<Rightarrow> nat option" where
  "eaf_message_queue_size s w = map_option (\<lambda>v. length (s_queue v)) (srv w s)"

definition eaf_message_queue_capacity :: "nat \<times> nat \<Rightarrow> world \<Rightarrow> size_t option" where
  "eaf_message_queue_capacity s w = map_option s_capacity (srv w s)"

subsection \<open>Exit and teardown\<close>

definition post_all :: "world \<Rightarrow> world" where
  "post_all = upd_ctx (\<lambda>c. c\<lparr>c_groups := map (\<lambda>g. g\<lparr>g_sem := g_sem g + 1\<rparr>) (c_groups c)\<rparr>)"

definition eaf_exit_impl :: "env \<Rightarrow> exit_executor \<Rightarrow> int \<Rightarrow> bool \<Rightarrow> world \<Rightarrow> (int \<times> world) option" where
  "eaf_exit_impl E ex rs teardown w = do {
     c \<leftarrow> w_ctx w;
     w \<leftarrow> (if c_state c \<noteq> eaf_ctx_state_teardown \<and> c_state c \<noteq> eaf_ctx_state_exit
          then hook_cleanup_before E w else Some w);
     let w = (if \<not> teardown then upd_ctx (\<lambda>c. c\<lparr>c_summary := \<lparr>executor = ex, reason = rs\<rparr>\<rparr>) w else w);
     let w = upd_ctx (\<lambda>c. c\<lparr>c_state := (if teardown then eaf_ctx_state_teardown else eaf_ctx_state_exit)\<rparr>) w;
     Some (eaf_errno_success, post_all w) }"

definition eaf_teardown :: "env \<Rightarrow> world \<Rightarrow> (int \<times> world) option" where
  "eaf_teardown E w =
     (if w_ctx w = None \<or> ctx_state_of w = Some eaf_ctx_state_teardown then Some (eaf_errno_state, w)
      else eaf_exit_impl E eaf_exit_executor_user 0 True w)"

definition eaf_exit :: "env \<Rightarrow> int \<Rightarrow> world \<Rightarrow> (int \<times> world) option" where
  "eaf_exit E rs w =
     (if w_ctx w = None \<or> ctx_state_of w = Some eaf_ctx_state_exit then Some (eaf_errno_state, w)
      else eaf_exit_impl E eaf_exit_executor_user rs False w)"

fun group_exit_loop :: "env \<Rightarrow> nat \<Rightarrow> nat \<Rightarrow> world \<Rightarrow> world option" where
  "group_exit_loop E gi 0 w = Some w"
| "group_exit_loop E gi (Suc i) w = do {
     v \<leftarrow> srv w (gi, i);
     case s_entry v of
       None \<Rightarrow> group_exit_loop E gi i w
     | Some entry \<Rightarrow>
         if s_state v = eaf_service_state_exit1 then group_exit_loop E gi i w
         else do {
           let w = eaf_group_set_cur_run gi i w;
           let w = eaf_service_set_state (gi, i) eaf_service_state_exit0 w;
           w \<leftarrow> hook_service_exit_before E (s_id v) w;
           (_, w) \<leftarrow> e_ucode E (UExit (ep_on_exit entry)) w;
           w \<leftarrow> hook_service_exit_after E (s_id v) w;
           let w = eaf_service_set_state (gi, i) eaf_service_state_exit1 w;
           group_exit_loop E gi i w } }"

definition eaf_group_exit :: "env \<Rightarrow> nat \<Rightarrow> nat \<Rightarrow> world \<Rightarrow> world option" where
  "eaf_group_exit E gi max_idx w = do {
     g \<leftarrow> grp w gi;
     group_exit_loop E gi (if length (g_services g) < max_idx then length (g_services g) else max_idx) w }"

text \<open>\<open>for (idx = 0; ...)\<close> over the services, with \<open>n\<close> services left to visit.\<close>

fun init_loop :: "env \<Rightarrow> nat \<Rightarrow> nat \<Rightarrow> nat \<Rightarrow> nat \<Rightarrow> world \<Rightarrow> (nat \<times> world) option" where
  "init_loop E gi idx 0 counter w = Some (counter, w)"
| "init_loop E gi idx (Suc n) counter w = do {
     let w = eaf_group_set_cur_run gi idx w;
     v \<leftarrow> srv w (gi, idx);
     if s_state v \<noteq> eaf_service_state_init1 then init_loop E gi (idx + 1) n counter w
     else do {
       w \<leftarrow> eaf_do_service_init E (gi, idx) w;
       init_loop E gi (idx + 1) n (counter + 1) w } }"

definition eaf_group_init_necessary :: "env \<Rightarrow> nat \<Rightarrow> world \<Rightarrow> (nat \<times> world) option" where
  "eaf_group_init_necessary E gi w = do { g \<leftarrow> grp w gi; init_loop E gi 0 (length (g_services g)) 0 w }"

definition eaf_service_teardown_handle_message :: "env \<Rightarrow> nat \<times> nat \<Rightarrow> addr \<Rightarrow> world \<Rightarrow> world option" where
  "eaf_service_teardown_handle_message E s r w = do {
     m \<leftarrow> w_recs w r;
     full \<leftarrow> w_mheap w (r_msg m);
     w \<leftarrow> (case eaf_msg_get_type (msg full) of
        eaf_msg_type_req \<Rightarrow> do {
          let (rsp, H) = eaf_msg_create_rsp (e_menv E w) (w_mheap w) (msg full) 0;
          a \<leftarrow> rsp;
          rfull \<leftarrow> H a;
          rmsg \<leftarrow> eaf_msg_set_receipt (msg rfull) (word_of_int eaf_errno_state);
          let w = w\<lparr>w_mheap := H(a \<mapsto> rfull\<lparr>msg := rmsg\<rparr>)\<rparr>;
          v \<leftarrow> srv w s;
          (_, w) \<leftarrow> eaf_send_rsp E (s_id v) (r_from m) a w;
          H \<leftarrow> eaf_msg_dec_ref (w_mheap w) a;
          Some (w\<lparr>w_mheap := H\<rparr>) }
      | eaf_msg_type_rsp \<Rightarrow> Some w);
     eaf_service_destroy_msg_record r w }"

partial_function (option) teardown_drain :: "env \<Rightarrow> nat \<times> nat \<Rightarrow> world \<Rightarrow> world option" where
  "teardown_drain E s w = do {
     v \<leftarrow> srv w s;
     case s_queue v of
       [] \<Rightarrow> Some w
     | r # q \<Rightarrow> do {
         let w = upd_srv s (\<lambda>v. v\<lparr>s_queue := q\<rparr>) w;
         w \<leftarrow> eaf_service_teardown_handle_message E s r w;
         teardown_drain E s w } }"

declare teardown_drain.simps [code]

definition eaf_service_teardown_cleanup_msgq :: "env \<Rightarrow> nat \<times> nat \<Rightarrow> world \<Rightarrow> world option" where
  "eaf_service_teardown_cleanup_msgq E s w = do {
     v \<leftarrow> srv w s;
     w \<leftarrow> (case s_cur_msg v of
        None \<Rightarrow> Some w
      | Some r \<Rightarrow> do {
          w \<leftarrow> eaf_service_teardown_handle_message E s r w;
          Some (upd_srv s (\<lambda>v. v\<lparr>s_cur_msg := None\<rparr>) w) });
     teardown_drain E s w }"

fun teardown_loop :: "env \<Rightarrow> nat \<Rightarrow> nat \<Rightarrow> nat \<Rightarrow> world \<Rightarrow> world option" where
  "teardown_loop E gi i 0 w = Some w"
| "teardown_loop E gi i (Suc n) w = do {
     v \<leftarrow> srv w (gi, i);
     case s_entry v of
       None \<Rightarrow> teardown_loop E gi (i + 1) n w
     | Some entry \<Rightarrow>
         if s_alive v then teardown_loop E gi (i + 1) n w
         else do {
           let w = eaf_service_set_state (gi, i) eaf_service_state_exit0 w;
           (_, w) \<leftarrow> e_ucode E (UExit (ep_on_exit entry)) w;
           w \<leftarrow> eaf_service_teardown_cleanup_msgq E (gi, i) w;
           let w = eaf_service_set_state (gi, i) eaf_service_state_exit1 w;
           teardown_loop E gi (i + 1) n w } }"

definition eaf_service_teardown :: "env \<Rightarrow> nat \<Rightarrow> world \<Rightarrow> world option" where
  "eaf_service_teardown E gi w = do { g \<leftarrow> grp w gi; teardown_loop E gi 0 (length (g_services g)) w }"

end
