(* ===== verification/ServiceLife.thy ===== *)
theory ServiceLife
  imports ServiceApi
begin

text \<open>
  The life cycle of the runtime in \<open>service.c\<close>: memory layout and initialisation, loading, the body
  of a group thread as a state machine, cleanup, and the system as a step relation between worlds in
  which the threads and the outside interleave at the granularity of calls and loop turns.
\<close>

subsection \<open>Memory layout\<close>

record service_table =
  srv_id :: u32
  msgq_size :: u32
  attribute :: u32

type_synonym group_table = "service_table list"

definition eaf_service_attribute_alive :: u32 where "eaf_service_attribute_alive = 1"
definition eaf_service_attribute_lazyload :: u32 where "eaf_service_attribute_lazyload = 2"

record sizes =
  sizeof_ctx :: size_t
  sizeof_ptr :: size_t
  sizeof_group :: size_t
  sizeof_service :: size_t

definition eaf_init_calculate_malloc_size :: "sizes \<Rightarrow> group_table list \<Rightarrow> size_t" where
  "eaf_init_calculate_malloc_size Z info =
     foldl (\<lambda>malloc_size t. malloc_size + (sizeof_group Z + sizeof_service Z * of_nat (length t)))
       (sizeof_ctx Z + sizeof_ptr Z * of_nat (length info)) info"

text \<open>The offsets of \<open>group.table[0]\<close>, \<open>group.table[1]\<close>, \<open>\<dots>\<close> from the start of the block. The
  first is computed and stored even when there is no group, which writes outside the block: \<open>None\<close>.\<close>

fun fix_address_loop :: "sizes \<Rightarrow> size_t \<Rightarrow> group_table list \<Rightarrow> size_t list" where
  "fix_address_loop Z a [] = []"
| "fix_address_loop Z a [t] = [a]"
| "fix_address_loop Z a (t # u # ts) =
     a # fix_address_loop Z (a + sizeof_group Z + sizeof_service Z * of_nat (length t)) (u # ts)"

definition eaf_init_fix_address :: "sizes \<Rightarrow> group_table list \<Rightarrow> size_t list option" where
  "eaf_init_fix_address Z info =
     (if info = [] then None
      else Some (fix_address_loop Z (sizeof_ctx Z + sizeof_ptr Z * of_nat (length info)) info))"

subsection \<open>Initialisation\<close>

definition zero_group :: "nat \<Rightarrow> group" where
  "zero_group i = \<lparr>g_index = i, g_cc0 = 0, g_tid = 0, g_yield_hook = 0, g_yield_arg = 0, g_cur_run = None,
     g_busy = [], g_wait = [], g_sem = 0, g_services = []\<rparr>"

definition zero_ctx :: "nat \<Rightarrow> ctx" where
  "zero_ctx n = \<lparr>c_state = eaf_ctx_state_init, c_ready = 0,
     c_summary = \<lparr>executor = eaf_exit_executor_eaf, reason = 0\<rparr>, c_failure = False,
     c_groups = replicate n (zero_group 0), c_hook = None\<rparr>"

definition eaf_init_service :: "service_table \<Rightarrow> group \<Rightarrow> group" where
  "eaf_init_service info g =
     (let s = \<lparr>s_entry = None,
            s_alive = (attribute info AND eaf_service_attribute_alive \<noteq> 0),
            s_lazyload = (attribute info AND eaf_service_attribute_lazyload \<noteq> 0),
            s_id = srv_id info, s_branch = 0, s_state = eaf_service_state_init0, s_unsafe = 0,
            s_cur_msg = None, s_queue = [], s_capacity = ucast (msgq_size info)\<rparr> in
      g\<lparr>g_services := g_services g @ [s], g_wait := g_wait g @ [length (g_services g)]\<rparr>)"

text \<open>On an error the threads of the groups before \<open>idx\<close> are joined while the state still is
  \<open>eaf_ctx_state_init\<close>: they never leave their first loop, so unless there are none the call does
  not return.\<close>

fun init_group_loop :: "env \<Rightarrow> nat \<Rightarrow> group_table list \<Rightarrow> world \<Rightarrow> (int \<times> world) option" where
  "init_group_loop E idx [] w = Some (0, w)"
| "init_group_loop E idx (info # rest) w =
     (let g = fold eaf_init_service info (zero_group idx);
          err = (if idx = 0 then Some (- 1, w) else None) in
      if e_lock_init E idx < 0 then err
      else if e_sem_init E idx < 0 then err
      else if e_thread_init E idx < 0 then err
      else init_group_loop E (idx + 1) rest (upd_grp idx (\<lambda>_. g) w))"

definition eaf_init_group :: "env \<Rightarrow> group_table list \<Rightarrow> world \<Rightarrow> (int \<times> world) option" where
  "eaf_init_group E info w = init_group_loop E 0 info w"

definition eaf_init :: "env \<Rightarrow> sizes \<Rightarrow> group_table list \<Rightarrow> world \<Rightarrow> (int \<times> world) option" where
  "eaf_init E Z info w =
     (if w_ctx w \<noteq> None then Some (eaf_errno_duplicate, w)
      else if \<not> e_calloc E (eaf_init_calculate_malloc_size Z info) then Some (eaf_errno_memory, w)
      else if e_ready_init E < 0 then Some (eaf_errno_unknown, w)
      else if e_tls_init E < 0 then Some (eaf_errno_unknown, w)
      else do {
        _ \<leftarrow> eaf_init_fix_address Z info;
        (ret, w) \<leftarrow> eaf_init_group E info (w\<lparr>w_ctx := Some (zero_ctx (length info))\<rparr>);
        if ret < 0 then Some (eaf_errno_unknown, w\<lparr>w_ctx := None\<rparr>) else Some (eaf_errno_success, w) })"

subsection \<open>Loading\<close>

definition load_state :: "service \<Rightarrow> srv_state" where
  "load_state v = (if s_entry v = None then eaf_service_state_exit1
     else if s_lazyload v then eaf_service_state_init2 else eaf_service_state_init1)"

text \<open>The inner loop for the services \<open>j, \<dots>, j + n - 1\<close> of a group, and the outer one.\<close>

fun fix_state_g :: "nat \<Rightarrow> nat \<Rightarrow> group \<Rightarrow> group" where
  "fix_state_g j 0 g = g"
| "fix_state_g j (Suc n) g = fix_state_g (j + 1) n (set_state_g j (load_state (g_services g ! j)) g)"

definition eaf_load_fix_state :: "world \<Rightarrow> world" where
  "eaf_load_fix_state = upd_ctx (\<lambda>c. c\<lparr>c_groups := map (\<lambda>g. fix_state_g 0 (length (g_services g)) g) (c_groups c)\<rparr>)"

text \<open>\<open>eaf_load\<close> up to the loop that waits for the threads, and from there; \<open>Inl\<close> is the early return.
  The inner \<open>None\<close> of the second part is a caller that still waits.\<close>

definition eaf_load_start :: "env \<Rightarrow> world \<Rightarrow> (int + world) option" where
  "eaf_load_start E w =
     (if ctx_state_of w \<noteq> Some eaf_ctx_state_init then Some (Inl eaf_errno_state)
      else do {
        w \<leftarrow> hook_load_before E w;
        let w = eaf_load_fix_state w;
        let w = upd_ctx (\<lambda>c. c\<lparr>c_state := eaf_ctx_state_busy\<rparr>) w;
        Some (Inr (post_all w)) })"

definition eaf_load_finish :: "env \<Rightarrow> world \<Rightarrow> (int \<times> world) option option" where
  "eaf_load_finish E w = do {
     c \<leftarrow> w_ctx w;
     if c_ready c < length (c_groups c) then Some None
     else do {
       let w = upd_ctx (\<lambda>c. c\<lparr>c_ready := c_ready c - length (c_groups c)\<rparr>) w;
       let ret = (if c_failure c then eaf_errno_state else eaf_errno_success);
       w \<leftarrow> hook_load_after E ret w;
       Some (Some (ret, w)) } }"

subsection \<open>The group thread\<close>

text \<open>The positions of the thread function between two of its atomic actions: \<open>T_wait\<close>, \<open>T_loop\<close> and
  \<open>T_teardown\<close> are the conditions of its three \<open>while\<close> loops, and the \<open>_pend\<close> positions are inside
  \<open>eaf_compat_sem_pend\<close>, after the condition and the busy list were looked at.\<close>

datatype tphase = T_start | T_wait | T_wait_pend | T_loop | T_loop_pend | T_teardown | T_teardown_pend | T_done

definition loop_turn :: "env \<Rightarrow> nat \<Rightarrow> tphase \<Rightarrow> tphase \<Rightarrow> world \<Rightarrow> (tphase \<times> world) option option" where
  "loop_turn E gi again pend w = do {
     x \<leftarrow> eaf_service_thread_loop E gi w;
     Some (Some (case x of None \<Rightarrow> (pend, w) | Some w \<Rightarrow> (again, w))) }"

definition eaf_thread :: "env \<Rightarrow> nat \<Rightarrow> tphase \<Rightarrow> world \<Rightarrow> (tphase \<times> world) option option" where
  "eaf_thread E gi ph w =
     (case ph of
        T_start \<Rightarrow>
          (let w = upd_grp gi (\<lambda>g. g\<lparr>g_tid := e_thread_id E gi\<rparr>) w in
           Some (Some (if e_tls_set E gi < 0 then T_done else T_wait, w)))
      | T_wait \<Rightarrow> do {
          c \<leftarrow> w_ctx w;
          if c_state c = eaf_ctx_state_init then Some (Some (T_wait_pend, w))
          else if c_state c \<noteq> eaf_ctx_state_busy then Some (Some (T_done, w))
          else do {
            (init_count, w) \<leftarrow> eaf_group_init_necessary E gi w;
            let w = upd_ctx (\<lambda>c. c\<lparr>c_ready := c_ready c + 1\<rparr>) w;
            let w = (if int init_count < 0 then upd_ctx (\<lambda>c. c\<lparr>c_failure := True\<rparr>) w else w);
            Some (Some (if int init_count \<le> 0 then T_done else T_loop, w)) } }
      | T_wait_pend \<Rightarrow> map_option (map_option (Pair T_wait)) (sem_pend gi w)
      | T_loop \<Rightarrow> do {
          c \<leftarrow> w_ctx w;
          if c_state c = eaf_ctx_state_busy then loop_turn E gi T_loop T_loop_pend w
          else if c_state c = eaf_ctx_state_teardown then do {
            w \<leftarrow> eaf_service_teardown E gi w;
            Some (Some (T_teardown, w)) }
          else Some (Some (T_teardown, w)) }
      | T_loop_pend \<Rightarrow> map_option (map_option (Pair T_loop)) (sem_pend gi w)
      | T_teardown \<Rightarrow> do {
          c \<leftarrow> w_ctx w;
          if c_state c = eaf_ctx_state_teardown then loop_turn E gi T_teardown T_teardown_pend w
          else do {
            g \<leftarrow> grp w gi;
            w \<leftarrow> eaf_group_exit E gi (length (g_services g)) w;
            Some (Some (T_done, w)) } }
      | T_teardown_pend \<Rightarrow> map_option (map_option (Pair T_teardown)) (sem_pend gi w)
      | T_done \<Rightarrow> Some None)"

subsection \<open>Cleanup\<close>

fun cleanup_queue :: "addr list \<Rightarrow> world \<Rightarrow> world option" where
  "cleanup_queue [] w = Some w"
| "cleanup_queue (r # q) w = do { w \<leftarrow> eaf_service_destroy_msg_record r w; cleanup_queue q w }"

definition eaf_cleanup_msgq :: "nat \<times> nat \<Rightarrow> world \<Rightarrow> world option" where
  "eaf_cleanup_msgq s w = do {
     v \<leftarrow> srv w s;
     w \<leftarrow> cleanup_queue (s_queue v) w;
     let w = upd_srv s (\<lambda>v. v\<lparr>s_queue := []\<rparr>) w;
     case s_cur_msg v of
       None \<Rightarrow> Some w
     | Some r \<Rightarrow> do {
         w \<leftarrow> eaf_service_destroy_msg_record r w;
         Some (upd_srv s (\<lambda>v. v\<lparr>s_cur_msg := None\<rparr>) w) } }"

fun cleanup_services :: "nat \<Rightarrow> nat \<Rightarrow> nat \<Rightarrow> world \<Rightarrow> world option" where
  "cleanup_services gi i 0 w = Some w"
| "cleanup_services gi i (Suc n) w = do { w \<leftarrow> eaf_cleanup_msgq (gi, i) w; cleanup_services gi (i + 1) n w }"

definition eaf_cleanup_group :: "nat \<Rightarrow> world \<Rightarrow> world option" where
  "eaf_cleanup_group gi w = do { g \<leftarrow> grp w gi; cleanup_services gi 0 (length (g_services g)) w }"

fun cleanup_groups :: "nat \<Rightarrow> nat \<Rightarrow> world \<Rightarrow> world option" where
  "cleanup_groups gi 0 w = Some w"
| "cleanup_groups gi (Suc n) w = do { w \<leftarrow> eaf_cleanup_group gi w; cleanup_groups (gi + 1) n w }"

text \<open>\<open>joined\<close> tells which group threads have ended; the inner \<open>None\<close> is a caller that waits for one.\<close>

definition eaf_cleanup :: "env \<Rightarrow> (nat \<Rightarrow> bool) \<Rightarrow> world \<Rightarrow> (int \<times> summary \<times> world) option option" where
  "eaf_cleanup E joined w =
     (case w_ctx w of
        None \<Rightarrow> Some (Some (eaf_errno_state, \<lparr>executor = eaf_exit_executor_eaf, reason = 0\<rparr>, w))
      | Some c \<Rightarrow>
          if \<not> (\<forall>gi < length (c_groups c). joined gi) then Some None
          else do {
            w \<leftarrow> cleanup_groups 0 (length (c_groups c)) w;
            c' \<leftarrow> w_ctx w;
            w \<leftarrow> hook_cleanup_after E (c_hook c) (w\<lparr>w_ctx := None\<rparr>);
            Some (Some (eaf_errno_success, c_summary c', w)) })"

end
