(* ===== verification/ServiceInv.thy ===== *)
theory ServiceInv
  imports ServiceLife "HOL-Library.Multiset"
begin

text \<open>
  The invariant of the runtime and the frame in which user code works, with the lemmas that every
  update of the world keeps them: list membership follows the service state, idle and uninitialised
  services have no message, each queue record is in one place only, and every message is referenced
  at least as often as records point to it.
\<close>

subsection \<open>Access after an update\<close>

lemma w_ctx_upd_ctx [simp]: "w_ctx (upd_ctx f w) = map_option f (w_ctx w)"
  by (simp add: upd_ctx_def)

lemma upd_ctx_simps [simp]:
  "w_recs (upd_ctx f w) = w_recs w" "w_mheap (upd_ctx f w) = w_mheap w" "w_tls (upd_ctx f w) = w_tls w"
  by (simp_all add: upd_ctx_def)

lemma upd_grp_simps [simp]:
  "w_recs (upd_grp gi f w) = w_recs w" "w_mheap (upd_grp gi f w) = w_mheap w" "w_tls (upd_grp gi f w) = w_tls w"
  by (simp_all add: upd_grp_def)

lemma upd_srv_simps [simp]:
  "w_recs (upd_srv s f w) = w_recs w" "w_mheap (upd_srv s f w) = w_mheap w" "w_tls (upd_srv s f w) = w_tls w"
  by (simp_all add: upd_srv_def)

lemma grp_upd_ctx: "(\<And>c. c_groups (f c) = c_groups c) \<Longrightarrow> grp (upd_ctx f w) gi = grp w gi"
  by (cases "w_ctx w") (simp_all add: grp_def)

lemma grp_upd_grp [simp]: "grp (upd_grp gi f w) gj = (if gj = gi then map_option f (grp w gj) else grp w gj)"
  by (cases "w_ctx w") (auto simp: grp_def upd_grp_def)

lemma grp_upd_other [simp]:
  "grp (w\<lparr>w_mheap := H\<rparr>) = grp w" "grp (w\<lparr>w_recs := R\<rparr>) = grp w" "grp (w\<lparr>w_tls := t\<rparr>) = grp w"
  by (simp_all add: grp_def fun_eq_iff)

lemma srv_upd_other [simp]:
  "srv (w\<lparr>w_mheap := H\<rparr>) = srv w" "srv (w\<lparr>w_recs := R\<rparr>) = srv w" "srv (w\<lparr>w_tls := t\<rparr>) = srv w"
  by (simp_all add: srv_def fun_eq_iff)

lemma srv_upd_grp:
  "srv (upd_grp gi f w) s =
     (if fst s = gi then (case grp w gi of None \<Rightarrow> None
        | Some g \<Rightarrow> if snd s < length (g_services (f g)) then Some (g_services (f g) ! snd s) else None)
      else srv w s)"
  by (cases "grp w gi") (auto simp: srv_def)

lemma srv_upd_srv [simp]: "srv (upd_srv s f w) t = (if t = s then map_option f (srv w t) else srv w t)"
  by (cases s; cases t; cases "grp w (fst s)") (auto simp: srv_def upd_srv_def upd_srv_g_def nth_list_update)

lemma srv_upd_ctx: "(\<And>c. c_groups (f c) = c_groups c) \<Longrightarrow> srv (upd_ctx f w) s = srv w s"
  by (simp add: srv_def grp_upd_ctx)

lemma srv_grp: "srv w s = Some v \<Longrightarrow> \<exists>g. grp w (fst s) = Some g \<and> snd s < length (g_services g) \<and> v = g_services g ! snd s"
  by (auto simp: srv_def split: option.splits if_splits)

lemma srv_of_grp: "grp w gi = Some g \<Longrightarrow> i < length (g_services g) \<Longrightarrow> srv w (gi, i) = Some (g_services g ! i)"
  by (simp add: srv_def)

lemma grp_ctx: "grp w gi = Some g \<Longrightarrow> \<exists>c. w_ctx w = Some c \<and> gi < length (c_groups c) \<and> g = c_groups c ! gi"
  by (auto simp: grp_def split: option.splits if_splits)

lemma srv_keep_services:
  "(\<And>g. g_services (f g) = g_services g) \<Longrightarrow> srv (upd_grp gi f w) s = srv w s"
  by (cases "grp w gi") (auto simp: srv_upd_grp srv_def)

lemma set_state_services [simp]:
  "g_services (set_state_g si st g) = (g_services g)[si := (g_services g ! si)\<lparr>s_state := st\<rparr>]"
  by (simp add: set_state_g_def upd_srv_g_def Let_def)

lemma srv_set_state [simp]:
  "srv (eaf_service_set_state s st w) t = (if t = s then map_option (\<lambda>v. v\<lparr>s_state := st\<rparr>) (srv w t) else srv w t)"
  by (cases s; cases t; cases "grp w (fst s)")
    (auto simp: srv_def eaf_service_set_state_def nth_list_update)

lemma set_state_simps [simp]:
  "w_recs (eaf_service_set_state s st w) = w_recs w" "w_mheap (eaf_service_set_state s st w) = w_mheap w"
  "w_tls (eaf_service_set_state s st w) = w_tls w"
  by (simp_all add: eaf_service_set_state_def)

lemma ctx_upd_None [simp]: "w_ctx (upd_grp gi f w) = None \<longleftrightarrow> w_ctx w = None" "w_ctx (upd_srv s h w) = None \<longleftrightarrow> w_ctx w = None"
  "w_ctx (eaf_service_set_state s st w) = None \<longleftrightarrow> w_ctx w = None"
  by (simp_all add: upd_grp_def upd_srv_def eaf_service_set_state_def)

lemma ctx_state_upd [simp]: "ctx_state_of (upd_grp gi f w) = ctx_state_of w" "ctx_state_of (upd_srv s h w) = ctx_state_of w"
  "ctx_state_of (eaf_service_set_state s st w) = ctx_state_of w" "ctx_state_of (w\<lparr>w_mheap := H\<rparr>) = ctx_state_of w"
  "ctx_state_of (w\<lparr>w_recs := R\<rparr>) = ctx_state_of w"
  by (cases "w_ctx w"; simp add: ctx_state_of_def upd_grp_def upd_srv_def eaf_service_set_state_def)+

subsection \<open>The records in use\<close>

definition srv_recs :: "service \<Rightarrow> addr list" where
  "srv_recs v = (case s_cur_msg v of None \<Rightarrow> [] | Some r \<Rightarrow> [r]) @ s_queue v"

definition grp_recs :: "group \<Rightarrow> addr list" where
  "grp_recs g = concat (map srv_recs (g_services g))"

definition wrecs :: "world \<Rightarrow> addr multiset" where
  "wrecs w = (case w_ctx w of None \<Rightarrow> {#} | Some c \<Rightarrow> mset (concat (map grp_recs (c_groups c))))"

lemma mset_concat_update:
  "i < length xs \<Longrightarrow> mset (concat (xs[i := y])) + mset (xs ! i) = mset (concat xs) + mset y"
proof (induction xs arbitrary: i)
  case (Cons x xs)
  then show ?case by (cases i) (auto simp: ac_simps)
qed simp

lemma wrecs_upd_other [simp]:
  "wrecs (w\<lparr>w_mheap := H\<rparr>) = wrecs w" "wrecs (w\<lparr>w_recs := R\<rparr>) = wrecs w" "wrecs (w\<lparr>w_tls := t\<rparr>) = wrecs w"
  by (simp_all add: wrecs_def)

lemma wrecs_upd_ctx: "(\<And>c. c_groups (f c) = c_groups c) \<Longrightarrow> wrecs (upd_ctx f w) = wrecs w"
  by (cases "w_ctx w") (simp_all add: wrecs_def)

lemma wrecs_upd_grp:
  assumes "grp w gi = Some g"
  shows "wrecs (upd_grp gi f w) + mset (grp_recs g) = wrecs w + mset (grp_recs (f g))"
proof -
  obtain c where c: "w_ctx w = Some c" "gi < length (c_groups c)" "g = c_groups c ! gi" using grp_ctx [OF assms] by blast
  then show ?thesis
    using mset_concat_update [of gi "map grp_recs (c_groups c)" "grp_recs (f g)"]
    by (simp add: wrecs_def upd_grp_def map_update)
qed

lemma ms_cancel: "a + v = g + fv \<Longrightarrow> u + g = w + a \<Longrightarrow> u + v = w + fv" for a v g fv u w :: "'b multiset"
  by (metis (no_types, lifting) add.assoc add.commute add_right_cancel)

lemma wrecs_upd_srv:
  assumes "srv w s = Some v"
  shows "wrecs (upd_srv s f w) + mset (srv_recs v) = wrecs w + mset (srv_recs (f v))"
proof -
  obtain g where g: "grp w (fst s) = Some g" "snd s < length (g_services g)" "v = g_services g ! snd s"
    using srv_grp [OF assms] by blast
  let ?g' = "upd_srv_g (snd s) f g"
  have "mset (grp_recs ?g') + mset (srv_recs v) = mset (grp_recs g) + mset (srv_recs (f v))"
    using mset_concat_update [of "snd s" "map srv_recs (g_services g)" "srv_recs (f v)"] g
    by (simp add: grp_recs_def upd_srv_g_def map_update)
  moreover have "wrecs (upd_srv s f w) + mset (grp_recs g) = wrecs w + mset (grp_recs ?g')"
    unfolding upd_srv_def by (rule wrecs_upd_grp [OF g(1)])
  ultimately show ?thesis by (rule ms_cancel)
qed

lemma wrecs_upd_srv_same:
  assumes "srv w s = Some v" "mset (srv_recs (f v)) = mset (srv_recs v)"
  shows "wrecs (upd_srv s f w) = wrecs w"
  using wrecs_upd_srv [OF assms(1), of f] assms(2) by simp

lemma wrecs_keep_services:
  assumes "\<And>g. g_services (f g) = g_services g"
  shows "wrecs (upd_grp gi f w) = wrecs w"
proof (cases "grp w gi")
  case None
  then show ?thesis by (cases "w_ctx w") (auto simp: grp_def upd_grp_def wrecs_def list_update_beyond split: if_splits)
next
  case (Some g)
  then show ?thesis using wrecs_upd_grp [OF Some, of f] assms by (simp add: grp_recs_def)
qed

lemma wrecs_set_state [simp]:
  assumes "srv w s = Some v"
  shows "wrecs (eaf_service_set_state s st w) = wrecs w"
proof -
  obtain g where g: "grp w (fst s) = Some g" "snd s < length (g_services g)" "v = g_services g ! snd s"
    using srv_grp [OF assms] by blast
  have "map srv_recs ((g_services g)[snd s := (g_services g ! snd s)\<lparr>s_state := st\<rparr>]) = map srv_recs (g_services g)"
    using g(2) by (intro nth_equalityI) (auto simp: nth_list_update srv_recs_def)
  then have "grp_recs (set_state_g (snd s) st g) = grp_recs g" by (simp add: grp_recs_def)
  then show ?thesis using wrecs_upd_grp [OF g(1), of "set_state_g (snd s) st"]
    by (simp add: eaf_service_set_state_def)
qed

lemma wrecs_iff: "r \<in># wrecs w \<longleftrightarrow> (\<exists>s v. srv w s = Some v \<and> r \<in> set (srv_recs v))"
proof
  assume "r \<in># wrecs w"
  then obtain c where c: "w_ctx w = Some c" "r \<in> set (concat (map grp_recs (c_groups c)))"
    by (auto simp: wrecs_def split: option.splits)
  then obtain g where "g \<in> set (c_groups c)" "r \<in> set (grp_recs g)" by auto
  then obtain gi where gi: "gi < length (c_groups c)" "r \<in> set (grp_recs (c_groups c ! gi))"
    by (metis in_set_conv_nth)
  then obtain v where "v \<in> set (g_services (c_groups c ! gi))" "r \<in> set (srv_recs v)"
    by (auto simp: grp_recs_def)
  then obtain i where "i < length (g_services (c_groups c ! gi))" "r \<in> set (srv_recs (g_services (c_groups c ! gi) ! i))"
    by (metis in_set_conv_nth)
  then have "srv w (gi, i) = Some (g_services (c_groups c ! gi) ! i) \<and> r \<in> set (srv_recs (g_services (c_groups c ! gi) ! i))"
    using c gi by (simp add: srv_def grp_def)
  then show "\<exists>s v. srv w s = Some v \<and> r \<in> set (srv_recs v)" by blast
next
  assume "\<exists>s v. srv w s = Some v \<and> r \<in> set (srv_recs v)"
  then obtain s v where "srv w s = Some v" "r \<in> set (srv_recs v)" by blast
  then obtain g where g: "grp w (fst s) = Some g" "snd s < length (g_services g)" "v = g_services g ! snd s"
    using srv_grp by blast
  then obtain c where c: "w_ctx w = Some c" "g \<in> set (c_groups c)" using grp_ctx [OF g(1)] by auto
  have "v \<in> set (g_services g)" using g(2,3) by simp
  then have "r \<in> set (grp_recs g)" using \<open>r \<in> set (srv_recs v)\<close> by (auto simp: grp_recs_def)
  then show "r \<in># wrecs w" using c by (auto simp: wrecs_def)
qed

subsection \<open>Memory\<close>

definition refs :: "mheap \<Rightarrow> addr \<Rightarrow> nat" where
  "refs H a = (case H a of None \<Rightarrow> 0 | Some m \<Rightarrow> unat (refcnt m))"

abbreviation rmsg :: "(addr \<Rightarrow> msgq_record option) \<Rightarrow> addr \<Rightarrow> addr" where
  "rmsg R r \<equiv> r_msg (the (R r))"

definition memok :: "addr multiset \<Rightarrow> (addr \<Rightarrow> msgq_record option) \<Rightarrow> mheap \<Rightarrow> bool" where
  "memok M R H \<longleftrightarrow> (\<forall>r. count M r \<le> 1) \<and> (\<forall>r \<in># M. R r \<noteq> None) \<and>
     (\<forall>a. count (image_mset (rmsg R) M) a \<le> refs H a) \<and> finite (dom H)"

lemma memok_live:
  assumes "memok M R H" "r \<in># M"
  obtains m f where "R r = Some m" "H (r_msg m) = Some f" "refcnt f \<noteq> 0"
proof -
  obtain m where m: "R r = Some m" using assms by (auto simp: memok_def)
  then have "r_msg m \<in># image_mset (rmsg R) M" using assms(2) by (auto intro!: image_eqI [of _ _ r])
  then have "0 < refs H (r_msg m)" using assms(1) by (metis count_greater_zero_iff memok_def order_less_le_trans)
  then obtain f where "H (r_msg m) = Some f" "0 < unat (refcnt f)" by (auto simp: refs_def split: option.splits)
  moreover from this have "refcnt f \<noteq> 0" by (intro notI) simp
  ultimately have "H (r_msg m) = Some f" "refcnt f \<noteq> 0" by auto
  with m show thesis by (rule that)
qed

lemma memok_mono: "memok M R H \<Longrightarrow> (\<And>a. refs H a \<le> refs H' a) \<Longrightarrow> finite (dom H') \<Longrightarrow> memok M R H'"
  unfolding memok_def by (meson order_trans)

lemma memok_recs_cong: "memok M R H \<Longrightarrow> (\<And>r. r \<in># M \<Longrightarrow> R' r = R r) \<Longrightarrow> memok M R' H"
  using image_mset_cong [of M "rmsg R'" "rmsg R"] by (auto simp: memok_def)

lemma dec_ref_refs:
  assumes "H a = Some f" "refcnt f \<noteq> 0"
  shows "\<exists>H'. eaf_msg_dec_ref H a = Some H' \<and> refs H' a = refs H a - 1 \<and> (\<forall>b. b \<noteq> a \<longrightarrow> H' b = H b)"
  using assms by (auto simp: eaf_msg_dec_ref_def Let_def eaf_msg_destroy_def refs_def unat_minus_one)

lemma memok_destroy:
  assumes "memok (add_mset r M) R H"
  shows "\<exists>m H'. R r = Some m \<and> eaf_msg_dec_ref H (r_msg m) = Some H' \<and> memok M (R(r := None)) H'"
proof -
  obtain m f where m: "R r = Some m" "H (r_msg m) = Some f" "refcnt f \<noteq> 0"
    by (rule memok_live [OF assms, of r]) auto
  obtain H' where H': "eaf_msg_dec_ref H (r_msg m) = Some H'" "refs H' (r_msg m) = refs H (r_msg m) - 1"
    "\<forall>b. b \<noteq> r_msg m \<longrightarrow> H' b = H b" using dec_ref_refs [of H "r_msg m" f] m by blast
  have c1: "count M r = 0" using assms by (auto simp: memok_def dest: spec [of _ r])
  then have "r \<notin># M" by (simp add: not_in_iff)
  then have img: "image_mset (rmsg (R(r := None))) M = image_mset (rmsg R) M"
    by (intro image_mset_cong) auto
  have cnt: "count (image_mset (rmsg R) M) a + (if a = r_msg m then 1 else 0) \<le> refs H a" for a
    using assms m(1) by (auto simp: memok_def dest!: spec [of _ a])
  have "count (image_mset (rmsg R) M) a \<le> refs H' a" for a
    using cnt [of a] H'(2,3) by (cases "a = r_msg m") (auto simp: refs_def)
  moreover have "count M s \<le> 1" for s
    using assms c1 by (cases "s = r") (auto simp: memok_def dest: spec [of _ s])
  moreover have "\<forall>s \<in># M. (R(r := None)) s \<noteq> None"
    using assms \<open>r \<notin># M\<close> by (auto simp: memok_def)
  moreover have "finite (dom H')"
  proof (rule finite_subset)
    show "dom H' \<subseteq> insert (r_msg m) (dom H)" using H'(3) by (auto simp: dom_def)
    show "finite (insert (r_msg m) (dom H))" using assms by (simp add: memok_def)
  qed
  ultimately have "memok M (R(r := None)) H'" unfolding memok_def img by blast
  then show ?thesis using m(1) H'(1) by blast
qed

lemma memok_push:
  assumes "memok M R H" "R r = None" "H a = Some f" "refcnt f + 1 \<noteq> 0" "r_msg m = a"
  shows "\<exists>H'. eaf_msg_add_ref H a = Some H' \<and> memok (add_mset r M) (R(r \<mapsto> m)) H' \<and> (\<forall>b. refs H b \<le> refs H' b) \<and>
    (\<forall>b. H' b = None \<longleftrightarrow> H b = None)"
proof -
  let ?H' = "H(a \<mapsto> f\<lparr>refcnt := refcnt f + 1\<rparr>)"
  have r: "r \<notin># M" using assms(1,2) by (auto simp: memok_def)
  have up: "unat (refcnt f + 1) = unat (refcnt f) + 1"
    using assms(4) unatSuc [of "refcnt f"] by (simp add: add.commute)
  have refs: "refs ?H' b = refs H b + (if b = a then 1 else 0)" for b
    using assms(3) up by (simp add: refs_def)
  have img: "image_mset (rmsg (R(r \<mapsto> m))) M = image_mset (rmsg R) M"
    using r by (intro image_mset_cong) auto
  have "memok (add_mset r M) (R(r \<mapsto> m)) ?H'"
    using assms(1,5) r refs img by (auto simp: memok_def not_in_iff)
  then show ?thesis using assms(3) refs by (auto simp: eaf_msg_add_ref_def)
qed

end
