(* ===== verification/ServiceFrame.thy ===== *)
theory ServiceFrame
  imports ServiceInv
begin

text \<open>
  The invariant \<open>winv\<close> of the runtime, the frame in which a step may change the world, and the
  contract of user code as a locale over them.
\<close>

subsection \<open>The invariant\<close>

definition lists_ok :: "group \<Rightarrow> bool" where
  "lists_ok g \<longleftrightarrow> distinct (g_busy g) \<and> distinct (g_wait g) \<and>
     (\<forall>i. i \<in> set (g_busy g) \<longleftrightarrow> i < length (g_services g) \<and> \<not> in_wait_list (s_state (g_services g ! i))) \<and>
     (\<forall>i. i \<in> set (g_wait g) \<longleftrightarrow> i < length (g_services g) \<and> in_wait_list (s_state (g_services g ! i))) \<and>
     (\<forall>i. g_cur_run g = Some i \<longrightarrow> i < length (g_services g))"

definition srv_ok :: "service \<Rightarrow> bool" where
  "srv_ok v \<longleftrightarrow>
     (s_state v \<in> {eaf_service_state_init0, eaf_service_state_init2, eaf_service_state_idle} \<longrightarrow>
        s_queue v = [] \<and> s_cur_msg v = None) \<and>
     (s_state v = eaf_service_state_init1 \<longrightarrow> s_cur_msg v = None) \<and>
     (s_state v = eaf_service_state_yield \<longrightarrow> s_cur_msg v \<noteq> None) \<and>
     (s_entry v = None \<longrightarrow> s_state v \<in> {eaf_service_state_init0, eaf_service_state_exit1} \<and>
        s_queue v = [] \<and> s_cur_msg v = None)"

definition lists_inv :: "world \<Rightarrow> bool" where
  "lists_inv w \<longleftrightarrow> (\<forall>gi g. grp w gi = Some g \<longrightarrow> lists_ok g)"

definition srvs_inv :: "world \<Rightarrow> bool" where
  "srvs_inv w \<longleftrightarrow> (\<forall>s v. srv w s = Some v \<longrightarrow> srv_ok v \<and>
     (ctx_state_of w = Some eaf_ctx_state_busy \<longrightarrow> s_state v \<noteq> eaf_service_state_init0))"

definition mem_inv :: "world \<Rightarrow> bool" where
  "mem_inv w \<longleftrightarrow> memok (wrecs w) (w_recs w) (w_mheap w)"

definition winv :: "world \<Rightarrow> bool" where
  "winv w \<longleftrightarrow> w_ctx w \<noteq> None \<and> lists_inv w \<and> srvs_inv w \<and> mem_inv w"

lemma winvI: "w_ctx w \<noteq> None \<Longrightarrow> lists_inv w \<Longrightarrow> srvs_inv w \<Longrightarrow> mem_inv w \<Longrightarrow> winv w"
  by (simp add: winv_def)

lemma winvD: "winv w \<Longrightarrow> w_ctx w \<noteq> None" "winv w \<Longrightarrow> lists_inv w" "winv w \<Longrightarrow> srvs_inv w" "winv w \<Longrightarrow> mem_inv w"
  by (simp_all add: winv_def)

lemma srv_okD: "winv w \<Longrightarrow> srv w s = Some v \<Longrightarrow> srv_ok v"
  unfolding winv_def srvs_inv_def by blast

lemma srv_loaded: "winv w \<Longrightarrow> srv w s = Some v \<Longrightarrow> ctx_state_of w = Some eaf_ctx_state_busy \<Longrightarrow> s_state v \<noteq> eaf_service_state_init0"
  unfolding winv_def srvs_inv_def by blast

lemma ctx_state_tls [simp]: "ctx_state_of (w\<lparr>w_tls := t\<rparr>) = ctx_state_of w"
  by (simp add: ctx_state_of_def)

lemma lists_okD: "winv w \<Longrightarrow> grp w gi = Some g \<Longrightarrow> lists_ok g"
  by (simp add: winv_def lists_inv_def)

lemma set_state_cur_run [simp]: "g_cur_run (set_state_g si st g) = g_cur_run g"
  by (simp add: set_state_g_def upd_srv_g_def Let_def)

text \<open>\<open>set_state\<close> moves the index to the list of the new state.\<close>

lemma lists_ok_set_state:
  assumes "lists_ok g" "si < length (g_services g)"
  shows "lists_ok (set_state_g si st g)"
proof -
  have d: "distinct (g_busy g)" "distinct (g_wait g)" using assms(1) by (auto simp: lists_ok_def)
  have b: "i \<in> set (g_busy (set_state_g si st g)) \<longleftrightarrow> (if i = si then \<not> in_wait_list st else i \<in> set (g_busy g))" for i
    using assms d by (auto simp: lists_ok_def set_state_g_def upd_srv_g_def Let_def)
  have c: "i \<in> set (g_wait (set_state_g si st g)) \<longleftrightarrow> (if i = si then in_wait_list st else i \<in> set (g_wait g))" for i
    using assms d by (auto simp: lists_ok_def set_state_g_def upd_srv_g_def Let_def)
  have "distinct (g_busy (set_state_g si st g))" "distinct (g_wait (set_state_g si st g))"
    using assms d by (auto simp: lists_ok_def set_state_g_def upd_srv_g_def Let_def)
  moreover have "g_cur_run (set_state_g si st g) = g_cur_run g"
    by (simp add: set_state_g_def upd_srv_g_def Let_def)
  ultimately show ?thesis using assms
    unfolding lists_ok_def b c by (auto simp: nth_list_update)
qed

lemma lists_inv_set_state:
  assumes "lists_inv w" "srv w s = Some v"
  shows "lists_inv (eaf_service_set_state s st w)"
  using assms srv_grp [OF assms(2)]
  by (auto simp: lists_inv_def eaf_service_set_state_def intro!: lists_ok_set_state)

lemma lists_inv_upd_grp:
  assumes "lists_inv w" "\<And>g. grp w gi = Some g \<Longrightarrow> lists_ok g \<Longrightarrow> lists_ok (f g)"
  shows "lists_inv (upd_grp gi f w)"
  using assms by (auto simp: lists_inv_def)

lemma lists_inv_upd_srv:
  assumes "lists_inv w" "\<And>v. s_state (f v) = s_state v"
  shows "lists_inv (upd_srv s f w)"
  unfolding upd_srv_def
proof (rule lists_inv_upd_grp [OF assms(1)])
  fix g assume "lists_ok g"
  moreover have "s_state (g_services (upd_srv_g (snd s) f g) ! i) = s_state (g_services g ! i)"
    if "i < length (g_services g)" for i
    using that assms(2) by (cases "i = snd s") (auto simp: upd_srv_g_def)
  ultimately show "lists_ok (upd_srv_g (snd s) f g)"
    unfolding lists_ok_def by (auto simp: upd_srv_g_def)
qed

lemma lists_inv_other [simp]:
  "lists_inv (w\<lparr>w_mheap := H\<rparr>) \<longleftrightarrow> lists_inv w" "lists_inv (w\<lparr>w_recs := R\<rparr>) \<longleftrightarrow> lists_inv w"
  "lists_inv (w\<lparr>w_tls := t\<rparr>) \<longleftrightarrow> lists_inv w"
  by (simp_all add: lists_inv_def)

lemma srvs_inv_other [simp]:
  "srvs_inv (w\<lparr>w_mheap := H\<rparr>) \<longleftrightarrow> srvs_inv w" "srvs_inv (w\<lparr>w_recs := R\<rparr>) \<longleftrightarrow> srvs_inv w"
  "srvs_inv (w\<lparr>w_tls := t\<rparr>) \<longleftrightarrow> srvs_inv w"
  by (simp_all add: srvs_inv_def)

lemma srvs_inv_upd_srv:
  "srvs_inv w \<Longrightarrow> (\<And>v. srv w s = Some v \<Longrightarrow> srv_ok (f v)) \<Longrightarrow> (\<And>v. s_state (f v) = s_state v) \<Longrightarrow> srvs_inv (upd_srv s f w)"
  by (auto simp: srvs_inv_def)

lemma srvs_inv_set_state:
  "srvs_inv w \<Longrightarrow> (\<And>v. srv w s = Some v \<Longrightarrow> srv_ok (v\<lparr>s_state := st\<rparr>)) \<Longrightarrow> st \<noteq> eaf_service_state_init0 \<Longrightarrow>
    srvs_inv (eaf_service_set_state s st w)"
  by (auto simp: srvs_inv_def)

lemma srvs_inv_keep: "srvs_inv w \<Longrightarrow> (\<And>s. srv w' s = srv w s) \<Longrightarrow> ctx_state_of w' = ctx_state_of w \<Longrightarrow> srvs_inv w'"
  by (simp add: srvs_inv_def)

text \<open>Updates that leave services and lists alone.\<close>

lemma winv_upd_grp:
  assumes "winv w" "\<And>g. g_services (f g) = g_services g" "\<And>g. g_busy (f g) = g_busy g" "\<And>g. g_wait (f g) = g_wait g"
    "\<And>g i. grp w gi = Some g \<Longrightarrow> g_cur_run (f g) = Some i \<Longrightarrow> g_cur_run g = Some i \<or> i < length (g_services g)"
  shows "winv (upd_grp gi f w)"
proof (rule winvI)
  show "lists_inv (upd_grp gi f w)"
    using assms(2-5) by (intro lists_inv_upd_grp winvD(2) [OF assms(1)]) (fastforce simp: lists_ok_def)
  show "srvs_inv (upd_grp gi f w)"
    using assms(1,2) by (auto intro: srvs_inv_keep simp: winv_def srv_keep_services)
  show "mem_inv (upd_grp gi f w)"
    using assms(1,2) by (simp add: winv_def mem_inv_def wrecs_keep_services)
qed (use assms(1) in \<open>simp add: winv_def\<close>)

lemma winv_upd_ctx:
  assumes "winv w" "\<And>c. c_groups (f c) = c_groups c" "\<And>c. c_state (f c) = eaf_ctx_state_busy \<Longrightarrow> c_state c = eaf_ctx_state_busy"
  shows "winv (upd_ctx f w)"
proof -
  have "ctx_state_of (upd_ctx f w) = Some eaf_ctx_state_busy \<Longrightarrow> ctx_state_of w = Some eaf_ctx_state_busy"
    using assms(3) by (auto simp: ctx_state_of_def)
  then show ?thesis using assms(1,2)
    by (auto simp: winv_def lists_inv_def srvs_inv_def mem_inv_def grp_upd_ctx srv_upd_ctx wrecs_upd_ctx)
qed

lemma winv_tls: "winv w \<Longrightarrow> winv (w\<lparr>w_tls := t\<rparr>)"
  by (simp add: winv_def mem_inv_def)

lemma winv_set_state:
  assumes "winv w" "srv w s = Some v" "srv_ok (v\<lparr>s_state := st\<rparr>)" "st \<noteq> eaf_service_state_init0"
  shows "winv (eaf_service_set_state s st w)"
proof (rule winvI)
  show "mem_inv (eaf_service_set_state s st w)"
    using assms(1,2) by (simp add: winv_def mem_inv_def)
  show "srvs_inv (eaf_service_set_state s st w)"
    using assms by (intro srvs_inv_set_state) (auto simp: winv_def)
  show "lists_inv (eaf_service_set_state s st w)"
    using assms(1,2) by (auto simp: winv_def intro: lists_inv_set_state)
qed (use assms(1) in \<open>simp add: winv_def\<close>)

lemma winv_upd_srv:
  assumes "winv w" "srv w s = Some v" "srv_ok (f v)" "\<And>v. s_state (f v) = s_state v"
    "mset (srv_recs (f v)) = mset (srv_recs v)"
  shows "winv (upd_srv s f w)"
proof (rule winvI)
  show "mem_inv (upd_srv s f w)"
    using assms by (simp add: winv_def mem_inv_def wrecs_upd_srv_same)
  show "srvs_inv (upd_srv s f w)"
    using assms by (intro srvs_inv_upd_srv) (auto simp: winv_def)
  show "lists_inv (upd_srv s f w)"
    using assms by (intro lists_inv_upd_srv) (auto simp: winv_def)
qed (use assms(1) in \<open>simp add: winv_def\<close>)

text \<open>The message heap may be replaced by one that refers at least as often.\<close>

lemma winv_mheap:
  assumes "winv w" "\<And>a. refs (w_mheap w) a \<le> refs H a" "finite (dom H)"
  shows "winv (w\<lparr>w_mheap := H\<rparr>)"
  using assms by (auto simp: winv_def mem_inv_def intro: memok_mono)

lemma winv_set_cur_run:
  assumes "winv w" "srv w (gi, si) = Some v"
  shows "winv (eaf_group_set_cur_run gi si w)"
  unfolding eaf_group_set_cur_run_def
  by (rule winv_upd_grp [OF assms(1)]) (use srv_grp [OF assms(2)] in auto)

lemma winv_sem: "winv w \<Longrightarrow> winv (sem_post gi w)" "winv w \<Longrightarrow> winv (sem_trypend gi w)"
  "winv w \<Longrightarrow> winv (eaf_group_clear_cc0 gi w)"
  unfolding sem_post_def sem_trypend_def eaf_group_clear_cc0_def by (auto intro!: winv_upd_grp)

lemma srv_sem [simp]: "srv (sem_post gi w) s = srv w s" "srv (sem_trypend gi w) s = srv w s"
  "srv (eaf_group_clear_cc0 gi w) s = srv w s" "srv (eaf_group_set_cur_run gi si w) s = srv w s"
  by (simp_all add: sem_post_def sem_trypend_def eaf_group_clear_cc0_def eaf_group_set_cur_run_def srv_keep_services)

subsection \<open>The frame\<close>

definition cstep :: "ctx_state \<Rightarrow> ctx_state \<Rightarrow> bool" where
  "cstep a b \<longleftrightarrow> b = a \<or> b = eaf_ctx_state_teardown \<or> b = eaf_ctx_state_exit"

text \<open>What may happen to a service while others run: it may be woken up and get messages.\<close>

definition srv_frame :: "service \<Rightarrow> service \<Rightarrow> bool" where
  "srv_frame v v' \<longleftrightarrow>
     s_id v' = s_id v \<and> s_alive v' = s_alive v \<and> s_lazyload v' = s_lazyload v \<and> s_capacity v' = s_capacity v \<and>
     (s_entry v \<noteq> None \<longrightarrow> s_entry v' = s_entry v) \<and>
     s_cur_msg v' = s_cur_msg v \<and> (\<exists>ys. s_queue v' = s_queue v @ ys) \<and>
     (s_state v' = s_state v \<or>
      s_state v = eaf_service_state_idle \<and> s_state v' = eaf_service_state_busy \<or>
      s_state v = eaf_service_state_yield \<and> s_state v' = eaf_service_state_busy \<or>
      s_state v = eaf_service_state_init2 \<and> s_state v' = eaf_service_state_init1 \<and> s_queue v' \<noteq> [])"

text \<open>No wake-up is lost: whoever gives a group its first busy service or changes the state of the context
  also posts the semaphore of the group.\<close>

definition woken :: "nat \<Rightarrow> world \<Rightarrow> world \<Rightarrow> bool" where
  "woken gi w w' \<longleftrightarrow> (\<forall>g. grp w gi = Some g \<longrightarrow> (\<exists>g'. grp w' gi = Some g' \<and> g_sem g \<le> g_sem g' \<and>
     (g_sem g' = g_sem g \<longrightarrow> (g_busy g = [] \<longrightarrow> g_busy g' = []) \<and> ctx_state_of w' = ctx_state_of w)))"

lemma woken_refl [simp]: "woken gi w w"
  by (simp add: woken_def)

lemma woken_trans: "woken gi w w' \<Longrightarrow> woken gi w' w'' \<Longrightarrow> woken gi w w''"
  unfolding woken_def
proof (intro allI impI)
  fix g assume 1: "\<forall>g. grp w gi = Some g \<longrightarrow> (\<exists>g'. grp w' gi = Some g' \<and> g_sem g \<le> g_sem g' \<and>
      (g_sem g' = g_sem g \<longrightarrow> (g_busy g = [] \<longrightarrow> g_busy g' = []) \<and> ctx_state_of w' = ctx_state_of w))"
    and 2: "\<forall>g. grp w' gi = Some g \<longrightarrow> (\<exists>g'. grp w'' gi = Some g' \<and> g_sem g \<le> g_sem g' \<and>
      (g_sem g' = g_sem g \<longrightarrow> (g_busy g = [] \<longrightarrow> g_busy g' = []) \<and> ctx_state_of w'' = ctx_state_of w'))" and g: "grp w gi = Some g"
  obtain g' where g': "grp w' gi = Some g'" "g_sem g \<le> g_sem g'"
    "g_sem g' = g_sem g \<Longrightarrow> (g_busy g = [] \<longrightarrow> g_busy g' = []) \<and> ctx_state_of w' = ctx_state_of w" using 1 g by blast
  obtain g'' where g'': "grp w'' gi = Some g''" "g_sem g' \<le> g_sem g''"
    "g_sem g'' = g_sem g' \<Longrightarrow> (g_busy g' = [] \<longrightarrow> g_busy g'' = []) \<and> ctx_state_of w'' = ctx_state_of w'" using 2 g'(1) by blast
  have "(g_busy g = [] \<longrightarrow> g_busy g'' = []) \<and> ctx_state_of w'' = ctx_state_of w" if "g_sem g'' = g_sem g"
  proof -
    have "g_sem g' = g_sem g" "g_sem g'' = g_sem g'" using that g'(2) g''(2) by linarith+
    then show ?thesis using g'(3) g''(3) by simp
  qed
  then show "\<exists>g'. grp w'' gi = Some g' \<and> g_sem g \<le> g_sem g' \<and>
      (g_sem g' = g_sem g \<longrightarrow> (g_busy g = [] \<longrightarrow> g_busy g' = []) \<and> ctx_state_of w'' = ctx_state_of w)"
    using g''(1,2) g'(2) by (intro exI [of _ g'']) auto
qed

definition frame :: "(nat \<times> nat) set \<Rightarrow> world \<Rightarrow> world \<Rightarrow> bool" where
  "frame S w w' \<longleftrightarrow>
     (\<forall>c. w_ctx w = Some c \<longrightarrow> (\<exists>c'. w_ctx w' = Some c' \<and> cstep (c_state c) (c_state c'))) \<and>
     w_tls w' = w_tls w \<and>
     (\<forall>gi. map_option (\<lambda>g. length (g_services g)) (grp w' gi) = map_option (\<lambda>g. length (g_services g)) (grp w gi)) \<and>
     (\<forall>gi. gi \<notin> fst ` S \<longrightarrow> woken gi w w') \<and>
     (\<forall>gi. \<not> {gi} \<times> UNIV \<subseteq> S \<longrightarrow> map_option g_cur_run (grp w' gi) = map_option g_cur_run (grp w gi)) \<and>
     (\<forall>s v. s \<notin> S \<longrightarrow> srv w s = Some v \<longrightarrow>
        (\<exists>v'. srv w' s = Some v' \<and> srv_frame v v') \<and> (\<forall>r \<in> set (srv_recs v). w_recs w' r = w_recs w r))"

lemma srv_frame_refl [simp]: "srv_frame v v"
  by (simp add: srv_frame_def)

lemma srv_frame_trans: "srv_frame u v \<Longrightarrow> srv_frame v x \<Longrightarrow> srv_frame u x"
  unfolding srv_frame_def by (elim conjE exE disjE) auto

lemma srv_frame_recs: "srv_frame v v' \<Longrightarrow> set (srv_recs v) \<subseteq> set (srv_recs v')"
  by (auto simp: srv_frame_def srv_recs_def)

lemma frame_refl [simp]: "frame S w w"
  by (simp add: frame_def cstep_def)

lemma frame_srvD:
  assumes "frame S w w'" "s \<notin> S" "srv w s = Some v"
  obtains v' where "srv w' s = Some v'" "srv_frame v v'" "\<forall>r \<in> set (srv_recs v). w_recs w' r = w_recs w r"
proof -
  have "\<forall>s v. s \<notin> S \<longrightarrow> srv w s = Some v \<longrightarrow>
      (\<exists>v'. srv w' s = Some v' \<and> srv_frame v v') \<and> (\<forall>r \<in> set (srv_recs v). w_recs w' r = w_recs w r)"
    using assms(1) unfolding frame_def by (elim conjE)
  then have "(\<exists>v'. srv w' s = Some v' \<and> srv_frame v v') \<and> (\<forall>r \<in> set (srv_recs v). w_recs w' r = w_recs w r)"
    using assms(2,3) by (elim allE impE)
  then show thesis using that by blast
qed

lemma frame_woken:
  assumes "frame S w w'" "gi \<notin> fst ` S"
  shows "woken gi w w'"
proof -
  have "\<forall>gi. gi \<notin> fst ` S \<longrightarrow> woken gi w w'" using assms(1) unfolding frame_def by (elim conjE)
  then show ?thesis using assms(2) by (elim allE impE)
qed

lemma frame_curD:
  assumes "frame S w w'" "\<not> {gi} \<times> UNIV \<subseteq> S"
  shows "map_option g_cur_run (grp w' gi) = map_option g_cur_run (grp w gi)"
proof -
  have "\<forall>gi. \<not> {gi} \<times> UNIV \<subseteq> S \<longrightarrow> map_option g_cur_run (grp w' gi) = map_option g_cur_run (grp w gi)"
    using assms(1) unfolding frame_def by (elim conjE)
  then show ?thesis using assms(2) by (elim allE impE)
qed

lemma frame_ctxD:
  assumes "frame S w w'" "w_ctx w = Some c"
  obtains c' where "w_ctx w' = Some c'" "cstep (c_state c) (c_state c')"
  using assms unfolding frame_def by auto

lemma frame_trans: "frame S w w' \<Longrightarrow> frame S w' w'' \<Longrightarrow> frame S w w''"
proof -
  assume a: "frame S w w'" and b: "frame S w' w''"
  have "(\<exists>v'. srv w'' s = Some v' \<and> srv_frame v v') \<and> (\<forall>r \<in> set (srv_recs v). w_recs w'' r = w_recs w r)"
    if sv: "s \<notin> S" "srv w s = Some v" for s v
  proof -
    obtain v' where v': "srv w' s = Some v'" "srv_frame v v'" "\<forall>r \<in> set (srv_recs v). w_recs w' r = w_recs w r"
      using frame_srvD [OF a sv] .
    obtain v'' where "srv w'' s = Some v''" "srv_frame v' v''" "\<forall>r \<in> set (srv_recs v'). w_recs w'' r = w_recs w' r"
      using frame_srvD [OF b sv(1) v'(1)] .
    then show ?thesis using v' srv_frame_trans srv_frame_recs [OF v'(2)] by (metis subset_eq)
  qed
  moreover have "\<exists>c''. w_ctx w'' = Some c'' \<and> cstep (c_state c) (c_state c'')" if wc: "w_ctx w = Some c" for c
  proof -
    obtain c' where "w_ctx w' = Some c'" "cstep (c_state c) (c_state c')" using frame_ctxD [OF a wc] .
    moreover from this obtain c'' where "w_ctx w'' = Some c''" "cstep (c_state c') (c_state c'')"
      using frame_ctxD [OF b] by blast
    ultimately show ?thesis by (auto simp: cstep_def)
  qed
  moreover have "woken gi w w''" if "gi \<notin> fst ` S" for gi
    using frame_woken [OF a that] frame_woken [OF b that] by (rule woken_trans)
  ultimately show "frame S w w''" using a b unfolding frame_def by simp
qed

lemma frame_mono:
  assumes "frame S w w'" "S \<subseteq> T"
  shows "frame T w w'"
proof -
  have sub: "gi \<notin> fst ` T \<Longrightarrow> gi \<notin> fst ` S" "\<not> {gi} \<times> UNIV \<subseteq> T \<Longrightarrow> \<not> {gi} \<times> UNIV \<subseteq> S" "s \<notin> T \<Longrightarrow> s \<notin> S" for gi s
    using assms(2) by blast+
  have "(\<exists>v'. srv w' s = Some v' \<and> srv_frame v v') \<and> (\<forall>r \<in> set (srv_recs v). w_recs w' r = w_recs w r)"
    if "s \<notin> T" "srv w s = Some v" for s v
    using frame_srvD [OF assms(1) sub(3) [OF that(1)] that(2)] by metis
  moreover have "(\<forall>c. w_ctx w = Some c \<longrightarrow> (\<exists>c'. w_ctx w' = Some c' \<and> cstep (c_state c) (c_state c'))) \<and> w_tls w' = w_tls w \<and>
    (\<forall>gi. map_option (\<lambda>g. length (g_services g)) (grp w' gi) = map_option (\<lambda>g. length (g_services g)) (grp w gi))"
    using assms(1) unfolding frame_def by (elim conjE) (intro conjI)
  ultimately show ?thesis
    using frame_woken [OF assms(1) sub(1)] frame_curD [OF assms(1) sub(2)] unfolding frame_def by auto
qed

lemma frame_srv: "frame S w w' \<Longrightarrow> s \<notin> S \<Longrightarrow> srv w s = Some v \<Longrightarrow> \<exists>v'. srv w' s = Some v' \<and> srv_frame v v'"
  by (metis frame_srvD)

lemma frame_grp:
  "frame S w w' \<Longrightarrow> grp w gi = Some g \<Longrightarrow> \<exists>g'. grp w' gi = Some g' \<and> length (g_services g') = length (g_services g)"
  unfolding frame_def by (metis (no_types, lifting) map_option_eq_Some)

lemma frame_srv_ex: "frame S w w' \<Longrightarrow> srv w s = Some v \<Longrightarrow> \<exists>v'. srv w' s = Some v'"
  using srv_grp [of w s v] frame_grp [of S w w' "fst s"] by (fastforce simp: srv_def)

lemma frame_state: "frame S w w' \<Longrightarrow> ctx_state_of w = Some st \<Longrightarrow> \<exists>st'. ctx_state_of w' = Some st' \<and> cstep st st'"
  unfolding frame_def ctx_state_of_def by auto

lemma frame_recs: "frame S w w' \<Longrightarrow> s \<notin> S \<Longrightarrow> srv w s = Some v \<Longrightarrow> r \<in> set (srv_recs v) \<Longrightarrow> w_recs w' r = w_recs w r"
  by (metis frame_srvD)

lemma not_whole_group [simp]: "\<not> {gi} \<times> (UNIV :: nat set) \<subseteq> {}" "\<not> {gi} \<times> (UNIV :: nat set) \<subseteq> {s}"
proof -
  have "\<not> finite ({gi} \<times> (UNIV :: nat set))" using finite_cartesian_productD2 by fastforce
  then show "\<not> {gi} \<times> (UNIV :: nat set) \<subseteq> {}" "\<not> {gi} \<times> (UNIV :: nat set) \<subseteq> {s}"
    by (metis finite.emptyI finite_subset, metis finite.simps finite_subset)
qed

text \<open>Frames of the elementary updates.\<close>

lemma frame_upd_grp:
  assumes "\<And>g. g_services (f g) = g_services g" "\<And>g. \<not> {gi} \<times> UNIV \<subseteq> S \<Longrightarrow> g_cur_run (f g) = g_cur_run g"
    "\<And>g. gi \<notin> fst ` S \<Longrightarrow> g_busy (f g) = g_busy g \<and> g_sem g \<le> g_sem (f g)"
  shows "frame S w (upd_grp gi f w)"
proof -
  have "map_option g_cur_run (grp (upd_grp gi f w) gj) = map_option g_cur_run (grp w gj)" if "\<not> {gj} \<times> UNIV \<subseteq> S" for gj
    using assms(2) that by (cases "grp w gj") auto
  moreover have "woken gj w (upd_grp gi f w)" if "gj \<notin> fst ` S" for gj
    using assms(3) that by (cases "gj = gi") (auto simp: woken_def)
  moreover have "map_option (\<lambda>g. length (g_services g)) (grp (upd_grp gi f w) gj) = map_option (\<lambda>g. length (g_services g)) (grp w gj)" for gj
    using assms(1) by (cases "grp w gj") auto
  moreover have "\<exists>c'. w_ctx (upd_grp gi f w) = Some c' \<and> cstep (c_state c) (c_state c')" if "w_ctx w = Some c" for c
    using that by (simp add: upd_grp_def cstep_def)
  ultimately show ?thesis unfolding frame_def by (simp add: srv_keep_services assms(1))
qed

lemma frame_sem [simp]: "frame S w (sem_post gi w)" "gi \<in> fst ` S \<Longrightarrow> frame S w (sem_trypend gi w)" "frame S w (eaf_group_clear_cc0 gi w)"
  "{gi} \<times> UNIV \<subseteq> S \<Longrightarrow> frame S w (eaf_group_set_cur_run gi si w)"
  unfolding sem_post_def sem_trypend_def eaf_group_clear_cc0_def eaf_group_set_cur_run_def
  by (auto intro!: frame_upd_grp)

lemma frame_upd_srv:
  assumes "s \<in> S \<or> (\<forall>v. srv w s = Some v \<longrightarrow> srv_frame v (f v))"
  shows "frame S w (upd_srv s f w)"
proof -
  have "map_option g_cur_run (grp (upd_srv s f w) gj) = map_option g_cur_run (grp w gj)" for gj
    by (cases "grp w gj") (auto simp: upd_srv_def upd_srv_g_def)
  moreover have "woken gj w (upd_srv s f w)" for gj
    by (auto simp: woken_def upd_srv_def upd_srv_g_def)
  moreover have "map_option (\<lambda>g. length (g_services g)) (grp (upd_srv s f w) gj) = map_option (\<lambda>g. length (g_services g)) (grp w gj)" for gj
    by (cases "grp w gj") (auto simp: upd_srv_def upd_srv_g_def)
  moreover have "\<exists>c'. w_ctx (upd_srv s f w) = Some c' \<and> cstep (c_state c) (c_state c')" if "w_ctx w = Some c" for c
    using that by (simp add: upd_srv_def upd_grp_def cstep_def)
  ultimately show ?thesis using assms unfolding frame_def by auto
qed

lemma frame_set_state:
  assumes "s \<in> S"
  shows "frame S w (eaf_service_set_state s st w)"
proof -
  have "map_option g_cur_run (grp (eaf_service_set_state s st w) gj) = map_option g_cur_run (grp w gj)" for gj
    by (cases "grp w gj") (auto simp: eaf_service_set_state_def)
  moreover have "woken gj w (eaf_service_set_state s st w)" if "gj \<notin> fst ` S" for gj
    using assms that by (cases "gj = fst s") (auto simp: woken_def eaf_service_set_state_def)
  moreover have "map_option (\<lambda>g. length (g_services g)) (grp (eaf_service_set_state s st w) gj) = map_option (\<lambda>g. length (g_services g)) (grp w gj)" for gj
    by (cases "grp w gj") (auto simp: eaf_service_set_state_def)
  moreover have "\<exists>c'. w_ctx (eaf_service_set_state s st w) = Some c' \<and> cstep (c_state c) (c_state c')" if "w_ctx w = Some c" for c
    using that by (simp add: eaf_service_set_state_def upd_grp_def cstep_def)
  ultimately show ?thesis using assms unfolding frame_def by auto
qed

lemma woken_mem [simp]: "woken gi w (w\<lparr>w_mheap := H\<rparr>)" "woken gi w (w\<lparr>w_mheap := H, w_recs := R\<rparr>)"
  by (simp_all add: woken_def)

lemma frame_mheap [simp]: "frame S w (w\<lparr>w_mheap := H\<rparr>)"
  by (simp add: frame_def cstep_def)

end
