(* ===== verification/ServiceSafe.thy ===== *)
theory ServiceSafe
  imports ServiceFrame
begin

text \<open>
  Memory safety of the functions a group thread runs: under the contract of user code
  (\<open>locale user_code\<close>) each of them is defined, keeps the invariant \<open>winv\<close> and changes other services
  only as \<open>frame\<close> allows. The triples \<open>good\<close> and \<open>goodr\<close> (with a result) carry both through the
  option monad.
\<close>

subsection \<open>Triples\<close>

definition good :: "(nat \<times> nat) set \<Rightarrow> world \<Rightarrow> world option \<Rightarrow> (world \<Rightarrow> bool) \<Rightarrow> bool" where
  "good S w x P \<longleftrightarrow> (\<exists>w'. x = Some w' \<and> winv w' \<and> frame S w w' \<and> P w')"

definition goodr :: "(nat \<times> nat) set \<Rightarrow> world \<Rightarrow> ('a \<times> world) option \<Rightarrow> ('a \<Rightarrow> world \<Rightarrow> bool) \<Rightarrow> bool" where
  "goodr S w x P \<longleftrightarrow> (\<exists>r w'. x = Some (r, w') \<and> winv w' \<and> frame S w w' \<and> P r w')"

lemma good_return: "winv w \<Longrightarrow> P w \<Longrightarrow> good S w (Some w) P"
  by (simp add: good_def)

lemma goodr_return: "winv w \<Longrightarrow> P r w \<Longrightarrow> goodr S w (Some (r, w)) P"
  by (simp add: goodr_def)

lemma good_step: "good S w' x P \<Longrightarrow> frame S w w' \<Longrightarrow> good S w x P"
  unfolding good_def using frame_trans by blast

lemma goodr_step: "goodr S w' x P \<Longrightarrow> frame S w w' \<Longrightarrow> goodr S w x P"
  unfolding goodr_def using frame_trans by blast

lemma good_bind:
  assumes "good S w x P" "\<And>w'. winv w' \<Longrightarrow> frame S w w' \<Longrightarrow> P w' \<Longrightarrow> good S w' (f w') Q"
  shows "good S w (x \<bind> f) Q"
proof -
  obtain w' where w': "x = Some w'" "winv w'" "frame S w w'" "P w'" using assms(1) by (auto simp: good_def)
  show ?thesis using good_step [OF assms(2) [OF w'(2-4)] w'(3)] w'(1) by simp
qed

lemma good_bind_r:
  assumes "goodr S w x P" "\<And>r w'. winv w' \<Longrightarrow> frame S w w' \<Longrightarrow> P r w' \<Longrightarrow> good S w' (f (r, w')) Q"
  shows "good S w (x \<bind> f) Q"
proof -
  obtain r w' where w': "x = Some (r, w')" "winv w'" "frame S w w'" "P r w'" using assms(1) by (auto simp: goodr_def)
  show ?thesis using good_step [OF assms(2) [OF w'(2-4)] w'(3)] w'(1) by simp
qed

lemma goodr_bind:
  assumes "good S w x P" "\<And>w'. winv w' \<Longrightarrow> frame S w w' \<Longrightarrow> P w' \<Longrightarrow> goodr S w' (f w') Q"
  shows "goodr S w (x \<bind> f) Q"
proof -
  obtain w' where w': "x = Some w'" "winv w'" "frame S w w'" "P w'" using assms(1) by (auto simp: good_def)
  show ?thesis using goodr_step [OF assms(2) [OF w'(2-4)] w'(3)] w'(1) by simp
qed

lemma goodr_bind_r:
  assumes "goodr S w x P" "\<And>r w'. winv w' \<Longrightarrow> frame S w w' \<Longrightarrow> P r w' \<Longrightarrow> goodr S w' (f (r, w')) Q"
  shows "goodr S w (x \<bind> f) Q"
proof -
  obtain r w' where w': "x = Some (r, w')" "winv w'" "frame S w w'" "P r w'" using assms(1) by (auto simp: goodr_def)
  show ?thesis using goodr_step [OF assms(2) [OF w'(2-4)] w'(3)] w'(1) by simp
qed

lemma good_mono: "good S w x P \<Longrightarrow> S \<subseteq> T \<Longrightarrow> (\<And>w'. winv w' \<Longrightarrow> frame S w w' \<Longrightarrow> P w' \<Longrightarrow> Q w') \<Longrightarrow> good T w x Q"
  unfolding good_def using frame_mono by blast

lemma goodr_mono:
  "goodr S w x P \<Longrightarrow> S \<subseteq> T \<Longrightarrow> (\<And>r w'. winv w' \<Longrightarrow> frame S w w' \<Longrightarrow> P r w' \<Longrightarrow> Q r w') \<Longrightarrow> goodr T w x Q"
  unfolding goodr_def using frame_mono by blast

text \<open>A service that is running, busy or in exit: others may only append to its queue.\<close>

lemma frame_running:
  assumes "frame S w w'" "s \<notin> S" "srv w s = Some v"
    "s_state v \<notin> {eaf_service_state_idle, eaf_service_state_yield, eaf_service_state_init2}"
  obtains v' where "srv w' s = Some v'" "s_state v' = s_state v" "s_cur_msg v' = s_cur_msg v" "srv_frame v v'"
  using frame_srv [OF assms(1-3)] assms(4) by (auto simp: srv_frame_def)

lemma in_wrecs: "srv w s = Some v \<Longrightarrow> r \<in> set (srv_recs v) \<Longrightarrow> r \<in># wrecs w"
  using wrecs_iff by blast

lemma in_srv_recs: "s_cur_msg v = Some r \<Longrightarrow> r \<in> set (srv_recs v)" "r \<in> set (s_queue v) \<Longrightarrow> r \<in> set (srv_recs v)"
  by (simp_all add: srv_recs_def)

subsection \<open>Destroying a record\<close>

lemma wrecs_two:
  assumes "srv w s = Some v" "srv w t = Some u" "s \<noteq> t" "r \<in> set (srv_recs v)" "r \<in> set (srv_recs u)"
  shows "2 \<le> count (wrecs w) r"
proof -
  define v' where "v' = v\<lparr>s_queue := [], s_cur_msg := None\<rparr>"
  let ?w = "upd_srv s (\<lambda>_. v') w"
  have "srv ?w t = Some u" using assms by simp
  then have "r \<in># wrecs ?w" using assms(5) wrecs_iff by blast
  then have "1 \<le> count (wrecs ?w) r" by simp
  moreover have "wrecs ?w + mset (srv_recs v) = wrecs w"
    using wrecs_upd_srv [OF assms(1), of "\<lambda>_. v'"] by (simp add: v'_def srv_recs_def)
  then have "count (wrecs w) r = count (wrecs ?w) r + count (mset (srv_recs v)) r"
    by (metis count_union)
  moreover have "r \<in># mset (srv_recs v)" using assms(4) by simp
  then have "1 \<le> count (mset (srv_recs v)) r" by (simp only: count_greater_eq_one_iff)
  ultimately show ?thesis by linarith
qed

lemma recs_disjoint:
  assumes "mem_inv w" "srv w s = Some v" "srv w t = Some u" "s \<noteq> t" "r \<in> set (srv_recs v)"
  shows "r \<notin> set (srv_recs u)"
proof
  assume "r \<in> set (srv_recs u)"
  then have "2 \<le> count (wrecs w) r" using wrecs_two [OF assms(2-5)] by simp
  moreover have "count (wrecs w) r \<le> 1" using assms(1) by (auto simp: mem_inv_def memok_def)
  ultimately show False by linarith
qed

text \<open>The record has already left its service (\<open>f\<close> takes it out) or leaves it afterwards.\<close>

lemma destroy_record:
  assumes "winv w" "srv w s = Some v" "mset (srv_recs v) = add_mset r (mset (srv_recs (f v)))"
    "srv_ok (f v)" "\<And>v. s_state (f v) = s_state v"
  shows "\<exists>m H'. w_recs w r = Some m \<and> eaf_msg_dec_ref (w_mheap w) (r_msg m) = Some H' \<and>
    winv ((upd_srv s f w)\<lparr>w_mheap := H', w_recs := (w_recs w)(r := None)\<rparr>) \<and>
    frame {s} w ((upd_srv s f w)\<lparr>w_mheap := H', w_recs := (w_recs w)(r := None)\<rparr>)"
proof -
  have "wrecs (upd_srv s f w) + mset (srv_recs v) = wrecs w + mset (srv_recs (f v))"
    by (rule wrecs_upd_srv [OF assms(2)])
  then have recs: "wrecs w = add_mset r (wrecs (upd_srv s f w))" using assms(3) by simp
  have "memok (add_mset r (wrecs (upd_srv s f w))) (w_recs w) (w_mheap w)"
    using winvD(4) [OF assms(1)] by (simp add: mem_inv_def recs)
  then obtain m H' where m: "w_recs w r = Some m" "eaf_msg_dec_ref (w_mheap w) (r_msg m) = Some H'"
    "memok (wrecs (upd_srv s f w)) ((w_recs w)(r := None)) H'" using memok_destroy by blast
  let ?w = "(upd_srv s f w)\<lparr>w_mheap := H', w_recs := (w_recs w)(r := None)\<rparr>"
  have "winv ?w"
  proof (rule winvI)
    show "lists_inv ?w" using assms(1,5) by (simp add: winv_def lists_inv_upd_srv)
    show "srvs_inv ?w" using assms(1,2,4,5) by (auto simp: winv_def intro!: srvs_inv_upd_srv)
    show "mem_inv ?w" using m(3) by (simp add: mem_inv_def)
  qed (use assms(1) in \<open>simp add: winv_def\<close>)
  moreover have "frame {s} w ?w"
  proof -
    have "frame {s} w (upd_srv s f w)" by (rule frame_upd_srv) simp
    moreover have "r \<in> set (srv_recs v)" using assms(3) by (metis set_mset_mset union_single_eq_member)
    then have "r \<notin> set (srv_recs u)" if "srv w t = Some u" "t \<noteq> s" for t u
      using recs_disjoint [OF winvD(4) [OF assms(1)] assms(2) that(1)] that(2) by metis
    moreover have "woken gi w ?w" if "gi \<noteq> fst s" for gi
      using that by (auto simp: woken_def upd_srv_def)
    ultimately show ?thesis unfolding frame_def by auto
  qed
  ultimately show ?thesis using m by blast
qed

lemma reset_good:
  assumes "winv w" "srv w s = Some v" "s_cur_msg v = Some r"
    "s_state v \<notin> {eaf_service_state_idle, eaf_service_state_yield, eaf_service_state_init2,
       eaf_service_state_init0, eaf_service_state_init1}"
  shows "good {s} w (eaf_service_reset s w) (\<lambda>w'. \<exists>v'. srv w' s = Some v' \<and> s_state v' = s_state v \<and>
    s_cur_msg v' = None \<and> s_queue v' = s_queue v \<and> s_branch v' = 0)"
proof -
  let ?w = "eaf_service_reset_yield_branch s w"
  have srv: "srv ?w s = Some (v\<lparr>s_branch := 0\<rparr>)" using assms(2) by (simp add: eaf_service_reset_yield_branch_def)
  have ok: "srv_ok v" using srv_okD [OF assms(1,2)] .
  have winv: "winv ?w" unfolding eaf_service_reset_yield_branch_def
    using ok by (intro winv_upd_srv [OF assms(1,2)]) (simp_all add: srv_ok_def srv_recs_def)
  have fr: "frame {s} w ?w" unfolding eaf_service_reset_yield_branch_def by (rule frame_upd_srv) simp
  obtain m H' where m: "w_recs ?w r = Some m" "eaf_msg_dec_ref (w_mheap ?w) (r_msg m) = Some H'"
    "winv ((upd_srv s (\<lambda>v. v\<lparr>s_cur_msg := None\<rparr>) ?w)\<lparr>w_mheap := H', w_recs := (w_recs ?w)(r := None)\<rparr>)"
    "frame {s} ?w ((upd_srv s (\<lambda>v. v\<lparr>s_cur_msg := None\<rparr>) ?w)\<lparr>w_mheap := H', w_recs := (w_recs ?w)(r := None)\<rparr>)"
    using destroy_record [OF winv srv, of r "\<lambda>v. v\<lparr>s_cur_msg := None\<rparr>"] assms(3,4) ok
    by (auto simp: srv_recs_def srv_ok_def)
  have comm: "upd_srv s f (x\<lparr>w_mheap := H', w_recs := R\<rparr>) = (upd_srv s f x)\<lparr>w_mheap := H', w_recs := R\<rparr>" for f x R
    by (simp add: upd_srv_def upd_grp_def upd_ctx_def)
  have "eaf_service_reset s w = Some ((upd_srv s (\<lambda>v. v\<lparr>s_cur_msg := None\<rparr>) ?w)\<lparr>w_mheap := H', w_recs := (w_recs ?w)(r := None)\<rparr>)"
    using srv assms(3) m(1,2) unfolding comm [symmetric]
    by (simp add: eaf_service_reset_def eaf_service_destroy_msg_record_def Let_def)
  then show ?thesis using m(3,4) frame_trans [OF fr] srv by (simp add: good_def)
qed


subsection \<open>The contract of user code\<close>

text \<open>User code returns, keeps the invariant and changes services only as \<open>frame\<close> allows, which is
  what the calls of the runtime do. Hooks keep messages, and neither they nor \<open>on_init\<close> yield.
  Allocation of records is fresh and the allocation in the teardown path, whose failure the code
  asserts not to happen, succeeds.\<close>

locale user_code =
  fixes E :: env
  assumes user: "winv w \<Longrightarrow> \<exists>r w'. e_ucode E u w = Some (r, w') \<and> winv w' \<and> frame {} w w'"
    and hook_quiet: "is_hook u \<Longrightarrow> winv w \<Longrightarrow> e_ucode E u w = Some (r, w') \<Longrightarrow> w_mheap w a = Some f \<Longrightarrow> w_mheap w' a = Some f"
    and cc0_quiet: "is_hook u \<or> u = UInit p \<Longrightarrow> winv w \<Longrightarrow> e_ucode E u w = Some (r, w') \<Longrightarrow> grp w gi = Some g \<Longrightarrow>
      map_option g_cc0 (grp w' gi) = Some (g_cc0 g)"
    and exit_hook: "\<exists>r w'. e_ucode E (UHook p) w = Some (r, w')"
    and alloc_fresh: "e_alloc E w = Some a \<Longrightarrow> w_recs w a = None"
    and malloc_ok: "finite (dom (w_mheap w)) \<Longrightarrow> \<exists>a. malloc (e_menv E w) n = Some a \<and> w_mheap w a = None \<and> 0 \<le> lock_init (e_menv E w)"
begin

lemma user_good: "winv w \<Longrightarrow> goodr {} w (e_ucode E u w) (\<lambda>_ _. True)"
  using user by (simp add: goodr_def)

lemma hook_good:
  assumes "winv w" "\<And>p. is_hook (u p)"
  shows "goodr {} w (hook_call E f u w) (\<lambda>_ w'.
    (\<forall>a m. w_mheap w a = Some m \<longrightarrow> w_mheap w' a = Some m) \<and>
    (\<forall>gi g. grp w gi = Some g \<longrightarrow> map_option g_cc0 (grp w' gi) = Some (g_cc0 g)))"
proof -
  obtain p where p: "hook_fn f w = Some p" using winvD(1) [OF assms(1)] by (auto simp: hook_fn_def)
  show ?thesis
  proof (cases "p = 0")
    case True
    then show ?thesis using p assms(1) by (simp add: hook_call_def goodr_return)
  next
    case False
    obtain r w' where w': "e_ucode E (u p) w = Some (r, w')" "winv w'" "frame {} w w'" using user [OF assms(1)] by blast
    have "\<forall>a m. w_mheap w a = Some m \<longrightarrow> w_mheap w' a = Some m"
      using hook_quiet [OF assms(2) assms(1) w'(1)] by blast
    moreover have "\<forall>gi g. grp w gi = Some g \<longrightarrow> map_option g_cc0 (grp w' gi) = Some (g_cc0 g)"
      using cc0_quiet [OF disjI1 [OF assms(2)] assms(1) w'(1)] by blast
    ultimately show ?thesis using p w' False by (simp add: hook_call_def goodr_def)
  qed
qed

lemma hook_service_good:
  assumes "winv w"
  shows "good {} w (hook_service E f i w) (\<lambda>w'. \<forall>gi g. grp w gi = Some g \<longrightarrow> map_option g_cc0 (grp w' gi) = Some (g_cc0 g))"
  unfolding hook_service_def
  by (rule good_bind_r [OF hook_good]) (auto intro!: good_return simp: assms)

lemma hook_service_good':
  assumes "winv w"
  shows "good {} w (hook_service E f i w) (\<lambda>w'. True)"
  by (rule good_mono [OF hook_service_good [OF assms]]) auto

lemma handle_hook_good:
  assumes "winv w" "srv w s = Some v" "r \<in> set (srv_recs v)"
  shows "goodr {} w (hook_message_handle_before E r w) (\<lambda>_ _. True)"
    "good {} w (hook_message_handle_after E r w) (\<lambda>_. True)"
proof -
  have "r \<in># wrecs w" using in_wrecs [OF assms(2,3)] .
  then obtain m where m: "w_recs w r = Some m"
    using winvD(4) [OF assms(1)] by (auto simp: mem_inv_def elim: memok_live)
  show "goodr {} w (hook_message_handle_before E r w) (\<lambda>_ _. True)"
    using hook_good [OF assms(1), of "\<lambda>p. UHookMsg p (r_from m) (r_to m) (r_msg m)" on_message_handle_before]
    by (auto simp: hook_message_handle_before_def m goodr_def)
  show "good {} w (hook_message_handle_after E r w) (\<lambda>_. True)"
    unfolding hook_message_handle_after_def m option.simps bind.bind_lunit
    by (rule good_bind_r [OF hook_good]) (auto intro!: good_return simp: assms)
qed

lemma yield_hook_good:
  assumes "winv w" "grp w gi = Some g" "g_cur_run g = Some i"
  shows "good {} w (eaf_group_call_yield_hook E gi w) (\<lambda>_. True)"
proof (cases "g_yield_hook g = 0")
  case True
  then show ?thesis using assms by (simp add: eaf_group_call_yield_hook_def good_return)
next
  case False
  then show ?thesis using assms
    by (auto simp: eaf_group_call_yield_hook_def intro!: good_bind_r [OF user_good] good_return)
qed

lemma frame_cur_run:
  "frame S w w' \<Longrightarrow> \<not> {gi} \<times> UNIV \<subseteq> S \<Longrightarrow> grp w gi = Some g \<Longrightarrow> \<exists>g'. grp w' gi = Some g' \<and> g_cur_run g' = g_cur_run g"
  unfolding frame_def by (metis (no_types, lifting) map_option_eq_Some)

subsection \<open>Handling a message\<close>

lemma resume_message_good:
  assumes "winv w" "srv w s = Some v" "s_state v = eaf_service_state_busy" "s_cur_msg v = Some r"
    "grp w (fst s) = Some g" "g_cur_run g = Some (snd s)"
  shows "good {s} w (eaf_service_resume_message E s w) (\<lambda>w'. \<exists>v'. srv w' s = Some v' \<and>
    s_state v' \<in> {eaf_service_state_busy, eaf_service_state_yield})"
proof -
  let ?P = "\<lambda>w'. \<exists>v'. srv w' s = Some v' \<and> s_state v' \<in> {eaf_service_state_busy, eaf_service_state_yield}"
  have "r \<in># wrecs w" using in_wrecs [OF assms(2)] in_srv_recs(1) [OF assms(4)] by blast
  then obtain m f where m: "w_recs w r = Some m" "w_mheap w (r_msg m) = Some f"
    using winvD(4) [OF assms(1)] by (auto simp: mem_inv_def elim: memok_live)
  define call where "call = (case eaf_msg_get_type (msg f) of
        eaf_msg_type_req \<Rightarrow> e_ucode E (UMsg (req_fn m) (r_from m) (r_to m) (r_msg m)) w
      | eaf_msg_type_rsp \<Rightarrow>
          let rsp_fn = eaf_msg_get_rsp_fn (msg f) in
          if rsp_fn \<noteq> 0 then e_ucode E (UMsg rsp_fn (r_from m) (r_to m) (r_msg m)) w else Some (0, w))"
  have call: "goodr {} w call (\<lambda>_ _. True)"
    unfolding call_def using user_good [OF assms(1)] assms(1)
    by (auto split: msg_type.split simp: Let_def goodr_return)
  have eq: "eaf_service_resume_message E s w = call \<bind> (\<lambda>(_, w).
     eaf_group_check_cc0 (fst s) EAF_SERVICE_CC0_YIELD w \<bind> (\<lambda>yielded.
     if yielded then eaf_group_call_yield_hook E (fst s) (eaf_service_set_state s eaf_service_state_yield w) \<bind>
       hook_service_yield E (s_id v)
     else hook_message_handle_after E r w \<bind> eaf_service_reset s))"
    using assms(2,4) m unfolding eaf_service_resume_message_def call_def Let_def by simp
  show ?thesis unfolding eq
  proof (rule good_bind_r [OF goodr_mono [OF call]])
    fix res and w1 assume w1: "winv w1" "frame {s} w w1" "frame {} w w1"
    obtain v1 where v1: "srv w1 s = Some v1" "s_state v1 = s_state v" "s_cur_msg v1 = s_cur_msg v" "srv_frame v v1"
      using frame_running [OF w1(3) _ assms(2)] assms(3) by auto
    obtain g1 where g1: "grp w1 (fst s) = Some g1" "g_cur_run g1 = g_cur_run g"
      using frame_cur_run [OF w1(3) _ assms(5)] by auto
    let ?y = "eaf_service_set_state s eaf_service_state_yield w1"
    have yield: "good {s} w1 (eaf_group_call_yield_hook E (fst s) ?y \<bind> hook_service_yield E (s_id v)) ?P"
    proof (rule good_step)
      show "frame {s} w1 ?y" by (rule frame_set_state) simp
      have y: "winv ?y" using srv_okD [OF w1(1) v1(1)] v1 assms(4)
        by (intro winv_set_state [OF w1(1) v1(1)]) (auto simp: srv_ok_def assms(3))
      have gy: "grp ?y (fst s) = Some (set_state_g (snd s) eaf_service_state_yield g1)"
        using g1 by (simp add: eaf_service_set_state_def)
      show "good {s} ?y (eaf_group_call_yield_hook E (fst s) ?y \<bind> hook_service_yield E (s_id v)) ?P"
      proof (rule good_mono [of "{}", where P = ?P])
        show "good {} ?y (eaf_group_call_yield_hook E (fst s) ?y \<bind> hook_service_yield E (s_id v)) ?P"
        proof (rule good_bind [OF yield_hook_good [OF y gy]])
          show "g_cur_run (set_state_g (snd s) eaf_service_state_yield g1) = Some (snd s)"
            using g1(2) assms(6) by simp
          fix w2 assume w2: "winv w2" "frame {} ?y w2"
          show "good {} w2 (hook_service_yield E (s_id v) w2) ?P"
            unfolding hook_service_yield_def
          proof (rule good_mono [OF hook_service_good' [OF w2(1)]])
            fix w3 assume "frame {} w2 w3"
            then have "frame {} ?y w3" using w2(2) frame_trans by blast
            then show "?P w3" using frame_srv [of "{}" ?y w3 s] v1(1) by (auto simp: srv_frame_def)
          qed simp
        qed
      qed auto
    qed
    have fin: "good {s} w1 (hook_message_handle_after E r w1 \<bind> eaf_service_reset s) ?P"
    proof (rule good_bind [OF good_mono [OF handle_hook_good(2) [OF w1(1) v1(1)]]])
      show "r \<in> set (srv_recs v1)" using v1(3) assms(4) by (simp add: srv_recs_def)
      fix w2 assume w2: "winv w2" "frame {} w1 w2"
      obtain v2 where v2: "srv w2 s = Some v2" "s_state v2 = s_state v1" "s_cur_msg v2 = s_cur_msg v1" "srv_frame v1 v2"
        using frame_running [OF w2(2) _ v1(1)] v1(2) assms(3) by auto
      show "good {s} w2 (eaf_service_reset s w2) ?P"
        using v1 v2 assms(3,4) by (intro good_mono [OF reset_good [OF w2(1) v2(1)]]) auto
    qed auto
    show "good {s} w1 (case (res, w1) of (_, w) \<Rightarrow> eaf_group_check_cc0 (fst s) EAF_SERVICE_CC0_YIELD w \<bind> (\<lambda>yielded.
       if yielded then eaf_group_call_yield_hook E (fst s) (eaf_service_set_state s eaf_service_state_yield w) \<bind>
         hook_service_yield E (s_id v)
       else hook_message_handle_after E r w \<bind> eaf_service_reset s)) ?P"
      using yield fin g1(1) by (simp add: eaf_group_check_cc0_def)
  qed auto
qed


subsection \<open>Initialising a service\<close>

lemma finish_init_good:
  assumes "winv w" "srv w s = Some v" "s_state v = eaf_service_state_init1"
  shows "good {s} w (eaf_group_finish_service_init s w) (\<lambda>w'.
    srv w' s = Some (v\<lparr>s_state := (if s_queue v = [] then eaf_service_state_idle else eaf_service_state_busy)\<rparr>))"
proof -
  let ?w = "eaf_service_set_state s eaf_service_state_idle w"
  have ok: "srv_ok v" using srv_okD [OF assms(1,2)] .
  have srv: "srv ?w s = Some (v\<lparr>s_state := eaf_service_state_idle\<rparr>)" using assms(2) by simp
  have fr: "frame {s} w ?w" by (rule frame_set_state) simp
  show ?thesis
  proof (cases "s_queue v = []")
    case True
    have "winv ?w" using ok True assms(3) by (intro winv_set_state [OF assms(1,2)]) (auto simp: srv_ok_def)
    then show ?thesis using True assms(2) fr by (simp add: eaf_group_finish_service_init_def good_def Let_def)
  next
    case False
    let ?v = "eaf_service_set_state s eaf_service_state_busy ?w"
    have "winv ?v"
    proof (rule winvI)
      show "lists_inv ?v"
        using winvD(2) [OF assms(1)] assms(2) by (intro lists_inv_set_state) auto
      have "srv_ok (v\<lparr>s_state := eaf_service_state_busy\<rparr>)" using ok assms(3) by (auto simp: srv_ok_def)
      then show "srvs_inv ?v" using winvD(3) [OF assms(1)] assms(2) by (auto simp: srvs_inv_def)
      show "mem_inv ?v" using winvD(4) [OF assms(1)] assms(2) srv by (simp add: mem_inv_def)
    qed (use winvD(1) [OF assms(1)] in simp)
    moreover have "frame {s} ?w ?v" by (rule frame_set_state) simp
    ultimately show ?thesis using False assms(2) frame_trans [OF fr]
      by (simp add: eaf_group_finish_service_init_def good_def Let_def)
  qed
qed

lemma frame_init1:
  assumes "frame {} w w'" "srv w s = Some v" "s_state v = eaf_service_state_init1"
  obtains v' where "srv w' s = Some v'" "s_state v' = eaf_service_state_init1" "srv_frame v v'"
  using frame_running [OF assms(1) _ assms(2)] assms(3) by auto

lemma do_init_good:
  assumes "winv w" "srv w s = Some v" "s_state v = eaf_service_state_init1"
  shows "good {s} w (eaf_do_service_init E s w) (\<lambda>w'. \<exists>v'. srv w' s = Some v' \<and> srv_frame v (v'\<lparr>s_state := s_state v\<rparr>) \<and>
    s_state v' = (if s_queue v' = [] then eaf_service_state_idle else eaf_service_state_busy))"
    (is "good _ _ _ ?Q")
proof -
  let ?c = "eaf_group_clear_cc0 (fst s) w"
  have winv: "winv ?c" by (rule winv_sem [OF assms(1)])
  have srv: "srv ?c s = Some v" using assms(2) by simp
  obtain g where g: "grp w (fst s) = Some g" using srv_grp [OF assms(2)] by blast
  have cc: "map_option g_cc0 (grp ?c (fst s)) = Some 0" using g by (simp add: eaf_group_clear_cc0_def)
  define cc0 where "cc0 x \<longleftrightarrow> map_option g_cc0 (grp x (fst s)) = Some 0" for x
  define run where "run x \<longleftrightarrow> cc0 x \<and> (\<exists>v'. srv x s = Some v' \<and> s_state v' = eaf_service_state_init1 \<and> srv_frame v v')" for x
  have keep: "run y" if "run x" "frame {} x y" "\<forall>gi g. grp x gi = Some g \<longrightarrow> map_option g_cc0 (grp y gi) = Some (g_cc0 g)" for x y
    using that frame_init1 [OF that(2)] srv_frame_trans unfolding run_def cc0_def by (smt (verit) map_option_eq_Some)
  have "run ?c" using cc assms(3) srv by (simp add: run_def cc0_def)
  have "good {s} ?c (hook_service_init_before E (s_id v) ?c \<bind> (\<lambda>w. srv w s \<bind> (\<lambda>v. s_entry v \<bind> (\<lambda>entry.
     e_ucode E (UInit (ep_on_init entry)) w \<bind> (\<lambda>(_, w).
     eaf_group_check_cc0 (fst s) EAF_SERVICE_CC0_YIELD w \<bind> (\<lambda>yielded.
     if yielded then None
     else hook_service_init_after E (s_id v) (eaf_service_reset_yield_branch s w) \<bind> eaf_group_finish_service_init s)))))) ?Q"
  proof (rule good_bind)
    show "good {s} ?c (hook_service_init_before E (s_id v) ?c) run"
      unfolding hook_service_init_before_def
      by (rule good_mono [OF hook_service_good [OF winv]]) (use keep \<open>run ?c\<close> in auto)
    fix w1 assume w1: "winv w1" "run w1"
    then obtain v1 where v1: "srv w1 s = Some v1" "s_state v1 = eaf_service_state_init1" "srv_frame v v1" by (auto simp: run_def)
    have "s_entry v1 \<noteq> None" using srv_okD [OF w1(1) v1(1)] v1(2) by (auto simp: srv_ok_def)
    then obtain entry where entry: "s_entry v1 = Some entry" by blast
    obtain res w2 where w2: "e_ucode E (UInit (ep_on_init entry)) w1 = Some (res, w2)" "winv w2" "frame {} w1 w2"
      using user [OF w1(1)] by blast
    have "run w2" using keep [OF w1(2) w2(3)] cc0_quiet [OF disjI2 [OF refl] w1(1) w2(1)] by blast
    then obtain v2 g2 where v2: "srv w2 s = Some v2" "s_state v2 = eaf_service_state_init1" "srv_frame v v2"
      and g2: "grp w2 (fst s) = Some g2" "g_cc0 g2 = 0" by (auto simp: run_def cc0_def)
    let ?b = "eaf_service_reset_yield_branch s w2"
    have ok2: "srv_ok v2" using srv_okD [OF w2(2) v2(1)] .
    have b: "winv ?b" "frame {s} w2 ?b" "srv ?b s = Some (v2\<lparr>s_branch := 0\<rparr>)"
      unfolding eaf_service_reset_yield_branch_def using v2 ok2
      by (auto intro!: frame_upd_srv winv_upd_srv [OF w2(2) v2(1)] simp: srv_ok_def srv_recs_def)
    have "good {s} ?b (hook_service_init_after E (s_id v1) ?b \<bind> eaf_group_finish_service_init s) ?Q"
    proof (rule good_bind)
      show "good {s} ?b (hook_service_init_after E (s_id v1) ?b) (\<lambda>x. frame {} ?b x)"
        unfolding hook_service_init_after_def by (rule good_mono [OF hook_service_good [OF b(1)]]) auto
      fix w3 assume w3: "winv w3" "frame {} ?b w3"
      obtain v3 where v3: "srv w3 s = Some v3" "s_state v3 = eaf_service_state_init1" "srv_frame (v2\<lparr>s_branch := 0\<rparr>) v3"
        using frame_init1 [OF w3(2) b(3)] v2(2) by auto
      have "srv_frame v (v2\<lparr>s_branch := 0\<rparr>)" using v2(3) by (simp add: srv_frame_def)
      then have f: "srv_frame v v3" using v3(3) srv_frame_trans by blast
      show "good {s} w3 (eaf_group_finish_service_init s w3) ?Q"
        by (rule good_mono [OF finish_init_good [OF w3(1) v3(1,2)]])
          (use f v3(2) assms(3) in \<open>auto simp: srv_frame_def\<close>)
    qed
    then have "good {s} w2 (eaf_group_check_cc0 (fst s) EAF_SERVICE_CC0_YIELD w2 \<bind> (\<lambda>yielded.
       if yielded then None
       else hook_service_init_after E (s_id v1) ?b \<bind> eaf_group_finish_service_init s)) ?Q"
      using g2 good_step [OF _ b(2)] by (simp add: eaf_group_check_cc0_def)
    then show "good {s} w1 (srv w1 s \<bind> (\<lambda>v. s_entry v \<bind> (\<lambda>entry.
       e_ucode E (UInit (ep_on_init entry)) w1 \<bind> (\<lambda>(_, w).
       eaf_group_check_cc0 (fst s) EAF_SERVICE_CC0_YIELD w \<bind> (\<lambda>yielded.
       if yielded then None
       else hook_service_init_after E (s_id v) (eaf_service_reset_yield_branch s w) \<bind> eaf_group_finish_service_init s))))) ?Q"
      using v1(1) entry w2(1) good_step [OF _ frame_mono [OF w2(3)], of "{s}"] by simp
  qed
  then have "good {s} ?c (eaf_do_service_init E s w) ?Q"
    using srv unfolding eaf_do_service_init_def Let_def by simp
  then show ?thesis by (rule good_step) simp
qed

end

end
