(* ===== verification/ServiceThread.thy ===== *)
theory ServiceThread
  imports ServiceSafe
begin

text \<open>
  The body of the group thread: a loop turn, the initialisation of a group, teardown and exit, each
  defined and invariant preserving under the contract of user code.
\<close>

subsection \<open>Conditions on a group\<close>

text \<open>Before the event loop no service is in exit; in the loop the services on the busy list can be run.\<close>

definition start_ok :: "nat \<Rightarrow> world \<Rightarrow> bool" where
  "start_ok gi w \<longleftrightarrow> (\<forall>i v. srv w (gi, i) = Some v \<longrightarrow> s_state v \<noteq> eaf_service_state_exit0)"

definition runnable :: "service \<Rightarrow> bool" where
  "runnable v \<longleftrightarrow> s_state v \<noteq> eaf_service_state_exit0 \<and> (s_state v = eaf_service_state_init1 \<longrightarrow> s_queue v \<noteq> [])"

definition loop_ok :: "nat \<Rightarrow> world \<Rightarrow> bool" where
  "loop_ok gi w \<longleftrightarrow> (\<forall>i v. srv w (gi, i) = Some v \<longrightarrow> runnable v)"

lemma runnable_frame: "srv_frame v v' \<Longrightarrow> runnable v \<Longrightarrow> runnable v'"
  unfolding srv_frame_def runnable_def by auto

lemma frame_srv_back: "frame S w w' \<Longrightarrow> srv w' s = Some v' \<Longrightarrow> \<exists>v. srv w s = Some v"
proof -
  assume f: "frame S w w'" and v: "srv w' s = Some v'"
  obtain g' where g': "grp w' (fst s) = Some g'" "snd s < length (g_services g')" using srv_grp [OF v] by blast
  have "map_option (\<lambda>g. length (g_services g)) (grp w' (fst s)) = map_option (\<lambda>g. length (g_services g)) (grp w (fst s))"
    using f unfolding frame_def by blast
  then obtain g where "grp w (fst s) = Some g" "length (g_services g) = length (g_services g')"
    using g'(1) by (cases "grp w (fst s)") auto
  then show ?thesis using g'(2) by (simp add: srv_def)
qed

lemma frame_srv_back':
  assumes "frame S w w'" "srv w' s = Some v'" "s \<notin> S"
  obtains v where "srv w s = Some v" "srv_frame v v'"
  using frame_srv_back [OF assms(1,2)] frame_srv [OF assms(1,3)] assms(2) by fastforce

text \<open>A step that only touches \<open>s\<close> keeps the condition if it leaves \<open>s\<close> in a good state.\<close>

lemma loop_ok_frame1:
  assumes "loop_ok gi w" "frame {(gi, i)} w w'" "srv w' (gi, i) = Some v'" "runnable v'"
  shows "loop_ok gi w'"
  unfolding loop_ok_def
proof (intro allI impI)
  fix j u assume u: "srv w' (gi, j) = Some u"
  show "runnable u"
  proof (cases "j = i")
    case True
    then show ?thesis using u assms(3,4) by simp
  next
    case False
    then obtain v where "srv w (gi, j) = Some v" "srv_frame v u" using frame_srv_back' [OF assms(2) u] by auto
    then show ?thesis using assms(1) runnable_frame by (auto simp: loop_ok_def)
  qed
qed

lemma start_ok_frame:
  assumes "start_ok gi w" "frame S w w'" "({gi} \<times> UNIV) \<inter> S = {}"
  shows "start_ok gi w'"
  unfolding start_ok_def
proof (intro allI impI)
  fix j u assume u: "srv w' (gi, j) = Some u"
  obtain v where "srv w (gi, j) = Some v" "srv_frame v u" using frame_srv_back' [OF assms(2) u] assms(3) by auto
  then show "s_state u \<noteq> eaf_service_state_exit0" using assms(1) by (auto simp: start_ok_def srv_frame_def)
qed

lemma loop_ok_frame:
  assumes "loop_ok gi w" "frame S w w'" "({gi} \<times> UNIV) \<inter> S = {}"
  shows "loop_ok gi w'"
  unfolding loop_ok_def
proof (intro allI impI)
  fix j u assume u: "srv w' (gi, j) = Some u"
  obtain v where "srv w (gi, j) = Some v" "srv_frame v u" using frame_srv_back' [OF assms(2) u] assms(3) by auto
  then show "runnable u" using assms(1) runnable_frame by (auto simp: loop_ok_def)
qed

subsection \<open>The default response of a teardown\<close>

text \<open>Outside the busy state a response is refused: handling a message in the teardown path only
  destroys its record.\<close>

lemma teardown_handle_eq:
  assumes "ctx_state_of w \<noteq> Some eaf_ctx_state_busy" "w_recs w r = Some m" "w_mheap w (r_msg m) = Some f"
    "srv w s = Some v" "malloc (e_menv E w) (sizeof_msg_full (e_menv E w)) = Some a" "w_mheap w a = None"
    "0 \<le> lock_init (e_menv E w)"
  shows "eaf_service_teardown_handle_message E s r w = eaf_service_destroy_msg_record r w"
proof (cases "eaf_msg_get_type (msg f)")
  case eaf_msg_type_req
  let ?rsp = "eaf_msg_create_rsp (e_menv E w) (w_mheap w) (msg f) 0"
  obtain rm where rm: "?rsp = (Some a, (w_mheap w)(a \<mapsto> rm))" "refcnt rm = 1"
    using assms(5,7) by (auto simp: eaf_msg_create_rsp_def eaf_msg_create_def Let_def upd_msg_def)
  obtain m' where m': "eaf_msg_set_receipt (msg rm) (word_of_int eaf_errno_state) = Some m'"
    by (simp add: eaf_msg_set_receipt_def eaf_errno_state_def Let_def)
  let ?w = "w\<lparr>w_mheap := (w_mheap w)(a \<mapsto> rm\<lparr>msg := m'\<rparr>)\<rparr>"
  have "ctx_state_of ?w \<noteq> Some eaf_ctx_state_busy" using assms(1) by simp
  then have send: "eaf_send_rsp E (s_id v) (r_from m) a ?w = Some (eaf_errno_state, ?w)"
    by (simp add: eaf_send_rsp_def)
  have undo: "eaf_msg_dec_ref ((w_mheap w)(a \<mapsto> rm\<lparr>msg := m'\<rparr>)) a = Some (w_mheap w)"
    using rm(2) assms(6) by (simp add: eaf_msg_dec_ref_def Let_def eaf_msg_destroy_def fun_upd_idem)
  show ?thesis using assms(2-4) eaf_msg_type_req rm m' send undo
    unfolding eaf_service_teardown_handle_message_def by simp
next
  case eaf_msg_type_rsp
  then show ?thesis using assms(2,3) by (simp add: eaf_service_teardown_handle_message_def)
qed

lemma destroy_after_update:
  "eaf_service_destroy_msg_record r (upd_srv s f w) =
     (case w_recs w r of None \<Rightarrow> None | Some m \<Rightarrow> (case eaf_msg_dec_ref (w_mheap w) (r_msg m) of None \<Rightarrow> None
      | Some H \<Rightarrow> Some ((upd_srv s f w)\<lparr>w_mheap := H, w_recs := (w_recs w)(r := None)\<rparr>)))"
  by (simp add: eaf_service_destroy_msg_record_def split: option.split)

lemma update_after_destroy:
  "eaf_service_destroy_msg_record r w \<bind> (\<lambda>w. Some (upd_srv s f w)) = eaf_service_destroy_msg_record r (upd_srv s f w)"
proof -
  have "upd_srv s f (w\<lparr>w_mheap := H, w_recs := R\<rparr>) = (upd_srv s f w)\<lparr>w_mheap := H, w_recs := R\<rparr>" for H R
    by (simp add: upd_srv_def upd_grp_def upd_ctx_def)
  then show ?thesis unfolding destroy_after_update
    by (auto simp: eaf_service_destroy_msg_record_def split: option.split)
qed

lemma finite_heap: "winv w \<Longrightarrow> finite (dom (w_mheap w))"
  by (simp add: winv_def mem_inv_def memok_def)

definition idle_ctx :: "world \<Rightarrow> bool" where
  "idle_ctx w \<longleftrightarrow> ctx_state_of w \<in> {Some eaf_ctx_state_teardown, Some eaf_ctx_state_exit}"

lemma idle_ctx_frame: "idle_ctx w \<Longrightarrow> frame S w w' \<Longrightarrow> idle_ctx w'"
  unfolding idle_ctx_def using frame_state by (fastforce simp: cstep_def)

context user_code
begin

subsection \<open>A turn of the event loop\<close>

lemma handle_new_message_good:
  assumes "winv w" "srv w s = Some v"
    "s_state v = eaf_service_state_busy \<or> s_state v = eaf_service_state_init1 \<and> s_queue v \<noteq> []"
    "grp w (fst s) = Some g" "g_cur_run g = Some (snd s)"
  shows "good {s} w (eaf_handle_new_message E s w) (\<lambda>w'. \<exists>v'. srv w' s = Some v' \<and>
    s_state v' \<in> {eaf_service_state_busy, eaf_service_state_yield, eaf_service_state_idle})"
    (is "good _ _ _ ?Q")
proof -
  define busy where "busy x \<longleftrightarrow> (\<exists>u h. srv x s = Some u \<and> s_state u = eaf_service_state_busy \<and>
    grp x (fst s) = Some h \<and> g_cur_run h = Some (snd s))" for x
  have main: "good {s} w' (srv w' s \<bind> (\<lambda>v. if s_state v \<noteq> eaf_service_state_busy then None
     else if s_cur_msg v \<noteq> None then eaf_service_resume_message E s w'
     else case s_queue v of
       [] \<Rightarrow> Some (eaf_service_set_state s eaf_service_state_idle w')
     | r # q \<Rightarrow> hook_message_handle_before E r (upd_srv s (\<lambda>v. v\<lparr>s_queue := q, s_cur_msg := Some r\<rparr>) w') \<bind>
         (\<lambda>(ret, w). if ret < 0 then eaf_service_reset s w else eaf_service_resume_message E s w))) ?Q"
    if w': "winv w'" "busy w'" for w'
  proof -
    obtain u h where u: "srv w' s = Some u" "s_state u = eaf_service_state_busy"
      and h: "grp w' (fst s) = Some h" "g_cur_run h = Some (snd s)" using w'(2) by (auto simp: busy_def)
    have ok: "srv_ok u" using srv_okD [OF w'(1) u(1)] .
    consider "s_cur_msg u \<noteq> None" | "s_cur_msg u = None" "s_queue u = []"
      | r q where "s_cur_msg u = None" "s_queue u = r # q" by (cases "s_queue u") auto
    then show ?thesis
    proof cases
      case 1
      then obtain r where r: "s_cur_msg u = Some r" by blast
      show ?thesis using r u by (auto intro: good_mono [OF resume_message_good [OF w'(1) u r h]])
    next
      case 2
      let ?i = "eaf_service_set_state s eaf_service_state_idle w'"
      have "winv ?i" using 2 ok u(2) by (intro winv_set_state [OF w'(1) u(1)]) (auto simp: srv_ok_def)
      moreover have "frame {s} w' ?i" by (rule frame_set_state) simp
      ultimately show ?thesis using 2 u by (simp add: good_def)
    next
      case (3 r q)
      let ?p = "upd_srv s (\<lambda>v. v\<lparr>s_queue := q, s_cur_msg := Some r\<rparr>) w'"
      let ?u = "u\<lparr>s_queue := q, s_cur_msg := Some r\<rparr>"
      have p: "winv ?p" using 3 ok u(2)
        by (intro winv_upd_srv [OF w'(1) u(1)]) (auto simp: srv_ok_def srv_recs_def)
      have srv: "srv ?p s = Some ?u" using u(1) by simp
      have hp: "grp ?p (fst s) = Some (upd_srv_g (snd s) (\<lambda>v. v\<lparr>s_queue := q, s_cur_msg := Some r\<rparr>) h)"
        using h by (simp add: upd_srv_def)
      have "good {s} ?p (hook_message_handle_before E r ?p \<bind>
         (\<lambda>(ret, w). if ret < 0 then eaf_service_reset s w else eaf_service_resume_message E s w)) ?Q"
      proof (rule good_bind_r [OF goodr_mono [OF handle_hook_good(1) [OF p srv]]])
        show "r \<in> set (srv_recs ?u)" by (simp add: srv_recs_def)
        fix ret x assume x: "winv x" "frame {} ?p x"
        obtain y where y: "srv x s = Some y" "s_state y = eaf_service_state_busy" "s_cur_msg y = Some r"
          using frame_running [OF x(2) _ srv] u(2) by auto
        obtain hx where hx: "grp x (fst s) = Some hx" "g_cur_run hx = Some (snd s)"
          using frame_cur_run [OF x(2) _ hp] h(2) by (auto simp: upd_srv_g_def)
        show "good {s} x (case (ret, x) of (ret, w) \<Rightarrow> if ret < 0 then eaf_service_reset s w else eaf_service_resume_message E s w) ?Q"
          using good_mono [OF reset_good [OF x(1) y(1,3)], of "{s}" ?Q]
            good_mono [OF resume_message_good [OF x(1) y hx], of "{s}" ?Q] y(2)
          by (cases "ret < 0") auto
      qed auto
      moreover have "frame {s} w' ?p" by (rule frame_upd_srv) simp
      ultimately show ?thesis using u 3 good_step by simp
    qed
  qed
  define first where "first = (if s_state v = eaf_service_state_init1 then eaf_do_service_init E s w else Some w)"
  have "good {s} w first busy"
  proof (cases "s_state v = eaf_service_state_init1")
    case True
    have "good {s} w (eaf_do_service_init E s w) busy"
    proof (rule good_mono [OF do_init_good [OF assms(1,2) True]])
      fix w' assume f: "frame {s} w w'"
        "\<exists>v'. srv w' s = Some v' \<and> srv_frame v (v'\<lparr>s_state := s_state v\<rparr>) \<and>
          s_state v' = (if s_queue v' = [] then eaf_service_state_idle else eaf_service_state_busy)"
      then obtain v' where v': "srv w' s = Some v'" "srv_frame v (v'\<lparr>s_state := s_state v\<rparr>)"
        "s_state v' = (if s_queue v' = [] then eaf_service_state_idle else eaf_service_state_busy)" by blast
      have "s_queue v' \<noteq> []" using v'(2) assms(3) True by (auto simp: srv_frame_def)
      then show "busy w'" using v' frame_cur_run [OF f(1) _ assms(4)] assms(5) by (auto simp: busy_def)
    qed simp
    then show ?thesis using True by (simp add: first_def)
  next
    case False
    then show ?thesis using assms by (auto simp: first_def busy_def intro!: good_return)
  qed
  moreover have "eaf_handle_new_message E s w = first \<bind> (\<lambda>w'. srv w' s \<bind> (\<lambda>v. if s_state v \<noteq> eaf_service_state_busy then None
     else if s_cur_msg v \<noteq> None then eaf_service_resume_message E s w'
     else case s_queue v of
       [] \<Rightarrow> Some (eaf_service_set_state s eaf_service_state_idle w')
     | r # q \<Rightarrow> hook_message_handle_before E r (upd_srv s (\<lambda>v. v\<lparr>s_queue := q, s_cur_msg := Some r\<rparr>) w') \<bind>
         (\<lambda>(ret, w). if ret < 0 then eaf_service_reset s w else eaf_service_resume_message E s w)))"
    using assms(2) unfolding eaf_handle_new_message_def first_def Let_def by simp
  ultimately show ?thesis using good_bind [OF _ main] by (simp del: split_paired_All)
qed

lemma thread_loop_good:
  assumes "winv w" "grp w gi = Some g" "loop_ok gi w"
  shows "\<exists>x. eaf_service_thread_loop E gi w = Some x \<and>
    (case x of None \<Rightarrow> g_busy g = []
     | Some w' \<Rightarrow> winv w' \<and> frame ({gi} \<times> UNIV) w w' \<and> loop_ok gi w')"
proof (cases "g_busy g")
  case Nil
  then show ?thesis using assms(2) by (simp add: eaf_service_thread_loop_def eaf_get_first_busy_service_def)
next
  case (Cons si rest)
  then have "si \<in> set (g_busy g)" by simp
  then have si: "si < length (g_services g)" "\<not> in_wait_list (s_state (g_services g ! si))"
    using lists_okD [OF assms(1,2)] by (auto simp: lists_ok_def)
  define v where "v = g_services g ! si"
  have v: "srv w (gi, si) = Some v" using srv_of_grp [OF assms(2) si(1)] by (simp add: v_def)
  let ?w = "eaf_group_clear_cc0 gi (eaf_group_set_cur_run gi si (sem_trypend gi w))"
  have st: "s_state v = eaf_service_state_busy \<or> s_state v = eaf_service_state_init1 \<and> s_queue v \<noteq> []"
    using si(2) assms(3) v unfolding v_def [symmetric]
    by (cases "s_state v") (auto simp: in_wait_list_def loop_ok_def runnable_def)
  have w: "winv ?w" by (intro winv_sem winv_set_cur_run [where v = v]) (use assms(1) v in auto)
  have srv: "srv ?w s = srv w s" for s by simp
  have g: "grp ?w gi = Some (g\<lparr>g_sem := g_sem g - 1, g_cur_run := Some si, g_cc0 := 0\<rparr>)"
    using assms(2) by (simp add: sem_trypend_def eaf_group_set_cur_run_def eaf_group_clear_cc0_def)
  have fr: "frame ({gi} \<times> UNIV) w ?w"
    by (rule frame_trans [OF frame_trans [OF frame_sem(2) frame_sem(4)] frame_sem(3)]) (auto simp: image_iff)
  have "good {(gi, si)} ?w (eaf_handle_new_message E (gi, si) ?w) (\<lambda>w'. \<exists>v'. srv w' (gi, si) = Some v' \<and>
    s_state v' \<in> {eaf_service_state_busy, eaf_service_state_yield, eaf_service_state_idle})"
    using handle_new_message_good [OF w] v st g by simp
  then obtain w' v' where w': "eaf_handle_new_message E (gi, si) ?w = Some w'" "winv w'" "frame {(gi, si)} ?w w'"
    "srv w' (gi, si) = Some v'" "s_state v' \<in> {eaf_service_state_busy, eaf_service_state_yield, eaf_service_state_idle}"
    by (auto simp: good_def)
  have "loop_ok gi ?w" using assms(3) by (simp add: loop_ok_def)
  then have "loop_ok gi w'" by (rule loop_ok_frame1 [OF _ w'(3,4)]) (use w'(5) in \<open>auto simp: runnable_def\<close>)
  moreover have "frame ({gi} \<times> UNIV) w w'" using frame_trans [OF fr frame_mono [OF w'(3)]] by simp
  ultimately show ?thesis using Cons assms(2) w'(1,2)
    by (simp add: eaf_service_thread_loop_def eaf_get_first_busy_service_def Let_def)
qed


subsection \<open>Teardown of a service\<close>

lemma teardown_handle:
  assumes "winv w" "idle_ctx w" "srv w s = Some v" "w_recs w r = Some m" "w_mheap w (r_msg m) = Some f"
  shows "eaf_service_teardown_handle_message E s r w = eaf_service_destroy_msg_record r w"
proof -
  obtain a where "malloc (e_menv E w) (sizeof_msg_full (e_menv E w)) = Some a" "w_mheap w a = None" "0 \<le> lock_init (e_menv E w)"
    using malloc_ok [OF finite_heap [OF assms(1)]] by blast
  then show ?thesis using assms by (intro teardown_handle_eq) (auto simp: idle_ctx_def)
qed

lemma drain_good:
  assumes "winv w" "idle_ctx w" "srv w s = Some v" "s_state v = eaf_service_state_exit0"
  shows "good {s} w (teardown_drain E s w) (\<lambda>w'. srv w' s = Some (v\<lparr>s_queue := []\<rparr>))"
  using assms
proof (induction "s_queue v" arbitrary: w v)
  case Nil
  have "v\<lparr>s_queue := []\<rparr> = v" using Nil(1) by simp
  then show ?case using Nil by (subst teardown_drain.simps) (simp add: good_return)
next
  case (Cons r q)
  let ?f = "\<lambda>v. v\<lparr>s_queue := q\<rparr>"
  have "srv_ok (?f v)" using srv_okD [OF Cons(3,5)] Cons(6) by (simp add: srv_ok_def split: if_splits)
  then obtain m H' where m: "w_recs w r = Some m" "eaf_msg_dec_ref (w_mheap w) (r_msg m) = Some H'"
    "winv ((upd_srv s ?f w)\<lparr>w_mheap := H', w_recs := (w_recs w)(r := None)\<rparr>)"
    "frame {s} w ((upd_srv s ?f w)\<lparr>w_mheap := H', w_recs := (w_recs w)(r := None)\<rparr>)"
    using destroy_record [OF Cons(3,5), of r ?f] Cons(2) [symmetric] by (auto simp: srv_recs_def)
  let ?w = "(upd_srv s ?f w)\<lparr>w_mheap := H', w_recs := (w_recs w)(r := None)\<rparr>"
  have d: "eaf_service_destroy_msg_record r (upd_srv s ?f w) = Some ?w"
    using m(1,2) by (simp add: destroy_after_update)
  obtain f where f: "w_mheap w (r_msg m) = Some f" using m(2) by (auto simp: eaf_msg_dec_ref_def split: option.splits)
  have fr: "frame {s} w (upd_srv s ?f w)" by (rule frame_upd_srv) simp
  have h: "eaf_service_teardown_handle_message E s r (upd_srv s ?f w) = Some ?w"
  proof -
    obtain a where "malloc (e_menv E (upd_srv s ?f w)) (sizeof_msg_full (e_menv E (upd_srv s ?f w))) = Some a"
      "w_mheap (upd_srv s ?f w) a = None" "0 \<le> lock_init (e_menv E (upd_srv s ?f w))"
      using malloc_ok [of "upd_srv s ?f w"] finite_heap [OF Cons(3)] by auto
    then have "eaf_service_teardown_handle_message E s r (upd_srv s ?f w) = eaf_service_destroy_msg_record r (upd_srv s ?f w)"
      using m(1) f Cons(4,5) by (intro teardown_handle_eq [where v = "?f v"]) (auto simp: idle_ctx_def)
    then show ?thesis using d by simp
  qed
  have IH: "good {s} ?w (teardown_drain E s ?w) (\<lambda>w'. srv w' s = Some ((?f v)\<lparr>s_queue := []\<rparr>))"
    by (rule Cons(1)) (use m(3) idle_ctx_frame [OF Cons(4) m(4)] Cons(5,6) in auto)
  have "teardown_drain E s w = teardown_drain E s ?w"
    using Cons(2) [symmetric] Cons(5) h unfolding teardown_drain.simps [of E s w] by simp
  then show ?case using good_step [OF IH m(4)] by simp
qed

lemma cleanup_msgq_good:
  assumes "winv w" "idle_ctx w" "srv w s = Some v" "s_state v = eaf_service_state_exit0"
  shows "good {s} w (eaf_service_teardown_cleanup_msgq E s w) (\<lambda>w'. srv w' s = Some (v\<lparr>s_cur_msg := None, s_queue := []\<rparr>))"
proof (cases "s_cur_msg v")
  case None
  have eq: "v\<lparr>s_cur_msg := None, s_queue := []\<rparr> = v\<lparr>s_queue := []\<rparr>" using None by simp
  show ?thesis unfolding eq using drain_good [OF assms] None assms(3) by (simp add: eaf_service_teardown_cleanup_msgq_def)
next
  case (Some r)
  let ?f = "\<lambda>v. v\<lparr>s_cur_msg := None\<rparr>"
  have "srv_ok (?f v)" using srv_okD [OF assms(1,3)] assms(4) by (auto simp: srv_ok_def)
  then obtain m H' where m: "w_recs w r = Some m" "eaf_msg_dec_ref (w_mheap w) (r_msg m) = Some H'"
    "winv ((upd_srv s ?f w)\<lparr>w_mheap := H', w_recs := (w_recs w)(r := None)\<rparr>)"
    "frame {s} w ((upd_srv s ?f w)\<lparr>w_mheap := H', w_recs := (w_recs w)(r := None)\<rparr>)"
    using destroy_record [OF assms(1,3), of r ?f] Some by (auto simp: srv_recs_def)
  let ?w = "(upd_srv s ?f w)\<lparr>w_mheap := H', w_recs := (w_recs w)(r := None)\<rparr>"
  obtain f where f: "w_mheap w (r_msg m) = Some f" using m(2) by (auto simp: eaf_msg_dec_ref_def split: option.splits)
  have h: "eaf_service_teardown_handle_message E s r w \<bind> (\<lambda>w. Some (upd_srv s ?f w)) = Some ?w"
    using teardown_handle [OF assms(1-3) m(1) f] update_after_destroy [of r w s ?f] m(1,2)
    by (simp add: destroy_after_update)
  have "good {s} ?w (teardown_drain E s ?w) (\<lambda>w'. srv w' s = Some ((?f v)\<lparr>s_queue := []\<rparr>))"
    by (rule drain_good) (use m(3) idle_ctx_frame [OF assms(2) m(4)] assms(3,4) in auto)
  moreover have "eaf_service_teardown_cleanup_msgq E s w = teardown_drain E s ?w"
    using Some assms(3) h by (simp add: eaf_service_teardown_cleanup_msgq_def)
  ultimately show ?thesis using good_step [OF _ m(4)] by simp
qed

end

end
