(* ===== verification/ServiceGroup.thy ===== *)
theory ServiceGroup
  imports ServiceThread
begin

text \<open>
  The loops of a group thread over its services (initialisation, teardown, exit), the thread itself
  and the cleanup after the threads have ended.
\<close>

context user_code
begin

subsection \<open>Initialisation of a group\<close>

text \<open>The services before \<open>idx\<close> can be run already, none is in exit.\<close>

lemma init_loop_good:
  assumes "winv w" "grp w gi = Some g" "idx + n = length (g_services g)" "start_ok gi w"
    "\<And>i v. i < idx \<Longrightarrow> srv w (gi, i) = Some v \<Longrightarrow> runnable v"
  shows "goodr ({gi} \<times> UNIV) w (init_loop E gi idx n counter w) (\<lambda>_. loop_ok gi)"
  using assms
proof (induction n arbitrary: idx counter w g)
  case 0
  have "loop_ok gi w" unfolding loop_ok_def
  proof (intro allI impI)
    fix i v assume v: "srv w (gi, i) = Some v"
    then have "i < idx" using srv_grp [OF v] 0(2,3) by auto
    then show "runnable v" using 0(5) v by blast
  qed
  then show ?case using 0(1) by (simp add: goodr_return)
next
  case (Suc n)
  let ?w = "eaf_group_set_cur_run gi idx w"
  have idx: "idx < length (g_services g)" using Suc(4) by simp
  define v where "v = g_services g ! idx"
  have v: "srv w (gi, idx) = Some v" using srv_of_grp [OF Suc(3) idx] by (simp add: v_def)
  have w: "winv ?w" by (rule winv_set_cur_run [OF Suc(2) v])
  have g: "grp ?w gi = Some (g\<lparr>g_cur_run := Some idx\<rparr>)" using Suc(3) by (simp add: eaf_group_set_cur_run_def)
  have fr: "frame ({gi} \<times> UNIV) w ?w" by (rule frame_sem) simp
  have start: "start_ok gi ?w" using Suc(5) by (simp add: start_ok_def)
  have step: "goodr ({gi} \<times> UNIV) x (init_loop E gi (idx + 1) n k x) (\<lambda>_. loop_ok gi)"
    if x: "winv x" "frame {(gi, idx)} ?w x" "srv x (gi, idx) = Some u" "runnable u" for x k u
  proof -
    obtain h where h: "grp x gi = Some h" "length (g_services h) = length (g_services g)"
      using frame_grp [OF x(2) g] by auto
    have other: "\<exists>u. srv w (gi, i) = Some u \<and> srv_frame u v'" if "srv x (gi, i) = Some v'" "i \<noteq> idx" for i v'
      using frame_srv_back' [OF x(2) that(1)] that(2) by auto
    have "start_ok gi x" unfolding start_ok_def
    proof (intro allI impI)
      fix i v' assume v': "srv x (gi, i) = Some v'"
      show "s_state v' \<noteq> eaf_service_state_exit0"
        using other [OF v'] v' x(3,4) Suc(5) by (cases "i = idx") (auto simp: runnable_def start_ok_def srv_frame_def)
    qed
    moreover have "runnable v'" if r: "i < idx + 1" "srv x (gi, i) = Some v'" for i v'
    proof (cases "i = idx")
      case False
      then obtain u' where "srv w (gi, i) = Some u'" "srv_frame u' v'" using other [OF r(2)] by blast
      moreover have "i < idx" using False r(1) by simp
      ultimately show ?thesis using Suc(6) runnable_frame by blast
    qed (use r x(3,4) in simp)
    ultimately show ?thesis using Suc(4) h x(1) by (intro Suc(1) [where g = h]) auto
  qed
  show ?case
  proof (cases "s_state v = eaf_service_state_init1")
    case True
    have srv: "srv ?w (gi, idx) = Some v" using v by simp
    have "goodr ({gi} \<times> UNIV) ?w (eaf_do_service_init E (gi, idx) ?w \<bind> (\<lambda>w. init_loop E gi (idx + 1) n (counter + 1) w)) (\<lambda>_. loop_ok gi)"
    proof (rule goodr_bind)
      show "good ({gi} \<times> UNIV) ?w (eaf_do_service_init E (gi, idx) ?w)
        (\<lambda>x. frame {(gi, idx)} ?w x \<and> (\<exists>u. srv x (gi, idx) = Some u \<and> runnable u))"
        by (rule good_mono [OF do_init_good [OF w srv True]]) (auto simp: runnable_def)
    qed (use step in blast)
    then have "goodr ({gi} \<times> UNIV) ?w (init_loop E gi idx (Suc n) counter w) (\<lambda>_. loop_ok gi)"
      using True v by (simp add: Let_def)
    then show ?thesis by (rule goodr_step [OF _ fr])
  next
    case False
    have "runnable v" using Suc(5) v False by (auto simp: start_ok_def runnable_def)
    then show ?thesis using step [of ?w v] w v False by (simp add: Let_def goodr_step [OF _ fr])
  qed
qed

lemma group_init_good:
  assumes "winv w" "grp w gi = Some g" "start_ok gi w"
  shows "goodr ({gi} \<times> UNIV) w (eaf_group_init_necessary E gi w) (\<lambda>_. loop_ok gi)"
  using init_loop_good [OF assms(1,2) _ assms(3), of 0] assms(2) by (simp add: eaf_group_init_necessary_def)

subsection \<open>Teardown of a group\<close>

lemma exit1_good:
  assumes "winv w" "srv w s = Some v" "s_state v = eaf_service_state_exit0"
  shows "good {s} w (Some (eaf_service_set_state s eaf_service_state_exit1 w)) (\<lambda>w'. \<exists>v'. srv w' s = Some v' \<and> s_state v' = eaf_service_state_exit1)"
proof -
  have "winv (eaf_service_set_state s eaf_service_state_exit1 w)"
    using srv_okD [OF assms(1,2)] assms(3) by (intro winv_set_state [OF assms(1,2)]) (auto simp: srv_ok_def)
  moreover have "frame {s} w (eaf_service_set_state s eaf_service_state_exit1 w)" by (rule frame_set_state) simp
  ultimately show ?thesis using assms(2) by (simp add: good_def)
qed

lemma exit0_good:
  assumes "winv w" "srv w s = Some v" "s_entry v = Some e" "s_state v \<noteq> eaf_service_state_exit1"
  shows "winv (eaf_service_set_state s eaf_service_state_exit0 w)" "frame {s} w (eaf_service_set_state s eaf_service_state_exit0 w)"
  using assms(3) by (auto intro!: winv_set_state [OF assms(1,2)] frame_set_state simp: srv_ok_def)

lemma teardown_loop_good:
  assumes "winv w" "idle_ctx w" "grp w gi = Some g" "i + n = length (g_services g)" "loop_ok gi w"
  shows "good ({gi} \<times> UNIV) w (teardown_loop E gi i n w) (\<lambda>w'. loop_ok gi w' \<and> idle_ctx w')"
  using assms
proof (induction n arbitrary: i w g)
  case 0
  then show ?case by (simp add: good_return)
next
  case (Suc n)
  have i: "i < length (g_services g)" using Suc(5) by simp
  define v where "v = g_services g ! i"
  have v: "srv w (gi, i) = Some v" using srv_of_grp [OF Suc(4) i] by (simp add: v_def)
  consider "s_entry v = None \<or> s_alive v" | e where "s_entry v = Some e" "\<not> s_alive v" by (cases "s_entry v") auto
  then show ?case
  proof cases
    case 1
    have "good ({gi} \<times> UNIV) w (teardown_loop E gi (i + 1) n w) (\<lambda>w'. loop_ok gi w' \<and> idle_ctx w')"
      using Suc(1) [OF Suc(2,3,4) _ Suc(6), of "i + 1"] Suc(5) by simp
    then show ?thesis using 1 v by (auto split: option.split)
  next
    case (2 e)
    let ?s = "(gi, i)"
    let ?w = "eaf_service_set_state ?s eaf_service_state_exit0 w"
    have w: "winv ?w" "frame {?s} w ?w"
    proof -
      have "srv_ok (v\<lparr>s_state := eaf_service_state_exit0\<rparr>)" using 2 by (auto simp: srv_ok_def)
      then show "winv ?w" by (rule winv_set_state [OF Suc(2) v]) simp
      show "frame {?s} w ?w" by (rule frame_set_state) simp
    qed
    have srv: "srv ?w ?s = Some (v\<lparr>s_state := eaf_service_state_exit0\<rparr>)" using v by simp
    define Q where "Q x \<longleftrightarrow> (\<exists>u. srv x ?s = Some u \<and> s_state u = eaf_service_state_exit0)" for x
    have "good {?s} ?w (e_ucode E (UExit (ep_on_exit e)) ?w \<bind> (\<lambda>(_, w). eaf_service_teardown_cleanup_msgq E ?s w \<bind>
      (\<lambda>w. Some (eaf_service_set_state ?s eaf_service_state_exit1 w))))
      (\<lambda>x. \<exists>u. srv x ?s = Some u \<and> s_state u = eaf_service_state_exit1)"
    proof (rule good_bind_r [OF goodr_mono [OF user_good [OF w(1)]]])
      fix r x assume x: "winv x" "frame {} ?w x" "frame {?s} ?w x"
      obtain u where u: "srv x ?s = Some u" "s_state u = eaf_service_state_exit0"
        using frame_running [OF x(2) _ srv] by auto
      have "idle_ctx x" using idle_ctx_frame [OF idle_ctx_frame [OF Suc(3) w(2)] x(2)] .
      then have "good {?s} x (eaf_service_teardown_cleanup_msgq E ?s x) Q"
        using u by (intro good_mono [OF cleanup_msgq_good [OF x(1) _ u]]) (auto simp: Q_def)
      then have "good {?s} x (eaf_service_teardown_cleanup_msgq E ?s x \<bind> (\<lambda>w. Some (eaf_service_set_state ?s eaf_service_state_exit1 w)))
        (\<lambda>x. \<exists>u. srv x ?s = Some u \<and> s_state u = eaf_service_state_exit1)"
        by (rule good_bind) (auto simp: Q_def intro: exit1_good)
      then show "good {?s} x (case (r, x) of (_, w) \<Rightarrow> eaf_service_teardown_cleanup_msgq E ?s w \<bind>
          (\<lambda>w. Some (eaf_service_set_state ?s eaf_service_state_exit1 w)))
        (\<lambda>x. \<exists>u. srv x ?s = Some u \<and> s_state u = eaf_service_state_exit1)" by simp
    qed auto
    then have one: "good {?s} w (e_ucode E (UExit (ep_on_exit e)) ?w \<bind> (\<lambda>(_, w). eaf_service_teardown_cleanup_msgq E ?s w \<bind>
      (\<lambda>w. Some (eaf_service_set_state ?s eaf_service_state_exit1 w))))
      (\<lambda>x. \<exists>u. srv x ?s = Some u \<and> s_state u = eaf_service_state_exit1)"
      by (rule good_step [OF _ w(2)])
    have "good ({gi} \<times> UNIV) w ((e_ucode E (UExit (ep_on_exit e)) ?w \<bind> (\<lambda>(_, w). eaf_service_teardown_cleanup_msgq E ?s w \<bind>
      (\<lambda>w. Some (eaf_service_set_state ?s eaf_service_state_exit1 w)))) \<bind> teardown_loop E gi (i + 1) n)
      (\<lambda>w'. loop_ok gi w' \<and> idle_ctx w')"
    proof (rule good_bind [OF good_mono [OF one]])
      fix x assume x: "winv x" "frame {?s} w x" "\<exists>u. srv x ?s = Some u \<and> s_state u = eaf_service_state_exit1"
      show "frame {?s} w x \<and> (\<exists>u. srv x ?s = Some u \<and> s_state u = eaf_service_state_exit1)" using x by blast
    next
      fix x assume x: "winv x" "frame {?s} w x \<and> (\<exists>u. srv x ?s = Some u \<and> s_state u = eaf_service_state_exit1)"
      then obtain u where u: "srv x ?s = Some u" "s_state u = eaf_service_state_exit1" by blast
      have "loop_ok gi x" using x u by (intro loop_ok_frame1 [OF Suc(6) _ u(1)]) (auto simp: runnable_def)
      moreover obtain h where "grp x gi = Some h" "length (g_services h) = length (g_services g)"
        using frame_grp [OF _ Suc(4)] x(2) by blast
      ultimately show "good ({gi} \<times> UNIV) x (teardown_loop E gi (i + 1) n x) (\<lambda>w'. loop_ok gi w' \<and> idle_ctx w')"
        using Suc(5) x idle_ctx_frame [OF Suc(3)] by (intro Suc(1) [where g = h]) auto
    qed auto
    moreover have "teardown_loop E gi i (Suc n) w = (e_ucode E (UExit (ep_on_exit e)) ?w \<bind> (\<lambda>(_, w). eaf_service_teardown_cleanup_msgq E ?s w \<bind>
      (\<lambda>w. Some (eaf_service_set_state ?s eaf_service_state_exit1 w)))) \<bind> teardown_loop E gi (i + 1) n"
      using v 2 unfolding teardown_loop.simps Let_def by (simp add: case_prod_unfold)
    ultimately show ?thesis by simp
  qed
qed


lemma group_teardown_good:
  assumes "winv w" "idle_ctx w" "grp w gi = Some g" "loop_ok gi w"
  shows "good ({gi} \<times> UNIV) w (eaf_service_teardown E gi w) (\<lambda>w'. loop_ok gi w' \<and> idle_ctx w')"
  using teardown_loop_good [OF assms(1-3) _ assms(4), of 0] assms(3) by (simp add: eaf_service_teardown_def)

subsection \<open>Exit of a group\<close>

lemma exit_loop_good:
  assumes "winv w" "grp w gi = Some g" "n \<le> length (g_services g)"
  shows "good ({gi} \<times> UNIV) w (group_exit_loop E gi n w) (\<lambda>w'.
    (\<forall>i v. i < n \<longrightarrow> srv w (gi, i) = Some v \<longrightarrow> s_entry v \<noteq> None \<longrightarrow>
       (\<exists>v'. srv w' (gi, i) = Some v' \<and> s_state v' = eaf_service_state_exit1)) \<and>
    (\<forall>i v. n \<le> i \<longrightarrow> srv w (gi, i) = Some v \<longrightarrow> (\<exists>v'. srv w' (gi, i) = Some v' \<and> srv_frame v v')))"
  using assms
proof (induction n arbitrary: w g)
  case 0
  then show ?case by (simp add: good_return)
next
  case (Suc i)
  let ?s = "(gi, i)"
  let ?P = "\<lambda>n w w'. (\<forall>i v. i < n \<longrightarrow> srv w (gi, i) = Some v \<longrightarrow> s_entry v \<noteq> None \<longrightarrow>
       (\<exists>v'. srv w' (gi, i) = Some v' \<and> s_state v' = eaf_service_state_exit1)) \<and>
    (\<forall>i v. n \<le> i \<longrightarrow> srv w (gi, i) = Some v \<longrightarrow> (\<exists>v'. srv w' (gi, i) = Some v' \<and> srv_frame v v'))"
  have i: "i < length (g_services g)" using Suc(4) by simp
  define v where "v = g_services g ! i"
  have v: "srv w ?s = Some v" using srv_of_grp [OF Suc(3) i] by (simp add: v_def)
  have rest: "good ({gi} \<times> UNIV) w (group_exit_loop E gi i x) (?P (Suc i) w)"
    if x: "winv x" "frame ({gi} \<times> UNIV) w x"
      "\<And>j u. j \<noteq> i \<Longrightarrow> srv w (gi, j) = Some u \<Longrightarrow> \<exists>u'. srv x (gi, j) = Some u' \<and> srv_frame u u'"
      "srv x ?s = Some u" "s_entry v \<noteq> None \<longrightarrow> s_state u = eaf_service_state_exit1" for x u
  proof -
    obtain h where h: "grp x gi = Some h" "length (g_services h) = length (g_services g)"
      using frame_grp [OF x(2) Suc(3)] by blast
    have "good ({gi} \<times> UNIV) x (group_exit_loop E gi i x) (?P i x)"
      by (rule Suc(1) [OF x(1) h(1)]) (use h(2) Suc(4) in simp)
    then have "good ({gi} \<times> UNIV) w (group_exit_loop E gi i x) (?P i x)" by (rule good_step [OF _ x(2)])
    then show ?thesis
    proof (rule good_mono)
      fix y assume P: "?P i x y"
      have "\<exists>v'. srv y (gi, j) = Some v' \<and> s_state v' = eaf_service_state_exit1"
        if j: "j < Suc i" "srv w (gi, j) = Some t" "s_entry t \<noteq> None" for j t
      proof (cases "j = i")
        case True
        then obtain v' where "srv y ?s = Some v'" "srv_frame u v'" using P x(4) order_refl by blast
        then show ?thesis using x(5) j v True by (auto simp: srv_frame_def)
      next
        case False
        then obtain t' where t': "srv x (gi, j) = Some t'" "srv_frame t t'" using x(3) [OF False j(2)] by blast
        then have "s_entry t' \<noteq> None" using j(3) by (auto simp: srv_frame_def)
        then show ?thesis using P t'(1) j(1) False by (metis less_SucE)
      qed
      moreover have "\<exists>v'. srv y (gi, j) = Some v' \<and> srv_frame t v'" if j: "Suc i \<le> j" "srv w (gi, j) = Some t" for j t
      proof -
        obtain t' where t': "srv x (gi, j) = Some t'" "srv_frame t t'" using x(3) [OF _ j(2)] j(1) by auto
        then obtain v' where "srv y (gi, j) = Some v'" "srv_frame t' v'" using P j(1) Suc_leD by blast
        then show ?thesis using t'(2) srv_frame_trans by blast
      qed
      ultimately show "?P (Suc i) w y" by blast
    qed simp
  qed
  consider "s_entry v = None \<or> s_state v = eaf_service_state_exit1"
    | e where "s_entry v = Some e" "s_state v \<noteq> eaf_service_state_exit1" by (cases "s_entry v") auto
  then show ?case
  proof cases
    case 1
    have "good ({gi} \<times> UNIV) w (group_exit_loop E gi i w) (?P (Suc i) w)"
      by (rule rest [OF Suc(2) _ _ v]) (use 1 in auto)
    moreover have "group_exit_loop E gi (Suc i) w = group_exit_loop E gi i w"
      using 1 v by (auto split: option.split)
    ultimately show ?thesis by simp
  next
    case (2 e)
    let ?c = "eaf_group_set_cur_run gi i w"
    let ?w = "eaf_service_set_state ?s eaf_service_state_exit0 ?c"
    have c: "winv ?c" "srv ?c ?s = Some v" using winv_set_cur_run [OF Suc(2) v] v by simp_all
    have w: "winv ?w" "frame {?s} ?c ?w" using exit0_good [OF c 2] by auto
    have srv: "srv ?w ?s = Some (v\<lparr>s_state := eaf_service_state_exit0\<rparr>)" using v by simp
    define Q where "Q x \<longleftrightarrow> (\<exists>u. srv x ?s = Some u \<and> s_state u = eaf_service_state_exit0)" for x
    define R where "R x \<longleftrightarrow> (\<exists>u. srv x ?s = Some u \<and> s_state u = eaf_service_state_exit1)" for x
    have keep: "Q y" if "Q x" "frame {} x y" for x y
      using that frame_running [OF that(2)] unfolding Q_def by (metis empty_iff insertE srv_state.distinct)
    have "good {?s} ?w (hook_service_exit_before E (s_id v) ?w \<bind> (\<lambda>w. e_ucode E (UExit (ep_on_exit e)) w \<bind>
      (\<lambda>(_, w). hook_service_exit_after E (s_id v) w \<bind> (\<lambda>w. Some (eaf_service_set_state ?s eaf_service_state_exit1 w))))) R"
      unfolding hook_service_exit_before_def hook_service_exit_after_def
    proof (rule good_bind [OF good_mono [OF hook_service_good' [OF w(1)]]])
      fix x assume "frame {} ?w x"
      then show "Q x" by (rule keep [rotated]) (use v in \<open>simp add: Q_def\<close>)
    next
      fix x assume x: "winv x" "Q x"
      have "good {?s} x (e_ucode E (UExit (ep_on_exit e)) x \<bind> (\<lambda>p. hook_service E on_service_exit_after (s_id v) (snd p) \<bind>
        (\<lambda>w. Some (eaf_service_set_state ?s eaf_service_state_exit1 w)))) R"
      proof (rule good_bind_r [OF goodr_mono [OF user_good [OF x(1)]]])
        fix y r assume y: "winv y" "frame {} x y"
        show "Q y" by (rule keep [OF x(2) y(2)])
      next
        fix r y assume y: "winv y" "Q y"
        have "good {?s} y (hook_service E on_service_exit_after (s_id v) y \<bind> (\<lambda>w. Some (eaf_service_set_state ?s eaf_service_state_exit1 w))) R"
        proof (rule good_bind [OF good_mono [OF hook_service_good' [OF y(1)]]])
          fix z assume "frame {} y z"
          then show "Q z" by (rule keep [OF y(2)])
        next
          fix z assume "winv z" "Q z"
          then show "good {?s} z (Some (eaf_service_set_state ?s eaf_service_state_exit1 z)) R"
            unfolding Q_def R_def by (auto intro: exit1_good)
        qed auto
        then show "good {?s} y (hook_service E on_service_exit_after (s_id v) (snd (r, y)) \<bind>
          (\<lambda>w. Some (eaf_service_set_state ?s eaf_service_state_exit1 w))) R" by simp
      qed auto
      then show "good {?s} x (e_ucode E (UExit (ep_on_exit e)) x \<bind> (\<lambda>(_, w). hook_service E on_service_exit_after (s_id v) w \<bind>
        (\<lambda>w. Some (eaf_service_set_state ?s eaf_service_state_exit1 w)))) R" by (simp add: case_prod_unfold)
    qed auto
    then obtain x u where x: "hook_service_exit_before E (s_id v) ?w \<bind> (\<lambda>w. e_ucode E (UExit (ep_on_exit e)) w \<bind>
      (\<lambda>(_, w). hook_service_exit_after E (s_id v) w \<bind> (\<lambda>w. Some (eaf_service_set_state ?s eaf_service_state_exit1 w)))) = Some x"
      "winv x" "frame {?s} ?w x" "srv x ?s = Some u" "s_state u = eaf_service_state_exit1"
      by (auto simp: good_def R_def)
    have fr: "frame {?s} ?c x" using frame_trans [OF w(2) x(3)] .
    have "frame ({gi} \<times> UNIV) w x"
      by (rule frame_trans [OF frame_sem(4) frame_mono [OF fr]]) auto
    moreover have "\<exists>u'. srv x (gi, j) = Some u' \<and> srv_frame t u'" if "j \<noteq> i" "srv w (gi, j) = Some t" for j t
      using frame_srv [OF fr, of "(gi, j)" t] that by simp
    ultimately have "good ({gi} \<times> UNIV) w (group_exit_loop E gi i x) (?P (Suc i) w)"
      using rest [OF x(2) _ _ x(4)] x(5) by blast
    moreover have "group_exit_loop E gi (Suc i) w = group_exit_loop E gi i x"
    proof -
      have "group_exit_loop E gi (Suc i) w = (hook_service_exit_before E (s_id v) ?w \<bind> (\<lambda>w. e_ucode E (UExit (ep_on_exit e)) w \<bind>
        (\<lambda>(_, w). hook_service_exit_after E (s_id v) w \<bind> (\<lambda>w. Some (eaf_service_set_state ?s eaf_service_state_exit1 w))))) \<bind> group_exit_loop E gi i"
        using v 2 unfolding group_exit_loop.simps Let_def by (simp add: case_prod_unfold)
      then show ?thesis unfolding x(1) by simp
    qed
    ultimately show ?thesis by simp
  qed
qed

lemma group_exit_good:
  assumes "winv w" "grp w gi = Some g"
  shows "good ({gi} \<times> UNIV) w (eaf_group_exit E gi (length (g_services g)) w) (\<lambda>w'.
    \<forall>i v. srv w (gi, i) = Some v \<longrightarrow> s_entry v \<noteq> None \<longrightarrow> (\<exists>v'. srv w' (gi, i) = Some v' \<and> s_state v' = eaf_service_state_exit1))"
proof -
  have "i < length (g_services g)" if "srv w (gi, i) = Some v" for i v using srv_grp [OF that] assms(2) by auto
  then show ?thesis using assms(2)
    by (auto simp: eaf_group_exit_def intro!: good_mono [OF exit_loop_good [OF assms order_refl]])
qed

end

end
