(* ===== verification/ServiceCleanup.thy ===== *)
theory ServiceCleanup
  imports ServiceFrame
begin

text \<open>
  \<open>eaf_cleanup\<close> destroys every queue record exactly once and gives back exactly the references the
  queues held.
\<close>

definition clear_msgq :: "service \<Rightarrow> service" where
  "clear_msgq v = v\<lparr>s_queue := [], s_cur_msg := None\<rparr>"

definition released :: "addr multiset \<Rightarrow> world \<Rightarrow> world \<Rightarrow> bool" where
  "released M w w' \<longleftrightarrow> (\<forall>r. w_recs w' r = (if r \<in># M then None else w_recs w r)) \<and>
     (\<forall>a. refs (w_mheap w') a + count (image_mset (rmsg (w_recs w)) M) a = refs (w_mheap w) a)"

text \<open>What a cleanup does not change.\<close>

definition shape :: "world \<Rightarrow> (summary \<times> (addr \<times> hooks) option \<times> nat list) option" where
  "shape w = map_option (\<lambda>c. (c_summary c, c_hook c, map (\<lambda>g. length (g_services g)) (c_groups c))) (w_ctx w)"

definition cleaned :: "(nat \<times> nat) set \<Rightarrow> world \<Rightarrow> world \<Rightarrow> bool" where
  "cleaned S w w' \<longleftrightarrow> mem_inv w' \<and> (\<exists>M. wrecs w = M + wrecs w' \<and> released M w w') \<and> shape w' = shape w \<and>
     (\<forall>s. srv w' s = (if s \<in> S then map_option clear_msgq (srv w s) else srv w s))"

lemma shape_upd_srv: "shape (upd_srv s f w) = shape w"
proof (cases "w_ctx w")
  case (Some c)
  have "length (g_services (upd_srv_g (snd s) f g)) = length (g_services g)" for g by (simp add: upd_srv_g_def)
  then have "map (\<lambda>g. length (g_services g)) ((c_groups c)[fst s := upd_srv_g (snd s) f (c_groups c ! fst s)]) =
    map (\<lambda>g. length (g_services g)) (c_groups c)"
  proof (intro nth_equalityI)
    fix i assume "i < length (map (\<lambda>g. length (g_services g)) ((c_groups c)[fst s := upd_srv_g (snd s) f (c_groups c ! fst s)]))"
    then show "map (\<lambda>g. length (g_services g)) ((c_groups c)[fst s := upd_srv_g (snd s) f (c_groups c ! fst s)]) ! i =
      map (\<lambda>g. length (g_services g)) (c_groups c) ! i"
      using \<open>\<And>g. length (g_services (upd_srv_g (snd s) f g)) = length (g_services g)\<close> by (cases "i = fst s") auto
  qed simp
  then show ?thesis using Some by (simp add: shape_def upd_srv_def upd_grp_def)
qed (simp add: shape_def upd_srv_def upd_grp_def)

lemma destroy_exact:
  assumes "memok (add_mset r M) R H"
  shows "\<exists>m H'. R r = Some m \<and> eaf_msg_dec_ref H (r_msg m) = Some H' \<and> memok M (R(r := None)) H' \<and>
    (\<forall>a. refs H' a + (if a = r_msg m then 1 else 0) = refs H a)"
proof -
  obtain m H' where m: "R r = Some m" "eaf_msg_dec_ref H (r_msg m) = Some H'" "memok M (R(r := None)) H'"
    using memok_destroy [OF assms] by blast
  obtain m' f where f: "R r = Some m'" "H (r_msg m') = Some f" "refcnt f \<noteq> 0" by (rule memok_live [OF assms, of r]) auto
  then have "0 < refs H (r_msg m)" using m(1) by (auto simp: refs_def unat_gt_0)
  moreover have "refs H' (r_msg m) = refs H (r_msg m) - 1 \<and> (\<forall>b. b \<noteq> r_msg m \<longrightarrow> H' b = H b)"
    using dec_ref_refs [of H "r_msg m" f] m(1,2) f by auto
  ultimately have "\<forall>a. refs H' a + (if a = r_msg m then 1 else 0) = refs H a" by (auto simp: refs_def)
  with m show ?thesis by blast
qed

lemma memok_unique: "memok (M + N) R H \<Longrightarrow> r \<in># N \<Longrightarrow> r \<notin># M"
proof
  assume "memok (M + N) R H" "r \<in># N" "r \<in># M"
  then have "count M r + count N r \<le> 1" "0 < count M r" "0 < count N r" by (auto simp: memok_def)
  then show False by linarith
qed

lemma cleanup_queue_exact:
  assumes "memok (mset q + M) (w_recs w) (w_mheap w)"
  shows "\<exists>R' H'. cleanup_queue q w = Some (w\<lparr>w_mheap := H', w_recs := R'\<rparr>) \<and> memok M R' H' \<and>
    (\<forall>r. R' r = (if r \<in> set q then None else w_recs w r)) \<and>
    (\<forall>a. refs H' a + count (image_mset (rmsg (w_recs w)) (mset q)) a = refs (w_mheap w) a)"
  using assms
proof (induction q arbitrary: w)
  case Nil
  then show ?case by (intro exI [of _ "w_recs w"] exI [of _ "w_mheap w"]) simp
next
  case (Cons r q)
  have "memok (add_mset r (mset q + M)) (w_recs w) (w_mheap w)" using Cons(2) by simp
  then obtain m H' where m: "w_recs w r = Some m" "eaf_msg_dec_ref (w_mheap w) (r_msg m) = Some H'"
    "memok (mset q + M) ((w_recs w)(r := None)) H'"
    "\<forall>a. refs H' a + (if a = r_msg m then 1 else 0) = refs (w_mheap w) a" using destroy_exact by blast
  let ?w = "w\<lparr>w_mheap := H', w_recs := (w_recs w)(r := None)\<rparr>"
  obtain R'' H'' where c: "cleanup_queue q ?w = Some (?w\<lparr>w_mheap := H'', w_recs := R''\<rparr>)" "memok M R'' H''"
    "\<forall>s. R'' s = (if s \<in> set q then None else w_recs ?w s)"
    "\<forall>a. refs H'' a + count (image_mset (rmsg (w_recs ?w)) (mset q)) a = refs (w_mheap ?w) a"
  proof -
    have "memok (mset q + M) (w_recs ?w) (w_mheap ?w)" using m(3) by simp
    from Cons(1) [OF this] show thesis using that by blast
  qed
  have "memok ((mset q + M) + {#r#}) (w_recs w) (w_mheap w)" using Cons(2) by simp
  then have r: "r \<notin># mset q" using memok_unique by fastforce
  have img: "image_mset (rmsg (w_recs ?w)) (mset q) = image_mset (rmsg (w_recs w)) (mset q)"
    using r by (intro image_mset_cong) auto
  have refs: "refs H'' a + count (image_mset (rmsg (w_recs w)) (mset (r # q))) a = refs (w_mheap w) a" for a
    using c(4) m(1,4) unfolding img by (auto simp: add.assoc [symmetric] dest!: spec [of _ a])
  have "cleanup_queue (r # q) w = Some (w\<lparr>w_mheap := H'', w_recs := R''\<rparr>)"
    using m(1,2) c(1) by (simp add: eaf_service_destroy_msg_record_def)
  moreover have "R'' s = (if s \<in> set (r # q) then None else w_recs w s)" for s using c(3) by auto
  ultimately show ?case using c(2) refs by blast
qed

lemma cleanup_msgq_cleaned:
  assumes "mem_inv w" "srv w s = Some v"
  shows "\<exists>w'. eaf_cleanup_msgq s w = Some w' \<and> cleaned {s} w w'"
proof -
  let ?c = "upd_srv s clear_msgq w"
  let ?cur = "(case s_cur_msg v of None \<Rightarrow> [] | Some r \<Rightarrow> [r])"
  have recs: "wrecs w = mset (s_queue v @ ?cur) + wrecs ?c"
    using wrecs_upd_srv [OF assms(2), of clear_msgq] by (simp add: clear_msgq_def srv_recs_def ac_simps)
  have "memok (mset (s_queue v @ ?cur) + wrecs ?c) (w_recs w) (w_mheap w)" using assms(1) recs by (simp add: mem_inv_def)
  then obtain R' H' where c: "cleanup_queue (s_queue v @ ?cur) w = Some (w\<lparr>w_mheap := H', w_recs := R'\<rparr>)" "memok (wrecs ?c) R' H'"
    "\<forall>r. R' r = (if r \<in> set (s_queue v @ ?cur) then None else w_recs w r)"
    "\<forall>a. refs H' a + count (image_mset (rmsg (w_recs w)) (mset (s_queue v @ ?cur))) a = refs (w_mheap w) a"
    using cleanup_queue_exact by blast
  have split: "cleanup_queue (q @ q') = (\<lambda>x. cleanup_queue q x \<bind> cleanup_queue q')" for q q'
  proof (induction q)
    case (Cons r q)
    show ?case by (rule ext) (simp add: Cons)
  qed auto
  have commute: "cleanup_queue [r] (upd_srv s f x) = map_option (upd_srv s f) (cleanup_queue [r] x)" for r f x
    by (auto simp: eaf_service_destroy_msg_record_def upd_srv_def upd_grp_def upd_ctx_def split: option.split bind_splits)
  have map_bind: "map_option h x \<bind> k = x \<bind> (\<lambda>y. k (h y))" for h x and k :: "world \<Rightarrow> world option"
    by (cases x) simp_all
  have twice: "upd_srv s f (upd_srv s h x) = upd_srv s (\<lambda>v. f (h v)) x" if "srv x s \<noteq> None" for f h x
    using that srv_grp [of x s] grp_ctx [of x "fst s"]
    by (cases "w_ctx x") (auto simp: upd_srv_def upd_grp_def upd_ctx_def upd_srv_g_def)
  have other: "upd_srv s f (x\<lparr>w_mheap := H', w_recs := R'\<rparr>) = (upd_srv s f x)\<lparr>w_mheap := H', w_recs := R'\<rparr>" for f x
    by (simp add: upd_srv_def upd_grp_def upd_ctx_def)
  have "eaf_cleanup_msgq s w = Some (?c\<lparr>w_mheap := H', w_recs := R'\<rparr>)"
  proof (cases "s_cur_msg v")
    case None
    have "upd_srv s (\<lambda>v. v\<lparr>s_queue := []\<rparr>) w = ?c"
    proof -
      have "(g_services g)[snd s := (g_services g ! snd s)\<lparr>s_queue := []\<rparr>] = (g_services g)[snd s := clear_msgq (g_services g ! snd s)]"
        if "grp w (fst s) = Some g" for g
      proof -
        have "v = g_services g ! snd s" using srv_grp [OF assms(2)] that by auto
        then show ?thesis using None by (metis clear_msgq_def service.surjective service.update_convs(8,9))
      qed
      then show ?thesis using srv_grp [OF assms(2)] grp_ctx [of w "fst s"]
        by (auto simp: upd_srv_def upd_grp_def upd_ctx_def upd_srv_g_def)
    qed
    then show ?thesis using None assms(2) c(1) other by (simp add: eaf_cleanup_msgq_def Let_def)
  next
    case (Some r)
    have "eaf_cleanup_msgq s w = cleanup_queue (s_queue v) w \<bind> (\<lambda>w. cleanup_queue [r] (upd_srv s (\<lambda>v. v\<lparr>s_queue := []\<rparr>) w) \<bind>
       (\<lambda>w. Some (upd_srv s (\<lambda>v. v\<lparr>s_cur_msg := None\<rparr>) w)))"
      using Some assms(2) by (simp add: eaf_cleanup_msgq_def Let_def)
    also have "\<dots> = cleanup_queue (s_queue v) w \<bind> (\<lambda>w. cleanup_queue [r] w \<bind>
       (\<lambda>w. Some (upd_srv s (\<lambda>v. v\<lparr>s_cur_msg := None\<rparr>) (upd_srv s (\<lambda>v. v\<lparr>s_queue := []\<rparr>) w))))"
      unfolding commute map_bind ..
    also have "\<dots> = cleanup_queue (s_queue v @ [r]) w \<bind>
       (\<lambda>w. Some (upd_srv s (\<lambda>v. v\<lparr>s_cur_msg := None\<rparr>) (upd_srv s (\<lambda>v. v\<lparr>s_queue := []\<rparr>) w)))"
      unfolding split by simp
    also have "\<dots> = Some (?c\<lparr>w_mheap := H', w_recs := R'\<rparr>)"
      using c(1) Some assms(2) by (simp add: twice other clear_msgq_def [abs_def])
    finally show ?thesis .
  qed
  moreover have "cleaned {s} w (?c\<lparr>w_mheap := H', w_recs := R'\<rparr>)"
    unfolding cleaned_def
  proof (intro conjI)
    show "mem_inv (?c\<lparr>w_mheap := H', w_recs := R'\<rparr>)" using c(2) by (simp add: mem_inv_def)
    have "released (mset (s_queue v @ ?cur)) w (?c\<lparr>w_mheap := H', w_recs := R'\<rparr>)"
      unfolding released_def using c(3,4) by simp
    then show "\<exists>M. wrecs w = M + wrecs (?c\<lparr>w_mheap := H', w_recs := R'\<rparr>) \<and> released M w (?c\<lparr>w_mheap := H', w_recs := R'\<rparr>)"
      using recs by auto
    show "shape (?c\<lparr>w_mheap := H', w_recs := R'\<rparr>) = shape w"
      using shape_upd_srv [of s clear_msgq w] by (simp add: shape_def)
  qed simp
  ultimately show ?thesis by blast
qed


lemma cleaned_srv: "cleaned S w w' \<Longrightarrow> srv w' s = (if s \<in> S then map_option clear_msgq (srv w s) else srv w s)"
  unfolding cleaned_def by blast

lemma cleaned_refl: "mem_inv w \<Longrightarrow> cleaned {} w w"
  unfolding cleaned_def released_def by (auto intro!: exI [of _ "{#}"])

lemma released_trans:
  assumes "released M w w'" "released N w' w''" "\<And>r. r \<in># N \<Longrightarrow> r \<notin># M"
  shows "released (M + N) w w''"
proof -
  have img: "image_mset (rmsg (w_recs w')) N = image_mset (rmsg (w_recs w)) N"
    using assms(1,3) by (intro image_mset_cong) (auto simp: released_def)
  have "refs (w_mheap w'') a + count (image_mset (rmsg (w_recs w)) (M + N)) a = refs (w_mheap w) a" for a
  proof -
    have "refs (w_mheap w'') a + count (image_mset (rmsg (w_recs w)) N) a = refs (w_mheap w') a"
      using assms(2) img by (simp add: released_def)
    moreover have "refs (w_mheap w') a + count (image_mset (rmsg (w_recs w)) M) a = refs (w_mheap w) a"
      using assms(1) by (simp add: released_def)
    ultimately show ?thesis by simp
  qed
  then show ?thesis using assms(1,2) by (auto simp: released_def)
qed

lemma clear_msgq_idem [simp]: "clear_msgq (clear_msgq v) = clear_msgq v"
  by (simp add: clear_msgq_def)

lemma cleaned_trans:
  assumes "mem_inv w" "cleaned S w w'" "cleaned T w' w''"
  shows "cleaned (S \<union> T) w w''"
proof -
  obtain M N where M: "wrecs w = M + wrecs w'" "released M w w'" and N: "wrecs w' = N + wrecs w''" "released N w' w''"
    using assms(2,3) by (auto simp: cleaned_def)
  have "r \<notin># M" if "r \<in># N" for r
  proof (rule memok_unique)
    show "memok (M + wrecs w') (w_recs w) (w_mheap w)" using assms(1) M(1) by (simp add: mem_inv_def)
    show "r \<in># wrecs w'" using that N(1) by simp
  qed
  then have "released (M + N) w w''" by (rule released_trans [OF M(2) N(2)])
  moreover have "wrecs w = (M + N) + wrecs w''" using M N by (simp add: ac_simps)
  ultimately have "\<exists>M. wrecs w = M + wrecs w'' \<and> released M w w''" by blast
  moreover have "srv w'' s = (if s \<in> S \<union> T then map_option clear_msgq (srv w s) else srv w s)" for s
    using cleaned_srv [OF assms(2), of s] cleaned_srv [OF assms(3), of s] by (cases "srv w s") simp_all
  ultimately show ?thesis using assms(2,3) unfolding cleaned_def by simp
qed

lemma shape_grp:
  assumes "shape w' = shape w" "grp w gi = Some g"
  obtains g' where "grp w' gi = Some g'" "length (g_services g') = length (g_services g)"
proof -
  obtain c where c: "w_ctx w = Some c" "gi < length (c_groups c)" "g = c_groups c ! gi" using grp_ctx [OF assms(2)] by blast
  obtain c' where c': "w_ctx w' = Some c'"
    "map (\<lambda>g. length (g_services g)) (c_groups c') = map (\<lambda>g. length (g_services g)) (c_groups c)"
    using assms(1) c(1) by (auto simp: shape_def)
  have len: "length (c_groups c') = length (c_groups c)" using map_eq_imp_length_eq [OF c'(2)] .
  have "length (g_services (c_groups c' ! gi)) = length (g_services (c_groups c ! gi))"
    using arg_cong [OF c'(2), of "\<lambda>xs. xs ! gi"] c(2) len by simp
  then show thesis using that [of "c_groups c' ! gi"] c c'(1) len by (simp add: grp_def)
qed

lemma cleanup_services_cleaned:
  assumes "mem_inv w" "grp w gi = Some g" "i + n = length (g_services g)"
  shows "\<exists>w'. cleanup_services gi i n w = Some w' \<and> cleaned ({gi} \<times> {i..<i + n}) w w'"
  using assms
proof (induction n arbitrary: i w g)
  case 0
  then show ?case by (simp add: cleaned_refl)
next
  case (Suc n)
  have i: "i < length (g_services g)" using Suc(4) by simp
  obtain w1 where w1: "eaf_cleanup_msgq (gi, i) w = Some w1" "cleaned {(gi, i)} w w1"
    using cleanup_msgq_cleaned [OF Suc(2) srv_of_grp [OF Suc(3) i]] by blast
  obtain g1 where "grp w1 gi = Some g1" "length (g_services g1) = length (g_services g)"
    using w1(2) shape_grp [OF _ Suc(3)] unfolding cleaned_def by metis
  then obtain w2 where w2: "cleanup_services gi (i + 1) n w1 = Some w2" "cleaned ({gi} \<times> {i + 1..<i + 1 + n}) w1 w2"
    using Suc(1) [of w1 g1 "i + 1"] Suc(4) w1(2) by (auto simp: cleaned_def)
  have "{(gi, i)} \<union> {gi} \<times> {i + 1..<i + 1 + n} = {gi} \<times> {i..<i + Suc n}" by auto
  then show ?case using w1(1) w2(1) cleaned_trans [OF Suc(2) w1(2) w2(2)] by simp
qed

lemma cleanup_groups_cleaned:
  assumes "mem_inv w" "w_ctx w = Some c" "gi + n = length (c_groups c)"
  shows "\<exists>w'. cleanup_groups gi n w = Some w' \<and> cleaned ({s. gi \<le> fst s \<and> fst s < gi + n \<and> srv w s \<noteq> None}) w w'"
  using assms
proof (induction n arbitrary: gi w c)
  case 0
  have eq: "{s. gi \<le> fst s \<and> fst s < gi + 0 \<and> srv w s \<noteq> None} = {}" by auto
  show ?case unfolding eq using cleaned_refl [OF 0(1)] by simp
next
  case (Suc n)
  define g where "g = c_groups c ! gi"
  have g: "grp w gi = Some g" using Suc(3,4) by (simp add: grp_def g_def)
  obtain w1 where w1: "eaf_cleanup_group gi w = Some w1" "cleaned ({gi} \<times> {0..<length (g_services g)}) w w1"
    using cleanup_services_cleaned [OF Suc(2) g, of 0] g by (auto simp: eaf_cleanup_group_def)
  obtain c1 where c1: "w_ctx w1 = Some c1" "length (c_groups c1) = length (c_groups c)"
    using w1(2) Suc(3) map_eq_imp_length_eq by (fastforce simp: cleaned_def shape_def)
  then obtain w2 where w2: "cleanup_groups (gi + 1) n w1 = Some w2"
    "cleaned {s. gi + 1 \<le> fst s \<and> fst s < gi + 1 + n \<and> srv w1 s \<noteq> None} w1 w2"
    using Suc(1) [of w1 c1 "gi + 1"] Suc(4) w1(2) by (auto simp: cleaned_def)
  have "srv w1 s \<noteq> None \<longleftrightarrow> srv w s \<noteq> None" for s using cleaned_srv [OF w1(2), of s] by (cases "srv w s") auto
  moreover have "(gi, i) \<in> {gi} \<times> {0..<length (g_services g)} \<longleftrightarrow> srv w (gi, i) \<noteq> None" for i
    using g by (simp add: srv_def)
  ultimately have "{gi} \<times> {0..<length (g_services g)} \<union> {s. gi + 1 \<le> fst s \<and> fst s < gi + 1 + n \<and> srv w1 s \<noteq> None} =
    {s. gi \<le> fst s \<and> fst s < gi + Suc n \<and> srv w s \<noteq> None}"
    by (auto simp: less_Suc_eq_le dest: le_neq_implies_less)
  then show ?case using w1(1) w2(1) cleaned_trans [OF Suc(2) w1(2) w2(2)] by simp
qed

text \<open>After the loops no record is left.\<close>

lemma cleanup_all:
  assumes "mem_inv w" "w_ctx w = Some c"
  shows "\<exists>w' c'. cleanup_groups 0 (length (c_groups c)) w = Some w' \<and> w_ctx w' = Some c' \<and>
    c_summary c' = c_summary c \<and> released (wrecs w) w w' \<and> mem_inv w' \<and> wrecs w' = {#}"
proof -
  obtain w' where w': "cleanup_groups 0 (length (c_groups c)) w = Some w'"
    "cleaned {s. 0 \<le> fst s \<and> fst s < 0 + length (c_groups c) \<and> srv w s \<noteq> None} w w'"
    using cleanup_groups_cleaned [OF assms, of 0 "length (c_groups c)"] by auto
  have all: "fst s < length (c_groups c)" if "srv w s = Some v" for s v
    using srv_grp [OF that] grp_ctx [of w "fst s"] assms(2) by auto
  have "r \<notin># wrecs w'" for r
  proof
    assume "r \<in># wrecs w'"
    then obtain s v where v: "srv w' s = Some v" "r \<in> set (srv_recs v)" using wrecs_iff by blast
    then obtain u where u: "srv w s = Some u"
      using cleaned_srv [OF w'(2), of s] by (cases "srv w s") (auto split: if_splits)
    then have "v = clear_msgq u" using v(1) cleaned_srv [OF w'(2), of s] all [OF u] by simp
    then show False using v(2) by (simp add: clear_msgq_def srv_recs_def)
  qed
  then have "wrecs w' = {#}" by (meson multiset_nonemptyE)
  moreover obtain c' where "w_ctx w' = Some c'" "c_summary c' = c_summary c"
    using w'(2) assms(2) by (auto simp: cleaned_def shape_def)
  ultimately show ?thesis using w' by (auto simp: cleaned_def)
qed

end
