(* ===== verification/ServiceUser.thy ===== *)
theory ServiceUser
  imports ServiceGroup ServiceCleanup
begin

text \<open>
  The calls user code makes: their effect when no hook interferes, and that each keeps the invariant
  and the frame. Programs of such calls form an environment \<open>prog_env\<close> that fulfils the contract
  \<open>user_code\<close>.
\<close>

subsection \<open>Hooks that do nothing\<close>

definition quiet :: "env \<Rightarrow> world \<Rightarrow> bool" where
  "quiet E w \<longleftrightarrow> (\<forall>u w. is_hook u \<longrightarrow> e_ucode E u w = Some (0, w)) \<or> map_option c_hook (w_ctx w) = Some None"

lemma quiet_hook: "quiet E w \<Longrightarrow> w_ctx w \<noteq> None \<Longrightarrow> (\<And>p. is_hook (u p)) \<Longrightarrow> hook_call E f u w = Some (0, w)"
  by (auto simp: quiet_def hook_call_def hook_fn_def split: option.split)

lemma quiet_same_hook: "quiet E w \<Longrightarrow> map_option c_hook (w_ctx w') = map_option c_hook (w_ctx w) \<Longrightarrow> quiet E w'"
  by (auto simp: quiet_def)

lemma quiet_upd [simp]: "quiet E (upd_grp gi f w) = quiet E w" "quiet E (upd_srv s h w) = quiet E w"
  "quiet E (eaf_service_set_state s st w) = quiet E w" "quiet E (sem_post gi w) = quiet E w"
  "quiet E (w\<lparr>w_mheap := H\<rparr>) = quiet E w" "quiet E (w\<lparr>w_recs := R\<rparr>) = quiet E w"
  by (cases "w_ctx w"; simp add: quiet_def upd_grp_def upd_srv_def eaf_service_set_state_def sem_post_def)+

subsection \<open>Finding a service\<close>

lemma find_in_services_Some:
  "find_in_services i ss j = Some k \<Longrightarrow> j \<le> k \<and> k < j + length ss \<and> s_id (ss ! (k - j)) = i \<and> (\<forall>l < k - j. s_id (ss ! l) \<noteq> i)"
proof (induction ss arbitrary: j)
  case (Cons s ss)
  show ?case
  proof (cases "s_id s = i")
    case False
    then have "find_in_services i ss (j + 1) = Some k" using Cons.prems by simp
    from Cons.IH [OF this] have *: "j + 1 \<le> k" "k < j + 1 + length ss" "s_id (ss ! (k - (j + 1))) = i"
      "\<forall>l < k - (j + 1). s_id (ss ! l) \<noteq> i" by auto
    have "k - j = Suc (k - (j + 1))" using *(1) by simp
    then show ?thesis using * False by (auto simp: nth_Cons split: nat.split)
  qed (use Cons in \<open>auto split: if_splits\<close>)
qed simp

lemma find_in_services_None: "find_in_services i ss j = None \<longleftrightarrow> (\<forall>s \<in> set ss. s_id s \<noteq> i)"
  by (induction ss arbitrary: j) auto

lemma find_in_groups_Some:
  "find_in_groups i gs k = Some (gi, j) \<Longrightarrow> k \<le> gi \<and> gi < k + length gs \<and> find_in_services i (g_services (gs ! (gi - k))) 0 = Some j"
proof (induction gs arbitrary: k)
  case (Cons g gs)
  show ?case
  proof (cases "find_in_services i (g_services g) 0")
    case None
    then have "find_in_groups i gs (k + 1) = Some (gi, j)" using Cons.prems by simp
    from Cons.IH [OF this] have *: "k + 1 \<le> gi" "gi < k + 1 + length gs"
      "find_in_services i (g_services (gs ! (gi - (k + 1)))) 0 = Some j" by auto
    have "gi - k = Suc (gi - (k + 1))" using *(1) by simp
    then show ?thesis using * by simp
  qed (use Cons in auto)
qed simp

lemma find_in_groups_None: "find_in_groups i gs k = None \<longleftrightarrow> (\<forall>g \<in> set gs. \<forall>s \<in> set (g_services g). s_id s \<noteq> i)"
proof (induction gs arbitrary: k)
  case (Cons g gs)
  show ?case
  proof (cases "find_in_services i (g_services g) 0")
    case (Some j)
    then have "\<not> (\<forall>s \<in> set (g_services g). s_id s \<noteq> i)" by (metis find_in_services_None option.distinct(1))
    then show ?thesis using Some by auto
  qed (use Cons find_in_services_None [of i "g_services g" 0] in auto)
qed simp

lemma find_service_Some:
  assumes "eaf_service_find_service i w = Some (Some s)"
  obtains v where "srv w s = Some v" "s_id v = i" "s_entry v \<noteq> None"
proof -
  obtain c where c: "w_ctx w = Some c" "find_in_groups i (c_groups c) 0 = Some s"
    using assms by (auto simp: eaf_service_find_service_def split: Option.bind_splits option.splits if_splits)
  obtain v where v: "srv w s = Some v" "s_entry v \<noteq> None"
    using assms c by (auto simp: eaf_service_find_service_def split: Option.bind_splits option.splits if_splits)
  have "fst s < length (c_groups c)" "find_in_services i (g_services (c_groups c ! fst s)) 0 = Some (snd s)"
    using find_in_groups_Some [of i "c_groups c" 0 "fst s" "snd s"] c(2) by auto
  then have "s_id (g_services (c_groups c ! fst s) ! snd s) = i" using find_in_services_Some by fastforce
  then have "s_id v = i" using v(1) c(1) by (auto simp: srv_def grp_def split: if_splits)
  with v show thesis using that by blast
qed

lemma find_service_total:
  assumes "w_ctx w \<noteq> None"
  shows "\<exists>x. eaf_service_find_service i w = Some x"
proof -
  obtain c where c: "w_ctx w = Some c" using assms by auto
  show ?thesis
  proof (cases "find_in_groups i (c_groups c) 0")
    case (Some s)
    have "fst s < length (c_groups c)" "find_in_services i (g_services (c_groups c ! fst s)) 0 = Some (snd s)"
      using find_in_groups_Some [of i "c_groups c" 0 "fst s" "snd s"] Some by auto
    then have "snd s < length (g_services (c_groups c ! fst s))" using find_in_services_Some by fastforce
    then have "srv w s \<noteq> None" using c \<open>fst s < length (c_groups c)\<close> by (simp add: srv_def grp_def)
    then show ?thesis using c Some by (auto simp: eaf_service_find_service_def)
  qed (use c in \<open>simp add: eaf_service_find_service_def\<close>)
qed

lemma find_service_heap [simp]:
  "eaf_service_find_service i (w\<lparr>w_mheap := H\<rparr>) = eaf_service_find_service i w"
  unfolding eaf_service_find_service_def srv_upd_other by simp

subsection \<open>Pushing a message\<close>

definition wake :: "srv_state \<Rightarrow> srv_state" where
  "wake st = (if st = eaf_service_state_init2 then eaf_service_state_init1
     else if st = eaf_service_state_idle then eaf_service_state_busy else st)"

text \<open>The world after a successful push of record \<open>r\<close>.\<close>

definition enqueued :: "nat \<times> nat \<Rightarrow> addr \<Rightarrow> msgq_record \<Rightarrow> mheap \<Rightarrow> srv_state \<Rightarrow> world \<Rightarrow> world" where
  "enqueued s r rc H st w = sem_post (fst s) (upd_srv s (\<lambda>v. v\<lparr>s_queue := s_queue v @ [r]\<rparr>)
     ((if wake st = st then id else eaf_service_set_state s (wake st)) (w\<lparr>w_mheap := H, w_recs := (w_recs w)(r \<mapsto> rc)\<rparr>)))"

definition queue_record :: "u32 \<Rightarrow> u32 \<Rightarrow> nat \<times> nat \<Rightarrow> addr \<Rightarrow> (msgq_record \<Rightarrow> msgq_record) option \<Rightarrow> msgq_record" where
  "queue_record from to s m on_create =
     (case on_create of None \<Rightarrow> id | Some f \<Rightarrow> f) \<lparr>req_fn = 0, r_from = from, r_to = to, r_service = s, r_msg = m\<rparr>"

lemma push_result:
  assumes "srv w s = Some v" "w_mheap w m = Some f" "refcnt f \<noteq> 0" "\<And>r. e_alloc E w = Some r \<Longrightarrow> w_recs w r = None"
  shows "eaf_service_push_msg E s m from to on_create flag w = Some (
    if flag \<noteq> PUSH_FLAG_FORCE \<and> s_capacity v \<le> of_nat (length (s_queue v)) then (eaf_errno_overflow, w)
    else case e_alloc E w of None \<Rightarrow> (eaf_errno_memory, w)
      | Some r \<Rightarrow> if s_state v = eaf_service_state_exit0 then (eaf_errno_state, w)
        else (eaf_errno_success, enqueued s r (queue_record from to s m on_create)
               ((w_mheap w)(m \<mapsto> f\<lparr>refcnt := refcnt f + 1\<rparr>)) (s_state v) w))"
proof (cases "flag \<noteq> PUSH_FLAG_FORCE \<and> s_capacity v \<le> of_nat (length (s_queue v))")
  case False
  then have room: "(flag \<noteq> PUSH_FLAG_FORCE \<and> s_capacity v \<le> of_nat (length (s_queue v))) = False" by blast
  show ?thesis
  proof (cases "e_alloc E w")
    case (Some r)
    let ?rc = "queue_record from to s m on_create"
    let ?H = "(w_mheap w)(m \<mapsto> f\<lparr>refcnt := refcnt f + 1\<rparr>)"
    have add: "eaf_msg_add_ref (w_mheap w) m = Some ?H" using assms(2) by (simp add: eaf_msg_add_ref_def)
    have rc: "(case on_create of None \<Rightarrow> \<lparr>req_fn = 0, r_from = from, r_to = to, r_service = s, r_msg = m\<rparr>
        | Some f \<Rightarrow> f \<lparr>req_fn = 0, r_from = from, r_to = to, r_service = s, r_msg = m\<rparr>) = ?rc"
      by (simp add: queue_record_def split: option.split)
    have dec: "eaf_msg_dec_ref ?H m = Some (w_mheap w)"
      using assms(2,3) by (simp add: eaf_msg_dec_ref_def Let_def fun_upd_idem)
    show ?thesis
    proof (cases "s_state v = eaf_service_state_exit0")
      case False
      then show ?thesis using Some assms(1) add
        unfolding eaf_service_push_msg_def Let_def
        by (cases "s_state v") (simp_all add: rc enqueued_def wake_def room)
    next
      case True
      have "w_recs w r = None" using assms(4) Some by blast
      then have undo: "(w\<lparr>w_mheap := ?H, w_recs := (w_recs w)(r \<mapsto> ?rc)\<rparr>)\<lparr>w_mheap := w_mheap w,
        w_recs := (w_recs (w\<lparr>w_mheap := ?H, w_recs := (w_recs w)(r \<mapsto> ?rc)\<rparr>))(r := None)\<rparr> = w"
        by (simp add: fun_upd_idem)
      show ?thesis using Some assms(1) add dec True undo
        unfolding eaf_service_push_msg_def Let_def by (simp add: rc room)
    qed
  qed (use room assms(1) in \<open>simp add: eaf_service_push_msg_def room\<close>)
qed (use assms(1) in \<open>simp add: eaf_service_push_msg_def\<close>)


lemma set_state_ctx: "w_ctx (eaf_service_set_state s st w) = map_option (\<lambda>c. c\<lparr>c_groups := (c_groups c)[fst s := set_state_g (snd s) st (c_groups c ! fst s)]\<rparr>) (w_ctx w)"
  by (simp add: eaf_service_set_state_def upd_grp_def)

lemma enqueued_simps [simp]:
  "w_mheap (enqueued s r rc H st w) = H" "w_recs (enqueued s r rc H st w) = (w_recs w)(r \<mapsto> rc)"
  "w_tls (enqueued s r rc H st w) = w_tls w" "ctx_state_of (enqueued s r rc H st w) = ctx_state_of w"
  "quiet E (enqueued s r rc H st w) = quiet E w" "w_ctx (enqueued s r rc H st w) = None \<longleftrightarrow> w_ctx w = None"
  by (simp_all add: enqueued_def sem_post_def)

lemma enqueued_srv:
  "srv (enqueued s r rc H st w) t =
     (if t = s then map_option (\<lambda>v. v\<lparr>s_state := (if wake st = st then s_state v else wake st), s_queue := s_queue v @ [r]\<rparr>) (srv w t)
      else srv w t)"
  by (cases "srv w s") (auto simp: enqueued_def)

lemma enqueued_recs:
  assumes "srv w s = Some v"
  shows "wrecs (enqueued s r rc H st w) = add_mset r (wrecs w)"
proof -
  let ?w = "(if wake st = st then id else eaf_service_set_state s (wake st)) (w\<lparr>w_mheap := H, w_recs := (w_recs w)(r \<mapsto> rc)\<rparr>)"
  define u where "u = (if wake st = st then v else v\<lparr>s_state := wake st\<rparr>)"
  have u: "srv ?w s = Some u" "srv_recs u = srv_recs v" using assms by (simp_all add: u_def srv_recs_def)
  have "wrecs ?w = wrecs w" using assms by simp
  then have "wrecs (upd_srv s (\<lambda>v. v\<lparr>s_queue := s_queue v @ [r]\<rparr>) ?w) + mset (srv_recs u) = wrecs w + mset (srv_recs u @ [r])"
    using wrecs_upd_srv [OF u(1), of "\<lambda>v. v\<lparr>s_queue := s_queue v @ [r]\<rparr>"] by (simp add: srv_recs_def)
  then have "wrecs (upd_srv s (\<lambda>v. v\<lparr>s_queue := s_queue v @ [r]\<rparr>) ?w) = add_mset r (wrecs w)" by simp
  then show ?thesis unfolding enqueued_def sem_post_def by (simp add: wrecs_keep_services)
qed

text \<open>Messages that somebody besides the queues holds.\<close>

definition held :: "addr \<Rightarrow> world \<Rightarrow> bool" where
  "held a w \<longleftrightarrow> count (image_mset (rmsg (w_recs w)) (wrecs w)) a < refs (w_mheap w) a"

definition kept :: "world \<Rightarrow> world \<Rightarrow> bool" where
  "kept w w' \<longleftrightarrow> (\<forall>a. held a w \<longrightarrow> held a w') \<and>
     (\<forall>gi. map_option g_cc0 (grp w' gi) = map_option g_cc0 (grp w gi))"

lemma kept_refl [simp]: "kept w w"
  by (simp add: kept_def)

lemma kept_trans: "kept w w' \<Longrightarrow> kept w' w'' \<Longrightarrow> kept w w''"
  by (simp add: kept_def)

lemma cc0_upd_grp: "(\<And>g. g_cc0 (f g) = g_cc0 g) \<Longrightarrow> map_option g_cc0 (grp (upd_grp gj f w) gi) = map_option g_cc0 (grp w gi)"
  by (cases "grp w gi") auto

lemma set_state_cc0 [simp]: "g_cc0 (set_state_g si st g) = g_cc0 g"
  by (simp add: set_state_g_def upd_srv_g_def Let_def)

lemma enqueued_cc0: "map_option g_cc0 (grp (enqueued s r rc H st w) gi) = map_option g_cc0 (grp w gi)"
  unfolding enqueued_def sem_post_def upd_srv_def eaf_service_set_state_def
  by (simp add: cc0_upd_grp upd_srv_g_def del: grp_upd_grp)

lemma sem_enqueued: "map_option g_sem (grp (enqueued s r rc H st w) (fst s)) = map_option (\<lambda>g. g_sem g + 1) (grp w (fst s))"
  by (cases "grp w (fst s)") (auto simp: enqueued_def sem_post_def upd_srv_def upd_srv_g_def eaf_service_set_state_def set_state_g_def Let_def)

lemma woken_post:
  assumes "map_option g_sem (grp w' gi) = map_option (\<lambda>g. g_sem g + 1) (grp w gi)"
  shows "woken gi w w'"
  using assms by (auto simp: woken_def)

lemma frame_close:
  assumes "frame {s} w w'" "srv w s = Some v" "srv w' s = Some v'" "srv_frame v v'"
    "\<forall>r \<in> set (srv_recs v). w_recs w' r = w_recs w r" "woken (fst s) w w'"
  shows "frame {} w w'"
proof -
  have "\<forall>t u. t \<notin> {s} \<longrightarrow> srv w t = Some u \<longrightarrow> (\<exists>v'. srv w' t = Some v' \<and> srv_frame u v') \<and> (\<forall>r \<in> set (srv_recs u). w_recs w' r = w_recs w r)"
    using assms(1) unfolding frame_def by blast
  then have "\<forall>t u. srv w t = Some u \<longrightarrow> (\<exists>v'. srv w' t = Some v' \<and> srv_frame u v') \<and> (\<forall>r \<in> set (srv_recs u). w_recs w' r = w_recs w r)"
  proof (intro allI impI)
    fix t u assume u: "srv w t = Some u"
    show "(\<exists>v'. srv w' t = Some v' \<and> srv_frame u v') \<and> (\<forall>r \<in> set (srv_recs u). w_recs w' r = w_recs w r)"
    proof (cases "t = s")
      case True
      then have "u = v" using u assms(2) by simp
      then show ?thesis using True assms(3-5) by simp
    next
      case False
      then show ?thesis using u \<open>\<forall>t u. t \<notin> {s} \<longrightarrow> srv w t = Some u \<longrightarrow> _\<close> by blast
    qed
  qed
  note srvs = this
  have "woken gi w w'" for gi using frame_woken [OF assms(1)] assms(6) by (cases "gi = fst s") auto
  moreover have "map_option g_cur_run (grp w' gi) = map_option g_cur_run (grp w gi)" for gi
    using frame_curD [OF assms(1) not_whole_group(2)] .
  moreover have "(\<forall>c. w_ctx w = Some c \<longrightarrow> (\<exists>c'. w_ctx w' = Some c' \<and> cstep (c_state c) (c_state c'))) \<and> w_tls w' = w_tls w \<and>
    (\<forall>gi. map_option (\<lambda>g. length (g_services g)) (grp w' gi) = map_option (\<lambda>g. length (g_services g)) (grp w gi))"
    using assms(1) unfolding frame_def by (elim conjE) (intro conjI)
  ultimately show ?thesis unfolding frame_def using srvs by (elim conjE) (intro conjI allI impI; (elim allE conjE)?; blast)
qed

lemma enqueued_good:
  assumes "winv w" "srv w s = Some v" "s_entry v \<noteq> None" "s_state v \<noteq> eaf_service_state_exit0" "w_recs w r = None"
    "w_mheap w m = Some f" "refcnt f + 1 \<noteq> 0" "r_msg rc = m"
    "ctx_state_of w = Some eaf_ctx_state_busy"
  defines "w' \<equiv> enqueued s r rc ((w_mheap w)(m \<mapsto> f\<lparr>refcnt := refcnt f + 1\<rparr>)) (s_state v) w"
  shows "winv w'" "frame {} w w'" "held a w \<Longrightarrow> held a w'"
proof -
  let ?H = "(w_mheap w)(m \<mapsto> f\<lparr>refcnt := refcnt f + 1\<rparr>)"
  let ?m = "w\<lparr>w_mheap := ?H, w_recs := (w_recs w)(r \<mapsto> rc)\<rparr>"
  let ?v = "v\<lparr>s_state := wake (s_state v), s_queue := s_queue v @ [r]\<rparr>"
  have ok: "srv_ok v" using srv_okD [OF assms(1,2)] .
  have v': "srv w' s = Some ?v" using assms(2) by (simp add: w'_def enqueued_srv)
  have mem: "memok (wrecs w) (w_recs w) (w_mheap w)" using winvD(4) [OF assms(1)] by (simp add: mem_inv_def)
  obtain H' where H': "eaf_msg_add_ref (w_mheap w) m = Some H'" "memok (add_mset r (wrecs w)) ((w_recs w)(r \<mapsto> rc)) H'"
    using memok_push [OF mem assms(5-8)] by blast
  have "H' = ?H" using H'(1) assms(6) by (simp add: eaf_msg_add_ref_def)
  have r: "r \<notin># wrecs w" using mem assms(5) by (auto simp: memok_def)
  show "winv w'"
  proof (rule winvI)
    show "w_ctx w' \<noteq> None" using winvD(1) [OF assms(1)] by (simp add: w'_def)
    show "mem_inv w'" using H'(2) \<open>H' = ?H\<close> assms(2) by (simp add: mem_inv_def w'_def enqueued_recs)
    have "srv_ok ?v" "s_state ?v \<noteq> eaf_service_state_init0"
      using ok assms(3,4) srv_loaded [OF assms(1,2,9)] by (auto simp: srv_ok_def wake_def)
    then have "srv w' t = Some u \<Longrightarrow> srv_ok u \<and> s_state u \<noteq> eaf_service_state_init0" for t u
    proof (cases "t = s")
      case False
      assume "srv w' t = Some u"
      then have "srv w t = Some u" using False by (simp add: w'_def enqueued_srv)
      then show ?thesis using srv_okD [OF assms(1)] srv_loaded [OF assms(1) _ assms(9)] by blast
    qed (use v' \<open>srv_ok ?v\<close> \<open>s_state ?v \<noteq> eaf_service_state_init0\<close> in auto)
    then show "srvs_inv w'" unfolding srvs_inv_def by blast
    have "lists_inv ?m" using winvD(2) [OF assms(1)] by simp
    then have "lists_inv ((if wake (s_state v) = s_state v then id else eaf_service_set_state s (wake (s_state v))) ?m)"
      using assms(2) by (auto intro: lists_inv_set_state [where v = v])
    then have "lists_inv (upd_srv s (\<lambda>v. v\<lparr>s_queue := s_queue v @ [r]\<rparr>)
        ((if wake (s_state v) = s_state v then id else eaf_service_set_state s (wake (s_state v))) ?m))"
      by (rule lists_inv_upd_srv) simp
    then show "lists_inv w'" unfolding w'_def enqueued_def sem_post_def
      by (rule lists_inv_upd_grp) (auto simp: lists_ok_def)
  qed
  show "frame {} w w'"
  proof (rule frame_close [OF _ assms(2) v'])
    have "frame {s} w ?m" using recs_disjoint r in_wrecs woken_mem(2) by (auto simp: frame_def cstep_def)
    moreover have "frame {s} ?m ((if wake (s_state v) = s_state v then id else eaf_service_set_state s (wake (s_state v))) ?m)"
      by (auto intro: frame_set_state)
    moreover have "frame {s} x (upd_srv s (\<lambda>v. v\<lparr>s_queue := s_queue v @ [r]\<rparr>) x)" for x by (rule frame_upd_srv) simp
    ultimately show "frame {s} w w'" unfolding w'_def enqueued_def by (meson frame_trans frame_sem(1))
    show "srv_frame v ?v" by (auto simp: srv_frame_def wake_def)
    show "woken (fst s) w w'" unfolding w'_def by (rule woken_post [OF sem_enqueued])
    show "\<forall>q \<in> set (srv_recs v). w_recs w' q = w_recs w q" using r in_wrecs [OF assms(2)] by (auto simp: w'_def)
  qed
  have img: "image_mset (rmsg ((w_recs w)(r \<mapsto> rc))) (wrecs w) = image_mset (rmsg (w_recs w)) (wrecs w)"
    using r by (intro image_mset_cong) auto
  have "unat (refcnt f + 1) = unat (refcnt f) + 1"
    using assms(7) unatSuc [of "refcnt f"] by (simp add: add.commute)
  then show "held a w'" if "held a w"
    using that assms(2,6,8) img by (auto simp: held_def w'_def enqueued_recs refs_def)
qed

lemma push_good:
  assumes "winv w" "srv w s = Some v" "s_entry v \<noteq> None" "w_mheap w m = Some f" "refcnt f \<noteq> 0" "refcnt f + 1 \<noteq> 0"
    "\<And>r. e_alloc E w = Some r \<Longrightarrow> w_recs w r = None" "r_msg (queue_record from to s m on_create) = m"
    "ctx_state_of w = Some eaf_ctx_state_busy"
  shows "goodr {} w (eaf_service_push_msg E s m from to on_create flag w) (\<lambda>_ w'. kept w w')"
proof -
  have same: "goodr {} w (Some (x, w)) (\<lambda>_ w'. kept w w')" for x
    using assms(1) by (simp add: goodr_return)
  have "goodr {} w (Some (eaf_errno_success, enqueued s r (queue_record from to s m on_create)
      ((w_mheap w)(m \<mapsto> f\<lparr>refcnt := refcnt f + 1\<rparr>)) (s_state v) w)) (\<lambda>_ w'. kept w w')"
    if "e_alloc E w = Some r" "s_state v \<noteq> eaf_service_state_exit0" for r
    using enqueued_good [OF assms(1-3) that(2) assms(7) [OF that(1)] assms(4,6,8,9)]
    by (simp add: goodr_def kept_def enqueued_cc0)
  note pushed = this
  show ?thesis using pushed same
    by (subst push_result [OF assms(2,4,5,7)]) (auto split: option.split)
qed


subsection \<open>Sending\<close>

text \<open>\<open>req->from = from\<close>\<close>

definition stamped :: "u32 \<Rightarrow> addr \<Rightarrow> world \<Rightarrow> world" where
  "stamped from m w = w\<lparr>w_mheap := (case w_mheap w m of None \<Rightarrow> w_mheap w
     | Some f \<Rightarrow> (w_mheap w)(m \<mapsto> f\<lparr>msg := (msg f)\<lparr>msg_from := from\<rparr>\<rparr>))\<rparr>"

lemma refs_stamped: "refs (w_mheap (stamped from m w)) = refs (w_mheap w)"
  by (auto simp: stamped_def refs_def fun_eq_iff split: option.split)

lemma stamped_simps [simp]:
  "srv (stamped from m w) = srv w" "w_recs (stamped from m w) = w_recs w" "wrecs (stamped from m w) = wrecs w"
  "ctx_state_of (stamped from m w) = ctx_state_of w" "quiet E (stamped from m w) = quiet E w"
  "w_ctx (stamped from m w) = w_ctx w" "grp (stamped from m w) = grp w"
  by (simp_all add: stamped_def)

lemma stamped_good:
  assumes "winv w"
  shows "winv (stamped from m w)" "frame S w (stamped from m w)" "held a (stamped from m w) = held a w"
proof -
  have "dom (w_mheap (stamped from m w)) = dom (w_mheap w)"
    by (auto simp: stamped_def dom_def split: option.split if_splits)
  then have "finite (dom (w_mheap (stamped from m w)))"
    using finite_heap [OF assms] by simp
  then show "winv (stamped from m w)"
    using winv_mheap [OF assms, of "w_mheap (stamped from m w)"] refs_stamped [of "from" m w] by (simp add: stamped_def)
  show "frame S w (stamped from m w)" by (simp add: stamped_def)
  show "held a (stamped from m w) = held a w" by (simp add: held_def refs_stamped)
qed

lemma req_record: "queue_record from to s m (Some (\<lambda>r. r\<lparr>req_fn := h\<rparr>)) =
    \<lparr>req_fn = h, r_from = from, r_to = to, r_service = s, r_msg = m\<rparr>"
  "queue_record from to s m None = \<lparr>req_fn = 0, r_from = from, r_to = to, r_service = s, r_msg = m\<rparr>"
  by (simp_all add: queue_record_def)

lemma send_req_impl_eq:
  assumes "w_mheap w m = Some f" "eaf_service_find_service to w = Some found"
  shows "eaf_send_req_impl E from to m w =
    (case found of None \<Rightarrow> Some (eaf_errno_notfound, stamped from m w)
     | Some s \<Rightarrow> (case srv w s of None \<Rightarrow> None | Some v \<Rightarrow> (case s_entry v of None \<Rightarrow> None | Some e \<Rightarrow>
         let h = find_handler (msg_id (msg f)) (msg_table e) in
         if h = 0 then Some (eaf_errno_notfound, stamped from m w)
         else eaf_service_push_msg E s m from to (Some (\<lambda>r. r\<lparr>req_fn := h\<rparr>)) 0 (stamped from m w))))"
proof -
  have st: "stamped from m w = w\<lparr>w_mheap := (w_mheap w)(m \<mapsto> f\<lparr>msg := (msg f)\<lparr>msg_from := from\<rparr>\<rparr>)\<rparr>"
    using assms(1) by (simp add: stamped_def)
  show ?thesis using assms unfolding eaf_send_req_impl_def Let_def st
    by (cases found) (auto split: option.split)
qed

lemma live_after_stamp:
  assumes "w_mheap w m = Some f"
  shows "w_mheap (stamped from m w) m = Some (f\<lparr>msg := (msg f)\<lparr>msg_from := from\<rparr>\<rparr>)"
  using assms by (simp add: stamped_def)

lemma send_req_impl_good:
  assumes "winv w" "w_mheap w m = Some f" "refcnt f \<noteq> 0" "refcnt f + 1 \<noteq> 0"
    "\<And>w r. e_alloc E w = Some r \<Longrightarrow> w_recs w r = None" "ctx_state_of w = Some eaf_ctx_state_busy"
  shows "goodr {} w (eaf_send_req_impl E from to m w) (\<lambda>_ w'. kept w w')"
proof -
  obtain found where found: "eaf_service_find_service to w = Some found"
    using find_service_total [OF winvD(1) [OF assms(1)]] by blast
  have w0: "winv (stamped from m w)" "frame {} w (stamped from m w)" using stamped_good [OF assms(1)] by auto
  have kept0: "kept w (stamped from m w)" using stamped_good(3) [OF assms(1)] by (simp add: kept_def)
  have stop: "goodr {} w (Some (x, stamped from m w)) (\<lambda>_ w'. kept w w')" for x :: int
    using w0 kept0 by (simp add: goodr_def)
  show ?thesis
  proof (cases found)
    case None
    then show ?thesis using send_req_impl_eq [OF assms(2) found] stop by simp
  next
    case (Some s)
    then obtain v e where v: "srv w s = Some v" "s_entry v = Some e"
      using find_service_Some [of to w s] found by (metis not_None_eq)
    let ?h = "find_handler (msg_id (msg f)) (msg_table e)"
    have "goodr {} (stamped from m w) (eaf_service_push_msg E s m from to (Some (\<lambda>r. r\<lparr>req_fn := ?h\<rparr>)) 0 (stamped from m w))
      (\<lambda>_ w'. kept (stamped from m w) w')"
      by (rule push_good [where v = v, OF w0(1) _ _ live_after_stamp [OF assms(2)]])
        (use v assms(3,4,6) assms(5) [of "stamped from m w"] in \<open>simp_all add: req_record\<close>)
    then have "goodr {} w (eaf_service_push_msg E s m from to (Some (\<lambda>r. r\<lparr>req_fn := ?h\<rparr>)) 0 (stamped from m w))
      (\<lambda>_ w'. kept w w')"
      using kept_trans [OF kept0] by (intro goodr_step [OF _ w0(2)]) (auto elim: goodr_mono)
    then show ?thesis using send_req_impl_eq [OF assms(2) found] Some v stop by (simp add: Let_def)
  qed
qed

lemma send_rsp_impl_good:
  assumes "winv w" "w_mheap w m = Some f" "refcnt f \<noteq> 0" "refcnt f + 1 \<noteq> 0"
    "\<And>w r. e_alloc E w = Some r \<Longrightarrow> w_recs w r = None" "ctx_state_of w = Some eaf_ctx_state_busy"
  shows "goodr {} w (eaf_send_rsp_impl E from to m w) (\<lambda>_ w'. kept w w')"
proof -
  obtain found where found: "eaf_service_find_service to w = Some found"
    using find_service_total [OF winvD(1) [OF assms(1)]] by blast
  show ?thesis
  proof (cases found)
    case None
    then show ?thesis using found assms(1) by (simp add: eaf_send_rsp_impl_def goodr_return)
  next
    case (Some s)
    then obtain v where v: "srv w s = Some v" "s_entry v \<noteq> None"
      using find_service_Some [of to w s] found by metis
    have "goodr {} w (eaf_service_push_msg E s m from to None PUSH_FLAG_FORCE w) (\<lambda>_ w'. kept w w')"
      by (rule push_good [OF assms(1) v assms(2,3,4)]) (use assms(5,6) in \<open>simp_all add: req_record\<close>)
    then show ?thesis using found Some by (simp add: eaf_send_rsp_impl_def)
  qed
qed

lemma send_good:
  assumes "winv w" "quiet E w" "\<And>u w. is_hook u \<Longrightarrow> e_ucode E u w = Some (0, w)"
    "w_mheap w m = Some f" "refcnt f \<noteq> 0" "refcnt f + 1 \<noteq> 0"
    "\<And>w r. e_alloc E w = Some r \<Longrightarrow> w_recs w r = None"
  shows "goodr {} w (eaf_send_req E from to m w) (\<lambda>_ w'. kept w w')"
    "goodr {} w (eaf_send_rsp E from to m w) (\<lambda>_ w'. kept w w')"
proof -
  have hook: "hook_call E f u w' = Some (0, w')" if "winv w'" "\<And>p. is_hook (u p)" for f u w'
    using quiet_hook [of E w' u f] that assms(3) winvD(1) by (auto simp: quiet_def)
  have after: "goodr {} w (x \<bind> (\<lambda>(ret, w). hook_message_send_after E from to m ret w \<bind> (\<lambda>w. Some (ret, w)))) P"
    if x: "goodr {} w x P" for x :: "(int \<times> world) option" and P
  proof -
    obtain r w' where "x = Some (r, w')" "winv w'" "frame {} w w'" "P r w'" using x by (auto simp: goodr_def)
    then show ?thesis by (simp add: hook_message_send_after_def hook goodr_def)
  qed
  have stop: "goodr {} w (Some (eaf_errno_state, w)) (\<lambda>_ w'. kept w w')"
    using assms(1) by (simp add: goodr_return)
  show "goodr {} w (eaf_send_req E from to m w) (\<lambda>_ w'. kept w w')"
    using stop after [OF send_req_impl_good [OF assms(1,4-7)]]
    by (simp add: eaf_send_req_def hook_message_send_before_def hook [OF assms(1)])
  show "goodr {} w (eaf_send_rsp E from to m w) (\<lambda>_ w'. kept w w')"
    using stop after [OF send_rsp_impl_good [OF assms(1,4-7)]]
    by (simp add: eaf_send_rsp_def hook_message_send_before_def hook [OF assms(1)])
qed

end
