(* ===== verification/ServiceProgram.thy ===== *)
theory ServiceProgram
  imports ServiceUser
begin

text \<open>
  The remaining calls of user code, the coroutine macros of \<open>eaf/core/internal/service.h\<close>, and the
  environment \<open>prog_env\<close> in which handlers are programs of runtime calls. It fulfils the contract
  \<open>user_code\<close>, so that every result proved under the contract holds for such programs.
\<close>

subsection \<open>Resume, exit, hooks and registration\<close>

lemma resume_good:
  assumes "winv w" "quiet E w"
  shows "goodr {} w (eaf_resume E i w) (\<lambda>_ w'. kept w w')"
proof -
  obtain found where found: "eaf_service_find_service i w = Some found"
    using find_service_total [OF winvD(1) [OF assms(1)]] by blast
  have hook: "hook_call E f (\<lambda>p. UHookId p i) w = Some (0, w)" for f
    using quiet_hook [OF assms(2) winvD(1) [OF assms(1)]] by simp
  have stop: "goodr {} w (Some (x, w)) (\<lambda>_ w'. kept w w')" for x :: int
    using assms(1) by (simp add: goodr_return)
  show ?thesis
  proof (cases found)
    case None
    then show ?thesis using found stop by (simp add: eaf_resume_def)
  next
    case (Some s)
    then obtain v where v: "srv w s = Some v" using find_service_Some [of i w s] found by metis
    have go: "goodr {} w (Some (eaf_errno_success, sem_post (fst s) (eaf_service_set_state s eaf_service_state_busy w))) (\<lambda>_ w'. kept w w')"
      if y: "s_state v = eaf_service_state_yield"
    proof -
      have w: "winv (eaf_service_set_state s eaf_service_state_busy w)"
        using srv_okD [OF assms(1) v] y by (intro winv_set_state [OF assms(1) v]) (auto simp: srv_ok_def)
      have "map_option g_sem (grp (sem_post (fst s) (eaf_service_set_state s eaf_service_state_busy w)) (fst s)) =
        map_option (\<lambda>g. g_sem g + 1) (grp w (fst s))"
        by (cases "grp w (fst s)") (auto simp: sem_post_def eaf_service_set_state_def set_state_g_def upd_srv_g_def Let_def)
      note post = woken_post [OF this]
      have "frame {s} w (sem_post (fst s) (eaf_service_set_state s eaf_service_state_busy w))"
        by (rule frame_trans [OF frame_set_state frame_sem(1)]) simp
      then have "frame {} w (sem_post (fst s) (eaf_service_set_state s eaf_service_state_busy w))"
        by (rule frame_close [OF _ v, where v' = "v\<lparr>s_state := eaf_service_state_busy\<rparr>"])
          (use v y post in \<open>auto simp: srv_frame_def, simp add: sem_post_def\<close>)
      moreover have "kept w (sem_post (fst s) (eaf_service_set_state s eaf_service_state_busy w))"
      proof -
        have "wrecs (sem_post (fst s) (eaf_service_set_state s eaf_service_state_busy w)) = wrecs w"
          using v by (simp add: sem_post_def wrecs_keep_services)
        then show ?thesis unfolding kept_def held_def sem_post_def eaf_service_set_state_def
          by (simp add: cc0_upd_grp del: grp_upd_grp)
      qed
      ultimately show ?thesis using winv_sem(1) [OF w] by (simp add: goodr_def)
    qed
    show ?thesis using found Some v stop go
      by (simp add: eaf_resume_def hook_service_resume_def hook_service_def hook)
  qed
qed

lemma ctx_update_good:
  assumes "winv w" "\<And>c. c_groups (f c) = c_groups c" "\<And>c. cstep (c_state c) (c_state (f c))"
  shows "winv (upd_ctx f w)" "kept w (upd_ctx f w)" "(\<And>c. c_state (f c) = c_state c) \<Longrightarrow> frame {} w (upd_ctx f w)"
proof -
  show "winv (upd_ctx f w)" proof (rule winv_upd_ctx [OF assms(1,2)])
    fix c assume "c_state (f c) = eaf_ctx_state_busy"
    then show "c_state c = eaf_ctx_state_busy" using assms(3) [of c] by (auto simp: cstep_def)
  qed
  have same: "grp (upd_ctx f w) = grp w" "srv (upd_ctx f w) = srv w" "wrecs (upd_ctx f w) = wrecs w"
    using assms(2) by (auto simp: grp_upd_ctx srv_upd_ctx wrecs_upd_ctx)
  then show "kept w (upd_ctx f w)" by (simp add: kept_def held_def)
  assume st: "\<And>c. c_state (f c) = c_state c"
  then have "ctx_state_of (upd_ctx f w) = ctx_state_of w" by (cases "w_ctx w") (auto simp: ctx_state_of_def)
  then have "woken gi w (upd_ctx f w)" for gi using same by (simp add: woken_def)
  then show "frame {} w (upd_ctx f w)" using same st by (auto simp: frame_def cstep_def)
qed

lemma grp_post_all: "grp (post_all w) gi = map_option (\<lambda>g. g\<lparr>g_sem := g_sem g + 1\<rparr>) (grp w gi)"
  by (cases "w_ctx w") (auto simp: post_all_def grp_def)

lemma srv_post_all [simp]: "srv (post_all w) s = srv w s"
  by (cases "grp w (fst s)") (auto simp: srv_def grp_post_all)

lemma post_all_simps [simp]: "w_recs (post_all w) = w_recs w" "w_mheap (post_all w) = w_mheap w" "w_tls (post_all w) = w_tls w"
  by (simp_all add: post_all_def)

lemma post_update_frame:
  assumes "\<And>c. c_groups (f c) = c_groups c" "\<And>c. cstep (c_state c) (c_state (f c))"
  shows "frame {} w (post_all (upd_ctx f w))"
proof -
  have g: "grp (post_all (upd_ctx f w)) gi = map_option (\<lambda>g. g\<lparr>g_sem := g_sem g + 1\<rparr>) (grp w gi)" for gi
    using assms(1) by (simp add: grp_post_all grp_upd_ctx)
  have "woken gi w (post_all (upd_ctx f w))" for gi
    by (rule woken_post) (simp add: g option.map_comp comp_def)
  moreover have "\<exists>c'. w_ctx (post_all (upd_ctx f w)) = Some c' \<and> cstep (c_state c) (c_state c')" if "w_ctx w = Some c" for c
    using that assms(2) by (simp add: post_all_def)
  moreover have "srv (upd_ctx f w) = srv w" using assms(1) by (simp add: srv_upd_ctx fun_eq_iff)
  ultimately show ?thesis by (simp add: frame_def g option.map_comp comp_def)
qed

lemma post_all_good:
  assumes "winv w"
  shows "winv (post_all w)" "frame {} w (post_all w)" "kept w (post_all w)"
proof -
  have ctx: "ctx_state_of (post_all w) = ctx_state_of w" "w_ctx (post_all w) = None \<longleftrightarrow> w_ctx w = None"
    by (cases "w_ctx w"; simp add: ctx_state_of_def post_all_def)+
  have recs: "wrecs (post_all w) = wrecs w"
  proof (cases "w_ctx w")
    case (Some c)
    have "grp_recs \<circ> (\<lambda>g. g\<lparr>g_sem := Suc (g_sem g)\<rparr>) = grp_recs" by (simp add: grp_recs_def fun_eq_iff)
    then show ?thesis using Some by (simp add: wrecs_def post_all_def)
  qed (simp add: wrecs_def post_all_def)
  show "winv (post_all w)"
    using assms ctx recs by (auto simp: winv_def lists_inv_def srvs_inv_def mem_inv_def grp_post_all lists_ok_def)
  have "upd_ctx id w = w" by (cases w) (simp add: upd_ctx_def option.map_id)
  then show "frame {} w (post_all w)" using post_update_frame [of id w] by (simp add: cstep_def)
  show "kept w (post_all w)" using recs
    by (auto simp: kept_def held_def grp_post_all option.map_comp comp_def)
qed

lemma exit_impl_good:
  assumes "winv w" "quiet E w"
  shows "goodr {} w (eaf_exit_impl E ex rs td w) (\<lambda>_ w'. kept w w')"
proof -
  obtain c where c: "w_ctx w = Some c" using winvD(1) [OF assms(1)] by auto
  have hook: "hook_cleanup_before E w = Some w"
    using quiet_hook [OF assms(2) winvD(1) [OF assms(1)], of UHook on_exit_before] by (simp add: hook_cleanup_before_def)
  define w1 where "w1 = (if \<not> td then upd_ctx (\<lambda>c. c\<lparr>c_summary := \<lparr>executor = ex, reason = rs\<rparr>\<rparr>) w else w)"
  define w2 where "w2 = upd_ctx (\<lambda>c. c\<lparr>c_state := (if td then eaf_ctx_state_teardown else eaf_ctx_state_exit)\<rparr>) w1"
  have 1: "winv w1" "frame {} w w1" "kept w w1" using ctx_update_good [OF assms(1)] assms(1)
    by (auto simp: w1_def cstep_def)
  have 2: "winv w2" "frame {} w1 (post_all w2)" "kept w1 w2" using ctx_update_good [OF 1(1)]
    by (auto simp: w2_def cstep_def intro: post_update_frame)
  have "eaf_exit_impl E ex rs td w = Some (eaf_errno_success, post_all w2)"
    using c hook unfolding eaf_exit_impl_def Let_def by (simp add: w1_def w2_def)
  moreover have "frame {} w (post_all w2)" using 1(2) 2(2) by (rule frame_trans)
  moreover have "kept w (post_all w2)" using 1(3) 2(3) post_all_good(3) [OF 2(1)] kept_trans by blast
  ultimately show ?thesis using post_all_good(1) [OF 2(1)] by (simp add: goodr_def)
qed

lemma exit_good:
  assumes "winv w" "quiet E w"
  shows "goodr {} w (eaf_exit E rs w) (\<lambda>_ w'. kept w w')" "goodr {} w (eaf_teardown E w) (\<lambda>_ w'. kept w w')"
  using exit_impl_good [OF assms] assms(1) by (auto simp: eaf_exit_def eaf_teardown_def goodr_return)

lemma inject_good:
  assumes "winv w"
  shows "goodr {} w (Some (eaf_inject h sz sz' w)) (\<lambda>_ w'. kept w w')" "goodr {} w (Some (eaf_uninject p w)) (\<lambda>_ w'. kept w w')"
proof -
  obtain c where c: "w_ctx w = Some c" using winvD(1) [OF assms(1)] by auto
  show "goodr {} w (Some (eaf_inject h sz sz' w)) (\<lambda>_ w'. kept w w')"
    using ctx_update_good [OF assms, of "\<lambda>c. c\<lparr>c_hook := Some h\<rparr>"] assms c by (auto simp: eaf_inject_def goodr_def cstep_def)
  show "goodr {} w (Some (eaf_uninject p w)) (\<lambda>_ w'. kept w w')"
    using ctx_update_good [OF assms, of "\<lambda>c. c\<lparr>c_hook := None\<rparr>"] assms c by (auto simp: eaf_uninject_def goodr_def cstep_def)
qed

lemma last_in_groups_Some:
  "last_in_groups i gs k acc = Some (gi, j) \<Longrightarrow> acc = Some (gi, j) \<or>
     (k \<le> gi \<and> gi < k + length gs \<and> find_in_services i (g_services (gs ! (gi - k))) 0 = Some j)"
proof (induction gs arbitrary: k acc)
  case (Cons g gs)
  let ?acc = "case find_in_services i (g_services g) 0 of Some j \<Rightarrow> Some (k, j) | None \<Rightarrow> acc"
  have "last_in_groups i gs (k + 1) ?acc = Some (gi, j)" using Cons.prems by simp
  from Cons.IH [OF this] show ?case
  proof
    assume "?acc = Some (gi, j)"
    then show ?thesis by (auto split: option.splits)
  next
    assume *: "k + 1 \<le> gi \<and> gi < k + 1 + length gs \<and> find_in_services i (g_services (gs ! (gi - (k + 1)))) 0 = Some j"
    then have "gi - k = Suc (gi - (k + 1))" by linarith
    then show ?thesis using * by simp
  qed
qed simp

lemma register_good:
  assumes "winv w" "quiet E w"
  shows "goodr {} w (eaf_register E i e w) (\<lambda>_ w'. kept w w')"
proof -
  obtain c where c: "w_ctx w = Some c" using winvD(1) [OF assms(1)] by auto
  have hook: "hook_service_register E i w = Some (0, w)"
    using quiet_hook [OF assms(2) winvD(1) [OF assms(1)], of "\<lambda>p. UHookId p i"] by (simp add: hook_service_register_def)
  have stop: "goodr {} w (Some (x, w)) (\<lambda>_ w'. kept w w')" for x :: int
    using assms(1) by (simp add: goodr_return)
  show ?thesis
  proof (cases "last_in_groups i (c_groups c) 0 None")
    case None
    then show ?thesis using c stop by (simp add: eaf_register_def)
  next
    case (Some s)
    then have "fst s < length (c_groups c)" "find_in_services i (g_services (c_groups c ! fst s)) 0 = Some (snd s)"
      using last_in_groups_Some [of i "c_groups c" 0 None "fst s" "snd s"] by auto
    then have "snd s < length (g_services (c_groups c ! fst s))" using find_in_services_Some by fastforce
    then obtain v where v: "srv w s = Some v" using c \<open>fst s < length (c_groups c)\<close> by (simp add: srv_def grp_def)
    let ?w = "upd_srv s (\<lambda>v. v\<lparr>s_entry := Some e\<rparr>) w"
    have go: "goodr {} w (Some (eaf_errno_success, ?w)) (\<lambda>_ w'. kept w w')" if n: "s_entry v = None"
    proof -
      have "srv_ok v" using srv_okD [OF assms(1) v] .
      then have ok: "winv ?w" by (intro winv_upd_srv [OF assms(1) v]) (auto simp: srv_ok_def srv_recs_def)
      have "frame {} w ?w" using v n by (intro frame_upd_srv) (auto simp: srv_frame_def)
      moreover have "kept w ?w"
      proof -
        have "wrecs ?w = wrecs w" by (rule wrecs_upd_srv_same [OF v]) (simp add: srv_recs_def)
        then show ?thesis unfolding kept_def held_def upd_srv_def
          by (simp add: cc0_upd_grp upd_srv_g_def del: grp_upd_grp)
      qed
      ultimately show ?thesis using ok by (simp add: goodr_def)
    qed
    show ?thesis using c Some v stop go hook by (auto simp: eaf_register_def)
  qed
qed


subsection \<open>Messages\<close>

lemma create_good:
  assumes "winv w" "eaf_msg_create_req menv (w_mheap w) i sz fn = (Some a, H) \<or> eaf_msg_create_rsp menv (w_mheap w) req sz = (Some a, H)"
    "\<And>n b. malloc menv n = Some b \<Longrightarrow> w_mheap w b = None"
  shows "winv (w\<lparr>w_mheap := H\<rparr>)" "held a (w\<lparr>w_mheap := H\<rparr>)" "\<exists>f. H a = Some f \<and> refcnt f = 1"
proof -
  obtain f where f: "H = (w_mheap w)(a \<mapsto> f)" "refcnt f = 1" "w_mheap w a = None"
    using assms(2,3)
    by (auto simp: eaf_msg_create_req_def eaf_msg_create_rsp_def eaf_msg_create_def upd_msg_def Let_def
        split: option.splits if_splits)
  show "\<exists>f. H a = Some f \<and> refcnt f = 1" using f by simp
  have "refs (w_mheap w) b \<le> refs H b" for b using f by (simp add: refs_def)
  then show "winv (w\<lparr>w_mheap := H\<rparr>)" using f finite_heap [OF assms(1)] by (intro winv_mheap [OF assms(1)]) auto
  have "count (image_mset (rmsg (w_recs w)) (wrecs w)) a \<le> refs (w_mheap w) a"
    using winvD(4) [OF assms(1)] by (simp add: mem_inv_def memok_def)
  then show "held a (w\<lparr>w_mheap := H\<rparr>)" using f by (simp add: held_def refs_def)
qed

lemma create_fail: "eaf_msg_create_req menv H0 i sz fn = (None, H) \<Longrightarrow> (\<And>n b. malloc menv n = Some b \<Longrightarrow> H0 b = None) \<Longrightarrow> H = H0"
  "eaf_msg_create_rsp menv H0 req sz = (None, H) \<Longrightarrow> (\<And>n b. malloc menv n = Some b \<Longrightarrow> H0 b = None) \<Longrightarrow> H = H0"
  by (auto simp: eaf_msg_create_req_def eaf_msg_create_rsp_def eaf_msg_create_def Let_def fun_upd_idem
      split: option.splits if_splits)

lemma dec_good:
  assumes "winv w" "held a w"
  shows "\<exists>H. eaf_msg_dec_ref (w_mheap w) a = Some H \<and> winv (w\<lparr>w_mheap := H\<rparr>)"
proof -
  have "0 < refs (w_mheap w) a" using assms(2) by (simp add: held_def)
  then obtain f where f: "w_mheap w a = Some f" "refcnt f \<noteq> 0" by (auto simp: refs_def unat_gt_0 split: option.splits)
  obtain H where H: "eaf_msg_dec_ref (w_mheap w) a = Some H" "refs H a = refs (w_mheap w) a - 1" "\<forall>b. b \<noteq> a \<longrightarrow> H b = w_mheap w b"
    using dec_ref_refs [of "w_mheap w" a f] f by blast
  have "finite (dom H)"
  proof (rule finite_subset)
    show "dom H \<subseteq> insert a (dom (w_mheap w))" using H(3) by (auto simp: dom_def)
  qed (use finite_heap [OF assms(1)] in simp)
  moreover have "count (image_mset (rmsg (w_recs w)) (wrecs w)) b \<le> refs H b" for b
  proof (cases "b = a")
    case False
    then have "refs H b = refs (w_mheap w) b" using H(3) by (simp add: refs_def)
    then show ?thesis using winvD(4) [OF assms(1)] by (simp add: mem_inv_def memok_def)
  qed (use H(2) assms(2) in \<open>simp add: held_def\<close>)
  moreover have "\<forall>r. count (wrecs w) r \<le> 1" "\<forall>r \<in># wrecs w. w_recs w r \<noteq> None"
    using winvD(4) [OF assms(1)] by (auto simp: mem_inv_def memok_def)
  ultimately have "memok (wrecs w) (w_recs w) H" unfolding memok_def by blast
  then have "winv (w\<lparr>w_mheap := H\<rparr>)" using assms(1) by (auto simp: winv_def mem_inv_def)
  then show ?thesis using H(1) by blast
qed

subsection \<open>Coroutines\<close>

text \<open>The body of a handler: calls of the runtime and yields. A request or response is created, sent and
  released; the response answers the message being handled.\<close>

datatype action =
    A_request u32 u32 u32 fnptr
  | A_respond u32 u32
  | A_resume u32
  | A_exit int
  | A_teardown
  | A_register u32 entrypoint
  | A_inject "addr \<times> hooks"
  | A_uninject ptr
  | A_yield u32 fnptr u64

definition EAF_COROUTINE_YIELD :: "fnptr \<Rightarrow> u64 \<Rightarrow> u32 \<Rightarrow> world \<Rightarrow> world option" where
  "EAF_COROUTINE_YIELD fn arg n w = do {
     s \<leftarrow> eaf_service_get_local w;
     let w = upd_srv s (\<lambda>v. v\<lparr>s_branch := n\<rparr>) w;
     Some (upd_grp (fst s) (\<lambda>g. g\<lparr>g_cc0 := EAF_SERVICE_CC0_YIELD, g_yield_hook := fn, g_yield_arg := arg\<rparr>) w) }"

text \<open>The \<open>switch\<close> over the branch: \<open>case 0\<close> is the start, \<open>case n\<close> the point after the yield labelled
  \<open>n\<close>; \<open>-1\<close> ends at once and an unknown label skips the body.\<close>

fun after_yield :: "u32 \<Rightarrow> action list \<Rightarrow> action list" where
  "after_yield n [] = []"
| "after_yield n (A_yield m fn arg # as) = (if m = n then as else after_yield n as)"
| "after_yield n (a # as) = after_yield n as"

definition EAF_COROUTINE_REENTER :: "u32 \<Rightarrow> action list \<Rightarrow> action list" where
  "EAF_COROUTINE_REENTER branch as = (if branch = - 1 then [] else if branch = 0 then as else after_yield branch as)"

definition run_action :: "env \<Rightarrow> ptr \<Rightarrow> action \<Rightarrow> world \<Rightarrow> world option" where
  "run_action E m a w =
     (case a of
        A_request from to i fn \<Rightarrow>
          (case eaf_msg_create_req (e_menv E w) (w_mheap w) i 0 fn of
             (None, H) \<Rightarrow> Some (w\<lparr>w_mheap := H\<rparr>)
           | (Some b, H) \<Rightarrow> do {
               (_, w) \<leftarrow> eaf_send_req E from to b (w\<lparr>w_mheap := H\<rparr>);
               H \<leftarrow> eaf_msg_dec_ref (w_mheap w) b;
               Some (w\<lparr>w_mheap := H\<rparr>) })
      | A_respond from to \<Rightarrow>
          (case Option.bind m (w_mheap w) of
             None \<Rightarrow> Some w
           | Some req \<Rightarrow>
             (case eaf_msg_create_rsp (e_menv E w) (w_mheap w) (msg req) 0 of
                (None, H) \<Rightarrow> Some (w\<lparr>w_mheap := H\<rparr>)
              | (Some b, H) \<Rightarrow> do {
                  (_, w) \<leftarrow> eaf_send_rsp E from to b (w\<lparr>w_mheap := H\<rparr>);
                  H \<leftarrow> eaf_msg_dec_ref (w_mheap w) b;
                  Some (w\<lparr>w_mheap := H\<rparr>) }))
      | A_resume i \<Rightarrow> map_option snd (eaf_resume E i w)
      | A_exit rs \<Rightarrow> map_option snd (eaf_exit E rs w)
      | A_teardown \<Rightarrow> map_option snd (eaf_teardown E w)
      | A_register i e \<Rightarrow> map_option snd (eaf_register E i e w)
      | A_inject h \<Rightarrow> Some (snd (eaf_inject h 0 0 w))
      | A_uninject p \<Rightarrow> Some (snd (eaf_uninject p w))
      | A_yield n fn arg \<Rightarrow> EAF_COROUTINE_YIELD fn arg n w)"

fun is_yield :: "action \<Rightarrow> bool" where
  "is_yield (A_yield n fn arg) = True"
| "is_yield a = False"

text \<open>The actions run up to and including the first yield.\<close>

fun run_actions :: "env \<Rightarrow> ptr \<Rightarrow> action list \<Rightarrow> world \<Rightarrow> world option" where
  "run_actions E m [] w = Some w"
| "run_actions E m (a # as) w = do { w \<leftarrow> run_action E m a w; if is_yield a then Some w else run_actions E m as w }"

subsection \<open>Environments of programs\<close>

partial_function (option) fresh_from :: "(addr \<Rightarrow> 'a option) \<Rightarrow> addr \<Rightarrow> addr option" where
  "fresh_from H a = (case H a of None \<Rightarrow> Some a | Some _ \<Rightarrow> fresh_from H (a + 1))"

declare fresh_from.simps [code]

lemma fresh_from_None: "fresh_from H a = Some b \<Longrightarrow> H b = None"
  by (rule fresh_from.raw_induct [of "\<lambda>H a b. H b = None", rotated]) (auto split: option.splits)

lemma fresh_from_ex: "H (a + n) = None \<Longrightarrow> \<exists>b. fresh_from H a = Some b"
proof (induction n arbitrary: a)
  case 0
  then show ?case by (subst fresh_from.simps) simp
next
  case (Suc n)
  then have "\<exists>b. fresh_from H (a + 1) = Some b" by simp
  then show ?case by (subst fresh_from.simps) (simp split: option.split)
qed

definition heap_env :: "mheap \<Rightarrow> msg_env" where
  "heap_env H = \<lparr>malloc = (\<lambda>_. fresh_from H 0), lock_init = 0, sizeof_msg_full = 128,
     fresh_memory = \<lparr>msg = \<lparr>msg_id = 0, msg_from = 0, encs = 0, uuid = 0, orig = 0\<rparr>, refcnt = 0, data_size = 0\<rparr>\<rparr>"

definition base_env :: env where
  "base_env = \<lparr>e_ucode = (\<lambda>u w. Some (0, w)), e_alloc = (\<lambda>w. fresh_from (w_recs w) 0), e_menv = (\<lambda>w. heap_env (w_mheap w)),
     e_calloc = (\<lambda>_. True), e_ready_init = 0, e_tls_init = 0, e_lock_init = (\<lambda>_. 0), e_sem_init = (\<lambda>_. 0),
     e_thread_init = (\<lambda>_. 0), e_tls_set = (\<lambda>_. 0), e_thread_id = (\<lambda>gi. of_nat gi)\<rparr>"

text \<open>\<open>P\<close> gives the body of each function. Handlers are coroutines of the running service; initialisation
  and exit functions, and the calls of other threads, run without yields; hooks only observe.\<close>

definition prog_ucode :: "(fnptr \<Rightarrow> action list) \<Rightarrow> ucall \<Rightarrow> world \<Rightarrow> (int \<times> world) option" where
  "prog_ucode P u w = map_option (Pair 0)
     (case u of
        UMsg fn from to m \<Rightarrow>
          (case eaf_service_get_local w of
             None \<Rightarrow> Some w
           | Some s \<Rightarrow> do {
               v \<leftarrow> srv w s;
               run_actions base_env (Some m) (EAF_COROUTINE_REENTER (s_branch v) (P fn)) w })
      | UInit fn \<Rightarrow> run_actions base_env None (filter (\<lambda>a. \<not> is_yield a) (P fn)) w
      | UExit fn \<Rightarrow> run_actions base_env None (filter (\<lambda>a. \<not> is_yield a) (P fn)) w
      | _ \<Rightarrow> Some w)"

definition prog_env :: "(fnptr \<Rightarrow> action list) \<Rightarrow> env" where
  "prog_env P = base_env\<lparr>e_ucode := prog_ucode P\<rparr>"

lemma base_env_simps [simp]: "e_ucode base_env u w = Some (0, w)" "e_alloc base_env w = fresh_from (w_recs w) 0"
  "e_menv base_env w = heap_env (w_mheap w)"
  by (simp_all add: base_env_def)

lemma quiet_base [simp]: "quiet base_env w"
  unfolding quiet_def by (rule disjI1) simp

lemma heap_env_fresh: "malloc (heap_env H) n = Some b \<Longrightarrow> H b = None"
  using fresh_from_None [of H 0 b] by (simp add: heap_env_def)

lemma create_in_heap:
  assumes "winv w" "eaf_msg_create_req (heap_env (w_mheap w)) (w_mheap w) i sz fn = (Some a, H) \<or>
      eaf_msg_create_rsp (heap_env (w_mheap w)) (w_mheap w) req sz = (Some a, H)"
  shows "winv (w\<lparr>w_mheap := H\<rparr>)" "held a (w\<lparr>w_mheap := H\<rparr>)" "\<exists>f. H a = Some f \<and> refcnt f = 1"
  using create_good [OF assms] heap_env_fresh [of "w_mheap w"] by blast+

lemma create_fail_heap:
  "eaf_msg_create_req (heap_env H0) H0 i sz fn = (None, H) \<Longrightarrow> H = H0"
  "eaf_msg_create_rsp (heap_env H0) H0 req sz = (None, H) \<Longrightarrow> H = H0"
  using create_fail [of "heap_env H0" H0] heap_env_fresh [of H0] by blast+

lemma send_then_release:
  assumes "winv w" "\<And>H b. create = (Some b, H) \<Longrightarrow> winv (w\<lparr>w_mheap := H\<rparr>) \<and> held b (w\<lparr>w_mheap := H\<rparr>) \<and>
      goodr {} (w\<lparr>w_mheap := H\<rparr>) (send b (w\<lparr>w_mheap := H\<rparr>)) (\<lambda>_ w'. kept (w\<lparr>w_mheap := H\<rparr>) w')"
    "\<And>H. create = (None, H) \<Longrightarrow> H = w_mheap w"
  shows "good {} w (case create of (None, H) \<Rightarrow> Some (w\<lparr>w_mheap := H\<rparr>)
     | (Some b, H) \<Rightarrow> send b (w\<lparr>w_mheap := H\<rparr>) \<bind> (\<lambda>(_ :: int, w). eaf_msg_dec_ref (w_mheap w) b \<bind> (\<lambda>H. Some (w\<lparr>w_mheap := H\<rparr>))))
    (\<lambda>w'. \<forall>gi. map_option g_cc0 (grp w' gi) = map_option g_cc0 (grp w gi))"
proof (cases create)
  case (Pair p H)
  show ?thesis
  proof (cases p)
    case None
    then show ?thesis using Pair assms(1,3) by (simp add: good_return)
  next
    case (Some b)
    let ?w = "w\<lparr>w_mheap := H\<rparr>"
    have w: "winv ?w" "held b ?w" "goodr {} ?w (send b ?w) (\<lambda>_ w'. kept ?w w')" using assms(2) Pair Some by auto
    then obtain r w1 where w1: "send b ?w = Some (r, w1)" "winv w1" "frame {} ?w w1" "kept ?w w1" by (auto simp: goodr_def)
    obtain H' where H': "eaf_msg_dec_ref (w_mheap w1) b = Some H'" "winv (w1\<lparr>w_mheap := H'\<rparr>)"
      using dec_good [OF w1(2), of b] w1(4) w(2) unfolding kept_def by blast
    have "frame {} w (w1\<lparr>w_mheap := H'\<rparr>)" using frame_trans [OF frame_trans [OF frame_mheap w1(3)] frame_mheap] .
    then show ?thesis using Pair Some w1 H' by (simp add: good_def kept_def)
  qed
qed


definition cc0_same :: "world \<Rightarrow> world \<Rightarrow> bool" where
  "cc0_same w w' \<longleftrightarrow> (\<forall>gi. map_option g_cc0 (grp w' gi) = map_option g_cc0 (grp w gi))"

lemma goodr_good: "goodr {} w x (\<lambda>_ w'. kept w w') \<Longrightarrow> good {} w (map_option snd x) (cc0_same w)"
  by (auto simp: goodr_def good_def kept_def cc0_same_def)

lemma run_action_good:
  assumes "winv w" "\<not> is_yield a"
  shows "good {} w (run_action base_env m a w) (cc0_same w)"
proof (cases a)
  case (A_request x1 x2 x3 x4)
  have "good {} w (case eaf_msg_create_req (heap_env (w_mheap w)) (w_mheap w) x3 0 x4 of (None, H) \<Rightarrow> Some (w\<lparr>w_mheap := H\<rparr>)
     | (Some b, H) \<Rightarrow> eaf_send_req base_env x1 x2 b (w\<lparr>w_mheap := H\<rparr>) \<bind>
         (\<lambda>(_, w). eaf_msg_dec_ref (w_mheap w) b \<bind> (\<lambda>H. Some (w\<lparr>w_mheap := H\<rparr>)))) (cc0_same w)"
    unfolding cc0_same_def [abs_def]
  proof (rule send_then_release [OF assms(1)])
    fix H b assume c: "eaf_msg_create_req (heap_env (w_mheap w)) (w_mheap w) x3 0 x4 = (Some b, H)"
    have *: "winv (w\<lparr>w_mheap := H\<rparr>)" "held b (w\<lparr>w_mheap := H\<rparr>)" "\<exists>f. H b = Some f \<and> refcnt f = 1"
      using create_in_heap [OF assms(1) disjI1 [OF c]] by auto
    then obtain f where f: "w_mheap (w\<lparr>w_mheap := H\<rparr>) b = Some f" "refcnt f = 1" by auto
    have "goodr {} (w\<lparr>w_mheap := H\<rparr>) (eaf_send_req base_env x1 x2 b (w\<lparr>w_mheap := H\<rparr>)) (\<lambda>_ w'. kept (w\<lparr>w_mheap := H\<rparr>) w')"
      by (rule send_good(1) [OF *(1) quiet_base _ f(1)]) (use f(2) fresh_from_None in auto)
    with * show "winv (w\<lparr>w_mheap := H\<rparr>) \<and> held b (w\<lparr>w_mheap := H\<rparr>) \<and>
      goodr {} (w\<lparr>w_mheap := H\<rparr>) (eaf_send_req base_env x1 x2 b (w\<lparr>w_mheap := H\<rparr>)) (\<lambda>_ w'. kept (w\<lparr>w_mheap := H\<rparr>) w')" by blast
  qed (rule create_fail_heap(1))
  then show ?thesis unfolding run_action_def A_request by simp
next
  case (A_respond x1 x2)
  show ?thesis
  proof (cases "Option.bind m (w_mheap w)")
    case None
    then show ?thesis using assms(1) unfolding run_action_def A_respond by (simp add: good_return cc0_same_def)
  next
    case (Some req)
    have "good {} w (case eaf_msg_create_rsp (heap_env (w_mheap w)) (w_mheap w) (msg req) 0 of (None, H) \<Rightarrow> Some (w\<lparr>w_mheap := H\<rparr>)
       | (Some b, H) \<Rightarrow> eaf_send_rsp base_env x1 x2 b (w\<lparr>w_mheap := H\<rparr>) \<bind>
           (\<lambda>(_, w). eaf_msg_dec_ref (w_mheap w) b \<bind> (\<lambda>H. Some (w\<lparr>w_mheap := H\<rparr>)))) (cc0_same w)"
      unfolding cc0_same_def [abs_def]
    proof (rule send_then_release [OF assms(1)])
      fix H b assume c: "eaf_msg_create_rsp (heap_env (w_mheap w)) (w_mheap w) (msg req) 0 = (Some b, H)"
      have *: "winv (w\<lparr>w_mheap := H\<rparr>)" "held b (w\<lparr>w_mheap := H\<rparr>)" "\<exists>f. H b = Some f \<and> refcnt f = 1"
        using create_in_heap [OF assms(1) disjI2 [OF c]] by auto
      then obtain f where f: "w_mheap (w\<lparr>w_mheap := H\<rparr>) b = Some f" "refcnt f = 1" by auto
      have "goodr {} (w\<lparr>w_mheap := H\<rparr>) (eaf_send_rsp base_env x1 x2 b (w\<lparr>w_mheap := H\<rparr>)) (\<lambda>_ w'. kept (w\<lparr>w_mheap := H\<rparr>) w')"
        by (rule send_good(2) [OF *(1) quiet_base _ f(1)]) (use f(2) fresh_from_None in auto)
      with * show "winv (w\<lparr>w_mheap := H\<rparr>) \<and> held b (w\<lparr>w_mheap := H\<rparr>) \<and>
        goodr {} (w\<lparr>w_mheap := H\<rparr>) (eaf_send_rsp base_env x1 x2 b (w\<lparr>w_mheap := H\<rparr>)) (\<lambda>_ w'. kept (w\<lparr>w_mheap := H\<rparr>) w')" by blast
    qed (rule create_fail_heap(2))
    then show ?thesis using Some unfolding run_action_def A_respond by simp
  qed
next
  case (A_inject x)
  then show ?thesis using goodr_good [OF inject_good(1) [OF assms(1), of x 0 0]] by (simp add: run_action_def)
next
  case (A_uninject x)
  then show ?thesis using goodr_good [OF inject_good(2) [OF assms(1), of x]] by (simp add: run_action_def)
qed (use assms(2) in \<open>simp_all add: run_action_def goodr_good [OF resume_good [OF assms(1) quiet_base]]
  goodr_good [OF exit_good(1) [OF assms(1) quiet_base]] goodr_good [OF exit_good(2) [OF assms(1) quiet_base]]
  goodr_good [OF register_good [OF assms(1) quiet_base]]\<close>)

lemma yield_good:
  assumes "winv w" "eaf_service_get_local w = Some s"
  shows "good {} w (EAF_COROUTINE_YIELD fn arg n w) (\<lambda>_. True)"
proof -
  obtain g where g: "w_tls w = Some (fst s)" "grp w (fst s) = Some g" "g_cur_run g = Some (snd s)"
    using assms(2) by (auto simp: eaf_service_get_local_def eaf_get_current_service_def
      split: if_splits Option.bind_splits)
  have "snd s < length (g_services g)" using lists_okD [OF assms(1) g(2)] g(3) by (simp add: lists_ok_def)
  then obtain v where v: "srv w s = Some v" using g(2) by (simp add: srv_def)
  let ?f = "\<lambda>v. v\<lparr>s_branch := n\<rparr>"
  let ?h = "\<lambda>g. g\<lparr>g_cc0 := EAF_SERVICE_CC0_YIELD, g_yield_hook := fn, g_yield_arg := arg\<rparr>"
  have "srv_ok v" using srv_okD [OF assms(1) v] .
  then have w1: "winv (upd_srv s ?f w)" by (intro winv_upd_srv [OF assms(1) v]) (simp_all add: srv_ok_def srv_recs_def)
  have f1: "frame {} w (upd_srv s ?f w)" by (rule frame_upd_srv) (simp add: srv_frame_def)
  have "winv (upd_grp (fst s) ?h (upd_srv s ?f w))" by (rule winv_upd_grp [OF w1]) auto
  moreover have "frame {} w (upd_grp (fst s) ?h (upd_srv s ?f w))"
    by (rule frame_trans [OF f1]) (auto intro: frame_upd_grp)
  ultimately show ?thesis using assms(2) by (simp add: EAF_COROUTINE_YIELD_def good_def)
qed

lemma get_local_frame: "frame {} w w' \<Longrightarrow> eaf_service_get_local w = Some s \<Longrightarrow> eaf_service_get_local w' = Some s"
proof -
  assume f: "frame {} w w'" and s: "eaf_service_get_local w = Some s"
  obtain g where g: "w_ctx w \<noteq> None" "w_tls w = Some (fst s)" "grp w (fst s) = Some g" "g_cur_run g = Some (snd s)"
    using s by (auto simp: eaf_service_get_local_def eaf_get_current_service_def split: if_splits Option.bind_splits)
  have "map_option g_cur_run (grp w' (fst s)) = map_option g_cur_run (grp w (fst s))"
    using f not_whole_group(1) unfolding frame_def by blast
  then obtain g' where "grp w' (fst s) = Some g'" "g_cur_run g' = Some (snd s)" using g(3,4) by (cases "grp w' (fst s)") auto
  moreover have "w_tls w' = w_tls w" using f unfolding frame_def by blast
  moreover have "w_ctx w' \<noteq> None" using f g(1) frame_ctxD by blast
  ultimately show ?thesis using g(2) by (simp add: eaf_service_get_local_def eaf_get_current_service_def)
qed

lemma run_actions_good:
  assumes "winv w" "(\<forall>a \<in> set as. \<not> is_yield a) \<or> eaf_service_get_local w = Some s"
  shows "good {} w (run_actions base_env m as w) (\<lambda>w'. (\<forall>a \<in> set as. \<not> is_yield a) \<longrightarrow> cc0_same w w')"
  using assms
proof (induction as arbitrary: w)
  case Nil
  then show ?case by (simp add: good_return cc0_same_def)
next
  case (Cons a as)
  show ?case
  proof (cases "is_yield a")
    case True
    then obtain n fn arg where "a = A_yield n fn arg" by (cases a) auto
    then show ?thesis using yield_good [OF Cons(2), of s fn arg n] Cons(3)
      by (auto simp: run_action_def good_def)
  next
    case False
    have "good {} w (run_action base_env m a w \<bind> run_actions base_env m as) (\<lambda>w'. (\<forall>a \<in> set as. \<not> is_yield a) \<longrightarrow> cc0_same w w')"
    proof (rule good_bind [OF run_action_good [OF Cons(2) False]])
      fix w1 assume w1: "winv w1" "frame {} w w1" "cc0_same w w1"
      show "good {} w1 (run_actions base_env m as w1) (\<lambda>w'. (\<forall>a \<in> set as. \<not> is_yield a) \<longrightarrow> cc0_same w w')"
      proof (rule good_mono [OF Cons(1) [OF w1(1)]])
        show "(\<forall>a \<in> set as. \<not> is_yield a) \<or> eaf_service_get_local w1 = Some s"
          using Cons(3) get_local_frame [OF w1(2), of s] by (metis list.set_intros(2))
      qed (use w1(3) in \<open>auto simp: cc0_same_def\<close>)
    qed
    then show ?thesis using False by simp
  qed
qed

lemma prog_user:
  assumes "winv w"
  shows "\<exists>r w'. prog_ucode P u w = Some (r, w') \<and> winv w' \<and> frame {} w w' \<and>
    (is_hook u \<or> u = UInit p \<longrightarrow> cc0_same w w')"
proof -
  have quiet_run: "good {} w (run_actions base_env m (filter (\<lambda>a. \<not> is_yield a) as) w) (\<lambda>w'. cc0_same w w')" for m as
    by (rule good_mono [OF run_actions_good [OF assms disjI1]]) auto
  show ?thesis
  proof (cases u)
    case (UInit fn)
    then show ?thesis using quiet_run [of None "P fn"] by (auto simp: prog_ucode_def good_def)
  next
    case (UExit fn)
    then show ?thesis using quiet_run [of None "P fn"] by (auto simp: prog_ucode_def good_def)
  next
    case (UMsg fn x1 x2 m)
    show ?thesis
    proof (cases "eaf_service_get_local w")
      case None
      then show ?thesis using UMsg assms by (simp add: prog_ucode_def)
    next
      case (Some s)
      then obtain g where g: "grp w (fst s) = Some g" "g_cur_run g = Some (snd s)"
        by (auto simp: eaf_service_get_local_def eaf_get_current_service_def split: if_splits Option.bind_splits)
      then have "snd s < length (g_services g)" using lists_okD [OF assms] by (simp add: lists_ok_def)
      then obtain v where v: "srv w s = Some v" using g(1) by (simp add: srv_def)
      show ?thesis
        using run_actions_good [OF assms disjI2 [OF Some], where as = "EAF_COROUTINE_REENTER (s_branch v) (P fn)" and m = "Some m"] UMsg Some v
        by (auto simp: prog_ucode_def good_def)
    qed
  qed (use assms in \<open>auto simp: prog_ucode_def cc0_same_def\<close>)
qed

interpretation prog: user_code "prog_env P" for P
proof
  fix w u assume "winv w"
  then show "\<exists>r w'. e_ucode (prog_env P) u w = Some (r, w') \<and> winv w' \<and> frame {} w w'"
    using prog_user [of w P u 0] by (auto simp: prog_env_def)
next
  fix u w r w' a f assume "is_hook u" "e_ucode (prog_env P) u w = Some (r, w')" "w_mheap w a = Some f"
  then show "w_mheap w' a = Some f" by (cases u) (auto simp: prog_env_def prog_ucode_def)
next
  fix u p w r w' gi g assume "is_hook u \<or> u = UInit p" "winv w" "e_ucode (prog_env P) u w = Some (r, w')" "grp w gi = Some g"
  then show "map_option g_cc0 (grp w' gi) = Some (g_cc0 g)"
    using prog_user [of w P u p] by (auto simp: prog_env_def cc0_same_def)
next
  show "\<exists>r w'. e_ucode (prog_env P) (UHook p) w = Some (r, w')" for p w by (simp add: prog_env_def prog_ucode_def)
next
  fix w a assume "e_alloc (prog_env P) w = Some a"
  then show "w_recs w a = None" using fresh_from_None [of "w_recs w" 0 a] by (simp add: prog_env_def)
next
  fix w :: world and n assume "finite (dom (w_mheap w))"
  then obtain a where "w_mheap w a = None" using ex_new_if_finite infinite_UNIV_nat by blast
  then obtain b where b: "fresh_from (w_mheap w) 0 = Some b" using fresh_from_ex [of "w_mheap w" 0 a] by auto
  then have "w_mheap w b = None" using fresh_from_None by blast
  then show "\<exists>a. malloc (e_menv (prog_env P) w) n = Some a \<and> w_mheap w a = None \<and> 0 \<le> lock_init (e_menv (prog_env P) w)"
    using b by (simp add: prog_env_def heap_env_def)
qed

end
