(* ===== verification/ServiceSystem.thy ===== *)
theory ServiceSystem
  imports ServiceProgram
begin

text \<open>
  The whole runtime: the body of a group thread, and a step relation in which group threads, callers
  outside and the loading thread interleave. A reachable state satisfies an invariant under which no
  thread can run into undefined behaviour.
\<close>

subsection \<open>The thread\<close>

text \<open>What a thread that waits must not miss: a state that ends its loop, or a busy service.\<close>

definition must_wake :: "tphase \<Rightarrow> ctx_state \<Rightarrow> group \<Rightarrow> bool" where
  "must_wake p st g \<longleftrightarrow> (case p of T_wait_pend \<Rightarrow> st \<noteq> eaf_ctx_state_init
     | T_loop_pend \<Rightarrow> st \<noteq> eaf_ctx_state_busy \<or> g_busy g \<noteq> []
     | T_teardown_pend \<Rightarrow> st \<noteq> eaf_ctx_state_teardown \<or> g_busy g \<noteq> []
     | _ \<Rightarrow> False)"

definition pend_ok :: "nat \<Rightarrow> tphase \<Rightarrow> world \<Rightarrow> bool" where
  "pend_ok gi p w \<longleftrightarrow> (\<forall>g st. grp w gi = Some g \<longrightarrow> ctx_state_of w = Some st \<longrightarrow> must_wake p st g \<longrightarrow> 0 < g_sem g)"

definition phase_ok :: "nat \<Rightarrow> tphase \<Rightarrow> world \<Rightarrow> bool" where
  "phase_ok gi p w \<longleftrightarrow> pend_ok gi p w \<and> (case p of T_start \<Rightarrow> start_ok gi w | T_wait \<Rightarrow> start_ok gi w | T_wait_pend \<Rightarrow> start_ok gi w
     | T_loop \<Rightarrow> loop_ok gi w | T_loop_pend \<Rightarrow> loop_ok gi w
     | T_teardown \<Rightarrow> loop_ok gi w | T_teardown_pend \<Rightarrow> loop_ok gi w | T_done \<Rightarrow> True)"

definition pending :: "tphase set" where
  "pending = {T_wait_pend, T_loop_pend, T_teardown_pend}"

definition looping :: "tphase set" where
  "looping = {T_loop, T_loop_pend, T_teardown, T_teardown_pend}"

text \<open>Why a thread does not go on.\<close>

definition blocked :: "tphase \<Rightarrow> group \<Rightarrow> bool" where
  "blocked p g \<longleftrightarrow> p = T_done \<or> p \<in> pending \<and> g_sem g = 0"

lemma pend_ok_trivial [simp]: "p \<notin> pending \<Longrightarrow> pend_ok gi p w"
  by (auto simp: pend_ok_def must_wake_def pending_def split: tphase.splits)

lemma pend_ok_frame:
  assumes "pend_ok gi p w" "frame S w w'" "({gi} \<times> UNIV) \<inter> S = {}" "winv w"
  shows "pend_ok gi p w'"
  unfolding pend_ok_def
proof (intro allI impI)
  fix g' st' assume *: "grp w' gi = Some g'" "ctx_state_of w' = Some st'" "must_wake p st' g'"
  have "map_option (\<lambda>g. length (g_services g)) (grp w' gi) = map_option (\<lambda>g. length (g_services g)) (grp w gi)"
    using assms(2) unfolding frame_def by blast
  then obtain g where g: "grp w gi = Some g" using *(1) by (cases "grp w gi") auto
  obtain st where st: "ctx_state_of w = Some st" using winvD(1) [OF assms(4)] by (auto simp: ctx_state_of_def)
  have "gi \<notin> fst ` S" using assms(3) by force
  then have "woken gi w w'" by (rule frame_woken [OF assms(2)])
  then have wk: "g_sem g \<le> g_sem g'" "g_sem g' = g_sem g \<Longrightarrow> (g_busy g = [] \<longrightarrow> g_busy g' = []) \<and> st' = st"
    using g *(1,2) st by (auto simp: woken_def)
  show "0 < g_sem g'"
  proof (cases "g_sem g' = g_sem g")
    case True
    then have "must_wake p st g" using wk(2) *(3) by (auto simp: must_wake_def split: tphase.splits)
    then show ?thesis using assms(1) g st True by (simp add: pend_ok_def)
  qed (use wk(1) in simp)
qed

lemma phase_ok_frame:
  assumes "phase_ok gi p w" "frame S w w'" "({gi} \<times> UNIV) \<inter> S = {}" "winv w"
  shows "phase_ok gi p w'"
  using assms start_ok_frame [OF _ assms(2,3)] loop_ok_frame [OF _ assms(2,3)] pend_ok_frame [OF _ assms(2-4)]
  by (simp add: phase_ok_def split: tphase.splits)

lemma srv_upd_ctx_same: "(\<And>c. c_groups (f c) = c_groups c) \<Longrightarrow> srv (upd_ctx f w) = srv w"
  by (simp add: srv_upd_ctx fun_eq_iff)

context user_code
begin

lemma wait_busy_good:
  assumes "winv w" "grp w gi = Some g" "start_ok gi w"
  shows "\<exists>p' w'. (eaf_group_init_necessary E gi w \<bind> (\<lambda>(init_count, w).
      let w = upd_ctx (\<lambda>c. c\<lparr>c_ready := c_ready c + 1\<rparr>) w in
      let w = (if int init_count < 0 then upd_ctx (\<lambda>c. c\<lparr>c_failure := True\<rparr>) w else w) in
      Some (Some (if int init_count \<le> 0 then T_done else T_loop, w)))) = Some (Some (p', w')) \<and>
    winv w' \<and> frame ({gi} \<times> UNIV) w w' \<and> phase_ok gi p' w'"
proof -
  obtain n w1 where w1: "eaf_group_init_necessary E gi w = Some (n, w1)" "winv w1" "frame ({gi} \<times> UNIV) w w1" "loop_ok gi w1"
    using group_init_good [OF assms] by (auto simp: goodr_def)
  let ?w = "upd_ctx (\<lambda>c. c\<lparr>c_ready := c_ready c + 1\<rparr>) w1"
  have w: "winv ?w" "frame {} w1 ?w" using ctx_update_good [OF w1(2)] by (auto simp: cstep_def)
  have "loop_ok gi ?w" using loop_ok_frame [OF w1(4) w(2)] by simp
  moreover have "frame ({gi} \<times> UNIV) w ?w" using frame_trans [OF w1(3) frame_mono [OF w(2)]] by simp
  ultimately show ?thesis using w1(1) w(1) by (simp add: phase_ok_def Let_def pending_def)
qed

lemma pend_good:
  assumes "winv w" "grp w gi = Some g"
  shows "sem_pend gi w = Some (if g_sem g = 0 then None else Some (sem_trypend gi w)) \<and> winv (sem_trypend gi w) \<and>
    frame ({gi} \<times> UNIV) w (sem_trypend gi w) \<and> srv (sem_trypend gi w) = srv w"
  using assms(2) winv_sem(2) [OF assms(1)] by (auto simp: sem_pend_def fun_eq_iff image_iff intro!: frame_sem(2))

lemma turn_good:
  assumes "winv w" "grp w gi = Some g" "loop_ok gi w" "again \<in> {T_loop, T_teardown}"
    "ctx_state_of w = Some (if again = T_loop then eaf_ctx_state_busy else eaf_ctx_state_teardown)"
    "pend = (if again = T_loop then T_loop_pend else T_teardown_pend)"
  shows "\<exists>p' w'. loop_turn E gi again pend w = Some (Some (p', w')) \<and> winv w' \<and> frame ({gi} \<times> UNIV) w w' \<and> phase_ok gi p' w'"
proof -
  obtain x where x: "eaf_service_thread_loop E gi w = Some x" "case x of None \<Rightarrow> g_busy g = []
    | Some w' \<Rightarrow> winv w' \<and> frame ({gi} \<times> UNIV) w w' \<and> loop_ok gi w'"
    using thread_loop_good [OF assms(1-3)] by blast
  show ?thesis
  proof (cases x)
    case None
    then have "phase_ok gi pend w" using assms x(2) by (auto simp: phase_ok_def pend_ok_def must_wake_def)
    then show ?thesis using None x(1) assms(1) by (simp add: loop_turn_def)
  next
    case (Some w')
    then have "phase_ok gi again w'" using assms(4) x(2) by (auto simp: phase_ok_def pending_def)
    then show ?thesis using Some x by (simp add: loop_turn_def)
  qed
qed

lemma thread_good:
  assumes "winv w" "grp w gi = Some g" "phase_ok gi p w" "ctx_state_of w = Some st"
    "st = eaf_ctx_state_init \<Longrightarrow> p \<notin> looping"
  shows "\<exists>x. eaf_thread E gi p w = Some x \<and>
    (case x of None \<Rightarrow> blocked p g
     | Some (p', w') \<Rightarrow> winv w' \<and> frame ({gi} \<times> UNIV) w w' \<and> phase_ok gi p' w' \<and>
         (ctx_state_of w' = Some eaf_ctx_state_init \<longrightarrow> p' \<notin> looping \<and> srv w' = srv w))"
proof -
  obtain c where c: "w_ctx w = Some c" "c_state c = st" using assms(4) by (auto simp: ctx_state_of_def)
  have noinit: "ctx_state_of w' \<noteq> Some eaf_ctx_state_init" if "frame S w w'" "st \<noteq> eaf_ctx_state_init" for S w'
    using frame_state [OF that(1) assms(4)] that(2) by (auto simp: cstep_def)
  note pend = pend_good [OF assms(1,2)]
  have start_pend: "start_ok gi (sem_trypend gi w) = start_ok gi w" "loop_ok gi (sem_trypend gi w) = loop_ok gi w"
    using pend by (simp_all add: start_ok_def loop_ok_def)
  show ?thesis
  proof (cases p)
    case T_start
    let ?w = "upd_grp gi (\<lambda>g. g\<lparr>g_tid := e_thread_id E gi\<rparr>) w"
    have "winv ?w" by (rule winv_upd_grp [OF assms(1)]) auto
    moreover have "frame ({gi} \<times> UNIV) w ?w" by (rule frame_upd_grp) auto
    moreover have "srv ?w = srv w" by (simp add: fun_eq_iff srv_keep_services)
    ultimately show ?thesis using assms(3) T_start
      by (auto simp: eaf_thread_def phase_ok_def start_ok_def Let_def pending_def looping_def)
  next
    case T_wait
    have start: "start_ok gi w" using assms(3) T_wait by (simp add: phase_ok_def)
    consider "st = eaf_ctx_state_init" | "st = eaf_ctx_state_busy" | "st \<notin> {eaf_ctx_state_init, eaf_ctx_state_busy}" by blast
    then show ?thesis
    proof cases
      case 1
      have "pend_ok gi T_wait_pend w" using 1 assms(4) by (simp add: pend_ok_def must_wake_def)
      then show ?thesis using 1 T_wait c assms(1) start by (simp add: eaf_thread_def phase_ok_def looping_def)
    next
      case 2
      obtain p' w' where w': "eaf_thread E gi p w = Some (Some (p', w'))" "winv w'" "frame ({gi} \<times> UNIV) w w'" "phase_ok gi p' w'"
        using wait_busy_good [OF assms(1,2) start] 2 c unfolding T_wait eaf_thread_def by auto
      then show ?thesis using noinit [OF w'(3)] 2 by simp
    next
      case 3
      then show ?thesis using T_wait c assms(1,2,4) by (simp add: eaf_thread_def phase_ok_def pending_def)
    qed
  next
    case T_wait_pend
    then have "start_ok gi w" using assms(3) by (simp add: phase_ok_def)
    then show ?thesis using T_wait_pend pend start_pend
      by (simp add: eaf_thread_def blocked_def phase_ok_def pending_def looping_def)
  next
    case T_loop
    then have st: "st \<noteq> eaf_ctx_state_init" using assms(5) by (auto simp: looping_def)
    have loop: "loop_ok gi w" using assms(3) T_loop by (simp add: phase_ok_def)
    consider "st = eaf_ctx_state_busy" | "st = eaf_ctx_state_teardown" | "st = eaf_ctx_state_exit" using st by (cases st) auto
    then show ?thesis
    proof cases
      case 1
      obtain p' w' where w': "loop_turn E gi T_loop T_loop_pend w = Some (Some (p', w'))" "winv w'" "frame ({gi} \<times> UNIV) w w'" "phase_ok gi p' w'"
        using turn_good [OF assms(1,2) loop, of T_loop T_loop_pend] 1 assms(4) by auto
      then show ?thesis using 1 T_loop c noinit [OF w'(3) st] by (simp add: eaf_thread_def)
    next
      case 2
      then have "idle_ctx w" using assms(4) by (simp add: idle_ctx_def)
      then obtain w' where w': "eaf_service_teardown E gi w = Some w'" "winv w'" "frame ({gi} \<times> UNIV) w w'" "loop_ok gi w'"
        using group_teardown_good [OF assms(1) _ assms(2) loop] by (auto simp: good_def)
      then show ?thesis using 2 T_loop c noinit [OF w'(3) st] by (simp add: eaf_thread_def phase_ok_def pending_def)
    next
      case 3
      then show ?thesis using T_loop c assms(1,4) loop by (simp add: eaf_thread_def phase_ok_def pending_def)
    qed
  next
    case T_loop_pend
    then have "loop_ok gi w" "st \<noteq> eaf_ctx_state_init" using assms(3,5) by (auto simp: phase_ok_def looping_def)
    then show ?thesis using T_loop_pend pend start_pend noinit [of "{gi} \<times> UNIV" "sem_trypend gi w"]
      by (simp add: eaf_thread_def blocked_def phase_ok_def pending_def)
  next
    case T_teardown
    then have st: "st \<noteq> eaf_ctx_state_init" using assms(5) by (auto simp: looping_def)
    have loop: "loop_ok gi w" using assms(3) T_teardown by (simp add: phase_ok_def)
    show ?thesis
    proof (cases "st = eaf_ctx_state_teardown")
      case True
      obtain p' w' where w': "loop_turn E gi T_teardown T_teardown_pend w = Some (Some (p', w'))" "winv w'" "frame ({gi} \<times> UNIV) w w'" "phase_ok gi p' w'"
        using turn_good [OF assms(1,2) loop, of T_teardown T_teardown_pend] True assms(4) by auto
      then show ?thesis using True T_teardown c noinit [OF w'(3) st] by (simp add: eaf_thread_def)
    next
      case False
      obtain w' where w': "eaf_group_exit E gi (length (g_services g)) w = Some w'" "winv w'" "frame ({gi} \<times> UNIV) w w'"
        using group_exit_good [OF assms(1,2)] by (auto simp: good_def)
      then show ?thesis using False T_teardown c assms(2) noinit [OF w'(3) st] by (simp add: eaf_thread_def phase_ok_def pending_def)
    qed
  next
    case T_teardown_pend
    then have "loop_ok gi w" "st \<noteq> eaf_ctx_state_init" using assms(3,5) by (auto simp: phase_ok_def looping_def)
    then show ?thesis using T_teardown_pend pend start_pend noinit [of "{gi} \<times> UNIV" "sem_trypend gi w"]
      by (simp add: eaf_thread_def blocked_def phase_ok_def pending_def)
  next
    case T_done
    then show ?thesis by (simp add: eaf_thread_def blocked_def)
  qed
qed

end


subsection \<open>Loading\<close>

lemma fix_state_group:
  "lists_ok g \<Longrightarrow> j + n \<le> length (g_services g) \<Longrightarrow>
     lists_ok (fix_state_g j n g) \<and> g_cur_run (fix_state_g j n g) = g_cur_run g \<and>
     length (g_services (fix_state_g j n g)) = length (g_services g) \<and>
     (\<forall>i < length (g_services g). g_services (fix_state_g j n g) ! i =
        (if j \<le> i \<and> i < j + n then (g_services g ! i)\<lparr>s_state := load_state (g_services g ! i)\<rparr> else g_services g ! i))"
proof (induction n arbitrary: j g)
  case (Suc n)
  let ?g = "set_state_g j (load_state (g_services g ! j)) g"
  have ok: "lists_ok ?g" using Suc.prems by (intro lists_ok_set_state) auto
  have len: "length (g_services ?g) = length (g_services g)" by simp
  have IH: "lists_ok (fix_state_g (j + 1) n ?g) \<and> g_cur_run (fix_state_g (j + 1) n ?g) = g_cur_run ?g \<and>
     length (g_services (fix_state_g (j + 1) n ?g)) = length (g_services ?g) \<and>
     (\<forall>i < length (g_services ?g). g_services (fix_state_g (j + 1) n ?g) ! i =
        (if j + 1 \<le> i \<and> i < j + 1 + n then (g_services ?g ! i)\<lparr>s_state := load_state (g_services ?g ! i)\<rparr> else g_services ?g ! i))"
    by (rule Suc.IH [OF ok]) (use Suc.prems len in simp)
  have j: "j < length (g_services g)" using Suc.prems by simp
  have "g_services (fix_state_g (j + 1) n ?g) ! i =
      (if j \<le> i \<and> i < j + Suc n then (g_services g ! i)\<lparr>s_state := load_state (g_services g ! i)\<rparr> else g_services g ! i)"
    if "i < length (g_services g)" for i
    using IH that j by (cases "i = j") (auto simp: nth_list_update)
  then show ?case using IH by simp
qed auto

lemma grp_load_fix: "grp (eaf_load_fix_state w) gi = map_option (\<lambda>g. fix_state_g 0 (length (g_services g)) g) (grp w gi)"
  by (cases "w_ctx w") (auto simp: eaf_load_fix_state_def grp_def)

lemma load_fix_simps [simp]: "w_recs (eaf_load_fix_state w) = w_recs w" "w_mheap (eaf_load_fix_state w) = w_mheap w"
  "w_tls (eaf_load_fix_state w) = w_tls w"
  by (simp_all add: eaf_load_fix_state_def)

lemma srv_load_fix:
  assumes "lists_inv w"
  shows "srv (eaf_load_fix_state w) s = map_option (\<lambda>v. v\<lparr>s_state := load_state v\<rparr>) (srv w s)"
proof (cases "grp w (fst s)")
  case (Some g)
  then have "lists_ok g" using assms by (simp add: lists_inv_def)
  from fix_state_group [OF this, of 0 "length (g_services g)"] Some show ?thesis by (auto simp: srv_def grp_load_fix)
qed (simp add: srv_def grp_load_fix)

definition ngroups :: "world \<Rightarrow> nat" where
  "ngroups w = (case w_ctx w of None \<Rightarrow> 0 | Some c \<Rightarrow> length (c_groups c))"

lemma grp_iff_ngroups: "grp w gi \<noteq> None \<longleftrightarrow> gi < ngroups w"
  by (auto simp: grp_def ngroups_def split: option.split)

lemma ngroups_eq: "(\<And>gi. grp w' gi = None \<longleftrightarrow> grp w gi = None) \<Longrightarrow> ngroups w' = ngroups w"
  by (metis grp_iff_ngroups linorder_neqE_nat order_less_irrefl)

lemma frame_ngroups: "frame S w w' \<Longrightarrow> ngroups w' = ngroups w"
proof (rule ngroups_eq)
  fix gi assume f: "frame S w w'"
  have "map_option (\<lambda>g. length (g_services g)) (grp w' gi) = map_option (\<lambda>g. length (g_services g)) (grp w gi)"
    using f unfolding frame_def by blast
  then show "grp w' gi = None \<longleftrightarrow> grp w gi = None" by (metis map_option_is_None)
qed

text \<open>Uninitialised: the state between \<open>eaf_init\<close> and \<open>eaf_load\<close>.\<close>

definition unloaded :: "world \<Rightarrow> bool" where
  "unloaded w \<longleftrightarrow> (\<forall>s v. srv w s = Some v \<longrightarrow> s_state v = eaf_service_state_init0)"

lemma unloaded_frame: "unloaded w \<Longrightarrow> frame {} w w' \<Longrightarrow> unloaded w'"
  unfolding unloaded_def
proof (intro allI impI)
  fix s v' assume u: "\<forall>s v. srv w s = Some v \<longrightarrow> s_state v = eaf_service_state_init0" and f: "frame {} w w'" and v': "srv w' s = Some v'"
  obtain v where "srv w s = Some v" "srv_frame v v'" using frame_srv_back' [OF f v'] by auto
  then show "s_state v' = eaf_service_state_init0" using u by (auto simp: srv_frame_def)
qed

lemma load_fix_good:
  assumes "winv w" "unloaded w"
  defines "w' \<equiv> upd_ctx (\<lambda>c. c\<lparr>c_state := eaf_ctx_state_busy\<rparr>) (eaf_load_fix_state w)"
  shows "winv w'" "start_ok gi w'" "ctx_state_of w' = Some eaf_ctx_state_busy" "ngroups w' = ngroups w"
proof -
  obtain c where c: "w_ctx w = Some c" using winvD(1) [OF assms(1)] by auto
  have srv: "srv w' s = map_option (\<lambda>v. v\<lparr>s_state := load_state v\<rparr>) (srv w s)" for s
    using srv_load_fix [OF winvD(2) [OF assms(1)]] by (simp add: w'_def srv_upd_ctx)
  have grp: "grp w' gi = map_option (\<lambda>g. fix_state_g 0 (length (g_services g)) g) (grp w gi)" for gi
    by (simp add: w'_def grp_upd_ctx grp_load_fix)
  show "ctx_state_of w' = Some eaf_ctx_state_busy" using c by (simp add: w'_def ctx_state_of_def eaf_load_fix_state_def)
  show "ngroups w' = ngroups w" by (rule ngroups_eq) (simp add: grp)
  show "start_ok gi w'" by (auto simp: start_ok_def srv load_state_def)
  have recs: "wrecs w' = wrecs w"
  proof (rule multiset_eqI)
    fix r
    have empty: "srv_recs v = []" if v: "srv w s = Some v" for s v
    proof -
      have "s_state v = eaf_service_state_init0" using assms(2) v unfolding unloaded_def by blast
      then show ?thesis using srv_okD [OF assms(1) v] by (simp add: srv_ok_def srv_recs_def)
    qed
    have "wrecs w = {#}" using empty wrecs_iff [of _ w] by (metis empty_iff list.set(1) multiset_nonemptyE)
    moreover have "srv_recs v = []" if v: "srv w' s = Some v" for s v
    proof -
      obtain z where z: "srv w s = Some z" "v = z\<lparr>s_state := load_state z\<rparr>" using v by (auto simp: srv)
      then have "srv_recs v = srv_recs z" by (simp add: srv_recs_def)
      then show ?thesis using empty [OF z(1)] by simp
    qed
    then have "wrecs w' = {#}" using wrecs_iff [of _ w'] by (metis empty_iff list.set(1) multiset_nonemptyE)
    ultimately show "count (wrecs w') r = count (wrecs w) r" by simp
  qed
  show "winv w'"
  proof (rule winvI)
    show "w_ctx w' \<noteq> None" using c by (simp add: w'_def eaf_load_fix_state_def)
    show "lists_inv w'" unfolding lists_inv_def
    proof (intro allI impI)
      fix gi g' assume "grp w' gi = Some g'"
      then obtain g where "grp w gi = Some g" "g' = fix_state_g 0 (length (g_services g)) g" by (auto simp: grp)
      then show "lists_ok g'" using fix_state_group [OF lists_okD [OF assms(1)], of gi g 0] by simp
    qed
    have "srv_ok (v\<lparr>s_state := load_state v\<rparr>) \<and> load_state v \<noteq> eaf_service_state_init0" if v: "srv w s = Some v" for s v
    proof -
      have "s_state v = eaf_service_state_init0" using assms(2) v unfolding unloaded_def by blast
      then show ?thesis using srv_okD [OF assms(1) v] by (auto simp: srv_ok_def load_state_def)
    qed
    then show "srvs_inv w'" by (auto simp: srvs_inv_def srv)
    show "mem_inv w'" using winvD(4) [OF assms(1)] by (simp add: mem_inv_def recs) (simp add: w'_def)
  qed
qed

subsection \<open>Initialisation\<close>

definition fresh_group :: "group \<Rightarrow> bool" where
  "fresh_group g \<longleftrightarrow> lists_ok g \<and> (\<forall>v \<in> set (g_services g). s_state v = eaf_service_state_init0 \<and>
     s_entry v = None \<and> s_queue v = [] \<and> s_cur_msg v = None)"

lemma fresh_init_service:
  assumes "fresh_group g"
  shows "fresh_group (eaf_init_service info g)"
proof -
  have "i \<notin> set (g_wait g)" if "length (g_services g) \<le> i" for i
    using that assms by (auto simp: fresh_group_def lists_ok_def)
  then have "lists_ok (eaf_init_service info g)"
    using assms unfolding fresh_group_def lists_ok_def eaf_init_service_def Let_def
    by (auto simp: nth_append in_wait_list_def less_Suc_eq)
  then show ?thesis using assms by (auto simp: fresh_group_def eaf_init_service_def Let_def)
qed

lemma fresh_fold: "fresh_group g \<Longrightarrow> fresh_group (fold eaf_init_service info g)"
  by (induction info arbitrary: g) (auto intro: fresh_init_service)

lemma fresh_zero: "fresh_group (zero_group i)"
  by (simp add: fresh_group_def zero_group_def lists_ok_def)

definition fresh_world :: "nat \<Rightarrow> world \<Rightarrow> bool" where
  "fresh_world n w \<longleftrightarrow> (\<forall>gi g. grp w gi = Some g \<longrightarrow> fresh_group g) \<and> ctx_state_of w = Some eaf_ctx_state_init \<and> ngroups w = n"

lemma init_group_fresh:
  assumes "fresh_world n w" "init_group_loop E idx info w = Some (0, w')"
  shows "fresh_world n w' \<and> w_mheap w' = w_mheap w \<and> w_recs w' = w_recs w"
  using assms
proof (induction info arbitrary: idx w)
  case (Cons t ts)
  let ?g = "fold eaf_init_service t (zero_group idx)"
  let ?w = "upd_grp idx (\<lambda>_. ?g) w"
  have "init_group_loop E (idx + 1) ts ?w = Some (0, w')"
    using Cons.prems(2) by (auto simp: Let_def split: if_splits)
  moreover have "ngroups ?w = ngroups w" by (rule ngroups_eq) simp
  then have "fresh_world n ?w" using Cons.prems(1) fresh_fold [OF fresh_zero]
    by (auto simp: fresh_world_def split: if_splits)
  ultimately show ?case using Cons.IH by fastforce
qed simp

lemma init_fresh:
  assumes "eaf_init E Z info w0 = Some (eaf_errno_success, w)"
  shows "fresh_world (length info) w \<and> w_mheap w = w_mheap w0 \<and> w_recs w = w_recs w0"
proof -
  let ?w = "w0\<lparr>w_ctx := Some (zero_ctx (length info))\<rparr>"
  have "fresh_world (length info) ?w"
    using fresh_zero by (auto simp: fresh_world_def grp_def zero_ctx_def ctx_state_of_def ngroups_def split: if_splits)
  moreover have ret: "r = 0 \<or> r = - 1" if "init_group_loop E idx ts x = Some (r, y)" for idx ts x r y
    using that by (induction ts arbitrary: idx x) (auto simp: Let_def split: if_splits)
  then have "eaf_init_group E info ?w = Some (0, w)"
    using assms unfolding eaf_init_def eaf_init_group_def
    by (auto simp: eaf_errno_success_def eaf_errno_duplicate_def eaf_errno_memory_def eaf_errno_unknown_def
        split: if_splits Option.bind_splits dest!: ret)
  ultimately show ?thesis using init_group_fresh [of "length info" ?w E 0 info w] by (simp add: eaf_init_group_def)
qed

lemma fresh_world_winv:
  assumes "fresh_world n w" "finite (dom (w_mheap w))"
  shows "winv w" "unloaded w"
proof -
  have v: "s_state v = eaf_service_state_init0 \<and> s_entry v = None \<and> s_queue v = [] \<and> s_cur_msg v = None"
    if v: "srv w s = Some v" for s v
  proof -
    obtain g where g: "grp w (fst s) = Some g" "snd s < length (g_services g)" "v = g_services g ! snd s"
      using srv_grp [OF v] by blast
    then have "v \<in> set (g_services g)" by simp
    then show ?thesis using assms(1) g(1) by (auto simp: fresh_world_def fresh_group_def)
  qed
  then show "unloaded w" by (simp add: unloaded_def)
  have "r \<notin># wrecs w" for r
    using v by (auto simp: wrecs_iff srv_recs_def)
  then have "wrecs w = {#}" by (meson multiset_nonemptyE)
  then show "winv w" using assms v
    by (auto simp: winv_def lists_inv_def srvs_inv_def mem_inv_def memok_def fresh_world_def fresh_group_def srv_ok_def ctx_state_of_def)
qed


subsection \<open>The step relation\<close>

text \<open>A system state: the world, the position of each group thread, and whether \<open>eaf_load\<close> is waiting.\<close>

type_synonym sys = "world \<times> tphase list \<times> bool"

inductive sys_step :: "env \<Rightarrow> sys \<Rightarrow> sys \<Rightarrow> bool" for E where
  thread: "gi < length ph \<Longrightarrow> eaf_thread E gi (ph ! gi) (w\<lparr>w_tls := Some gi\<rparr>) = Some (Some (p, w')) \<Longrightarrow>
    sys_step E (w, ph, l) (w', ph[gi := p], l)"
| outside: "e_ucode E u (w\<lparr>w_tls := None\<rparr>) = Some (r, w') \<Longrightarrow> sys_step E (w, ph, l) (w', ph, l)"
| load_start: "eaf_load_start E (w\<lparr>w_tls := None\<rparr>) = Some (Inr w') \<Longrightarrow> sys_step E (w, ph, False) (w', ph, True)"
| load_finish: "eaf_load_finish E (w\<lparr>w_tls := None\<rparr>) = Some (Some (r, w')) \<Longrightarrow> sys_step E (w, ph, True) (w', ph, False)"

lemma winv_state: "winv w \<Longrightarrow> \<exists>st. ctx_state_of w = Some st"
  using winvD(1) [of w] by (auto simp: ctx_state_of_def)

inductive_cases sys_stepE: "sys_step E s s'"

fun sys_inv :: "sys \<Rightarrow> bool" where
  "sys_inv (w, ph, l) \<longleftrightarrow> winv w \<and> ngroups w = length ph \<and>
     (ctx_state_of w = Some eaf_ctx_state_init \<longrightarrow> unloaded w \<and> (\<forall>gi < length ph. ph ! gi \<notin> looping)) \<and>
     (\<forall>gi < length ph. phase_ok gi (ph ! gi) w)"

lemma phase_ok_tls [simp]: "phase_ok gi p (w\<lparr>w_tls := t\<rparr>) = phase_ok gi p w"
  by (simp add: phase_ok_def pend_ok_def start_ok_def loop_ok_def split: tphase.split)

lemma sys_inv_tls: "sys_inv (w, ph, l) \<Longrightarrow> sys_inv (w\<lparr>w_tls := t\<rparr>, ph, l')"
  by (simp add: winv_tls unloaded_def ngroups_def)

lemma sys_inv_frame:
  assumes "sys_inv (w, ph, l)" "winv w'" "frame {} w w'"
  shows "sys_inv (w', ph, l')"
proof -
  obtain st where st: "ctx_state_of w = Some st" using winv_state assms(1) by (metis sys_inv.simps)
  have "st = eaf_ctx_state_init" if "ctx_state_of w' = Some eaf_ctx_state_init"
    using frame_state [OF assms(3) st] that by (auto simp: cstep_def)
  then show ?thesis using assms st unloaded_frame [OF _ assms(3)] frame_ngroups [OF assms(3)] phase_ok_frame [OF _ assms(3)]
    by auto
qed

lemma init_sys_inv:
  assumes "eaf_init E Z info w0 = Some (eaf_errno_success, w)" "finite (dom (w_mheap w0))"
  shows "sys_inv (w, replicate (length info) T_start, False)"
proof -
  have f: "fresh_world (length info) w" "finite (dom (w_mheap w))" using init_fresh [OF assms(1)] assms(2) by auto
  note w = fresh_world_winv [OF f]
  have "start_ok gi w" for gi using w(2) by (auto simp: start_ok_def unloaded_def)
  then show ?thesis using w f(1) by (simp add: fresh_world_def phase_ok_def pending_def looping_def)
qed

context user_code
begin

lemma sys_thread_ok:
  assumes "sys_inv (w, ph, l)" "gi < length ph"
  obtains x g st where "eaf_thread E gi (ph ! gi) (w\<lparr>w_tls := Some gi\<rparr>) = Some x" "grp w gi = Some g" "ctx_state_of w = Some st"
    "case x of None \<Rightarrow> blocked (ph ! gi) g | Some (p, w') \<Rightarrow> sys_inv (w', ph[gi := p], l)"
proof -
  let ?w = "w\<lparr>w_tls := Some gi\<rparr>"
  have inv: "sys_inv (?w, ph, l)" by (rule sys_inv_tls [OF assms(1)])
  obtain st where st: "ctx_state_of w = Some st" using winv_state assms(1) by (metis sys_inv.simps)
  obtain g where g: "grp w gi = Some g" using assms grp_iff_ngroups [of w gi] by auto
  obtain x where x: "eaf_thread E gi (ph ! gi) ?w = Some x"
    "case x of None \<Rightarrow> blocked (ph ! gi) g
     | Some (p', w') \<Rightarrow> winv w' \<and> frame ({gi} \<times> UNIV) ?w w' \<and> phase_ok gi p' w' \<and>
         (ctx_state_of w' = Some eaf_ctx_state_init \<longrightarrow> p' \<notin> looping \<and> srv w' = srv ?w)"
    using thread_good [of ?w gi g "ph ! gi" st] inv assms(2) g st by auto
  have "case x of None \<Rightarrow> blocked (ph ! gi) g | Some (p, w') \<Rightarrow> sys_inv (w', ph[gi := p], l)"
  proof (cases x)
    case (Some q)
    obtain p w' where q: "q = (p, w')" by (cases q)
    have w': "winv w'" "frame ({gi} \<times> UNIV) ?w w'" "phase_ok gi p w'"
      "ctx_state_of w' = Some eaf_ctx_state_init \<Longrightarrow> p \<notin> looping \<and> srv w' = srv ?w"
      using x(2) Some q by auto
    have "phase_ok gj (ph[gi := p] ! gj) w'" if "gj < length ph" for gj
      using phase_ok_frame [OF _ w'(2), of gj "ph ! gj"] inv w'(3) that by (cases "gj = gi") auto
    moreover have "unloaded w' \<and> (\<forall>gj < length ph. ph[gi := p] ! gj \<notin> looping)"
      if i: "ctx_state_of w' = Some eaf_ctx_state_init"
    proof -
      have "st = eaf_ctx_state_init" using frame_state [OF w'(2), of st] st i by (auto simp: cstep_def)
      then have "unloaded w" "\<forall>gj < length ph. ph ! gj \<notin> looping" using assms(1) st by auto
      moreover have "ph[gi := p] ! gj = (if gj = gi then p else ph ! gj)" if "gj < length ph" for gj
        using that by simp
      ultimately show ?thesis using w'(4) [OF i] by (auto simp: unloaded_def)
    qed
    ultimately show ?thesis using Some q w'(1) frame_ngroups [OF w'(2)] inv by (simp add: ngroups_def)
  qed (use x(2) in simp)
  then show thesis using that x(1) g st by blast
qed

lemma load_start_ok:
  assumes "sys_inv (w, ph, l)"
  shows "\<exists>x. eaf_load_start E w = Some x \<and> (\<forall>w'. x = Inr w' \<longrightarrow> sys_inv (w', ph, l'))"
proof (cases "ctx_state_of w = Some eaf_ctx_state_init")
  case True
  have w: "winv w" "unloaded w" "\<forall>gi < length ph. ph ! gi \<notin> looping" "ngroups w = length ph" using assms True by auto
  obtain w1 where w1: "hook_load_before E w = Some w1" "winv w1" "frame {} w w1"
  proof -
    obtain r w1 where "hook_call E on_load_before UHook w = Some (r, w1)" "winv w1" "frame {} w w1"
      using hook_good [OF w(1), of UHook on_load_before] by (auto simp: goodr_def)
    then show thesis using that by (simp add: hook_load_before_def)
  qed
  let ?w2 = "upd_ctx (\<lambda>c. c\<lparr>c_state := eaf_ctx_state_busy\<rparr>) (eaf_load_fix_state w1)"
  note fixed = load_fix_good [OF w1(2) unloaded_frame [OF w(2) w1(3)]]
  note post = post_all_good [OF fixed(1)]
  have "phase_ok gi (ph ! gi) (post_all ?w2)" if "gi < length ph" for gi
  proof -
    have "start_ok gi (post_all ?w2)" using fixed(2) [of gi] by (simp add: start_ok_def)
    moreover have "pend_ok gi (ph ! gi) (post_all ?w2)" by (auto simp: pend_ok_def grp_post_all)
    ultimately show ?thesis using w(3) that by (cases "ph ! gi") (auto simp: phase_ok_def looping_def)
  qed
  moreover have "ctx_state_of (post_all ?w2) = Some eaf_ctx_state_busy"
    using fixed(3) by (cases "w_ctx ?w2") (auto simp: ctx_state_of_def post_all_def)
  ultimately have "sys_inv (post_all ?w2, ph, l')"
    using post(1) frame_ngroups [OF post(2)] fixed(4) frame_ngroups [OF w1(3)] w(4) by simp
  then show ?thesis using True w1(1) by (simp add: eaf_load_start_def Let_def)
qed (simp add: eaf_load_start_def)

lemma load_finish_ok:
  assumes "sys_inv (w, ph, l)"
  shows "\<exists>x. eaf_load_finish E w = Some x \<and> (\<forall>r w'. x = Some (r, w') \<longrightarrow> sys_inv (w', ph, l'))"
proof -
  have w: "winv w" using assms by simp
  obtain c where c: "w_ctx w = Some c" using winvD(1) [OF w] by auto
  show ?thesis
  proof (cases "c_ready c < length (c_groups c)")
    case False
    let ?w = "upd_ctx (\<lambda>d. d\<lparr>c_ready := c_ready d - length (c_groups d)\<rparr>) w"
    have w1: "winv ?w" "frame {} w ?w" using ctx_update_good [OF w] by (auto simp: cstep_def)
    let ?ret = "if c_failure c then eaf_errno_state else eaf_errno_success"
    obtain r w2 where w2: "hook_call E on_load_after (\<lambda>p. UHookRet p ?ret) ?w = Some (r, w2)" "winv w2" "frame {} ?w w2"
      using hook_good [OF w1(1), of "\<lambda>p. UHookRet p ?ret" on_load_after] by (auto simp: goodr_def)
    have "sys_inv (w2, ph, l')" by (rule sys_inv_frame [OF assms w2(2) frame_trans [OF w1(2) w2(3)]])
    moreover have "eaf_load_finish E w = Some (Some (?ret, w2))"
      using c False w2(1) by (cases "c_failure c") (simp_all add: eaf_load_finish_def hook_load_after_def Let_def)
    ultimately show ?thesis by blast
  qed (use c in \<open>simp add: eaf_load_finish_def\<close>)
qed

lemma sys_step_inv: "sys_step E s s' \<Longrightarrow> sys_inv s \<Longrightarrow> sys_inv s'"
proof (induction rule: sys_step.induct)
  case (thread gi ph w p w' l)
  then show ?case using sys_thread_ok [of w ph l gi] by (metis (no_types, lifting) option.inject case_prod_conv option.simps(5))
next
  case (outside u w r w' ph l)
  let ?w = "w\<lparr>w_tls := None\<rparr>"
  have "sys_inv (?w, ph, l)" using outside(2) by (rule sys_inv_tls)
  moreover from this have "winv w'" "frame {} ?w w'" using user [of ?w u] outside(1) by auto
  ultimately show ?case by (rule sys_inv_frame)
next
  case (load_start w w' ph)
  have "sys_inv (w\<lparr>w_tls := None\<rparr>, ph, False)" using load_start(2) by (rule sys_inv_tls)
  then show ?case using load_start_ok [of "w\<lparr>w_tls := None\<rparr>" ph False True] load_start(1) by auto
next
  case (load_finish w r w' ph)
  have "sys_inv (w\<lparr>w_tls := None\<rparr>, ph, True)" using load_finish(2) by (rule sys_inv_tls)
  then show ?case using load_finish_ok [of "w\<lparr>w_tls := None\<rparr>" ph True False] load_finish(1) by auto
qed

lemma sys_reach_inv: "(sys_step E)\<^sup>*\<^sup>* s s' \<Longrightarrow> sys_inv s \<Longrightarrow> sys_inv s'"
  by (induction rule: rtranclp_induct) (auto intro: sys_step_inv)

end


subsection \<open>Executing the step relation\<close>

datatype choice = C_thread nat | C_outside ucall | C_load | C_loaded

fun sys_next :: "env \<Rightarrow> choice \<Rightarrow> sys \<Rightarrow> sys option" where
  "sys_next E (C_thread gi) (w, ph, l) =
     (if gi < length ph then
        (case eaf_thread E gi (ph ! gi) (w\<lparr>w_tls := Some gi\<rparr>) of
           Some (Some (p, w')) \<Rightarrow> Some (w', ph[gi := p], l)
         | _ \<Rightarrow> None)
      else None)"
| "sys_next E (C_outside u) (w, ph, l) = map_option (\<lambda>(r, w'). (w', ph, l)) (e_ucode E u (w\<lparr>w_tls := None\<rparr>))"
| "sys_next E C_load (w, ph, l) =
     (if l then None else case eaf_load_start E (w\<lparr>w_tls := None\<rparr>) of Some (Inr w') \<Rightarrow> Some (w', ph, True) | _ \<Rightarrow> None)"
| "sys_next E C_loaded (w, ph, l) =
     (if l then case eaf_load_finish E (w\<lparr>w_tls := None\<rparr>) of Some (Some (r, w')) \<Rightarrow> Some (w', ph, False) | _ \<Rightarrow> None else None)"

fun sys_run :: "env \<Rightarrow> choice list \<Rightarrow> sys \<Rightarrow> sys option" where
  "sys_run E [] s = Some s"
| "sys_run E (c # cs) s = do { s \<leftarrow> sys_next E c s; sys_run E cs s }"

lemma sys_next_step: "sys_next E c s = Some s' \<Longrightarrow> sys_step E s s'"
  by (induction E c s rule: sys_next.induct)
    (auto split: if_splits option.splits sum.splits intro: sys_step.intros)

lemma sys_run_reach: "sys_run E cs s = Some s' \<Longrightarrow> (sys_step E)\<^sup>*\<^sup>* s s'"
proof (induction cs arbitrary: s)
  case (Cons c cs)
  then obtain t where t: "sys_next E c s = Some t" "sys_run E cs t = Some s'" by (auto split: Option.bind_splits)
  then show ?case using converse_rtranclp_into_rtranclp [of "sys_step E" s t s'] sys_next_step Cons.IH by blast
qed simp

subsection \<open>A running system\<close>

text \<open>Two services in one group: the first requests the second when it is initialised; the second
  yields in the handler, is resumed from outside and responds.\<close>

definition sys_demo_prog :: "fnptr \<Rightarrow> action list" where
  "sys_demo_prog fn =
     (if fn = 1 then [A_register 1 \<lparr>msg_table = [], ep_on_init = 2, ep_on_exit = 3\<rparr>,
                      A_register 2 \<lparr>msg_table = [(7, 4)], ep_on_init = 5, ep_on_exit = 3\<rparr>]
      else if fn = 2 then [A_request 1 2 7 6]
      else if fn = 4 then [A_yield 5 0 0, A_respond 2 1]
      else if fn = 8 then [A_resume 2]
      else if fn = 9 then [A_exit 3]
      else if fn = 10 then [A_teardown]
      else [])"

definition sys_demo_info :: "group_table list" where
  "sys_demo_info = [[\<lparr>srv_id = 1, msgq_size = 2, attribute = 0\<rparr>, \<lparr>srv_id = 2, msgq_size = 1, attribute = 1\<rparr>]]"

definition sys_demo_sizes :: sizes where
  "sys_demo_sizes = \<lparr>sizeof_ctx = 128, sizeof_ptr = 8, sizeof_group = 256, sizeof_service = 128\<rparr>"

definition sys_demo_start :: world where
  "sys_demo_start = \<lparr>w_ctx = None, w_mheap = (\<lambda>_. None), w_recs = (\<lambda>_. None), w_tls = None\<rparr>"

definition sys_demo_env :: env where
  "sys_demo_env = prog_env sys_demo_prog"

text \<open>The state after \<open>eaf_init\<close> and a number of steps.\<close>

definition sys_demo :: "choice list \<Rightarrow> sys option" where
  "sys_demo cs = (case eaf_init sys_demo_env sys_demo_sizes sys_demo_info sys_demo_start of
     None \<Rightarrow> None
   | Some (r, w) \<Rightarrow> if r = eaf_errno_success then sys_run sys_demo_env cs (w, [T_start], False) else None)"

end
