(* ===== verification/ServiceDrain.thy ===== *)
theory ServiceDrain
  imports ServiceSystem
begin

text \<open>
  Progress of the event loop: with handlers that return and send nothing, a group works off all its
  messages and then blocks. The number of turns is bounded by a measure of the queues.
\<close>

lemma sum_list_map_update:
  "i < length xs \<Longrightarrow> (\<Sum>x \<leftarrow> xs[i := y]. f x) + f (xs ! i) = (\<Sum>x \<leftarrow> xs. f x) + (f y :: nat)"
proof (induction xs arbitrary: i)
  case (Cons x xs)
  then show ?case by (cases i) auto
qed simp

definition calm :: "env \<Rightarrow> bool" where
  "calm E \<longleftrightarrow> (\<forall>u w. \<exists>r. e_ucode E u w = Some (r, w))"

definition srv_work :: "service \<Rightarrow> nat" where
  "srv_work v = (if s_state v = eaf_service_state_busy then 2 * length (s_queue v) + (if s_cur_msg v = None then 1 else 2)
     else if s_state v = eaf_service_state_init1 then 2 * length (s_queue v) + 2 else 0)"

definition group_work :: "group \<Rightarrow> nat" where
  "group_work g = (\<Sum>v \<leftarrow> g_services g. srv_work v)"

text \<open>Turns of the loop until the thread goes on to wait, at most \<open>n\<close>.\<close>

fun turns :: "env \<Rightarrow> nat \<Rightarrow> nat \<Rightarrow> world \<Rightarrow> world option" where
  "turns E gi 0 w = Some w"
| "turns E gi (Suc n) w = do {
     x \<leftarrow> eaf_service_thread_loop E gi w;
     case x of None \<Rightarrow> Some w | Some w \<Rightarrow> turns E gi n w }"

lemma calm_user: "calm E \<Longrightarrow> \<exists>r. e_ucode E u w = Some (r, w)"
  unfolding calm_def by blast

lemma calm_hook: "calm E \<Longrightarrow> w_ctx w \<noteq> None \<Longrightarrow> \<exists>r. hook_call E f u w = Some (r, w)"
  unfolding hook_call_def hook_fn_def using calm_user [of E] by auto

lemma calm_service_hook: "calm E \<Longrightarrow> w_ctx w \<noteq> None \<Longrightarrow> hook_service E f i w = Some w"
  unfolding hook_service_def using calm_hook [of E w f "\<lambda>p. UHookId p i"] by auto

text \<open>A turn changes one service of the group only.\<close>

definition only :: "nat \<times> nat \<Rightarrow> world \<Rightarrow> world \<Rightarrow> bool" where
  "only s w w' \<longleftrightarrow> (\<forall>t. t \<noteq> s \<longrightarrow> srv w' t = srv w t)"

lemma only_trans: "only s w w' \<Longrightarrow> only s w' w'' \<Longrightarrow> only s w w''"
  by (simp add: only_def)

lemma reset_only: "eaf_service_reset s w = Some w' \<Longrightarrow> only s w w'"
  by (auto simp: eaf_service_reset_def eaf_service_destroy_msg_record_def eaf_service_reset_yield_branch_def only_def Let_def
      split: Option.bind_splits)

definition cc0_clear :: "nat \<Rightarrow> world \<Rightarrow> bool" where
  "cc0_clear gi w \<longleftrightarrow> (\<forall>g. grp w gi = Some g \<longrightarrow> g_cc0 g = 0)"

lemma calm_resume:
  assumes "calm E" "winv w" "srv w s = Some v" "s_cur_msg v = Some r" "cc0_clear (fst s) w"
  shows "eaf_service_resume_message E s w = eaf_service_reset s w"
proof -
  have "r \<in># wrecs w" using in_wrecs [OF assms(3)] in_srv_recs(1) [OF assms(4)] by blast
  then obtain m f where m: "w_recs w r = Some m" "w_mheap w (r_msg m) = Some f"
    using winvD(4) [OF assms(2)] by (auto simp: mem_inv_def elim: memok_live)
  obtain g where g: "grp w (fst s) = Some g" "g_cc0 g = 0" using srv_grp [OF assms(3)] assms(5) by (auto simp: cc0_clear_def)
  have after: "hook_message_handle_after E r w = Some w"
    using calm_hook [OF assms(1) winvD(1) [OF assms(2)], of on_message_handle_after "\<lambda>p. UHookMsg p (r_from m) (r_to m) (r_msg m)"] m(1)
    by (auto simp: hook_message_handle_after_def)
  obtain x where x: "(case eaf_msg_get_type (msg f) of
        eaf_msg_type_req \<Rightarrow> e_ucode E (UMsg (req_fn m) (r_from m) (r_to m) (r_msg m)) w
      | eaf_msg_type_rsp \<Rightarrow>
          let rsp_fn = eaf_msg_get_rsp_fn (msg f) in
          if rsp_fn \<noteq> 0 then e_ucode E (UMsg rsp_fn (r_from m) (r_to m) (r_msg m)) w else Some (0, w)) = Some (x, w)"
    using calm_user [OF assms(1), of "UMsg (req_fn m) (r_from m) (r_to m) (r_msg m)" w]
      calm_user [OF assms(1), of "UMsg (eaf_msg_get_rsp_fn (msg f)) (r_from m) (r_to m) (r_msg m)" w]
    by (cases "eaf_msg_get_type (msg f)"; cases "eaf_msg_get_rsp_fn (msg f) = 0") (auto simp: Let_def)
  show ?thesis
    using assms(3,4) m g after unfolding eaf_service_resume_message_def
    by (simp add: x eaf_group_check_cc0_def)
qed

lemma finish_only: "eaf_group_finish_service_init s w = Some w' \<Longrightarrow> only s w w'"
  by (auto simp: eaf_group_finish_service_init_def only_def Let_def split: Option.bind_splits)

lemma cc0_clear_set_state [simp]: "cc0_clear gi (eaf_service_set_state s st w) = cc0_clear gi w"
  by (auto simp: cc0_clear_def eaf_service_set_state_def)

lemma clear_cc0_grp: "grp (eaf_group_clear_cc0 gi w) gi = map_option (\<lambda>g. g\<lparr>g_cc0 := 0\<rparr>) (grp w gi)"
  by (simp add: eaf_group_clear_cc0_def)

context user_code
begin

lemma calm_init:
  assumes "calm E" "winv w" "srv w s = Some v" "s_state v = eaf_service_state_init1"
  shows "\<exists>w'. eaf_do_service_init E s w = Some w' \<and> only s w w' \<and> cc0_clear (fst s) w' \<and> winv w' \<and> frame {s} w w' \<and>
    (\<exists>v'. srv w' s = Some v' \<and> s_queue v' = s_queue v \<and> s_cur_msg v' = None \<and>
       s_state v' = (if s_queue v = [] then eaf_service_state_idle else eaf_service_state_busy))"
proof -
  let ?c = "eaf_group_clear_cc0 (fst s) w"
  let ?b = "eaf_service_reset_yield_branch s ?c"
  have ok: "srv_ok v" using srv_okD [OF assms(2,3)] .
  then obtain entry where entry: "s_entry v = Some entry" using assms(4) by (auto simp: srv_ok_def)
  have ctx: "w_ctx ?c \<noteq> None" "w_ctx ?b \<noteq> None" using winvD(1) [OF assms(2)]
    by (simp_all add: eaf_group_clear_cc0_def eaf_service_reset_yield_branch_def)
  obtain r where r: "e_ucode E (UInit (ep_on_init entry)) ?c = Some (r, ?c)" using calm_user [OF assms(1)] by blast
  obtain g where g: "grp w (fst s) = Some g" using srv_grp [OF assms(3)] by blast
  have "eaf_do_service_init E s w = eaf_group_finish_service_init s ?b"
    using assms(3) entry r g calm_service_hook [OF assms(1) ctx(1)] calm_service_hook [OF assms(1) ctx(2)]
    unfolding eaf_do_service_init_def hook_service_init_before_def hook_service_init_after_def Let_def
    by (simp add: eaf_group_check_cc0_def clear_cc0_grp)
  moreover have srv: "srv ?b s = Some (v\<lparr>s_branch := 0\<rparr>)" using assms(3) by (simp add: eaf_service_reset_yield_branch_def)
  moreover have "winv ?b"
    unfolding eaf_service_reset_yield_branch_def
    by (rule winv_upd_srv [where v = v, OF winv_sem(3) [OF assms(2)]]) (use assms(3) ok in \<open>simp_all add: srv_ok_def srv_recs_def\<close>)
  then obtain w' where w': "eaf_group_finish_service_init s ?b = Some w'" "winv w'" "frame {s} ?b w'"
    "srv w' s = Some (v\<lparr>s_branch := 0, s_state := (if s_queue v = [] then eaf_service_state_idle else eaf_service_state_busy)\<rparr>)"
    using finish_init_good [OF _ srv] assms(4) by (auto simp: good_def)
  moreover have "only s w ?b" by (simp add: only_def eaf_service_reset_yield_branch_def)
  then have "only s w w'" using finish_only [OF w'(1)] only_trans by blast
  moreover have "cc0_clear (fst s) ?b" by (auto simp: cc0_clear_def eaf_service_reset_yield_branch_def upd_srv_def clear_cc0_grp upd_srv_g_def)
  then have "cc0_clear (fst s) w'" using w'(1) srv
    by (auto simp: eaf_group_finish_service_init_def Let_def split: Option.bind_splits if_splits)
  moreover have "frame {s} w ?b" unfolding eaf_service_reset_yield_branch_def
    by (rule frame_trans [OF frame_sem(3) frame_upd_srv]) simp
  then have "frame {s} w w'" using w'(3) frame_trans by blast
  moreover have "s_cur_msg v = None" using ok assms(4) by (simp add: srv_ok_def)
  ultimately show ?thesis by auto
qed

lemma calm_busy:
  assumes "calm E" "winv w" "srv w s = Some v" "s_state v = eaf_service_state_busy" "cc0_clear (fst s) w"
    "eaf_handle_new_message E s w = Some w'"
  shows "only s w w' \<and> (\<exists>v'. srv w' s = Some v' \<and> srv_work v' < srv_work v)"
proof -
  consider (cur) r where "s_cur_msg v = Some r" | (idle) "s_cur_msg v = None" "s_queue v = []"
    | (pop) r q where "s_cur_msg v = None" "s_queue v = r # q" by (cases "s_cur_msg v"; cases "s_queue v") auto
  then show ?thesis
  proof cases
    case cur
    have "eaf_handle_new_message E s w = eaf_service_reset s w"
      using cur assms(3,4) calm_resume [OF assms(1-3) cur assms(5)] by (simp add: eaf_handle_new_message_def)
    then have reset: "eaf_service_reset s w = Some w'" using assms(6) by simp
    obtain v' where "srv w' s = Some v'" "s_state v' = s_state v" "s_cur_msg v' = None" "s_queue v' = s_queue v"
      using reset_good [OF assms(2,3) cur] assms(4) reset by (auto simp: good_def)
    then show ?thesis using reset_only [OF reset] cur assms(4) by (auto simp: srv_work_def)
  next
    case idle
    then have "w' = eaf_service_set_state s eaf_service_state_idle w" using assms(3,4,6) by (simp add: eaf_handle_new_message_def)
    then show ?thesis using idle assms(3,4)
      by (intro conjI exI [of _ "v\<lparr>s_state := eaf_service_state_idle\<rparr>"]) (simp_all add: only_def srv_work_def)
  next
    case pop
    let ?p = "upd_srv s (\<lambda>v. v\<lparr>s_queue := q, s_cur_msg := Some r\<rparr>) w"
    let ?u = "v\<lparr>s_queue := q, s_cur_msg := Some r\<rparr>"
    have ok: "srv_ok v" using srv_okD [OF assms(2,3)] .
    have p: "winv ?p" using pop ok assms(4) by (intro winv_upd_srv [OF assms(2,3)]) (auto simp: srv_ok_def srv_recs_def)
    have srv: "srv ?p s = Some ?u" using assms(3) by simp
    have cc: "cc0_clear (fst s) ?p" using assms(5) by (auto simp: cc0_clear_def upd_srv_def upd_srv_g_def)
    have "r \<in># wrecs ?p" by (rule in_wrecs [OF srv]) (simp add: srv_recs_def)
    then obtain m where m: "w_recs ?p r = Some m" using winvD(4) [OF p] by (auto simp: mem_inv_def elim: memok_live)
    obtain ret where ret: "hook_message_handle_before E r ?p = Some (ret, ?p)"
      using calm_hook [OF assms(1) winvD(1) [OF p], of on_message_handle_before "\<lambda>p. UHookMsg p (r_from m) (r_to m) (r_msg m)"] m
      by (auto simp: hook_message_handle_before_def)
    have "eaf_handle_new_message E s w = eaf_service_reset s ?p"
      using pop assms(3,4) ret calm_resume [OF assms(1) p srv _ cc, of r] by (simp add: eaf_handle_new_message_def Let_def)
    then have reset: "eaf_service_reset s ?p = Some w'" using assms(6) by simp
    obtain v' where "srv w' s = Some v'" "s_state v' = s_state ?u" "s_cur_msg v' = None" "s_queue v' = s_queue ?u"
      using reset_good [OF p srv, of r] assms(4) reset by (auto simp: good_def)
    moreover have "only s w ?p" by (simp add: only_def)
    ultimately show ?thesis using only_trans reset_only [OF reset] pop assms(4) by (auto simp: srv_work_def)
  qed
qed


lemma calm_handle:
  assumes "calm E" "winv w" "srv w s = Some v" "cc0_clear (fst s) w"
    "s_state v = eaf_service_state_busy \<or> s_state v = eaf_service_state_init1 \<and> s_queue v \<noteq> []"
    "eaf_handle_new_message E s w = Some w'"
  shows "only s w w' \<and> (\<exists>v'. srv w' s = Some v' \<and> srv_work v' < srv_work v)"
proof (cases "s_state v = eaf_service_state_busy")
  case True
  then show ?thesis using calm_busy assms by blast
next
  case False
  then have init: "s_state v = eaf_service_state_init1" "s_queue v \<noteq> []" using assms(5) by auto
  obtain w1 v1 where w1: "eaf_do_service_init E s w = Some w1" "only s w w1" "cc0_clear (fst s) w1" "winv w1"
    "srv w1 s = Some v1" "s_queue v1 = s_queue v" "s_cur_msg v1 = None" "s_state v1 = eaf_service_state_busy"
    using calm_init [OF assms(1-3) init(1)] init(2) by auto
  have "eaf_handle_new_message E s w1 = Some w'"
    using assms(3,6) init(1) w1(1,5,8) by (simp add: eaf_handle_new_message_def)
  then have "only s w1 w' \<and> (\<exists>v'. srv w' s = Some v' \<and> srv_work v' < srv_work v1)"
    using calm_busy [OF assms(1) w1(4,5,8,3)] by blast
  then show ?thesis using w1 init only_trans by (fastforce simp: srv_work_def)
qed

lemma group_work_decrease:
  assumes "grp w gi = Some g" "grp w' gi = Some g'" "length (g_services g') = length (g_services g)"
    "only (gi, si) w w'" "srv w (gi, si) = Some v" "srv w' (gi, si) = Some v'" "srv_work v' < srv_work v"
  shows "group_work g' < group_work g"
proof -
  have si: "si < length (g_services g)" "v = g_services g ! si" "v' = g_services g' ! si"
    using assms(1-3,5,6) by (auto simp: srv_def split: if_splits)
  have other: "g_services g' ! i = g_services g ! i" if "i < length (g_services g)" "i \<noteq> si" for i
  proof -
    have "srv w' (gi, i) = srv w (gi, i)" using assms(4) that(2) by (simp add: only_def)
    then show ?thesis using that(1) assms(1-3) by (simp add: srv_def)
  qed
  have eq: "g_services g' = (g_services g)[si := v']"
    using assms(3) si other by (intro nth_equalityI) (auto simp: nth_list_update)
  have "group_work g' + srv_work v = group_work g + srv_work v'"
    unfolding group_work_def eq si(2) by (rule sum_list_map_update [OF si(1)])
  then show ?thesis using assms(7) by simp
qed


text \<open>A turn with a busy service does some of the work.\<close>

lemma calm_turn:
  assumes "calm E" "winv w" "grp w gi = Some g" "loop_ok gi w" "g_busy g \<noteq> []"
  shows "\<exists>w' g'. eaf_service_thread_loop E gi w = Some (Some w') \<and> winv w' \<and> loop_ok gi w' \<and> frame ({gi} \<times> UNIV) w w' \<and>
    grp w' gi = Some g' \<and> group_work g' < group_work g"
proof -
  obtain si rest where busy: "g_busy g = si # rest" using assms(5) by (cases "g_busy g") auto
  obtain w' where w': "eaf_service_thread_loop E gi w = Some (Some w')" "winv w'" "frame ({gi} \<times> UNIV) w w'" "loop_ok gi w'"
    using thread_loop_good [OF assms(2-4)] assms(5) by (auto split: option.splits)
  obtain g' where g': "grp w' gi = Some g'" "length (g_services g') = length (g_services g)"
    using frame_grp [OF w'(3) assms(3)] by blast
  have si: "si < length (g_services g)" "\<not> in_wait_list (s_state (g_services g ! si))"
    using lists_okD [OF assms(2,3)] busy by (auto simp: lists_ok_def)
  define v where "v = g_services g ! si"
  have v: "srv w (gi, si) = Some v" using srv_of_grp [OF assms(3) si(1)] by (simp add: v_def)
  let ?w = "eaf_group_clear_cc0 gi (eaf_group_set_cur_run gi si (sem_trypend gi w))"
  have st: "s_state v = eaf_service_state_busy \<or> s_state v = eaf_service_state_init1 \<and> s_queue v \<noteq> []"
    using si(2) assms(4) v unfolding v_def [symmetric]
    by (cases "s_state v") (auto simp: in_wait_list_def loop_ok_def runnable_def)
  have w: "winv ?w" by (intro winv_sem winv_set_cur_run [where v = v]) (use assms(2) v in auto)
  have cc: "cc0_clear gi ?w" by (auto simp: cc0_clear_def eaf_group_clear_cc0_def)
  have "eaf_handle_new_message E (gi, si) ?w = Some w'"
    using w'(1) busy assms(3)
    by (auto simp: eaf_service_thread_loop_def eaf_get_first_busy_service_def Let_def split: Option.bind_splits)
  then obtain v' where "only (gi, si) ?w w'" "srv w' (gi, si) = Some v'" "srv_work v' < srv_work v"
    using calm_handle [OF assms(1) w, of "(gi, si)" v w'] v st cc by auto
  moreover have "only (gi, si) w w'" using calculation(1) by (simp add: only_def)
  ultimately have "group_work g' < group_work g"
    using group_work_decrease [OF assms(3) g'(1,2) _ v] by blast
  then show ?thesis using w' g' by blast
qed

lemma calm_turns:
  assumes "calm E" "winv w" "grp w gi = Some g" "loop_ok gi w"
  shows "\<exists>w' g' k. turns E gi k w = Some w' \<and> k \<le> group_work g \<and> winv w' \<and> grp w' gi = Some g' \<and> g_busy g' = []"
  using assms(2-4)
proof (induction "group_work g" arbitrary: w g rule: less_induct)
  case less
  show ?case
  proof (cases "g_busy g = []")
    case True
    then show ?thesis using less(2-4) by (intro exI [of _ w] exI [of _ g] exI [of _ 0]) simp
  next
    case False
    obtain w1 g1 where w1: "eaf_service_thread_loop E gi w = Some (Some w1)" "winv w1" "loop_ok gi w1"
      "grp w1 gi = Some g1" "group_work g1 < group_work g"
      using calm_turn [OF assms(1) less(2,3,4) False] by blast
    obtain w' g' k where "turns E gi k w1 = Some w'" "k \<le> group_work g1" "winv w'" "grp w' gi = Some g'" "g_busy g' = []"
      using less(1) [OF w1(5,2,4,3)] by blast
    then show ?thesis using w1 by (intro exI [of _ w'] exI [of _ g'] exI [of _ "Suc k"]) simp
  qed
qed

end

end
