(* ===== verification/ServiceProps.thy ===== *)
theory ServiceProps
  imports ServiceDrain
begin

text \<open>
  The properties of the runtime. The witnesses run \<open>sys_demo\<close>, or a small world with one group and
  two services.
\<close>

subsection \<open>The system\<close>

text \<open>A reachable state.\<close>

definition sys_reachable :: "env \<Rightarrow> sizes \<Rightarrow> group_table list \<Rightarrow> world \<Rightarrow> sys \<Rightarrow> bool" where
  "sys_reachable E Z info w0 s \<longleftrightarrow>
     (\<exists>w. eaf_init E Z info w0 = Some (eaf_errno_success, w) \<and> (sys_step E)\<^sup>*\<^sup>* (w, replicate (length info) T_start, False) s)"

lemma reachable_inv:
  assumes "user_code E" "finite (dom (w_mheap w0))" "sys_reachable E Z info w0 s"
  shows "sys_inv s"
  using assms user_code.sys_reach_inv init_sys_inv unfolding sys_reachable_def by blast

lemma demo_reachable:
  assumes "sys_demo cs = Some s"
  shows "sys_reachable sys_demo_env sys_demo_sizes sys_demo_info sys_demo_start s"
proof -
  obtain w where w: "eaf_init sys_demo_env sys_demo_sizes sys_demo_info sys_demo_start = Some (eaf_errno_success, w)"
    "sys_run sys_demo_env cs (w, [T_start], False) = Some s"
    using assms by (auto simp: sys_demo_def split: option.splits if_splits)
  then show ?thesis using sys_run_reach [OF w(2)] by (auto simp: sys_reachable_def sys_demo_info_def)
qed

lemma demo_user: "user_code sys_demo_env"
  unfolding sys_demo_env_def by (rule prog.user_code_axioms)

lemma demo_finite: "finite (dom (w_mheap sys_demo_start))"
  by (simp add: sys_demo_start_def)

definition demo_yielded :: "choice list" where
  "demo_yielded = [C_outside (UInit 1), C_thread 0, C_load, C_thread 0, C_loaded, C_thread 0]"



text \<open>C2: The invariant of the runtime. In a reachable state every service is on exactly the list of its
  group that its state asks for, idle and uninitialised services have nothing queued, a yielded service
  holds its message, no queue record occurs twice, and every record in a queue is allocated and points
  to a live message whose reference count is at least the number of records for it.\<close>

theorem service_invariant:
  assumes "user_code E" "finite (dom (w_mheap w0))" "sys_reachable E Z info w0 (w, ph, loading)"
  shows "(grp w gi = Some g \<longrightarrow> distinct (g_busy g) \<and> distinct (g_wait g) \<and>
      (\<forall>i < length (g_services g). (i \<in> set (g_wait g) \<longleftrightarrow> in_wait_list (s_state (g_services g ! i))) \<and>
         (i \<in> set (g_busy g) \<longleftrightarrow> \<not> in_wait_list (s_state (g_services g ! i))))) \<and>
    (srv w s = Some v \<longrightarrow>
      (s_state v \<in> {eaf_service_state_init0, eaf_service_state_init2, eaf_service_state_idle} \<longrightarrow> s_queue v = [] \<and> s_cur_msg v = None) \<and>
      (s_state v = eaf_service_state_yield \<longrightarrow> s_cur_msg v \<noteq> None)) \<and>
    (\<forall>r \<in># wrecs w. count (wrecs w) r = 1 \<and> (\<exists>m f. w_recs w r = Some m \<and> w_mheap w (r_msg m) = Some f \<and>
      count (image_mset (rmsg (w_recs w)) (wrecs w)) (r_msg m) \<le> unat (refcnt f)))"
proof -
  have w: "winv w" using reachable_inv [OF assms] by simp
  have lists: "grp w gi = Some g \<longrightarrow> distinct (g_busy g) \<and> distinct (g_wait g) \<and>
      (\<forall>i < length (g_services g). (i \<in> set (g_wait g) \<longleftrightarrow> in_wait_list (s_state (g_services g ! i))) \<and>
         (i \<in> set (g_busy g) \<longleftrightarrow> \<not> in_wait_list (s_state (g_services g ! i))))"
    using lists_okD [OF w] by (auto simp: lists_ok_def)
  have srvs: "srv w s = Some v \<longrightarrow>
      (s_state v \<in> {eaf_service_state_init0, eaf_service_state_init2, eaf_service_state_idle} \<longrightarrow> s_queue v = [] \<and> s_cur_msg v = None) \<and>
      (s_state v = eaf_service_state_yield \<longrightarrow> s_cur_msg v \<noteq> None)"
    using srv_okD [OF w] by (auto simp: srv_ok_def)
  have mem: "memok (wrecs w) (w_recs w) (w_mheap w)" using winvD(4) [OF w] by (simp add: mem_inv_def)
  have "count (wrecs w) r = 1 \<and> (\<exists>m f. w_recs w r = Some m \<and> w_mheap w (r_msg m) = Some f \<and>
      count (image_mset (rmsg (w_recs w)) (wrecs w)) (r_msg m) \<le> unat (refcnt f))" if r: "r \<in># wrecs w" for r
  proof -
    have "0 < count (wrecs w) r" "count (wrecs w) r \<le> 1" using r mem by (auto simp: memok_def)
    then have "count (wrecs w) r = 1" by linarith
    moreover obtain m f where m: "w_recs w r = Some m" "w_mheap w (r_msg m) = Some f" by (rule memok_live [OF mem r])
    moreover have "count (image_mset (rmsg (w_recs w)) (wrecs w)) (r_msg m) \<le> refs (w_mheap w) (r_msg m)"
      using mem by (simp add: memok_def)
    ultimately show ?thesis by (auto simp: refs_def)
  qed
  with lists srvs show ?thesis by blast
qed

theorem service_invariant_witness:
  "\<exists>w ph l v r m f. sys_demo demo_yielded = Some (w, ph, l) \<and> srv w (0, 1) = Some v \<and> s_state v = eaf_service_state_yield \<and>
     s_cur_msg v = Some r \<and> w_recs w r = Some m \<and> w_mheap w (r_msg m) = Some f"
proof -
  have "map_option (\<lambda>(w, ph, l). map_option (\<lambda>v. (s_state v, s_cur_msg v)) (srv w (0, 1))) (sys_demo demo_yielded) =
    Some (Some (eaf_service_state_yield, Some 0))" by code_simp
  then obtain w ph l v where s: "sys_demo demo_yielded = Some (w, ph, l)" "srv w (0, 1) = Some v"
    "s_state v = eaf_service_state_yield" "s_cur_msg v = Some 0" by auto
  have "0 \<in># wrecs w" using in_wrecs [OF s(2)] in_srv_recs(1) [OF s(4)] by blast
  then show ?thesis
    using service_invariant [OF demo_user demo_finite demo_reachable [OF s(1)], of 0 undefined "(0, 1)" v] s by blast
qed

text \<open>C4: No wake-up is lost. A group thread that blocks in \<open>eaf_compat_sem_pend\<close> has nothing to do: before the
  start the system has not been loaded or stopped; in the event loop the state is still \<open>busy\<close>, in the
  teardown loop still \<open>teardown\<close>, and no service of the group is busy, so every service that has a queued
  or current message is yielded or has exited. This holds although others may send, resume, exit or
  load between the moment the thread finds no busy service and the moment it waits.\<close>

theorem service_no_lost_wakeup:
  assumes "user_code E" "finite (dom (w_mheap w0))" "sys_reachable E Z info w0 (w, ph, loading)"
    "gi < length ph" "ph ! gi \<noteq> T_done" "eaf_thread E gi (ph ! gi) (w\<lparr>w_tls := Some gi\<rparr>) = Some None"
  shows "(ph ! gi, ctx_state_of w) \<in> {(T_wait_pend, Some eaf_ctx_state_init), (T_loop_pend, Some eaf_ctx_state_busy),
      (T_teardown_pend, Some eaf_ctx_state_teardown)} \<and>
    (\<forall>i v. ph ! gi \<noteq> T_wait_pend \<longrightarrow> srv w (gi, i) = Some v \<longrightarrow> s_queue v \<noteq> [] \<or> s_cur_msg v \<noteq> None \<longrightarrow>
       s_state v \<in> {eaf_service_state_yield, eaf_service_state_exit1})"
proof -
  have inv: "sys_inv (w, ph, loading)" by (rule reachable_inv [OF assms(1-3)])
  then have w: "winv w" "pend_ok gi (ph ! gi) w" using assms(4) by (auto simp: phase_ok_def)
  obtain g where g: "grp w gi = Some g" "blocked (ph ! gi) g"
    using user_code.sys_thread_ok [OF assms(1) inv assms(4)] assms(6) by (metis (no_types, lifting) option.inject option.simps(4))
  then have p: "ph ! gi \<in> pending" "g_sem g = 0" using assms(5) by (auto simp: blocked_def)
  obtain st where st: "ctx_state_of w = Some st" using winv_state [OF w(1)] by blast
  have awake: "\<not> must_wake (ph ! gi) st g" using w(2) g(1) st p(2) by (auto simp: pend_ok_def)
  have "s_state v \<in> {eaf_service_state_yield, eaf_service_state_exit1}"
    if "ph ! gi \<noteq> T_wait_pend" "srv w (gi, i) = Some v" "s_queue v \<noteq> [] \<or> s_cur_msg v \<noteq> None" for i v
  proof -
    have "g_busy g = []" using awake p(1) that(1) by (auto simp: must_wake_def pending_def)
    moreover have "i < length (g_services g)" "v = g_services g ! i" using that(2) g(1) by (auto simp: srv_def split: if_splits)
    ultimately have "in_wait_list (s_state v)" using lists_okD [OF w(1) g(1)] by (auto simp: lists_ok_def)
    then show ?thesis using srv_okD [OF w(1) that(2)] that(3) by (auto simp: in_wait_list_def srv_ok_def)
  qed
  moreover have "(ph ! gi, ctx_state_of w) \<in> {(T_wait_pend, Some eaf_ctx_state_init), (T_loop_pend, Some eaf_ctx_state_busy),
      (T_teardown_pend, Some eaf_ctx_state_teardown)}"
    using awake p(1) st by (auto simp: must_wake_def pending_def)
  ultimately show ?thesis by blast
qed

text \<open>The yielded system after the thread has used up the posts of its semaphore.\<close>

definition demo_asleep :: "choice list" where
  "demo_asleep = demo_yielded @ replicate 3 (C_thread 0)"

theorem service_no_lost_wakeup_witness:
  "\<exists>w ph l v. sys_demo demo_asleep = Some (w, ph, l) \<and> srv w (0, 1) = Some v \<and> ph ! 0 = T_loop_pend \<and>
     eaf_thread sys_demo_env 0 (ph ! 0) (w\<lparr>w_tls := Some 0\<rparr>) = Some None \<and> s_cur_msg v \<noteq> None \<and>
     s_state v \<in> {eaf_service_state_yield, eaf_service_state_exit1}"
proof -
  have "map_option (\<lambda>(w, ph, l). (ph, map_option (\<lambda>v. s_cur_msg v) (srv w (0, 1)),
      map_option (map_option fst) (eaf_thread sys_demo_env 0 (ph ! 0) (w\<lparr>w_tls := Some 0\<rparr>)))) (sys_demo demo_asleep) =
    Some ([T_loop_pend], Some (Some 0), Some None)" by code_simp
  then obtain w l v where s: "sys_demo demo_asleep = Some (w, [T_loop_pend], l)" "srv w (0, 1) = Some v" "s_cur_msg v = Some 0"
    "eaf_thread sys_demo_env 0 ([T_loop_pend] ! 0) (w\<lparr>w_tls := Some 0\<rparr>) = Some None" by auto
  show ?thesis
    using service_no_lost_wakeup [OF demo_user demo_finite demo_reachable [OF s(1)] _ _ s(4)] s by auto
qed


subsection \<open>Progress\<close>

interpretation base: user_code base_env
proof
  fix w :: world and n assume "finite (dom (w_mheap w))"
  then obtain a where "w_mheap w a = None" using ex_new_if_finite infinite_UNIV_nat by blast
  then obtain b where "fresh_from (w_mheap w) 0 = Some b" using fresh_from_ex [of "w_mheap w" 0 a] by auto
  then show "\<exists>a. malloc (e_menv base_env w) n = Some a \<and> w_mheap w a = None \<and> 0 \<le> lock_init (e_menv base_env w)"
    using fresh_from_None by (auto simp: heap_env_def)
qed (use fresh_from_None in auto)


definition demo_loaded :: "choice list" where
  "demo_loaded = [C_outside (UInit 1), C_thread 0, C_load, C_thread 0, C_loaded]"


subsection \<open>Sending\<close>

lemma enqueued_target:
  assumes "srv w s = Some v" "s_state v = st"
  shows "srv (enqueued s r rc H st w) s = Some (v\<lparr>s_state := wake st, s_queue := s_queue v @ [r]\<rparr>)"
  using assms by (simp add: enqueued_srv)

text \<open>The effect of a successful push on the receiver \<open>s\<close> and on nothing else.\<close>

definition delivered :: "nat \<times> nat \<Rightarrow> service \<Rightarrow> msgq_record \<Rightarrow> eaf_msg_full \<Rightarrow> world \<Rightarrow> world \<Rightarrow> bool" where
  "delivered s v rc f w w' \<longleftrightarrow> (\<exists>r. w_recs w r = None \<and> w_recs w' = (w_recs w)(r \<mapsto> rc) \<and>
     srv w' s = Some (v\<lparr>s_state := wake (s_state v), s_queue := s_queue v @ [r]\<rparr>) \<and>
     (\<forall>t. t \<noteq> s \<longrightarrow> srv w' t = srv w t) \<and>
     w_mheap w' (r_msg rc) = Some (f\<lparr>refcnt := refcnt f + 1\<rparr>) \<and> (\<forall>a. a \<noteq> r_msg rc \<longrightarrow> w_mheap w' a = w_mheap w a) \<and>
     map_option g_sem (grp w' (fst s)) = map_option (\<lambda>g. g_sem g + 1) (grp w (fst s)))"

lemma push_delivered:
  assumes "srv w s = Some v" "w_mheap w m = Some f" "refcnt f \<noteq> 0" "\<And>r. e_alloc E w = Some r \<Longrightarrow> w_recs w r = None"
    "r_msg (queue_record from to s m on_create) = m"
  shows "\<exists>ret w'. eaf_service_push_msg E s m from to on_create flag w = Some (ret, w') \<and> quiet E w' = quiet E w \<and>
    (w_ctx w' = None \<longleftrightarrow> w_ctx w = None) \<and>
    (if flag \<noteq> PUSH_FLAG_FORCE \<and> s_capacity v \<le> of_nat (length (s_queue v)) then ret = eaf_errno_overflow \<and> w' = w
     else if e_alloc E w = None then ret = eaf_errno_memory \<and> w' = w
     else if s_state v = eaf_service_state_exit0 then ret = eaf_errno_state \<and> w' = w
     else ret = eaf_errno_success \<and> delivered s v (queue_record from to s m on_create) f w w')"
proof -
  have "delivered s v (queue_record from to s m on_create) f w
      (enqueued s r (queue_record from to s m on_create) ((w_mheap w)(m \<mapsto> f\<lparr>refcnt := refcnt f + 1\<rparr>)) (s_state v) w)"
    if "e_alloc E w = Some r" for r
    unfolding delivered_def using assms(4) [OF that] assms(1,5) sem_enqueued
    by (intro exI [of _ r]) (simp add: enqueued_target, simp add: enqueued_srv)
  then show ?thesis
    by (subst push_result [OF assms(1-4)]; cases "s_state v = eaf_service_state_exit0") (auto split: option.split)
qed

text \<open>C3: Sending a request. A request to a registered service is refused with \<open>notfound\<close> when the service
  has no handler for it, \<open>overflow\<close> when its queue is full, \<open>memory\<close> when no record can be allocated and
  \<open>state\<close> when it is exiting, and then nothing is queued; otherwise it is appended to the queue of the
  service, which then holds no more than its capacity, wakes an idle or lazily loaded service, takes a
  reference and posts the semaphore of the group. No other service changes.\<close>

theorem send_request_outcome:
  assumes "ctx_state_of w = Some eaf_ctx_state_busy" "quiet E w" "w_mheap w m = Some f" "refcnt f \<noteq> 0"
    "\<And>w r. e_alloc E w = Some r \<Longrightarrow> w_recs w r = None"
    "eaf_service_find_service to w = Some (Some s)" "srv w s = Some v" "s_entry v = Some e" "length (s_queue v) < 2 ^ 64"
  defines "h \<equiv> find_handler (msg_id (msg f)) (msg_table e)"
  shows "\<exists>ret w'. eaf_send_req E from to m w = Some (ret, w') \<and>
    (if h = 0 then ret = eaf_errno_notfound \<and> w' = stamped from m w
     else if unat (s_capacity v) \<le> length (s_queue v) then ret = eaf_errno_overflow \<and> w' = stamped from m w
     else if e_alloc E (stamped from m w) = None then ret = eaf_errno_memory \<and> w' = stamped from m w
     else if s_state v = eaf_service_state_exit0 then ret = eaf_errno_state \<and> w' = stamped from m w
     else ret = eaf_errno_success \<and>
       delivered s v \<lparr>req_fn = h, r_from = from, r_to = to, r_service = s, r_msg = m\<rparr> (f\<lparr>msg := (msg f)\<lparr>msg_from := from\<rparr>\<rparr>) (stamped from m w) w' \<and>
       (\<forall>v'. srv w' s = Some v' \<longrightarrow> length (s_queue v') \<le> unat (s_capacity v)))"
proof -
  let ?w0 = "stamped from m w"
  have ctx: "w_ctx w \<noteq> None" using assms(1) by (auto simp: ctx_state_of_def)
  have before: "hook_message_send_before E from to m w = Some (0, w)"
    using quiet_hook [OF assms(2) ctx] by (simp add: hook_message_send_before_def)
  have after: "hook_message_send_after E from to m ret w' = Some w'" if "quiet E w'" "w_ctx w' \<noteq> None" for ret w'
    using quiet_hook [OF that] by (simp add: hook_message_send_after_def)
  have send: "eaf_send_req E from to m w = eaf_send_req_impl E from to m w \<bind> (\<lambda>(ret, w). hook_message_send_after E from to m ret w \<bind> (\<lambda>w. Some (ret, w)))"
    using assms(1) before by (simp add: eaf_send_req_def)
  have q0: "quiet E ?w0" "w_ctx ?w0 \<noteq> None" using assms(2) ctx by simp_all
  show ?thesis
  proof (cases "h = 0")
    case True
    then have "eaf_send_req_impl E from to m w = Some (eaf_errno_notfound, ?w0)"
      using send_req_impl_eq [OF assms(3,6), of E "from"] assms(7,8) by (simp add: h_def)
    then show ?thesis using True send after [OF q0] by simp
  next
    case False
    let ?rc = "\<lparr>req_fn = h, r_from = from, r_to = to, r_service = s, r_msg = m\<rparr>"
    let ?push = "eaf_service_push_msg E s m from to (Some (\<lambda>r. r\<lparr>req_fn := h\<rparr>)) 0 ?w0"
    have impl: "eaf_send_req_impl E from to m w = ?push"
      using False send_req_impl_eq [OF assms(3,6), of E "from"] assms(7,8) by (simp add: h_def Let_def)
    have cap: "s_capacity v \<le> of_nat (length (s_queue v)) \<longleftrightarrow> unat (s_capacity v) \<le> length (s_queue v)"
      using assms(9) by (simp add: word_le_nat_alt unat_of_nat)
    have srv0: "srv ?w0 s = Some v" using assms(7) by simp
    have live: "w_mheap ?w0 m = Some (f\<lparr>msg := (msg f)\<lparr>msg_from := from\<rparr>\<rparr>)" by (rule live_after_stamp [OF assms(3)])
    have fresh: "\<And>r. e_alloc E ?w0 = Some r \<Longrightarrow> w_recs ?w0 r = None" by (rule assms(5))
    have "\<exists>ret w'. ?push = Some (ret, w') \<and> quiet E w' = quiet E ?w0 \<and> (w_ctx w' = None \<longleftrightarrow> w_ctx ?w0 = None) \<and>
      (if unat (s_capacity v) \<le> length (s_queue v) then ret = eaf_errno_overflow \<and> w' = ?w0
       else if e_alloc E ?w0 = None then ret = eaf_errno_memory \<and> w' = ?w0
       else if s_state v = eaf_service_state_exit0 then ret = eaf_errno_state \<and> w' = ?w0
       else ret = eaf_errno_success \<and> delivered s v ?rc (f\<lparr>msg := (msg f)\<lparr>msg_from := from\<rparr>\<rparr>) ?w0 w')"
      using push_delivered [where E = E and flag = 0 and on_create = "Some (\<lambda>r. r\<lparr>req_fn := h\<rparr>)" and w = ?w0 and s = s and v = v
          and m = m and f = "f\<lparr>msg := (msg f)\<lparr>msg_from := from\<rparr>\<rparr>", OF srv0 live _ fresh] assms(4)
      unfolding req_record cap by (simp add: PUSH_FLAG_FORCE_def)
    then obtain ret w' where push: "?push = Some (ret, w')" "quiet E w' = quiet E ?w0" "w_ctx w' = None \<longleftrightarrow> w_ctx ?w0 = None"
      "if unat (s_capacity v) \<le> length (s_queue v) then ret = eaf_errno_overflow \<and> w' = ?w0
       else if e_alloc E ?w0 = None then ret = eaf_errno_memory \<and> w' = ?w0
       else if s_state v = eaf_service_state_exit0 then ret = eaf_errno_state \<and> w' = ?w0
       else ret = eaf_errno_success \<and> delivered s v ?rc (f\<lparr>msg := (msg f)\<lparr>msg_from := from\<rparr>\<rparr>) ?w0 w'"
      by (elim exE conjE) (rule that)
    have "eaf_send_req E from to m w = Some (ret, w')"
      using send impl push(1) after [of w'] push(2,3) q0 by simp
    moreover have "length (s_queue v') \<le> unat (s_capacity v)"
      if "srv w' s = Some v'" "delivered s v ?rc (f\<lparr>msg := (msg f)\<lparr>msg_from := from\<rparr>\<rparr>) ?w0 w'" "\<not> unat (s_capacity v) \<le> length (s_queue v)" for v'
      using that by (auto simp: delivered_def)
    ultimately show ?thesis using push(4) False by (auto split: if_splits)
  qed
qed


lemma demo_quiet: "quiet sys_demo_env w"
  unfolding quiet_def sys_demo_env_def prog_env_def by (rule disjI1) (auto simp: prog_ucode_def elim: is_hook.elims)

lemma demo_alloc: "e_alloc sys_demo_env w = Some r \<Longrightarrow> w_recs w r = None"
  using fresh_from_None [of "w_recs w" 0 r] by (simp add: sys_demo_env_def prog_env_def)

text \<open>A request that is live in the message heap of the loaded system.\<close>

definition with_request :: "world \<Rightarrow> world" where
  "with_request w = w\<lparr>w_mheap := (w_mheap w)(9 \<mapsto> \<lparr>msg = \<lparr>msg_id = 7, msg_from = 0, encs = EAF_MSG_ENCS_REQ, uuid = 9, orig = 6\<rparr>,
     refcnt = 1, data_size = 0\<rparr>)\<rparr>"

theorem send_request_outcome_witness:
  "\<exists>w ph l w'. sys_demo demo_yielded = Some (w, ph, l) \<and> eaf_send_req sys_demo_env 1 2 9 (with_request w) = Some (eaf_errno_success, w')"
proof -
  have "map_option (\<lambda>(w, ph, l). (ctx_state_of (with_request w), eaf_service_find_service 2 (with_request w),
      map_option (\<lambda>v. (s_entry v, s_queue v, s_capacity v, s_state v)) (srv (with_request w) (0, 1)),
      e_alloc sys_demo_env (stamped 1 9 (with_request w)))) (sys_demo demo_yielded) =
    Some (Some eaf_ctx_state_busy, Some (Some (0, 1)),
      Some (Some \<lparr>msg_table = [(7, 4)], ep_on_init = 5, ep_on_exit = 3\<rparr>, [], 1, eaf_service_state_yield), Some 1)" by code_simp
  then obtain w ph l v where s: "sys_demo demo_yielded = Some (w, ph, l)" "ctx_state_of (with_request w) = Some eaf_ctx_state_busy"
    "eaf_service_find_service 2 (with_request w) = Some (Some (0, 1))" "srv (with_request w) (0, 1) = Some v"
    "s_entry v = Some \<lparr>msg_table = [(7, 4)], ep_on_init = 5, ep_on_exit = 3\<rparr>" "s_queue v = []" "s_capacity v = 1"
    "s_state v = eaf_service_state_yield" "e_alloc sys_demo_env (stamped 1 9 (with_request w)) = Some 1" by auto
  have live: "w_mheap (with_request w) 9 = Some \<lparr>msg = \<lparr>msg_id = 7, msg_from = 0, encs = EAF_MSG_ENCS_REQ, uuid = 9, orig = 6\<rparr>,
     refcnt = 1, data_size = 0\<rparr>" by (simp add: with_request_def)
  show ?thesis
    using send_request_outcome [OF s(2) demo_quiet live _ demo_alloc s(3-5), of 1] s by auto
qed

text \<open>Sending a response. A response is delivered whatever the capacity of the receiver's queue; it is
  refused only when the receiver is unknown, is exiting, or no record can be allocated.\<close>

theorem send_response_outcome:
  assumes "ctx_state_of w = Some eaf_ctx_state_busy" "quiet E w" "w_mheap w m = Some f" "refcnt f \<noteq> 0"
    "\<And>w r. e_alloc E w = Some r \<Longrightarrow> w_recs w r = None"
  shows "\<exists>ret w'. eaf_send_rsp E from to m w = Some (ret, w') \<and>
    (case eaf_service_find_service to w of
       Some (Some s) \<Rightarrow> (\<exists>v. srv w s = Some v \<and>
         (if e_alloc E w = None then ret = eaf_errno_memory \<and> w' = w
          else if s_state v = eaf_service_state_exit0 then ret = eaf_errno_state \<and> w' = w
          else ret = eaf_errno_success \<and>
            delivered s v \<lparr>req_fn = 0, r_from = from, r_to = to, r_service = s, r_msg = m\<rparr> f w w'))
     | _ \<Rightarrow> ret = eaf_errno_notfound \<and> w' = w)"
proof -
  have ctx: "w_ctx w \<noteq> None" using assms(1) by (auto simp: ctx_state_of_def)
  have before: "hook_message_send_before E from to m w = Some (0, w)"
    using quiet_hook [OF assms(2) ctx] by (simp add: hook_message_send_before_def)
  have after: "hook_message_send_after E from to m ret w' = Some w'" if "quiet E w'" "w_ctx w' \<noteq> None" for ret w'
    using quiet_hook [OF that] by (simp add: hook_message_send_after_def)
  have send: "eaf_send_rsp E from to m w = eaf_send_rsp_impl E from to m w \<bind> (\<lambda>(ret, w). hook_message_send_after E from to m ret w \<bind> (\<lambda>w. Some (ret, w)))"
    using assms(1) before by (simp add: eaf_send_rsp_def)
  obtain found where found: "eaf_service_find_service to w = Some found" using find_service_total [OF ctx] by blast
  show ?thesis
  proof (cases found)
    case None
    then show ?thesis using found send after [OF assms(2) ctx] by (simp add: eaf_send_rsp_impl_def)
  next
    case (Some s)
    then obtain v where v: "srv w s = Some v" using find_service_Some [of to w s] found by metis
    obtain ret w' where push: "eaf_service_push_msg E s m from to None PUSH_FLAG_FORCE w = Some (ret, w')"
      "quiet E w' = quiet E w" "w_ctx w' = None \<longleftrightarrow> w_ctx w = None"
      "if e_alloc E w = None then ret = eaf_errno_memory \<and> w' = w
       else if s_state v = eaf_service_state_exit0 then ret = eaf_errno_state \<and> w' = w
       else ret = eaf_errno_success \<and> delivered s v \<lparr>req_fn = 0, r_from = from, r_to = to, r_service = s, r_msg = m\<rparr> f w w'"
      using push_delivered [OF v assms(3,4), of E "from" to None PUSH_FLAG_FORCE] assms(5) unfolding req_record by auto
    then have "eaf_send_rsp E from to m w = Some (ret, w')"
      using send Some found after [of w'] assms(2) ctx by (simp add: eaf_send_rsp_impl_def)
    then show ?thesis using push(4) Some found v by auto
  qed
qed

theorem send_response_outcome_witness:
  "\<exists>w ph l w'. sys_demo demo_yielded = Some (w, ph, l) \<and> eaf_send_rsp sys_demo_env 1 2 9 (with_request w) = Some (eaf_errno_success, w')"
proof -
  have "map_option (\<lambda>(w, ph, l). (ctx_state_of (with_request w), eaf_service_find_service 2 (with_request w),
      map_option s_state (srv (with_request w) (0, 1)), e_alloc sys_demo_env (with_request w))) (sys_demo demo_yielded) =
    Some (Some eaf_ctx_state_busy, Some (Some (0, 1)), Some eaf_service_state_yield, Some 1)" by code_simp
  then obtain w ph l v where s: "sys_demo demo_yielded = Some (w, ph, l)" "ctx_state_of (with_request w) = Some eaf_ctx_state_busy"
    "eaf_service_find_service 2 (with_request w) = Some (Some (0, 1))" "srv (with_request w) (0, 1) = Some v"
    "s_state v = eaf_service_state_yield" "e_alloc sys_demo_env (with_request w) = Some 1" by auto
  have live: "w_mheap (with_request w) 9 = Some \<lparr>msg = \<lparr>msg_id = 7, msg_from = 0, encs = EAF_MSG_ENCS_REQ, uuid = 9, orig = 6\<rparr>,
     refcnt = 1, data_size = 0\<rparr>" by (simp add: with_request_def)
  show ?thesis using send_response_outcome [OF s(2) demo_quiet live _ demo_alloc, of 1 2] s by auto
qed

end
