(* ===== verification/ServiceCalls.thy ===== *)
theory ServiceCalls
  imports ServiceProps
begin

text \<open>
  Properties of the other calls: resuming and coroutines, exit and teardown, registration, the memory
  layout of \<open>eaf_init\<close>, cleanup, and the closure of user programs under the invariant.
\<close>

subsection \<open>User programs\<close>

text \<open>Every program made of runtime calls keeps the runtime's invariant. Whatever handlers,
  initialisation and exit functions do with \<open>eaf_send_req\<close>, \<open>eaf_send_rsp\<close>, \<open>eaf_resume\<close>, \<open>eaf_exit\<close>,
  \<open>eaf_teardown\<close>, \<open>eaf_register\<close>, \<open>eaf_inject\<close>, \<open>eaf_uninject\<close> and yields, they return, and they leave
  other services as they were, except that messages are queued and services are woken.\<close>

theorem user_programs:
  assumes "winv w"
  shows "\<exists>r w'. prog_ucode P u w = Some (r, w') \<and> winv w' \<and> frame {} w w'"
  using prog_user [OF assms, of P u 0] by blast

theorem user_programs_witness:
  "\<exists>w ph l. sys_demo demo_yielded = Some (w, ph, l) \<and> winv w \<and>
     (\<exists>r w'. prog_ucode sys_demo_prog (UInit 8) w = Some (r, w') \<and> winv w' \<and> frame {} w w')"
proof -
  have "map_option (\<lambda>(w, ph, l). ph) (sys_demo demo_yielded) = Some [T_loop]" by code_simp
  then obtain w l where s: "sys_demo demo_yielded = Some (w, [T_loop], l)" by auto
  have "winv w" using reachable_inv [OF demo_user demo_finite demo_reachable [OF s]] by simp
  then show ?thesis using user_programs [of w sys_demo_prog "UInit 8"] s by blast
qed

subsection \<open>Resume\<close>

text \<open>\<open>eaf_resume\<close> wakes exactly a yielded service: it becomes busy with its message kept, and its group
  is posted. For any other state it returns \<open>eaf_errno_state\<close> and changes nothing, and for an unknown
  service \<open>eaf_errno_notfound\<close>.\<close>

theorem resume_outcome:
  assumes "quiet E w" "w_ctx w \<noteq> None"
  shows "\<exists>ret w'. eaf_resume E i w = Some (ret, w') \<and>
    (case eaf_service_find_service i w of
       Some (Some s) \<Rightarrow> (\<exists>v. srv w s = Some v \<and> s_id v = i \<and>
         (if s_state v = eaf_service_state_yield
          then ret = eaf_errno_success \<and> srv w' s = Some (v\<lparr>s_state := eaf_service_state_busy\<rparr>) \<and>
            (\<forall>t. t \<noteq> s \<longrightarrow> srv w' t = srv w t) \<and>
            map_option g_sem (grp w' (fst s)) = map_option (\<lambda>g. g_sem g + 1) (grp w (fst s))
          else ret = eaf_errno_state \<and> w' = w))
     | _ \<Rightarrow> ret = eaf_errno_notfound \<and> w' = w)"
proof -
  have hook: "hook_service_resume E i w = Some w"
    using quiet_hook [OF assms] by (simp add: hook_service_resume_def hook_service_def)
  obtain found where found: "eaf_service_find_service i w = Some found" using find_service_total [OF assms(2)] by blast
  show ?thesis
  proof (cases found)
    case (Some s)
    then obtain v where v: "srv w s = Some v" "s_id v = i" using find_service_Some [of i w s] found by metis
    have "map_option g_sem (grp (sem_post (fst s) (eaf_service_set_state s eaf_service_state_busy w)) (fst s)) =
      map_option (\<lambda>g. g_sem g + 1) (grp w (fst s))"
      by (cases "grp w (fst s)") (auto simp: sem_post_def eaf_service_set_state_def set_state_g_def upd_srv_g_def Let_def)
    then show ?thesis using found Some v hook by (auto simp: eaf_resume_def)
  qed (use found in \<open>simp add: eaf_resume_def\<close>)
qed

theorem resume_outcome_witness:
  "\<exists>w ph l w'. sys_demo demo_yielded = Some (w, ph, l) \<and> eaf_resume sys_demo_env 2 w = Some (eaf_errno_success, w')"
proof -
  have "map_option (\<lambda>(w, ph, l). (w_ctx w = None, eaf_service_find_service 2 w, map_option s_state (srv w (0, 1)))) (sys_demo demo_yielded) =
    Some (False, Some (Some (0, 1)), Some eaf_service_state_yield)" by code_simp
  then obtain w ph l v where s: "sys_demo demo_yielded = Some (w, ph, l)" "w_ctx w \<noteq> None" "eaf_service_find_service 2 w = Some (Some (0, 1))"
    "srv w (0, 1) = Some v" "s_state v = eaf_service_state_yield" by auto
  show ?thesis using resume_outcome [OF demo_quiet s(2), of 2] s by auto
qed

subsection \<open>Coroutines\<close>

lemma run_until_yield:
  assumes "\<forall>a \<in> set as. \<not> is_yield a"
  shows "run_actions E m (as @ A_yield n fn arg # bs) w = run_actions E m as w \<bind> EAF_COROUTINE_YIELD fn arg n"
  using assms
proof (induction as arbitrary: w)
  case (Cons a as)
  then show ?case by (cases "run_action E m a w") auto
qed (auto simp: run_action_def)

lemma after_yield_append:
  assumes "\<forall>a \<in> set as. \<not> is_yield a"
  shows "after_yield n (as @ A_yield n fn arg # bs) = bs"
  using assms by (induction n as rule: after_yield.induct) auto



subsection \<open>Exit and teardown\<close>

text \<open>The shutdown state machine. \<open>eaf_exit\<close> records the reason, moves any state but \<open>exit\<close> to \<open>exit\<close> and
  posts every group; \<open>eaf_teardown\<close> moves any state but \<open>teardown\<close> to \<open>teardown\<close> and keeps the summary. Both
  are refused without a context or when the state is already reached. No service changes.\<close>

theorem shutdown_calls:
  assumes "quiet E w"
  shows "eaf_exit E rs w = Some (case w_ctx w of
      None \<Rightarrow> (eaf_errno_state, w)
    | Some c \<Rightarrow> if c_state c = eaf_ctx_state_exit then (eaf_errno_state, w)
        else (eaf_errno_success, w\<lparr>w_ctx := Some (c\<lparr>c_summary := \<lparr>executor = eaf_exit_executor_user, reason = rs\<rparr>,
               c_state := eaf_ctx_state_exit, c_groups := map (\<lambda>g. g\<lparr>g_sem := g_sem g + 1\<rparr>) (c_groups c)\<rparr>)\<rparr>)) \<and>
    eaf_teardown E w = Some (case w_ctx w of
      None \<Rightarrow> (eaf_errno_state, w)
    | Some c \<Rightarrow> if c_state c = eaf_ctx_state_teardown then (eaf_errno_state, w)
        else (eaf_errno_success, w\<lparr>w_ctx := Some (c\<lparr>c_state := eaf_ctx_state_teardown,
               c_groups := map (\<lambda>g. g\<lparr>g_sem := g_sem g + 1\<rparr>) (c_groups c)\<rparr>)\<rparr>))"
proof -
  have hook: "hook_cleanup_before E w = Some w" if "w_ctx w \<noteq> None"
    using quiet_hook [OF assms that, of UHook on_exit_before] by (simp add: hook_cleanup_before_def)
  have "eaf_exit E rs w = Some (case w_ctx w of
      None \<Rightarrow> (eaf_errno_state, w)
    | Some c \<Rightarrow> if c_state c = eaf_ctx_state_exit then (eaf_errno_state, w)
        else (eaf_errno_success, w\<lparr>w_ctx := Some (c\<lparr>c_summary := \<lparr>executor = eaf_exit_executor_user, reason = rs\<rparr>,
               c_state := eaf_ctx_state_exit, c_groups := map (\<lambda>g. g\<lparr>g_sem := g_sem g + 1\<rparr>) (c_groups c)\<rparr>)\<rparr>))"
    using hook by (cases "w_ctx w") (auto simp: eaf_exit_def eaf_exit_impl_def ctx_state_of_def upd_ctx_def post_all_def Let_def)
  moreover have "eaf_teardown E w = Some (case w_ctx w of
      None \<Rightarrow> (eaf_errno_state, w)
    | Some c \<Rightarrow> if c_state c = eaf_ctx_state_teardown then (eaf_errno_state, w)
        else (eaf_errno_success, w\<lparr>w_ctx := Some (c\<lparr>c_state := eaf_ctx_state_teardown,
               c_groups := map (\<lambda>g. g\<lparr>g_sem := g_sem g + 1\<rparr>) (c_groups c)\<rparr>)\<rparr>))"
    using hook by (cases "w_ctx w") (auto simp: eaf_teardown_def eaf_exit_impl_def ctx_state_of_def upd_ctx_def post_all_def Let_def)
  ultimately show ?thesis by blast
qed

definition demo_ctx_world :: "ctx_state \<Rightarrow> world" where
  "demo_ctx_world st = sys_demo_start\<lparr>w_ctx := Some ((zero_ctx 0)\<lparr>c_state := st\<rparr>)\<rparr>"

theorem shutdown_calls_witness:
  "eaf_exit base_env 7 (demo_ctx_world eaf_ctx_state_busy) =
     Some (eaf_errno_success, (demo_ctx_world eaf_ctx_state_exit)\<lparr>w_ctx := Some ((zero_ctx 0)\<lparr>c_state := eaf_ctx_state_exit,
       c_summary := \<lparr>executor = eaf_exit_executor_user, reason = 7\<rparr>\<rparr>)\<rparr>)"
  using shutdown_calls [OF quiet_base, of 7 "demo_ctx_world eaf_ctx_state_busy"]
  by (simp add: demo_ctx_world_def zero_ctx_def sys_demo_start_def)

text \<open>A teardown requested after an exit takes the exit back.\<close>

lemma teardown_after_exit:
  "\<exists>w. eaf_exit base_env 0 (demo_ctx_world eaf_ctx_state_busy) \<bind> (\<lambda>(_, w). eaf_teardown base_env w) = Some (eaf_errno_success, w) \<and>
     ctx_state_of w = Some eaf_ctx_state_teardown"
  by (simp add: eaf_exit_def eaf_teardown_def eaf_exit_impl_def hook_cleanup_before_def hook_call_def hook_fn_def Let_def upd_ctx_def
    post_all_def demo_ctx_world_def zero_ctx_def sys_demo_start_def ctx_state_of_def)

text \<open>C7: Teardown answers nobody. Handling a pending message of a service that is torn down or exiting only
  destroys its record: the default response with \<open>eaf_errno_state\<close> is created, refused by \<open>eaf_send_rsp\<close>
  because the state no longer is busy, and released; no queue changes.\<close>

theorem teardown_default_response:
  assumes "ctx_state_of w \<noteq> Some eaf_ctx_state_busy" "w_recs w r = Some m" "w_mheap w (r_msg m) = Some f"
    "srv w s = Some v" "malloc (e_menv E w) (sizeof_msg_full (e_menv E w)) = Some a" "w_mheap w a = None"
    "0 \<le> lock_init (e_menv E w)"
  shows "eaf_service_teardown_handle_message E s r w = eaf_service_destroy_msg_record r w"
  by (rule teardown_handle_eq [OF assms])

theorem teardown_default_response_witness:
  "\<exists>w ph l. sys_demo (demo_yielded @ [C_outside (UInit 10)]) = Some (w, ph, l) \<and>
     eaf_service_teardown_handle_message sys_demo_env (0, 1) 0 w = eaf_service_destroy_msg_record 0 w"
proof -
  have "map_option (\<lambda>(w, ph, l). (ctx_state_of w, map_option r_msg (w_recs w 0), w_mheap w 0 = None, srv w (0, 1) = None,
      malloc (e_menv sys_demo_env w) 128, w_mheap w 1 = None)) (sys_demo (demo_yielded @ [C_outside (UInit 10)])) =
    Some (Some eaf_ctx_state_teardown, Some 0, False, False, Some 1, True)" by code_simp
  then obtain w ph l m where s: "sys_demo (demo_yielded @ [C_outside (UInit 10)]) = Some (w, ph, l)"
    "ctx_state_of w = Some eaf_ctx_state_teardown" "w_recs w 0 = Some m" "r_msg m = 0" "w_mheap w 0 \<noteq> None" "srv w (0, 1) \<noteq> None"
    "malloc (e_menv sys_demo_env w) 128 = Some 1" "w_mheap w 1 = None" by auto
  obtain f v where "w_mheap w (r_msg m) = Some f" "srv w (0, 1) = Some v" using s(4-6) by auto
  moreover have "sizeof_msg_full (e_menv sys_demo_env w) = 128" "0 \<le> lock_init (e_menv sys_demo_env w)"
    by (simp_all add: sys_demo_env_def prog_env_def heap_env_def)
  ultimately show ?thesis using teardown_default_response [of w 0 m f "(0, 1)" v sys_demo_env 1] s by auto
qed


subsection \<open>Registration\<close>

lemma find_in_groups_unique:
  assumes "gi < length gs" "j < length (g_services (gs ! gi))" "s_id (g_services (gs ! gi) ! j) = i"
    "\<And>gi' j'. gi' < length gs \<Longrightarrow> j' < length (g_services (gs ! gi')) \<Longrightarrow> s_id (g_services (gs ! gi') ! j') = i \<Longrightarrow> (gi', j') = (gi, j)"
  shows "find_in_groups i gs 0 = Some (gi, j)"
proof (cases "find_in_groups i gs 0")
  case None
  then have "\<forall>g \<in> set gs. \<forall>s \<in> set (g_services g). s_id s \<noteq> i" by (simp add: find_in_groups_None)
  moreover have "gs ! gi \<in> set gs" "g_services (gs ! gi) ! j \<in> set (g_services (gs ! gi))" using assms(1,2) by simp_all
  ultimately show ?thesis using assms(3) by blast
next
  case (Some s)
  obtain gi' j' where s: "s = (gi', j')" by (cases s)
  then have "gi' < length gs" "find_in_services i (g_services (gs ! gi')) 0 = Some j'"
    using find_in_groups_Some [of i gs 0 gi' j'] Some by auto
  then show ?thesis using assms(4) find_in_services_Some [of i "g_services (gs ! gi')" 0 j'] Some s by auto
qed

text \<open>C9: Registration. A successful \<open>eaf_register\<close> sets the entry of a service that had none and changes no
  other service; if the identifier is used once in the configuration, messages to it find the service
  from then on.\<close>

theorem register_then_find:
  assumes "quiet E w" "eaf_register E i e w = Some (eaf_errno_success, w')"
  shows "\<exists>s v. srv w s = Some v \<and> s_id v = i \<and> s_entry v = None \<and> srv w' s = Some (v\<lparr>s_entry := Some e\<rparr>) \<and>
    (\<forall>t. t \<noteq> s \<longrightarrow> srv w' t = srv w t) \<and>
    ((\<forall>t u. srv w t = Some u \<longrightarrow> s_id u = i \<longrightarrow> t = s) \<longrightarrow> eaf_service_find_service i w' = Some (Some s))"
proof -
  have init: "ctx_state_of w = Some eaf_ctx_state_init"
    using assms(2) by (auto simp: eaf_register_def eaf_errno_success_def eaf_errno_state_def split: if_splits)
  then obtain c where c: "w_ctx w = Some c" by (auto simp: ctx_state_of_def)
  have hook: "hook_service_register E i w = Some (0, w)"
    using quiet_hook [OF assms(1), of "\<lambda>p. UHookId p i"] c by (simp add: hook_service_register_def)
  have codes: "eaf_errno_success = 0" "eaf_errno_state \<noteq> 0" "eaf_errno_invalid \<noteq> 0" "eaf_errno_notfound \<noteq> 0" "eaf_errno_duplicate \<noteq> 0"
    by (simp_all add: eaf_errno_success_def eaf_errno_state_def eaf_errno_invalid_def eaf_errno_notfound_def eaf_errno_duplicate_def)
  obtain s where s: "last_in_groups i (c_groups c) 0 None = Some s"
    using assms(2) init c codes by (auto simp: eaf_register_def split: if_splits option.splits)
  obtain v where v: "srv w s = Some v" "s_entry v = None" "w' = upd_srv s (\<lambda>v. v\<lparr>s_entry := Some e\<rparr>) w"
    using assms(2) init c codes s hook by (auto simp: eaf_register_def split: if_splits option.splits Option.bind_splits)
  have pos: "fst s < length (c_groups c)" "find_in_services i (g_services (c_groups c ! fst s)) 0 = Some (snd s)"
    using last_in_groups_Some [of i "c_groups c" 0 None "fst s" "snd s"] s by auto
  then have id: "snd s < length (g_services (c_groups c ! fst s))" "s_id (g_services (c_groups c ! fst s) ! snd s) = i"
    using find_in_services_Some by fastforce+
  then have vid: "s_id v = i" using v(1) c pos(1) by (simp add: srv_def grp_def)
  have srv': "srv w' t = (if t = s then Some (v\<lparr>s_entry := Some e\<rparr>) else srv w t)" for t using v by simp
  have find: "eaf_service_find_service i w' = Some (Some s)"
    if uniq: "\<forall>t u. srv w t = Some u \<longrightarrow> s_id u = i \<longrightarrow> t = s"
  proof -
    obtain c' where c': "w_ctx w' = Some c'" using v(3) c by (simp add: upd_srv_def upd_grp_def)
    have s': "srv w' s = Some (v\<lparr>s_entry := Some e\<rparr>)" using srv' by simp
    then have bounds: "fst s < length (c_groups c')" "snd s < length (g_services (c_groups c' ! fst s))"
      "g_services (c_groups c' ! fst s) ! snd s = v\<lparr>s_entry := Some e\<rparr>"
      using c' by (auto simp: srv_def grp_def split: if_splits)
    have "find_in_groups i (c_groups c') 0 = Some (fst s, snd s)"
    proof (rule find_in_groups_unique [OF bounds(1,2)])
      show "s_id (g_services (c_groups c' ! fst s) ! snd s) = i" using bounds(3) vid by simp
      fix gi j assume *: "gi < length (c_groups c')" "j < length (g_services (c_groups c' ! gi))" "s_id (g_services (c_groups c' ! gi) ! j) = i"
      then have "srv w' (gi, j) = Some (g_services (c_groups c' ! gi) ! j)" using c' by (simp add: srv_def grp_def)
      then have "(gi, j) = s" using srv' uniq *(3) by (metis option.inject)
      then show "(gi, j) = (fst s, snd s)" by simp
    qed
    then show ?thesis using c' s' by (simp add: eaf_service_find_service_def)
  qed
  show ?thesis using v vid srv' find by (intro exI [of _ s] exI [of _ v]) auto
qed

text \<open>The world after \<open>eaf_init\<close> of the demonstration.\<close>

definition demo_init_world :: "group_table list \<Rightarrow> world" where
  "demo_init_world info = (case eaf_init base_env sys_demo_sizes info sys_demo_start of None \<Rightarrow> sys_demo_start | Some (r, w) \<Rightarrow> w)"

definition demo_entry :: entrypoint where
  "demo_entry = \<lparr>msg_table = [(7, 4)], ep_on_init = 5, ep_on_exit = 3\<rparr>"

theorem register_then_find_witness:
  "\<exists>w' s v. eaf_register base_env 2 demo_entry (demo_init_world sys_demo_info) = Some (eaf_errno_success, w') \<and>
     srv w' s = Some (v\<lparr>s_entry := Some demo_entry\<rparr>)"
proof -
  have "map_option fst (eaf_register base_env 2 demo_entry (demo_init_world sys_demo_info)) = Some 0" by code_simp
  then obtain w' where "eaf_register base_env 2 demo_entry (demo_init_world sys_demo_info) = Some (eaf_errno_success, w')"
    by (auto simp: eaf_errno_success_def)
  then show ?thesis using register_then_find [OF quiet_base] by blast
qed

text \<open>With an identifier used in two groups, registration succeeds but no message finds the service: the
  registration takes the last group, the search the first.\<close>

lemma register_lost:
  "(case eaf_register base_env 2 demo_entry (demo_init_world (sys_demo_info @ sys_demo_info)) of
      Some (r, w) \<Rightarrow> r = eaf_errno_success \<and> eaf_service_find_service 2 w = Some None | None \<Rightarrow> False)"
  by code_simp

subsection \<open>The memory block of \<open>eaf_init\<close>\<close>

fun nat_offsets :: "sizes \<Rightarrow> nat \<Rightarrow> group_table list \<Rightarrow> nat list" where
  "nat_offsets Z a [] = []"
| "nat_offsets Z a (t # ts) = a # nat_offsets Z (a + unat (sizeof_group Z) + unat (sizeof_service Z) * length t) ts"

definition header_size :: "sizes \<Rightarrow> group_table list \<Rightarrow> nat" where
  "header_size Z info = unat (sizeof_ctx Z) + unat (sizeof_ptr Z) * length info"

definition groups_size :: "sizes \<Rightarrow> group_table list \<Rightarrow> nat" where
  "groups_size Z info = (\<Sum>t \<leftarrow> info. unat (sizeof_group Z) + unat (sizeof_service Z) * length t)"

lemma fix_address_nat: "fix_address_loop Z (of_nat a) info = map of_nat (nat_offsets Z a info)"
proof (induction info arbitrary: a rule: induct_list012)
  case (3 t u ts)
  let ?b = "a + unat (sizeof_group Z) + unat (sizeof_service Z) * length t"
  have b: "(of_nat a :: size_t) + sizeof_group Z + sizeof_service Z * of_nat (length t) = of_nat ?b" by simp
  have "fix_address_loop Z (of_nat ?b) (u # ts) = map of_nat (nat_offsets Z ?b (u # ts))" by (rule 3(2))
  then show ?case unfolding fix_address_loop.simps(3) b by simp
qed simp_all

lemma malloc_size_nat: "foldl (\<lambda>m t. m + (sizeof_group Z + sizeof_service Z * of_nat (length t))) (of_nat a) info =
    (of_nat (a + groups_size Z info) :: size_t)"
proof (induction info arbitrary: a)
  case (Cons t ts)
  have "(of_nat a :: size_t) + (sizeof_group Z + sizeof_service Z * of_nat (length t)) =
      of_nat (a + (unat (sizeof_group Z) + unat (sizeof_service Z) * length t))" by simp
  then show ?case using Cons [of "a + (unat (sizeof_group Z) + unat (sizeof_service Z) * length t)"]
    by (simp add: groups_size_def add.assoc)
qed (simp add: groups_size_def)

lemma nat_offsets_length [simp]: "length (nat_offsets Z a info) = length info"
  by (induction info arbitrary: a) simp_all

lemma groups_size_Cons [simp]: "groups_size Z (t # ts) = unat (sizeof_group Z) + unat (sizeof_service Z) * length t + groups_size Z ts"
  "groups_size Z [] = 0"
  by (simp_all add: groups_size_def)

lemma nat_offsets_tile:
  "i < length info \<Longrightarrow> nat_offsets Z a info ! i + unat (sizeof_group Z) + unat (sizeof_service Z) * length (info ! i) =
     (if Suc i < length info then nat_offsets Z a info ! Suc i else a + groups_size Z info)"
proof (induction info arbitrary: a i)
  case (Cons t ts)
  let ?b = "a + unat (sizeof_group Z) + unat (sizeof_service Z) * length t"
  show ?case
  proof (cases i)
    case 0
    then show ?thesis by (cases ts) auto
  next
    case (Suc j)
    then have "j < length ts" using Cons.prems by simp
    from Cons.IH [OF this, of ?b] show ?thesis using Suc by simp
  qed
qed simp

lemma nat_offsets_bound: "i < length info \<Longrightarrow> nat_offsets Z a info ! i \<le> a + groups_size Z info"
proof (induction info arbitrary: a i)
  case (Cons t ts)
  let ?b = "a + unat (sizeof_group Z) + unat (sizeof_service Z) * length t"
  show ?case
  proof (cases i)
    case (Suc j)
    then have "j < length ts" using Cons.prems by simp
    from Cons.IH [OF this, of ?b] show ?thesis using Suc by simp
  qed simp
qed simp

text \<open>The memory block of \<open>eaf_init\<close>. If the total size fits in \<open>size_t\<close>, the addresses stored for the groups
  start right behind the pointer table, every group with its services ends where the next one starts,
  and the last one ends at the end of the allocated block. An empty configuration would write the
  address of a first group behind the block, which the model marks as undefined.\<close>

theorem init_layout:
  assumes "info \<noteq> []" "header_size Z info + groups_size Z info < 2 ^ 64"
  shows "\<exists>offs. eaf_init_fix_address Z info = Some offs \<and> length offs = length info \<and> unat (offs ! 0) = header_size Z info \<and>
    (\<forall>i < length info. unat (offs ! i) + unat (sizeof_group Z) + unat (sizeof_service Z) * length (info ! i) =
       (if Suc i < length info then unat (offs ! Suc i) else unat (eaf_init_calculate_malloc_size Z info)))"
proof -
  let ?h = "header_size Z info"
  let ?ns = "nat_offsets Z ?h info"
  have h: "sizeof_ctx Z + sizeof_ptr Z * of_nat (length info) = (of_nat ?h :: size_t)" by (simp add: header_size_def)
  have offs: "eaf_init_fix_address Z info = Some (map of_nat ?ns)"
    using assms(1) fix_address_nat [of Z ?h info] by (simp add: eaf_init_fix_address_def h)
  have total: "unat (eaf_init_calculate_malloc_size Z info) = ?h + groups_size Z info"
    using assms(2) by (simp add: eaf_init_calculate_malloc_size_def h malloc_size_nat unat_of_nat del: of_nat_add)
  have len: "length ?ns = length info" by simp
  have u: "unat ((map of_nat ?ns :: size_t list) ! i) = ?ns ! i" if "i < length info" for i
  proof -
    have "?ns ! i < 2 ^ 64" using nat_offsets_bound [OF that, where Z = Z and a = ?h] assms(2) by linarith
    then show ?thesis using that len by (simp add: unat_of_nat)
  qed
  have "unat ((map of_nat ?ns :: size_t list) ! i) + unat (sizeof_group Z) + unat (sizeof_service Z) * length (info ! i) =
      (if Suc i < length info then unat ((map of_nat ?ns :: size_t list) ! Suc i) else unat (eaf_init_calculate_malloc_size Z info))"
    if "i < length info" for i
    using nat_offsets_tile [OF that, where Z = Z and a = ?h] u [OF that] u [of "Suc i"] total by simp
  moreover have "unat ((map of_nat ?ns :: size_t list) ! 0) = ?h"
  proof -
    have "?ns ! 0 = ?h" using assms(1) by (cases info) auto
    then show ?thesis using u [of 0] assms(1) by simp
  qed
  ultimately show ?thesis using offs len by auto
qed

theorem init_layout_witness:
  "\<exists>offs. eaf_init_fix_address sys_demo_sizes sys_demo_info = Some offs \<and> unat (offs ! 0) = 136"
  using init_layout [of sys_demo_info sys_demo_sizes]
  by (auto simp: sys_demo_info_def sys_demo_sizes_def header_size_def groups_size_def)

lemma init_empty_layout: "eaf_init_fix_address Z [] = None"
  by (simp add: eaf_init_fix_address_def)

subsection \<open>Cleanup\<close>

text \<open>C8: Cleanup leaks nothing. When all threads have ended, \<open>eaf_cleanup\<close> returns the summary, frees the
  context, destroys every queue record that is left exactly once, and takes back from each message
  exactly the references its records held.\<close>

theorem cleanup_releases:
  assumes "user_code E" "finite (dom (w_mheap w0))" "sys_reachable E Z info w0 (w, ph, loading)"
    "w_ctx w = Some c" "c_hook c = None" "\<forall>gi < length ph. ph ! gi = T_done"
  shows "\<exists>w'. eaf_cleanup E (\<lambda>gi. ph ! gi = T_done) w = Some (Some (eaf_errno_success, c_summary c, w')) \<and> w_ctx w' = None \<and>
    (\<forall>r. w_recs w' r = (if r \<in># wrecs w then None else w_recs w r)) \<and>
    (\<forall>a. refs (w_mheap w') a + count (image_mset (rmsg (w_recs w)) (wrecs w)) a = refs (w_mheap w) a)"
proof -
  have inv: "sys_inv (w, ph, loading)" by (rule reachable_inv [OF assms(1-3)])
  then have w: "winv w" "length (c_groups c) = length ph" using assms(4) by (auto simp: ngroups_def)
  obtain w' c' where w': "cleanup_groups 0 (length (c_groups c)) w = Some w'" "w_ctx w' = Some c'" "c_summary c' = c_summary c"
    "released (wrecs w) w w'" using cleanup_all [OF winvD(4) [OF w(1)] assms(4)] by blast
  have "eaf_cleanup E (\<lambda>gi. ph ! gi = T_done) w = Some (Some (eaf_errno_success, c_summary c, w'\<lparr>w_ctx := None\<rparr>))"
    using assms(4-6) w(2) w' by (simp add: eaf_cleanup_def hook_cleanup_after_def)
  then show ?thesis using w'(4) by (simp add: released_def)
qed

text \<open>The yielded system shut down with its message still unhandled.\<close>

definition demo_shut :: "choice list" where
  "demo_shut = demo_yielded @ [C_outside (UInit 9), C_thread 0, C_thread 0]"

theorem cleanup_releases_witness:
  "\<exists>w ph l sm w'. sys_demo demo_shut = Some (w, ph, l) \<and> w_recs w 0 \<noteq> None \<and>
     eaf_cleanup sys_demo_env (\<lambda>gi. ph ! gi = T_done) w = Some (Some (eaf_errno_success, sm, w')) \<and> w_recs w' 0 = None"
proof -
  have "map_option (\<lambda>(w, ph, l). (ph, map_option (\<lambda>c. c_hook c) (w_ctx w), w_recs w 0 = None, map_option s_cur_msg (srv w (0, 1)))) (sys_demo demo_shut) =
    Some ([T_done], Some None, False, Some (Some 0))" by code_simp
  then obtain w l c v where s: "sys_demo demo_shut = Some (w, [T_done], l)" "w_ctx w = Some c" "c_hook c = None" "w_recs w 0 \<noteq> None"
    "srv w (0, 1) = Some v" "s_cur_msg v = Some 0" by auto
  have "0 \<in># wrecs w" using in_wrecs [OF s(5)] in_srv_recs(1) [OF s(6)] by blast
  then show ?thesis
    using cleanup_releases [OF demo_user demo_finite demo_reachable [OF s(1)] s(2,3)] s(1,4) by fastforce
qed

subsection \<open>Groups of lazily loaded services\<close>

text \<open>A group with only a lazily loaded service: its thread ends when the system is loaded, and a request
  that is accepted afterwards stays in the queue.\<close>

lemma lazyload_group_dead:
  "(case eaf_init sys_demo_env sys_demo_sizes [[\<lparr>srv_id = 2, msgq_size = 1, attribute = eaf_service_attribute_lazyload\<rparr>]] sys_demo_start of
      None \<Rightarrow> False
    | Some (r, w) \<Rightarrow>
       (case sys_run sys_demo_env [C_outside (UInit 1), C_thread 0, C_load, C_thread 0, C_loaded, C_outside (UInit 2)] (w, [T_start], False) of
          None \<Rightarrow> False
        | Some (w, ph, l) \<Rightarrow> ph = [T_done] \<and> map_option (\<lambda>v. (s_state v, length (s_queue v))) (srv w (0, 0)) = Some (eaf_service_state_init1, 1)))"
  by code_simp

end
