(* ===== verification/RingBuffer.thy ===== *)
theory RingBuffer
  imports Prelude
begin

text \<open>
  The ring buffer of \<open>powerpack/ringbuffer.c\<close>: variable-sized nodes laid out in one block of memory,
  linked in a circle by position (\<open>chain_pos\<close>) and in a line by age (\<open>chain_time\<close>).

  State. \<open>ringbuffer\<close> is \<open>struct eaf_ringbuffer\<close>, \<open>ring_node\<close> the header \<open>ring_buffer_node_t\<close> of a node, and
  the heap maps the address of a node to its header. A token is represented by the address of its
  node (\<open>EAF_CONTAINER_OF\<close>). Sizes and counters are \<open>size_t\<close> words; differences of pointers are taken in
  the integers and converted to \<open>size_t\<close> as C does. \<open>None\<close> is a null or dangling dereference, or a loop
  that does not end.
\<close>

subsection \<open>Types\<close>

datatype ring_buffer_node_state = stat_writing | stat_committed | stat_reading

record ring_node =
  chain_forward :: addr
  chain_backward :: addr
  time_newer :: ptr
  time_older :: ptr
  nstate :: ring_buffer_node_state
  token_size :: size_t

record ringbuffer =
  cache :: addr
  capacity :: size_t
  HEAD :: ptr
  TAIL :: ptr
  oldest_reserve :: ptr
  committed :: size_t
  writing :: size_t
  reading :: size_t

type_synonym ring_heap = "addr \<Rightarrow> ring_node option"

definition eaf_ringbuffer_flag_overwrite :: u32 where "eaf_ringbuffer_flag_overwrite = 1"
definition eaf_ringbuffer_flag_discard :: u32 where "eaf_ringbuffer_flag_discard = 2"
definition eaf_ringbuffer_flag_abandon :: u32 where "eaf_ringbuffer_flag_abandon = 4"

text \<open>Sizes on a 64-bit machine: two chains of two pointers, the padded state and the size word of the
  token; two, three and three words of \<open>struct eaf_ringbuffer\<close>.\<close>

definition sizeof_ring_node :: size_t where "sizeof_ring_node = 48"
definition sizeof_ringbuffer :: size_t where "sizeof_ringbuffer = 64"
definition sizeof_pointer :: size_t where "sizeof_pointer = 8"

definition EAF_ALIGN :: "size_t \<Rightarrow> size_t \<Rightarrow> size_t" where
  "EAF_ALIGN sz align = (sz + (align - 1)) AND NOT (align - 1)"

definition eaf_ringbuffer_heap_cost :: size_t where
  "eaf_ringbuffer_heap_cost = EAF_ALIGN sizeof_ringbuffer sizeof_pointer"

definition eaf_ringbuffer_node_cost :: "size_t \<Rightarrow> size_t" where
  "eaf_ringbuffer_node_cost sz = EAF_ALIGN (sizeof_ring_node + sz) sizeof_pointer"

definition ptr_diff :: "addr \<Rightarrow> addr \<Rightarrow> size_t" where
  "ptr_diff a b = word_of_int (int a - int b)"

definition node_end_of :: "addr \<Rightarrow> ring_node \<Rightarrow> addr" where
  "node_end_of a n = a + unat (eaf_ringbuffer_node_cost (token_size n))"

text \<open>A store through a pointer to a node, and the first access to the memory of a new node.\<close>

definition ring_store :: "addr \<Rightarrow> (ring_node \<Rightarrow> ring_node) \<Rightarrow> ring_heap \<Rightarrow> ring_heap option" where
  "ring_store a f H = map_option (\<lambda>n. H(a \<mapsto> f n)) (H a)"

definition raw_node :: ring_node where
  "raw_node = \<lparr>chain_forward = 0, chain_backward = 0, time_newer = None, time_older = None,
     nstate = stat_writing, token_size = 0\<rparr>"

definition ring_claim :: "addr \<Rightarrow> ring_heap \<Rightarrow> ring_heap" where
  "ring_claim a H = (case H a of None \<Rightarrow> H(a \<mapsto> raw_node) | Some _ \<Rightarrow> H)"

subsection \<open>Initialisation\<close>

definition ring_buffer_reinit :: "ringbuffer \<Rightarrow> ringbuffer" where
  "ring_buffer_reinit rb = rb\<lparr>writing := 0, committed := 0, reading := 0,
     oldest_reserve := None, HEAD := None, TAIL := None\<rparr>"

text \<open>The address of the handler and the handler.\<close>

definition eaf_ringbuffer_init :: "addr \<Rightarrow> size_t \<Rightarrow> (addr \<times> ringbuffer) option" where
  "eaf_ringbuffer_init buffer sz =
     (let handler = unat (EAF_ALIGN (of_nat buffer) sizeof_pointer);
          leading_align_size = ptr_diff handler buffer in
      if sz \<le> leading_align_size + eaf_ringbuffer_heap_cost then None
      else Some (handler, ring_buffer_reinit
        \<lparr>cache = handler + unat eaf_ringbuffer_heap_cost,
         capacity = sz - leading_align_size - eaf_ringbuffer_heap_cost,
         HEAD = None, TAIL = None, oldest_reserve = None, committed = 0, writing = 0, reading = 0\<rparr>))"

subsection \<open>Reserving\<close>

definition ring_buffer_reserve_empty ::
  "ringbuffer \<Rightarrow> size_t \<Rightarrow> size_t \<Rightarrow> ring_heap \<Rightarrow> (ptr \<times> ringbuffer \<times> ring_heap) option" where
  "ring_buffer_reserve_empty rb data_len node_size H =
     (if capacity rb < node_size then Some (None, rb, H)
      else do {
        let h = cache rb;
        let rb = rb\<lparr>HEAD := Some h\<rparr>;
        let H = ring_claim h H;
        H \<leftarrow> ring_store h (\<lambda>n. n\<lparr>nstate := stat_writing\<rparr>) H;
        H \<leftarrow> ring_store h (\<lambda>n. n\<lparr>token_size := data_len\<rparr>) H;
        H \<leftarrow> ring_store h (\<lambda>n. n\<lparr>chain_forward := h\<rparr>) H;
        H \<leftarrow> ring_store h (\<lambda>n. n\<lparr>chain_backward := h\<rparr>) H;
        H \<leftarrow> ring_store h (\<lambda>n. n\<lparr>time_newer := None\<rparr>) H;
        H \<leftarrow> ring_store h (\<lambda>n. n\<lparr>time_older := None\<rparr>) H;
        let rb = rb\<lparr>TAIL := HEAD rb, oldest_reserve := HEAD rb, writing := writing rb + 1\<rparr>;
        Some (oldest_reserve rb, rb, H) })"

definition ring_buffer_update_time_for_new_node ::
  "ringbuffer \<Rightarrow> addr \<Rightarrow> ring_heap \<Rightarrow> (ringbuffer \<times> ring_heap) option" where
  "ring_buffer_update_time_for_new_node rb new_node H = do {
     H \<leftarrow> ring_store new_node (\<lambda>n. n\<lparr>time_newer := None\<rparr>) H;
     H \<leftarrow> ring_store new_node (\<lambda>n. n\<lparr>time_older := HEAD rb\<rparr>) H;
     n \<leftarrow> H new_node;
     older \<leftarrow> time_older n;
     H \<leftarrow> ring_store older (\<lambda>n. n\<lparr>time_newer := Some new_node\<rparr>) H;
     Some (rb\<lparr>HEAD := Some new_node\<rparr>, H) }"

definition ring_buffer_perform_overwrite ::
  "ringbuffer \<Rightarrow> addr \<Rightarrow> addr \<Rightarrow> addr \<Rightarrow> size_t \<Rightarrow> size_t \<Rightarrow> ring_heap \<Rightarrow> (ptr \<times> ringbuffer \<times> ring_heap) option" where
  "ring_buffer_perform_overwrite rb start_point node_start node_end counter_lost_nodes data_len H = do {
     e \<leftarrow> H node_end;
     let newer_node = time_newer e;
     let rb = (if TAIL rb = oldest_reserve rb then rb\<lparr>TAIL := newer_node\<rparr> else rb);
     let rb = rb\<lparr>oldest_reserve := newer_node\<rparr>;
     let new_node = start_point;
     let H = ring_claim new_node H;
     e \<leftarrow> H node_end;
     H \<leftarrow> ring_store new_node (\<lambda>n. n\<lparr>chain_forward := chain_forward e\<rparr>) H;
     n \<leftarrow> H new_node;
     H \<leftarrow> ring_store (chain_forward n) (\<lambda>n. n\<lparr>chain_backward := new_node\<rparr>) H;
     s \<leftarrow> H node_start;
     H \<leftarrow> ring_store new_node (\<lambda>n. n\<lparr>chain_backward := chain_backward s\<rparr>) H;
     n \<leftarrow> H new_node;
     H \<leftarrow> ring_store (chain_backward n) (\<lambda>n. n\<lparr>chain_forward := new_node\<rparr>) H;
     s \<leftarrow> H node_start;
     e \<leftarrow> H node_end;
     H \<leftarrow> (case time_older s of None \<Rightarrow> Some H
        | Some older \<Rightarrow> ring_store older (\<lambda>n. n\<lparr>time_newer := time_newer e\<rparr>) H);
     s \<leftarrow> H node_start;
     e \<leftarrow> H node_end;
     H \<leftarrow> (case time_newer e of None \<Rightarrow> Some H
        | Some newer \<Rightarrow> ring_store newer (\<lambda>n. n\<lparr>time_older := time_older s\<rparr>) H);
     (rb, H) \<leftarrow> ring_buffer_update_time_for_new_node rb new_node H;
     let rb = rb\<lparr>committed := committed rb - counter_lost_nodes, writing := writing rb + 1\<rparr>;
     H \<leftarrow> ring_store new_node (\<lambda>n. n\<lparr>token_size := data_len\<rparr>) H;
     H \<leftarrow> ring_store new_node (\<lambda>n. n\<lparr>nstate := stat_writing\<rparr>) H;
     Some (Some new_node, rb, H) }"

text \<open>The loop over the nodes to overwrite; it returns \<open>sum_size\<close>, \<open>node_end\<close> and \<open>counter_lost_nodes\<close>.\<close>

partial_function (option) overwrite_loop ::
  "ring_heap \<Rightarrow> addr \<Rightarrow> size_t \<Rightarrow> addr \<Rightarrow> size_t \<Rightarrow> (size_t \<times> addr \<times> size_t) option" where
  "overwrite_loop H start_point node_size node_end counter_lost_nodes = do {
     e \<leftarrow> H node_end;
     let sum_size = ptr_diff (node_end_of node_end e) start_point;
     if node_size \<le> sum_size then Some (sum_size, node_end, counter_lost_nodes)
     else do {
       f \<leftarrow> H (chain_forward e);
       if nstate f = stat_committed \<and> Some (chain_forward e) = time_newer e \<and> node_end < chain_forward e
       then overwrite_loop H start_point node_size (chain_forward e) (counter_lost_nodes + 1)
       else Some (sum_size, node_end, counter_lost_nodes) } }"

declare overwrite_loop.simps [code]

definition ring_buffer_reserve_try_overwrite ::
  "ringbuffer \<Rightarrow> size_t \<Rightarrow> size_t \<Rightarrow> ring_heap \<Rightarrow> (ptr \<times> ringbuffer \<times> ring_heap) option" where
  "ring_buffer_reserve_try_overwrite rb data_len node_size H =
     (case oldest_reserve rb of
        None \<Rightarrow> Some (None, rb, H)
      | Some oldest \<Rightarrow> do {
          o_node \<leftarrow> H oldest;
          if nstate o_node \<noteq> stat_committed then Some (None, rb, H)
          else if chain_forward o_node = oldest then
            if capacity rb < node_size then Some (None, rb, H)
            else ring_buffer_reserve_empty (ring_buffer_reinit rb) data_len node_size H
          else do {
            let backward = chain_backward o_node;
            b \<leftarrow> H backward;
            let start_point = (if backward < oldest then node_end_of backward b else cache rb);
            (sum_size, node_end, counter_lost_nodes) \<leftarrow> overwrite_loop H start_point node_size oldest 1;
            if sum_size < node_size then Some (None, rb, H)
            else ring_buffer_perform_overwrite rb start_point oldest node_end counter_lost_nodes data_len H } })"

definition ring_buffer_insert_new_node ::
  "ringbuffer \<Rightarrow> addr \<Rightarrow> size_t \<Rightarrow> ring_heap \<Rightarrow> (ringbuffer \<times> ring_heap) option" where
  "ring_buffer_insert_new_node rb new_node data_len H = do {
     let H = ring_claim new_node H;
     H \<leftarrow> ring_store new_node (\<lambda>n. n\<lparr>nstate := stat_writing\<rparr>) H;
     H \<leftarrow> ring_store new_node (\<lambda>n. n\<lparr>token_size := data_len\<rparr>) H;
     head \<leftarrow> HEAD rb;
     h \<leftarrow> H head;
     H \<leftarrow> ring_store new_node (\<lambda>n. n\<lparr>chain_forward := chain_forward h\<rparr>) H;
     H \<leftarrow> ring_store new_node (\<lambda>n. n\<lparr>chain_backward := head\<rparr>) H;
     n \<leftarrow> H new_node;
     H \<leftarrow> ring_store (chain_forward n) (\<lambda>n. n\<lparr>chain_backward := new_node\<rparr>) H;
     n \<leftarrow> H new_node;
     H \<leftarrow> ring_store (chain_backward n) (\<lambda>n. n\<lparr>chain_forward := new_node\<rparr>) H;
     ring_buffer_update_time_for_new_node rb new_node H }"

definition ring_buffer_reserve_update_oldest_reserve :: "addr \<Rightarrow> ringbuffer \<Rightarrow> ringbuffer" where
  "ring_buffer_reserve_update_oldest_reserve node rb =
     (if oldest_reserve rb = None then rb\<lparr>oldest_reserve := Some node\<rparr> else rb)"

text \<open>The three equal blocks of \<open>_ring_buffer_reserve_none_empty\<close> that form the token.\<close>

definition ring_take :: "ringbuffer \<Rightarrow> addr \<Rightarrow> size_t \<Rightarrow> ring_heap \<Rightarrow> (ptr \<times> ringbuffer \<times> ring_heap) option" where
  "ring_take rb node data_len H = do {
     (rb, H) \<leftarrow> ring_buffer_insert_new_node (rb\<lparr>writing := writing rb + 1\<rparr>) node data_len H;
     Some (Some node, ring_buffer_reserve_update_oldest_reserve node rb, H) }"

definition ring_buffer_reserve_none_empty ::
  "ringbuffer \<Rightarrow> size_t \<Rightarrow> size_t \<Rightarrow> u32 \<Rightarrow> ring_heap \<Rightarrow> (ptr \<times> ringbuffer \<times> ring_heap) option" where
  "ring_buffer_reserve_none_empty rb data_len node_size flags H = do {
     head \<leftarrow> HEAD rb;
     h \<leftarrow> H head;
     let next_possible_node = node_end_of head h;
     let otherwise = (if flags AND eaf_ringbuffer_flag_overwrite \<noteq> 0
        then ring_buffer_reserve_try_overwrite rb data_len node_size H else Some (None, rb, H));
     if head < chain_forward h then
       if node_size \<le> ptr_diff (chain_forward h) next_possible_node
       then ring_take rb next_possible_node data_len H
       else otherwise
     else if node_size \<le> capacity rb - ptr_diff next_possible_node (cache rb)
     then ring_take rb next_possible_node data_len H
     else if node_size \<le> ptr_diff (chain_forward h) (cache rb)
     then ring_take rb (cache rb) data_len H
     else otherwise }"

definition eaf_ringbuffer_reserve ::
  "ringbuffer \<Rightarrow> size_t \<Rightarrow> u32 \<Rightarrow> ring_heap \<Rightarrow> (ptr \<times> ringbuffer \<times> ring_heap) option" where
  "eaf_ringbuffer_reserve rb len flags H =
     (let node_size = eaf_ringbuffer_node_cost len in
      if TAIL rb = None then ring_buffer_reserve_empty rb len node_size H
      else ring_buffer_reserve_none_empty rb len node_size flags H)"

subsection \<open>Committing\<close>

definition ring_buffer_commit_for_write_confirm :: "ringbuffer \<Rightarrow> addr \<Rightarrow> ring_heap \<Rightarrow> (int \<times> ringbuffer \<times> ring_heap) option" where
  "ring_buffer_commit_for_write_confirm rb node H = do {
     let rb = rb\<lparr>writing := writing rb - 1, committed := committed rb + 1\<rparr>;
     H \<leftarrow> ring_store node (\<lambda>n. n\<lparr>nstate := stat_committed\<rparr>) H;
     Some (0, rb, H) }"

definition ring_buffer_delete_node_update_chain :: "addr \<Rightarrow> ring_heap \<Rightarrow> ring_heap option" where
  "ring_buffer_delete_node_update_chain node H = do {
     n \<leftarrow> H node;
     H \<leftarrow> ring_store (chain_backward n) (\<lambda>b. b\<lparr>chain_forward := chain_forward n\<rparr>) H;
     n \<leftarrow> H node;
     H \<leftarrow> ring_store (chain_forward n) (\<lambda>f. f\<lparr>chain_backward := chain_backward n\<rparr>) H;
     n \<leftarrow> H node;
     H \<leftarrow> (case time_older n of None \<Rightarrow> Some H
        | Some older \<Rightarrow> ring_store older (\<lambda>x. x\<lparr>time_newer := time_newer n\<rparr>) H);
     n \<leftarrow> H node;
     (case time_newer n of None \<Rightarrow> Some H
        | Some newer \<Rightarrow> ring_store newer (\<lambda>x. x\<lparr>time_older := time_older n\<rparr>) H) }"

definition ring_buffer_delete_node :: "ringbuffer \<Rightarrow> addr \<Rightarrow> ring_heap \<Rightarrow> (ringbuffer \<times> ring_heap) option" where
  "ring_buffer_delete_node rb node H = do {
     n \<leftarrow> H node;
     if chain_forward n = node then Some (ring_buffer_reinit rb, H)
     else do {
       H \<leftarrow> ring_buffer_delete_node_update_chain node H;
       n \<leftarrow> H node;
       let rb = (if oldest_reserve rb = Some node then rb\<lparr>oldest_reserve := time_newer n\<rparr> else rb);
       Some (if time_older n = None then rb\<lparr>TAIL := time_newer n\<rparr>
             else if time_newer n = None then rb\<lparr>HEAD := time_older n\<rparr>
             else rb, H) } }"

definition ring_buffer_commit_for_write_discard :: "ringbuffer \<Rightarrow> addr \<Rightarrow> ring_heap \<Rightarrow> (int \<times> ringbuffer \<times> ring_heap) option" where
  "ring_buffer_commit_for_write_discard rb node H = do {
     (rb, H) \<leftarrow> ring_buffer_delete_node (rb\<lparr>writing := writing rb - 1\<rparr>) node H;
     Some (0, rb, H) }"

definition ring_buffer_commit_for_write :: "ringbuffer \<Rightarrow> addr \<Rightarrow> u32 \<Rightarrow> ring_heap \<Rightarrow> (int \<times> ringbuffer \<times> ring_heap) option" where
  "ring_buffer_commit_for_write rb node flags H =
     (if flags AND eaf_ringbuffer_flag_discard \<noteq> 0 then ring_buffer_commit_for_write_discard rb node H
      else ring_buffer_commit_for_write_confirm rb node H)"

definition ring_buffer_commit_for_consume_confirm :: "ringbuffer \<Rightarrow> addr \<Rightarrow> ring_heap \<Rightarrow> (int \<times> ringbuffer \<times> ring_heap) option" where
  "ring_buffer_commit_for_consume_confirm rb node H = do {
     (rb, H) \<leftarrow> ring_buffer_delete_node (rb\<lparr>reading := reading rb - 1\<rparr>) node H;
     Some (0, rb, H) }"

text \<open>Whether the newer node is being read.\<close>

definition newer_is_reading :: "ring_node \<Rightarrow> ring_heap \<Rightarrow> bool option" where
  "newer_is_reading n H = (case time_newer n of None \<Rightarrow> Some False
     | Some newer \<Rightarrow> map_option (\<lambda>x. nstate x = stat_reading) (H newer))"

definition ring_buffer_commit_for_consume_discard ::
  "ringbuffer \<Rightarrow> addr \<Rightarrow> u32 \<Rightarrow> ring_heap \<Rightarrow> (int \<times> ringbuffer \<times> ring_heap) option" where
  "ring_buffer_commit_for_consume_discard rb node flags H = do {
     n \<leftarrow> H node;
     blocked \<leftarrow> newer_is_reading n H;
     if blocked then
       if flags AND eaf_ringbuffer_flag_abandon \<noteq> 0 then ring_buffer_commit_for_consume_confirm rb node H
       else Some (- 1, rb, H)
     else do {
       let rb = rb\<lparr>reading := reading rb - 1, committed := committed rb + 1\<rparr>;
       H \<leftarrow> ring_store node (\<lambda>n. n\<lparr>nstate := stat_committed\<rparr>) H;
       n \<leftarrow> H node;
       if time_newer n = None then Some (0, rb\<lparr>oldest_reserve := Some node\<rparr>, H)
       else case oldest_reserve rb of
          None \<Rightarrow> Some (0, rb, H)
        | Some oldest \<Rightarrow> do {
            x \<leftarrow> H oldest;
            Some (0, if time_older x = Some node then rb\<lparr>oldest_reserve := Some node\<rparr> else rb, H) } } }"

definition ring_buffer_commit_for_consume :: "ringbuffer \<Rightarrow> addr \<Rightarrow> u32 \<Rightarrow> ring_heap \<Rightarrow> (int \<times> ringbuffer \<times> ring_heap) option" where
  "ring_buffer_commit_for_consume rb node flags H =
     (if flags AND eaf_ringbuffer_flag_discard \<noteq> 0 then ring_buffer_commit_for_consume_discard rb node flags H
      else ring_buffer_commit_for_consume_confirm rb node H)"

definition eaf_ringbuffer_commit :: "ringbuffer \<Rightarrow> addr \<Rightarrow> u32 \<Rightarrow> ring_heap \<Rightarrow> (int \<times> ringbuffer \<times> ring_heap) option" where
  "eaf_ringbuffer_commit rb node flags H = do {
     n \<leftarrow> H node;
     if nstate n = stat_writing then ring_buffer_commit_for_write rb node flags H
     else ring_buffer_commit_for_consume rb node flags H }"

subsection \<open>Consuming and iterating\<close>

definition eaf_ringbuffer_consume :: "ringbuffer \<Rightarrow> ring_heap \<Rightarrow> (ptr \<times> ringbuffer \<times> ring_heap) option" where
  "eaf_ringbuffer_consume rb H =
     (case oldest_reserve rb of
        None \<Rightarrow> Some (None, rb, H)
      | Some token_node \<Rightarrow> do {
          n \<leftarrow> H token_node;
          if nstate n \<noteq> stat_committed then Some (None, rb, H)
          else do {
            let rb = rb\<lparr>committed := committed rb - 1, reading := reading rb + 1\<rparr>;
            let rb = rb\<lparr>oldest_reserve := time_newer n\<rparr>;
            H \<leftarrow> ring_store token_node (\<lambda>n. n\<lparr>nstate := stat_reading\<rparr>) H;
            Some (Some token_node, rb, H) } })"

text \<open>The sum, and the counter that is stored through the second argument.\<close>

definition eaf_ringbuffer_count :: "ringbuffer \<Rightarrow> size_t \<times> (size_t \<times> size_t \<times> size_t)" where
  "eaf_ringbuffer_count rb = (committed rb + reading rb + writing rb, (committed rb, writing rb, reading rb))"

text \<open>The token of the oldest node. Here \<open>None\<close> is no null pointer: the code takes the address of a
  member through the null pointer \<open>TAIL\<close>.\<close>

definition eaf_ringbuffer_begin :: "ringbuffer \<Rightarrow> addr option" where
  "eaf_ringbuffer_begin rb = do { n \<leftarrow> TAIL rb; Some n }"

definition eaf_ringbuffer_next :: "addr \<Rightarrow> ring_heap \<Rightarrow> ptr option" where
  "eaf_ringbuffer_next token H = map_option time_newer (H token)"

end
