(* ===== verification/RingLinks.thy ===== *)
theory RingLinks
  imports RingBuffer
begin

text \<open>
  Shapes of the ring buffer: the line of nodes by age (\<open>links\<close>), the circle by position (\<open>circ\<close>) and
  the layout in memory (\<open>fits\<close>), all over access functions rather than heaps, so that a store into a
  node is a function update.
\<close>

subsection \<open>The line\<close>

fun links :: "(addr \<Rightarrow> ptr) \<Rightarrow> (addr \<Rightarrow> ptr) \<Rightarrow> ptr \<Rightarrow> addr list \<Rightarrow> ptr \<Rightarrow> bool" where
  "links nx pv p [] q = True"
| "links nx pv p (a # as) q \<longleftrightarrow> pv a = p \<and> nx a = (if as = [] then q else hd_opt as) \<and> links nx pv (Some a) as q"

lemma links_append:
  "links nx pv p (xs @ ys) q \<longleftrightarrow>
     links nx pv p xs (if ys = [] then q else hd_opt ys) \<and> links nx pv (if xs = [] then p else last_opt xs) ys q"
  by (induction xs arbitrary: p) (auto simp: hd_opt_append last_opt_Cons)

lemma links_cong:
  "(\<And>a. a \<in> set xs \<Longrightarrow> nx' a = nx a \<and> pv' a = pv a) \<Longrightarrow> links nx' pv' p xs q = links nx pv p xs q"
  by (induction xs arbitrary: p) auto

lemma links_last: "links nx pv p (xs @ [a]) q \<Longrightarrow> nx a = q"
  by (simp add: links_append)

text \<open>The first and the last node of a segment are replaced at the side that is linked anew.\<close>

lemma links_new_last:
  assumes "links nx pv p xs q" "distinct xs" "xs \<noteq> []"
  shows "links (nx(last xs := q')) pv p xs q'"
  using assms
proof (induction xs arbitrary: p)
  case (Cons a as)
  then show ?case by (cases "as = []") auto
qed simp

lemma links_new_first:
  assumes "links nx pv p xs q" "distinct xs" "xs \<noteq> []"
  shows "links nx (pv(hd xs := p')) p' xs q"
proof -
  obtain a as where xs: "xs = a # as" using assms(3) by (cases xs) auto
  have "links nx (pv(a := p')) (Some a) as q = links nx pv (Some a) as q"
    by (rule links_cong) (use assms(2) xs in auto)
  then show ?thesis using assms(1) xs by simp
qed

definition upd_opt :: "(addr \<Rightarrow> 'a) \<Rightarrow> ptr \<Rightarrow> 'a \<Rightarrow> addr \<Rightarrow> 'a" where
  "upd_opt f p v = (case p of None \<Rightarrow> f | Some a \<Rightarrow> f(a := v))"

lemma upd_opt_simps [simp]: "upd_opt f None v = f" "upd_opt f (Some a) v = f(a := v)"
  by (simp_all add: upd_opt_def)

lemma upd_opt_other: "p \<noteq> Some a \<Longrightarrow> upd_opt f p v a = f a"
  by (cases p) auto

text \<open>A run of nodes is taken out of the line.\<close>

lemma links_remove:
  assumes "links nx pv None (as @ run @ bs) None" "distinct (as @ run @ bs)" "run \<noteq> []"
  shows "links (upd_opt nx (last_opt as) (nx (last run))) (upd_opt pv (hd_opt bs) (pv (hd run))) None (as @ bs) None"
    "nx (last run) = hd_opt bs" "pv (hd run) = last_opt as"
proof -
  have l: "links nx pv None as (hd_opt run)" "links nx pv (last_opt as) run (hd_opt bs)" "links nx pv (last_opt run) bs None"
    using assms(1,3) by (auto simp: links_append hd_opt_append split: if_splits)
  obtain run' z where run: "run = run' @ [z]" using assms(3) by (metis rev_exhaust)
  show nx: "nx (last run) = hd_opt bs" using links_last [of nx pv _ run' z] l(2) run by simp
  obtain y run'' where run2: "run = y # run''" using assms(3) by (cases run) auto
  show pv: "pv (hd run) = last_opt as" using l(2) run2 by simp
  let ?nx = "upd_opt nx (last_opt as) (hd_opt bs)" and ?pv = "upd_opt pv (hd_opt bs) (last_opt as)"
  have 1: "links ?nx ?pv None as (hd_opt bs)"
  proof (cases "as = []")
    case False
    have "links (nx(last as := hd_opt bs)) pv None as (hd_opt bs)" using links_new_last [OF l(1)] assms(2) False by simp
    moreover have "links ?nx ?pv None as (hd_opt bs) = links (nx(last as := hd_opt bs)) pv None as (hd_opt bs)"
      using assms(2) False opt_in_set(1) [of bs] by (intro links_cong) (cases "hd_opt bs", auto simp: opt_conv)
    ultimately show ?thesis by simp
  qed simp
  have 2: "links ?nx ?pv (last_opt as) bs None"
  proof (cases "bs = []")
    case False
    have "links nx (pv(hd bs := last_opt as)) (last_opt as) bs None" using links_new_first [OF l(3)] assms(2) False by simp
    moreover have "links ?nx ?pv (last_opt as) bs None = links nx (pv(hd bs := last_opt as)) (last_opt as) bs None"
      using assms(2) False opt_in_set(2) [of as] by (intro links_cong) (cases "last_opt as", auto simp: opt_conv)
    ultimately show ?thesis by simp
  qed simp
  show "links (upd_opt nx (last_opt as) (nx (last run))) (upd_opt pv (hd_opt bs) (pv (hd run))) None (as @ bs) None"
    unfolding nx pv links_append using 1 2 by (cases "as = []"; cases "bs = []") auto
qed

lemma links_snoc:
  assumes "links nx pv None xs None" "distinct xs" "xs \<noteq> []" "a \<notin> set xs"
  shows "links (nx(last xs := Some a, a := None)) (pv(a := last_opt xs)) None (xs @ [a]) None"
proof -
  have "links (nx(last xs := Some a)) pv None xs (Some a)" by (rule links_new_last [OF assms(1-3)])
  moreover have "links (nx(last xs := Some a, a := None)) (pv(a := last_opt xs)) None xs (Some a) =
      links (nx(last xs := Some a)) pv None xs (Some a)"
    by (rule links_cong) (use assms(4) in auto)
  ultimately show ?thesis using assms(3,4) by (auto simp: links_append)
qed

subsection \<open>The circle\<close>

fun path :: "(addr \<Rightarrow> addr) \<Rightarrow> (addr \<Rightarrow> addr) \<Rightarrow> addr \<Rightarrow> addr list \<Rightarrow> bool" where
  "path fw bw a [] = True"
| "path fw bw a (b # bs) \<longleftrightarrow> fw a = b \<and> bw b = a \<and> path fw bw b bs"

definition circ :: "(addr \<Rightarrow> addr) \<Rightarrow> (addr \<Rightarrow> addr) \<Rightarrow> addr list \<Rightarrow> bool" where
  "circ fw bw xs \<longleftrightarrow> (case xs of [] \<Rightarrow> True | a # as \<Rightarrow> path fw bw a (as @ [a]))"

lemma path_append: "path fw bw a (xs @ ys) \<longleftrightarrow> path fw bw a xs \<and> path fw bw (last (a # xs)) ys"
  by (induction xs arbitrary: a) auto

lemma path_cong:
  "(\<And>b. b \<in> set (butlast (a # xs)) \<Longrightarrow> fw' b = fw b) \<Longrightarrow> (\<And>b. b \<in> set xs \<Longrightarrow> bw' b = bw b) \<Longrightarrow>
     path fw' bw' a xs = path fw bw a xs"
  by (induction xs arbitrary: a) (auto split: if_splits)

lemma circ_rotate1: "circ fw bw (a # as) = circ fw bw (as @ [a])"
  by (cases as) (auto simp: circ_def path_append)

lemma circ_rotate: "circ fw bw (xs @ ys) = circ fw bw (ys @ xs)"
proof (induction xs arbitrary: ys)
  case (Cons a xs)
  have "circ fw bw ((a # xs) @ ys) = circ fw bw (xs @ (ys @ [a]))" using circ_rotate1 [of fw bw a "xs @ ys"] by simp
  also have "\<dots> = circ fw bw ((ys @ [a]) @ xs)" by (rule Cons.IH)
  finally show ?case by simp
qed simp

text \<open>The part \<open>M\<close> of a circle is replaced by \<open>M'\<close>.\<close>

lemma circ_split: "r \<noteq> [] \<Longrightarrow> circ fw bw (r @ M) \<longleftrightarrow> path fw bw (hd r) (tl r) \<and> path fw bw (last r) (M @ [hd r])"
  by (cases r) (auto simp: circ_def path_append)

lemma circ_replace:
  assumes "circ fw bw (r @ M)" "r \<noteq> []" "path fw' bw' (last r) (M' @ [hd r])"
    "\<And>a. a \<in> set (butlast r) \<Longrightarrow> fw' a = fw a" "\<And>a. a \<in> set (tl r) \<Longrightarrow> bw' a = bw a"
  shows "circ fw' bw' (r @ M')"
proof -
  have "path fw bw (hd r) (tl r)" using assms(1) circ_split [OF assms(2)] by blast
  moreover have "path fw' bw' (hd r) (tl r) = path fw bw (hd r) (tl r)"
    by (rule path_cong) (use assms(2,4,5) in auto)
  ultimately show ?thesis using circ_split [OF assms(2)] assms(3) by blast
qed

lemma circ_ends:
  assumes "circ fw bw (r @ M)" "r \<noteq> []" "M \<noteq> []"
  shows "bw (hd M) = last r" "fw (last M) = hd r" "fw (last r) = hd M" "bw (hd r) = last M"
proof -
  have p: "path fw bw (last r) (M @ [hd r])" using assms(1) circ_split [OF assms(2)] by blast
  obtain m M1 where M: "M = m # M1" using assms(3) by (cases M) auto
  obtain M2 z where M': "M = M2 @ [z]" using assms(3) by (metis rev_exhaust)
  show "bw (hd M) = last r" "fw (last r) = hd M" using p M by simp_all
  show "fw (last M) = hd r" "bw (hd r) = last M" using p unfolding M' by (simp_all add: path_append)
qed

lemma distinct_ends:
  assumes "distinct r"
  shows "a \<in> set (butlast r) \<Longrightarrow> a \<noteq> last r" "a \<in> set (tl r) \<Longrightarrow> a \<noteq> hd r"
proof -
  show "a \<noteq> last r" if "a \<in> set (butlast r)"
  proof (cases r rule: rev_cases)
    case (snoc ys y)
    then show ?thesis using assms that by auto
  qed (use that in simp)
  show "a \<noteq> hd r" if "a \<in> set (tl r)" using assms that by (cases r) auto
qed

lemma circ_remove:
  assumes "circ fw bw (as @ run @ bs)" "distinct (as @ run @ bs)" "run \<noteq> []" "as @ bs \<noteq> []"
  shows "circ (fw(bw (hd run) := fw (last run))) (bw(fw (last run) := bw (hd run))) (as @ bs)"
proof -
  let ?r = "bs @ as"
  have c: "circ fw bw (?r @ run)" using assms(1) circ_rotate [of fw bw "as @ run" bs] by simp
  have r: "?r \<noteq> []" "distinct ?r" using assms(2,4) by auto
  note ends = circ_ends [OF c r(1) assms(3)]
  note ne = distinct_ends [OF r(2)]
  have "circ (fw(bw (hd run) := fw (last run))) (bw(fw (last run) := bw (hd run))) (?r @ [])"
    by (rule circ_replace [OF c r(1)]) (use ends ne in auto)
  then show ?thesis using circ_rotate [of _ _ bs as] by simp
qed

lemma circ_overwrite:
  assumes "circ fw bw (as @ run @ bs)" "distinct (as @ run @ bs)" "run \<noteq> []" "as @ bs \<noteq> []" "a \<notin> set (as @ bs)"
    "fw' = fw(a := fw (last run), bw (hd run) := a)" "bw' = bw(fw (last run) := a, a := bw (hd run))"
  shows "circ fw' bw' (as @ a # bs)"
proof -
  let ?r = "bs @ as"
  have c: "circ fw bw (?r @ run)" using assms(1) circ_rotate [of fw bw "as @ run" bs] by simp
  have r: "?r \<noteq> []" "distinct ?r" using assms(2,4) by auto
  note ends = circ_ends [OF c r(1) assms(3)]
  note ne = distinct_ends [OF r(2)]
  have in_r: "hd ?r \<in> set ?r" "last ?r \<in> set ?r" by (rule list.set_sel(1) [OF r(1)], rule last_in_set [OF r(1)])
  have sub: "x \<in> set (butlast ?r) \<Longrightarrow> x \<in> set ?r" "x \<in> set (tl ?r) \<Longrightarrow> x \<in> set ?r" for x
    by (rule in_set_butlastD, assumption) (rule list.set_sel(2) [OF r(1)])
  have a: "a \<noteq> hd ?r" "a \<noteq> last ?r" "x \<in> set ?r \<Longrightarrow> x \<noteq> a" for x using in_r assms(5) by auto
  have "circ fw' bw' (?r @ [a])"
  proof (rule circ_replace [OF c r(1)])
    show "path fw' bw' (last ?r) ([a] @ [hd ?r])" using ends a unfolding assms(6,7) by simp
    show "x \<in> set (butlast ?r) \<Longrightarrow> fw' x = fw x" for x
      using ne(1) [of x] sub(1) [of x] a(3) [of x] ends(1) unfolding assms(6) by auto
    show "x \<in> set (tl ?r) \<Longrightarrow> bw' x = bw x" for x
      using ne(2) [of x] sub(2) [of x] a(3) [of x] ends(2) unfolding assms(7) by auto
  qed
  then show ?thesis using circ_rotate [of fw' bw' "as @ [a]" bs] circ_rotate [of fw' bw' bs "as @ [a]"] by simp
qed

text \<open>A node is put behind \<open>h\<close>.\<close>

lemma circ_insert:
  assumes "circ fw bw (as @ h # bs)" "distinct (as @ h # bs)" "a \<notin> set (as @ h # bs)"
    "fw' = fw(a := fw h, h := a)" "bw' = bw(a := h, fw h := a)"
  shows "circ fw' bw' (as @ h # a # bs)"
proof -
  let ?r = "bs @ as @ [h]"
  have c: "circ fw bw (?r @ [])" using assms(1) circ_rotate [of fw bw "as @ [h]" bs] by simp
  have r: "?r \<noteq> []" "distinct ?r" using assms(2) by auto
  have fw: "fw h = hd ?r" using circ_split [OF r(1), of fw bw "[]"] c by simp
  note ne = distinct_ends [OF r(2)]
  have in_r: "hd ?r \<in> set ?r" using r(1) by (rule list.set_sel(1))
  have sub: "x \<in> set (butlast ?r) \<Longrightarrow> x \<in> set ?r" "x \<in> set (tl ?r) \<Longrightarrow> x \<in> set ?r" for x
    by (rule in_set_butlastD, assumption) (rule list.set_sel(2) [OF r(1)])
  have a: "a \<noteq> hd ?r" "a \<noteq> h" "x \<in> set ?r \<Longrightarrow> x \<noteq> a" for x using in_r assms(3) by auto
  have "circ fw' bw' (?r @ [a])"
  proof (rule circ_replace [OF c r(1)])
    show "path fw' bw' (last ?r) ([a] @ [hd ?r])" using fw a unfolding assms(4,5) by simp
    show "x \<in> set (butlast ?r) \<Longrightarrow> fw' x = fw x" for x
      using ne(1) [of x] sub(1) [of x] a(3) [of x] unfolding assms(4) by auto
    show "x \<in> set (tl ?r) \<Longrightarrow> bw' x = bw x" for x
      using ne(2) [of x] sub(2) [of x] a(3) [of x] fw unfolding assms(5) by auto
  qed
  then show ?thesis using circ_rotate [of fw' bw' bs "as @ [h, a]"] by simp
qed

subsection \<open>The layout\<close>

text \<open>The blocks of \<open>xs\<close>, \<open>c a\<close> bytes at \<open>a\<close>, follow each other between \<open>lo\<close> and \<open>hi\<close>.\<close>

fun fits :: "(addr \<Rightarrow> nat) \<Rightarrow> addr \<Rightarrow> addr list \<Rightarrow> addr \<Rightarrow> bool" where
  "fits c lo [] hi = (lo \<le> hi)"
| "fits c lo (a # as) hi = (lo \<le> a \<and> fits c (a + c a) as hi)"

definition fend :: "(addr \<Rightarrow> nat) \<Rightarrow> addr \<Rightarrow> addr list \<Rightarrow> addr" where
  "fend c lo xs = (case last_opt xs of None \<Rightarrow> lo | Some a \<Rightarrow> a + c a)"

lemma fits_le: "fits c lo xs hi \<Longrightarrow> lo \<le> hi"
  by (induction xs arbitrary: lo) force+

lemma fits_append: "fits c lo (xs @ ys) hi \<longleftrightarrow> fits c lo xs (fend c lo xs) \<and> fits c (fend c lo xs) ys hi"
proof (induction xs arbitrary: lo)
  case (Cons a xs)
  have "fend c lo (a # xs) = fend c (a + c a) xs" by (auto simp: fend_def last_opt_Cons opt_conv)
  then show ?case using Cons.IH by auto
qed (simp add: fend_def)

lemma fits_mono: "fits c lo xs hi \<Longrightarrow> lo' \<le> lo \<Longrightarrow> hi \<le> hi' \<Longrightarrow> fits c lo' xs hi'"
  by (induction xs arbitrary: lo lo') auto

lemma fits_hd: "fits c lo xs hi \<Longrightarrow> xs \<noteq> [] \<Longrightarrow> lo' \<le> hd xs \<Longrightarrow> fits c lo' xs hi"
  by (cases xs) auto

lemma fits_cong: "(\<And>a. a \<in> set xs \<Longrightarrow> c' a = c a) \<Longrightarrow> fits c' lo xs hi = fits c lo xs hi"
  by (induction xs arbitrary: lo) auto

lemma fits_mem: "fits c lo xs hi \<Longrightarrow> a \<in> set xs \<Longrightarrow> lo \<le> a \<and> a + c a \<le> hi"
proof (induction xs arbitrary: lo)
  case (Cons b xs)
  then show ?case using fits_le [of c "b + c b" xs hi] by fastforce
qed simp

lemma fits_middle: "fits c lo (as @ a # bs) hi \<longleftrightarrow> fits c lo as a \<and> fits c (a + c a) bs hi"
proof (induction as arbitrary: lo)
  case (Cons b as)
  then show ?case by simp
qed simp

lemma fits_distinct: "fits c lo xs hi \<Longrightarrow> (\<And>a. a \<in> set xs \<Longrightarrow> 0 < c a) \<Longrightarrow> distinct xs \<and> sorted xs"
proof (induction xs arbitrary: lo)
  case (Cons a xs)
  have "a < b" if "b \<in> set xs" for b using fits_mem [of c "a + c a" xs hi b] Cons.prems(1) Cons.prems(2) [of a] that by fastforce
  then show ?case using Cons by (auto simp: less_imp_le)
qed simp

text \<open>Two blocks do not overlap.\<close>

lemma fits_disjoint:
  assumes "fits c lo xs hi" "a \<in> set xs" "b \<in> set xs" "a < b" "\<And>x. x \<in> set xs \<Longrightarrow> 0 < c x"
  shows "a + c a \<le> b"
  using assms
proof (induction xs arbitrary: lo)
  case (Cons x xs)
  have rest: "fits c (x + c x) xs hi" using Cons.prems(1) by simp
  have "x < y" if "y \<in> set xs" for y using fits_mem [OF rest that] Cons.prems(5) [of x] by simp
  then consider "a = x" "b \<in> set xs" | "a \<in> set xs" "b \<in> set xs" using Cons.prems(2-4) by fastforce
  then show ?case
  proof cases
    case 1
    then show ?thesis using fits_mem [OF rest] by blast
  next
    case 2
    then show ?thesis using Cons.IH [OF rest] Cons.prems(4,5) by simp
  qed
qed simp

end
