(* ===== verification/RingInv.thy ===== *)
theory RingInv
  imports RingLinks
begin

text \<open>
  The invariant \<open>ring\<close> of the ring buffer, relating it to two lists by age, the nodes that are being read
  and the nodes that are written or committed, and the effect of the pointer code on the access
  functions of its heap.
\<close>

subsection \<open>Access functions\<close>

definition fwd :: "ring_heap \<Rightarrow> addr \<Rightarrow> addr" where "fwd H a = chain_forward (the (H a))"
definition bwd :: "ring_heap \<Rightarrow> addr \<Rightarrow> addr" where "bwd H a = chain_backward (the (H a))"
definition newer :: "ring_heap \<Rightarrow> addr \<Rightarrow> ptr" where "newer H a = time_newer (the (H a))"
definition older :: "ring_heap \<Rightarrow> addr \<Rightarrow> ptr" where "older H a = time_older (the (H a))"
definition stat :: "ring_heap \<Rightarrow> addr \<Rightarrow> ring_buffer_node_state" where "stat H a = nstate (the (H a))"
definition dlen :: "ring_heap \<Rightarrow> addr \<Rightarrow> size_t" where "dlen H a = token_size (the (H a))"

definition node_upd :: "addr \<Rightarrow> (ring_node \<Rightarrow> ring_node) \<Rightarrow> ring_heap \<Rightarrow> ring_heap" where
  "node_upd a f H = H(a \<mapsto> f (the (H a)))"

lemma the_node [simp]: "chain_forward (the (H a)) = fwd H a" "chain_backward (the (H a)) = bwd H a"
  "time_newer (the (H a)) = newer H a" "time_older (the (H a)) = older H a" "nstate (the (H a)) = stat H a"
  "token_size (the (H a)) = dlen H a"
  by (simp_all add: fwd_def bwd_def newer_def older_def stat_def dlen_def)

lemma node_upd_fields:
  "fwd (node_upd a f H) = (fwd H)(a := chain_forward (f (the (H a))))"
  "bwd (node_upd a f H) = (bwd H)(a := chain_backward (f (the (H a))))"
  "newer (node_upd a f H) = (newer H)(a := time_newer (f (the (H a))))"
  "older (node_upd a f H) = (older H)(a := time_older (f (the (H a))))"
  "stat (node_upd a f H) = (stat H)(a := nstate (f (the (H a))))"
  "dlen (node_upd a f H) = (dlen H)(a := token_size (f (the (H a))))"
  unfolding node_upd_def fun_eq_iff fwd_def bwd_def newer_def older_def stat_def dlen_def by (simp_all del: the_node)

lemma node_set:
  "fwd (node_upd a (\<lambda>n. n\<lparr>chain_forward := p\<rparr>) H) = (fwd H)(a := p)"
  "bwd (node_upd a (\<lambda>n. n\<lparr>chain_forward := p\<rparr>) H) = bwd H"
  "newer (node_upd a (\<lambda>n. n\<lparr>chain_forward := p\<rparr>) H) = newer H"
  "older (node_upd a (\<lambda>n. n\<lparr>chain_forward := p\<rparr>) H) = older H"
  "stat (node_upd a (\<lambda>n. n\<lparr>chain_forward := p\<rparr>) H) = stat H"
  "dlen (node_upd a (\<lambda>n. n\<lparr>chain_forward := p\<rparr>) H) = dlen H"
  "fwd (node_upd a (\<lambda>n. n\<lparr>chain_backward := q\<rparr>) H) = fwd H"
  "bwd (node_upd a (\<lambda>n. n\<lparr>chain_backward := q\<rparr>) H) = (bwd H)(a := q)"
  "newer (node_upd a (\<lambda>n. n\<lparr>chain_backward := q\<rparr>) H) = newer H"
  "older (node_upd a (\<lambda>n. n\<lparr>chain_backward := q\<rparr>) H) = older H"
  "stat (node_upd a (\<lambda>n. n\<lparr>chain_backward := q\<rparr>) H) = stat H"
  "dlen (node_upd a (\<lambda>n. n\<lparr>chain_backward := q\<rparr>) H) = dlen H"
  "fwd (node_upd a (\<lambda>n. n\<lparr>time_newer := r\<rparr>) H) = fwd H"
  "bwd (node_upd a (\<lambda>n. n\<lparr>time_newer := r\<rparr>) H) = bwd H"
  "newer (node_upd a (\<lambda>n. n\<lparr>time_newer := r\<rparr>) H) = (newer H)(a := r)"
  "older (node_upd a (\<lambda>n. n\<lparr>time_newer := r\<rparr>) H) = older H"
  "stat (node_upd a (\<lambda>n. n\<lparr>time_newer := r\<rparr>) H) = stat H"
  "dlen (node_upd a (\<lambda>n. n\<lparr>time_newer := r\<rparr>) H) = dlen H"
  "fwd (node_upd a (\<lambda>n. n\<lparr>time_older := s\<rparr>) H) = fwd H"
  "bwd (node_upd a (\<lambda>n. n\<lparr>time_older := s\<rparr>) H) = bwd H"
  "newer (node_upd a (\<lambda>n. n\<lparr>time_older := s\<rparr>) H) = newer H"
  "older (node_upd a (\<lambda>n. n\<lparr>time_older := s\<rparr>) H) = (older H)(a := s)"
  "stat (node_upd a (\<lambda>n. n\<lparr>time_older := s\<rparr>) H) = stat H"
  "dlen (node_upd a (\<lambda>n. n\<lparr>time_older := s\<rparr>) H) = dlen H"
  "fwd (node_upd a (\<lambda>n. n\<lparr>nstate := t\<rparr>) H) = fwd H"
  "bwd (node_upd a (\<lambda>n. n\<lparr>nstate := t\<rparr>) H) = bwd H"
  "newer (node_upd a (\<lambda>n. n\<lparr>nstate := t\<rparr>) H) = newer H"
  "older (node_upd a (\<lambda>n. n\<lparr>nstate := t\<rparr>) H) = older H"
  "stat (node_upd a (\<lambda>n. n\<lparr>nstate := t\<rparr>) H) = (stat H)(a := t)"
  "dlen (node_upd a (\<lambda>n. n\<lparr>nstate := t\<rparr>) H) = dlen H"
  "fwd (node_upd a (\<lambda>n. n\<lparr>token_size := u\<rparr>) H) = fwd H"
  "bwd (node_upd a (\<lambda>n. n\<lparr>token_size := u\<rparr>) H) = bwd H"
  "newer (node_upd a (\<lambda>n. n\<lparr>token_size := u\<rparr>) H) = newer H"
  "older (node_upd a (\<lambda>n. n\<lparr>token_size := u\<rparr>) H) = older H"
  "stat (node_upd a (\<lambda>n. n\<lparr>token_size := u\<rparr>) H) = stat H"
  "dlen (node_upd a (\<lambda>n. n\<lparr>token_size := u\<rparr>) H) = (dlen H)(a := u)"
  by (auto simp: node_upd_fields fun_eq_iff)

lemma node_upd_dom [simp]: "dom (node_upd a f H) = insert a (dom H)"
  by (simp add: node_upd_def)

lemma ring_store_eq: "a \<in> dom H \<Longrightarrow> ring_store a f H = Some (node_upd a f H)"
  by (auto simp: ring_store_def node_upd_def)

lemma read_node: "a \<in> dom H \<Longrightarrow> H a \<bind> g = g (the (H a))"
  by auto

lemma claim_dom [simp]: "dom (ring_claim a H) = insert a (dom H)"
  by (auto simp: ring_claim_def split: option.splits)

lemma claim_other: "b \<noteq> a \<Longrightarrow> the (ring_claim a H b) = the (H b)"
  by (simp add: ring_claim_def split: option.split)

lemma claim_live: "a \<in> dom H \<Longrightarrow> ring_claim a H = H"
  by (auto simp: ring_claim_def)

lemma claim_fields:
  "b \<noteq> a \<Longrightarrow> fwd (ring_claim a H) b = fwd H b" "b \<noteq> a \<Longrightarrow> bwd (ring_claim a H) b = bwd H b"
  "b \<noteq> a \<Longrightarrow> newer (ring_claim a H) b = newer H b" "b \<noteq> a \<Longrightarrow> older (ring_claim a H) b = older H b"
  "b \<noteq> a \<Longrightarrow> stat (ring_claim a H) b = stat H b" "b \<noteq> a \<Longrightarrow> dlen (ring_claim a H) b = dlen H b"
  unfolding fwd_def bwd_def newer_def older_def stat_def dlen_def by (simp_all add: claim_other del: the_node)

lemmas heap_simps = ring_store_eq read_node node_set

subsection \<open>The pointer code\<close>

lemma delete_chain_effect:
  assumes "a \<in> dom H" "fwd H a \<in> dom H" "bwd H a \<in> dom H" "fwd H a \<noteq> a" "bwd H a \<noteq> a"
    "\<And>b. newer H a = Some b \<Longrightarrow> b \<in> dom H \<and> b \<noteq> a" "\<And>b. older H a = Some b \<Longrightarrow> b \<in> dom H \<and> b \<noteq> a"
  shows "\<exists>H'. ring_buffer_delete_node_update_chain a H = Some H' \<and> dom H' = dom H \<and>
    fwd H' = (fwd H)(bwd H a := fwd H a) \<and> bwd H' = (bwd H)(fwd H a := bwd H a) \<and>
    newer H' = upd_opt (newer H) (older H a) (newer H a) \<and> older H' = upd_opt (older H) (newer H a) (older H a) \<and>
    stat H' = stat H \<and> dlen H' = dlen H"
proof -
  let ?H1 = "node_upd (bwd H a) (\<lambda>b. b\<lparr>chain_forward := fwd H a\<rparr>) H"
  let ?H2 = "node_upd (fwd H a) (\<lambda>b. b\<lparr>chain_backward := bwd H a\<rparr>) ?H1"
  let ?H3 = "case older H a of None \<Rightarrow> ?H2 | Some x \<Rightarrow> node_upd x (\<lambda>n. n\<lparr>time_newer := newer H a\<rparr>) ?H2"
  let ?H4 = "case newer H a of None \<Rightarrow> ?H3 | Some n \<Rightarrow> node_upd n (\<lambda>x. x\<lparr>time_older := older H a\<rparr>) ?H3"
  have d: "insert x (dom H) = dom H" if "x \<in> dom H" for x using that by blast
  have "ring_buffer_delete_node_update_chain a H = Some ?H4"
    using assms unfolding ring_buffer_delete_node_update_chain_def
    by (cases "older H a"; cases "newer H a") (simp_all add: heap_simps domIff [symmetric] del: domIff)
  moreover have "dom ?H4 = dom H" using assms d by (cases "older H a"; cases "newer H a") (simp_all del: domIff)
  ultimately show ?thesis using assms
    by (intro exI [of _ ?H4]) (cases "older H a"; cases "newer H a"; simp add: heap_simps)
qed

lemma insert_effect:
  assumes "HEAD rb = Some h" "h \<in> dom H" "fwd H h \<in> dom H" "a \<noteq> h" "a \<noteq> fwd H h"
  shows "\<exists>H'. ring_buffer_insert_new_node rb a len H = Some (rb\<lparr>HEAD := Some a\<rparr>, H') \<and> dom H' = insert a (dom H) \<and>
    fwd H' = (fwd H)(a := fwd H h, h := a) \<and> bwd H' = (bwd H)(a := h, fwd H h := a) \<and>
    newer H' = (newer H)(h := Some a, a := None) \<and> older H' = (older H)(a := Some h) \<and>
    stat H' = (stat H)(a := stat_writing) \<and> dlen H' = (dlen H)(a := len)"
proof -
  let ?C = "ring_claim a H"
  let ?H1 = "node_upd a (\<lambda>n. n\<lparr>token_size := len\<rparr>) (node_upd a (\<lambda>n. n\<lparr>nstate := stat_writing\<rparr>) ?C)"
  let ?H2 = "node_upd a (\<lambda>n. n\<lparr>chain_backward := h\<rparr>) (node_upd a (\<lambda>n. n\<lparr>chain_forward := fwd H h\<rparr>) ?H1)"
  let ?H3 = "node_upd h (\<lambda>n. n\<lparr>chain_forward := a\<rparr>) (node_upd (fwd H h) (\<lambda>n. n\<lparr>chain_backward := a\<rparr>) ?H2)"
  let ?H4 = "node_upd h (\<lambda>n. n\<lparr>time_newer := Some a\<rparr>) (node_upd a (\<lambda>n. n\<lparr>time_older := Some h\<rparr>) (node_upd a (\<lambda>n. n\<lparr>time_newer := None\<rparr>) ?H3))"
  note C = claim_fields [of _ a H]
  have "ring_buffer_insert_new_node rb a len H = Some (rb\<lparr>HEAD := Some a\<rparr>, ?H4)"
    using assms C unfolding ring_buffer_insert_new_node_def ring_buffer_update_time_for_new_node_def Let_def
    by (simp add: heap_simps domIff [symmetric] del: domIff)
  moreover have "dom ?H4 = insert a (dom H)" using assms by (auto simp del: domIff)
  ultimately show ?thesis using assms C
    by (intro exI [of _ ?H4]) (simp add: heap_simps fun_eq_iff)
qed

lemma overwrite_effect:
  assumes "s \<in> dom H" "e \<in> dom H" "fwd H e \<in> dom H" "bwd H s \<in> dom H" "HEAD rb = Some h" "h \<in> dom H"
    "a \<noteq> fwd H e" "a \<noteq> bwd H s" "a \<noteq> h" "fwd H e \<noteq> s" "fwd H e \<noteq> e" "bwd H s \<noteq> s" "bwd H s \<noteq> e"
    "\<And>b. newer H e = Some b \<Longrightarrow> b \<in> dom H \<and> b \<noteq> s \<and> b \<noteq> e \<and> b \<noteq> a"
    "\<And>b. older H s = Some b \<Longrightarrow> b \<in> dom H \<and> b \<noteq> s \<and> b \<noteq> e \<and> b \<noteq> a"
  assumes rb'_def: "rb' = (if TAIL rb = oldest_reserve rb then rb\<lparr>TAIL := newer H e\<rparr> else rb)\<lparr>oldest_reserve := newer H e,
      HEAD := Some a, committed := committed rb - k, writing := writing rb + 1\<rparr>"
  shows "\<exists>H'. ring_buffer_perform_overwrite rb a s e k len H = Some (Some a, rb', H') \<and> dom H' = insert a (dom H) \<and>
    fwd H' = (fwd H)(a := fwd H e, bwd H s := a) \<and> bwd H' = (bwd H)(fwd H e := a, a := bwd H s) \<and>
    newer H' = (upd_opt (newer H) (older H s) (newer H e))(a := None, h := Some a) \<and>
    older H' = (upd_opt (older H) (newer H e) (older H s))(a := Some h) \<and>
    stat H' = (stat H)(a := stat_writing) \<and> dlen H' = (dlen H)(a := len)"
proof -
  let ?C = "ring_claim a H"
  let ?H1 = "node_upd a (\<lambda>n. n\<lparr>chain_forward := fwd H e\<rparr>) ?C"
  let ?H2 = "node_upd a (\<lambda>n. n\<lparr>chain_backward := bwd H s\<rparr>) (node_upd (fwd H e) (\<lambda>n. n\<lparr>chain_backward := a\<rparr>) ?H1)"
  let ?H3 = "node_upd (bwd H s) (\<lambda>n. n\<lparr>chain_forward := a\<rparr>) ?H2"
  let ?H4 = "case older H s of None \<Rightarrow> ?H3 | Some x \<Rightarrow> node_upd x (\<lambda>n. n\<lparr>time_newer := newer H e\<rparr>) ?H3"
  let ?H5 = "case newer H e of None \<Rightarrow> ?H4 | Some x \<Rightarrow> node_upd x (\<lambda>n. n\<lparr>time_older := older H s\<rparr>) ?H4"
  let ?H6 = "node_upd h (\<lambda>n. n\<lparr>time_newer := Some a\<rparr>) (node_upd a (\<lambda>n. n\<lparr>time_older := Some h\<rparr>) (node_upd a (\<lambda>n. n\<lparr>time_newer := None\<rparr>) ?H5))"
  let ?H7 = "node_upd a (\<lambda>n. n\<lparr>nstate := stat_writing\<rparr>) (node_upd a (\<lambda>n. n\<lparr>token_size := len\<rparr>) ?H6)"
  have C: "b \<in> dom H \<Longrightarrow> fwd ?C b = fwd H b" "b \<in> dom H \<Longrightarrow> bwd ?C b = bwd H b" "b \<in> dom H \<Longrightarrow> newer ?C b = newer H b"
    "b \<in> dom H \<Longrightarrow> older ?C b = older H b" for b
    using claim_fields [of b a H] claim_live [of a H] by (cases "b = a"; simp)+
  note C' = claim_fields [of _ a H]
  have "ring_buffer_perform_overwrite rb a s e k len H = Some (Some a, rb', ?H7)"
    using assms C unfolding ring_buffer_perform_overwrite_def ring_buffer_update_time_for_new_node_def Let_def rb'_def
    by (cases "older H s"; cases "newer H e") (simp_all add: heap_simps domIff [symmetric] del: domIff)
  moreover have "dom ?H7 = insert a (dom H)" using assms by (cases "older H s"; cases "newer H e") (auto simp del: domIff)
  ultimately show ?thesis using assms(1-15) C'
    by (intro exI [of _ ?H7]) (cases "older H s"; cases "newer H e"; simp add: heap_simps fun_eq_iff)
qed

lemma empty_effect:
  assumes "node_size \<le> capacity rb"
  shows "\<exists>H'. ring_buffer_reserve_empty rb len node_size H = Some (Some (cache rb),
      rb\<lparr>HEAD := Some (cache rb), TAIL := Some (cache rb), oldest_reserve := Some (cache rb), writing := writing rb + 1\<rparr>, H') \<and>
    dom H' = insert (cache rb) (dom H) \<and> fwd H' (cache rb) = cache rb \<and> bwd H' (cache rb) = cache rb \<and>
    newer H' (cache rb) = None \<and> older H' (cache rb) = None \<and>
    stat H' = (stat H)(cache rb := stat_writing) \<and> dlen H' = (dlen H)(cache rb := len)"
proof -
  let ?a = "cache rb"
  let ?H1 = "node_upd ?a (\<lambda>n. n\<lparr>token_size := len\<rparr>) (node_upd ?a (\<lambda>n. n\<lparr>nstate := stat_writing\<rparr>) (ring_claim ?a H))"
  let ?H2 = "node_upd ?a (\<lambda>n. n\<lparr>chain_backward := ?a\<rparr>) (node_upd ?a (\<lambda>n. n\<lparr>chain_forward := ?a\<rparr>) ?H1)"
  let ?H3 = "node_upd ?a (\<lambda>n. n\<lparr>time_older := None\<rparr>) (node_upd ?a (\<lambda>n. n\<lparr>time_newer := None\<rparr>) ?H2)"
  have "ring_buffer_reserve_empty rb len node_size H = Some (Some ?a,
      rb\<lparr>HEAD := Some ?a, TAIL := Some ?a, oldest_reserve := Some ?a, writing := writing rb + 1\<rparr>, ?H3)"
    using assms unfolding ring_buffer_reserve_empty_def Let_def by (simp add: heap_simps)
  then show ?thesis using claim_fields [of _ ?a H]
    by (intro exI [of _ ?H3]) (simp add: heap_simps fun_eq_iff)
qed

subsection \<open>Sizes\<close>

lemma align8:
  fixes x :: size_t
  shows "unat (x AND NOT 7) = unat x - unat x mod 8"
proof -
  have m: "(7 :: size_t) = mask 3" by (simp add: mask_eq_exp_minus_1)
  have "x AND NOT (7 :: size_t) = x AND NOT (take_bit 3 x)"
    unfolding m by (rule bit_word_eqI) (auto simp: bit_simps)
  also have "\<dots> = x - take_bit 3 x"
    by (rule sym, rule disjunctive_diff) (auto simp: bit_simps)
  finally have e: "x AND NOT 7 = x - take_bit 3 x" .
  have "unat (take_bit 3 x) = take_bit 3 (unat x)" by (simp only: unsigned_take_bit_eq)
  then have u: "unat (take_bit 3 x) = unat x mod 8" by (simp only: take_bit_eq_mod) simp
  then have "take_bit 3 x \<le> x" by (simp add: word_le_nat_alt)
  then show ?thesis using u e by (simp add: unat_sub)
qed

text \<open>Lengths for which the cost of a node does not wrap around.\<close>

definition sized :: "size_t \<Rightarrow> bool" where
  "sized len \<longleftrightarrow> unat len + 55 < 2 ^ 64"

lemma node_cost_nat:
  assumes "sized len"
  shows "unat (eaf_ringbuffer_node_cost len) = (unat len + 55) div 8 * 8"
proof -
  have "unat (48 + len + 7 :: size_t) = unat len + 55"
  proof -
    have "(48 + len + 7 :: size_t) = of_nat (unat len + 55)" by simp
    then show ?thesis using assms unat_of_nat [of "unat len + 55", where 'a = 64] by (simp only: sized_def) simp
  qed
  moreover have "eaf_ringbuffer_node_cost len = (48 + len + 7) AND NOT 7"
    by (simp add: eaf_ringbuffer_node_cost_def EAF_ALIGN_def sizeof_ring_node_def sizeof_pointer_def)
  ultimately show ?thesis using align8 [of "48 + len + 7"] by (simp only: minus_mod_eq_div_mult)
qed

lemma node_cost_bounds:
  assumes "sized len"
  shows "unat len + 48 \<le> unat (eaf_ringbuffer_node_cost len)" "unat (eaf_ringbuffer_node_cost len) \<le> unat len + 55"
    "8 dvd unat (eaf_ringbuffer_node_cost len)" "0 < unat (eaf_ringbuffer_node_cost len)"
  using node_cost_nat [OF assms] by auto

lemma ptr_diff_nat:
  assumes "b \<le> a" "a < 2 ^ 64"
  shows "unat (ptr_diff a b) = a - b"
proof -
  have "ptr_diff a b = of_nat (a - b)" using assms(1) by (simp add: ptr_diff_def of_nat_diff)
  then have "unat (ptr_diff a b) = (a - b) mod 2 ^ 64" using unat_of_nat [of "a - b", where 'a = 64] by simp
  then show ?thesis using assms by simp
qed

subsection \<open>The invariant\<close>

definition ncost :: "ring_heap \<Rightarrow> addr \<Rightarrow> nat" where
  "ncost H a = unat (eaf_ringbuffer_node_cost (dlen H a))"

definition limit :: "ringbuffer \<Rightarrow> addr" where
  "limit rb = cache rb + unat (capacity rb)"

text \<open>\<open>rs\<close>: the nodes being read, oldest first; \<open>ws\<close>: the younger ones, written or committed; \<open>ps\<close>: all of
  them by position.\<close>

definition ring :: "ringbuffer \<Rightarrow> ring_heap \<Rightarrow> addr list \<Rightarrow> addr list \<Rightarrow> addr list \<Rightarrow> bool" where
  "ring rb H rs ws ps \<longleftrightarrow>
     distinct (rs @ ws) \<and> set ps = set (rs @ ws) \<and> distinct ps \<and> set ps \<subseteq> dom H \<and>
     circ (fwd H) (bwd H) ps \<and> links (newer H) (older H) None (rs @ ws) None \<and>
     fits (ncost H) (cache rb) ps (limit rb) \<and> limit rb < 2 ^ 64 \<and> (\<forall>a \<in> set ps. sized (dlen H a)) \<and>
     TAIL rb = hd_opt (rs @ ws) \<and> HEAD rb = last_opt (rs @ ws) \<and> oldest_reserve rb = hd_opt ws \<and>
     (\<forall>a \<in> set rs. stat H a = stat_reading) \<and> (\<forall>a \<in> set ws. stat H a \<noteq> stat_reading) \<and>
     reading rb = of_nat (length rs) \<and>
     writing rb = of_nat (length (filter (\<lambda>a. stat H a = stat_writing) ws)) \<and>
     committed rb = of_nat (length (filter (\<lambda>a. stat H a = stat_committed) ws))"

lemma ringD:
  assumes "ring rb H rs ws ps"
  shows "distinct (rs @ ws)" "set ps = set (rs @ ws)" "distinct ps" "set ps \<subseteq> dom H" "circ (fwd H) (bwd H) ps"
    "links (newer H) (older H) None (rs @ ws) None" "fits (ncost H) (cache rb) ps (limit rb)" "limit rb < 2 ^ 64"
    "\<And>a. a \<in> set ps \<Longrightarrow> sized (dlen H a)" "TAIL rb = hd_opt (rs @ ws)" "HEAD rb = last_opt (rs @ ws)" "oldest_reserve rb = hd_opt ws"
    "\<And>a. a \<in> set rs \<Longrightarrow> stat H a = stat_reading" "\<And>a. a \<in> set ws \<Longrightarrow> stat H a \<noteq> stat_reading"
    "reading rb = of_nat (length rs)" "writing rb = of_nat (length (filter (\<lambda>a. stat H a = stat_writing) ws))"
    "committed rb = of_nat (length (filter (\<lambda>a. stat H a = stat_committed) ws))"
  using assms unfolding ring_def by auto

lemma ring_cost: "ring rb H rs ws ps \<Longrightarrow> a \<in> set ps \<Longrightarrow> 0 < ncost H a"
  using ringD(9) node_cost_bounds(4) unfolding ncost_def by blast

text \<open>No two nodes overlap.\<close>

lemma ring_disjoint:
  assumes "ring rb H rs ws ps" "a \<in> set (rs @ ws)" "b \<in> set (rs @ ws)" "a \<noteq> b"
  shows "a + ncost H a \<le> b \<or> b + ncost H b \<le> a"
  using fits_disjoint [OF ringD(7) [OF assms(1)], of a b] fits_disjoint [OF ringD(7) [OF assms(1)], of b a]
    ring_cost [OF assms(1)] assms(2-4) ringD(2) [OF assms(1)] by (cases "a < b") auto

lemma ring_live: "ring rb H rs ws ps \<Longrightarrow> a \<in> set (rs @ ws) \<Longrightarrow> a \<in> dom H"
  using ringD(2,4) by blast

lemma filter_stat_cong: "(\<And>a. a \<in> set ws \<Longrightarrow> g a = f a) \<Longrightarrow> filter (\<lambda>a. g a = x) ws = filter (\<lambda>a. f a = x) ws"
  by (rule filter_cong) auto

end
