(* ===== verification/RingOps.thy ===== *)
theory RingOps
  imports RingInv
begin

text \<open>
  Each operation of the ring buffer keeps the invariant \<open>ring\<close> and has the effect of its description on
  the two lists of nodes.
\<close>

subsection \<open>Reserving\<close>

lemma ncost_upd: "dlen H' = (dlen H)(a := len) \<Longrightarrow> ncost H' = (ncost H)(a := unat (eaf_ringbuffer_node_cost len))"
  by (simp add: ncost_def fun_eq_iff)

text \<open>What reserving at \<open>a\<close> promises.\<close>

definition reserved :: "ringbuffer \<Rightarrow> ring_heap \<Rightarrow> addr list \<Rightarrow> addr list \<Rightarrow> addr \<Rightarrow> size_t \<Rightarrow> ringbuffer \<Rightarrow> ring_heap \<Rightarrow> bool" where
  "reserved rb H rs ws a len rb' H' \<longleftrightarrow> (\<exists>ps'. ring rb' H' rs (ws @ [a]) ps') \<and>
     stat H' = (stat H)(a := stat_writing) \<and> dlen H' = (dlen H)(a := len) \<and>
     cache rb' = cache rb \<and> capacity rb' = capacity rb"

lemma take_good:
  assumes "ring rb H rs ws ps" "ps = as @ h # bs" "HEAD rb = Some h" "a \<notin> set ps" "sized len"
    "ps' = as @ h # a # bs \<or> bs = [] \<and> ps' = a # as @ [h]"
    "fits ((ncost H)(a := unat (eaf_ringbuffer_node_cost len))) (cache rb) ps' (limit rb)"
  shows "\<exists>rb' H'. ring_take rb a len H = Some (Some a, rb', H') \<and> reserved rb H rs ws a len rb' H'"
proof -
  note r = ringD [OF assms(1)]
  have h: "h \<in> set ps" "h \<in> dom H" using assms(2) r(4) by auto
  have circ: "circ (fwd H) (bwd H) ([h] @ (bs @ as))" using r(5) circ_rotate [of "fwd H" "bwd H" as "h # bs"] assms(2) by simp
  have "fwd H h \<in> set ps"
  proof (cases "bs @ as = []")
    case True
    then have "fwd H h = h" using circ by (auto simp: circ_def)
    then show ?thesis using h by simp
  next
    case False
    then have "fwd H h = hd (bs @ as)" using circ_ends(3) [OF circ] by simp
    then show ?thesis using list.set_sel(1) [OF False] assms(2) by auto
  qed
  then have f: "fwd H h \<in> dom H" "a \<noteq> fwd H h" "a \<noteq> h" using r(4) assms(4) h(1) by auto
  let ?rb = "rb\<lparr>writing := writing rb + 1\<rparr>"
  obtain H' where H': "ring_buffer_insert_new_node ?rb a len H = Some (?rb\<lparr>HEAD := Some a\<rparr>, H')" "dom H' = insert a (dom H)"
    "fwd H' = (fwd H)(a := fwd H h, h := a)" "bwd H' = (bwd H)(a := h, fwd H h := a)"
    "newer H' = (newer H)(h := Some a, a := None)" "older H' = (older H)(a := Some h)"
    "stat H' = (stat H)(a := stat_writing)" "dlen H' = (dlen H)(a := len)"
    using insert_effect [of ?rb h H a len] assms(3) h(2) f by auto
  define rb' where "rb' = ring_buffer_reserve_update_oldest_reserve a (?rb\<lparr>HEAD := Some a\<rparr>)"
  have rb': "cache rb' = cache rb" "capacity rb' = capacity rb" "HEAD rb' = Some a" "TAIL rb' = TAIL rb"
    "oldest_reserve rb' = hd_opt (ws @ [a])" "writing rb' = writing rb + 1" "reading rb' = reading rb" "committed rb' = committed rb"
    "limit rb' = limit rb"
    using r(12) by (cases ws; simp add: rb'_def ring_buffer_reserve_update_oldest_reserve_def limit_def)+
  have ts: "rs @ ws \<noteq> []" "last (rs @ ws) = h" "last_opt (rs @ ws) = Some h"
    using r(11) assms(3) by (auto simp: last_opt_def split: if_splits)
  have a: "a \<notin> set (rs @ ws)" using r(2) assms(4) by simp
  have c1: "circ (fwd H') (bwd H') (as @ h # a # bs)"
    by (rule circ_insert [OF _ _ _ H'(3,4)]) (use r(3,5) assms(2,4) in simp_all)
  have c2: "circ (fwd H') (bwd H') ps'" using assms(6)
  proof
    assume *: "bs = [] \<and> ps' = a # as @ [h]"
    then show ?thesis using c1 circ_rotate [of "fwd H'" "bwd H'" "as @ [h]" "[a]"] by simp
  qed (use c1 in simp)
  have l: "links (newer H') (older H') None ((rs @ ws) @ [a]) None"
    using links_snoc [OF r(6,1) ts(1) a] unfolding H'(5,6) ts by simp
  have sp: "set ps' = insert a (set ps)" "distinct ps'"
    using assms(6) r(3) assms(4) unfolding assms(2) by (elim disjE conjE; auto)+
  have "ring rb' H' rs (ws @ [a]) ps'"
    unfolding ring_def
  proof (intro conjI)
    show "distinct (rs @ ws @ [a])" using r(1) a by auto
    show "set ps' = set (rs @ ws @ [a])" using sp(1) r(2) by simp
    show "distinct ps'" by (rule sp(2))
    show "set ps' \<subseteq> dom H'" using r(4) unfolding sp(1) H'(2) by blast
    show "circ (fwd H') (bwd H') ps'" by (rule c2)
    show "links (newer H') (older H') None (rs @ ws @ [a]) None" using l by simp
    show "fits (ncost H') (cache rb') ps' (limit rb')" using assms(7) rb' ncost_upd [OF H'(8)] by simp
    show "limit rb' < 2 ^ 64" using r(8) rb' by simp
    show "\<forall>a \<in> set ps'. sized (dlen H' a)" using r(9) assms(5) unfolding sp(1) H'(8) by auto
    show "TAIL rb' = hd_opt (rs @ ws @ [a])" using r(10) rb' ts(1) by (auto simp: hd_opt_append)
    show "HEAD rb' = last_opt (rs @ ws @ [a])" using rb' by (simp add: last_opt_append)
    show "oldest_reserve rb' = hd_opt (ws @ [a])" using rb' by simp
    show "\<forall>a \<in> set rs. stat H' a = stat_reading" using r(13) a H'(7) by auto
    show "\<forall>a \<in> set (ws @ [a]). stat H' a \<noteq> stat_reading" using r(14) H'(7) by auto
    show "reading rb' = of_nat (length rs)" using rb' r(15) by simp
    have same: "filter (\<lambda>x. stat H' x = y) ws = filter (\<lambda>x. stat H x = y) ws" for y
      by (rule filter_stat_cong) (use a H'(7) in auto)
    show "writing rb' = of_nat (length (filter (\<lambda>x. stat H' x = stat_writing) (ws @ [a])))"
      using rb' r(16) same H'(7) by simp
    show "committed rb' = of_nat (length (filter (\<lambda>x. stat H' x = stat_committed) (ws @ [a])))"
      using rb' r(17) same H'(7) by simp
  qed
  then have "reserved rb H rs ws a len rb' H'" using H'(7,8) rb' by (auto simp: reserved_def)
  moreover have "ring_take rb a len H = Some (Some a, rb', H')" using H'(1) by (simp add: ring_take_def rb'_def)
  ultimately show ?thesis by blast
qed

lemma empty_good:
  assumes "TAIL rb = None" "limit rb < 2 ^ 64" "writing rb = 0" "reading rb = 0" "committed rb = 0" "sized len"
    "eaf_ringbuffer_node_cost len \<le> capacity rb"
  shows "\<exists>rb' H'. ring_buffer_reserve_empty rb len (eaf_ringbuffer_node_cost len) H = Some (Some (cache rb), rb', H') \<and>
    reserved rb H [] [] (cache rb) len rb' H'"
proof -
  let ?a = "cache rb"
  let ?rb = "rb\<lparr>HEAD := Some ?a, TAIL := Some ?a, oldest_reserve := Some ?a, writing := writing rb + 1\<rparr>"
  obtain H' where H': "ring_buffer_reserve_empty rb len (eaf_ringbuffer_node_cost len) H = Some (Some ?a, ?rb, H')"
    "dom H' = insert ?a (dom H)" "fwd H' ?a = ?a" "bwd H' ?a = ?a" "newer H' ?a = None" "older H' ?a = None"
    "stat H' = (stat H)(?a := stat_writing)" "dlen H' = (dlen H)(?a := len)"
    using empty_effect [OF assms(7), of len H] by blast
  have "ring ?rb H' [] [?a] [?a]"
    using assms H' node_cost_bounds [OF assms(6)]
    by (auto simp: ring_def circ_def limit_def ncost_def word_le_nat_alt)
  then show ?thesis using H' by (auto simp: reserved_def)
qed

lemma fits_insert:
  assumes "fits c lo xs m" "m \<le> a" "fits c (a + k) ys hi" "0 < k" "\<And>x. x \<in> set xs \<Longrightarrow> 0 < c x"
  shows "a \<notin> set (xs @ ys)" "fits (c(a := k)) lo (xs @ a # ys) hi"
proof -
  have x: "x < a" if "x \<in> set xs" for x using fits_mem [OF assms(1) that] assms(2) assms(5) [OF that] by linarith
  have y: "a < y" if "y \<in> set ys" for y using fits_mem [OF assms(3) that] assms(4) by linarith
  show a: "a \<notin> set (xs @ ys)" using x y by auto
  have "fits (c(a := k)) lo xs a" using fits_mono [OF assms(1) order_refl assms(2)] a by (subst fits_cong [where c = c]) auto
  moreover have "fits (c(a := k)) (a + k) ys hi" using assms(3) a by (subst fits_cong [where c = c]) auto
  ultimately show "fits (c(a := k)) lo (xs @ a # ys) hi" by (simp add: fits_middle)
qed

text \<open>The newest node and its neighbour by position.\<close>

lemma ring_head:
  assumes "ring rb H rs ws ps" "rs @ ws \<noteq> []"
  obtains h as bs where "HEAD rb = Some h" "h \<in> dom H" "ps = as @ h # bs" "last (rs @ ws) = h"
    "fwd H h = (if bs = [] then hd ps else hd bs)" "h < fwd H h \<longleftrightarrow> bs \<noteq> []"
    "cache rb \<le> fwd H h" "fwd H h \<le> limit rb" "node_end_of h (the (H h)) = h + ncost H h"
    "fits (ncost H) (cache rb) (as @ [h]) (h + ncost H h)" "fits (ncost H) (h + ncost H h) bs (limit rb)"
proof -
  note r = ringD [OF assms(1)]
  let ?h = "last (rs @ ws)"
  have h: "?h \<in> set ps" unfolding r(2) by (rule last_in_set [OF assms(2)])
  obtain as bs where ps: "ps = as @ ?h # bs" using split_list [OF h] by blast
  have circ: "circ (fwd H) (bwd H) ([?h] @ (bs @ as))" using r(5) circ_rotate [of "fwd H" "bwd H" as "?h # bs"] ps by simp
  have f: "fwd H ?h = (if bs = [] then hd ps else hd bs)"
  proof (cases "bs @ as = []")
    case True
    then show ?thesis using circ ps by (auto simp: circ_def)
  next
    case False
    then have "fwd H ?h = hd (bs @ as)" using circ_ends(3) [OF circ] by simp
    then show ?thesis using ps False by (cases bs; cases as; simp)
  qed
  have fit: "fits (ncost H) (cache rb) as ?h" "fits (ncost H) (?h + ncost H ?h) bs (limit rb)"
    using r(7) ps fits_middle by (metis, metis)
  have less: "?h < fwd H ?h \<longleftrightarrow> bs \<noteq> []"
  proof (cases bs)
    case Nil
    have "hd ps \<le> ?h"
    proof (cases as)
      case (Cons x xs)
      then show ?thesis using fits_mem [OF fit(1), of x] ps by simp
    qed (use ps in simp)
    then show ?thesis using Nil f by simp
  next
    case (Cons b bs')
    then have "?h + ncost H ?h \<le> b" using fits_mem [OF fit(2), of b] by simp
    then show ?thesis using Cons f ring_cost [OF assms(1) h] by simp
  qed
  have "fwd H ?h \<in> set ps"
  proof (cases "bs = []")
    case True
    then show ?thesis using f list.set_sel(1) [of ps] ps by simp
  next
    case False
    then show ?thesis using f list.set_sel(1) [OF False] ps by (metis Un_iff insert_iff list.simps(15) set_append)
  qed
  from fits_mem [OF r(7) this] have bounds: "cache rb \<le> fwd H ?h" "fwd H ?h \<le> limit rb" by simp_all
  have "HEAD rb = Some ?h" using r(11) assms(2) by (simp add: last_opt_def)
  then show thesis
    using that [of ?h as bs] h r(4) ps f less bounds fit by (simp add: fits_middle node_end_of_def ncost_def subset_iff)
qed

lemma reserve_none_empty_good:
  assumes "ring rb H rs ws ps" "rs @ ws \<noteq> []" "sized len"
    "\<And>p rb' H'. ring_buffer_reserve_try_overwrite rb len (eaf_ringbuffer_node_cost len) H = Some (p, rb', H') \<Longrightarrow>
      flags AND eaf_ringbuffer_flag_overwrite \<noteq> 0 \<Longrightarrow> Q p rb' H'"
    "flags AND eaf_ringbuffer_flag_overwrite \<noteq> 0 \<Longrightarrow> ring_buffer_reserve_try_overwrite rb len (eaf_ringbuffer_node_cost len) H \<noteq> None"
    "Q None rb H" "\<And>a rb' H'. reserved rb H rs ws a len rb' H' \<Longrightarrow> Q (Some a) rb' H'"
  shows "\<exists>p rb' H'. ring_buffer_reserve_none_empty rb len (eaf_ringbuffer_node_cost len) flags H = Some (p, rb', H') \<and> Q p rb' H'"
proof -
  note r = ringD [OF assms(1)]
  obtain h as bs where h: "HEAD rb = Some h" "h \<in> dom H" "ps = as @ h # bs" "last (rs @ ws) = h"
    "fwd H h = (if bs = [] then hd ps else hd bs)" "h < fwd H h \<longleftrightarrow> bs \<noteq> []"
    "cache rb \<le> fwd H h" "fwd H h \<le> limit rb" "node_end_of h (the (H h)) = h + ncost H h"
    "fits (ncost H) (cache rb) (as @ [h]) (h + ncost H h)" "fits (ncost H) (h + ncost H h) bs (limit rb)"
    by (rule ring_head [OF assms(1,2)])
  let ?n = "eaf_ringbuffer_node_cost len"
  let ?next = "h + ncost H h"
  note k = node_cost_bounds(4) [OF assms(3)]
  have pos: "0 < ncost H x" if "x \<in> set ps" for x using ring_cost [OF assms(1) that] .
  have next_le: "?next \<le> limit rb" using fits_le [OF h(11)] .
  have take: "\<exists>p rb' H'. ring_take rb a len H = Some (p, rb', H') \<and> Q p rb' H'"
    if "ps' = as @ h # a # bs \<or> bs = [] \<and> ps' = a # as @ [h]" "a \<notin> set ps"
      "fits ((ncost H)(a := unat ?n)) (cache rb) ps' (limit rb)" for a ps'
    using take_good [OF assms(1) h(3,1) that(2) assms(3) that(1,3)] assms(7) by blast
  define other where "other = (if flags AND eaf_ringbuffer_flag_overwrite \<noteq> 0
        then ring_buffer_reserve_try_overwrite rb len ?n H else Some (None, rb, H))"
  have rest: "\<exists>p rb' H'. other = Some (p, rb', H') \<and> Q p rb' H'"
  proof (cases "flags AND eaf_ringbuffer_flag_overwrite = 0")
    case False
    then obtain x where x: "ring_buffer_reserve_try_overwrite rb len ?n H = Some x" using assms(5) by blast
    obtain p rb' H' where "x = (p, rb', H')" by (cases x)
    then show ?thesis using x False assms(4) [of p rb' H'] by (simp add: other_def)
  qed (use assms(6) in \<open>simp add: other_def\<close>)
  have eq: "ring_buffer_reserve_none_empty rb len ?n flags H =
     (if h < fwd H h then
       if ?n \<le> ptr_diff (fwd H h) ?next then ring_take rb ?next len H else other
     else if ?n \<le> capacity rb - ptr_diff ?next (cache rb) then ring_take rb ?next len H
     else if ?n \<le> ptr_diff (fwd H h) (cache rb) then ring_take rb (cache rb) len H
     else other)"
    unfolding ring_buffer_reserve_none_empty_def other_def using h(1,2,9) by (simp add: read_node Let_def)
  show ?thesis
  proof (cases "bs = []")
    case False
    have "?next \<le> fwd H h" using fits_mem [OF h(11)] list.set_sel(1) [OF False] h(5) False by auto
    then have d: "unat (ptr_diff (fwd H h) ?next) = fwd H h - ?next" using ptr_diff_nat h(8) r(8) by simp
    show ?thesis
    proof (cases "?n \<le> ptr_diff (fwd H h) ?next")
      case True
      then have "?next + unat ?n \<le> hd bs" using d False h(5) k by (simp add: word_le_nat_alt)
      then have "fits (ncost H) (?next + unat ?n) bs (limit rb)" using fits_hd [OF h(11) False] by simp
      from fits_insert [OF h(10) order_refl this k] pos h(3)
      have "?next \<notin> set ps" "fits ((ncost H)(?next := unat ?n)) (cache rb) (as @ h # ?next # bs) (limit rb)" by auto
      then show ?thesis using take [of "as @ h # ?next # bs" ?next] eq True False h(6) by simp
    qed (use rest eq False h(6) in simp)
  next
    case True
    have d1: "unat (ptr_diff ?next (cache rb)) = ?next - cache rb" using ptr_diff_nat [of "cache rb" ?next] next_le r(8) fits_le [OF h(10)] by simp
    have d2: "unat (ptr_diff (fwd H h) (cache rb)) = fwd H h - cache rb" using ptr_diff_nat [of "cache rb" "fwd H h"] h(7,8) r(8) by simp
    have d3: "unat (capacity rb - ptr_diff ?next (cache rb)) = limit rb - ?next"
    proof -
      have "ptr_diff ?next (cache rb) \<le> capacity rb" using d1 next_le fits_le [OF h(10)] by (simp add: word_le_nat_alt limit_def)
      then show ?thesis using d1 fits_le [OF h(10)] by (simp add: unat_sub limit_def)
    qed
    show ?thesis
    proof (cases "?n \<le> capacity rb - ptr_diff ?next (cache rb)")
      case 1: True
      then have "fits (ncost H) (?next + unat ?n) bs (limit rb)" using d3 True k by (simp add: word_le_nat_alt)
      from fits_insert [OF h(10) order_refl this k] pos h(3)
      have "?next \<notin> set ps" "fits ((ncost H)(?next := unat ?n)) (cache rb) (as @ h # ?next # bs) (limit rb)" by auto
      then show ?thesis using take [of "as @ h # ?next # bs" ?next] eq 1 True h(6) by simp
    next
      case 2: False
      show ?thesis
      proof (cases "?n \<le> ptr_diff (fwd H h) (cache rb)")
        case 3: True
        then have "cache rb + unat ?n \<le> hd ps" using d2 True h(5,7) by (simp add: word_le_nat_alt)
        then have f: "fits (ncost H) (cache rb + unat ?n) ps (limit rb)" using fits_hd [OF r(7)] h(3) by simp
        have "fits (ncost H) (cache rb) [] (cache rb)" by simp
        from fits_insert [OF this order_refl f k] have "cache rb \<notin> set ps"
          "fits ((ncost H)(cache rb := unat ?n)) (cache rb) (cache rb # ps) (limit rb)" by auto
        then show ?thesis using take [of "cache rb # ps" "cache rb"] eq 2 3 True h(3,6) by simp
      qed (use rest eq 2 True h(6) in simp)
    qed
  qed
qed

subsection \<open>Deleting\<close>

lemma fits_remove: "fits c lo (xs @ run @ ys) hi \<Longrightarrow> fits c lo (xs @ ys) hi"
proof (induction run arbitrary: xs)
  case (Cons a run)
  have "fits c lo xs a" "fits c (a + c a) (run @ ys) hi" using Cons.prems by (simp_all add: fits_middle)
  moreover have "fits c lo xs (fend c lo xs)" "fend c lo xs \<le> a"
    using fits_append [of c lo xs "[]" a] calculation(1) by auto
  ultimately have "fits c lo (xs @ run @ ys) hi"
    using fits_append [of c lo xs "run @ ys" hi] fits_mono [of c "a + c a" "run @ ys" hi "fend c lo xs" hi] by simp
  then show ?case by (rule Cons.IH)
qed simp

lemma ring_empty_iff: "ring rb H rs ws ps \<Longrightarrow> TAIL rb = None \<longleftrightarrow> rs @ ws = []"
  using ringD(10) by (metis hd_opt_None_iff)

lemma delete_good:
  assumes "ring rb H rs ws ps" "a \<in> set (rs @ ws)" "rs' = remove1 a rs" "ws' = remove1 a ws"
    "cache rb0 = cache rb" "capacity rb0 = capacity rb" "HEAD rb0 = HEAD rb" "TAIL rb0 = TAIL rb" "oldest_reserve rb0 = oldest_reserve rb"
    "reading rb0 = of_nat (length rs')" "writing rb0 = of_nat (length (filter (\<lambda>a. stat H a = stat_writing) ws'))"
    "committed rb0 = of_nat (length (filter (\<lambda>a. stat H a = stat_committed) ws'))"
  shows "\<exists>rb' H' ps'. ring_buffer_delete_node rb0 a H = Some (rb', H') \<and> ring rb' H' rs' ws' ps' \<and>
    stat H' = stat H \<and> dlen H' = dlen H \<and> cache rb' = cache rb \<and> capacity rb' = capacity rb"
proof -
  note r = ringD [OF assms(1)]
  have a: "a \<in> set ps" "a \<in> dom H" using assms(2) r(2,4) by auto
  obtain as bs where ts: "rs @ ws = as @ a # bs" using split_list [OF assms(2)] by blast
  obtain p1 p2 where ps: "ps = p1 @ a # p2" using split_list [OF a(1)] by blast
  have ts': "rs' @ ws' = as @ bs"
  proof -
    have "remove1 a (rs @ ws) = as @ bs" using r(1) ts by (simp add: remove1_append)
    moreover have "a \<in> set rs \<Longrightarrow> remove1 a ws = ws" "a \<notin> set rs \<Longrightarrow> remove1 a rs = rs" using r(1) by (auto intro: remove1_idem)
    then have "remove1 a (rs @ ws) = rs' @ ws'" using assms(3,4) by (auto simp: remove1_append)
    ultimately show ?thesis by simp
  qed
  have circ: "circ (fwd H) (bwd H) ((p2 @ p1) @ [a])" using r(5) circ_rotate [of "fwd H" "bwd H" "p1 @ [a]" p2] ps by simp
  have sets: "set (rs' @ ws') = set ps - {a}" "set rs' \<subseteq> set rs" "set ws' \<subseteq> set ws"
    using r(1,2) ts ts' assms(3,4) notin_set_remove1 set_remove1_subset by auto
  show ?thesis
  proof (cases "p2 @ p1 = []")
    case True
    then have "fwd H a = a" using circ by (simp add: circ_def)
    moreover have "set (rs' @ ws') = {}" using sets(1) ps True by simp
    then have "rs' = []" "ws' = []" by simp_all
    moreover have "cache rb \<le> limit rb" by (simp add: limit_def)
    ultimately have "ring_buffer_delete_node rb0 a H = Some (ring_buffer_reinit rb0, H)" "ring (ring_buffer_reinit rb0) H rs' ws' []"
      using a(2) r(8) assms(5,6) by (auto simp: ring_buffer_delete_node_def read_node ring_def circ_def ring_buffer_reinit_def limit_def)
    then show ?thesis using assms(5,6) by (auto simp: ring_buffer_reinit_def)
  next
    case False
    note ends = circ_ends [OF circ False]
    have f: "fwd H a = hd (p2 @ p1)" "bwd H a = last (p2 @ p1)" using ends(1,2) by simp_all
    have in_r: "hd (p2 @ p1) \<in> set (p2 @ p1)" "last (p2 @ p1) \<in> set (p2 @ p1)"
      by (rule list.set_sel(1) [OF False], rule last_in_set [OF False])
    have out: "a \<notin> set (p2 @ p1)" "set (p2 @ p1) \<subseteq> set ps" using r(3) ps by auto
    have ne: "fwd H a \<in> dom H" "bwd H a \<in> dom H" "fwd H a \<noteq> a" "bwd H a \<noteq> a"
      using f in_r out r(4) by (metis subsetD)+
    have lr: "links (upd_opt (newer H) (last_opt as) (newer H (last [a]))) (upd_opt (older H) (hd_opt bs) (older H (hd [a]))) None (as @ bs) None"
      "newer H (last [a]) = hd_opt bs" "older H (hd [a]) = last_opt as"
      using links_remove [of "newer H" "older H" as "[a]" bs] r(1,6) ts by auto
    have t: "newer H a = hd_opt bs" "older H a = last_opt as" using lr(2,3) by simp_all
    have tb: "b \<in> dom H \<and> b \<noteq> a" if "b \<in> set as \<union> set bs" for b
    proof -
      have "b \<in> set (rs @ ws)" "b \<noteq> a" using that r(1) unfolding ts by auto
      then show ?thesis using r(2,4) by auto
    qed
    obtain H' where H': "ring_buffer_delete_node_update_chain a H = Some H'" "dom H' = dom H"
      "fwd H' = (fwd H)(bwd H a := fwd H a)" "bwd H' = (bwd H)(fwd H a := bwd H a)"
      "newer H' = upd_opt (newer H) (older H a) (newer H a)" "older H' = upd_opt (older H) (newer H a) (older H a)"
      "stat H' = stat H" "dlen H' = dlen H"
      using delete_chain_effect [OF a(2) ne(1,2,3,4)] t tb opt_in_set by (metis Un_iff)
    have a': "newer H' a = hd_opt bs" "older H' a = last_opt as"
    proof -
      have "last_opt as \<noteq> Some a" "hd_opt bs \<noteq> Some a" using tb opt_in_set by (metis Un_iff)+
      then show "newer H' a = hd_opt bs" "older H' a = last_opt as"
        by (simp_all add: H'(5,6) t upd_opt_other)
    qed
    define rb1 where "rb1 = (if oldest_reserve rb0 = Some a then rb0\<lparr>oldest_reserve := hd_opt bs\<rparr> else rb0)"
    define rb' where "rb' = (if as = [] then rb1\<lparr>TAIL := hd_opt bs\<rparr> else if bs = [] then rb1\<lparr>HEAD := last_opt as\<rparr> else rb1)"
    have del: "ring_buffer_delete_node rb0 a H = Some (rb', H')"
      using a(2) ne(3) H'(1,2) a' unfolding ring_buffer_delete_node_def
      by (simp add: read_node rb'_def rb1_def Let_def)
    have nonempty: "as @ bs \<noteq> []"
    proof -
      have "set (as @ bs) = set ps - {a}" using sets(1) unfolding ts' .
      also have "\<dots> = set (p2 @ p1)" using out(1) unfolding ps by auto
      finally show ?thesis using False by (metis set_empty)
    qed
    have oldest: "oldest_reserve rb' = hd_opt ws'"
    proof (cases "oldest_reserve rb = Some a")
      case True
      then obtain w2 where w: "ws = a # w2" using r(12) by (cases ws) auto
      have eq: "rs @ a # w2 = as @ a # bs" using ts unfolding w .
      have nin: "a \<notin> set rs" "a \<notin> set w2" using r(1) unfolding w by simp_all
      have "bs = w2" using iffD1 [OF append_Cons_eq_iff [OF nin, of as bs] eq] by (rule conjunct2 [THEN sym])
      then show ?thesis using True assms(4,9) w by (simp add: rb'_def rb1_def)
    next
      case other: False
      then have "hd_opt ws' = hd_opt ws" using r(12) assms(4) by (cases ws) auto
      then show ?thesis using other assms(9) r(12) by (simp add: rb'_def rb1_def)
    qed
    have tail: "TAIL rb' = hd_opt (as @ bs)" "HEAD rb' = last_opt (as @ bs)"
      using r(10,11) assms(7,8) nonempty unfolding ts rb'_def rb1_def by (auto simp: hd_opt_append last_opt_append last_opt_Cons)
    have same: "cache rb' = cache rb" "limit rb' = limit rb" "capacity rb' = capacity rb" "reading rb' = reading rb0" "writing rb' = writing rb0" "committed rb' = committed rb0"
      using assms(5,6) by (auto simp: rb'_def rb1_def limit_def)
    have "ring rb' H' rs' ws' (p1 @ p2)"
      unfolding ring_def
    proof (intro conjI)
      show "distinct (rs' @ ws')" using r(1) unfolding ts ts' by auto
      show "set (p1 @ p2) = set (rs' @ ws')" unfolding sets(1) using out(1) unfolding ps by auto
      show "distinct (p1 @ p2)" using r(3) ps by auto
      show "set (p1 @ p2) \<subseteq> dom H'" using r(4) ps H'(2) by auto
      show "circ (fwd H') (bwd H') (p1 @ p2)"
        using circ_remove [of "fwd H" "bwd H" p1 "[a]" p2] r(3,5) ps False unfolding H'(3,4) by auto
      show "links (newer H') (older H') None (rs' @ ws') None" using lr(1) t unfolding ts' H'(5,6) by simp
      have "ncost H' = ncost H" using H'(8) by (simp add: ncost_def fun_eq_iff)
      then show "fits (ncost H') (cache rb') (p1 @ p2) (limit rb')" using fits_remove [of _ _ p1 "[a]" p2] r(7) ps same by simp
      show "limit rb' < 2 ^ 64" using r(8) same by simp
      show "\<forall>x \<in> set (p1 @ p2). sized (dlen H' x)" using r(9) ps H'(8) by simp
      show "TAIL rb' = hd_opt (rs' @ ws')" "HEAD rb' = last_opt (rs' @ ws')" using tail ts' by simp_all
      show "oldest_reserve rb' = hd_opt ws'" by (rule oldest)
      show "\<forall>x \<in> set rs'. stat H' x = stat_reading" "\<forall>x \<in> set ws'. stat H' x \<noteq> stat_reading" using r(13,14) sets(2,3) H'(7) by auto
      show "reading rb' = of_nat (length rs')" "writing rb' = of_nat (length (filter (\<lambda>a. stat H' a = stat_writing) ws'))"
        "committed rb' = of_nat (length (filter (\<lambda>a. stat H' a = stat_committed) ws'))" using same assms(10-12) H'(7) by simp_all
    qed
    then show ?thesis using del H'(7,8) same by blast
  qed
qed

end
