(* ===== verification/RingCommit.thy ===== *)
theory RingCommit
  imports RingOps
begin

text \<open>
  Consuming a token, and committing a token that was reserved or consumed: the effect of each call on
  the two lists of nodes.
\<close>

subsection \<open>Counting\<close>

lemma count_switch:
  assumes "distinct ws" "a \<in> set ws" "f a = x" "x \<noteq> y"
  shows "length (filter (\<lambda>b. f b = x) ws) = Suc (length (filter (\<lambda>b. (f(a := y)) b = x) ws))"
    "length (filter (\<lambda>b. (f(a := y)) b = y) ws) = Suc (length (filter (\<lambda>b. f b = y) ws))"
proof -
  obtain u v where ws: "ws = u @ a # v" using split_list [OF assms(2)] by blast
  have "filter (\<lambda>b. (f(a := y)) b = z) u = filter (\<lambda>b. f b = z) u" "filter (\<lambda>b. (f(a := y)) b = z) v = filter (\<lambda>b. f b = z) v" for z
    using assms(1) unfolding ws by (auto intro!: filter_cong)
  then show "length (filter (\<lambda>b. f b = x) ws) = Suc (length (filter (\<lambda>b. (f(a := y)) b = x) ws))"
    "length (filter (\<lambda>b. (f(a := y)) b = y) ws) = Suc (length (filter (\<lambda>b. f b = y) ws))"
    using assms(3,4) unfolding ws by simp_all
qed

lemma count_remove:
  assumes "distinct ws" "a \<in> set ws"
  shows "length (filter P ws) = (if P a then Suc (length (filter P (remove1 a ws))) else length (filter P (remove1 a ws)))"
proof -
  obtain u v where ws: "ws = u @ a # v" using split_list [OF assms(2)] by blast
  then have "remove1 a ws = u @ v" using assms(1) by (simp add: remove1_append)
  then show ?thesis unfolding ws by simp
qed

lemma word_Suc: "of_nat (Suc n) - 1 = (of_nat n :: size_t)" "of_nat n + 1 = (of_nat (Suc n) :: size_t)"
  by simp_all

text \<open>A store that only changes the state of a node.\<close>

lemma set_state_effect:
  assumes "a \<in> dom H"
  shows "ring_store a (\<lambda>n. n\<lparr>nstate := x\<rparr>) H = Some (node_upd a (\<lambda>n. n\<lparr>nstate := x\<rparr>) H)"
    "ncost (node_upd a (\<lambda>n. n\<lparr>nstate := x\<rparr>) H) = ncost H"
  using assms by (simp_all add: ring_store_eq ncost_def fun_eq_iff node_set)

subsection \<open>Consuming\<close>

lemma oldest_links:
  assumes "ring rb H rs (a # ws) ps"
  shows "newer H a = hd_opt ws" "older H a = last_opt rs" "a \<in> dom H"
  using links_remove(2,3) [of "newer H" "older H" rs "[a]" ws] ringD(1,6) [OF assms] ring_live [OF assms, of a] by auto

lemma consume_good:
  assumes "ring rb H rs (a # ws) ps" "stat H a = stat_committed"
  defines "rb' \<equiv> rb\<lparr>committed := committed rb - 1, reading := reading rb + 1, oldest_reserve := hd_opt ws\<rparr>"
    and "H' \<equiv> node_upd a (\<lambda>n. n\<lparr>nstate := stat_reading\<rparr>) H"
  shows "eaf_ringbuffer_consume rb H = Some (Some a, rb', H')" "ring rb' H' (rs @ [a]) ws ps"
proof -
  note r = ringD [OF assms(1)] and o = oldest_links [OF assms(1)]
  show "eaf_ringbuffer_consume rb H = Some (Some a, rb', H')"
    using r(12) o assms(2) unfolding eaf_ringbuffer_consume_def rb'_def H'_def
    by (simp add: read_node set_state_effect Let_def)
  have fields: "fwd H' = fwd H" "bwd H' = bwd H" "newer H' = newer H" "older H' = older H" "stat H' = (stat H)(a := stat_reading)" "dlen H' = dlen H"
    by (simp_all add: H'_def node_set)
  have cost: "ncost H' = ncost H" "dom H' = insert a (dom H)" using set_state_effect(2) [OF o(3)] by (simp_all add: H'_def)
  have a: "a \<notin> set ws" "a \<notin> set rs" using r(1) by auto
  have same: "filter (\<lambda>x. stat H' x = y) ws = filter (\<lambda>x. stat H x = y) ws" for y
    by (rule filter_stat_cong) (use a fields(5) in auto)
  show "ring rb' H' (rs @ [a]) ws ps"
    unfolding ring_def
  proof (intro conjI)
    show "distinct ((rs @ [a]) @ ws)" "set ps = set ((rs @ [a]) @ ws)" "distinct ps" using r(1-3) by simp_all
    show "set ps \<subseteq> dom H'" using r(4) cost(2) by auto
    show "circ (fwd H') (bwd H') ps" "links (newer H') (older H') None ((rs @ [a]) @ ws) None" using r(5,6) fields by simp_all
    show "fits (ncost H') (cache rb') ps (limit rb')" "limit rb' < 2 ^ 64" using r(7,8) cost by (simp_all add: rb'_def limit_def)
    show "\<forall>x \<in> set ps. sized (dlen H' x)" using r(9) fields by simp
    show "TAIL rb' = hd_opt ((rs @ [a]) @ ws)" "HEAD rb' = last_opt ((rs @ [a]) @ ws)" "oldest_reserve rb' = hd_opt ws"
      using r(10,11) by (simp_all add: rb'_def)
    show "\<forall>x \<in> set (rs @ [a]). stat H' x = stat_reading" "\<forall>x \<in> set ws. stat H' x \<noteq> stat_reading"
      using r(13,14) a fields(5) by auto
    show "reading rb' = of_nat (length (rs @ [a]))" using r(15) by (simp add: rb'_def)
    show "writing rb' = of_nat (length (filter (\<lambda>x. stat H' x = stat_writing) ws))"
      "committed rb' = of_nat (length (filter (\<lambda>x. stat H' x = stat_committed) ws))"
      using r(16,17) assms(2) unfolding same by (simp_all add: rb'_def)
  qed
qed

lemma consume_none:
  assumes "ring rb H rs ws ps" "ws = [] \<or> stat H (hd ws) \<noteq> stat_committed"
  shows "eaf_ringbuffer_consume rb H = Some (None, rb, H)"
proof (cases ws)
  case Nil
  then show ?thesis using ringD(12) [OF assms(1)] by (simp add: eaf_ringbuffer_consume_def)
next
  case (Cons a w)
  then have o: "newer H a = hd_opt w" "a \<in> dom H" using oldest_links assms(1) by blast+
  then show ?thesis using ringD(12) [OF assms(1)] assms(2) Cons
    by (simp add: eaf_ringbuffer_consume_def read_node)
qed

subsection \<open>Committing a token that is written\<close>

lemma write_confirm_good:
  assumes "ring rb H rs ws ps" "a \<in> set ws" "stat H a = stat_writing"
  shows "\<exists>rb' H'. ring_buffer_commit_for_write_confirm rb a H = Some (0, rb', H') \<and> ring rb' H' rs ws ps \<and>
    stat H' = (stat H)(a := stat_committed) \<and> dlen H' = dlen H \<and> cache rb' = cache rb \<and> capacity rb' = capacity rb"
proof -
  note r = ringD [OF assms(1)]
  have a: "a \<in> dom H" "a \<notin> set rs" "distinct ws" using ring_live [OF assms(1), of a] r(1) assms(2) by auto
  define rb' where "rb' = rb\<lparr>writing := writing rb - 1, committed := committed rb + 1\<rparr>"
  define H' where "H' = node_upd a (\<lambda>n. n\<lparr>nstate := stat_committed\<rparr>) H"
  have run: "ring_buffer_commit_for_write_confirm rb a H = Some (0, rb', H')"
    using a(1) by (simp add: ring_buffer_commit_for_write_confirm_def set_state_effect rb'_def H'_def)
  have fields: "fwd H' = fwd H" "bwd H' = bwd H" "newer H' = newer H" "older H' = older H" "stat H' = (stat H)(a := stat_committed)" "dlen H' = dlen H"
    by (simp_all add: H'_def node_set)
  have cost: "ncost H' = ncost H" "dom H' = insert a (dom H)" using set_state_effect(2) [OF a(1)] by (simp_all add: H'_def)
  note count = count_switch [OF a(3) assms(2), of "stat H", OF assms(3), of stat_committed]
  have "ring rb' H' rs ws ps"
    unfolding ring_def
  proof (intro conjI)
    show "distinct (rs @ ws)" "set ps = set (rs @ ws)" "distinct ps" by (rule r)+
    show "set ps \<subseteq> dom H'" using r(4) cost(2) by auto
    show "circ (fwd H') (bwd H') ps" "links (newer H') (older H') None (rs @ ws) None" using r(5,6) fields by simp_all
    show "fits (ncost H') (cache rb') ps (limit rb')" "limit rb' < 2 ^ 64" using r(7,8) cost by (simp_all add: rb'_def limit_def)
    show "\<forall>x \<in> set ps. sized (dlen H' x)" using r(9) fields by simp
    show "TAIL rb' = hd_opt (rs @ ws)" "HEAD rb' = last_opt (rs @ ws)" "oldest_reserve rb' = hd_opt ws" "reading rb' = of_nat (length rs)"
      using r(10-12,15) by (simp_all add: rb'_def)
    show "\<forall>x \<in> set rs. stat H' x = stat_reading" "\<forall>x \<in> set ws. stat H' x \<noteq> stat_reading"
      using r(13,14) a fields(5) by auto
    show "writing rb' = of_nat (length (filter (\<lambda>x. stat H' x = stat_writing) ws))"
      "committed rb' = of_nat (length (filter (\<lambda>x. stat H' x = stat_committed) ws))"
      using r(16,17) count unfolding fields(5) by (simp_all add: rb'_def)
  qed
  then show ?thesis using run fields by (intro exI [of _ rb'] exI [of _ H']) (simp add: rb'_def)
qed

lemma write_discard_good:
  assumes "ring rb H rs ws ps" "a \<in> set ws" "stat H a = stat_writing"
  shows "\<exists>rb' H' ps'. ring_buffer_commit_for_write_discard rb a H = Some (0, rb', H') \<and> ring rb' H' rs (remove1 a ws) ps' \<and>
    stat H' = stat H \<and> dlen H' = dlen H \<and> cache rb' = cache rb \<and> capacity rb' = capacity rb"
proof -
  note r = ringD [OF assms(1)]
  have a: "distinct ws" "a \<notin> set rs" using r(1) assms(2) by auto
  have "\<exists>rb' H' ps'. ring_buffer_delete_node (rb\<lparr>writing := writing rb - 1\<rparr>) a H = Some (rb', H') \<and> ring rb' H' rs (remove1 a ws) ps' \<and>
    stat H' = stat H \<and> dlen H' = dlen H \<and> cache rb' = cache rb \<and> capacity rb' = capacity rb"
    by (rule delete_good [OF assms(1)]) (use assms(2,3) a r(15-17) count_remove [OF a(1) assms(2)] in \<open>simp_all add: remove1_idem\<close>)
  then show ?thesis unfolding ring_buffer_commit_for_write_discard_def by auto
qed

subsection \<open>Committing a token that is read\<close>

lemma consume_confirm_good:
  assumes "ring rb H rs ws ps" "a \<in> set rs"
  shows "\<exists>rb' H' ps'. ring_buffer_commit_for_consume_confirm rb a H = Some (0, rb', H') \<and> ring rb' H' (remove1 a rs) ws ps' \<and>
    stat H' = stat H \<and> dlen H' = dlen H \<and> cache rb' = cache rb \<and> capacity rb' = capacity rb"
proof -
  note r = ringD [OF assms(1)]
  have a: "distinct rs" "a \<notin> set ws" using r(1) assms(2) by auto
  have "length rs = Suc (length (remove1 a rs))" using length_pos_if_in_set [OF assms(2)] assms(2) by (simp add: length_remove1)
  then have n: "reading rb - 1 = of_nat (length (remove1 a rs))" using r(15) by simp
  have "\<exists>rb' H' ps'. ring_buffer_delete_node (rb\<lparr>reading := reading rb - 1\<rparr>) a H = Some (rb', H') \<and> ring rb' H' (remove1 a rs) ws ps' \<and>
    stat H' = stat H \<and> dlen H' = dlen H \<and> cache rb' = cache rb \<and> capacity rb' = capacity rb"
    by (rule delete_good [OF assms(1)]) (use assms(2) a r(16,17) n in \<open>simp_all add: remove1_idem\<close>)
  then show ?thesis unfolding ring_buffer_commit_for_consume_confirm_def by auto
qed

lemma map_node: "a \<in> dom H \<Longrightarrow> map_option f (H a) = Some (f (the (H a)))"
  by auto

lemma newer_reading:
  assumes "ring rb H rs ws ps" "a \<in> set rs"
  shows "H a \<bind> (\<lambda>n. newer_is_reading n H) = Some (a \<noteq> last rs)"
proof -
  note r = ringD [OF assms(1)]
  obtain u v where rs: "rs = u @ a # v" using split_list [OF assms(2)] by blast
  have a: "a \<in> dom H" using ring_live [OF assms(1), of a] assms(2) by simp
  have n: "newer H a = hd_opt (v @ ws)" using links_remove(2) [of "newer H" "older H" u "[a]" "v @ ws"] r(1,6) rs by simp
  have dist: "a \<notin> set v" using r(1) rs by simp
  show ?thesis
  proof (cases v)
    case Nil
    then have last: "last rs = a" using rs by simp
    show ?thesis
    proof (cases ws)
      case (Cons w w2)
      then have "w \<in> dom H" "stat H w \<noteq> stat_reading" using ring_live [OF assms(1), of w] r(14) by auto
      then show ?thesis using a n Nil Cons last by (simp add: newer_is_reading_def read_node map_node)
    qed (use a n Nil last in \<open>simp add: read_node newer_is_reading_def\<close>)
  next
    case (Cons w v2)
    then have "w \<in> dom H" "stat H w = stat_reading" using ring_live [OF assms(1), of w] r(13) rs by auto
    moreover have "a \<noteq> last rs" using rs Cons dist by (metis last_appendR last_in_set last_ConsR list.distinct(1))
    ultimately show ?thesis using a n Cons by (simp add: newer_is_reading_def read_node map_node)
  qed
qed

lemma consume_discard_good:
  assumes "ring rb H (rs @ [a]) ws ps"
  shows "\<exists>rb' H'. ring_buffer_commit_for_consume_discard rb a flags H = Some (0, rb', H') \<and> ring rb' H' rs (a # ws) ps \<and>
    stat H' = (stat H)(a := stat_committed) \<and> dlen H' = dlen H \<and> cache rb' = cache rb \<and> capacity rb' = capacity rb"
proof -
  note r = ringD [OF assms(1)]
  have a: "a \<in> dom H" "a \<notin> set rs" "a \<notin> set ws" using ring_live [OF assms(1), of a] r(1) by auto
  have n: "newer H a = hd_opt ws" using links_remove(2) [of "newer H" "older H" rs "[a]" ws] r(1,6) by simp
  define rb' where "rb' = rb\<lparr>reading := reading rb - 1, committed := committed rb + 1, oldest_reserve := Some a\<rparr>"
  define H' where "H' = node_upd a (\<lambda>n. n\<lparr>nstate := stat_committed\<rparr>) H"
  have fields: "fwd H' = fwd H" "bwd H' = bwd H" "newer H' = newer H" "older H' = older H" "stat H' = (stat H)(a := stat_committed)" "dlen H' = dlen H"
    by (simp_all add: H'_def node_set)
  have cost: "ncost H' = ncost H" "dom H' = insert a (dom H)" using set_state_effect(2) [OF a(1)] by (simp_all add: H'_def)
  have nb: "newer_is_reading (the (H a)) H = Some False" using newer_reading [OF assms, of a] a(1) by (simp add: read_node)
  have run: "ring_buffer_commit_for_consume_discard rb a flags H = Some (0, rb', H')"
  proof (cases ws)
    case Nil
    then show ?thesis using a(1) n nb fields(3) unfolding ring_buffer_commit_for_consume_discard_def
      by (simp add: read_node set_state_effect H'_def [symmetric] cost rb'_def Let_def)
  next
    case (Cons w w2)
    then have "older H w = Some a" "w \<in> dom H"
      using links_remove(3) [of "newer H" "older H" "rs @ [a]" "[w]" w2] r(1,6) ring_live [OF assms, of w] by auto
    then show ?thesis using a(1) n nb fields(3,4) Cons r(12) unfolding ring_buffer_commit_for_consume_discard_def
      by (simp add: read_node set_state_effect H'_def [symmetric] cost rb'_def Let_def)
  qed
  have same: "filter (\<lambda>x. stat H' x = y) ws = filter (\<lambda>x. stat H x = y) ws" for y
    by (rule filter_stat_cong) (use a fields(5) in auto)
  have "ring rb' H' rs (a # ws) ps"
    unfolding ring_def
  proof (intro conjI)
    show "distinct (rs @ a # ws)" "set ps = set (rs @ a # ws)" "distinct ps" using r(1-3) by simp_all
    show "set ps \<subseteq> dom H'" using r(4) cost(2) by auto
    show "circ (fwd H') (bwd H') ps" "links (newer H') (older H') None (rs @ a # ws) None" using r(5,6) fields by simp_all
    show "fits (ncost H') (cache rb') ps (limit rb')" "limit rb' < 2 ^ 64" using r(7,8) cost by (simp_all add: rb'_def limit_def)
    show "\<forall>x \<in> set ps. sized (dlen H' x)" using r(9) fields by simp
    show "TAIL rb' = hd_opt (rs @ a # ws)" "HEAD rb' = last_opt (rs @ a # ws)" "oldest_reserve rb' = hd_opt (a # ws)"
      using r(10,11) by (simp_all add: rb'_def)
    show "\<forall>x \<in> set rs. stat H' x = stat_reading" "\<forall>x \<in> set (a # ws). stat H' x \<noteq> stat_reading"
      using r(13,14) a fields(5) by auto
    show "reading rb' = of_nat (length rs)" using r(15) by (simp add: rb'_def)
    show "writing rb' = of_nat (length (filter (\<lambda>x. stat H' x = stat_writing) (a # ws)))"
      "committed rb' = of_nat (length (filter (\<lambda>x. stat H' x = stat_committed) (a # ws)))"
      using r(16,17) fields(5) same by (simp_all add: rb'_def)
  qed
  then show ?thesis using run fields by (intro exI [of _ rb'] exI [of _ H']) (simp add: rb'_def)
qed

end
