(* ===== verification/RingOverwrite.thy ===== *)
theory RingOverwrite
  imports RingCommit
begin

text \<open>
  Reserving with the overwrite flag: the run of committed nodes that is given up, and the state after
  it. The case in which the run reaches the newest node is excluded here, as the code then leaves a
  damaged ring (see the root of the ring buffer's properties).
\<close>

subsection \<open>The run\<close>

lemma ring_neighbours:
  assumes "ring rb H rs ws ps" "ps = p1 @ run @ p2" "run \<noteq> []" "p1 @ p2 \<noteq> []"
  shows "fwd H (last run) = hd (p2 @ p1)" "bwd H (hd run) = last (p2 @ p1)"
  using circ_ends(1,2) [of "fwd H" "bwd H" "p2 @ p1" run] ringD(5) [OF assms(1)] circ_rotate [of "fwd H" "bwd H" "p1 @ run" p2]
    assms(2-4) by auto

lemma ring_sorted:
  assumes "ring rb H rs ws ps" "ps = p1 @ p2" "x \<in> set p1" "y \<in> set p2"
  shows "x + ncost H x \<le> y"
proof -
  obtain u v where p2: "p2 = u @ y # v" using split_list [OF assms(4)] by blast
  have "fits (ncost H) (cache rb) ((p1 @ u) @ y # v) (limit rb)" using ringD(7) [OF assms(1)] assms(2) p2 by simp
  then have "fits (ncost H) (cache rb) (p1 @ u) y" unfolding fits_middle by blast
  from fits_mem [OF this] show ?thesis using assms(3) by simp
qed

text \<open>The link to the next node of the run, as the loop tests it.\<close>

lemma run_next:
  assumes "ring rb H rs ws ps" "ws = run @ w" "ps = p1 @ run @ p2" "run \<noteq> []"
  shows "fwd H (last run) \<in> dom H" "last run \<in> dom H" "newer H (last run) = hd_opt w"
    "last run < fwd H (last run) \<longleftrightarrow> p2 \<noteq> []" "p2 \<noteq> [] \<Longrightarrow> fwd H (last run) = hd p2"
proof -
  note r = ringD [OF assms(1)]
  have l: "last run \<in> set ps" using assms(3) last_in_set [OF assms(4)] by simp
  then show "last run \<in> dom H" using r(4) by blast
  show "newer H (last run) = hd_opt w" using links_remove(2) [of "newer H" "older H" rs run w] r(1,6) assms(2,4) by simp
  have f: "fwd H (last run) = hd (p2 @ ps)" "fwd H (last run) \<in> set ps"
  proof -
    show f: "fwd H (last run) = hd (p2 @ ps)"
    proof (cases "p1 @ p2 = []")
      case True
      then have "circ (fwd H) (bwd H) run" using r(5) assms(3) by simp
      then have "fwd H (last run) = hd run" using circ_split [OF assms(4), of "fwd H" "bwd H" "[]"] by simp
      then show ?thesis using True assms(3) by simp
    next
      case False
      then show ?thesis using ring_neighbours(1) [OF assms(1,3,4) False] assms(3) by (cases p2; cases p1) auto
    qed
    have "p2 @ ps \<noteq> []" using assms(3,4) by simp
    from list.set_sel(1) [OF this] show "fwd H (last run) \<in> set ps" unfolding f using assms(3) by auto
  qed
  show "fwd H (last run) \<in> dom H" using f(2) r(4) by blast
  show "p2 \<noteq> [] \<Longrightarrow> fwd H (last run) = hd p2" using f(1) by simp
  show "last run < fwd H (last run) \<longleftrightarrow> p2 \<noteq> []"
  proof (cases "p2 = []")
    case True
    obtain z zs where z: "ps = z # zs" using l by (cases ps) auto
    have "z \<le> last run"
    proof (cases "last run \<in> set zs")
      case True
      then show ?thesis using ring_sorted [OF assms(1), of "[z]" zs z "last run"] z by simp
    qed (use l z in simp)
    then show ?thesis using True f(1) z by simp
  next
    case False
    have "last run + ncost H (last run) \<le> hd p2"
      by (rule ring_sorted [OF assms(1), of "p1 @ run" p2]) (use assms(3,4) False in auto)
    then show ?thesis using f(1) False ring_cost [OF assms(1) l] by simp
  qed
qed

lemma overwrite_loop_good:
  assumes "ring rb H rs ws ps" "ws = run @ w" "ps = p1 @ run @ p2" "run \<noteq> []" "\<forall>x \<in> set run. stat H x = stat_committed"
  shows "\<exists>run' w' p2'. overwrite_loop H start n (last run) k =
      Some (ptr_diff (last run' + ncost H (last run')) start, last run', k + of_nat (length run' - length run)) \<and>
    length run \<le> length run' \<and> ws = run' @ w' \<and> ps = p1 @ run' @ p2' \<and> hd run' = hd run \<and> (\<forall>x \<in> set run'. stat H x = stat_committed)"
  using assms(2-5)
proof (induction p2 arbitrary: run w k)
  case (Nil run w k)
  note nx = run_next [OF assms(1) Nil(1-3)]
  have "node_end_of (last run) (the (H (last run))) = last run + ncost H (last run)" by (simp add: node_end_of_def ncost_def)
  then have "overwrite_loop H start n (last run) k = Some (ptr_diff (last run + ncost H (last run)) start, last run, k)"
    using nx by (subst overwrite_loop.simps) (simp add: read_node Let_def)
  then show ?case using Nil by (intro exI [of _ run] exI [of _ w] exI [of _ "[]"]) simp
next
  case (Cons b p2 run w k)
  note nx = run_next [OF assms(1) Cons(2-4)]
  have e: "node_end_of (last run) (the (H (last run))) = last run + ncost H (last run)" by (simp add: node_end_of_def ncost_def)
  let ?s = "ptr_diff (last run + ncost H (last run)) start"
  show ?case
  proof (cases "\<not> n \<le> ?s \<and> stat H b = stat_committed \<and> w \<noteq> [] \<and> hd w = b")
    case True
    then obtain w2 where w: "w = b # w2" by (cases w) auto
    have "overwrite_loop H start n (last run) k = overwrite_loop H start n b (k + 1)"
      using nx True w e by (subst overwrite_loop.simps) (simp add: read_node Let_def)
    moreover obtain run' w' p2' where IH: "overwrite_loop H start n (last (run @ [b])) (k + 1) =
        Some (ptr_diff (last run' + ncost H (last run')) start, last run', k + 1 + of_nat (length run' - length (run @ [b])))"
      "length (run @ [b]) \<le> length run'" "ws = run' @ w'" "ps = p1 @ run' @ p2'" "hd run' = hd (run @ [b])" "\<forall>x \<in> set run'. stat H x = stat_committed"
      using Cons(1) [of "run @ [b]" w2 "k + 1"] Cons(2-5) True w by auto
    moreover have "k + 1 + of_nat (length run' - length (run @ [b])) = k + of_nat (length run' - length run)"
    proof -
      have "length run' - length run = Suc (length run' - length (run @ [b]))" using IH(2) by simp
      then show ?thesis by simp
    qed
    ultimately show ?thesis using Cons(4) by (intro exI [of _ run'] exI [of _ w'] exI [of _ p2']) simp
  next
    case False
    have "overwrite_loop H start n (last run) k = Some (?s, last run, k)"
      using nx False e by (subst overwrite_loop.simps) (cases w; auto simp: read_node Let_def)
    then show ?thesis using Cons(2-5) by (intro exI [of _ run] exI [of _ w] exI [of _ "b # p2"]) simp
  qed
qed

subsection \<open>The overwrite\<close>

lemma perform_overwrite_good:
  assumes "ring rb H rs ws ps" "ws = run @ w" "ps = p1 @ run @ p2" "run \<noteq> []" "w \<noteq> []" "\<forall>x \<in> set run. stat H x = stat_committed"
    "sized len" "unat (eaf_ringbuffer_node_cost len) \<le> last run + ncost H (last run) - fend (ncost H) (cache rb) p1"
  defines "a \<equiv> fend (ncost H) (cache rb) p1"
  shows "\<exists>rb' H'. ring_buffer_perform_overwrite rb a (hd run) (last run) (of_nat (length run)) len H = Some (Some a, rb', H') \<and>
    reserved rb H rs w a len rb' H'"
proof -
  note r = ringD [OF assms(1)]
  let ?s = "hd run" and ?e = "last run" and ?n = "unat (eaf_ringbuffer_node_cost len)"
  have rest: "set (p1 @ p2) = set (rs @ w)" "set run \<subseteq> set ps"
  proof -
    have "distinct (p1 @ run @ p2)" "distinct (rs @ run @ w)" "set (p1 @ run @ p2) = set (rs @ run @ w)"
      using r(1-3) unfolding assms(2,3) by simp_all
    then show "set (p1 @ p2) = set (rs @ w)" by auto
    show "set run \<subseteq> set ps" using assms(3) by auto
  qed
  have ne: "p1 @ p2 \<noteq> []" using rest(1) assms(5) by (metis append_is_Nil_conv set_empty)
  have se: "?s \<in> set run" "?e \<in> set run" by (rule list.set_sel(1) [OF assms(4)], rule last_in_set [OF assms(4)])
  have pos: "0 < ncost H x" if "x \<in> set ps" for x by (rule ring_cost [OF assms(1) that])
  have fit1: "fits (ncost H) (cache rb) p1 a" "a \<le> ?s" "fits (ncost H) a (run @ p2) (limit rb)"
  proof -
    show "fits (ncost H) (cache rb) p1 a" "fits (ncost H) a (run @ p2) (limit rb)"
      using r(7) fits_append [of "ncost H" "cache rb" p1 "run @ p2" "limit rb"] unfolding assms(3) a_def by blast+
    then show "a \<le> ?s" using se(1) fits_mem [of "ncost H" a "run @ p2" "limit rb" ?s] by simp
  qed
  obtain run0 where run0: "run = run0 @ [?e]" using assms(4) by (metis append_butlast_last_id)
  have fit2: "fits (ncost H) (?e + ncost H ?e) p2 (limit rb)"
  proof -
    have "fits (ncost H) a (run0 @ ?e # p2) (limit rb)" using fit1(3) arg_cong [OF run0, of "\<lambda>x. x @ p2"] by simp
    then show ?thesis unfolding fits_middle by blast
  qed
  have ae: "a + ?n \<le> ?e + ncost H ?e" using assms(8) node_cost_bounds(4) [OF assms(7)] unfolding a_def by linarith
  have fit3: "fits (ncost H) (a + ?n) p2 (limit rb)" by (rule fits_mono [OF fit2 ae order_refl])
  note ins = fits_insert [OF fit1(1) order_refl fit3 node_cost_bounds(4) [OF assms(7)]]
  have a_out: "a \<notin> set (p1 @ p2)" by (rule ins(1)) (use pos assms(3) in auto)
  have fits': "fits ((ncost H)(a := ?n)) (cache rb) (p1 @ a # p2) (limit rb)" by (rule ins(2)) (use pos assms(3) in auto)
  note nb = ring_neighbours [OF assms(1,3,4) ne]
  have ne': "p2 @ p1 \<noteq> []" using ne by auto
  have in_r: "fwd H ?e \<in> set (p1 @ p2)" "bwd H ?s \<in> set (p1 @ p2)"
    using list.set_sel(1) [OF ne'] last_in_set [OF ne'] unfolding nb by auto
  have dist: "distinct (p1 @ run @ p2)" using r(3) unfolding assms(3) .
  have notrun: "x \<notin> set run" if "x \<in> set (p1 @ p2)" for x using dist that by auto
  have live: "x \<in> dom H" if "x \<in> set ps" for x using r(4) that by blast
  have live': "x \<in> dom H" if "x \<in> set (p1 @ p2)" for x using live that assms(3) by auto
  let ?h = "last w"
  have h: "HEAD rb = Some ?h" "?h \<in> set (p1 @ p2)"
    using r(11) assms(2,5) rest(1) last_in_set [OF assms(5)] by (auto simp: last_opt_def)
  have lr: "links (upd_opt (newer H) (last_opt rs) (newer H ?e)) (upd_opt (older H) (hd_opt w) (older H ?s)) None (rs @ w) None"
    "newer H ?e = hd_opt w" "older H ?s = last_opt rs"
    using links_remove [of "newer H" "older H" rs run w] r(1,6) assms(2,4) by simp_all
  have side: "x \<in> dom H \<and> x \<noteq> ?s \<and> x \<noteq> ?e \<and> x \<noteq> a" if "x \<in> set (rs @ w)" for x
    using that live' [of x] notrun [of x] se a_out unfolding rest(1) [symmetric] by auto
  define rb' where "rb' = (if TAIL rb = oldest_reserve rb then rb\<lparr>TAIL := newer H ?e\<rparr> else rb)\<lparr>oldest_reserve := newer H ?e,
      HEAD := Some a, committed := committed rb - of_nat (length run), writing := writing rb + 1\<rparr>"
  have "\<exists>H'. ring_buffer_perform_overwrite rb a ?s ?e (of_nat (length run)) len H = Some (Some a, rb', H') \<and> dom H' = insert a (dom H) \<and>
    fwd H' = (fwd H)(a := fwd H ?e, bwd H ?s := a) \<and> bwd H' = (bwd H)(fwd H ?e := a, a := bwd H ?s) \<and>
    newer H' = (upd_opt (newer H) (older H ?s) (newer H ?e))(a := None, ?h := Some a) \<and>
    older H' = (upd_opt (older H) (newer H ?e) (older H ?s))(a := Some ?h) \<and>
    stat H' = (stat H)(a := stat_writing) \<and> dlen H' = (dlen H)(a := len)"
  proof (rule overwrite_effect [OF _ _ _ _ h(1) _ _ _ _ _ _ _ _ _ _ rb'_def])
    show "?s \<in> dom H" "?e \<in> dom H" using live se rest(2) by auto
    show "fwd H ?e \<in> dom H" "bwd H ?s \<in> dom H" "?h \<in> dom H" using live' in_r h(2) by blast+
    show "a \<noteq> fwd H ?e" "a \<noteq> bwd H ?s" "a \<noteq> ?h" using a_out in_r h(2) by auto
    show "fwd H ?e \<noteq> ?s" "fwd H ?e \<noteq> ?e" "bwd H ?s \<noteq> ?s" "bwd H ?s \<noteq> ?e" using notrun in_r se by metis+
    show "newer H ?e = Some b \<Longrightarrow> b \<in> dom H \<and> b \<noteq> ?s \<and> b \<noteq> ?e \<and> b \<noteq> a" for b
      using side [of b] opt_in_set(1) [of w b] lr(2) by auto
    show "older H ?s = Some b \<Longrightarrow> b \<in> dom H \<and> b \<noteq> ?s \<and> b \<noteq> ?e \<and> b \<noteq> a" for b
      using side [of b] opt_in_set(2) [of rs b] lr(3) by auto
  qed
  then obtain H' where H': "ring_buffer_perform_overwrite rb a ?s ?e (of_nat (length run)) len H = Some (Some a, rb', H')" "dom H' = insert a (dom H)"
    "fwd H' = (fwd H)(a := fwd H ?e, bwd H ?s := a)" "bwd H' = (bwd H)(fwd H ?e := a, a := bwd H ?s)"
    "newer H' = (upd_opt (newer H) (older H ?s) (newer H ?e))(a := None, ?h := Some a)"
    "older H' = (upd_opt (older H) (newer H ?e) (older H ?s))(a := Some ?h)"
    "stat H' = (stat H)(a := stat_writing)" "dlen H' = (dlen H)(a := len)" by blast
  have a_rw: "a \<notin> set rs" "a \<notin> set w" using a_out unfolding rest(1) by auto
  have dist_rw: "distinct (rs @ w)" using r(1) assms(2) by auto
  have twist: "f(a := x, ?h := y) = f(?h := y, a := x)" for f :: "addr \<Rightarrow> ptr" and x y
    using a_rw(2) last_in_set [OF assms(5)] by (metis fun_upd_twist)
  have lo: "last_opt (rs @ w) = Some ?h" "last (rs @ w) = ?h" using assms(5) by (simp_all add: last_opt_def)
  have l: "links (newer H') (older H') None ((rs @ w) @ [a]) None"
    using links_snoc [OF lr(1) dist_rw _, of a] assms(5) a_rw lo lr(2,3) unfolding H'(5,6) by (simp add: twist)
  have tail: "TAIL rb' = hd_opt (rs @ w @ [a])" "oldest_reserve rb' = hd_opt (w @ [a])" "HEAD rb' = Some a"
    "cache rb' = cache rb" "capacity rb' = capacity rb" "limit rb' = limit rb" "reading rb' = reading rb"
    "writing rb' = writing rb + 1" "committed rb' = committed rb - of_nat (length run)"
  proof -
    have "TAIL rb = oldest_reserve rb \<longleftrightarrow> rs = []" using r(1,10,12) assms(2,4) by (cases rs; cases run) auto
    then show "TAIL rb' = hd_opt (rs @ w @ [a])" using r(10) lr(2) assms(2,5) by (cases rs; cases w) (auto simp: rb'_def)
    show "oldest_reserve rb' = hd_opt (w @ [a])" using lr(2) assms(5) by (cases w) (auto simp: rb'_def)
  qed (simp_all add: rb'_def limit_def)
  have same: "filter (\<lambda>x. stat H' x = y) w = filter (\<lambda>x. stat H x = y) w" for y
    by (rule filter_stat_cong) (use a_rw H'(7) in auto)
  have runs: "filter (\<lambda>x. stat H x = stat_committed) run = run" "filter (\<lambda>x. stat H x = stat_writing) run = []"
    using assms(6) by (simp_all add: filter_empty_conv)
  have "ring rb' H' rs (w @ [a]) (p1 @ a # p2)"
    unfolding ring_def
  proof (intro conjI)
    show "distinct (rs @ w @ [a])" using dist_rw a_rw by auto
    show "set (p1 @ a # p2) = set (rs @ w @ [a])" using rest(1) by auto
    show "distinct (p1 @ a # p2)" using dist a_out by auto
    show "set (p1 @ a # p2) \<subseteq> dom H'" unfolding H'(2) using live' by auto
    show "circ (fwd H') (bwd H') (p1 @ a # p2)"
      by (rule circ_overwrite [OF _ dist assms(4) ne a_out H'(3,4)]) (use r(5) assms(3) in simp)
    show "links (newer H') (older H') None (rs @ w @ [a]) None" using l by simp
    show "fits (ncost H') (cache rb') (p1 @ a # p2) (limit rb')" using fits' ncost_upd [OF H'(8)] tail by simp
    show "limit rb' < 2 ^ 64" using r(8) tail by simp
    show "\<forall>x \<in> set (p1 @ a # p2). sized (dlen H' x)" using r(9) assms(3,7) H'(8) by auto
    show "TAIL rb' = hd_opt (rs @ w @ [a])" "HEAD rb' = last_opt (rs @ w @ [a])" "oldest_reserve rb' = hd_opt (w @ [a])"
      using tail by (simp_all add: last_opt_append)
    show "\<forall>x \<in> set rs. stat H' x = stat_reading" using r(13) a_rw H'(7) by auto
    show "\<forall>x \<in> set (w @ [a]). stat H' x \<noteq> stat_reading" using r(14) assms(2) H'(7) by auto
    show "reading rb' = of_nat (length rs)" using tail r(15) by simp
    show "writing rb' = of_nat (length (filter (\<lambda>x. stat H' x = stat_writing) (w @ [a])))"
      "committed rb' = of_nat (length (filter (\<lambda>x. stat H' x = stat_committed) (w @ [a])))"
      using tail r(16,17) same H'(7) assms(2) runs by simp_all
  qed
  then have "reserved rb H rs w a len rb' H'" using H'(7,8) tail by (auto simp: reserved_def)
  then show ?thesis using H'(1) by blast
qed

end
