(* ===== verification/RingProps.thy ===== *)
theory RingProps
  imports RingOverwrite
begin

text \<open>
  The properties of the ring buffer: reserving with and without overwriting, consuming, committing, the
  layout of \<open>eaf_ringbuffer_init\<close>, and the damage done when an overwrite reaches the newest node.
\<close>

subsection \<open>Overwriting\<close>

text \<open>The newest node that reserving \<open>len\<close> bytes with the overwrite flag gives up.\<close>

definition overwrite_end :: "ringbuffer \<Rightarrow> ring_heap \<Rightarrow> size_t \<Rightarrow> ptr" where
  "overwrite_end rb H len = do {
     oldest \<leftarrow> oldest_reserve rb;
     o_node \<leftarrow> H oldest;
     b \<leftarrow> H (chain_backward o_node);
     let start_point = (if chain_backward o_node < oldest then node_end_of (chain_backward o_node) b else cache rb);
     (sum_size, node_end, k) \<leftarrow> overwrite_loop H start_point (eaf_ringbuffer_node_cost len) oldest 1;
     if sum_size < eaf_ringbuffer_node_cost len then None else Some node_end }"

lemma try_overwrite_good:
  assumes "ring rb H rs ws ps" "sized len" "length (rs @ ws) = 1 \<or> overwrite_end rb H len \<noteq> HEAD rb"
  shows "\<exists>p rb' H'. ring_buffer_reserve_try_overwrite rb len (eaf_ringbuffer_node_cost len) H = Some (p, rb', H') \<and>
    (case p of None \<Rightarrow> rb' = rb \<and> H' = H
     | Some a \<Rightarrow> \<exists>run w. ws = run @ w \<and> (\<forall>x \<in> set run. stat H x = stat_committed) \<and> reserved rb H rs w a len rb' H')"
proof -
  note r = ringD [OF assms(1)]
  let ?n = "eaf_ringbuffer_node_cost len"
  show ?thesis
  proof (cases ws)
    case Nil
    then show ?thesis using r(12) by (simp add: ring_buffer_reserve_try_overwrite_def)
  next
    case (Cons x w0)
    then have x: "x \<in> set ps" "x \<in> dom H" "oldest_reserve rb = Some x" using r(2,4,12) by auto
    obtain p1 p2 where ps: "ps = p1 @ [x] @ p2" using split_list [OF x(1)] by auto
    show ?thesis
    proof (cases "stat H x = stat_committed")
      case False
      then show ?thesis using x by (simp add: ring_buffer_reserve_try_overwrite_def read_node)
    next
      case st: True
      show ?thesis
      proof (cases "p1 @ p2 = []")
        case True
        then have "fwd H x = x" using r(5) ps by (simp add: circ_def)
        moreover have one: "rs = []" "ws = [x]"
        proof -
          have "set (rs @ ws) = {x}" using r(2) ps True by simp
          moreover have "length (rs @ ws) = card (set (rs @ ws))" using distinct_card [OF r(1)] by simp
          ultimately have "length rs + length ws = 1" by simp
          then show "rs = []" "ws = [x]" using Cons by simp_all
        qed
        ultimately have eq: "ring_buffer_reserve_try_overwrite rb len ?n H =
            (if capacity rb < ?n then Some (None, rb, H) else ring_buffer_reserve_empty (ring_buffer_reinit rb) len ?n H)"
          using x st by (simp add: ring_buffer_reserve_try_overwrite_def read_node)
        show ?thesis
        proof (cases "capacity rb < ?n")
          case room: False
          obtain rb' H' where "ring_buffer_reserve_empty (ring_buffer_reinit rb) len ?n H = Some (Some (cache rb), rb', H')"
            "reserved (ring_buffer_reinit rb) H [] [] (cache rb) len rb' H'"
            using empty_good [of "ring_buffer_reinit rb" len H] r(8) assms(2) room
            by (auto simp: ring_buffer_reinit_def limit_def not_less)
          moreover from this(2) have "reserved rb H rs [] (cache rb) len rb' H'"
            unfolding reserved_def one(1) by (simp add: ring_buffer_reinit_def)
          moreover have "ws = [x] @ []" "\<forall>y \<in> set [x]. stat H y = stat_committed" using one(2) st by simp_all
          ultimately show ?thesis using eq room
            by (intro exI [of _ "Some (cache rb)"] exI [of _ rb'] exI [of _ H']) (simp only: option.case if_False simp_thms, blast)
        qed (use eq in simp)
      next
        case False
        note nb = ring_neighbours [OF assms(1) ps _ False]
        have fx: "fwd H x = hd (p2 @ p1)" "bwd H x = last (p2 @ p1)" using nb by simp_all
        have ne: "p2 @ p1 \<noteq> []" using False by auto
        have b: "fwd H x \<noteq> x" "bwd H x \<in> dom H"
          using list.set_sel(1) [OF ne] last_in_set [OF ne] r(3,4) unfolding fx ps by (auto simp del: hd_append2 last_append)
        let ?a = "fend (ncost H) (cache rb) p1"
        have start: "(if bwd H x < x then node_end_of (bwd H x) (the (H (bwd H x))) else cache rb) = ?a"
        proof (cases "p1 = []")
          case True
          then have "p2 \<noteq> []" "bwd H x = last p2" using fx(2) False by simp_all
          then have "x + ncost H x \<le> bwd H x" using ring_sorted [OF assms(1), of "p1 @ [x]" p2 x "last p2"] ps by simp
          then show ?thesis using True by (simp add: fend_def)
        next
          case p1: False
          then have l: "bwd H x = last p1" "last p1 \<in> set p1" using fx(2) by simp_all
          then have "last p1 + ncost H (last p1) \<le> x" using ring_sorted [OF assms(1), of p1 "[x] @ p2" "last p1" x] ps by simp
          moreover have "0 < ncost H (last p1)" by (rule ring_cost [OF assms(1)]) (use l(2) ps in simp)
          ultimately show ?thesis using l p1 by (simp add: fend_def opt_conv node_end_of_def ncost_def)
        qed
        obtain run w p2' where run: "overwrite_loop H ?a ?n x 1 =
            Some (ptr_diff (last run + ncost H (last run)) ?a, last run, 1 + of_nat (length run - 1))"
          "1 \<le> length run" "ws = run @ w" "ps = p1 @ run @ p2'" "hd run = x" "\<forall>x \<in> set run. stat H x = stat_committed"
          using overwrite_loop_good [OF assms(1), of "[x]" w0 p1 p2 ?a ?n 1] Cons ps st by auto
        have k: "1 + of_nat (length run - 1) = (of_nat (length run) :: size_t)"
          using run(2) by (metis of_nat_Suc Suc_diff_1 less_le_trans zero_less_one One_nat_def)
        have rne: "run \<noteq> []" using run(2) by auto
        let ?sum = "ptr_diff (last run + ncost H (last run)) ?a"
        have eq: "ring_buffer_reserve_try_overwrite rb len ?n H = (if ?sum < ?n then Some (None, rb, H)
            else ring_buffer_perform_overwrite rb ?a x (last run) (of_nat (length run)) len H)"
          using x st b run(1) [unfolded k] start unfolding ring_buffer_reserve_try_overwrite_def
          by (simp add: read_node Let_def)
        show ?thesis
        proof (cases "?sum < ?n")
          case True
          then show ?thesis using eq by simp
        next
          case enough: False
          have "overwrite_end rb H len = Some (last run)"
            using x b run(1) [unfolded k] start enough unfolding overwrite_end_def by (simp add: read_node Let_def cong: if_cong split del: if_split)
          moreover have "length (rs @ ws) \<noteq> 1"
          proof -
            have "card (set ps) = length (rs @ ws)" unfolding r(2) by (rule distinct_card [OF r(1)])
            moreover have "card (set ps) = length ps" by (rule distinct_card [OF r(3)])
            ultimately show ?thesis using ps False by (cases p1; cases p2; simp)
          qed
          ultimately have "w \<noteq> []" using assms(3) r(11) run(3) rne by (auto simp: last_opt_def)
          moreover have "unat ?n \<le> last run + ncost H (last run) - ?a"
          proof -
            have f: "fits (ncost H) ?a (run @ p2') (limit rb)" "fits (ncost H) (cache rb) p1 ?a"
              using r(7) fits_append [of "ncost H" "cache rb" p1 "run @ p2'" "limit rb"] unfolding run(4) by blast+
            have "last run \<in> set (run @ p2')" using rne by simp
            from fits_mem [OF f(1) this] have "?a \<le> last run" "last run + ncost H (last run) \<le> limit rb" by simp_all
            then have "unat ?sum = last run + ncost H (last run) - ?a" using ptr_diff_nat [of ?a "last run + ncost H (last run)"] r(8) by simp
            then show ?thesis using enough by (simp add: word_less_nat_alt)
          qed
          ultimately obtain rb' H' where "ring_buffer_perform_overwrite rb ?a x (last run) (of_nat (length run)) len H = Some (Some ?a, rb', H')"
            "reserved rb H rs w ?a len rb' H'"
            using perform_overwrite_good [OF assms(1) run(3,4) rne _ run(6) assms(2)] run(5) by blast
          then show ?thesis using eq enough run(3,6) by (intro exI [of _ "Some ?a"] exI [of _ rb'] exI [of _ H']) auto
        qed
      qed
    qed
  qed
qed

subsection \<open>Initialisation\<close>

lemma align_addr:
  assumes "b + 7 < 2 ^ 64"
  shows "unat (EAF_ALIGN (of_nat b) sizeof_pointer) = (b + 7) div 8 * 8"
proof -
  have "EAF_ALIGN (of_nat b) sizeof_pointer = (of_nat (b + 7) :: size_t) AND NOT 7"
    by (simp add: EAF_ALIGN_def sizeof_pointer_def add.commute)
  moreover have "unat (of_nat (b + 7) :: size_t) = b + 7" using assms unat_of_nat [of "b + 7", where 'a = 64] by simp
  ultimately show ?thesis using align8 [of "of_nat (b + 7)"] by (simp only: minus_mod_eq_div_mult)
qed

lemma heap_cost: "unat eaf_ringbuffer_heap_cost = 64"
  by (simp add: eaf_ringbuffer_heap_cost_def EAF_ALIGN_def sizeof_ringbuffer_def sizeof_pointer_def)

lemma ring_fresh:
  assumes "limit rb < 2 ^ 64" "rb = ring_buffer_reinit rb"
  shows "ring rb H [] [] []"
proof -
  have "HEAD rb = None" "TAIL rb = None" "oldest_reserve rb = None" "writing rb = 0" "committed rb = 0" "reading rb = 0"
    by (subst assms(2), simp add: ring_buffer_reinit_def)+
  then show ?thesis using assms(1) by (simp add: ring_def circ_def limit_def)
qed

text \<open>The layout of a ring buffer. \<open>eaf_ringbuffer_init\<close> fails only when the header does not fit behind the
  alignment gap; otherwise the header is aligned and inside the block, the cache follows it and ends
  exactly at the end of the block, and the ring is empty.\<close>

theorem ring_init:
  assumes "buffer + unat sz < 2 ^ 64" "buffer + 7 < 2 ^ 64"
  shows "case eaf_ringbuffer_init buffer sz of
      None \<Rightarrow> unat sz \<le> ((buffer + 7) div 8 * 8 - buffer) + 64
    | Some (handler, rb) \<Rightarrow> 8 dvd handler \<and> buffer \<le> handler \<and> handler < buffer + 8 \<and>
        cache rb = handler + 64 \<and> limit rb = buffer + unat sz \<and> ring rb H [] [] []"
proof -
  define h where "h = (buffer + 7) div 8 * 8"
  have h: "unat (EAF_ALIGN (of_nat buffer) sizeof_pointer) = h" "buffer \<le> h" "h < buffer + 8" "8 dvd h"
    using align_addr [OF assms(2)] by (auto simp: h_def)
  have gap: "unat (ptr_diff h buffer) = h - buffer" using ptr_diff_nat h(2,3) assms(2) by simp
  have lead: "unat (ptr_diff h buffer + eaf_ringbuffer_heap_cost) = (h - buffer) + 64"
    using h(2,3) by (simp add: unat_word_ariths gap heap_cost)
  show ?thesis
  proof (cases "sz \<le> ptr_diff h buffer + eaf_ringbuffer_heap_cost")
    case True
    then show ?thesis using h lead by (simp add: eaf_ringbuffer_init_def Let_def word_le_nat_alt h_def [symmetric])
  next
    case False
    let ?rb = "ring_buffer_reinit \<lparr>cache = h + unat eaf_ringbuffer_heap_cost,
         capacity = sz - ptr_diff h buffer - eaf_ringbuffer_heap_cost,
         HEAD = None, TAIL = None, oldest_reserve = None, committed = 0, writing = 0, reading = 0\<rparr>"
    have room: "(h - buffer) + 64 < unat sz" using False lead by (simp add: word_le_nat_alt)
    have cap: "unat (sz - ptr_diff h buffer - eaf_ringbuffer_heap_cost) = unat sz - ((h - buffer) + 64)"
    proof -
      have "unat (sz - (ptr_diff h buffer + eaf_ringbuffer_heap_cost)) = unat sz - ((h - buffer) + 64)"
        using room lead by (subst unat_sub) (simp_all add: word_le_nat_alt)
      then show ?thesis by (simp add: diff_diff_eq)
    qed
    have lim: "limit ?rb = buffer + unat sz" "cache ?rb = h + 64"
      using cap room h(2) by (simp_all add: limit_def ring_buffer_reinit_def heap_cost)
    have "ring ?rb H [] [] []" using ring_fresh [of ?rb H] lim assms(1) by (simp add: ring_buffer_reinit_def)
    moreover have "eaf_ringbuffer_init buffer sz = Some (h, ?rb)" using False h(1) by (simp add: eaf_ringbuffer_init_def Let_def)
    ultimately show ?thesis using lim h by simp
  qed
qed

text \<open>An empty ring with room for two nodes of eight bytes.\<close>

definition ring_demo :: ringbuffer where
  "ring_demo = \<lparr>cache = 1064, capacity = 112, HEAD = None, TAIL = None, oldest_reserve = None,
     committed = 0, writing = 0, reading = 0\<rparr>"

lemma ring_demo: "eaf_ringbuffer_init 1000 176 = Some (1000, ring_demo)" "ring ring_demo H [] [] []"
proof -
  show "eaf_ringbuffer_init 1000 176 = Some (1000, ring_demo)" by code_simp
  show "ring ring_demo H [] [] []" by (rule ring_fresh) (simp_all add: ring_demo_def limit_def ring_buffer_reinit_def)
qed

theorem ring_init_witness: "case eaf_ringbuffer_init 1000 176 of None \<Rightarrow> False | Some (handler, rb) \<Rightarrow> ring rb (\<lambda>_. None) [] [] []"
proof -
  have "eaf_ringbuffer_init 1000 176 \<noteq> None" by code_simp
  then show ?thesis using ring_init [of 1000 176 "\<lambda>_. None"] by (auto split: option.splits)
qed

subsection \<open>Reserving\<close>

lemma reserved_result:
  assumes "reserved rb H rs w a len rb' H'" "sized len"
  shows "\<exists>ps'. ring rb' H' rs (w @ [a]) ps' \<and> stat H' a = stat_writing \<and> dlen H' a = len \<and>
    (\<forall>b \<in> set (rs @ w). stat H' b = stat H b \<and> dlen H' b = dlen H b \<and>
       (b + ncost H b \<le> a \<or> a + unat (eaf_ringbuffer_node_cost len) \<le> b)) \<and>
    cache rb \<le> a \<and> a + unat (eaf_ringbuffer_node_cost len) \<le> limit rb"
proof -
  obtain ps' where ring: "ring rb' H' rs (w @ [a]) ps'" and H': "stat H' = (stat H)(a := stat_writing)" "dlen H' = (dlen H)(a := len)"
    and rb': "cache rb' = cache rb" "capacity rb' = capacity rb"
    using assms(1) by (auto simp: reserved_def)
  note r = ringD [OF ring]
  have cost: "ncost H' = (ncost H)(a := unat (eaf_ringbuffer_node_cost len))" by (rule ncost_upd [OF H'(2)])
  have "b \<noteq> a" if "b \<in> set (rs @ w)" for b using r(1) that by auto
  moreover have "a \<in> set ps'" using r(2) by simp
  note fits_mem [OF r(7) this]
  ultimately show ?thesis
    using ring H' rb' cost ring_disjoint [OF ring, of _ a] by (intro exI [of _ ps']) (auto simp: limit_def)
qed

text \<open>C10: Reserving. On a well-formed ring \<open>eaf_ringbuffer_reserve\<close> returns a new youngest node in the state
  \<open>writing\<close> inside the cache that overlaps no other node, or \<open>NULL\<close> with nothing changed. It gives up
  nothing without the overwrite flag; with it, the oldest committed nodes in a row. Excluded is an
  overwrite that would reach the newest node of several.\<close>

theorem ring_reserve:
  assumes "ring rb H rs ws ps" "sized len"
    "flags AND eaf_ringbuffer_flag_overwrite = 0 \<or> length (rs @ ws) \<le> 1 \<or> overwrite_end rb H len \<noteq> HEAD rb"
  shows "\<exists>p rb' H'. eaf_ringbuffer_reserve rb len flags H = Some (p, rb', H') \<and>
    (case p of None \<Rightarrow> rb' = rb \<and> H' = H
     | Some a \<Rightarrow> \<exists>run w ps'. ws = run @ w \<and> (\<forall>x \<in> set run. stat H x = stat_committed) \<and>
         (flags AND eaf_ringbuffer_flag_overwrite = 0 \<longrightarrow> run = []) \<and>
         ring rb' H' rs (w @ [a]) ps' \<and> stat H' a = stat_writing \<and> dlen H' a = len \<and>
         (\<forall>b \<in> set (rs @ w). stat H' b = stat H b \<and> dlen H' b = dlen H b \<and>
            (b + ncost H b \<le> a \<or> a + unat (eaf_ringbuffer_node_cost len) \<le> b)) \<and>
         cache rb \<le> a \<and> a + unat (eaf_ringbuffer_node_cost len) \<le> limit rb)"
    (is "\<exists>p rb' H'. _ \<and> ?Q p rb' H'")
proof -
  let ?n = "eaf_ringbuffer_node_cost len"
  note r = ringD [OF assms(1)]
  have some: "?Q (Some a) rb' H'" if "ws = run @ w" "\<forall>x \<in> set run. stat H x = stat_committed"
    "flags AND eaf_ringbuffer_flag_overwrite = 0 \<longrightarrow> run = []" "reserved rb H rs w a len rb' H'" for a rb' H' run w
    using reserved_result [OF that(4) assms(2)] that(1-3) by (simp only: option.case) blast
  show ?thesis
  proof (cases "rs @ ws = []")
    case True
    then have e: "TAIL rb = None" "writing rb = 0" "reading rb = 0" "committed rb = 0" using r(10,15-17) by simp_all
    have eq: "eaf_ringbuffer_reserve rb len flags H = ring_buffer_reserve_empty rb len ?n H"
      using e(1) by (simp add: eaf_ringbuffer_reserve_def Let_def)
    show ?thesis
    proof (cases "?n \<le> capacity rb")
      case room: True
      obtain rb' H' where "ring_buffer_reserve_empty rb len ?n H = Some (Some (cache rb), rb', H')" "reserved rb H [] [] (cache rb) len rb' H'"
        using empty_good [OF e(1) r(8) e(2-4) assms(2) room, of H] by blast
      then show ?thesis using eq some [of "[]" ws "cache rb" rb' H'] True by auto
    next
      case False
      then have "ring_buffer_reserve_empty rb len ?n H = Some (None, rb, H)" by (simp add: ring_buffer_reserve_empty_def not_le)
      then show ?thesis using eq by simp
    qed
  next
    case False
    have "TAIL rb \<noteq> None" using ring_empty_iff [OF assms(1)] False by blast
    then have eq: "eaf_ringbuffer_reserve rb len flags H = ring_buffer_reserve_none_empty rb len ?n flags H"
      unfolding eaf_ringbuffer_reserve_def Let_def by (rule if_not_P)
    have overwrite: "\<exists>p rb' H'. ring_buffer_reserve_try_overwrite rb len ?n H = Some (p, rb', H') \<and> ?Q p rb' H'"
      if f: "flags AND eaf_ringbuffer_flag_overwrite \<noteq> 0"
    proof -
      have "0 < length (rs @ ws)" using False by (simp only: length_greater_0_conv) simp
      then have "length (rs @ ws) = 1 \<or> overwrite_end rb H len \<noteq> HEAD rb" using assms(3) f by linarith
      then obtain p rb' H' where p: "ring_buffer_reserve_try_overwrite rb len ?n H = Some (p, rb', H')"
        "case p of None \<Rightarrow> rb' = rb \<and> H' = H
         | Some a \<Rightarrow> \<exists>run w. ws = run @ w \<and> (\<forall>x \<in> set run. stat H x = stat_committed) \<and> reserved rb H rs w a len rb' H'"
        using try_overwrite_good [OF assms(1,2)] by blast
      have "?Q p rb' H'"
      proof (cases p)
        case (Some a)
        then obtain run w where "ws = run @ w" "\<forall>x \<in> set run. stat H x = stat_committed" "reserved rb H rs w a len rb' H'" using p(2) by auto
        then show ?thesis using some [of run w a rb' H'] f Some by blast
      qed (use p(2) in simp)
      then show ?thesis using p(1) by blast
    qed
    show ?thesis unfolding eq
    proof (rule reserve_none_empty_good [OF assms(1) False assms(2)])
      show "?Q None rb H" by simp
      show "?Q (Some a) rb' H'" if "reserved rb H rs ws a len rb' H'" for a rb' H'
        using some [of "[]" ws a rb' H'] that by simp
    qed (use overwrite in \<open>force, force\<close>)
  qed
qed

theorem ring_reserve_witness:
  "\<exists>a rb' H' ps'. eaf_ringbuffer_reserve ring_demo 8 0 (\<lambda>_. None) = Some (Some a, rb', H') \<and> ring rb' H' [] [a] ps'"
proof -
  have "sized 8" by (simp add: sized_def)
  then have "\<exists>p rb' H'. eaf_ringbuffer_reserve ring_demo 8 0 (\<lambda>_. None) = Some (p, rb', H') \<and>
      (\<forall>a. p = Some a \<longrightarrow> (\<exists>ps'. ring rb' H' [] [a] ps'))"
    using ring_reserve [OF ring_demo(2), of 8 0 "\<lambda>_. None"] by (auto split: option.splits)
  moreover have "map_option fst (eaf_ringbuffer_reserve ring_demo 8 0 (\<lambda>_. None)) = Some (Some 1064)" by code_simp
  ultimately show ?thesis by auto
qed

text \<open>A ring with two nodes, the first committed; the heap is that of the run.\<close>

definition ring_demo2 :: "(ringbuffer \<times> ring_heap) option" where
  "ring_demo2 = do {
     (_, rb, H) \<leftarrow> eaf_ringbuffer_reserve ring_demo 8 0 (\<lambda>_. None);
     (_, rb, H) \<leftarrow> eaf_ringbuffer_commit rb 1064 0 H;
     (_, rb, H) \<leftarrow> eaf_ringbuffer_reserve rb 8 0 H;
     Some (rb, H) }"

lemma ring_demo2:
  obtains rb H where "ring_demo2 = Some (rb, H)" "ring rb H [] [1064, 1120] [1064, 1120]"
    "stat H 1064 = stat_committed" "stat H 1120 = stat_writing"
proof -
  let ?rb = "\<lparr>cache = 1064, capacity = 112, HEAD = Some 1120, TAIL = Some 1064, oldest_reserve = Some 1064,
     committed = 1, writing = 1, reading = 0\<rparr>"
  let ?n1 = "\<lparr>chain_forward = 1120, chain_backward = 1120, time_newer = Some 1120, time_older = None,
     nstate = stat_committed, token_size = 8\<rparr>"
  let ?n2 = "\<lparr>chain_forward = 1064, chain_backward = 1064, time_newer = None, time_older = Some 1064,
     nstate = stat_writing, token_size = 8\<rparr>"
  have "map_option (\<lambda>(rb, H). (rb, H 1064, H 1120)) ring_demo2 = Some (?rb, Some ?n1, Some ?n2)" by code_simp
  then obtain H where H: "ring_demo2 = Some (?rb, H)" "H 1064 = Some ?n1" "H 1120 = Some ?n2" by auto
  have c: "eaf_ringbuffer_node_cost 8 = 56" by code_simp
  have f: "fwd H 1064 = 1120" "bwd H 1064 = 1120" "newer H 1064 = Some 1120" "older H 1064 = None" "stat H 1064 = stat_committed"
    "dlen H 1064 = 8" "fwd H 1120 = 1064" "bwd H 1120 = 1064" "newer H 1120 = None" "older H 1120 = Some 1064"
    "stat H 1120 = stat_writing" "dlen H 1120 = 8"
    using H(2,3) by (simp_all add: fwd_def bwd_def newer_def older_def stat_def dlen_def del: the_node)
  have "ring ?rb H [] [1064, 1120] [1064, 1120]"
    using H(2,3) f c unfolding ring_def
    by (simp add: circ_def limit_def ncost_def sized_def hd_opt_def last_opt_def dom_def)
  then show thesis using that H(1) f by blast
qed

subsection \<open>Consuming and committing\<close>

text \<open>Consuming. On a well-formed ring \<open>eaf_ringbuffer_consume\<close> takes the oldest node that is not being
  read, exactly when it is committed, and marks it \<open>reading\<close>; a node that is still written blocks the
  younger ones, so messages leave in the order they were reserved.\<close>

theorem ring_consume:
  assumes "ring rb H rs ws ps"
  shows "\<exists>p rb' H'. eaf_ringbuffer_consume rb H = Some (p, rb', H') \<and>
    (case ws of
       [] \<Rightarrow> p = None \<and> rb' = rb \<and> H' = H
     | a # w \<Rightarrow> if stat H a = stat_committed
         then p = Some a \<and> ring rb' H' (rs @ [a]) w ps \<and> stat H' = (stat H)(a := stat_reading) \<and> dlen H' = dlen H
         else p = None \<and> rb' = rb \<and> H' = H)"
proof (cases "ws = [] \<or> stat H (hd ws) \<noteq> stat_committed")
  case True
  then show ?thesis using consume_none [OF assms True] by (cases ws) simp_all
next
  case False
  then obtain a w where w: "ws = a # w" "stat H a = stat_committed" by (cases ws) simp_all
  note c = consume_good [OF assms [unfolded w(1)] w(2)]
  show ?thesis using c(2) w(2) unfolding w(1) c(1) by (simp add: node_set)
qed

theorem ring_consume_witness:
  "\<exists>rb H rb' H'. ring_demo2 = Some (rb, H) \<and> eaf_ringbuffer_consume rb H = Some (Some 1064, rb', H') \<and>
     ring rb' H' [1064] [1120] [1064, 1120]"
proof -
  obtain rb H where H: "ring_demo2 = Some (rb, H)" "ring rb H [] [1064, 1120] [1064, 1120]" "stat H 1064 = stat_committed"
    by (rule ring_demo2)
  show ?thesis using ring_consume [OF H(2)] H(1,3) by auto
qed

text \<open>What committing the token \<open>a\<close> means for the nodes being read, the other nodes and the states.\<close>

definition commit_spec :: "addr \<Rightarrow> u32 \<Rightarrow> addr list \<times> addr list \<times> (addr \<Rightarrow> ring_buffer_node_state) \<Rightarrow>
    int \<times> addr list \<times> addr list \<times> (addr \<Rightarrow> ring_buffer_node_state)" where
  "commit_spec a flags s = (case s of (rs, ws, st) \<Rightarrow>
     if st a = stat_writing then
       if flags AND eaf_ringbuffer_flag_discard \<noteq> 0 then (0, rs, remove1 a ws, st)
       else (0, rs, ws, st(a := stat_committed))
     else if flags AND eaf_ringbuffer_flag_discard = 0 then (0, remove1 a rs, ws, st)
     else if a = last rs then (0, butlast rs, a # ws, st(a := stat_committed))
     else if flags AND eaf_ringbuffer_flag_abandon \<noteq> 0 then (0, remove1 a rs, ws, st)
     else (- 1, rs, ws, st))"

text \<open>C11: Committing. Whatever the flags, \<open>eaf_ringbuffer_commit\<close> of a token that is written or read
  implements \<open>commit_spec\<close>: a written token is published in place or withdrawn, a read token is removed
  or, when it is the youngest being read, put back as the next to consume; otherwise it is abandoned
  or the call fails.\<close>

theorem ring_commit:
  assumes "ring rb H rs ws ps" "a \<in> set (rs @ ws)" "stat H a \<noteq> stat_committed"
  shows "\<exists>rb' H' ps' r rs' ws'. eaf_ringbuffer_commit rb a flags H = Some (r, rb', H') \<and> ring rb' H' rs' ws' ps' \<and>
    (r, rs', ws', stat H') = commit_spec a flags (rs, ws, stat H) \<and> dlen H' = dlen H"
proof -
  note r = ringD [OF assms(1)]
  have a: "a \<in> dom H" by (rule ring_live [OF assms(1,2)])
  show ?thesis
  proof (cases "stat H a = stat_writing")
    case True
    then have "a \<in> set ws" using assms(2) r(13) by auto
    note good = write_confirm_good [OF assms(1) this True] write_discard_good [OF assms(1) this True]
    have eq: "eaf_ringbuffer_commit rb a flags H = ring_buffer_commit_for_write rb a flags H"
      using a True by (simp add: eaf_ringbuffer_commit_def read_node)
    show ?thesis
    proof (cases "flags AND eaf_ringbuffer_flag_discard = 0")
      case confirm: True
      then show ?thesis using good(1) eq True by (simp add: ring_buffer_commit_for_write_def commit_spec_def) blast
    next
      case False
      then show ?thesis using good(2) eq True by (simp add: ring_buffer_commit_for_write_def commit_spec_def) blast
    qed
  next
    case False
    then have "stat H a = stat_reading" using assms(3) by (cases "stat H a") auto
    then have rd: "a \<in> set rs" using assms(2) r(14) by auto
    have drop: "\<exists>rb' H' ps'. ring_buffer_commit_for_consume_confirm rb a H = Some (0, rb', H') \<and>
        ring rb' H' (remove1 a rs) ws ps' \<and> stat H' = stat H \<and> dlen H' = dlen H"
      using consume_confirm_good [OF assms(1) rd] by blast
    have eq: "eaf_ringbuffer_commit rb a flags H = ring_buffer_commit_for_consume rb a flags H"
      using a False by (simp add: eaf_ringbuffer_commit_def read_node)
    have nr: "newer_is_reading (the (H a)) H = Some (a \<noteq> last rs)"
      using newer_reading [OF assms(1) rd] a by (simp add: read_node)
    consider (conf) "flags AND eaf_ringbuffer_flag_discard = 0"
      | (return) "flags AND eaf_ringbuffer_flag_discard \<noteq> 0" "a = last rs"
      | (abandon) "flags AND eaf_ringbuffer_flag_discard \<noteq> 0" "a \<noteq> last rs" "flags AND eaf_ringbuffer_flag_abandon \<noteq> 0"
      | (blocked) "flags AND eaf_ringbuffer_flag_discard \<noteq> 0" "a \<noteq> last rs" "flags AND eaf_ringbuffer_flag_abandon = 0"
      by blast
    then show ?thesis
    proof cases
      case conf
      then show ?thesis using drop eq False by (simp add: ring_buffer_commit_for_consume_def commit_spec_def)
    next
      case return
      have "rs \<noteq> []" using rd by auto
      then have split: "rs = butlast rs @ [a]" using return(2) by simp
      have "\<exists>rb' H'. ring_buffer_commit_for_consume_discard rb a flags H = Some (0, rb', H') \<and> ring rb' H' (butlast rs) (a # ws) ps \<and>
          stat H' = (stat H)(a := stat_committed) \<and> dlen H' = dlen H \<and> cache rb' = cache rb \<and> capacity rb' = capacity rb"
        by (rule consume_discard_good) (use assms(1) split in simp)
      then show ?thesis using eq return False by (simp add: ring_buffer_commit_for_consume_def commit_spec_def) blast
    next
      case abandon
      have "ring_buffer_commit_for_consume_discard rb a flags H = ring_buffer_commit_for_consume_confirm rb a H"
        using a nr abandon by (simp add: ring_buffer_commit_for_consume_discard_def read_node)
      then show ?thesis using drop eq abandon False by (simp add: ring_buffer_commit_for_consume_def commit_spec_def)
    next
      case blocked
      have "ring_buffer_commit_for_consume_discard rb a flags H = Some (- 1, rb, H)"
        using a nr blocked by (simp add: ring_buffer_commit_for_consume_discard_def read_node)
      then show ?thesis using eq blocked False assms(1) by (simp add: ring_buffer_commit_for_consume_def commit_spec_def) blast
    qed
  qed
qed

theorem ring_commit_witness:
  "\<exists>rb H rb' H' ps'. ring_demo2 = Some (rb, H) \<and>
     eaf_ringbuffer_commit rb 1120 eaf_ringbuffer_flag_discard H = Some (0, rb', H') \<and> ring rb' H' [] [1064] ps'"
proof -
  obtain rb H where H: "ring_demo2 = Some (rb, H)" "ring rb H [] [1064, 1120] [1064, 1120]" "stat H 1120 = stat_writing"
    by (rule ring_demo2)
  have "eaf_ringbuffer_flag_discard AND eaf_ringbuffer_flag_discard \<noteq> 0" by code_simp
  then have "\<exists>rb' H' ps'. eaf_ringbuffer_commit rb 1120 eaf_ringbuffer_flag_discard H = Some (0, rb', H') \<and> ring rb' H' [] [1064] ps'"
    using ring_commit [OF H(2), of 1120 eaf_ringbuffer_flag_discard] H(3) by (fastforce simp: commit_spec_def)
  then show ?thesis using H(1) by blast
qed


end
