(* ===== verification/MapTable.thy ===== *)
theory MapTable
  imports Comparators
begin

text \<open>
  What the clients of \<open>map.c\<close> use of it: their comparison functions read the records of the moment, so
  the map is used with the comparison function over the present memory.
\<close>

lemma map_ok_cmp [simp]: "map_ok key h (m\<lparr>cmp_fn := f\<rparr>) xs = map_ok key h m xs"
  by (simp add: map_ok_def)

lemma map_ok_key: "map_ok key h m xs \<Longrightarrow> (\<And>a. a \<in> set xs \<Longrightarrow> key' a = key a) \<Longrightarrow> map_ok key' h m xs"
  unfolding map_ok_def by (auto elim!: sorted_wrt_mono_rel [rotated])

lemma map_ok_inj:
  assumes "map_ok key h m xs"
  shows "inj_on key (set xs)"
proof -
  have "sorted_wrt (<) (map key xs)" using assms unfolding map_ok_def sorted_wrt_map by blast
  then show ?thesis unfolding strict_sorted_iff distinct_map by blast
qed

lemma find_key: "n \<in> set xs \<Longrightarrow> inj_on key (set xs) \<Longrightarrow> key n = k \<Longrightarrow> find (\<lambda>a. key a = k) xs = Some n"
  by (induction xs) (auto simp: inj_on_def)

lemma find_no_key: "(\<And>a. a \<in> set xs \<Longrightarrow> key a \<noteq> k) \<Longrightarrow> find (\<lambda>a. key a = k) xs = None"
  by (auto simp: find_None_iff)

context map_order begin

lemma insert_now:
  assumes "map_ok key h m xs" "cmp_arg m = arg" "n \<notin> set xs" "Suc (length xs) < 2 ^ 64" "\<And>a. a \<in> set xs \<Longrightarrow> key a \<noteq> key n"
  shows "\<exists>m' h'. eaf_map_insert (m\<lparr>cmp_fn := cmp\<rparr>) n h = Some (eaf_errno_success, m', h') \<and>
    map_ok key h' m' (insort_key key n xs) \<and> cmp_arg m' = arg \<and> same_off (insert n (set xs)) h h'"
proof -
  have "\<not> (\<exists>a \<in> set xs. key a = key n)" using assms(5) by blast
  then obtain m' h' ys zs where i: "eaf_map_insert (m\<lparr>cmp_fn := cmp\<rparr>) n h = Some (eaf_errno_success, m', h')"
    "xs = ys @ zs" "map_ok key h' m' (ys @ n # zs)" "cmp_arg m' = arg" "same_off (insert n (set xs)) h h'"
    using insert_spec [of h "m\<lparr>cmp_fn := cmp\<rparr>" xs n] assms by auto
  have "insort_key key n (ys @ zs) = ys @ n # zs"
    using i(3) by (intro insort_middle) (auto simp: map_ok_def sorted_wrt_append)
  then show ?thesis using i by auto
qed

lemma insert_duplicate:
  assumes "map_ok key h m xs" "cmp_arg m = arg" "n \<notin> set xs" "Suc (length xs) < 2 ^ 64" "a \<in> set xs" "key a = key n"
  shows "eaf_map_insert (m\<lparr>cmp_fn := cmp\<rparr>) n h = Some (eaf_errno_duplicate, m\<lparr>cmp_fn := cmp\<rparr>, h)"
proof -
  have "\<exists>a \<in> set xs. key a = key n" using assms(5,6) by blast
  then show ?thesis using insert_spec [of h "m\<lparr>cmp_fn := cmp\<rparr>" xs n] assms(1-4) by simp
qed

lemma find_now:
  assumes "map_ok key h m xs" "cmp_arg m = arg"
  shows "eaf_map_find (m\<lparr>cmp_fn := cmp\<rparr>) n h = Some (find (\<lambda>a. key a = key n) xs)"
  using searches [of h "m\<lparr>cmp_fn := cmp\<rparr>" xs n] assms by simp

end

end
