(* ===== verification/PPMessage.thy ===== *)
theory PPMessage
  imports MapTable ServiceProgram
begin

text \<open>
  The synchronous call of \<open>powerpack/message.c\<close>. A service that calls another one yields with the hook
  \<open>eaf_message_internal_proxy\<close>, which files a record of the call under the uuid of the request and
  sends the request in the name of the message service; the response is received by
  \<open>eaf_message_internal_response_handler\<close>, which moves the record to the table of answered calls and
  resumes the caller; the caller takes it out with \<open>eaf_message_internal_finalize\<close>.

  State. \<open>pm_state\<close> holds \<open>g_pp_message_ctx\<close>, the heap of the map nodes, the records (a record has the
  address of its node, which is its first member) and the world of the runtime. The comparison
  function reads the records of the moment (\<open>table_cmp\<close>). \<open>None\<close> is undefined behaviour or a failed
  assertion. The result of \<open>malloc\<close> and the address of the local variable \<open>tmp\<close> are parameters.
\<close>

subsection \<open>State\<close>

definition EAF_MESSAGE_ID :: u32 where "EAF_MESSAGE_ID = 0x00030000"

record pp_message_ctx =
  pm_objlock :: bool
  pend_table :: "unit eaf_map"
  ready_table :: "unit eaf_map"

type_synonym pm_records = "addr \<Rightarrow> pp_message_record option"

record pm_state =
  pm_ctx :: pp_message_ctx
  pm_heap :: rb_heap
  pm_recs :: pm_records
  pm_world :: world

definition g_pp_message_ctx :: pp_message_ctx where
  "g_pp_message_ctx = \<lparr>pm_objlock = False,
     pend_table = eaf_map_init (message_on_cmp_record (\<lambda>a. undefined)) (),
     ready_table = eaf_map_init (message_on_cmp_record (\<lambda>a. undefined)) ()\<rparr>"

definition table_cmp :: "pm_records \<Rightarrow> unit eaf_map \<Rightarrow> unit eaf_map" where
  "table_cmp R m = m\<lparr>cmp_fn := message_on_cmp_record (\<lambda>a. the (R a))\<rparr>"

subsection \<open>The critical sections\<close>

definition pend_insert :: "addr \<Rightarrow> pm_state \<Rightarrow> (int \<times> pm_state) option" where
  "pend_insert n st = do {
     (ret, m, h) \<leftarrow> eaf_map_insert (table_cmp (pm_recs st) (pend_table (pm_ctx st))) n (pm_heap st);
     Some (ret, st\<lparr>pm_ctx := (pm_ctx st)\<lparr>pend_table := m\<rparr>, pm_heap := h\<rparr>) }"

definition pend_erase :: "addr \<Rightarrow> pm_state \<Rightarrow> pm_state option" where
  "pend_erase n st = do {
     (m, h) \<leftarrow> eaf_map_erase (pend_table (pm_ctx st)) n (pm_heap st);
     Some (st\<lparr>pm_ctx := (pm_ctx st)\<lparr>pend_table := m\<rparr>, pm_heap := h\<rparr>) }"

definition ready_insert :: "addr \<Rightarrow> pm_state \<Rightarrow> (int \<times> pm_state) option" where
  "ready_insert n st = do {
     (ret, m, h) \<leftarrow> eaf_map_insert (table_cmp (pm_recs st) (ready_table (pm_ctx st))) n (pm_heap st);
     Some (ret, st\<lparr>pm_ctx := (pm_ctx st)\<lparr>ready_table := m\<rparr>, pm_heap := h\<rparr>) }"

definition ready_erase :: "addr \<Rightarrow> pm_state \<Rightarrow> pm_state option" where
  "ready_erase n st = do {
     (m, h) \<leftarrow> eaf_map_erase (ready_table (pm_ctx st)) n (pm_heap st);
     Some (st\<lparr>pm_ctx := (pm_ctx st)\<lparr>ready_table := m\<rparr>, pm_heap := h\<rparr>) }"

text \<open>The key of a search is a local record of which only the uuid is set.\<close>

definition key_record :: "u64 \<Rightarrow> pp_message_record" where
  "key_record u = \<lparr>pm_uuid = u, pm_orig_req = None, pm_orig_rsp = None, pm_orig_from = 0, pm_ret = 0\<rparr>"

definition table_find :: "(pp_message_ctx \<Rightarrow> unit eaf_map) \<Rightarrow> addr \<Rightarrow> u64 \<Rightarrow> pm_state \<Rightarrow> ptr option" where
  "table_find tab tmp u st =
     eaf_map_find (table_cmp ((pm_recs st)(tmp \<mapsto> key_record u)) (tab (pm_ctx st))) tmp (pm_heap st)"

subsection \<open>Operations\<close>

definition eaf_message_init :: "env \<Rightarrow> bool \<Rightarrow> fnptr \<Rightarrow> fnptr \<Rightarrow> pm_state \<Rightarrow> (int \<times> pm_state) option" where
  "eaf_message_init E lock_created message_on_init message_on_exit st =
     (if pm_objlock (pm_ctx st) then Some (eaf_errno_state, st)
      else let st = st\<lparr>pm_ctx := (pm_ctx st)\<lparr>pm_objlock := lock_created\<rparr>\<rparr> in
      if \<not> lock_created then Some (eaf_errno_memory, st)
      else do {
        let entry = \<lparr>msg_table = [], ep_on_init = message_on_init, ep_on_exit = message_on_exit\<rparr>;
        (ret, w) \<leftarrow> eaf_register E EAF_MESSAGE_ID entry (pm_world st);
        Some (ret, st\<lparr>pm_world := w\<rparr>) })"

definition eaf_message_exit :: "pm_state \<Rightarrow> pm_state" where
  "eaf_message_exit st =
     (if \<not> pm_objlock (pm_ctx st) then st else st\<lparr>pm_ctx := (pm_ctx st)\<lparr>pm_objlock := False\<rparr>\<rparr>)"

definition eaf_message_internal_proxy ::
  "env \<Rightarrow> ptr \<Rightarrow> nat \<times> nat \<Rightarrow> addr \<Rightarrow> pm_state \<Rightarrow> pm_state option" where
  "eaf_message_internal_proxy E mem local orig_req st = do {
     v \<leftarrow> srv (pm_world st) local;
     let id_to = ucast (s_unsafe v);
     full \<leftarrow> w_mheap (pm_world st) orig_req;
     let st = st\<lparr>pm_world := upd_srv local (\<lambda>v. v\<lparr>s_unsafe := uuid (msg full)\<rparr>) (pm_world st)\<rparr>;
     record \<leftarrow> mem;
     let st = st\<lparr>pm_recs := (pm_recs st)(record \<mapsto>
        \<lparr>pm_uuid = uuid (msg full), pm_orig_req = Some orig_req, pm_orig_rsp = None,
         pm_orig_from = s_id v, pm_ret = eaf_errno_success\<rparr>)\<rparr>;
     (ret, st) \<leftarrow> pend_insert record st;
     if ret \<noteq> 0 then None
     else do {
       (ret, w) \<leftarrow> eaf_send_req E EAF_MESSAGE_ID id_to orig_req (pm_world st);
       let st = st\<lparr>pm_world := w\<rparr>;
       if 0 \<le> ret then Some st
       else do {
         st \<leftarrow> pend_erase record st;
         (_, st) \<leftarrow> ready_insert record st;
         r \<leftarrow> pm_recs st record;
         let st = st\<lparr>pm_recs := (pm_recs st)(record \<mapsto> r\<lparr>pm_ret := ret\<rparr>)\<rparr>;
         v \<leftarrow> srv (pm_world st) local;
         (_, w) \<leftarrow> eaf_resume E (s_id v) (pm_world st);
         Some (st\<lparr>pm_world := w\<rparr>) } } }"

definition eaf_message_internal_response_handler :: "env \<Rightarrow> addr \<Rightarrow> addr \<Rightarrow> pm_state \<Rightarrow> pm_state option" where
  "eaf_message_internal_response_handler E tmp m st = do {
     full \<leftarrow> w_mheap (pm_world st) m;
     H \<leftarrow> eaf_msg_add_ref (w_mheap (pm_world st)) m;
     let st = st\<lparr>pm_world := (pm_world st)\<lparr>w_mheap := H\<rparr>\<rparr>;
     found \<leftarrow> table_find pend_table tmp (uuid (msg full)) st;
     it \<leftarrow> found;
     st \<leftarrow> pend_erase it st;
     (ret, st) \<leftarrow> ready_insert it st;
     if ret \<noteq> 0 then None
     else do {
       r \<leftarrow> pm_recs st it;
       let st = st\<lparr>pm_recs := (pm_recs st)(it \<mapsto> r\<lparr>pm_orig_rsp := Some m\<rparr>)\<rparr>;
       (ret, w) \<leftarrow> eaf_resume E (pm_orig_from r) (pm_world st);
       if ret \<noteq> 0 then None else Some (st\<lparr>pm_world := w\<rparr>) } }"

text \<open>The result, the response that is stored through the second argument, and the state.\<close>

definition eaf_message_internal_finalize :: "addr \<Rightarrow> u64 \<Rightarrow> pm_state \<Rightarrow> (int \<times> ptr \<times> pm_state) option" where
  "eaf_message_internal_finalize tmp u st = do {
     found \<leftarrow> table_find ready_table tmp u st;
     (case found of
        None \<Rightarrow> Some (eaf_errno_notfound, None, st)
      | Some it \<Rightarrow> do {
          st \<leftarrow> ready_erase it st;
          r \<leftarrow> pm_recs st it;
          orig_req \<leftarrow> pm_orig_req r;
          H \<leftarrow> eaf_msg_dec_ref (w_mheap (pm_world st)) orig_req;
          let st = st\<lparr>pm_world := (pm_world st)\<lparr>w_mheap := H\<rparr>, pm_recs := (pm_recs st)(it := None)\<rparr>;
          Some (eaf_errno_success, pm_orig_rsp r, st) }) }"

end
