(* ===== verification/ServiceClient.thy ===== *)
theory ServiceClient
  imports ServiceProgram
begin

text \<open>
  What the services of the power pack rely on when they use the runtime: sending, resuming and the
  reference counts keep its invariant \<open>winv\<close> and its \<open>frame\<close>, in an environment without hooks.
\<close>

text \<open>No hook interferes, and memory is allocated afresh; messages are allocated whenever asked for.\<close>

definition calm_env :: "env \<Rightarrow> bool" where
  "calm_env E \<longleftrightarrow> (\<forall>u w. is_hook u \<longrightarrow> e_ucode E u w = Some (0, w)) \<and>
     (\<forall>w r. e_alloc E w = Some r \<longrightarrow> w_recs w r = None) \<and>
     (\<forall>w n. finite (dom (w_mheap w)) \<longrightarrow>
        (\<exists>a. malloc (e_menv E w) n = Some a \<and> w_mheap w a = None \<and> 0 \<le> lock_init (e_menv E w)))"

lemma calm_quiet: "calm_env E \<Longrightarrow> quiet E w"
  by (simp add: calm_env_def quiet_def)

lemma calm_base: "calm_env base_env"
proof -
  have "\<exists>a. malloc (heap_env H) n = Some a \<and> H a = None \<and> 0 \<le> lock_init (heap_env H)" if fin: "finite (dom H)" for H :: mheap and n
  proof -
    obtain a where "a \<notin> dom H" using fin ex_new_if_finite [of "dom H"] infinite_UNIV_nat by blast
    then have "H a = None" by auto
    then obtain b where b: "fresh_from H 0 = Some b" using fresh_from_ex [of H 0 a] by auto
    then show ?thesis using fresh_from_None [OF b] by (simp add: heap_env_def)
  qed
  then show ?thesis by (auto simp: calm_env_def dest: fresh_from_None)
qed

lemma held_refcnt:
  assumes "held a w" "w_mheap w a = Some full"
  shows "refcnt full \<noteq> 0"
proof -
  have "0 < unat (refcnt full)" using assms by (simp add: held_def refs_def)
  then show ?thesis by (intro notI) simp
qed

lemma unsafe_good:
  fixes u :: u64
  assumes "winv w" "srv w s = Some v"
  defines "w' \<equiv> upd_srv s (\<lambda>v. v\<lparr>s_unsafe := u\<rparr>) w"
  shows "winv w'" "frame {} w w'" "w_mheap w' = w_mheap w" "held a w' = held a w" "srv w' s = Some (v\<lparr>s_unsafe := u\<rparr>)"
proof -
  have "srv_ok v" using srv_okD [OF assms(1,2)] .
  then show "winv w'" unfolding w'_def by (intro winv_upd_srv [OF assms(1,2)]) (auto simp: srv_ok_def srv_recs_def)
  show "frame {} w w'" unfolding w'_def using assms(2) by (intro frame_upd_srv) (auto simp: srv_frame_def)
  show "w_mheap w' = w_mheap w" unfolding w'_def by simp
  have "wrecs w' = wrecs w" unfolding w'_def by (rule wrecs_upd_srv_same [OF assms(2)]) (simp add: srv_recs_def)
  then show "held a w' = held a w" unfolding held_def w'_def by simp
  show "srv w' s = Some (v\<lparr>s_unsafe := u\<rparr>)" using assms(2) by (simp add: w'_def)
qed

lemma add_ref_good:
  assumes "winv w" "w_mheap w m = Some f" "refcnt f + 1 \<noteq> 0"
  shows "\<exists>H. eaf_msg_add_ref (w_mheap w) m = Some H \<and> winv (w\<lparr>w_mheap := H\<rparr>) \<and> held m (w\<lparr>w_mheap := H\<rparr>)"
proof -
  let ?H = "(w_mheap w)(m \<mapsto> f\<lparr>refcnt := refcnt f + 1\<rparr>)"
  have n: "unat (refcnt f + 1) = unat (refcnt f) + 1" using assms(3) unatSuc [of "refcnt f"] by (simp add: add.commute)
  then have r: "refs ?H b = (if b = m then refs (w_mheap w) m + 1 else refs (w_mheap w) b)" for b
    using assms(2) by (simp add: refs_def)
  have "winv (w\<lparr>w_mheap := ?H\<rparr>)" using r finite_heap [OF assms(1)] by (intro winv_mheap [OF assms(1)]) auto
  moreover have "count (image_mset (rmsg (w_recs w)) (wrecs w)) m \<le> refs (w_mheap w) m"
    using winvD(4) [OF assms(1)] by (simp add: mem_inv_def memok_def)
  then have "held m (w\<lparr>w_mheap := ?H\<rparr>)" using r [of m] by (simp add: held_def)
  ultimately show ?thesis using assms(2) by (simp add: eaf_msg_add_ref_def)
qed

lemma resume_yielded:
  assumes "winv w" "quiet E w" "eaf_service_find_service i w = Some (Some s)" "srv w s = Some v" "s_state v = eaf_service_state_yield"
  shows "\<exists>w'. eaf_resume E i w = Some (eaf_errno_success, w') \<and> winv w' \<and> frame {} w w' \<and> kept w w' \<and>
    srv w' s = Some (v\<lparr>s_state := eaf_service_state_busy\<rparr>)"
proof -
  have "hook_service_resume E i w = Some w"
    using quiet_hook [OF assms(2) winvD(1) [OF assms(1)]] by (simp add: hook_service_resume_def hook_service_def)
  then have "eaf_resume E i w = Some (eaf_errno_success, sem_post (fst s) (eaf_service_set_state s eaf_service_state_busy w))"
    using assms(3-5) by (simp add: eaf_resume_def)
  moreover obtain r w' where "eaf_resume E i w = Some (r, w')" "winv w'" "frame {} w w'" "kept w w'"
    using resume_good [OF assms(1,2), of i] by (auto simp: goodr_def)
  ultimately show ?thesis using assms(4) by auto
qed

text \<open>A change of a service that keeps its identifier and entry does not change where it is found.\<close>

lemma find_in_services_cong: "map s_id ss = map s_id ss' \<Longrightarrow> find_in_services i ss j = find_in_services i ss' j"
proof (induction ss arbitrary: ss' j)
  case (Cons s ss)
  then show ?case by (cases ss') auto
qed simp

lemma find_in_groups_cong:
  "map (\<lambda>g. map s_id (g_services g)) gs = map (\<lambda>g. map s_id (g_services g)) gs' \<Longrightarrow> find_in_groups i gs k = find_in_groups i gs' k"
proof (induction gs arbitrary: gs' k)
  case (Cons g gs)
  then obtain g' gs1 where g: "gs' = g' # gs1" "map s_id (g_services g) = map s_id (g_services g')"
    "map (\<lambda>g. map s_id (g_services g)) gs = map (\<lambda>g. map s_id (g_services g)) gs1" by (cases gs') auto
  show ?case using Cons.IH [OF g(3)] find_in_services_cong [OF g(2), of i 0] by (simp add: g(1) split: option.splits)
qed simp

lemma map_list_update_same: "(\<And>x. f (g x) = f x) \<Longrightarrow> map f (xs[k := g (xs ! k)]) = map f xs"
  by (metis list_update_beyond list_update_id map_update not_less nth_map)

lemma find_service_upd:
  assumes "\<And>v. s_id (f v) = s_id v" "\<And>v. s_entry (f v) = s_entry v"
  shows "eaf_service_find_service i (upd_srv s f w) = eaf_service_find_service i w"
proof (cases "w_ctx w")
  case (Some c)
  let ?gs = "(c_groups c)[fst s := upd_srv_g (snd s) f (c_groups c ! fst s)]"
  have "map s_id (g_services (upd_srv_g (snd s) f g)) = map s_id (g_services g)" for g
    by (simp add: upd_srv_g_def map_list_update_same [of s_id f, OF assms(1)])
  then have "map (\<lambda>g. map s_id (g_services g)) ?gs = map (\<lambda>g. map s_id (g_services g)) (c_groups c)"
    by (rule map_list_update_same)
  then have "find_in_groups i ?gs 0 = find_in_groups i (c_groups c) 0" by (rule find_in_groups_cong)
  moreover have "w_ctx (upd_srv s f w) = Some (c\<lparr>c_groups := ?gs\<rparr>)"
    using Some by (simp add: upd_srv_def upd_grp_def upd_ctx_def)
  ultimately show ?thesis using Some assms(2)
    by (cases "find_in_groups i (c_groups c) 0"; cases "srv w s") (auto simp: eaf_service_find_service_def)
qed (simp add: eaf_service_find_service_def upd_srv_def upd_grp_def upd_ctx_def)

lemma create_req_good:
  assumes "calm_env E" "winv w"
  obtains req H f where "eaf_msg_create_req (e_menv E w) (w_mheap w) i sz fn = (Some req, H)" "winv (w\<lparr>w_mheap := H\<rparr>)"
    "held req (w\<lparr>w_mheap := H\<rparr>)" "H req = Some f" "refcnt f = 1" "data_size f = sz"
proof -
  obtain a where a: "malloc (e_menv E w) (sizeof_msg_full (e_menv E w) + sz) = Some a" "w_mheap w a = None" "0 \<le> lock_init (e_menv E w)"
    using assms(1) finite_heap [OF assms(2)] unfolding calm_env_def by blast
  let ?m = "fresh_memory (e_menv E w)"
  let ?f = "?m\<lparr>refcnt := 1, data_size := sz,
    msg := (msg ?m)\<lparr>msg_id := i, msg_from := - 1, encs := EAF_MSG_ENCS_REQ, uuid := of_nat a, orig := fn\<rparr>\<rparr>"
  let ?H = "(w_mheap w)(a \<mapsto> ?f)"
  have run: "eaf_msg_create_req (e_menv E w) (w_mheap w) i sz fn = (Some a, ?H)"
    using a by (simp add: eaf_msg_create_req_def eaf_msg_create_def upd_msg_def Let_def)
  have r: "refs (w_mheap w) b \<le> refs ?H b" for b using a(2) by (simp add: refs_def)
  then have ok: "winv (w\<lparr>w_mheap := ?H\<rparr>)" using finite_heap [OF assms(2)] by (intro winv_mheap [OF assms(2)]) auto
  have "count (image_mset (rmsg (w_recs w)) (wrecs w)) a \<le> refs (w_mheap w) a"
    using winvD(4) [OF assms(2)] by (simp add: mem_inv_def memok_def)
  then have "held a (w\<lparr>w_mheap := ?H\<rparr>)" using a(2) by (simp add: held_def refs_def)
  then show thesis using that [OF run ok] by simp
qed

lemma send_release:
  assumes "calm_env E" "winv w" "held req w" "w_mheap w req = Some f" "refcnt f + 1 \<noteq> 0"
  obtains ret w1 H where "eaf_send_req E from to req w = Some (ret, w1)" "eaf_msg_dec_ref (w_mheap w1) req = Some H"
    "winv (w1\<lparr>w_mheap := H\<rparr>)" "frame {} w (w1\<lparr>w_mheap := H\<rparr>)"
proof -
  have "goodr {} w (eaf_send_req E from to req w) (\<lambda>_ w'. kept w w')"
    using assms held_refcnt [OF assms(3,4)] by (intro send_good [OF assms(2) calm_quiet [OF assms(1)], of req f]) (auto simp: calm_env_def)
  then obtain ret w1 where w1: "eaf_send_req E from to req w = Some (ret, w1)" "winv w1" "frame {} w w1" "held req w1"
    using assms(3) by (auto simp: goodr_def kept_def)
  obtain H where H: "eaf_msg_dec_ref (w_mheap w1) req = Some H" "winv (w1\<lparr>w_mheap := H\<rparr>)" using dec_good [OF w1(2,4)] by blast
  show thesis by (rule that [OF w1(1) H frame_trans [OF w1(3) frame_mheap]])
qed

text \<open>A response is created, sent and released.\<close>

lemma create_rsp_good:
  assumes "calm_env E" "winv w"
  obtains rsp H f where "eaf_msg_create_rsp (e_menv E w) (w_mheap w) req sz = (Some rsp, H)" "winv (w\<lparr>w_mheap := H\<rparr>)"
    "held rsp (w\<lparr>w_mheap := H\<rparr>)" "H rsp = Some f" "refcnt f = 1" "data_size f = sz"
proof -
  obtain a where a: "malloc (e_menv E w) (sizeof_msg_full (e_menv E w) + sz) = Some a" "w_mheap w a = None" "0 \<le> lock_init (e_menv E w)"
    using assms(1) finite_heap [OF assms(2)] unfolding calm_env_def by blast
  let ?m = "fresh_memory (e_menv E w)"
  let ?f = "?m\<lparr>refcnt := 1, data_size := sz,
    msg := (msg ?m)\<lparr>msg_id := msg_id req, msg_from := - 1, encs := 0, uuid := uuid req, orig := orig req\<rparr>\<rparr>"
  let ?H = "(w_mheap w)(a \<mapsto> ?f)"
  have run: "eaf_msg_create_rsp (e_menv E w) (w_mheap w) req sz = (Some a, ?H)"
    using a by (simp add: eaf_msg_create_rsp_def eaf_msg_create_def upd_msg_def Let_def)
  have r: "refs (w_mheap w) b \<le> refs ?H b" for b using a(2) by (simp add: refs_def)
  then have ok: "winv (w\<lparr>w_mheap := ?H\<rparr>)" using finite_heap [OF assms(2)] by (intro winv_mheap [OF assms(2)]) auto
  have "count (image_mset (rmsg (w_recs w)) (wrecs w)) a \<le> refs (w_mheap w) a"
    using winvD(4) [OF assms(2)] by (simp add: mem_inv_def memok_def)
  then have "held a (w\<lparr>w_mheap := ?H\<rparr>)" using a(2) by (simp add: held_def refs_def)
  then show thesis using that [OF run ok] by simp
qed

lemma send_rsp_release:
  assumes "calm_env E" "winv w" "held rsp w" "w_mheap w rsp = Some f" "refcnt f + 1 \<noteq> 0"
  obtains ret w1 H where "eaf_send_rsp E from to rsp w = Some (ret, w1)" "eaf_msg_dec_ref (w_mheap w1) rsp = Some H"
    "winv (w1\<lparr>w_mheap := H\<rparr>)" "frame {} w (w1\<lparr>w_mheap := H\<rparr>)"
proof -
  have "goodr {} w (eaf_send_rsp E from to rsp w) (\<lambda>_ w'. kept w w')"
    using assms held_refcnt [OF assms(3,4)] by (intro send_good [OF assms(2) calm_quiet [OF assms(1)], of rsp f]) (auto simp: calm_env_def)
  then obtain ret w1 where w1: "eaf_send_rsp E from to rsp w = Some (ret, w1)" "winv w1" "frame {} w w1" "held rsp w1"
    using assms(3) by (auto simp: goodr_def kept_def)
  obtain H where H: "eaf_msg_dec_ref (w_mheap w1) rsp = Some H" "winv (w1\<lparr>w_mheap := H\<rparr>)" using dec_good [OF w1(2,4)] by blast
  show thesis by (rule that [OF w1(1) H frame_trans [OF w1(3) frame_mheap]])
qed

end
