(* ===== verification/PPMessageProps.thy ===== *)
theory PPMessageProps
  imports PPMessage ServiceClient ServiceProps
begin

text \<open>
  The two tables of the synchronous call hold disjoint records with different uuids (\<open>pm_tables\<close>), every
  operation keeps this and the invariant of the runtime, and a call that is answered ends with the
  response and leaves no trace.
\<close>

subsection \<open>The tables\<close>

abbreviation pm_key :: "pm_records \<Rightarrow> addr \<Rightarrow> u64" where
  "pm_key R \<equiv> \<lambda>a. pm_uuid (the (R a))"

definition pm_tables :: "pm_state \<Rightarrow> addr list \<Rightarrow> addr list \<Rightarrow> bool" where
  "pm_tables st ps rs \<longleftrightarrow>
     map_ok (pm_key (pm_recs st)) (pm_heap st) (pend_table (pm_ctx st)) ps \<and>
     map_ok (pm_key (pm_recs st)) (pm_heap st) (ready_table (pm_ctx st)) rs \<and>
     set ps \<inter> set rs = {} \<and> set (ps @ rs) \<subseteq> dom (pm_recs st) \<and> inj_on (pm_key (pm_recs st)) (set (ps @ rs))"

lemma pm_tablesD:
  assumes "pm_tables st ps rs"
  shows "map_ok (pm_key (pm_recs st)) (pm_heap st) (pend_table (pm_ctx st)) ps"
    "map_ok (pm_key (pm_recs st)) (pm_heap st) (ready_table (pm_ctx st)) rs"
    "set ps \<inter> set rs = {}" "set (ps @ rs) \<subseteq> dom (pm_recs st)" "inj_on (pm_key (pm_recs st)) (set (ps @ rs))"
  using assms by (simp_all add: pm_tables_def)

lemma pm_tables_world [simp]: "pm_tables (st\<lparr>pm_world := w\<rparr>) ps rs = pm_tables st ps rs"
  by (simp add: pm_tables_def)

text \<open>Records outside the tables may change, and the fields other than the uuid.\<close>

lemma pm_tables_recs:
  assumes "pm_tables st ps rs" "set (ps @ rs) \<subseteq> dom R" "\<And>a. a \<in> set (ps @ rs) \<Longrightarrow> pm_key R a = pm_key (pm_recs st) a"
  shows "pm_tables (st\<lparr>pm_recs := R\<rparr>) ps rs"
proof -
  note t = pm_tablesD [OF assms(1)]
  have "inj_on (pm_key R) (set (ps @ rs))" using t(5) assms(3) by (simp add: inj_on_def)
  moreover have "map_ok (pm_key R) (pm_heap st) (pend_table (pm_ctx st)) ps" "map_ok (pm_key R) (pm_heap st) (ready_table (pm_ctx st)) rs"
    using map_ok_key [OF t(1), of "pm_key R"] map_ok_key [OF t(2), of "pm_key R"] assms(3) by auto
  ultimately show ?thesis using t(3) assms(2) by (simp add: pm_tables_def)
qed

lemma pm_tables_upd:
  assumes "pm_tables st ps rs" "n \<notin> set (ps @ rs) \<or> pm_uuid x = pm_key (pm_recs st) n"
  shows "pm_tables (st\<lparr>pm_recs := (pm_recs st)(n \<mapsto> x)\<rparr>) ps rs"
proof (rule pm_tables_recs [OF assms(1)])
  show "set (ps @ rs) \<subseteq> dom ((pm_recs st)(n \<mapsto> x))" using pm_tablesD(4) [OF assms(1)] by auto
  show "pm_key ((pm_recs st)(n \<mapsto> x)) a = pm_key (pm_recs st) a" if "a \<in> set (ps @ rs)" for a
    using assms(2) that by (cases "a = n") auto
qed

lemma pm_tables_free:
  assumes "pm_tables st ps rs" "n \<notin> set (ps @ rs)"
  shows "pm_tables (st\<lparr>pm_recs := (pm_recs st)(n := None)\<rparr>) ps rs"
proof (rule pm_tables_recs [OF assms(1)])
  show "set (ps @ rs) \<subseteq> dom ((pm_recs st)(n := None))" using pm_tablesD(4) [OF assms(1)] assms(2) by auto
  show "pm_key ((pm_recs st)(n := None)) a = pm_key (pm_recs st) a" if "a \<in> set (ps @ rs)" for a
    using assms(2) that by (cases "a = n") simp_all
qed

lemma pend_insert_ok:
  assumes "pm_tables st ps rs" "n \<in> dom (pm_recs st)" "n \<notin> set (ps @ rs)" "Suc (length ps) < 2 ^ 64"
    "\<And>a. a \<in> set (ps @ rs) \<Longrightarrow> pm_key (pm_recs st) a \<noteq> pm_key (pm_recs st) n"
  obtains C h where "pend_insert n st = Some (0, st\<lparr>pm_ctx := C, pm_heap := h\<rparr>)"
    "pm_tables (st\<lparr>pm_ctx := C, pm_heap := h\<rparr>) (insort_key (pm_key (pm_recs st)) n ps) rs" "pm_objlock C = pm_objlock (pm_ctx st)"
proof -
  note t = pm_tablesD [OF assms(1)]
  have n: "n \<notin> set ps" "\<And>a. a \<in> set ps \<Longrightarrow> pm_key (pm_recs st) a \<noteq> pm_key (pm_recs st) n"
    using assms(3,5) by simp_all
  obtain m h where i: "eaf_map_insert (table_cmp (pm_recs st) (pend_table (pm_ctx st))) n (pm_heap st) = Some (eaf_errno_success, m, h)"
    "map_ok (pm_key (pm_recs st)) h m (insort_key (pm_key (pm_recs st)) n ps)" "same_off (insert n (set ps)) (pm_heap st) h"
    using message_map.insert_now [OF t(1) _ n(1) assms(4) n(2)] unfolding table_cmp_def by auto
  have "map_ok (pm_key (pm_recs st)) h (ready_table (pm_ctx st)) rs"
    using map_ok_frame [OF t(2) i(3)] assms(3) t(3) by auto
  moreover have "inj_on (pm_key (pm_recs st)) (insert n (set (ps @ rs)))" using t(5) assms(5) by fastforce
  ultimately have *: "pm_tables (st\<lparr>pm_ctx := (pm_ctx st)\<lparr>pend_table := m\<rparr>, pm_heap := h\<rparr>) (insort_key (pm_key (pm_recs st)) n ps) rs"
    using i(2) t(3,4) assms(2,3) by (simp add: pm_tables_def set_insort_key)
  have "pend_insert n st = Some (0, st\<lparr>pm_ctx := (pm_ctx st)\<lparr>pend_table := m\<rparr>, pm_heap := h\<rparr>)"
    using i(1) by (simp add: pend_insert_def eaf_errno_success_def)
  then show thesis by (rule that [OF _ *]) simp
qed

lemma ready_insert_ok:
  assumes "pm_tables st ps rs" "n \<in> dom (pm_recs st)" "n \<notin> set (ps @ rs)" "Suc (length rs) < 2 ^ 64"
    "\<And>a. a \<in> set (ps @ rs) \<Longrightarrow> pm_key (pm_recs st) a \<noteq> pm_key (pm_recs st) n"
  obtains C h where "ready_insert n st = Some (0, st\<lparr>pm_ctx := C, pm_heap := h\<rparr>)"
    "pm_tables (st\<lparr>pm_ctx := C, pm_heap := h\<rparr>) ps (insort_key (pm_key (pm_recs st)) n rs)" "pm_objlock C = pm_objlock (pm_ctx st)"
proof -
  note t = pm_tablesD [OF assms(1)]
  have n: "n \<notin> set rs" "\<And>a. a \<in> set rs \<Longrightarrow> pm_key (pm_recs st) a \<noteq> pm_key (pm_recs st) n"
    using assms(3,5) by simp_all
  obtain m h where i: "eaf_map_insert (table_cmp (pm_recs st) (ready_table (pm_ctx st))) n (pm_heap st) = Some (eaf_errno_success, m, h)"
    "map_ok (pm_key (pm_recs st)) h m (insort_key (pm_key (pm_recs st)) n rs)" "same_off (insert n (set rs)) (pm_heap st) h"
    using message_map.insert_now [OF t(2) _ n(1) assms(4) n(2)] unfolding table_cmp_def by auto
  have "map_ok (pm_key (pm_recs st)) h (pend_table (pm_ctx st)) ps"
    using map_ok_frame [OF t(1) i(3)] assms(3) t(3) by auto
  moreover have "inj_on (pm_key (pm_recs st)) (insert n (set (ps @ rs)))" using t(5) assms(5) by fastforce
  ultimately have *: "pm_tables (st\<lparr>pm_ctx := (pm_ctx st)\<lparr>ready_table := m\<rparr>, pm_heap := h\<rparr>) ps (insort_key (pm_key (pm_recs st)) n rs)"
    using i(2) t(3,4) assms(2,3) by (simp add: pm_tables_def set_insort_key)
  have "ready_insert n st = Some (0, st\<lparr>pm_ctx := (pm_ctx st)\<lparr>ready_table := m\<rparr>, pm_heap := h\<rparr>)"
    using i(1) by (simp add: ready_insert_def eaf_errno_success_def)
  then show thesis by (rule that [OF _ *]) simp
qed

lemma pend_erase_ok:
  assumes "pm_tables st ps rs" "n \<in> set ps"
  obtains C h where "pend_erase n st = Some (st\<lparr>pm_ctx := C, pm_heap := h\<rparr>)"
    "pm_tables (st\<lparr>pm_ctx := C, pm_heap := h\<rparr>) (remove1 n ps) rs" "pm_objlock C = pm_objlock (pm_ctx st)"
proof -
  note t = pm_tablesD [OF assms(1)]
  obtain m h where e: "eaf_map_erase (pend_table (pm_ctx st)) n (pm_heap st) = Some (m, h)"
    "map_ok (pm_key (pm_recs st)) h m (remove1 n ps)" "same_off (set ps) (pm_heap st) h"
    using erase_spec [OF t(1) assms(2)] by blast
  have sub: "set (remove1 n ps) \<subseteq> set ps" by (rule set_remove1_subset)
  have "map_ok (pm_key (pm_recs st)) h (ready_table (pm_ctx st)) rs" using map_ok_frame [OF t(2) e(3)] t(3) by auto
  moreover have "inj_on (pm_key (pm_recs st)) (set (remove1 n ps @ rs))" by (rule inj_on_subset [OF t(5)]) (use sub in auto)
  ultimately have *: "pm_tables (st\<lparr>pm_ctx := (pm_ctx st)\<lparr>pend_table := m\<rparr>, pm_heap := h\<rparr>) (remove1 n ps) rs"
    using e(2) t(3,4) sub by (auto simp: pm_tables_def)
  have "pend_erase n st = Some (st\<lparr>pm_ctx := (pm_ctx st)\<lparr>pend_table := m\<rparr>, pm_heap := h\<rparr>)"
    using e(1) by (simp add: pend_erase_def)
  then show thesis by (rule that [OF _ *]) simp
qed

lemma ready_erase_ok:
  assumes "pm_tables st ps rs" "n \<in> set rs"
  obtains C h where "ready_erase n st = Some (st\<lparr>pm_ctx := C, pm_heap := h\<rparr>)"
    "pm_tables (st\<lparr>pm_ctx := C, pm_heap := h\<rparr>) ps (remove1 n rs)" "pm_objlock C = pm_objlock (pm_ctx st)"
proof -
  note t = pm_tablesD [OF assms(1)]
  obtain m h where e: "eaf_map_erase (ready_table (pm_ctx st)) n (pm_heap st) = Some (m, h)"
    "map_ok (pm_key (pm_recs st)) h m (remove1 n rs)" "same_off (set rs) (pm_heap st) h"
    using erase_spec [OF t(2) assms(2)] by blast
  have sub: "set (remove1 n rs) \<subseteq> set rs" by (rule set_remove1_subset)
  have "map_ok (pm_key (pm_recs st)) h (pend_table (pm_ctx st)) ps" using map_ok_frame [OF t(1) e(3)] t(3) by auto
  moreover have "inj_on (pm_key (pm_recs st)) (set (ps @ remove1 n rs))" by (rule inj_on_subset [OF t(5)]) (use sub in auto)
  ultimately have *: "pm_tables (st\<lparr>pm_ctx := (pm_ctx st)\<lparr>ready_table := m\<rparr>, pm_heap := h\<rparr>) ps (remove1 n rs)"
    using e(2) t(3,4) sub by (auto simp: pm_tables_def)
  have "ready_erase n st = Some (st\<lparr>pm_ctx := (pm_ctx st)\<lparr>ready_table := m\<rparr>, pm_heap := h\<rparr>)"
    using e(1) by (simp add: ready_erase_def)
  then show thesis by (rule that [OF _ *]) simp
qed

lemma table_find_ok:
  assumes "map_ok (pm_key (pm_recs st)) (pm_heap st) (tab (pm_ctx st)) xs" "set xs \<subseteq> dom (pm_recs st)" "tmp \<notin> dom (pm_recs st)"
  shows "table_find tab tmp u st = Some (find (\<lambda>a. pm_key (pm_recs st) a = u) xs)"
proof -
  let ?R = "(pm_recs st)(tmp \<mapsto> key_record u)"
  have "map_ok (pm_key ?R) (pm_heap st) (tab (pm_ctx st)) xs" by (rule map_ok_key [OF assms(1)]) (use assms(2,3) in auto)
  from message_map.find_now [OF this]
  have "table_find tab tmp u st = Some (find (\<lambda>a. pm_key ?R a = pm_key ?R tmp) xs)"
    by (simp add: table_find_def table_cmp_def)
  moreover have "find (\<lambda>a. pm_key ?R a = pm_key ?R tmp) xs = find (\<lambda>a. pm_key (pm_recs st) a = u) xs"
    by (rule find_cong) (use assms(2,3) in \<open>auto simp: key_record_def\<close>)
  ultimately show ?thesis by simp
qed

subsection \<open>The operations\<close>

lemma response_ok:
  assumes "pm_tables st ps rs" "winv (pm_world st)" "calm_env E" "w_mheap (pm_world st) m = Some full" "refcnt full + 1 \<noteq> 0"
    "n \<in> set ps" "pm_recs st n = Some rc" "pm_uuid rc = uuid (msg full)" "tmp \<notin> dom (pm_recs st)" "Suc (length rs) < 2 ^ 64"
    "eaf_service_find_service (pm_orig_from rc) (pm_world st) = Some (Some s)" "srv (pm_world st) s = Some v" "s_state v = eaf_service_state_yield"
  shows "\<exists>st'. eaf_message_internal_response_handler E tmp m st = Some st' \<and>
    winv (pm_world st') \<and> frame {} (pm_world st) (pm_world st') \<and> held m (pm_world st') \<and>
    srv (pm_world st') s = Some (v\<lparr>s_state := eaf_service_state_busy\<rparr>) \<and>
    pm_recs st' = (pm_recs st)(n \<mapsto> rc\<lparr>pm_orig_rsp := Some m\<rparr>) \<and>
    pm_tables st' (remove1 n ps) (insort_key (pm_key (pm_recs st')) n rs)"
proof -
  note t = pm_tablesD [OF assms(1)]
  obtain H where H: "eaf_msg_add_ref (w_mheap (pm_world st)) m = Some H" "winv ((pm_world st)\<lparr>w_mheap := H\<rparr>)" "held m ((pm_world st)\<lparr>w_mheap := H\<rparr>)"
    using add_ref_good [OF assms(2,4,5)] by blast
  let ?w = "(pm_world st)\<lparr>w_mheap := H\<rparr>"
  let ?st = "st\<lparr>pm_world := ?w\<rparr>"
  have t1: "pm_tables ?st ps rs" using assms(1) by simp
  have dist: "distinct ps" by (rule map_ok_distinct [OF t(1)])
  have nr: "n \<notin> set rs" "n \<notin> set (remove1 n ps @ rs)" using t(3) assms(6) dist by auto
  have keys: "pm_key (pm_recs st) b \<noteq> pm_key (pm_recs st) n" if "b \<in> set (remove1 n ps @ rs)" for b
  proof -
    have "b \<in> set (ps @ rs)" "n \<in> set (ps @ rs)" "b \<noteq> n" using that assms(6) nr(2) set_remove1_subset [of n ps] by auto
    then show ?thesis using t(5) by (auto dest: inj_onD)
  qed
  have "table_find pend_table tmp (uuid (msg full)) ?st = Some (find (\<lambda>b. pm_key (pm_recs ?st) b = uuid (msg full)) ps)"
    by (rule table_find_ok) (use t(1,4) assms(9) in auto)
  also have "find (\<lambda>b. pm_key (pm_recs ?st) b = uuid (msg full)) ps = Some n"
    by (rule find_key [OF assms(6)]) (use t(5) assms(7,8) in \<open>auto intro: inj_on_subset\<close>)
  finally have found: "table_find pend_table tmp (uuid (msg full)) ?st = Some (Some n)" .
  obtain C h where er: "pend_erase n ?st = Some (?st\<lparr>pm_ctx := C, pm_heap := h\<rparr>)"
    "pm_tables (?st\<lparr>pm_ctx := C, pm_heap := h\<rparr>) (remove1 n ps) rs"
    by (rule pend_erase_ok [OF t1 assms(6)])
  let ?st1 = "?st\<lparr>pm_ctx := C, pm_heap := h\<rparr>"
  obtain C2 h2 where ins: "ready_insert n ?st1 = Some (0, ?st1\<lparr>pm_ctx := C2, pm_heap := h2\<rparr>)"
    "pm_tables (?st1\<lparr>pm_ctx := C2, pm_heap := h2\<rparr>) (remove1 n ps) (insort_key (pm_key (pm_recs st)) n rs)"
    by (rule ready_insert_ok [OF er(2) _ nr(2)]) (use keys assms(7,10) in auto)
  let ?R = "(pm_recs st)(n \<mapsto> rc\<lparr>pm_orig_rsp := Some m\<rparr>)"
  have key: "pm_key ?R = pm_key (pm_recs st)" using assms(7) by auto
  have t2: "pm_tables (?st1\<lparr>pm_ctx := C2, pm_heap := h2, pm_recs := ?R\<rparr>) (remove1 n ps) (insort_key (pm_key ?R) n rs)"
    using pm_tables_upd [OF ins(2), of n "rc\<lparr>pm_orig_rsp := Some m\<rparr>"] assms(7) unfolding key by simp
  have find: "eaf_service_find_service (pm_orig_from rc) ?w = Some (Some s)"
    using assms(11) by (simp add: find_service_heap)
  obtain w' where w': "eaf_resume E (pm_orig_from rc) ?w = Some (eaf_errno_success, w')" "winv w'" "frame {} ?w w'" "kept ?w w'"
    "srv w' s = Some (v\<lparr>s_state := eaf_service_state_busy\<rparr>)"
    using resume_yielded [OF H(2) calm_quiet [OF assms(3)] find] assms(12,13) by auto
  have "held m w'" using w'(4) H(3) by (simp add: kept_def)
  moreover have "frame {} (pm_world st) w'" by (rule frame_trans [OF frame_mheap w'(3)])
  moreover have "eaf_message_internal_response_handler E tmp m st =
      Some (?st1\<lparr>pm_ctx := C2, pm_heap := h2, pm_recs := ?R, pm_world := w'\<rparr>)"
    using assms(4,7) H(1) found er(1) ins(1) w'(1) by (simp add: eaf_message_internal_response_handler_def eaf_errno_success_def)
  ultimately show ?thesis using w'(2,5) t2
    by (intro exI [of _ "?st1\<lparr>pm_ctx := C2, pm_heap := h2, pm_recs := ?R, pm_world := w'\<rparr>"]) (simp add: pm_tables_def)
qed

lemma finalize_ok:
  assumes "pm_tables st ps rs" "winv (pm_world st)" "n \<in> set rs" "pm_recs st n = Some rc" "tmp \<notin> dom (pm_recs st)"
    "pm_orig_req rc = Some a" "held a (pm_world st)"
  shows "\<exists>st'. eaf_message_internal_finalize tmp (pm_uuid rc) st = Some (eaf_errno_success, pm_orig_rsp rc, st') \<and>
    pm_tables st' ps (remove1 n rs) \<and> pm_recs st' = (pm_recs st)(n := None) \<and>
    winv (pm_world st') \<and> frame {} (pm_world st) (pm_world st') \<and>
    eaf_msg_dec_ref (w_mheap (pm_world st)) a = Some (w_mheap (pm_world st'))"
proof -
  note t = pm_tablesD [OF assms(1)]
  have "table_find ready_table tmp (pm_uuid rc) st = Some (find (\<lambda>b. pm_key (pm_recs st) b = pm_uuid rc) rs)"
    by (rule table_find_ok) (use t(2,4) assms(5) in auto)
  also have "find (\<lambda>b. pm_key (pm_recs st) b = pm_uuid rc) rs = Some n"
    by (rule find_key [OF assms(3)]) (use t(5) assms(4) in \<open>auto intro: inj_on_subset\<close>)
  finally have found: "table_find ready_table tmp (pm_uuid rc) st = Some (Some n)" .
  obtain C h where er: "ready_erase n st = Some (st\<lparr>pm_ctx := C, pm_heap := h\<rparr>)"
    "pm_tables (st\<lparr>pm_ctx := C, pm_heap := h\<rparr>) ps (remove1 n rs)"
    by (rule ready_erase_ok [OF assms(1,3)])
  obtain H where H: "eaf_msg_dec_ref (w_mheap (pm_world st)) a = Some H" "winv ((pm_world st)\<lparr>w_mheap := H\<rparr>)"
    using dec_good [OF assms(2,7)] by blast
  have "n \<notin> set (ps @ remove1 n rs)" using t(3) assms(3) map_ok_distinct [OF t(2)] by auto
  from pm_tables_free [OF er(2) this]
  have "pm_tables (st\<lparr>pm_ctx := C, pm_heap := h, pm_recs := (pm_recs st)(n := None)\<rparr>) ps (remove1 n rs)" by simp
  then show ?thesis using found er(1) H assms(4,6)
    by (intro exI [of _ "st\<lparr>pm_ctx := C, pm_heap := h, pm_world := (pm_world st)\<lparr>w_mheap := H\<rparr>, pm_recs := (pm_recs st)(n := None)\<rparr>"])
      (simp add: eaf_message_internal_finalize_def pm_tables_def)
qed

text \<open>Starting a call. The proxy keeps the invariant of the runtime and the contract of a yield hook. When
  the request is accepted the call is filed under the uuid of the request among the pending ones, with
  the caller to resume; when it is refused, it is filed among the answered ones with the error, and
  the caller is resumed.\<close>

lemma proxy_ok:
  assumes "pm_tables st ps rs" "winv (pm_world st)" "calm_env E" "held a (pm_world st)"
    "w_mheap (pm_world st) a = Some full" "refcnt full + 1 \<noteq> 0" "srv (pm_world st) s = Some v" "pm_recs st r = None"
    "\<forall>n \<in> set (ps @ rs). pm_key (pm_recs st) n \<noteq> uuid (msg full)" "length (ps @ rs) + 1 < 2 ^ 64"
  shows "\<exists>ret w1 st'. eaf_send_req E EAF_MESSAGE_ID (ucast (s_unsafe v)) a
        (upd_srv s (\<lambda>v. v\<lparr>s_unsafe := uuid (msg full)\<rparr>) (pm_world st)) = Some (ret, w1) \<and>
     eaf_message_internal_proxy E (Some r) s a st = Some st' \<and>
     winv (pm_world st') \<and> frame {} (pm_world st) (pm_world st') \<and>
     pm_recs st' = (pm_recs st)(r \<mapsto> \<lparr>pm_uuid = uuid (msg full), pm_orig_req = Some a, pm_orig_rsp = None,
        pm_orig_from = s_id v, pm_ret = (if ret < 0 then ret else 0)\<rparr>) \<and>
     (if 0 \<le> ret then pm_tables st' (insort_key (pm_key (pm_recs st')) r ps) rs
      else pm_tables st' ps (insort_key (pm_key (pm_recs st')) r rs))"
proof -
  let ?u = "uuid (msg full)"
  define rc where "rc = \<lparr>pm_uuid = ?u, pm_orig_req = Some a, pm_orig_rsp = None, pm_orig_from = s_id v, pm_ret = 0\<rparr>"
  define R where "R = (pm_recs st)(r \<mapsto> rc)"
  define w0 where "w0 = upd_srv s (\<lambda>v. v\<lparr>s_unsafe := ?u\<rparr>) (pm_world st)"
  note t = pm_tablesD [OF assms(1)]
  note w0 = unsafe_good [OF assms(2,7), where u = "uuid (msg full)", folded w0_def]
  have r: "r \<notin> set (ps @ rs)" using t(4) assms(8) by auto
  have "goodr {} w0 (eaf_send_req E EAF_MESSAGE_ID (ucast (s_unsafe v)) a w0) (\<lambda>_ w'. kept w0 w')"
    using assms(3) w0(3) assms(5) held_refcnt [OF assms(4,5)]
    by (intro send_good [OF w0(1) calm_quiet [OF assms(3)], of a full]) (auto simp: calm_env_def assms(6))
  then obtain ret w1 where w1: "eaf_send_req E EAF_MESSAGE_ID (ucast (s_unsafe v)) a w0 = Some (ret, w1)" "winv w1" "frame {} w0 w1"
    by (auto simp: goodr_def)
  obtain v1 where "srv w1 s = Some v1" "srv_frame (v\<lparr>s_unsafe := ?u\<rparr>) v1"
    by (rule frame_srvD [OF w1(3) _ w0(5)]) auto
  then have v1: "srv w1 s = Some v1" "s_id v1 = s_id v" by (simp_all add: srv_frame_def)
  let ?st = "st\<lparr>pm_world := w0, pm_recs := R\<rparr>"
  have tab: "pm_tables ?st ps rs"
    using pm_tables_upd [OF assms(1), of r rc] r unfolding R_def [symmetric] by (simp add: pm_tables_def)
  have rdom: "r \<in> dom (pm_recs ?st)" by (simp add: R_def)
  have key: "pm_key R n \<noteq> pm_key R r" if "n \<in> set (ps @ rs)" for n
    using assms(9) that r by (auto simp: R_def rc_def)
  obtain C h where ins: "pend_insert r ?st = Some (0, ?st\<lparr>pm_ctx := C, pm_heap := h\<rparr>)"
    "pm_tables (?st\<lparr>pm_ctx := C, pm_heap := h\<rparr>) (insort_key (pm_key R) r ps) rs"
    by (rule pend_insert_ok [OF tab rdom r]) (use key assms(10) in auto)
  have run: "eaf_message_internal_proxy E (Some r) s a st =
    (if 0 \<le> ret then Some (?st\<lparr>pm_ctx := C, pm_heap := h, pm_world := w1\<rparr>)
     else do {
       st \<leftarrow> pend_erase r (?st\<lparr>pm_ctx := C, pm_heap := h, pm_world := w1\<rparr>);
       (_, st) \<leftarrow> ready_insert r st;
       rc \<leftarrow> pm_recs st r;
       let st = st\<lparr>pm_recs := (pm_recs st)(r \<mapsto> rc\<lparr>pm_ret := ret\<rparr>)\<rparr>;
       v \<leftarrow> srv (pm_world st) s;
       (_, w) \<leftarrow> eaf_resume E (s_id v) (pm_world st);
       Some (st\<lparr>pm_world := w\<rparr>) })"
    using assms(5,7) ins(1) w1(1)
    by (simp add: eaf_message_internal_proxy_def w0_def [symmetric] rc_def [symmetric] R_def [symmetric] eaf_errno_success_def)
  let ?st1 = "?st\<lparr>pm_ctx := C, pm_heap := h, pm_world := w1\<rparr>"
  have tab1: "pm_tables ?st1 (insort_key (pm_key R) r ps) rs" using ins(2) by (simp add: pm_tables_def)
  show ?thesis
  proof (cases "0 \<le> ret")
    case True
    have recs: "R = (pm_recs st)(r \<mapsto> \<lparr>pm_uuid = ?u, pm_orig_req = Some a, pm_orig_rsp = None,
        pm_orig_from = s_id v, pm_ret = (if ret < 0 then ret else 0)\<rparr>)" using True by (simp add: R_def rc_def)
    show ?thesis
      using w1(1,2) run tab1 frame_trans [OF w0(2) w1(3)] True recs unfolding w0_def [symmetric]
      by (intro exI [of _ ret] exI [of _ w1] exI [of _ ?st1]) simp
  next
    case False
    obtain C2 h2 where er: "pend_erase r ?st1 = Some (?st1\<lparr>pm_ctx := C2, pm_heap := h2\<rparr>)"
      "pm_tables (?st1\<lparr>pm_ctx := C2, pm_heap := h2\<rparr>) ps rs"
      by (rule pend_erase_ok [OF tab1, of r]) (auto simp: set_insort_key remove1_insort_key)
    obtain C3 h3 where ins2: "ready_insert r (?st1\<lparr>pm_ctx := C2, pm_heap := h2\<rparr>) = Some (0, ?st1\<lparr>pm_ctx := C3, pm_heap := h3\<rparr>)"
      "pm_tables (?st1\<lparr>pm_ctx := C3, pm_heap := h3\<rparr>) ps (insort_key (pm_key R) r rs)"
      by (rule ready_insert_ok [OF er(2) _ r]) (use key assms(10) rdom in auto)
    obtain x w2 where w2: "eaf_resume E (s_id v) w1 = Some (x, w2)" "winv w2" "frame {} w1 w2"
      using resume_good [OF w1(2) calm_quiet [OF assms(3)], of "s_id v"] by (auto simp: goodr_def)
    let ?R = "R(r \<mapsto> rc\<lparr>pm_ret := ret\<rparr>)"
    let ?st3 = "?st1\<lparr>pm_ctx := C3, pm_heap := h3, pm_recs := ?R, pm_world := w2\<rparr>"
    have recs: "?R = (pm_recs st)(r \<mapsto> \<lparr>pm_uuid = ?u, pm_orig_req = Some a, pm_orig_rsp = None,
        pm_orig_from = s_id v, pm_ret = (if ret < 0 then ret else 0)\<rparr>)" using False by (simp add: R_def rc_def)
    have same: "pm_key ?R = pm_key R" by (auto simp: R_def)
    have "pm_tables (?st1\<lparr>pm_ctx := C3, pm_heap := h3, pm_recs := ?R\<rparr>) ps (insort_key (pm_key R) r rs)"
      using pm_tables_upd [OF ins2(2), of r "rc\<lparr>pm_ret := ret\<rparr>"] by (simp add: R_def)
    then have tab3: "pm_tables ?st3 ps (insort_key (pm_key ?R) r rs)" unfolding same by (simp add: pm_tables_def)
    have "eaf_message_internal_proxy E (Some r) s a st = Some ?st3"
      using run False er(1) ins2(1) v1 w2(1) by (simp add: R_def)
    then show ?thesis
      using False w1(1) w2(2) tab3 recs frame_trans [OF frame_trans [OF w0(2) w1(3)] w2(3)] unfolding w0_def [symmetric]
      by (intro exI [of _ ret] exI [of _ w1] exI [of _ ?st3]) simp
  qed
qed

subsection \<open>Calls\<close>

text \<open>C13: A call that is answered. Between the proxy, the response handler and the end of the call the
  world may change as it likes, as long as the request is held and the caller still waits. The caller
  is resumed by the response, gets the message with a reference of its own, and the tables and the
  records are as before; all three steps keep the invariant of the runtime and its frame.\<close>

theorem message_call_roundtrip:
  assumes "pm_tables st ps rs" "winv (pm_world st)" "calm_env E" "held a (pm_world st)"
    "w_mheap (pm_world st) a = Some full" "refcnt full + 1 \<noteq> 0" "srv (pm_world st) s = Some v" "pm_recs st r = None"
    "\<forall>n \<in> set (ps @ rs). pm_key (pm_recs st) n \<noteq> uuid (msg full)" "length (ps @ rs) + 1 < 2 ^ 64"
    "eaf_send_req E EAF_MESSAGE_ID (ucast (s_unsafe v)) a
       (upd_srv s (\<lambda>v. v\<lparr>s_unsafe := uuid (msg full)\<rparr>) (pm_world st)) = Some (ret, w1)" "0 \<le> ret"
    and answer: "winv w2" "w_mheap w2 m = Some rsp" "refcnt rsp + 1 \<noteq> 0" "uuid (msg rsp) = uuid (msg full)"
    "eaf_service_find_service (s_id v) w2 = Some (Some c)" "srv w2 c = Some v2" "s_state v2 = eaf_service_state_yield"
    "tmp \<notin> dom (pm_recs st)" "tmp \<noteq> r"
    and "winv w3" "held a w3"
  shows "\<exists>st1 st2 st3.
    eaf_message_internal_proxy E (Some r) s a st = Some st1 \<and>
    eaf_message_internal_response_handler E tmp m (st1\<lparr>pm_world := w2\<rparr>) = Some st2 \<and>
    srv (pm_world st2) c = Some (v2\<lparr>s_state := eaf_service_state_busy\<rparr>) \<and> held m (pm_world st2) \<and>
    eaf_message_internal_finalize tmp (uuid (msg full)) (st2\<lparr>pm_world := w3\<rparr>) = Some (eaf_errno_success, Some m, st3) \<and>
    eaf_msg_dec_ref (w_mheap w3) a = Some (w_mheap (pm_world st3)) \<and>
    pm_tables st3 ps rs \<and> pm_recs st3 = pm_recs st \<and>
    winv (pm_world st1) \<and> frame {} (pm_world st) (pm_world st1) \<and>
    winv (pm_world st2) \<and> frame {} w2 (pm_world st2) \<and>
    winv (pm_world st3) \<and> frame {} w3 (pm_world st3)"
proof -
  define rc where "rc = \<lparr>pm_uuid = uuid (msg full), pm_orig_req = Some a, pm_orig_rsp = None, pm_orig_from = s_id v, pm_ret = 0\<rparr>"
  obtain st1 where st1: "eaf_message_internal_proxy E (Some r) s a st = Some st1" "winv (pm_world st1)"
    "frame {} (pm_world st) (pm_world st1)" "pm_recs st1 = (pm_recs st)(r \<mapsto> rc)" "pm_tables st1 (insort_key (pm_key (pm_recs st1)) r ps) rs"
    using proxy_ok [OF assms(1-10)] assms(11,12) by (auto simp: rc_def)
  have r: "r \<notin> set (ps @ rs)" using pm_tablesD(4) [OF assms(1)] assms(8) by auto
  let ?ps = "insort_key (pm_key (pm_recs st1)) r ps"
  have t1: "pm_tables (st1\<lparr>pm_world := w2\<rparr>) ?ps rs" using st1(5) by simp
  obtain st2 where st2: "eaf_message_internal_response_handler E tmp m (st1\<lparr>pm_world := w2\<rparr>) = Some st2" "winv (pm_world st2)"
    "frame {} w2 (pm_world st2)" "held m (pm_world st2)" "srv (pm_world st2) c = Some (v2\<lparr>s_state := eaf_service_state_busy\<rparr>)"
    "pm_recs st2 = (pm_recs st)(r \<mapsto> rc\<lparr>pm_orig_rsp := Some m\<rparr>)"
    "pm_tables st2 (remove1 r ?ps) (insort_key (pm_key (pm_recs st2)) r rs)"
    using response_ok [OF t1 _ assms(3) _ answer(3), where n = r and rc = rc and tmp = tmp and s = c and v = v2 and m = m] st1(4) answer assms(10)
    by (auto simp: rc_def set_insort_key)
  have t2: "pm_tables (st2\<lparr>pm_world := w3\<rparr>) ps (insort_key (pm_key (pm_recs st2)) r rs)"
    using st2(7) by (simp add: remove1_insort_key)
  obtain st3 where st3: "eaf_message_internal_finalize tmp (uuid (msg full)) (st2\<lparr>pm_world := w3\<rparr>) = Some (eaf_errno_success, Some m, st3)"
    "pm_tables st3 ps (remove1 r (insort_key (pm_key (pm_recs st2)) r rs))" "pm_recs st3 = (pm_recs st2)(r := None)"
    "winv (pm_world st3)" "frame {} w3 (pm_world st3)" "eaf_msg_dec_ref (w_mheap w3) a = Some (w_mheap (pm_world st3))"
    using finalize_ok [OF t2, of r "rc\<lparr>pm_orig_rsp := Some m\<rparr>" tmp a] st2(6) assms(20-23)
    by (auto simp: rc_def set_insort_key)
  have "pm_recs st3 = pm_recs st" using st3(3) st2(6) assms(8) by (simp add: fun_upd_idem)
  then show ?thesis using st1 st2 st3 by (auto simp: remove1_insort_key)
qed

text \<open>A call whose request is refused. The proxy keeps the error in the record and resumes the caller, but
  \<open>eaf_message_internal_finalize\<close> never reads it: the caller is told success and gets no response,
  which the macro \<open>EAF_MESSAGE_CALL_FILBER\<close> then releases.\<close>

theorem message_call_error:
  assumes "pm_tables st ps rs" "winv (pm_world st)" "calm_env E" "held a (pm_world st)"
    "w_mheap (pm_world st) a = Some full" "refcnt full + 1 \<noteq> 0" "srv (pm_world st) s = Some v" "pm_recs st r = None"
    "\<forall>n \<in> set (ps @ rs). pm_key (pm_recs st) n \<noteq> uuid (msg full)" "length (ps @ rs) + 1 < 2 ^ 64"
    "eaf_send_req E EAF_MESSAGE_ID (ucast (s_unsafe v)) a
       (upd_srv s (\<lambda>v. v\<lparr>s_unsafe := uuid (msg full)\<rparr>) (pm_world st)) = Some (ret, w1)" "ret < 0"
    "tmp \<notin> dom (pm_recs st)" "tmp \<noteq> r" "winv w2" "held a w2"
  shows "\<exists>st1 st2. eaf_message_internal_proxy E (Some r) s a st = Some st1 \<and>
    map_option pm_ret (pm_recs st1 r) = Some ret \<and>
    eaf_message_internal_finalize tmp (uuid (msg full)) (st1\<lparr>pm_world := w2\<rparr>) = Some (eaf_errno_success, None, st2) \<and>
    pm_tables st2 ps rs \<and> pm_recs st2 = pm_recs st"
proof -
  define rc where "rc = \<lparr>pm_uuid = uuid (msg full), pm_orig_req = Some a, pm_orig_rsp = None, pm_orig_from = s_id v, pm_ret = ret\<rparr>"
  obtain st1 where st1: "eaf_message_internal_proxy E (Some r) s a st = Some st1" "pm_recs st1 = (pm_recs st)(r \<mapsto> rc)"
    "pm_tables st1 ps (insort_key (pm_key (pm_recs st1)) r rs)"
    using proxy_ok [OF assms(1-10)] assms(11,12) by (auto simp: rc_def)
  have r: "r \<notin> set (ps @ rs)" using pm_tablesD(4) [OF assms(1)] assms(8) by auto
  have t1: "pm_tables (st1\<lparr>pm_world := w2\<rparr>) ps (insort_key (pm_key (pm_recs st1)) r rs)" using st1(3) by simp
  obtain st2 where st2: "eaf_message_internal_finalize tmp (uuid (msg full)) (st1\<lparr>pm_world := w2\<rparr>) = Some (eaf_errno_success, None, st2)"
    "pm_tables st2 ps (remove1 r (insort_key (pm_key (pm_recs st1)) r rs))" "pm_recs st2 = (pm_recs st1)(r := None)"
    using finalize_ok [OF t1, of r rc tmp a] st1(2) assms(13-16) by (auto simp: rc_def set_insort_key)
  have "pm_recs st2 = pm_recs st" using st2(3) st1(2) assms(8) by (simp add: fun_upd_idem)
  then show ?thesis using st1 st2 by (auto simp: remove1_insort_key rc_def)
qed

text \<open>The witnesses: a yielded service of \<open>sys_demo\<close> that holds a request at 9 calls service 2, or a service
  that does not exist.\<close>

definition pm_demo :: "u64 \<Rightarrow> world \<Rightarrow> pm_state" where
  "pm_demo to w = \<lparr>pm_ctx = g_pp_message_ctx, pm_heap = (\<lambda>_. undefined), pm_recs = (\<lambda>_. None),
     pm_world = upd_srv (0, 1) (\<lambda>v. v\<lparr>s_unsafe := to\<rparr>) (with_request w)\<rparr>"

lemma pm_demo_tables: "pm_tables (pm_demo to w) [] []"
  by (simp add: pm_tables_def pm_demo_def g_pp_message_ctx_def init_ok)

lemma pm_demo_recs: "pm_recs (pm_demo to w) = (\<lambda>_. None)"
  by (simp add: pm_demo_def)

lemma pm_demo:
  assumes "to = 0 \<or> to = 2"
  obtains w ph l v where "sys_demo demo_yielded = Some (w, ph, l)" "winv (pm_world (pm_demo to w))" "held 9 (pm_world (pm_demo to w))"
    "w_mheap (pm_world (pm_demo to w)) 9 = Some \<lparr>msg = \<lparr>msg_id = 7, msg_from = 0, encs = EAF_MSG_ENCS_REQ, uuid = 9, orig = 6\<rparr>,
     refcnt = 1, data_size = 0\<rparr>" "srv (pm_world (pm_demo to w)) (0, 1) = Some v" "s_unsafe v = to" "s_id v = 2"
    "s_state v = eaf_service_state_yield" "eaf_service_find_service 2 (pm_world (pm_demo to w)) = Some (Some (0, 1))"
    "w_mheap (pm_world (pm_demo to w)) 10 = None"
    "map_option fst (eaf_send_req base_env EAF_MESSAGE_ID (ucast to) 9 (upd_srv (0, 1) (\<lambda>v. v\<lparr>s_unsafe := 9\<rparr>) (pm_world (pm_demo to w)))) =
       Some (if to = 0 then eaf_errno_notfound else eaf_errno_success)"
proof -
  let ?send = "\<lambda>to w. map_option fst (eaf_send_req base_env EAF_MESSAGE_ID (ucast to) 9
    (upd_srv (0, 1) (\<lambda>v. v\<lparr>s_unsafe := 9\<rparr>) (pm_world (pm_demo to w))))"
  have "map_option (\<lambda>(w, ph, l). (map_option (\<lambda>v. (s_id v, s_state v)) (srv w (0, 1)), w_mheap w 9, w_mheap w 10, ?send 0 w, ?send 2 w, ph,
      eaf_service_find_service 2 (pm_world (pm_demo 0 w)), eaf_service_find_service 2 (pm_world (pm_demo 2 w)))) (sys_demo demo_yielded) =
    Some (Some (2, eaf_service_state_yield), None, None, Some eaf_errno_notfound, Some eaf_errno_success, [T_loop], Some (Some (0, 1)), Some (Some (0, 1)))" by code_simp
  then obtain w l v where s: "sys_demo demo_yielded = Some (w, [T_loop], l)" "srv w (0, 1) = Some v" "s_id v = 2"
    "s_state v = eaf_service_state_yield" "w_mheap w 9 = None" "eaf_service_find_service 2 (pm_world (pm_demo to w)) = Some (Some (0, 1))" "w_mheap w 10 = None"
    "?send to w = Some (if to = 0 then eaf_errno_notfound else eaf_errno_success)" using assms by auto
  have inv: "winv w" using reachable_inv [OF demo_user demo_finite demo_reachable [OF s(1)]] by simp
  have r: "refs (w_mheap w) b \<le> refs (w_mheap (with_request w)) b" for b using s(5) by (simp add: with_request_def refs_def)
  have ok: "winv (with_request w)" unfolding with_request_def
    by (rule winv_mheap [OF inv]) (use r finite_heap [OF inv] in \<open>auto simp: with_request_def\<close>)
  have "count (image_mset (rmsg (w_recs w)) (wrecs w)) 9 \<le> refs (w_mheap w) 9"
    using winvD(4) [OF inv] by (simp add: mem_inv_def memok_def)
  then have held: "held 9 (with_request w)" using s(5) by (simp add: held_def with_request_def refs_def)
  have v: "srv (with_request w) (0, 1) = Some v" using s(2) by (simp add: with_request_def)
  note u = unsafe_good [OF ok v, where u = to]
  show thesis
    by (rule that [OF s(1), of "v\<lparr>s_unsafe := to\<rparr>"]) (use u held s(3,4,6-8) in \<open>simp_all add: pm_demo_def with_request_def\<close>)
qed

definition with_response :: "world \<Rightarrow> world" where
  "with_response w = w\<lparr>w_mheap := (w_mheap w)(10 \<mapsto> \<lparr>msg = \<lparr>msg_id = 7, msg_from = 0, encs = 0, uuid = 9, orig = 6\<rparr>,
     refcnt = 1, data_size = 0\<rparr>)\<rparr>"

lemma with_response:
  assumes "winv w" "w_mheap w 10 = None"
  shows "winv (with_response w)"
  unfolding with_response_def
  by (rule winv_mheap [OF assms(1)]) (use assms(2) finite_heap [OF assms(1)] in \<open>auto simp: refs_def\<close>)

theorem message_call_roundtrip_witness:
  "\<exists>w ph l st1 st2 st3. sys_demo demo_yielded = Some (w, ph, l) \<and>
     eaf_message_internal_proxy base_env (Some 50) (0, 1) 9 (pm_demo 2 w) = Some st1 \<and>
     eaf_message_internal_response_handler base_env 60 10 (st1\<lparr>pm_world := with_response (pm_world (pm_demo 2 w))\<rparr>) = Some st2 \<and>
     eaf_message_internal_finalize 60 9 (st2\<lparr>pm_world := pm_world (pm_demo 2 w)\<rparr>) = Some (eaf_errno_success, Some 10, st3)"
proof -
  have "(2 :: u64) = 0 \<or> (2 :: u64) = 2" by simp
  then obtain w ph l v where s: "sys_demo demo_yielded = Some (w, ph, l)" "winv (pm_world (pm_demo 2 w))" "held 9 (pm_world (pm_demo 2 w))"
    "w_mheap (pm_world (pm_demo 2 w)) 9 = Some \<lparr>msg = \<lparr>msg_id = 7, msg_from = 0, encs = EAF_MSG_ENCS_REQ, uuid = 9, orig = 6\<rparr>,
     refcnt = 1, data_size = 0\<rparr>" "srv (pm_world (pm_demo 2 w)) (0, 1) = Some v" "s_unsafe v = 2" "s_id v = 2"
    "s_state v = eaf_service_state_yield" "eaf_service_find_service 2 (pm_world (pm_demo 2 w)) = Some (Some (0, 1))"
    "w_mheap (pm_world (pm_demo 2 w)) 10 = None"
    "map_option fst (eaf_send_req base_env EAF_MESSAGE_ID (ucast (2 :: u64)) 9 (upd_srv (0, 1) (\<lambda>v. v\<lparr>s_unsafe := 9\<rparr>) (pm_world (pm_demo 2 w)))) =
       Some (if (2 :: u64) = 0 then eaf_errno_notfound else eaf_errno_success)" by (rule pm_demo)
  let ?full = "\<lparr>msg = \<lparr>msg_id = 7, msg_from = 0, encs = EAF_MSG_ENCS_REQ, uuid = 9, orig = 6\<rparr>, refcnt = 1, data_size = 0\<rparr> :: eaf_msg_full"
  let ?rsp = "\<lparr>msg = \<lparr>msg_id = 7, msg_from = 0, encs = 0, uuid = 9, orig = 6\<rparr>, refcnt = 1, data_size = 0\<rparr> :: eaf_msg_full"
  obtain w1 where w1: "eaf_send_req base_env EAF_MESSAGE_ID (ucast (s_unsafe v)) 9
      (upd_srv (0, 1) (\<lambda>v. v\<lparr>s_unsafe := uuid (msg ?full)\<rparr>) (pm_world (pm_demo 2 w))) = Some (eaf_errno_success, w1)" using s(6,11) by auto
  let ?w2 = "with_response (pm_world (pm_demo 2 w))"
  have w2: "winv ?w2" "w_mheap ?w2 10 = Some ?rsp" "eaf_service_find_service (s_id v) ?w2 = Some (Some (0, 1))" "srv ?w2 (0, 1) = Some v"
    using with_response [OF s(2,10)] s(5,7,9) by (simp_all add: with_response_def)
  have "\<exists>st1 st2 st3. eaf_message_internal_proxy base_env (Some 50) (0, 1) 9 (pm_demo 2 w) = Some st1 \<and>
     eaf_message_internal_response_handler base_env 60 10 (st1\<lparr>pm_world := ?w2\<rparr>) = Some st2 \<and>
     eaf_message_internal_finalize 60 (uuid (msg ?full)) (st2\<lparr>pm_world := pm_world (pm_demo 2 w)\<rparr>) = Some (eaf_errno_success, Some 10, st3)"
    using message_call_roundtrip [OF pm_demo_tables s(2) calm_base s(3,4) _ s(5) _ _ _ w1 _ w2(1,2) _ _ w2(3,4) s(8), of 50 60] s(2,3)
    by (simp add: pm_demo_recs eaf_errno_success_def) blast
  then show ?thesis using s(1) by auto
qed

theorem message_call_error_witness:
  "\<exists>w ph l st1 st2. sys_demo demo_yielded = Some (w, ph, l) \<and>
     eaf_message_internal_proxy base_env (Some 50) (0, 1) 9 (pm_demo 0 w) = Some st1 \<and>
     eaf_message_internal_finalize 60 9 (st1\<lparr>pm_world := pm_world (pm_demo 0 w)\<rparr>) = Some (eaf_errno_success, None, st2)"
proof -
  have "(0 :: u64) = 0 \<or> (0 :: u64) = 2" by simp
  then obtain w ph l v where s: "sys_demo demo_yielded = Some (w, ph, l)" "winv (pm_world (pm_demo 0 w))" "held 9 (pm_world (pm_demo 0 w))"
    "w_mheap (pm_world (pm_demo 0 w)) 9 = Some \<lparr>msg = \<lparr>msg_id = 7, msg_from = 0, encs = EAF_MSG_ENCS_REQ, uuid = 9, orig = 6\<rparr>,
     refcnt = 1, data_size = 0\<rparr>" "srv (pm_world (pm_demo 0 w)) (0, 1) = Some v" "s_unsafe v = 0" "s_id v = 2"
    "s_state v = eaf_service_state_yield" "eaf_service_find_service 2 (pm_world (pm_demo 0 w)) = Some (Some (0, 1))"
    "w_mheap (pm_world (pm_demo 0 w)) 10 = None"
    "map_option fst (eaf_send_req base_env EAF_MESSAGE_ID (ucast (0 :: u64)) 9 (upd_srv (0, 1) (\<lambda>v. v\<lparr>s_unsafe := 9\<rparr>) (pm_world (pm_demo 0 w)))) =
       Some (if (0 :: u64) = 0 then eaf_errno_notfound else eaf_errno_success)" by (rule pm_demo)
  let ?full = "\<lparr>msg = \<lparr>msg_id = 7, msg_from = 0, encs = EAF_MSG_ENCS_REQ, uuid = 9, orig = 6\<rparr>, refcnt = 1, data_size = 0\<rparr> :: eaf_msg_full"
  obtain w1 where w1: "eaf_send_req base_env EAF_MESSAGE_ID (ucast (s_unsafe v)) 9
      (upd_srv (0, 1) (\<lambda>v. v\<lparr>s_unsafe := uuid (msg ?full)\<rparr>) (pm_world (pm_demo 0 w))) = Some (eaf_errno_notfound, w1)" using s(6,11) by auto
  have "\<exists>st1 st2. eaf_message_internal_proxy base_env (Some 50) (0, 1) 9 (pm_demo 0 w) = Some st1 \<and>
     eaf_message_internal_finalize 60 (uuid (msg ?full)) (st1\<lparr>pm_world := pm_world (pm_demo 0 w)\<rparr>) = Some (eaf_errno_success, None, st2)"
    using message_call_error [OF pm_demo_tables s(2) calm_base s(3,4) _ s(5) _ _ _ w1 _ _ _ s(2,3), of 50 60]
    by (simp add: pm_demo_recs eaf_errno_notfound_def) blast
  then show ?thesis using s(1) by auto
qed

end
