(* ===== verification/TimerApi.thy ===== *)
theory TimerApi
  imports Prelude
begin

text \<open>
  The identifiers of \<open>eaf/powerpack/timer.h\<close> that the timer and its clients share.
\<close>

definition EAF_TIMER_ID :: u32 where "EAF_TIMER_ID = 0x00010000"
definition EAF_TIMER_MSG_DELAY_REQ :: u32 where "EAF_TIMER_MSG_DELAY_REQ = EAF_TIMER_ID + 1"

end
