(* ===== verification/Watchdog.thy ===== *)
theory Watchdog
  imports MapTable ServiceProgram TimerApi
begin

text \<open>
  The watchdog of \<open>powerpack/watchdog.c\<close>: a service that sends heartbeat requests to the services of a
  list and expects each response before a deadline. A record per watched service waits in
  \<open>idle_stack\<close>, ordered by the time of its next request, or, while a request is out, in \<open>busy_stack\<close>,
  ordered by its deadline, and in \<open>busy_table\<close>, by token.

  State. \<open>wd_state\<close> holds \<open>g_watchdog_ctx\<close>, the heap of the map nodes, the array of records (a record has
  the address of \<open>n_stack\<close>, and \<open>n_table\<close> lies \<open>n_table_offset\<close> behind it), the world of the runtime, the
  contents of the messages that the watchdog writes and the calls of the error callback so far.
  Parameters are the watched list \<open>tab\<close> (memory of the user), the addresses of the handlers, the
  result of \<open>clock_gettime\<close> and the address of a local variable. \<open>None\<close> is undefined behaviour or a
  failed assertion.
\<close>

subsection \<open>State\<close>

definition EAF_WATCHDOG_ID :: u32 where "EAF_WATCHDOG_ID = 0x00020000"
definition EAF_WATCHDOG_MSG_HEARTBEAT_REQ :: u32 where "EAF_WATCHDOG_MSG_HEARTBEAT_REQ = EAF_WATCHDOG_ID + 3"
definition WATCHDOG_TIMER_INTERVAL :: u32 where "WATCHDOG_TIMER_INTERVAL = 100"

definition n_table_offset :: nat where "n_table_offset = 24"
definition sizeof_watchdog_record :: nat where "sizeof_watchdog_record = 104"
definition sizeof_watch_entry :: nat where "sizeof_watch_entry = 16"

record watchdog_ctx =
  idle_stack :: "unit eaf_map"
  busy_stack :: "unit eaf_map"
  busy_table :: "unit eaf_map"
  wd_records :: ptr
  wd_size :: size_t
  cb_fn :: fnptr
  cb_arg :: u64

datatype payload = Heartbeat clock_time | Delay u32

type_synonym wd_memory = "addr \<Rightarrow> watchdog_record option"

record wd_state =
  wd_ctx :: watchdog_ctx
  wd_heap :: rb_heap
  wd_mem :: wd_memory
  wd_world :: world
  wd_payload :: "addr \<Rightarrow> payload option"
  wd_reports :: "(u32 \<times> u64) list"

type_synonym watch_list = "addr \<Rightarrow> watch_entry"

text \<open>The comparison functions over the records of the moment.\<close>

definition idle_cmp :: "watch_list \<Rightarrow> wd_memory \<Rightarrow> addr \<Rightarrow> addr \<Rightarrow> unit \<Rightarrow> int" where
  "idle_cmp tab M = watchdog_on_cmp_begin tab (\<lambda>a. the (M a))"

definition busy_cmp :: "wd_memory \<Rightarrow> addr \<Rightarrow> addr \<Rightarrow> unit \<Rightarrow> int" where
  "busy_cmp M = watchdog_on_cmp_end (\<lambda>a. the (M a))"

definition token_cmp :: "wd_memory \<Rightarrow> addr \<Rightarrow> addr \<Rightarrow> unit \<Rightarrow> int" where
  "token_cmp M = watchdog_on_cmp_token (\<lambda>a. the (M (a - n_table_offset)))"

definition g_watchdog_ctx :: watchdog_ctx where
  "g_watchdog_ctx = \<lparr>idle_stack = eaf_map_init (idle_cmp undefined (\<lambda>_. None)) (),
     busy_stack = eaf_map_init (busy_cmp (\<lambda>_. None)) (), busy_table = eaf_map_init (token_cmp (\<lambda>_. None)) (),
     wd_records = None, wd_size = 0, cb_fn = 0, cb_arg = 0\<rparr>"

subsection \<open>Access to the tables and the records\<close>

definition idle_insert :: "watch_list \<Rightarrow> addr \<Rightarrow> wd_state \<Rightarrow> (int \<times> wd_state) option" where
  "idle_insert tab n st = do {
     (ret, m, h) \<leftarrow> eaf_map_insert ((idle_stack (wd_ctx st))\<lparr>cmp_fn := idle_cmp tab (wd_mem st)\<rparr>) n (wd_heap st);
     Some (ret, st\<lparr>wd_ctx := (wd_ctx st)\<lparr>idle_stack := m\<rparr>, wd_heap := h\<rparr>) }"

definition idle_erase :: "addr \<Rightarrow> wd_state \<Rightarrow> wd_state option" where
  "idle_erase n st = do {
     (m, h) \<leftarrow> eaf_map_erase (idle_stack (wd_ctx st)) n (wd_heap st);
     Some (st\<lparr>wd_ctx := (wd_ctx st)\<lparr>idle_stack := m\<rparr>, wd_heap := h\<rparr>) }"

definition busy_insert :: "addr \<Rightarrow> wd_state \<Rightarrow> (int \<times> wd_state) option" where
  "busy_insert n st = do {
     (ret, m, h) \<leftarrow> eaf_map_insert ((busy_stack (wd_ctx st))\<lparr>cmp_fn := busy_cmp (wd_mem st)\<rparr>) n (wd_heap st);
     Some (ret, st\<lparr>wd_ctx := (wd_ctx st)\<lparr>busy_stack := m\<rparr>, wd_heap := h\<rparr>) }"

definition busy_erase :: "addr \<Rightarrow> wd_state \<Rightarrow> wd_state option" where
  "busy_erase n st = do {
     (m, h) \<leftarrow> eaf_map_erase (busy_stack (wd_ctx st)) n (wd_heap st);
     Some (st\<lparr>wd_ctx := (wd_ctx st)\<lparr>busy_stack := m\<rparr>, wd_heap := h\<rparr>) }"

definition token_insert :: "addr \<Rightarrow> wd_state \<Rightarrow> (int \<times> wd_state) option" where
  "token_insert n st = do {
     (ret, m, h) \<leftarrow> eaf_map_insert ((busy_table (wd_ctx st))\<lparr>cmp_fn := token_cmp (wd_mem st)\<rparr>) n (wd_heap st);
     Some (ret, st\<lparr>wd_ctx := (wd_ctx st)\<lparr>busy_table := m\<rparr>, wd_heap := h\<rparr>) }"

definition token_erase :: "addr \<Rightarrow> wd_state \<Rightarrow> wd_state option" where
  "token_erase n st = do {
     (m, h) \<leftarrow> eaf_map_erase (busy_table (wd_ctx st)) n (wd_heap st);
     Some (st\<lparr>wd_ctx := (wd_ctx st)\<lparr>busy_table := m\<rparr>, wd_heap := h\<rparr>) }"

definition wd_store :: "addr \<Rightarrow> (watchdog_record \<Rightarrow> watchdog_record) \<Rightarrow> wd_state \<Rightarrow> wd_state option" where
  "wd_store a f st = map_option (\<lambda>r. st\<lparr>wd_mem := (wd_mem st)(a \<mapsto> f r)\<rparr>) (wd_mem st a)"

text \<open>A call of the error callback.\<close>

definition wd_report :: "watch_list \<Rightarrow> watchdog_record \<Rightarrow> wd_state \<Rightarrow> wd_state option" where
  "wd_report tab r st =
     (if cb_fn (wd_ctx st) = 0 then None
      else Some (st\<lparr>wd_reports := wd_reports st @ [(we_sid (tab (wd_rec r)), cb_arg (wd_ctx st))]\<rparr>))"

subsection \<open>Messages\<close>

text \<open>Writing the contents of a message, and \<open>EAF_TIMER_DELAY\<close>.\<close>

definition write_payload :: "addr \<Rightarrow> payload \<Rightarrow> wd_state \<Rightarrow> wd_state option" where
  "write_payload req x st = do {
     (d, _) \<leftarrow> eaf_msg_get_data (w_mheap (wd_world st)) req;
     a \<leftarrow> d;
     Some (st\<lparr>wd_payload := (wd_payload st)(a \<mapsto> x)\<rparr>) }"

definition EAF_TIMER_DELAY :: "env \<Rightarrow> u32 \<Rightarrow> fnptr \<Rightarrow> u32 \<Rightarrow> wd_state \<Rightarrow> (int \<times> wd_state) option" where
  "EAF_TIMER_DELAY E from rsp_fn timeout st =
     (case eaf_msg_create_req (e_menv E (wd_world st)) (w_mheap (wd_world st)) EAF_TIMER_MSG_DELAY_REQ 4 rsp_fn of
        (None, H) \<Rightarrow> Some (eaf_errno_memory, st\<lparr>wd_world := (wd_world st)\<lparr>w_mheap := H\<rparr>\<rparr>)
      | (Some req, H) \<Rightarrow> do {
          st \<leftarrow> write_payload req (Delay timeout) (st\<lparr>wd_world := (wd_world st)\<lparr>w_mheap := H\<rparr>\<rparr>);
          (ret, w) \<leftarrow> eaf_send_req E from EAF_TIMER_ID req (wd_world st);
          H \<leftarrow> eaf_msg_dec_ref (w_mheap w) req;
          Some (ret, st\<lparr>wd_world := w\<lparr>w_mheap := H\<rparr>\<rparr>) })"

definition watchdog_send_request :: "env \<Rightarrow> watch_list \<Rightarrow> fnptr \<Rightarrow> addr \<Rightarrow> wd_state \<Rightarrow> (int \<times> wd_state) option" where
  "watchdog_send_request E tab watchdog_on_heartbeat_rsp record st =
     (case eaf_msg_create_req (e_menv E (wd_world st)) (w_mheap (wd_world st)) EAF_WATCHDOG_MSG_HEARTBEAT_REQ 16
         watchdog_on_heartbeat_rsp of
        (None, H) \<Rightarrow> None
      | (Some req, H) \<Rightarrow> do {
          r \<leftarrow> wd_mem st record;
          st \<leftarrow> write_payload req (Heartbeat (wd_end r)) (st\<lparr>wd_world := (wd_world st)\<lparr>w_mheap := H\<rparr>\<rparr>);
          let w = wd_world st;
          let w = w\<lparr>w_mheap := upd_msg (w_mheap w) req (\<lambda>m. eaf_msg_set_token m (word_of_int (wd_token r)))\<rparr>;
          (ret, w) \<leftarrow> eaf_send_req E EAF_WATCHDOG_ID (we_sid (tab (wd_rec r))) req w;
          H \<leftarrow> eaf_msg_dec_ref (w_mheap w) req;
          Some (ret, st\<lparr>wd_world := w\<lparr>w_mheap := H\<rparr>\<rparr>) })"

subsection \<open>The timer\<close>

partial_function (option) check_busy_loop :: "watch_list \<Rightarrow> clock_time \<Rightarrow> ptr \<Rightarrow> wd_state \<Rightarrow> wd_state option" where
  "check_busy_loop tab current_timestamp it st =
     (case it of
        None \<Rightarrow> Some st
      | Some n \<Rightarrow> do {
          r \<leftarrow> wd_mem st n;
          if fst (eaf_time_diffclock current_timestamp (wd_end r)) < 0 then Some st
          else do {
            let cmp = snd (eaf_time_addclock_msec (wd_end r) (ucast (we_timeout (tab (wd_rec r)) * we_jitter (tab (wd_rec r)))));
            st \<leftarrow> (if 0 < fst (eaf_time_diffclock (wd_end r) cmp) then wd_report tab r st else Some st);
            it \<leftarrow> eaf_map_next n (wd_heap st);
            check_busy_loop tab current_timestamp it st } })"

definition watchdog_check_busy :: "watch_list \<Rightarrow> clock_time \<Rightarrow> wd_state \<Rightarrow> wd_state option" where
  "watchdog_check_busy tab current_timestamp st = do {
     it \<leftarrow> eaf_map_begin (busy_stack (wd_ctx st)) (wd_heap st);
     check_busy_loop tab current_timestamp it st }"

partial_function (option) check_idle_loop :: "env \<Rightarrow> watch_list \<Rightarrow> fnptr \<Rightarrow> clock_time \<Rightarrow> ptr \<Rightarrow> wd_state \<Rightarrow> wd_state option" where
  "check_idle_loop E tab heartbeat_rsp current_timestamp it st =
     (case it of
        None \<Rightarrow> Some st
      | Some n \<Rightarrow> do {
          r \<leftarrow> wd_mem st n;
          if fst (eaf_time_diffclock current_timestamp (wd_begin r)) < 0 then Some st
          else do {
            it \<leftarrow> eaf_map_next n (wd_heap st);
            st \<leftarrow> idle_erase n st;
            let dif = snd (eaf_time_addclock_msec (Clock 0 0) (ucast (we_timeout (tab (wd_rec r)))));
            st \<leftarrow> wd_store n (\<lambda>r. r\<lparr>wd_begin := current_timestamp\<rparr>) st;
            st \<leftarrow> wd_store n (\<lambda>r. r\<lparr>wd_end :=
              snd (eaf_time_addclock_ext (wd_end r) (wd_begin r) dif EAF_TIME_IGNORE_OVERFLOW)\<rparr>) st;
            (ret, st) \<leftarrow> watchdog_send_request E tab heartbeat_rsp n st;
            if ret < 0 then check_idle_loop E tab heartbeat_rsp current_timestamp it st
            else do {
              (ret, st) \<leftarrow> busy_insert n st;
              if ret \<noteq> 0 then None
              else do {
                (ret, st) \<leftarrow> token_insert (n + n_table_offset) st;
                if ret \<noteq> 0 then None
                else check_idle_loop E tab heartbeat_rsp current_timestamp it st } } } })"

definition watchdog_check_idle :: "env \<Rightarrow> watch_list \<Rightarrow> fnptr \<Rightarrow> clock_time \<Rightarrow> wd_state \<Rightarrow> wd_state option" where
  "watchdog_check_idle E tab heartbeat_rsp current_timestamp st = do {
     it \<leftarrow> eaf_map_begin (idle_stack (wd_ctx st)) (wd_heap st);
     check_idle_loop E tab heartbeat_rsp current_timestamp it st }"

declare check_busy_loop.simps [code] check_idle_loop.simps [code]

definition watchdog_on_timer ::
  "env \<Rightarrow> watch_list \<Rightarrow> fnptr \<Rightarrow> fnptr \<Rightarrow> (u64 \<times> u64) option \<Rightarrow> wd_state \<Rightarrow> wd_state option" where
  "watchdog_on_timer E tab heartbeat_rsp on_timer clock_gettime st = do {
     let (ret, current_timestamp) = eaf_time_getclock clock_gettime (Clock 0 0);
     if ret \<noteq> 0 then None
     else do {
       st \<leftarrow> watchdog_check_idle E tab heartbeat_rsp current_timestamp st;
       st \<leftarrow> watchdog_check_busy tab current_timestamp st;
       (_, st) \<leftarrow> EAF_TIMER_DELAY E EAF_WATCHDOG_ID on_timer WATCHDOG_TIMER_INTERVAL st;
       Some st } }"

subsection \<open>The response\<close>

definition token_key :: "int \<Rightarrow> watchdog_record" where
  "token_key token = \<lparr>wd_begin = Clock 0 0, wd_end = Clock 0 0, wd_cerrc = 0, wd_token = token, wd_rec = 0\<rparr>"

definition watchdog_find_record_by_token :: "addr \<Rightarrow> int \<Rightarrow> wd_state \<Rightarrow> ptr option" where
  "watchdog_find_record_by_token tmp_key token st = do {
     it \<leftarrow> eaf_map_find ((busy_table (wd_ctx st))\<lparr>cmp_fn := token_cmp ((wd_mem st)(tmp_key \<mapsto> token_key token))\<rparr>)
       (tmp_key + n_table_offset) (wd_heap st);
     Some (case it of None \<Rightarrow> None | Some n \<Rightarrow> Some (n - n_table_offset)) }"

definition watchdog_on_heartbeat_rsp ::
  "watch_list \<Rightarrow> (u64 \<times> u64) option \<Rightarrow> addr \<Rightarrow> addr \<Rightarrow> wd_state \<Rightarrow> wd_state option" where
  "watchdog_on_heartbeat_rsp tab clock_gettime tmp_key m st = do {
     full \<leftarrow> w_mheap (wd_world st) m;
     let token = sint (eaf_msg_get_token (msg full));
     found \<leftarrow> watchdog_find_record_by_token tmp_key token st;
     record \<leftarrow> found;
     st \<leftarrow> token_erase (record + n_table_offset) st;
     st \<leftarrow> busy_erase record st;
     r \<leftarrow> wd_mem st record;
     let (ret, begin_time) = eaf_time_getclock clock_gettime (wd_begin r);
     if ret \<noteq> 0 then None
     else do {
       let r = r\<lparr>wd_begin := begin_time\<rparr>;
       let r = (if 0 < fst (eaf_time_diffclock (wd_begin r) (wd_end r)) then r\<lparr>wd_cerrc := wd_cerrc r + 1\<rparr>
                else r\<lparr>wd_cerrc := 0\<rparr>);
       st \<leftarrow> (if ucast (we_jitter (tab (wd_rec r))) < wd_cerrc r then wd_report tab r st else Some st);
       let r = r\<lparr>wd_begin := snd (eaf_time_addclock_msec (wd_begin r) (ucast (we_interval (tab (wd_rec r)))))\<rparr>;
       let st = st\<lparr>wd_mem := (wd_mem st)(record \<mapsto> r)\<rparr>;
       (ret, st) \<leftarrow> idle_insert tab record st;
       if ret \<noteq> 0 then None else Some st } }"

subsection \<open>Start and end\<close>

definition watchdog_on_init :: "env \<Rightarrow> fnptr \<Rightarrow> wd_state \<Rightarrow> wd_state option" where
  "watchdog_on_init E on_timer st = do {
     (ret, st) \<leftarrow> EAF_TIMER_DELAY E EAF_WATCHDOG_ID on_timer WATCHDOG_TIMER_INTERVAL st;
     if ret < 0 then do { (_, w) \<leftarrow> eaf_exit E ret (wd_world st); Some (st\<lparr>wd_world := w\<rparr>) } else Some st }"

definition watchdog_reset_callback :: "wd_state \<Rightarrow> wd_state" where
  "watchdog_reset_callback st = st\<lparr>wd_ctx := (wd_ctx st)\<lparr>cb_fn := 0, cb_arg := 0\<rparr>\<rparr>"

definition watchdog_free_records :: "wd_state \<Rightarrow> wd_state" where
  "watchdog_free_records st =
     (let M = (case wd_records (wd_ctx st) of None \<Rightarrow> wd_mem st
        | Some a \<Rightarrow> (\<lambda>b. if b \<in> (\<lambda>i. a + i * sizeof_watchdog_record) ` {..<unat (wd_size (wd_ctx st))} then None else wd_mem st b)) in
      st\<lparr>wd_mem := M, wd_ctx := (wd_ctx st)\<lparr>wd_records := None, wd_size := 0\<rparr>\<rparr>)"

partial_function (option) cleanup_idle_loop :: "ptr \<Rightarrow> wd_state \<Rightarrow> wd_state option" where
  "cleanup_idle_loop node st =
     (case node of
        None \<Rightarrow> Some st
      | Some n \<Rightarrow> do {
          node \<leftarrow> eaf_map_next n (wd_heap st);
          st \<leftarrow> idle_erase n st;
          cleanup_idle_loop node st })"

definition watchdog_cleanup_idle_stack :: "wd_state \<Rightarrow> wd_state option" where
  "watchdog_cleanup_idle_stack st = do {
     node \<leftarrow> eaf_map_begin (idle_stack (wd_ctx st)) (wd_heap st);
     cleanup_idle_loop node st }"

partial_function (option) cleanup_busy_loop :: "ptr \<Rightarrow> wd_state \<Rightarrow> wd_state option" where
  "cleanup_busy_loop node st =
     (case node of
        None \<Rightarrow> Some st
      | Some n \<Rightarrow> do {
          node \<leftarrow> eaf_map_next n (wd_heap st);
          st \<leftarrow> busy_erase n st;
          cleanup_busy_loop node st })"

definition watchdog_cleanup_busy_stack :: "wd_state \<Rightarrow> wd_state option" where
  "watchdog_cleanup_busy_stack st = do {
     node \<leftarrow> eaf_map_begin (busy_stack (wd_ctx st)) (wd_heap st);
     cleanup_busy_loop node st }"

declare cleanup_idle_loop.simps [code] cleanup_busy_loop.simps [code]

text \<open>The loop of \<open>eaf_watchdog_init\<close>, \<open>k\<close> iterations before the end; the result tells whether it ran to
  the end.\<close>

fun init_records :: "watch_list \<Rightarrow> addr \<Rightarrow> addr \<Rightarrow> nat \<Rightarrow> nat \<Rightarrow> wd_state \<Rightarrow> (bool \<times> wd_state) option" where
  "init_records tab table records i 0 st = Some (True, st)"
| "init_records tab table records i (Suc k) st = do {
     let n = records + i * sizeof_watchdog_record;
     st \<leftarrow> wd_store n (\<lambda>r. r\<lparr>wd_rec := table + i * sizeof_watch_entry\<rparr>) st;
     st \<leftarrow> wd_store n (\<lambda>r. r\<lparr>wd_token := int i\<rparr>) st;
     (ret, st) \<leftarrow> idle_insert tab n st;
     if ret < 0 then Some (False, st) else init_records tab table records (i + 1) k st }"

definition zero_record :: watchdog_record where
  "zero_record = \<lparr>wd_begin = Clock 0 0, wd_end = Clock 0 0, wd_cerrc = 0, wd_token = 0, wd_rec = 0\<rparr>"

text \<open>The memory that \<open>calloc\<close> returns is a parameter. The counter of the loop is an \<open>int\<close>.\<close>

definition eaf_watchdog_init ::
  "env \<Rightarrow> watch_list \<Rightarrow> ptr \<Rightarrow> fnptr \<Rightarrow> fnptr \<Rightarrow> addr \<Rightarrow> size_t \<Rightarrow> fnptr \<Rightarrow> u64 \<Rightarrow> wd_state \<Rightarrow> (int \<times> wd_state) option" where
  "eaf_watchdog_init E tab calloc on_init on_exit table sz fn arg st =
     (if cb_fn (wd_ctx st) \<noteq> 0 then Some (eaf_errno_duplicate, st)
      else case calloc of
        None \<Rightarrow> Some (eaf_errno_memory, st\<lparr>wd_ctx := (wd_ctx st)\<lparr>wd_records := None\<rparr>\<rparr>)
      | Some records \<Rightarrow> do {
          let st = st\<lparr>wd_ctx := (wd_ctx st)\<lparr>wd_records := Some records, wd_size := sz\<rparr>,
            wd_mem := (\<lambda>b. if b \<in> (\<lambda>i. records + i * sizeof_watchdog_record) ` {..<unat sz} then Some zero_record else wd_mem st b)\<rparr>;
          let err_register = (\<lambda>ret st. do {
            st \<leftarrow> watchdog_cleanup_idle_stack st;
            Some (ret, watchdog_reset_callback (watchdog_free_records st)) });
          (complete, st) \<leftarrow> init_records tab table records 0 (nat (sint (ucast sz :: i32))) st;
          if \<not> complete then err_register eaf_errno_duplicate st
          else do {
            let st = st\<lparr>wd_ctx := (wd_ctx st)\<lparr>cb_fn := fn, cb_arg := arg\<rparr>\<rparr>;
            let entry = \<lparr>msg_table = [], ep_on_init = on_init, ep_on_exit = on_exit\<rparr>;
            (ret, w) \<leftarrow> eaf_register E EAF_WATCHDOG_ID entry (wd_world st);
            let st = st\<lparr>wd_world := w\<rparr>;
            if ret \<noteq> eaf_errno_success then err_register ret st else Some (ret, st) } })"

definition eaf_watchdog_exit :: "wd_state \<Rightarrow> wd_state option" where
  "eaf_watchdog_exit st =
     (if cb_fn (wd_ctx st) = 0 then Some st
      else do {
        st \<leftarrow> watchdog_cleanup_idle_stack st;
        st \<leftarrow> watchdog_cleanup_busy_stack st;
        Some (watchdog_reset_callback (watchdog_free_records st)) })"

end
