(* ===== verification/WatchdogInv.thy ===== *)
theory WatchdogInv
  imports Watchdog ServiceClient
begin

text \<open>
  The invariant of the watchdog: its records are in \<open>idle_stack\<close>, in \<open>busy_stack\<close> and \<open>busy_table\<close>
  together, or in none of them (services that could not be asked).
\<close>

subsection \<open>Keys and invariant\<close>

abbreviation idle_key :: "watch_list \<Rightarrow> wd_memory \<Rightarrow> addr \<Rightarrow> clock_time \<times> u32" where
  "idle_key tab M \<equiv> \<lambda>a. (wd_begin (the (M a)), we_sid (tab (wd_rec (the (M a)))))"

abbreviation busy_key :: "wd_memory \<Rightarrow> addr \<Rightarrow> clock_time \<times> addr" where
  "busy_key M \<equiv> \<lambda>a. (wd_end (the (M a)), wd_rec (the (M a)))"

abbreviation tok_key :: "wd_memory \<Rightarrow> addr \<Rightarrow> int" where
  "tok_key M \<equiv> \<lambda>a. wd_token (the (M (a - n_table_offset)))"

text \<open>What never changes of the records \<open>A\<close>: services, entries and tokens are different, and the nodes of
  the table are no nodes of the stacks.\<close>

definition wd_static :: "watch_list \<Rightarrow> addr set \<Rightarrow> wd_memory \<Rightarrow> bool" where
  "wd_static tab A M \<longleftrightarrow> finite A \<and> card A < 2 ^ 31 \<and> A \<subseteq> dom M \<and>
     inj_on (\<lambda>a. we_sid (tab (wd_rec (the (M a))))) A \<and> inj_on (\<lambda>a. wd_rec (the (M a))) A \<and>
     inj_on (\<lambda>a. wd_token (the (M a))) A \<and> (\<forall>a \<in> A. 0 \<le> wd_token (the (M a)) \<and> wd_token (the (M a)) < 2 ^ 31) \<and>
     (\<forall>a \<in> A. \<forall>b \<in> A. a \<noteq> b + n_table_offset)"

definition wd_tables :: "watch_list \<Rightarrow> addr set \<Rightarrow> wd_state \<Rightarrow> addr list \<Rightarrow> addr list \<Rightarrow> addr list \<Rightarrow> bool" where
  "wd_tables tab A st is bs ts \<longleftrightarrow> wd_static tab A (wd_mem st) \<and> set is \<union> set bs \<subseteq> A \<and> set is \<inter> set bs = {} \<and>
     map_ok (idle_key tab (wd_mem st)) (wd_heap st) (idle_stack (wd_ctx st)) is \<and>
     map_ok (busy_key (wd_mem st)) (wd_heap st) (busy_stack (wd_ctx st)) bs \<and>
     map_ok (tok_key (wd_mem st)) (wd_heap st) (busy_table (wd_ctx st)) ts \<and>
     set ts = (\<lambda>a. a + n_table_offset) ` set bs"

lemma wd_tablesD:
  assumes "wd_tables tab A st is bs ts"
  shows "wd_static tab A (wd_mem st)" "set is \<union> set bs \<subseteq> A" "set is \<inter> set bs = {}"
    "map_ok (idle_key tab (wd_mem st)) (wd_heap st) (idle_stack (wd_ctx st)) is"
    "map_ok (busy_key (wd_mem st)) (wd_heap st) (busy_stack (wd_ctx st)) bs"
    "map_ok (tok_key (wd_mem st)) (wd_heap st) (busy_table (wd_ctx st)) ts"
    "set ts = (\<lambda>a. a + n_table_offset) ` set bs"
  using assms by (simp_all add: wd_tables_def)

lemma wd_staticD:
  assumes "wd_static tab A M"
  shows "finite A" "card A < 2 ^ 31" "A \<subseteq> dom M" "inj_on (\<lambda>a. we_sid (tab (wd_rec (the (M a))))) A"
    "inj_on (\<lambda>a. wd_rec (the (M a))) A" "inj_on (\<lambda>a. wd_token (the (M a))) A"
    "\<And>a. a \<in> A \<Longrightarrow> 0 \<le> wd_token (the (M a)) \<and> wd_token (the (M a)) < 2 ^ 31"
    "\<And>a b. a \<in> A \<Longrightarrow> b \<in> A \<Longrightarrow> a \<noteq> b + n_table_offset"
  using assms by (simp_all add: wd_static_def)

text \<open>Lists of different records, and of their table nodes, are short enough for the counters.\<close>

lemma wd_short:
  assumes "wd_static tab A M" "set xs \<subseteq> A \<or> set xs \<subseteq> (\<lambda>a. a + n_table_offset) ` A" "distinct xs"
  shows "Suc (length xs) < 2 ^ 64"
proof -
  have fin: "finite A" "card A < 2 ^ 31" using wd_staticD(1,2) [OF assms(1)] .
  have "length xs = card (set xs)" using distinct_card [OF assms(3)] by simp
  moreover have "card (set xs) \<le> card A"
    using assms(2) card_mono [OF fin(1)] card_mono [OF finite_imageI [OF fin(1)]] card_image_le [OF fin(1)]
    by (meson le_trans)
  ultimately show ?thesis using fin(2) by simp
qed

lemma wd_tables_simps [simp]:
  "wd_tables tab A (st\<lparr>wd_world := w\<rparr>) is bs ts = wd_tables tab A st is bs ts"
  "wd_tables tab A (st\<lparr>wd_payload := p\<rparr>) is bs ts = wd_tables tab A st is bs ts"
  "wd_tables tab A (st\<lparr>wd_reports := rs\<rparr>) is bs ts = wd_tables tab A st is bs ts"
  by (simp_all add: wd_tables_def)

text \<open>A record outside the tables may change except for its entry and its token.\<close>

lemma wd_static_upd:
  assumes "wd_static tab A M" "wd_rec x = wd_rec (the (M n))" "wd_token x = wd_token (the (M n))"
  shows "wd_static tab A (M(n \<mapsto> x))"
proof -
  have "wd_rec (the ((M(n \<mapsto> x)) a)) = wd_rec (the (M a))" "wd_token (the ((M(n \<mapsto> x)) a)) = wd_token (the (M a))" for a
    using assms(2,3) by simp_all
  then show ?thesis using assms(1) unfolding wd_static_def by auto
qed

lemma wd_tables_upd:
  assumes "wd_tables tab A st is bs ts" "n \<notin> set is \<union> set bs"
    "wd_rec x = wd_rec (the (wd_mem st n))" "wd_token x = wd_token (the (wd_mem st n))"
  shows "wd_tables tab A (st\<lparr>wd_mem := (wd_mem st)(n \<mapsto> x)\<rparr>) is bs ts"
proof -
  note t = wd_tablesD [OF assms(1)]
  let ?M = "(wd_mem st)(n \<mapsto> x)"
  have "map_ok (idle_key tab ?M) (wd_heap st) (idle_stack (wd_ctx st)) is" by (rule map_ok_key [OF t(4)]) (use assms(2) in auto)
  moreover have "map_ok (busy_key ?M) (wd_heap st) (busy_stack (wd_ctx st)) bs" by (rule map_ok_key [OF t(5)]) (use assms(2) in auto)
  moreover have "map_ok (tok_key ?M) (wd_heap st) (busy_table (wd_ctx st)) ts" by (rule map_ok_key [OF t(6)]) (use assms(4) in auto)
  ultimately show ?thesis using t(2,3,7) wd_static_upd [OF t(1) assms(3,4)] by (simp add: wd_tables_def)
qed

subsection \<open>Moving records\<close>

text \<open>The rest of the context.\<close>

definition same_cfg :: "watchdog_ctx \<Rightarrow> watchdog_ctx \<Rightarrow> bool" where
  "same_cfg C C' \<longleftrightarrow> wd_records C' = wd_records C \<and> wd_size C' = wd_size C \<and> cb_fn C' = cb_fn C \<and> cb_arg C' = cb_arg C"

lemma same_cfg_refl [simp]: "same_cfg C C" "same_cfg C (C\<lparr>idle_stack := m\<rparr>)" "same_cfg C (C\<lparr>busy_stack := m\<rparr>)"
  "same_cfg C (C\<lparr>busy_table := m\<rparr>)"
  by (simp_all add: same_cfg_def)

lemma same_cfg_trans: "same_cfg C C' \<Longrightarrow> same_cfg C' C'' \<Longrightarrow> same_cfg C C''"
  by (simp add: same_cfg_def)

text \<open>The nodes of the three maps are disjoint.\<close>

lemma wd_disjoint:
  assumes "wd_tables tab A st is bs ts"
  shows "A \<inter> set ts = {}" "set ts \<subseteq> (\<lambda>a. a + n_table_offset) ` A"
proof -
  have "\<forall>a \<in> A. \<forall>b \<in> A. a \<noteq> b + n_table_offset" using wd_tablesD(1) [OF assms] by (simp add: wd_static_def)
  then show "A \<inter> set ts = {}" using wd_tablesD(2,7) [OF assms] by blast
  show "set ts \<subseteq> (\<lambda>a. a + n_table_offset) ` A" using wd_tablesD(2,7) [OF assms] by auto
qed

lemma idle_erase_ok:
  assumes "wd_tables tab A st is bs ts" "n \<in> set is"
  obtains C h where "idle_erase n st = Some (st\<lparr>wd_ctx := C, wd_heap := h\<rparr>)" "same_cfg (wd_ctx st) C"
    "wd_tables tab A (st\<lparr>wd_ctx := C, wd_heap := h\<rparr>) (remove1 n is) bs ts"
proof -
  note t = wd_tablesD [OF assms(1)]
  obtain m h where e: "eaf_map_erase (idle_stack (wd_ctx st)) n (wd_heap st) = Some (m, h)"
    "map_ok (idle_key tab (wd_mem st)) h m (remove1 n is)" "same_off (set is) (wd_heap st) h"
    using erase_spec [OF t(4) assms(2)] by blast
  have sub: "set (remove1 n is) \<subseteq> set is" by (rule set_remove1_subset)
  have "map_ok (busy_key (wd_mem st)) h (busy_stack (wd_ctx st)) bs"
    "map_ok (tok_key (wd_mem st)) h (busy_table (wd_ctx st)) ts"
    using map_ok_frame [OF t(5) e(3)] map_ok_frame [OF t(6) e(3)] t(2,3) wd_disjoint [OF assms(1)] by auto
  then have *: "wd_tables tab A (st\<lparr>wd_ctx := (wd_ctx st)\<lparr>idle_stack := m\<rparr>, wd_heap := h\<rparr>) (remove1 n is) bs ts"
    using e(2) t(1-3,7) sub by (auto simp: wd_tables_def)
  have "idle_erase n st = Some (st\<lparr>wd_ctx := (wd_ctx st)\<lparr>idle_stack := m\<rparr>, wd_heap := h\<rparr>)"
    using e(1) by (simp add: idle_erase_def)
  then show thesis by (rule that [OF _ _ *]) simp
qed

lemma idle_insert_ok:
  assumes "wd_tables tab A st is bs ts" "n \<in> A" "n \<notin> set is \<union> set bs"
  obtains C h where "idle_insert tab n st = Some (0, st\<lparr>wd_ctx := C, wd_heap := h\<rparr>)" "same_cfg (wd_ctx st) C"
    "wd_tables tab A (st\<lparr>wd_ctx := C, wd_heap := h\<rparr>) (insort_key (idle_key tab (wd_mem st)) n is) bs ts"
proof -
  note t = wd_tablesD [OF assms(1)]
  have short: "Suc (length is) < 2 ^ 64" by (rule wd_short [OF t(1)]) (use t(2) map_ok_distinct [OF t(4)] in auto)
  have keys: "idle_key tab (wd_mem st) a \<noteq> idle_key tab (wd_mem st) n" if "a \<in> set is" for a
    using inj_onD [OF wd_staticD(4) [OF t(1)], of a n] that t(2) assms(2,3) by auto
  have n: "n \<notin> set is" using assms(3) by simp
  obtain m h where i: "eaf_map_insert ((idle_stack (wd_ctx st))\<lparr>cmp_fn := idle_cmp tab (wd_mem st)\<rparr>) n (wd_heap st) = Some (eaf_errno_success, m, h)"
    "map_ok (idle_key tab (wd_mem st)) h m (insort_key (idle_key tab (wd_mem st)) n is)" "same_off (insert n (set is)) (wd_heap st) h"
    using watchdog_idle_map.insert_now [OF t(4) _ n short keys] unfolding idle_cmp_def by auto
  have "map_ok (busy_key (wd_mem st)) h (busy_stack (wd_ctx st)) bs"
    "map_ok (tok_key (wd_mem st)) h (busy_table (wd_ctx st)) ts"
    using map_ok_frame [OF t(5) i(3)] map_ok_frame [OF t(6) i(3)] t(2,3) wd_disjoint [OF assms(1)] assms(2,3) by auto
  then have *: "wd_tables tab A (st\<lparr>wd_ctx := (wd_ctx st)\<lparr>idle_stack := m\<rparr>, wd_heap := h\<rparr>) (insort_key (idle_key tab (wd_mem st)) n is) bs ts"
    using i(2) t(1-3,7) assms(2,3) by (auto simp: wd_tables_def set_insort_key)
  have "idle_insert tab n st = Some (0, st\<lparr>wd_ctx := (wd_ctx st)\<lparr>idle_stack := m\<rparr>, wd_heap := h\<rparr>)"
    using i(1) by (simp add: idle_insert_def eaf_errno_success_def)
  then show thesis by (rule that [OF _ _ *]) simp
qed

text \<open>A record enters \<open>busy_stack\<close> and \<open>busy_table\<close> together and leaves them together.\<close>

lemma put_busy_ok:
  assumes "wd_tables tab A st is bs ts" "n \<in> A" "n \<notin> set is \<union> set bs"
  obtains C h C' h' where "busy_insert n st = Some (0, st\<lparr>wd_ctx := C, wd_heap := h\<rparr>)"
    "token_insert (n + n_table_offset) (st\<lparr>wd_ctx := C, wd_heap := h\<rparr>) = Some (0, st\<lparr>wd_ctx := C', wd_heap := h'\<rparr>)"
    "same_cfg (wd_ctx st) C'"
    "wd_tables tab A (st\<lparr>wd_ctx := C', wd_heap := h'\<rparr>) is (insort_key (busy_key (wd_mem st)) n bs)
       (insort_key (tok_key (wd_mem st)) (n + n_table_offset) ts)"
proof -
  note t = wd_tablesD [OF assms(1)]
  let ?n = "n + n_table_offset"
  have short: "Suc (length bs) < 2 ^ 64" by (rule wd_short [OF t(1)]) (use t(2) map_ok_distinct [OF t(5)] in auto)
  have short': "Suc (length ts) < 2 ^ 64" by (rule wd_short [OF t(1)]) (use wd_disjoint(2) [OF assms(1)] map_ok_distinct [OF t(6)] in auto)
  have keys: "busy_key (wd_mem st) a \<noteq> busy_key (wd_mem st) n" if "a \<in> set bs" for a
    using inj_onD [OF wd_staticD(5) [OF t(1)], of a n] that t(2) assms(2,3) by auto
  have toks: "tok_key (wd_mem st) a \<noteq> tok_key (wd_mem st) ?n" if "a \<in> set ts" for a
    using inj_onD [OF wd_staticD(6) [OF t(1)], of "a - n_table_offset" n] that t(2,7) assms(2,3) by auto
  have n: "n \<notin> set bs" "?n \<notin> set ts" using assms(3) t(7) by auto
  obtain m h where i: "eaf_map_insert ((busy_stack (wd_ctx st))\<lparr>cmp_fn := busy_cmp (wd_mem st)\<rparr>) n (wd_heap st) = Some (eaf_errno_success, m, h)"
    "map_ok (busy_key (wd_mem st)) h m (insort_key (busy_key (wd_mem st)) n bs)" "same_off (insert n (set bs)) (wd_heap st) h"
    using watchdog_busy_map.insert_now [OF t(5) _ n(1) short keys] unfolding busy_cmp_def by auto
  have out: "insert n (set bs) \<inter> set ts = {}" using t(2) wd_disjoint(1) [OF assms(1)] assms(2) by blast
  have idle: "map_ok (idle_key tab (wd_mem st)) h (idle_stack (wd_ctx st)) is" "map_ok (tok_key (wd_mem st)) h (busy_table (wd_ctx st)) ts"
    using map_ok_frame [OF t(4) i(3)] map_ok_frame [OF t(6) i(3) out] t(3) assms(3) by auto
  obtain m' h' where j: "eaf_map_insert ((busy_table (wd_ctx st))\<lparr>cmp_fn := token_cmp (wd_mem st)\<rparr>) ?n h = Some (eaf_errno_success, m', h')"
    "map_ok (tok_key (wd_mem st)) h' m' (insort_key (tok_key (wd_mem st)) ?n ts)" "same_off (insert ?n (set ts)) h h'"
    using watchdog_token_map.insert_now [OF idle(2) _ n(2) short' toks] unfolding token_cmp_def by auto
  have off: "insert ?n (set ts) \<inter> A = {}" using wd_disjoint [OF assms(1)] wd_staticD(8) [OF t(1)] assms(2) by auto
  have "map_ok (idle_key tab (wd_mem st)) h' (idle_stack (wd_ctx st)) is"
    by (rule map_ok_frame [OF idle(1) j(3)]) (use off t(2) in auto)
  moreover have "map_ok (busy_key (wd_mem st)) h' m (insort_key (busy_key (wd_mem st)) n bs)"
    by (rule map_ok_frame [OF i(2) j(3)]) (use off t(2) assms(2) in \<open>auto simp: set_insort_key\<close>)
  ultimately have *: "wd_tables tab A (st\<lparr>wd_ctx := (wd_ctx st)\<lparr>busy_stack := m, busy_table := m'\<rparr>, wd_heap := h'\<rparr>) is
      (insort_key (busy_key (wd_mem st)) n bs) (insort_key (tok_key (wd_mem st)) ?n ts)"
    using j(2) t(1-3,7) assms(2,3) by (auto simp: wd_tables_def set_insort_key)
  have "busy_insert n st = Some (0, st\<lparr>wd_ctx := (wd_ctx st)\<lparr>busy_stack := m\<rparr>, wd_heap := h\<rparr>)"
    using i(1) by (simp add: busy_insert_def eaf_errno_success_def)
  moreover have "token_insert ?n (st\<lparr>wd_ctx := (wd_ctx st)\<lparr>busy_stack := m\<rparr>, wd_heap := h\<rparr>) =
      Some (0, st\<lparr>wd_ctx := (wd_ctx st)\<lparr>busy_stack := m, busy_table := m'\<rparr>, wd_heap := h'\<rparr>)"
    using j(1) by (simp add: token_insert_def eaf_errno_success_def)
  ultimately show thesis by (rule that [OF _ _ _ *]) (simp add: same_cfg_def)
qed

lemma take_busy_ok:
  assumes "wd_tables tab A st is bs ts" "n \<in> set bs"
  obtains C h C' h' where "token_erase (n + n_table_offset) st = Some (st\<lparr>wd_ctx := C, wd_heap := h\<rparr>)"
    "busy_erase n (st\<lparr>wd_ctx := C, wd_heap := h\<rparr>) = Some (st\<lparr>wd_ctx := C', wd_heap := h'\<rparr>)"
    "same_cfg (wd_ctx st) C'"
    "wd_tables tab A (st\<lparr>wd_ctx := C', wd_heap := h'\<rparr>) is (remove1 n bs) (remove1 (n + n_table_offset) ts)"
proof -
  note t = wd_tablesD [OF assms(1)]
  let ?n = "n + n_table_offset"
  have n: "?n \<in> set ts" using t(7) assms(2) by auto
  have dist: "distinct ts" "distinct bs" using map_ok_distinct t(5,6) by blast+
  obtain m h where e: "eaf_map_erase (busy_table (wd_ctx st)) ?n (wd_heap st) = Some (m, h)"
    "map_ok (tok_key (wd_mem st)) h m (remove1 ?n ts)" "same_off (set ts) (wd_heap st) h"
    using erase_spec [OF t(6) n] by blast
  have keep: "map_ok (idle_key tab (wd_mem st)) h (idle_stack (wd_ctx st)) is" "map_ok (busy_key (wd_mem st)) h (busy_stack (wd_ctx st)) bs"
    using map_ok_frame [OF t(4) e(3)] map_ok_frame [OF t(5) e(3)] t(2) wd_disjoint [OF assms(1)] by auto
  obtain m' h' where f: "eaf_map_erase (busy_stack (wd_ctx st)) n h = Some (m', h')"
    "map_ok (busy_key (wd_mem st)) h' m' (remove1 n bs)" "same_off (set bs) h h'"
    using erase_spec [OF keep(2) assms(2)] by blast
  have "map_ok (idle_key tab (wd_mem st)) h' (idle_stack (wd_ctx st)) is"
    by (rule map_ok_frame [OF keep(1) f(3)]) (use t(3) in auto)
  moreover have "map_ok (tok_key (wd_mem st)) h' m (remove1 ?n ts)"
    by (rule map_ok_frame [OF e(2) f(3)]) (use wd_disjoint [OF assms(1)] t(2) set_remove1_subset [of ?n ts] in auto)
  moreover have "set (remove1 ?n ts) = (\<lambda>a. a + n_table_offset) ` set (remove1 n bs)"
    using t(7) dist by (auto simp: set_remove1_eq)
  moreover have "set (remove1 n bs) \<subseteq> set bs" by (rule set_remove1_subset)
  ultimately have *: "wd_tables tab A (st\<lparr>wd_ctx := (wd_ctx st)\<lparr>busy_table := m, busy_stack := m'\<rparr>, wd_heap := h'\<rparr>) is (remove1 n bs) (remove1 ?n ts)"
    using f(2) t(1-3) by (auto simp: wd_tables_def)
  have "token_erase ?n st = Some (st\<lparr>wd_ctx := (wd_ctx st)\<lparr>busy_table := m\<rparr>, wd_heap := h\<rparr>)"
    using e(1) by (simp add: token_erase_def)
  moreover have "busy_erase n (st\<lparr>wd_ctx := (wd_ctx st)\<lparr>busy_table := m\<rparr>, wd_heap := h\<rparr>) =
      Some (st\<lparr>wd_ctx := (wd_ctx st)\<lparr>busy_table := m, busy_stack := m'\<rparr>, wd_heap := h'\<rparr>)"
    using f(1) by (simp add: busy_erase_def)
  ultimately show thesis by (rule that [OF _ _ _ *]) (simp add: same_cfg_def)
qed

end
