(* ===== verification/WatchdogProps.thy ===== *)
theory WatchdogProps
  imports WatchdogInv ServiceProps
begin

text \<open>
  The properties of the watchdog: what a tick of its timer and a response do, that a service that does
  not answer is never reported, start and end.
\<close>

subsection \<open>Sending\<close>

lemma write_payload_ok:
  assumes "w_mheap (wd_world st) req = Some f" "data_size f \<noteq> 0"
  shows "write_payload req x st = Some (st\<lparr>wd_payload := (wd_payload st)(req \<mapsto> x)\<rparr>)"
  using assms by (simp add: write_payload_def eaf_msg_get_data_def)

lemma delay_ok:
  assumes "calm_env E" "winv (wd_world st)"
  obtains ret w p where "EAF_TIMER_DELAY E from fn timeout st = Some (ret, st\<lparr>wd_payload := p, wd_world := w\<rparr>)"
    "winv w" "frame {} (wd_world st) w"
proof -
  let ?w = "wd_world st"
  obtain req H f where c: "eaf_msg_create_req (e_menv E ?w) (w_mheap ?w) EAF_TIMER_MSG_DELAY_REQ 4 fn = (Some req, H)"
    "winv (?w\<lparr>w_mheap := H\<rparr>)" "held req (?w\<lparr>w_mheap := H\<rparr>)" "H req = Some f" "refcnt f = 1" "data_size f = 4"
    by (rule create_req_good [OF assms])
  have f: "w_mheap (?w\<lparr>w_mheap := H\<rparr>) req = Some f" "refcnt f + 1 \<noteq> 0" using c(4,5) by simp_all
  obtain ret w1 H1 where s: "eaf_send_req E from EAF_TIMER_ID req (?w\<lparr>w_mheap := H\<rparr>) = Some (ret, w1)"
    "eaf_msg_dec_ref (w_mheap w1) req = Some H1" "winv (w1\<lparr>w_mheap := H1\<rparr>)" "frame {} (?w\<lparr>w_mheap := H\<rparr>) (w1\<lparr>w_mheap := H1\<rparr>)"
    by (rule send_release [OF assms(1) c(2,3) f])
  have nz: "data_size f \<noteq> 0" by (simp add: c(6))
  have "write_payload req (Delay timeout) (st\<lparr>wd_world := ?w\<lparr>w_mheap := H\<rparr>\<rparr>) =
    Some (st\<lparr>wd_world := ?w\<lparr>w_mheap := H\<rparr>, wd_payload := (wd_payload st)(req \<mapsto> Delay timeout)\<rparr>)"
    using write_payload_ok [of "st\<lparr>wd_world := ?w\<lparr>w_mheap := H\<rparr>\<rparr>" req f] c(4) nz by simp
  then have "EAF_TIMER_DELAY E from fn timeout st =
      Some (ret, st\<lparr>wd_payload := (wd_payload st)(req \<mapsto> Delay timeout), wd_world := w1\<lparr>w_mheap := H1\<rparr>\<rparr>)"
    using c(1) s(1,2) by (simp add: EAF_TIMER_DELAY_def)
  then show thesis by (rule that [OF _ s(3) frame_trans [OF frame_mheap s(4)]])
qed

lemma send_request_ok:
  assumes "calm_env E" "winv (wd_world st)" "wd_mem st n = Some r"
  obtains ret w p where "watchdog_send_request E tab fn n st = Some (ret, st\<lparr>wd_payload := p, wd_world := w\<rparr>)"
    "winv w" "frame {} (wd_world st) w"
proof -
  let ?w = "wd_world st"
  obtain req H f where c: "eaf_msg_create_req (e_menv E ?w) (w_mheap ?w) EAF_WATCHDOG_MSG_HEARTBEAT_REQ 16 fn = (Some req, H)"
    "winv (?w\<lparr>w_mheap := H\<rparr>)" "held req (?w\<lparr>w_mheap := H\<rparr>)" "H req = Some f" "refcnt f = 1" "data_size f = 16"
    by (rule create_req_good [OF assms(1,2)])
  let ?set = "\<lambda>m. eaf_msg_set_token m (word_of_int (wd_token r))"
  let ?H = "upd_msg H req ?set"
  have H: "?H = H(req \<mapsto> f\<lparr>msg := ?set (msg f)\<rparr>)" using c(4) by (simp add: upd_msg_def)
  have refs: "refs ?H b = refs H b" for b using c(4) by (simp add: H refs_def)
  have fin: "finite (dom H)" using finite_heap [OF c(2)] by simp
  have ok: "winv (?w\<lparr>w_mheap := ?H\<rparr>)"
    using winv_mheap [OF c(2), of ?H] refs fin by (simp add: H)
  have held: "held req (?w\<lparr>w_mheap := ?H\<rparr>)" using c(3) refs [of req] by (simp add: held_def)
  have f: "w_mheap (?w\<lparr>w_mheap := ?H\<rparr>) req = Some (f\<lparr>msg := ?set (msg f)\<rparr>)" "refcnt (f\<lparr>msg := ?set (msg f)\<rparr>) + 1 \<noteq> 0"
    using c(5) by (simp_all add: H)
  obtain ret w1 H1 where s: "eaf_send_req E EAF_WATCHDOG_ID (we_sid (tab (wd_rec r))) req (?w\<lparr>w_mheap := ?H\<rparr>) = Some (ret, w1)"
    "eaf_msg_dec_ref (w_mheap w1) req = Some H1" "winv (w1\<lparr>w_mheap := H1\<rparr>)" "frame {} (?w\<lparr>w_mheap := ?H\<rparr>) (w1\<lparr>w_mheap := H1\<rparr>)"
    by (rule send_release [OF assms(1) ok held f])
  have nz: "data_size f \<noteq> 0" by (simp add: c(6))
  have "write_payload req (Heartbeat (wd_end r)) (st\<lparr>wd_world := ?w\<lparr>w_mheap := H\<rparr>\<rparr>) =
    Some (st\<lparr>wd_world := ?w\<lparr>w_mheap := H\<rparr>, wd_payload := (wd_payload st)(req \<mapsto> Heartbeat (wd_end r))\<rparr>)"
    using write_payload_ok [of "st\<lparr>wd_world := ?w\<lparr>w_mheap := H\<rparr>\<rparr>" req f] c(4) nz by simp
  then have "watchdog_send_request E tab fn n st =
      Some (ret, st\<lparr>wd_payload := (wd_payload st)(req \<mapsto> Heartbeat (wd_end r)), wd_world := w1\<lparr>w_mheap := H1\<rparr>\<rparr>)"
    using c(1) s(1,2) assms(3) by (simp add: watchdog_send_request_def)
  then show thesis by (rule that [OF _ s(3) frame_trans [OF frame_mheap s(4)]])
qed

subsection \<open>Times\<close>

definition deadline :: "watch_list \<Rightarrow> clock_time \<Rightarrow> watchdog_record \<Rightarrow> clock_time" where
  "deadline tab now r = clock_of (nanos now + unat (we_timeout (tab (wd_rec r))) * 1000000)"

lemma msec_from_zero: "snd (eaf_time_addclock_msec (Clock 0 0) (ucast (t :: u32))) = clock_of (unat t * 1000000)"
proof -
  have b: "unat t < 2 ^ 32" using unat_bound(2) [of t] by simp
  then have "take_bit 64 (unat t) = unat t" by (intro take_bit_nat_eq_self) simp
  then have "unat (ucast t :: u64) = unat t" by (simp add: unsigned_ucast_eq)
  moreover have "unat t * 1000000 div 1000000000 < 2 ^ 64" using b div_le_dividend [of "unat t * 1000000" 1000000000] by simp
  ultimately show ?thesis by (simp only: addclock_msec_exact nanos_def) simp
qed

lemma nanos_clock_of: "n div 1000000000 < 2 ^ 64 \<Longrightarrow> nanos (clock_of n) = n"
  by (simp add: nanos_def clock_of_def unat_of_nat)

lemma deadline_eq:
  "snd (eaf_time_addclock_ext e now (snd (eaf_time_addclock_msec (Clock 0 0) (ucast (we_timeout (tab (wd_rec r)))))) EAF_TIME_IGNORE_OVERFLOW) =
    deadline tab now r"
proof -
  have "unat (we_timeout (tab (wd_rec r))) < 2 ^ 32" using unat_bound(2) [of "we_timeout (tab (wd_rec r))"] by simp
  then have "nanos (clock_of (unat (we_timeout (tab (wd_rec r))) * 1000000)) = unat (we_timeout (tab (wd_rec r))) * 1000000"
    by (intro nanos_clock_of) simp
  then show ?thesis by (simp add: addclock_ext_ignore EAF_TIME_IGNORE_OVERFLOW_def msec_from_zero deadline_def)
qed

text \<open>Adding milliseconds never goes back in time: without overflow the sum is later, on overflow nothing is
  stored.\<close>

lemma add_msec_later: "t \<le> snd (eaf_time_addclock_msec t m)"
proof (cases "(nanos t + unat m * 1000000) div 1000000000 < 2 ^ 64")
  case True
  let ?n = "nanos t + unat m * 1000000"
  have "unat (tv_sec t) \<le> ?n div 1000000000"
    by (simp add: nanos_def)
  moreover have "unat (tv_nsec t) \<le> ?n mod 1000000000" if "unat (tv_sec t) = ?n div 1000000000"
  proof -
    have "unat (tv_sec t) * 1000000000 + ?n mod 1000000000 = ?n" unfolding that by (rule div_mult_mod_eq)
    then show ?thesis by (simp add: nanos_def)
  qed
  moreover have "unat (tv_sec (clock_of ?n)) = ?n div 1000000000" "unat (tv_nsec (clock_of ?n)) = ?n mod 1000000000"
    using True by (simp_all add: clock_of_def unat_of_nat)
  ultimately have "t \<le> clock_of ?n"
    unfolding less_eq_clock_time_def word_less_nat_alt word_le_nat_alt
    by (metis order_le_less word_unat_eq_iff)
  then show ?thesis using True by (simp add: addclock_msec_exact)
next
  case False
  then show ?thesis by (simp add: addclock_msec_exact)
qed

subsection \<open>A tick of the timer\<close>

lemma diffclock_sign: "fst (eaf_time_diffclock a b) < 0 \<longleftrightarrow> a < b" "0 < fst (eaf_time_diffclock a b) \<longleftrightarrow> b < a"
  by (auto simp: diffclock_fst)

text \<open>What happens to a record that is due.\<close>

definition asked :: "watch_list \<Rightarrow> clock_time \<Rightarrow> addr set \<Rightarrow> wd_memory \<Rightarrow> wd_memory" where
  "asked tab now D M = (\<lambda>a. if a \<in> D then map_option (\<lambda>r. r\<lparr>wd_begin := now, wd_end := deadline tab now r\<rparr>) (M a) else M a)"

definition due :: "clock_time \<Rightarrow> wd_memory \<Rightarrow> addr \<Rightarrow> bool" where
  "due now M a \<longleftrightarrow> wd_begin (the (M a)) \<le> now"

text \<open>The sorted list of waiting records is a prefix of due ones and the rest.\<close>

lemma none_due:
  assumes "map_ok (idle_key tab M) h m (n # xs)" "now < wd_begin (the (M n))"
  shows "filter (\<lambda>a. \<not> due now M a) (n # xs) = n # xs" "{a \<in> set (n # xs). due now M a} = {}"
proof -
  have "now < wd_begin (the (M a))" if "a \<in> set (n # xs)" for a
  proof (cases "a = n")
    case False
    then have "idle_key tab M n < idle_key tab M a" using assms(1) that by (auto simp: map_ok_def)
    then have "wd_begin (the (M n)) \<le> wd_begin (the (M a))" by (auto simp: less_prod_simp)
    then show ?thesis using assms(2) by simp
  qed (use assms(2) in simp)
  then show "filter (\<lambda>a. \<not> due now M a) (n # xs) = n # xs" "{a \<in> set (n # xs). due now M a} = {}"
    by (auto simp: due_def not_le intro!: filter_True)
qed

lemma check_idle_loop_ok:
  assumes "calm_env E" "wd_tables tab A st is bs ts" "winv (wd_world st)"
  shows "\<exists>st' bs' ts'. check_idle_loop E tab hb now (hd_opt is) st = Some st' \<and>
    wd_tables tab A st' (filter (\<lambda>a. \<not> due now (wd_mem st) a) is) bs' ts' \<and>
    set bs \<subseteq> set bs' \<and> set bs' \<subseteq> set bs \<union> {a \<in> set is. due now (wd_mem st) a} \<and>
    wd_mem st' = asked tab now {a \<in> set is. due now (wd_mem st) a} (wd_mem st) \<and>
    wd_reports st' = wd_reports st \<and> same_cfg (wd_ctx st) (wd_ctx st') \<and>
    winv (wd_world st') \<and> frame {} (wd_world st) (wd_world st')"
  using assms(2,3)
proof (induction "is" arbitrary: st bs ts)
  case Nil
  then show ?case by (subst check_idle_loop.simps) (auto simp: asked_def hd_opt_def)
next
  case (Cons n xs)
  note t = wd_tablesD [OF Cons.prems(1)]
  have nA: "n \<in> A" using t(2) by simp
  then obtain r where r: "wd_mem st n = Some r" using wd_staticD(3) [OF t(1)] by auto
  have dist: "n \<notin> set xs" using map_ok_distinct [OF t(4)] by simp
  show ?case
  proof (cases "now < wd_begin r")
    case True
    have "now < wd_begin (the (wd_mem st n))" using r True by simp
    note fil = none_due(1) [OF t(4) this] and D = none_due(2) [OF t(4) this]
    have "check_idle_loop E tab hb now (hd_opt (n # xs)) st = Some st"
      using r True by (subst check_idle_loop.simps) (simp add: hd_opt_def diffclock_sign)
    moreover have "asked tab now {} (wd_mem st) = wd_mem st" by (simp add: asked_def)
    ultimately show ?thesis unfolding fil D using Cons.prems
      by - (rule exI [of _ st], rule exI [of _ bs], rule exI [of _ ts], simp)
  next
    case False
    have d: "due now (wd_mem st) n" using False r by (simp add: due_def)
    have nxt: "eaf_map_next n (wd_heap st) = Some (hd_opt xs)" using iteration_spec [OF t(4)] by (metis append_Nil)
    obtain C h where e: "idle_erase n st = Some (st\<lparr>wd_ctx := C, wd_heap := h\<rparr>)" "same_cfg (wd_ctx st) C"
      "wd_tables tab A (st\<lparr>wd_ctx := C, wd_heap := h\<rparr>) (remove1 n (n # xs)) bs ts"
      by (rule idle_erase_ok [OF Cons.prems(1), of n]) simp
    let ?r = "r\<lparr>wd_begin := now, wd_end := deadline tab now r\<rparr>"
    define M where "M = (wd_mem st)(n \<mapsto> ?r)"
    let ?st1 = "st\<lparr>wd_ctx := C, wd_heap := h, wd_mem := M\<rparr>"
    have nb: "n \<notin> set xs \<union> set bs" using t(3) dist by auto
    have t1: "wd_tables tab A ?st1 xs bs ts"
      using wd_tables_upd [OF e(3), of n ?r] nb r by (simp add: M_def)
    have store: "wd_store n (\<lambda>r. r\<lparr>wd_begin := now\<rparr>) (st\<lparr>wd_ctx := C, wd_heap := h\<rparr>) =
        Some (st\<lparr>wd_ctx := C, wd_heap := h, wd_mem := (wd_mem st)(n \<mapsto> r\<lparr>wd_begin := now\<rparr>)\<rparr>)"
      "wd_store n (\<lambda>r. r\<lparr>wd_end := snd (eaf_time_addclock_ext (wd_end r) (wd_begin r)
          (snd (eaf_time_addclock_msec (Clock 0 0) (ucast (we_timeout (tab (wd_rec r0)))))) EAF_TIME_IGNORE_OVERFLOW)\<rparr>)
         (st\<lparr>wd_ctx := C, wd_heap := h, wd_mem := (wd_mem st)(n \<mapsto> r\<lparr>wd_begin := now\<rparr>)\<rparr>) = Some ?st1"
      if "r0 = r" for r0
      using r that by (simp_all add: wd_store_def deadline_eq M_def)
    obtain ret w p where s: "watchdog_send_request E tab hb n ?st1 = Some (ret, ?st1\<lparr>wd_payload := p, wd_world := w\<rparr>)"
      "winv w" "frame {} (wd_world st) w"
      by (rule send_request_ok [OF assms(1), of ?st1 n ?r]) (use Cons.prems(2) in \<open>simp_all add: M_def\<close>)
    let ?st2 = "?st1\<lparr>wd_payload := p, wd_world := w\<rparr>"
    have t2: "wd_tables tab A ?st2 xs bs ts" using t1 by (simp add: wd_tables_def)
    have step: "check_idle_loop E tab hb now (hd_opt (n # xs)) st =
      (if ret < 0 then check_idle_loop E tab hb now (hd_opt xs) ?st2
       else do {
         (ret, st) \<leftarrow> busy_insert n ?st2;
         if ret \<noteq> 0 then None
         else do {
           (ret, st) \<leftarrow> token_insert (n + n_table_offset) st;
           if ret \<noteq> 0 then None else check_idle_loop E tab hb now (hd_opt xs) st } })"
      using r False nxt e(1) store(1) store(2) [OF refl] s(1)
      by (subst check_idle_loop.simps) (simp add: diffclock_sign Let_def)
    have keep: "due now M a = due now (wd_mem st) a" if "a \<in> set xs" for a using that dist by (auto simp: due_def M_def)
    then have fil: "filter (\<lambda>a. \<not> due now M a) xs = filter (\<lambda>a. \<not> due now (wd_mem st) a) (n # xs)"
      using d by (auto intro: filter_cong)
    have D: "{a \<in> set (n # xs). due now (wd_mem st) a} = insert n {a \<in> set xs. due now M a}" using d keep by auto
    have asked: "asked tab now {a \<in> set xs. due now M a} M = asked tab now {a \<in> set (n # xs). due now (wd_mem st) a} (wd_mem st)"
      unfolding D using dist r by (auto simp: asked_def fun_eq_iff M_def)
    show ?thesis
    proof (cases "ret < 0")
      case True
      from Cons.IH [OF t2] s(2)
      obtain st' bs' ts' where ih: "check_idle_loop E tab hb now (hd_opt xs) ?st2 = Some st'"
        "wd_tables tab A st' (filter (\<lambda>a. \<not> due now M a) xs) bs' ts'" "set bs \<subseteq> set bs'"
        "set bs' \<subseteq> set bs \<union> {a \<in> set xs. due now M a}" "wd_mem st' = asked tab now {a \<in> set xs. due now M a} M"
        "wd_reports st' = wd_reports st" "same_cfg C (wd_ctx st')" "winv (wd_world st')" "frame {} w (wd_world st')"
        by auto
      show ?thesis
        using True step ih(1-3,6,8) ih(5) same_cfg_trans [OF e(2) ih(7)] frame_trans [OF s(3) ih(9)] ih(4) unfolding fil asked D
        by - (rule exI [of _ st'], rule exI [of _ bs'], rule exI [of _ ts'], auto)
    next
      case False
      obtain C1 h1 C2 h2 where b: "busy_insert n ?st2 = Some (0, ?st2\<lparr>wd_ctx := C1, wd_heap := h1\<rparr>)"
        "token_insert (n + n_table_offset) (?st2\<lparr>wd_ctx := C1, wd_heap := h1\<rparr>) = Some (0, ?st2\<lparr>wd_ctx := C2, wd_heap := h2\<rparr>)"
        "same_cfg (wd_ctx ?st2) C2"
        "wd_tables tab A (?st2\<lparr>wd_ctx := C2, wd_heap := h2\<rparr>) xs (insort_key (busy_key (wd_mem ?st2)) n bs)
           (insort_key (tok_key (wd_mem ?st2)) (n + n_table_offset) ts)"
        by (rule put_busy_ok [OF t2 nA nb])
      let ?st3 = "?st2\<lparr>wd_ctx := C2, wd_heap := h2\<rparr>"
      from Cons.IH [OF b(4)] s(2)
      obtain st' bs' ts' where ih: "check_idle_loop E tab hb now (hd_opt xs) ?st3 = Some st'"
        "wd_tables tab A st' (filter (\<lambda>a. \<not> due now M a) xs) bs' ts'" "insert n (set bs) \<subseteq> set bs'"
        "set bs' \<subseteq> insert n (set bs) \<union> {a \<in> set xs. due now M a}" "wd_mem st' = asked tab now {a \<in> set xs. due now M a} M"
        "wd_reports st' = wd_reports st" "same_cfg C2 (wd_ctx st')" "winv (wd_world st')" "frame {} w (wd_world st')"
        by (auto simp: set_insort_key)
      have "same_cfg C (wd_ctx st')" using b(3) ih(7) same_cfg_trans by simp
      then show ?thesis
        using False step b(1,2) ih(1-3,6,8) ih(5) same_cfg_trans [OF e(2)] frame_trans [OF s(3) ih(9)] ih(4) unfolding fil asked D
        by - (rule exI [of _ st'], rule exI [of _ bs'], rule exI [of _ ts'], auto)
    qed
  qed
qed

text \<open>The callback is never called while the busy records are checked: the code compares a deadline with
  the same deadline plus the tolerated delay.\<close>

lemma check_busy_loop_silent:
  assumes "map_ok (busy_key (wd_mem st)) (wd_heap st) (busy_stack (wd_ctx st)) (ys @ bs)" "set bs \<subseteq> dom (wd_mem st)"
  shows "check_busy_loop tab now (hd_opt bs) st = Some st"
  using assms
proof (induction bs arbitrary: ys)
  case Nil
  then show ?case by (subst check_busy_loop.simps) simp
next
  case (Cons n bs)
  then obtain r where r: "wd_mem st n = Some r" by auto
  have nxt: "eaf_map_next n (wd_heap st) = Some (hd_opt bs)" using iteration_spec [OF Cons.prems(1)] by blast
  have "\<not> snd (eaf_time_addclock_msec (wd_end r) m) < wd_end r" for m using add_msec_later [of "wd_end r" m] by (simp add: not_less)
  moreover have "check_busy_loop tab now (hd_opt bs) st = Some st" using Cons.IH [of "ys @ [n]"] Cons.prems by simp
  ultimately show ?case using r nxt by (subst check_busy_loop.simps) (simp add: diffclock_sign Let_def)
qed

lemma check_busy_silent:
  assumes "wd_tables tab A st is bs ts"
  shows "watchdog_check_busy tab now st = Some st"
proof -
  note t = wd_tablesD [OF assms]
  have "eaf_map_begin (busy_stack (wd_ctx st)) (wd_heap st) = Some (hd_opt bs)" using iteration_spec [OF t(5)] by blast
  moreover have "check_busy_loop tab now (hd_opt bs) st = Some st"
    by (rule check_busy_loop_silent [of st "[]"]) (use t(2,5) wd_staticD(3) [OF t(1)] in auto)
  ultimately show ?thesis by (simp add: watchdog_check_busy_def)
qed

lemma timer_ok:
  fixes sec nsec :: u64
  assumes "calm_env E" "wd_tables tab A st is bs ts" "winv (wd_world st)"
  defines "now \<equiv> Clock sec (ucast nsec)"
  shows "\<exists>st' bs' ts'. watchdog_on_timer E tab hb tm (Some (sec, nsec)) st = Some st' \<and>
    wd_tables tab A st' (filter (\<lambda>a. \<not> due now (wd_mem st) a) is) bs' ts' \<and>
    set bs \<subseteq> set bs' \<and> set bs' \<subseteq> set bs \<union> {a \<in> set is. due now (wd_mem st) a} \<and>
    wd_mem st' = asked tab now {a \<in> set is. due now (wd_mem st) a} (wd_mem st) \<and>
    wd_reports st' = wd_reports st \<and> same_cfg (wd_ctx st) (wd_ctx st') \<and>
    winv (wd_world st') \<and> frame {} (wd_world st) (wd_world st')"
proof -
  have beg: "eaf_map_begin (idle_stack (wd_ctx st)) (wd_heap st) = Some (hd_opt is)"
    using iteration_spec [OF wd_tablesD(4) [OF assms(2)]] by blast
  obtain st1 bs' ts' where i: "check_idle_loop E tab hb now (hd_opt is) st = Some st1"
    "wd_tables tab A st1 (filter (\<lambda>a. \<not> due now (wd_mem st) a) is) bs' ts'"
    "set bs \<subseteq> set bs'" "set bs' \<subseteq> set bs \<union> {a \<in> set is. due now (wd_mem st) a}"
    "wd_mem st1 = asked tab now {a \<in> set is. due now (wd_mem st) a} (wd_mem st)"
    "wd_reports st1 = wd_reports st" "same_cfg (wd_ctx st) (wd_ctx st1)" "winv (wd_world st1)" "frame {} (wd_world st) (wd_world st1)"
    using check_idle_loop_ok [OF assms(1-3), of hb now] by auto
  obtain ret w p where d: "EAF_TIMER_DELAY E EAF_WATCHDOG_ID tm WATCHDOG_TIMER_INTERVAL st1 = Some (ret, st1\<lparr>wd_payload := p, wd_world := w\<rparr>)"
    "winv w" "frame {} (wd_world st1) w"
    by (rule delay_ok [OF assms(1) i(8)])
  have "watchdog_on_timer E tab hb tm (Some (sec, nsec)) st = Some (st1\<lparr>wd_payload := p, wd_world := w\<rparr>)"
    using beg i(1) check_busy_silent [OF i(2), of now] d(1)
    by (simp add: watchdog_on_timer_def watchdog_check_idle_def eaf_time_getclock_def now_def)
  then show ?thesis using i(2-7) d(2) frame_trans [OF i(9) d(3)]
    by - (rule exI [of _ "st1\<lparr>wd_payload := p, wd_world := w\<rparr>"], rule exI [of _ bs'], rule exI [of _ ts'], simp)
qed


text \<open>C15: Silence is never reported. However often and however late the timer fires, a watched service that does not
  answer is never reported: the callback is only called when a response does arrive.\<close>

theorem watchdog_silence:
  assumes "calm_env E" "wd_tables tab A st is bs ts" "winv (wd_world st)"
  shows "\<exists>st'. foldl (\<lambda>x t. x \<bind> watchdog_on_timer E tab hb tm (Some t)) (Some st) ticks = Some st' \<and>
    wd_reports st' = wd_reports st"
  using assms(2,3)
proof (induction ticks arbitrary: st "is" bs ts)
  case (Cons t ticks)
  obtain sec nsec where t: "t = (sec, nsec)" by (cases t)
  from timer_ok [OF assms(1) Cons.prems, where hb = hb and tm = tm and sec = sec and nsec = nsec] obtain st1 is' bs' ts' where
    s: "watchdog_on_timer E tab hb tm (Some t) st = Some st1" "wd_tables tab A st1 is' bs' ts'" "winv (wd_world st1)"
    "wd_reports st1 = wd_reports st" unfolding t by blast
  show ?case using Cons.IH [OF s(2,3)] s(1,4) by simp
qed simp

subsection \<open>A response\<close>

lemma find_record_ok:
  assumes "wd_tables tab A st is bs ts" "n \<in> set bs" "wd_token (the (wd_mem st n)) = token" "tmp \<notin> dom (wd_mem st)"
  shows "watchdog_find_record_by_token tmp token st = Some (Some n)"
proof -
  note t = wd_tablesD [OF assms(1)]
  define M where "M = (wd_mem st)(tmp \<mapsto> token_key token)"
  have node: "a - n_table_offset \<in> A" if "a \<in> set ts" for a using that t(2,7) by auto
  have A: "A \<subseteq> dom (wd_mem st)" by (rule wd_staticD(3) [OF t(1)])
  have same: "tok_key M a = tok_key (wd_mem st) a" if "a \<in> set ts" for a using node [OF that] A assms(4) by (auto simp: M_def)
  have "map_ok (tok_key M) (wd_heap st) (busy_table (wd_ctx st)) ts" by (rule map_ok_key [OF t(6) same])
  moreover have "tok_key M (tmp + n_table_offset) = token" by (simp add: M_def token_key_def)
  ultimately have "eaf_map_find ((busy_table (wd_ctx st))\<lparr>cmp_fn := token_cmp M\<rparr>) (tmp + n_table_offset) (wd_heap st) =
    Some (find (\<lambda>a. tok_key M a = token) ts)"
    using watchdog_token_map.find_now [where n = "tmp + n_table_offset"] by (simp add: token_cmp_def)
  also have "find (\<lambda>a. tok_key M a = token) ts = find (\<lambda>a. tok_key (wd_mem st) a = token) ts"
    by (rule find_cong) (use same in auto)
  also have "\<dots> = Some (n + n_table_offset)"
    by (rule find_key) (use t(7) assms(2,3) map_ok_inj [OF t(6)] in auto)
  finally show ?thesis unfolding watchdog_find_record_by_token_def M_def [symmetric] by simp
qed

text \<open>A heartbeat response. The record is found by its token, whatever tables it has passed; it leaves both busy
  tables and waits again, the number of late answers in a row is counted, the callback is called when
  it exceeds the tolerated number, and the next request is due an interval after the response.\<close>

theorem watchdog_response:
  assumes "wd_tables tab A st is bs ts" "cb_fn (wd_ctx st) \<noteq> 0" "w_mheap (wd_world st) m = Some full"
    "n \<in> set bs" "wd_mem st n = Some r" "sint (eaf_msg_get_token (msg full)) = wd_token r" "tmp \<notin> dom (wd_mem st)"
    "now = Clock sec (ucast nsec)" "late = (if wd_end r < now then wd_cerrc r + 1 else 0)"
  shows "\<exists>st' is' ts'. watchdog_on_heartbeat_rsp tab (Some (sec, nsec)) tmp m st = Some st' \<and>
    wd_tables tab A st' is' (remove1 n bs) ts' \<and> set is' = insert n (set is) \<and>
    wd_mem st' = (wd_mem st)(n \<mapsto> r\<lparr>wd_begin := snd (eaf_time_addclock_msec now (ucast (we_interval (tab (wd_rec r))))),
      wd_cerrc := late\<rparr>) \<and>
    wd_reports st' = wd_reports st @ (if ucast (we_jitter (tab (wd_rec r))) < late
      then [(we_sid (tab (wd_rec r)), cb_arg (wd_ctx st))] else []) \<and>
    wd_world st' = wd_world st"
proof -
  note t = wd_tablesD [OF assms(1)]
  have nA: "n \<in> A" using t(2) assms(4) by auto
  have found: "watchdog_find_record_by_token tmp (sint (eaf_msg_get_token (msg full))) st = Some (Some n)"
    by (rule find_record_ok [OF assms(1,4)]) (use assms(5-7) in simp_all)
  obtain C h C1 h1 where e: "token_erase (n + n_table_offset) st = Some (st\<lparr>wd_ctx := C, wd_heap := h\<rparr>)"
    "busy_erase n (st\<lparr>wd_ctx := C, wd_heap := h\<rparr>) = Some (st\<lparr>wd_ctx := C1, wd_heap := h1\<rparr>)"
    "same_cfg (wd_ctx st) C1"
    "wd_tables tab A (st\<lparr>wd_ctx := C1, wd_heap := h1\<rparr>) is (remove1 n bs) (remove1 (n + n_table_offset) ts)"
    by (rule take_busy_ok [OF assms(1,4)])
  have out: "n \<notin> set is \<union> set (remove1 n bs)" using t(3) assms(4) map_ok_distinct [OF t(5)] by auto
  let ?r = "r\<lparr>wd_begin := snd (eaf_time_addclock_msec now (ucast (we_interval (tab (wd_rec r))))), wd_cerrc := late\<rparr>"
  define rep where "rep = wd_reports st @ (if ucast (we_jitter (tab (wd_rec r))) < late
      then [(we_sid (tab (wd_rec r)), cb_arg (wd_ctx st))] else [])"
  define M where "M = (wd_mem st)(n \<mapsto> ?r)"
  let ?st = "st\<lparr>wd_ctx := C1, wd_heap := h1, wd_reports := rep, wd_mem := M\<rparr>"
  have t1: "wd_tables tab A ?st is (remove1 n bs) (remove1 (n + n_table_offset) ts)"
    using wd_tables_upd [OF e(4) out, of ?r] assms(5) by (simp add: M_def wd_tables_def)
  obtain C2 h2 where i: "idle_insert tab n ?st = Some (0, ?st\<lparr>wd_ctx := C2, wd_heap := h2\<rparr>)"
    "wd_tables tab A (?st\<lparr>wd_ctx := C2, wd_heap := h2\<rparr>) (insort_key (idle_key tab (wd_mem ?st)) n is) (remove1 n bs) (remove1 (n + n_table_offset) ts)"
    by (rule idle_insert_ok [OF t1 nA out])
  have cfg: "cb_fn C1 = cb_fn (wd_ctx st)" "cb_arg C1 = cb_arg (wd_ctx st)" using e(3) by (simp_all add: same_cfg_def)
  have cerrc: "(if wd_end r < now then r\<lparr>wd_begin := now, wd_cerrc := wd_cerrc r + 1\<rparr> else r\<lparr>wd_begin := now, wd_cerrc := 0\<rparr>) =
      r\<lparr>wd_begin := now, wd_cerrc := late\<rparr>" using assms(9) by simp
  have report: "(if ucast (we_jitter (tab (wd_rec r))) < late
      then wd_report tab (r\<lparr>wd_begin := now, wd_cerrc := late\<rparr>) (st\<lparr>wd_ctx := C1, wd_heap := h1\<rparr>) else Some (st\<lparr>wd_ctx := C1, wd_heap := h1\<rparr>)) =
      Some (st\<lparr>wd_ctx := C1, wd_heap := h1, wd_reports := rep\<rparr>)"
    using assms(2) cfg by (simp add: wd_report_def rep_def)
  have rec: "(st\<lparr>wd_ctx := C1, wd_heap := h1, wd_reports := rep\<rparr>)\<lparr>wd_mem := (wd_mem st)(n \<mapsto>
      r\<lparr>wd_cerrc := late, wd_begin := snd (eaf_time_addclock_msec now (ucast (we_interval (tab (wd_rec r)))))\<rparr>)\<rparr> = ?st"
    unfolding M_def by (rule arg_cong [of _ _ "\<lambda>r'. st\<lparr>wd_ctx := C1, wd_heap := h1, wd_reports := rep,
      wd_mem := (wd_mem st)(n \<mapsto> r')\<rparr>", THEN trans [rotated]]) simp_all
  have "watchdog_on_heartbeat_rsp tab (Some (sec, nsec)) tmp m st = Some (?st\<lparr>wd_ctx := C2, wd_heap := h2\<rparr>)"
    using assms(3,5) found e(1,2) i(1) rec
    by (simp add: watchdog_on_heartbeat_rsp_def eaf_time_getclock_def diffclock_sign Let_def assms(8) [symmetric] cerrc report
        split del: if_split cong: if_cong)
  then show ?thesis using i(2)
    by - (rule exI, rule exI, rule exI, rule conjI, assumption, rule conjI, assumption, simp add: set_insort_key rep_def M_def)
qed

subsection \<open>Start\<close>

definition wd_recs :: "addr \<Rightarrow> nat \<Rightarrow> addr set" where
  "wd_recs records n = (\<lambda>i. records + i * sizeof_watchdog_record) ` {..<n}"

definition init_rec :: "addr \<Rightarrow> nat \<Rightarrow> watchdog_record" where
  "init_rec table i = zero_record\<lparr>wd_rec := table + i * sizeof_watch_entry, wd_token := int i\<rparr>"

abbreviation sid_at :: "watch_list \<Rightarrow> addr \<Rightarrow> nat \<Rightarrow> u32" where
  "sid_at tab table i \<equiv> we_sid (tab (table + i * sizeof_watch_entry))"

lemma in_wd_recs: "records + i * sizeof_watchdog_record \<in> wd_recs records n \<longleftrightarrow> i < n"
  by (auto simp: wd_recs_def sizeof_watchdog_record_def)

lemma wd_recs_0 [simp]: "wd_recs records 0 = {}"
  by (simp add: wd_recs_def)

lemma wd_recs_Suc: "wd_recs records (Suc n) = insert (records + n * sizeof_watchdog_record) (wd_recs records n)"
  by (auto simp: wd_recs_def less_Suc_eq)

lemma wd_static_none [simp]: "wd_static tab {} M"
  by (simp add: wd_static_def)

lemma wd_static_init:
  assumes "\<And>i. i < n \<Longrightarrow> M (records + i * sizeof_watchdog_record) = Some (init_rec table i)" "n < 2 ^ 31"
    "inj_on (sid_at tab table) {..<n}"
  shows "wd_static tab (wd_recs records n) M"
proof -
  let ?a = "\<lambda>i. records + i * sizeof_watchdog_record"
  have card: "card (wd_recs records n) \<le> n" unfolding wd_recs_def using card_image_le [of "{..<n}" ?a] by simp
  have r: "the (M (?a i)) = init_rec table i" if "i < n" for i using assms(1) that by simp
  have inj: "inj_on f (wd_recs records n)" if "\<And>i j. i < n \<Longrightarrow> j < n \<Longrightarrow> f (?a i) = f (?a j) \<Longrightarrow> i = j" for f :: "addr \<Rightarrow> 'b"
    unfolding wd_recs_def using that by (auto intro!: inj_onI)
  have "inj_on (\<lambda>a. we_sid (tab (wd_rec (the (M a))))) (wd_recs records n)"
    using inj_onD [OF assms(3)] by (intro inj) (simp add: r init_rec_def)
  moreover have "inj_on (\<lambda>a. wd_rec (the (M a))) (wd_recs records n)"
    by (intro inj) (simp add: r init_rec_def sizeof_watch_entry_def)
  moreover have "inj_on (\<lambda>a. wd_token (the (M a))) (wd_recs records n)" by (intro inj) (simp add: r init_rec_def)
  moreover have "0 \<le> wd_token (the (M a)) \<and> wd_token (the (M a)) < 2 ^ 31" if "a \<in> wd_recs records n" for a
    using that assms(2) by (auto simp: wd_recs_def r init_rec_def)
  moreover have "a \<noteq> b + n_table_offset" if ab: "a \<in> wd_recs records n" "b \<in> wd_recs records n" for a b
  proof
    assume *: "a = b + n_table_offset"
    obtain i j where "a = ?a i" "b = ?a j" using ab by (auto simp: wd_recs_def)
    with * have "i * 104 = j * 104 + 24" by (simp add: sizeof_watchdog_record_def n_table_offset_def)
    then show False by presburger
  qed
  moreover have "wd_recs records n \<subseteq> dom M" using assms(1) by (auto simp: wd_recs_def)
  moreover have "finite (wd_recs records n)" by (simp add: wd_recs_def)
  ultimately show ?thesis using card assms(2) by (auto simp: wd_static_def)
qed

lemma wd_tables_new:
  assumes "wd_tables tab A st is bs ts" "n \<notin> A" "wd_static tab A' ((wd_mem st)(n \<mapsto> x))" "A \<subseteq> A'"
  shows "wd_tables tab A' (st\<lparr>wd_mem := (wd_mem st)(n \<mapsto> x)\<rparr>) is bs ts"
proof -
  note t = wd_tablesD [OF assms(1)]
  let ?M = "(wd_mem st)(n \<mapsto> x)"
  have "map_ok (idle_key tab ?M) (wd_heap st) (idle_stack (wd_ctx st)) is" by (rule map_ok_key [OF t(4)]) (use t(2) assms(2) in auto)
  moreover have "map_ok (busy_key ?M) (wd_heap st) (busy_stack (wd_ctx st)) bs" by (rule map_ok_key [OF t(5)]) (use t(2) assms(2) in auto)
  moreover have "map_ok (tok_key ?M) (wd_heap st) (busy_table (wd_ctx st)) ts"
    by (rule map_ok_key [OF t(6)]) (use t(2,7) assms(2) in auto)
  ultimately show ?thesis using t(2,3,7) assms(3,4) by (auto simp: wd_tables_def)
qed

lemma idle_duplicate:
  assumes "wd_tables tab A st is bs ts" "n \<notin> set is" "a \<in> set is" "idle_key tab (wd_mem st) a = idle_key tab (wd_mem st) n"
  obtains C where "idle_insert tab n st = Some (eaf_errno_duplicate, st\<lparr>wd_ctx := C\<rparr>)" "same_cfg (wd_ctx st) C"
    "wd_tables tab A (st\<lparr>wd_ctx := C\<rparr>) is bs ts"
proof -
  note t = wd_tablesD [OF assms(1)]
  have short: "Suc (length is) < 2 ^ 64" by (rule wd_short [OF t(1)]) (use t(2) map_ok_distinct [OF t(4)] in auto)
  let ?m = "(idle_stack (wd_ctx st))\<lparr>cmp_fn := idle_cmp tab (wd_mem st)\<rparr>"
  have "eaf_map_insert ?m n (wd_heap st) = Some (eaf_errno_duplicate, ?m, wd_heap st)"
    using watchdog_idle_map.insert_duplicate [OF t(4) _ assms(2) short assms(3,4)] unfolding idle_cmp_def by simp
  then have "idle_insert tab n st = Some (eaf_errno_duplicate, st\<lparr>wd_ctx := (wd_ctx st)\<lparr>idle_stack := ?m\<rparr>\<rparr>)"
    by (simp add: idle_insert_def)
  then show thesis by (rule that) (use assms(1) in \<open>simp_all add: wd_tables_def\<close>)
qed

lemma init_records_ok:
  assumes "wd_tables tab (wd_recs records i) st is [] []" "set is = wd_recs records i"
    "\<And>j. j < i \<Longrightarrow> wd_mem st (records + j * sizeof_watchdog_record) = Some (init_rec table j)"
    "\<And>j. i \<le> j \<Longrightarrow> j < i + k \<Longrightarrow> wd_mem st (records + j * sizeof_watchdog_record) = Some zero_record" "i + k < 2 ^ 31"
    "inj_on (sid_at tab table) {..<i}"
  shows "\<exists>b A C h M is'. init_records tab table records i k st = Some (b, st\<lparr>wd_ctx := C, wd_heap := h, wd_mem := M\<rparr>) \<and>
    b = inj_on (sid_at tab table) {..<i + k} \<and> same_cfg (wd_ctx st) C \<and>
    wd_tables tab A (st\<lparr>wd_ctx := C, wd_heap := h, wd_mem := M\<rparr>) is' [] [] \<and>
    (b \<longrightarrow> A = wd_recs records (i + k) \<and> set is' = A \<and>
      (\<forall>j < i + k. M (records + j * sizeof_watchdog_record) = Some (init_rec table j))) \<and>
    (\<forall>a. a \<notin> wd_recs records (i + k) \<longrightarrow> M a = wd_mem st a)"
  using assms
proof (induction k arbitrary: i st "is")
  case 0
  then show ?case
    by - (rule exI [of _ True], rule exI [of _ "wd_recs records i"], rule exI [of _ "wd_ctx st"], rule exI [of _ "wd_heap st"],
      rule exI [of _ "wd_mem st"], rule exI [of _ "is"], simp)
next
  case (Suc k)
  let ?a = "\<lambda>j. records + j * sizeof_watchdog_record"
  define M where "M = (wd_mem st)(?a i \<mapsto> init_rec table i)"
  let ?st = "st\<lparr>wd_mem := M\<rparr>"
  have out: "?a i \<notin> wd_recs records i" by (simp add: in_wd_recs)
  have M: "M (?a j) = Some (init_rec table j)" if "j < Suc i" for j
    using Suc.prems(3) [of j] that by (cases "j = i") (auto simp: M_def sizeof_watchdog_record_def)
  have zero: "wd_mem st (?a i) = Some zero_record" using Suc.prems(4) [of i] by simp
  then have step: "init_records tab table records i (Suc k) st =
      idle_insert tab (?a i) ?st \<bind> (\<lambda>(ret, st). if ret < 0 then Some (False, st) else init_records tab table records (i + 1) k st)"
    by (simp add: wd_store_def M_def init_rec_def Let_def)
  show ?case
  proof (cases "sid_at tab table i \<in> sid_at tab table ` {..<i}")
    case True
    then obtain j where j: "j < i" "sid_at tab table j = sid_at tab table i" by auto
    have t: "wd_tables tab (wd_recs records i) ?st is [] []" unfolding M_def
      by (rule wd_tables_new [OF Suc.prems(1) out]) (use M Suc.prems(5,6) in \<open>auto simp: M_def [symmetric] intro!: wd_static_init\<close>)
    have key: "idle_key tab (wd_mem ?st) (?a j) = idle_key tab (wd_mem ?st) (?a i)" using M j by (simp add: init_rec_def)
    obtain C where C: "idle_insert tab (?a i) ?st = Some (eaf_errno_duplicate, ?st\<lparr>wd_ctx := C\<rparr>)" "same_cfg (wd_ctx st) C"
      "wd_tables tab (wd_recs records i) (?st\<lparr>wd_ctx := C\<rparr>) is [] []"
      by (rule idle_duplicate [OF t _ _ key]) (use Suc.prems(2) out j(1) in \<open>auto simp: in_wd_recs\<close>)
    have "\<not> inj_on (sid_at tab table) {..<i + Suc k}"
    proof
      assume "inj_on (sid_at tab table) {..<i + Suc k}"
      from inj_onD [OF this j(2)] j(1) show False by simp
    qed
    moreover have "M a = wd_mem st a" if "a \<notin> wd_recs records (i + Suc k)" for a
      using that in_wd_recs [of records i "i + Suc k"] by (auto simp: M_def)
    moreover have "wd_tables tab (wd_recs records i) (st\<lparr>wd_ctx := C, wd_mem := M\<rparr>) is [] []" using C(3) by (simp add: wd_tables_def)
    moreover have "init_records tab table records i (Suc k) st = Some (False, st\<lparr>wd_ctx := C, wd_mem := M\<rparr>)"
      unfolding step C(1) by (simp add: eaf_errno_duplicate_def)
    ultimately show ?thesis using C(2)
      by - (rule exI [of _ False], rule exI [of _ "wd_recs records i"], rule exI [of _ C], rule exI [of _ "wd_heap st"],
        rule exI [of _ M], rule exI [of _ "is"], simp)
  next
    case False
    have inj: "inj_on (sid_at tab table) {..<Suc i}" using Suc.prems(6) False by (simp add: lessThan_Suc)
    have sub: "wd_recs records i \<subseteq> wd_recs records (Suc i)" by (auto simp: wd_recs_Suc)
    have t: "wd_tables tab (wd_recs records (Suc i)) ?st is [] []" unfolding M_def
      by (rule wd_tables_new [OF Suc.prems(1) out _ sub]) (use M Suc.prems(5) inj in \<open>auto simp: M_def [symmetric] intro!: wd_static_init\<close>)
    obtain C h where C: "idle_insert tab (?a i) ?st = Some (0, ?st\<lparr>wd_ctx := C, wd_heap := h\<rparr>)" "same_cfg (wd_ctx st) C"
      "wd_tables tab (wd_recs records (Suc i)) (?st\<lparr>wd_ctx := C, wd_heap := h\<rparr>) (insort_key (idle_key tab M) (?a i) is) [] []"
      by (rule idle_insert_ok [OF t, of "?a i"]) (use Suc.prems(2) out in \<open>auto simp: in_wd_recs\<close>)
    have zeros: "wd_mem (?st\<lparr>wd_ctx := C, wd_heap := h\<rparr>) (?a j) = Some zero_record" if "Suc i \<le> j" "j < Suc i + k" for j
      using Suc.prems(4) [of j] that by (simp add: M_def sizeof_watchdog_record_def)
    from Suc.IH [OF C(3) _ _ zeros _ inj]
    obtain b A C' h' M' is' where ih: "init_records tab table records (Suc i) k (?st\<lparr>wd_ctx := C, wd_heap := h\<rparr>) =
        Some (b, st\<lparr>wd_ctx := C', wd_heap := h', wd_mem := M'\<rparr>)"
      "b = inj_on (sid_at tab table) {..<i + Suc k}" "same_cfg C C'"
      "wd_tables tab A (st\<lparr>wd_ctx := C', wd_heap := h', wd_mem := M'\<rparr>) is' [] []"
      "b \<longrightarrow> A = wd_recs records (i + Suc k) \<and> set is' = A \<and> (\<forall>j < i + Suc k. M' (?a j) = Some (init_rec table j))"
      "\<forall>a. a \<notin> wd_recs records (i + Suc k) \<longrightarrow> M' a = M a"
      using Suc.prems(2,5) M by (auto simp: set_insort_key wd_recs_Suc)
    have "M' a = wd_mem st a" if "a \<notin> wd_recs records (i + Suc k)" for a
      using that ih(6) in_wd_recs [of records i "i + Suc k"] by (auto simp: M_def)
    then show ?thesis using step C(1) ih(1-5) same_cfg_trans [OF C(2) ih(3)]
      by - (rule exI [of _ b], rule exI [of _ A], rule exI [of _ C'], rule exI [of _ h'],
        rule exI [of _ M'], rule exI [of _ "is'"], simp)
  qed
qed

subsection \<open>Initialisation and exit\<close>

lemma cleanup_idle_loop_ok:
  assumes "wd_tables tab A st is bs ts"
  shows "\<exists>C h. cleanup_idle_loop (hd_opt is) st = Some (st\<lparr>wd_ctx := C, wd_heap := h\<rparr>) \<and> same_cfg (wd_ctx st) C \<and>
    busy_table C = busy_table (wd_ctx st) \<and> wd_tables tab A (st\<lparr>wd_ctx := C, wd_heap := h\<rparr>) [] bs ts"
  using assms
proof (induction "is" arbitrary: st)
  case Nil
  then show ?case
    by (subst cleanup_idle_loop.simps) (simp, rule exI [of _ "wd_ctx st"], rule exI [of _ "wd_heap st"], simp)
next
  case (Cons n xs)
  note t = wd_tablesD [OF Cons.prems]
  have nxt: "eaf_map_next n (wd_heap st) = Some (hd_opt xs)" using iteration_spec [OF t(4)] by (metis append_Nil)
  obtain C h where e: "idle_erase n st = Some (st\<lparr>wd_ctx := C, wd_heap := h\<rparr>)" "same_cfg (wd_ctx st) C"
    "wd_tables tab A (st\<lparr>wd_ctx := C, wd_heap := h\<rparr>) (remove1 n (n # xs)) bs ts"
    by (rule idle_erase_ok [OF Cons.prems, of n]) simp
  have tab: "busy_table C = busy_table (wd_ctx st)" using e(1) by (auto simp: idle_erase_def bind_eq_Some_conv dest!: arg_cong [where f = wd_ctx])
  from Cons.IH [of "st\<lparr>wd_ctx := C, wd_heap := h\<rparr>"] e(3)
  obtain C' h' where "cleanup_idle_loop (hd_opt xs) (st\<lparr>wd_ctx := C, wd_heap := h\<rparr>) = Some (st\<lparr>wd_ctx := C', wd_heap := h'\<rparr>)"
    "same_cfg C C'" "busy_table C' = busy_table C" "wd_tables tab A (st\<lparr>wd_ctx := C', wd_heap := h'\<rparr>) [] bs ts" by auto
  then show ?case using nxt e(1) tab same_cfg_trans [OF e(2)]
    by (subst cleanup_idle_loop.simps) (auto simp: hd_opt_def)
qed

lemma cleanup_idle_ok:
  assumes "wd_tables tab A st is bs ts"
  obtains C h where "watchdog_cleanup_idle_stack st = Some (st\<lparr>wd_ctx := C, wd_heap := h\<rparr>)" "same_cfg (wd_ctx st) C"
    "busy_table C = busy_table (wd_ctx st)" "wd_tables tab A (st\<lparr>wd_ctx := C, wd_heap := h\<rparr>) [] bs ts"
proof -
  have "eaf_map_begin (idle_stack (wd_ctx st)) (wd_heap st) = Some (hd_opt is)"
    using iteration_spec [OF wd_tablesD(4) [OF assms]] by blast
  then show thesis using cleanup_idle_loop_ok [OF assms] that by (auto simp: watchdog_cleanup_idle_stack_def)
qed

text \<open>The clean-up of \<open>busy_stack\<close> leaves \<open>busy_table\<close> alone.\<close>

lemma cleanup_busy_ok:
  assumes "map_ok (busy_key M) (wd_heap st) (busy_stack (wd_ctx st)) bs" "map_ok key (wd_heap st) (busy_table (wd_ctx st)) ts"
    "set bs \<inter> set ts = {}"
  shows "\<exists>C h. watchdog_cleanup_busy_stack st = Some (st\<lparr>wd_ctx := C, wd_heap := h\<rparr>) \<and> same_cfg (wd_ctx st) C \<and>
    idle_stack C = idle_stack (wd_ctx st) \<and> busy_table C = busy_table (wd_ctx st) \<and>
    map_ok (busy_key M) h (busy_stack C) [] \<and> map_ok key h (busy_table C) ts"
proof -
  have beg: "eaf_map_begin (busy_stack (wd_ctx st)) (wd_heap st) = Some (hd_opt bs)" using iteration_spec [OF assms(1)] by blast
  have "\<exists>C h. cleanup_busy_loop (hd_opt bs) st = Some (st\<lparr>wd_ctx := C, wd_heap := h\<rparr>) \<and> same_cfg (wd_ctx st) C \<and>
    idle_stack C = idle_stack (wd_ctx st) \<and> busy_table C = busy_table (wd_ctx st) \<and>
    map_ok (busy_key M) h (busy_stack C) [] \<and> map_ok key h (busy_table C) ts"
    using assms
  proof (induction bs arbitrary: st)
    case Nil
    then show ?case
      by (subst cleanup_busy_loop.simps) (simp, rule exI [of _ "wd_ctx st"], rule exI [of _ "wd_heap st"], simp)
  next
    case (Cons n xs)
    have nxt: "eaf_map_next n (wd_heap st) = Some (hd_opt xs)" using iteration_spec [OF Cons.prems(1)] by (metis append_Nil)
    obtain m h where e: "eaf_map_erase (busy_stack (wd_ctx st)) n (wd_heap st) = Some (m, h)"
      "map_ok (busy_key M) h m xs" "same_off (set (n # xs)) (wd_heap st) h"
      using erase_spec [OF Cons.prems(1), of n] by auto
    let ?st = "st\<lparr>wd_ctx := (wd_ctx st)\<lparr>busy_stack := m\<rparr>, wd_heap := h\<rparr>"
    have "map_ok key h (busy_table (wd_ctx st)) ts" using map_ok_frame [OF Cons.prems(2) e(3)] Cons.prems(3) by auto
    then obtain C h' where "cleanup_busy_loop (hd_opt xs) ?st = Some (st\<lparr>wd_ctx := C, wd_heap := h'\<rparr>)" "same_cfg (wd_ctx st) C"
      "idle_stack C = idle_stack (wd_ctx st)" "busy_table C = busy_table (wd_ctx st)"
      "map_ok (busy_key M) h' (busy_stack C) []" "map_ok key h' (busy_table C) ts"
      using Cons.IH [of ?st] e(2) Cons.prems(3) by (auto simp: same_cfg_def)
    moreover have "busy_erase n st = Some ?st" using e(1) by (simp add: busy_erase_def)
    ultimately show ?case using nxt
      by (subst cleanup_busy_loop.simps) (simp add: hd_opt_def, rule exI [of _ C], rule exI [of _ h'], simp)
  qed
  then show ?thesis using beg by (simp add: watchdog_cleanup_busy_stack_def)
qed

lemma free_records_wd_recs:
  assumes "wd_records (wd_ctx st) = Some records"
  shows "watchdog_free_records st = st\<lparr>wd_mem := (wd_mem st) |` (- wd_recs records (unat (wd_size (wd_ctx st)))),
    wd_ctx := (wd_ctx st)\<lparr>wd_records := None, wd_size := 0\<rparr>\<rparr>"
  using assms by (auto simp: watchdog_free_records_def wd_recs_def restrict_map_def Let_def intro!: wd_state.equality ext)

lemma wd_tables_none:
  assumes "wd_tables tab A st [] [] []"
  shows "wd_tables tab {} (st\<lparr>wd_mem := M\<rparr>) [] [] []"
  using assms by (auto simp: wd_tables_def map_ok_def)

text \<open>The common end of the failing paths.\<close>

lemma init_failed:
  assumes "wd_tables tab A st is [] []" "wd_records (wd_ctx st) = Some records"
  obtains st' where "watchdog_cleanup_idle_stack st \<bind> (\<lambda>st. Some (ret, watchdog_reset_callback (watchdog_free_records st))) = Some (ret, st')"
    "wd_tables tab {} st' [] [] []" "wd_mem st' = wd_mem st |` (- wd_recs records (unat (wd_size (wd_ctx st))))"
    "wd_records (wd_ctx st') = None" "cb_fn (wd_ctx st') = 0" "wd_world st' = wd_world st" "wd_reports st' = wd_reports st"
proof -
  obtain C h where c: "watchdog_cleanup_idle_stack st = Some (st\<lparr>wd_ctx := C, wd_heap := h\<rparr>)" "same_cfg (wd_ctx st) C"
    "wd_tables tab A (st\<lparr>wd_ctx := C, wd_heap := h\<rparr>) [] [] []"
    by (rule cleanup_idle_ok [OF assms(1)])
  let ?s = "st\<lparr>wd_ctx := C, wd_heap := h\<rparr>"
  have r: "wd_records (wd_ctx ?s) = Some records" using c(2) assms(2) by (simp add: same_cfg_def)
  have size: "wd_size C = wd_size (wd_ctx st)" using c(2) by (simp add: same_cfg_def)
  show thesis
    by (rule that [of "watchdog_reset_callback (watchdog_free_records ?s)"])
      (use c(1) wd_tables_none [OF c(3)] in \<open>auto simp: free_records_wd_recs [OF r] watchdog_reset_callback_def size wd_tables_def map_ok_def\<close>)
qed

lemma sint_small: "uint (sz::64 word) < 2 ^ 31 \<Longrightarrow> sint (ucast sz :: 32 word) = uint sz"
proof (transfer, goal_cases)
  case (1 a)
  then have b: "take_bit 64 a < 2 ^ 31" by simp
  have n: "0 \<le> take_bit 64 a" by simp
  have "take_bit 32 (take_bit 64 a) = take_bit 64 a" using b by (intro take_bit_int_eq_self [OF n]) simp
  moreover have "signed_take_bit 31 (take_bit 64 a) = take_bit 64 a"
    by (rule signed_take_bit_int_eq_self [OF order_trans [OF _ n] b]) simp
  ultimately show ?case by (simp del: take_bit_take_bit)
qed

text \<open>Initialisation. The watched services must differ, otherwise the table is refused; the service of the
  watchdog is registered last. On success every record is idle with its own token, and the callback is
  set. On failure the error is returned and nothing is left: no record in a table, no memory, no callback.\<close>

theorem watchdog_init:
  fixes sz :: size_t
  assumes "calm_env E" "winv (wd_world st)" "cb_fn (wd_ctx st) = 0" "wd_tables tab {} st [] [] []" "unat sz < 2 ^ 31"
    "wd_recs records (unat sz) \<inter> dom (wd_mem st) = {}" "entry = \<lparr>msg_table = [], ep_on_init = on_init, ep_on_exit = on_exit\<rparr>"
  shows "\<exists>ret st'. eaf_watchdog_init E tab (Some records) on_init on_exit table sz fn arg st = Some (ret, st') \<and>
    (if distinct (map (\<lambda>i. we_sid (tab (table + i * sizeof_watch_entry))) [0..<unat sz])
     then eaf_register E EAF_WATCHDOG_ID entry (wd_world st) = Some (ret, wd_world st')
     else ret = eaf_errno_duplicate \<and> wd_world st' = wd_world st) \<and>
    (if ret = eaf_errno_success
     then cb_fn (wd_ctx st') = fn \<and> cb_arg (wd_ctx st') = arg \<and> wd_records (wd_ctx st') = Some records \<and>
       wd_size (wd_ctx st') = sz \<and>
       (\<exists>is. wd_tables tab (wd_recs records (unat sz)) st' is [] [] \<and> set is = wd_recs records (unat sz)) \<and>
       (\<forall>i < unat sz. wd_mem st' (records + i * sizeof_watchdog_record) = Some (init_rec table i))
     else wd_tables tab {} st' [] [] [] \<and> wd_mem st' = wd_mem st \<and> wd_records (wd_ctx st') = None \<and> cb_fn (wd_ctx st') = 0)"
proof -
  let ?n = "unat sz"
  define M where "M = (\<lambda>b. if b \<in> wd_recs records ?n then Some zero_record else wd_mem st b)"
  define st0 where "st0 = st\<lparr>wd_ctx := (wd_ctx st)\<lparr>wd_records := Some records, wd_size := sz\<rparr>, wd_mem := M\<rparr>"
  have count: "nat (sint (ucast sz :: i32)) = ?n" using sint_small [of sz] assms(5) by (simp add: uint_nat del: of_nat_unat)
  have "wd_tables tab {} (st\<lparr>wd_mem := M\<rparr>) [] [] []" by (rule wd_tables_none [OF assms(4)])
  then have "wd_tables tab (wd_recs records 0) st0 [] [] []" by (simp add: st0_def wd_tables_def)
  moreover have "wd_mem st0 (records + j * sizeof_watchdog_record) = Some zero_record" if "j < 0 + ?n" for j
    using that by (simp add: st0_def M_def in_wd_recs)
  ultimately obtain b A C h M' is' where i: "init_records tab table records 0 ?n st0 = Some (b, st0\<lparr>wd_ctx := C, wd_heap := h, wd_mem := M'\<rparr>)"
    "b = inj_on (sid_at tab table) {..<?n}" "same_cfg (wd_ctx st0) C"
    "wd_tables tab A (st0\<lparr>wd_ctx := C, wd_heap := h, wd_mem := M'\<rparr>) is' [] []"
    "b \<longrightarrow> A = wd_recs records ?n \<and> set is' = A \<and> (\<forall>j < ?n. M' (records + j * sizeof_watchdog_record) = Some (init_rec table j))"
    "\<forall>a. a \<notin> wd_recs records ?n \<longrightarrow> M' a = wd_mem st0 a"
    using init_records_ok [of tab records 0 st0 "[]" table ?n] assms(5) by auto
  let ?st1 = "st0\<lparr>wd_ctx := C, wd_heap := h, wd_mem := M'\<rparr>"
  have cfg: "wd_records C = Some records" "wd_size C = sz" using i(3) by (simp_all add: same_cfg_def st0_def)
  have b: "b = distinct (map (sid_at tab table) [0..<?n])" unfolding i(2) distinct_map by (simp add: atLeast0LessThan)
  have clean: "M' |` (- wd_recs records ?n) = wd_mem st"
    using i(6) assms(6) by (auto simp: restrict_map_def st0_def M_def fun_eq_iff dom_def disjoint_iff)
  have start: "eaf_watchdog_init E tab (Some records) on_init on_exit table sz fn arg st =
    (if \<not> b then watchdog_cleanup_idle_stack ?st1 \<bind> (\<lambda>st. Some (eaf_errno_duplicate, watchdog_reset_callback (watchdog_free_records st)))
     else do {
       (ret, w) \<leftarrow> eaf_register E EAF_WATCHDOG_ID entry (wd_world st);
       let st = ?st1\<lparr>wd_ctx := C\<lparr>cb_fn := fn, cb_arg := arg\<rparr>, wd_world := w\<rparr>;
       if ret \<noteq> eaf_errno_success then watchdog_cleanup_idle_stack st \<bind> (\<lambda>st. Some (ret, watchdog_reset_callback (watchdog_free_records st)))
       else Some (ret, st) })"
    using assms(3) i(1) count unfolding eaf_watchdog_init_def st0_def M_def wd_recs_def assms(7) by (simp add: Let_def)
  show ?thesis
  proof (cases b)
    case False
    obtain st' where "watchdog_cleanup_idle_stack ?st1 \<bind> (\<lambda>st. Some (eaf_errno_duplicate, watchdog_reset_callback (watchdog_free_records st))) =
        Some (eaf_errno_duplicate, st')"
      "wd_tables tab {} st' [] [] []" "wd_mem st' = wd_mem st"
      "wd_records (wd_ctx st') = None" "cb_fn (wd_ctx st') = 0" "wd_world st' = wd_world st"
      by (rule init_failed [OF i(4), of records eaf_errno_duplicate]) (use cfg clean in \<open>simp_all add: st0_def\<close>)
    then show ?thesis using False start unfolding b [symmetric]
      by - (rule exI [of _ eaf_errno_duplicate], rule exI [of _ st'], simp add: eaf_errno_duplicate_def eaf_errno_success_def)
  next
    case True
    obtain ret w where r: "eaf_register E EAF_WATCHDOG_ID entry (wd_world st) = Some (ret, w)"
      using register_good [OF assms(2) calm_quiet [OF assms(1)], of EAF_WATCHDOG_ID entry] by (auto simp: goodr_def)
    let ?st2 = "?st1\<lparr>wd_ctx := C\<lparr>cb_fn := fn, cb_arg := arg\<rparr>, wd_world := w\<rparr>"
    have t2: "wd_tables tab A ?st2 is' [] []" using i(4) by (simp add: wd_tables_def)
    show ?thesis
    proof (cases "ret = eaf_errno_success")
      case True
      then have "eaf_watchdog_init E tab (Some records) on_init on_exit table sz fn arg st = Some (ret, ?st2)"
        using start r \<open>b\<close> by (simp add: Let_def)
      moreover have "\<exists>is. wd_tables tab (wd_recs records ?n) ?st2 is [] [] \<and> set is = wd_recs records ?n"
        using t2 i(5) \<open>b\<close> by auto
      ultimately show ?thesis using True \<open>b\<close> r i(5) cfg unfolding b [symmetric]
        by - (rule exI [of _ ret], rule exI [of _ ?st2], simp)
    next
      case False
      obtain st' where "watchdog_cleanup_idle_stack ?st2 \<bind> (\<lambda>st. Some (ret, watchdog_reset_callback (watchdog_free_records st))) = Some (ret, st')"
        "wd_tables tab {} st' [] [] []" "wd_mem st' = wd_mem st"
        "wd_records (wd_ctx st') = None" "cb_fn (wd_ctx st') = 0" "wd_world st' = w"
        by (rule init_failed [OF t2, of records ret]) (use cfg clean in \<open>simp_all add: st0_def\<close>)
      then show ?thesis using False start r \<open>b\<close> unfolding b [symmetric]
        by - (rule exI [of _ ret], rule exI [of _ st'], simp add: Let_def)
    qed
  qed
qed

text \<open>C16: Exit. Both stacks are emptied, the records are freed and the callback is forgotten, but the nodes of
  requests that are still out stay in \<open>busy_table\<close>: all of them then lie in freed memory, where the
  next start of the watchdog finds them.\<close>

theorem watchdog_exit:
  assumes "wd_tables tab A st is bs ts" "cb_fn (wd_ctx st) \<noteq> 0" "wd_records (wd_ctx st) = Some records"
    "A = wd_recs records (unat (wd_size (wd_ctx st)))"
  shows "\<exists>st'. eaf_watchdog_exit st = Some st' \<and>
    map_ok (idle_key tab (wd_mem st')) (wd_heap st') (idle_stack (wd_ctx st')) [] \<and>
    map_ok (busy_key (wd_mem st')) (wd_heap st') (busy_stack (wd_ctx st')) [] \<and>
    wd_mem st' = wd_mem st |` (- A) \<and> wd_records (wd_ctx st') = None \<and> cb_fn (wd_ctx st') = 0 \<and>
    map_ok (tok_key (wd_mem st)) (wd_heap st') (busy_table (wd_ctx st')) ts \<and>
    set ts = (\<lambda>a. a + n_table_offset) ` set bs \<and> (\<forall>a \<in> set bs. wd_mem st' a = None)"
proof -
  note t = wd_tablesD [OF assms(1)]
  obtain C h where c: "watchdog_cleanup_idle_stack st = Some (st\<lparr>wd_ctx := C, wd_heap := h\<rparr>)" "same_cfg (wd_ctx st) C"
    "wd_tables tab A (st\<lparr>wd_ctx := C, wd_heap := h\<rparr>) [] bs ts"
    by (rule cleanup_idle_ok [OF assms(1)])
  let ?s = "st\<lparr>wd_ctx := C, wd_heap := h\<rparr>"
  note t1 = wd_tablesD [OF c(3)]
  have disj: "set bs \<inter> set ts = {}" using wd_disjoint [OF assms(1)] t(2) by blast
  obtain C' h' where d: "watchdog_cleanup_busy_stack ?s = Some (?s\<lparr>wd_ctx := C', wd_heap := h'\<rparr>)" "same_cfg C C'"
    "idle_stack C' = idle_stack C" "busy_table C' = busy_table C"
    "map_ok (busy_key (wd_mem st)) h' (busy_stack C') []" "map_ok (tok_key (wd_mem st)) h' (busy_table C') ts"
    using cleanup_busy_ok [OF t1(5,6) disj] by auto
  let ?s' = "st\<lparr>wd_ctx := C', wd_heap := h'\<rparr>"
  have r: "wd_records (wd_ctx ?s') = Some records" "wd_size C' = wd_size (wd_ctx st)"
    using same_cfg_trans [OF c(2) d(2)] assms(3) by (simp_all add: same_cfg_def)
  have "eaf_watchdog_exit st = Some (watchdog_reset_callback (watchdog_free_records ?s'))"
    using assms(2) c(1) d(1) by (simp add: eaf_watchdog_exit_def)
  moreover have "map_ok (idle_key tab M) h' (idle_stack C') []" for M
    using t1(4) d(3) by (auto simp: map_ok_def rb_rep_def)
  moreover have "map_ok (busy_key M) h' (busy_stack C') []" for M using d(5) by (auto simp: map_ok_def)
  ultimately show ?thesis using d(6) t(2,7) r assms(4)
    by (auto simp: free_records_wd_recs [OF r(1)] watchdog_reset_callback_def)
qed

subsection \<open>Witnesses\<close>

text \<open>Two services, 32 and 48, with records at 1000 and 1104.\<close>

definition demo_watch :: watch_list where
  "demo_watch a = \<lparr>we_sid = of_nat a, we_interval = 500, we_timeout = 20, we_jitter = 0\<rparr>"

definition demo_watch_info :: "group_table list" where
  "demo_watch_info = [[\<lparr>srv_id = EAF_WATCHDOG_ID, msgq_size = 2, attribute = 0\<rparr>, \<lparr>srv_id = 32, msgq_size = 1, attribute = 0\<rparr>]]"

definition demo_watch_state :: "world \<Rightarrow> wd_state" where
  "demo_watch_state w = \<lparr>wd_ctx = g_watchdog_ctx, wd_heap = (\<lambda>_. undefined), wd_mem = (\<lambda>_. None), wd_world = w,
     wd_payload = (\<lambda>_. None), wd_reports = []\<rparr>"

lemma demo_watch_world:
  obtains w where "eaf_init base_env sys_demo_sizes demo_watch_info sys_demo_start = Some (eaf_errno_success, w)" "winv w"
    "map_option fst (eaf_register base_env EAF_WATCHDOG_ID \<lparr>msg_table = [], ep_on_init = 5, ep_on_exit = 3\<rparr> w) = Some eaf_errno_success"
proof -
  have "map_option (\<lambda>(r, w). (r, map_option fst (eaf_register base_env EAF_WATCHDOG_ID \<lparr>msg_table = [], ep_on_init = 5, ep_on_exit = 3\<rparr> w)))
      (eaf_init base_env sys_demo_sizes demo_watch_info sys_demo_start) = Some (eaf_errno_success, Some eaf_errno_success)" by code_simp
  then obtain w where w: "eaf_init base_env sys_demo_sizes demo_watch_info sys_demo_start = Some (eaf_errno_success, w)"
    "map_option fst (eaf_register base_env EAF_WATCHDOG_ID \<lparr>msg_table = [], ep_on_init = 5, ep_on_exit = 3\<rparr> w) = Some eaf_errno_success"
    by auto
  have "winv w" using init_sys_inv [OF w(1) demo_finite] by simp
  then show thesis using that w by blast
qed

lemma demo_watch_tables: "wd_tables tab {} (demo_watch_state w) [] [] []"
  by (simp add: wd_tables_def demo_watch_state_def g_watchdog_ctx_def init_ok)

text \<open>The watchdog after its start, and with one request out.\<close>

lemma demo_watch_ready:
  obtains st "is" w where "wd_tables demo_watch (wd_recs 1000 2) st is [] []" "set is = wd_recs 1000 2" "winv (wd_world st)"
    "cb_fn (wd_ctx st) = 77" "wd_records (wd_ctx st) = Some 1000" "wd_size (wd_ctx st) = 2"
    "wd_mem st 1000 = Some (init_rec 32 0)" "dom (wd_mem st) \<subseteq> wd_recs 1000 2" "wd_reports st = []"
proof -
  obtain w where w: "winv w" by (rule demo_watch_world)
  define M where "M = (\<lambda>b. if b \<in> wd_recs 1000 2 then Some zero_record else None)"
  define C where "C = g_watchdog_ctx\<lparr>wd_records := Some 1000, wd_size := 2, cb_fn := 77\<rparr>"
  let ?st = "(demo_watch_state w)\<lparr>wd_ctx := C, wd_mem := M\<rparr>"
  have "wd_tables demo_watch {} ((demo_watch_state w)\<lparr>wd_mem := M\<rparr>) [] [] []" by (rule wd_tables_none [OF demo_watch_tables])
  then have t: "wd_tables demo_watch (wd_recs 1000 0) ?st [] [] []" by (simp add: wd_tables_def demo_watch_state_def C_def)
  have z: "wd_mem ?st (1000 + j * sizeof_watchdog_record) = Some zero_record" if "0 \<le> j" "j < 0 + 2" for j
    using that by (simp add: M_def in_wd_recs)
  have none: "M a = None" if "a \<notin> wd_recs 1000 2" for a using that by (simp add: M_def)
  have "{..<2} = {0, 1 :: nat}" by auto
  then have inj: "inj_on (sid_at demo_watch 32) {..<2}" by (simp add: demo_watch_def sizeof_watch_entry_def)
  obtain A C' h M' is' where i: "same_cfg C C'" "wd_tables demo_watch A (?st\<lparr>wd_ctx := C', wd_heap := h, wd_mem := M'\<rparr>) is' [] []"
    "A = wd_recs 1000 2" "set is' = A" "\<forall>j < 2. M' (1000 + j * sizeof_watchdog_record) = Some (init_rec 32 j)"
    "\<forall>a. a \<notin> wd_recs 1000 2 \<longrightarrow> M' a = None"
    using init_records_ok [of demo_watch 1000 0 ?st "[]" 32 2] t z inj none by (auto simp del: add_2_eq_Suc')
  have "M' 1000 = Some (init_rec 32 0)" using spec [OF i(5), of 0] by simp
  then show thesis
    by - (rule that [of "?st\<lparr>wd_ctx := C', wd_heap := h, wd_mem := M'\<rparr>" is'],
      use i w in \<open>auto simp: same_cfg_def C_def demo_watch_state_def dom_def\<close>)
qed

lemma demo_watch_busy:
  obtains st "is" bs ts where "wd_tables demo_watch (wd_recs 1000 2) st is bs ts" "1000 \<in> set bs"
    "cb_fn (wd_ctx st) = 77" "wd_records (wd_ctx st) = Some 1000" "wd_size (wd_ctx st) = 2"
    "wd_mem st 1000 = Some (init_rec 32 0)" "dom (wd_mem st) \<subseteq> wd_recs 1000 2" "wd_reports st = []"
proof -
  obtain st "is" where s: "wd_tables demo_watch (wd_recs 1000 2) st is [] []" "set is = wd_recs 1000 2"
    "cb_fn (wd_ctx st) = 77" "wd_records (wd_ctx st) = Some 1000" "wd_size (wd_ctx st) = 2"
    "wd_mem st 1000 = Some (init_rec 32 0)" "dom (wd_mem st) \<subseteq> wd_recs 1000 2" "wd_reports st = []"
    by (rule demo_watch_ready)
  have n: "1000 \<in> wd_recs 1000 2" using in_wd_recs [of 1000 0 2] by simp
  obtain C h where e: "same_cfg (wd_ctx st) C" "wd_tables demo_watch (wd_recs 1000 2) (st\<lparr>wd_ctx := C, wd_heap := h\<rparr>) (remove1 1000 is) [] []"
    by (rule idle_erase_ok [OF s(1), of 1000]) (use s(2) n in simp)
  have "1000 \<notin> set (remove1 1000 is) \<union> set []" using map_ok_distinct [OF wd_tablesD(4) [OF s(1)]] by simp
  then obtain C1 h1 C' h' where p: "same_cfg (wd_ctx (st\<lparr>wd_ctx := C, wd_heap := h\<rparr>)) C'"
    "wd_tables demo_watch (wd_recs 1000 2) (st\<lparr>wd_ctx := C, wd_heap := h\<rparr>\<lparr>wd_ctx := C', wd_heap := h'\<rparr>) (remove1 1000 is)
       (insort_key (busy_key (wd_mem (st\<lparr>wd_ctx := C, wd_heap := h\<rparr>))) 1000 [])
       (insort_key (tok_key (wd_mem (st\<lparr>wd_ctx := C, wd_heap := h\<rparr>))) (1000 + n_table_offset) [])"
    by (rule put_busy_ok [OF e(2) n])
  show thesis
    by (rule that [OF p(2)]) (use s(3-8) e(1) p(1) in \<open>simp_all add: same_cfg_def\<close>)
qed

theorem watchdog_init_witness:
  "\<exists>w st'. eaf_init base_env sys_demo_sizes demo_watch_info sys_demo_start = Some (eaf_errno_success, w) \<and>
     eaf_watchdog_init base_env demo_watch (Some 1000) 5 3 32 2 77 9 (demo_watch_state w) = Some (eaf_errno_success, st') \<and>
     cb_fn (wd_ctx st') = 77"
proof -
  obtain w where w: "eaf_init base_env sys_demo_sizes demo_watch_info sys_demo_start = Some (eaf_errno_success, w)" "winv w"
    "map_option fst (eaf_register base_env EAF_WATCHDOG_ID \<lparr>msg_table = [], ep_on_init = 5, ep_on_exit = 3\<rparr> w) = Some eaf_errno_success"
    by (rule demo_watch_world)
  have "distinct (map (\<lambda>i. we_sid (demo_watch (32 + i * sizeof_watch_entry))) [0..<unat (2 :: size_t)])"
    by (simp add: demo_watch_def sizeof_watch_entry_def upt_rec)
  then show ?thesis
    using watchdog_init [OF calm_base _ _ demo_watch_tables [of demo_watch w], where sz = 2 and records = 1000 and table = 32 and fn = 77 and arg = 9
      and on_init = 5 and on_exit = 3] w
    by (auto simp: demo_watch_state_def g_watchdog_ctx_def)
qed


theorem watchdog_silence_witness:
  "\<exists>st is st'. wd_tables demo_watch (wd_recs 1000 2) st is [] [] \<and>
     foldl (\<lambda>x t. x \<bind> watchdog_on_timer base_env demo_watch 8 9 (Some t)) (Some st) [(1, 0), (1000, 0), (2000, 0)] = Some st' \<and>
     wd_reports st' = []"
proof -
  obtain st "is" where s: "wd_tables demo_watch (wd_recs 1000 2) st is [] []" "winv (wd_world st)" "wd_reports st = []"
    by (rule demo_watch_ready)
  show ?thesis using watchdog_silence [OF calm_base s(1,2), of 8 9 "[(1, 0), (1000, 0), (2000, 0)]"] s(1,3) by auto
qed

theorem watchdog_response_witness:
  "\<exists>st is bs ts st'. wd_tables demo_watch (wd_recs 1000 2) st is bs ts \<and> 1000 \<in> set bs \<and>
     watchdog_on_heartbeat_rsp demo_watch (Some (1, 0)) 5 10 st = Some st' \<and> wd_reports st' = [(32, cb_arg (wd_ctx st))]"
proof -
  obtain st "is" bs ts where s: "wd_tables demo_watch (wd_recs 1000 2) st is bs ts" "1000 \<in> set bs"
    "cb_fn (wd_ctx st) = 77" "wd_mem st 1000 = Some (init_rec 32 0)" "dom (wd_mem st) \<subseteq> wd_recs 1000 2" "wd_reports st = []"
    by (rule demo_watch_busy)
  define full where "full = (\<lparr>msg = \<lparr>msg_id = 7, msg_from = 0, encs = 0, uuid = 0, orig = 6\<rparr>, refcnt = 1, data_size = 0\<rparr> :: eaf_msg_full)"
  let ?st = "st\<lparr>wd_world := (wd_world st)\<lparr>w_mheap := [10 \<mapsto> full]\<rparr>\<rparr>"
  have t: "wd_tables demo_watch (wd_recs 1000 2) ?st is bs ts" using s(1) by simp
  have r: "wd_end (init_rec 32 0) < Clock 1 0" "wd_cerrc (init_rec 32 0) = 0" "we_jitter (demo_watch a) = 0" "we_sid (demo_watch (wd_rec (init_rec 32 0))) = 32"
    "sint (eaf_msg_get_token (msg full)) = wd_token (init_rec 32 0)" for a
    by (simp_all add: init_rec_def zero_record_def less_clock_time_def demo_watch_def full_def eaf_msg_get_token_def sizeof_watch_entry_def)
  have "5 \<notin> dom (wd_mem ?st)" using s(5) by (auto simp: wd_recs_def sizeof_watchdog_record_def)
  from watchdog_response [OF t _ _ s(2) _ r(5) this refl refl, where sec = 1 and nsec = 0 and m = 10]
  have "\<exists>st'. watchdog_on_heartbeat_rsp demo_watch (Some (1, 0)) 5 10 ?st = Some st' \<and> wd_reports st' = [(32, cb_arg (wd_ctx ?st))]"
    using s(3,4,6) r(1-4) by auto
  then show ?thesis using t s(2) by blast
qed

theorem watchdog_exit_witness:
  "\<exists>st is bs ts st'. wd_tables demo_watch (wd_recs 1000 2) st is bs ts \<and> 1000 \<in> set bs \<and> eaf_watchdog_exit st = Some st' \<and>
     wd_mem st' 1000 = None \<and> map_ok (tok_key (wd_mem st)) (wd_heap st') (busy_table (wd_ctx st')) ts \<and> ts \<noteq> []"
proof -
  obtain st "is" bs ts where s: "wd_tables demo_watch (wd_recs 1000 2) st is bs ts" "1000 \<in> set bs"
    "cb_fn (wd_ctx st) = 77" "wd_records (wd_ctx st) = Some 1000" "wd_size (wd_ctx st) = 2"
    by (rule demo_watch_busy)
  have "ts \<noteq> []" using wd_tablesD(7) [OF s(1)] s(2) by auto
  then show ?thesis using watchdog_exit [OF s(1) _ s(4)] s by force
qed

end
