(* ===== verification/PPHooks.thy ===== *)
theory PPHooks
  imports DList ServiceProgram
begin

text \<open>
  The power pack of \<open>powerpack.c\<close>: a table of hooks that all observe the runtime through the one hook that
  \<open>eaf_inject\<close> allows, and a thread that runs the loop of libuv and meets the main thread at two
  rendezvous points (\<open>pp_sync\<close>), before the services are initialised and after they have ended.

  State. \<open>pp_state\<close> holds \<open>g_pp_ctx\<close> and \<open>g_uv_ctx\<close>: the list of hooks on its node heap (a hook has the
  address of its node), the two points, and of the asynchronous handle whether it is active and whether
  its callback is pending; the hooks run on the world of the runtime. \<open>None\<close> is undefined behaviour,
  except in operations that wait, where the caller is blocked.
\<close>

subsection \<open>State\<close>

record pp_sync =
  have_req :: bool
  have_rsp :: bool
  code_req :: int
  code_rsp :: int
  sem_req :: nat
  sem_rsp :: nat

record pp_hook =
  pp_fns :: hooks
  on_loop_init :: fnptr
  on_loop_exit :: fnptr

record pp_state =
  pp_initialized :: bool
  pp_looping :: bool
  pp_table :: elist
  pp_lheap :: lheap
  pp_hooks :: "addr \<Rightarrow> pp_hook option"
  init_point :: pp_sync
  exit_point :: pp_sync
  async_active :: bool
  async_pending :: bool
  pp_world :: world

subsection \<open>Calling the hooks\<close>

text \<open>\<open>FOREACH_VOID_HOOK\<close> and \<open>FOREACH_INT_HOOK\<close>.\<close>

partial_function (option) foreach_void_loop ::
  "env \<Rightarrow> (hooks \<Rightarrow> fnptr) \<Rightarrow> (fnptr \<Rightarrow> ucall) \<Rightarrow> pp_state \<Rightarrow> ptr \<Rightarrow> world \<Rightarrow> world option" where
  "foreach_void_loop E fn args pp it w =
     (case it of
        None \<Rightarrow> Some w
      | Some n \<Rightarrow> do {
          hook \<leftarrow> pp_hooks pp n;
          w \<leftarrow> (if fn (pp_fns hook) \<noteq> 0
             then do { (_, w) \<leftarrow> e_ucode E (args (fn (pp_fns hook))) w; Some w } else Some w);
          foreach_void_loop E fn args pp (eaf_list_next (pp_lheap pp) n) w })"

definition FOREACH_VOID_HOOK :: "env \<Rightarrow> (hooks \<Rightarrow> fnptr) \<Rightarrow> (fnptr \<Rightarrow> ucall) \<Rightarrow> pp_state \<Rightarrow> world \<Rightarrow> world option" where
  "FOREACH_VOID_HOOK E fn args pp w = foreach_void_loop E fn args pp (eaf_list_begin (pp_table pp)) w"

partial_function (option) foreach_int_loop ::
  "env \<Rightarrow> (hooks \<Rightarrow> fnptr) \<Rightarrow> (fnptr \<Rightarrow> ucall) \<Rightarrow> pp_state \<Rightarrow> ptr \<Rightarrow> int \<Rightarrow> bool \<Rightarrow> world \<Rightarrow> (int \<times> world) option" where
  "foreach_int_loop E fn args pp it ret flag_first w =
     (case it of
        None \<Rightarrow> Some (ret, w)
      | Some n \<Rightarrow> do {
          hook \<leftarrow> pp_hooks pp n;
          (ret, flag_first, w) \<leftarrow> (if fn (pp_fns hook) \<noteq> 0
             then do {
               (tmp_ret, w) \<leftarrow> e_ucode E (args (fn (pp_fns hook))) w;
               if flag_first then Some (tmp_ret, False, w) else Some (ret, flag_first, w) }
             else Some (ret, flag_first, w));
          foreach_int_loop E fn args pp (eaf_list_next (pp_lheap pp) n) ret flag_first w })"

definition FOREACH_INT_HOOK :: "env \<Rightarrow> (hooks \<Rightarrow> fnptr) \<Rightarrow> (fnptr \<Rightarrow> ucall) \<Rightarrow> pp_state \<Rightarrow> world \<Rightarrow> (int \<times> world) option" where
  "FOREACH_INT_HOOK E fn args pp w = foreach_int_loop E fn args pp (eaf_list_begin (pp_table pp)) 0 True w"

declare foreach_void_loop.simps [code] foreach_int_loop.simps [code]

definition pp_hook_on_service_init_before :: "env \<Rightarrow> u32 \<Rightarrow> pp_state \<Rightarrow> world \<Rightarrow> world option" where
  "pp_hook_on_service_init_before E i = FOREACH_VOID_HOOK E on_service_init_before (\<lambda>p. UHookId p i)"

definition pp_hook_on_service_init_after :: "env \<Rightarrow> u32 \<Rightarrow> pp_state \<Rightarrow> world \<Rightarrow> world option" where
  "pp_hook_on_service_init_after E i = FOREACH_VOID_HOOK E on_service_init_after (\<lambda>p. UHookId p i)"

definition pp_hook_on_service_exit_before :: "env \<Rightarrow> u32 \<Rightarrow> pp_state \<Rightarrow> world \<Rightarrow> world option" where
  "pp_hook_on_service_exit_before E i = FOREACH_VOID_HOOK E on_service_exit_before (\<lambda>p. UHookId p i)"

definition pp_hook_on_service_exit_after :: "env \<Rightarrow> u32 \<Rightarrow> pp_state \<Rightarrow> world \<Rightarrow> world option" where
  "pp_hook_on_service_exit_after E i = FOREACH_VOID_HOOK E on_service_exit_after (\<lambda>p. UHookId p i)"

definition pp_hook_on_service_yield :: "env \<Rightarrow> u32 \<Rightarrow> pp_state \<Rightarrow> world \<Rightarrow> world option" where
  "pp_hook_on_service_yield E i = FOREACH_VOID_HOOK E on_service_yield (\<lambda>p. UHookId p i)"

definition pp_hook_on_service_resume :: "env \<Rightarrow> u32 \<Rightarrow> pp_state \<Rightarrow> world \<Rightarrow> world option" where
  "pp_hook_on_service_resume E i = FOREACH_VOID_HOOK E on_service_resume (\<lambda>p. UHookId p i)"

definition pp_hook_on_service_register :: "env \<Rightarrow> u32 \<Rightarrow> pp_state \<Rightarrow> world \<Rightarrow> (int \<times> world) option" where
  "pp_hook_on_service_register E i = FOREACH_INT_HOOK E on_service_register (\<lambda>p. UHookId p i)"

definition pp_hook_on_message_send_before :: "env \<Rightarrow> u32 \<Rightarrow> u32 \<Rightarrow> addr \<Rightarrow> pp_state \<Rightarrow> world \<Rightarrow> (int \<times> world) option" where
  "pp_hook_on_message_send_before E from to m = FOREACH_INT_HOOK E on_message_send_before (\<lambda>p. UHookMsg p from to m)"

definition pp_hook_on_message_send_after :: "env \<Rightarrow> u32 \<Rightarrow> u32 \<Rightarrow> addr \<Rightarrow> int \<Rightarrow> pp_state \<Rightarrow> world \<Rightarrow> world option" where
  "pp_hook_on_message_send_after E from to m ret = FOREACH_VOID_HOOK E on_message_send_after (\<lambda>p. UHookSent p from to m ret)"

definition pp_hook_on_message_handle_before :: "env \<Rightarrow> u32 \<Rightarrow> u32 \<Rightarrow> addr \<Rightarrow> pp_state \<Rightarrow> world \<Rightarrow> (int \<times> world) option" where
  "pp_hook_on_message_handle_before E from to m = FOREACH_INT_HOOK E on_message_handle_before (\<lambda>p. UHookMsg p from to m)"

definition pp_hook_on_message_handle_after :: "env \<Rightarrow> u32 \<Rightarrow> u32 \<Rightarrow> addr \<Rightarrow> pp_state \<Rightarrow> world \<Rightarrow> world option" where
  "pp_hook_on_message_handle_after E from to m = FOREACH_VOID_HOOK E on_message_handle_after (\<lambda>p. UHookMsg p from to m)"

definition pp_hook_on_load_after :: "env \<Rightarrow> int \<Rightarrow> pp_state \<Rightarrow> world \<Rightarrow> world option" where
  "pp_hook_on_load_after E ret = FOREACH_VOID_HOOK E on_load_after (\<lambda>p. UHookRet p ret)"

definition pp_hook_on_exit_before :: "env \<Rightarrow> pp_state \<Rightarrow> world \<Rightarrow> world option" where
  "pp_hook_on_exit_before E = FOREACH_VOID_HOOK E on_exit_before UHook"

subsection \<open>The rendezvous\<close>

text \<open>The results of the initialisers of libuv are parameters, here and below.\<close>

definition pp_sync_init :: "int \<Rightarrow> int \<Rightarrow> int \<Rightarrow> pp_sync \<Rightarrow> int \<times> pp_sync" where
  "pp_sync_init init_sem_req init_sem_rsp init_mutex handle =
     (if init_sem_req < 0 \<or> init_sem_rsp < 0 \<or> init_mutex < 0 then (eaf_errno_unknown, handle)
      else (eaf_errno_success, handle\<lparr>have_req := False, have_rsp := False, sem_req := 0, sem_rsp := 0\<rparr>))"

text \<open>The two halves of \<open>pp_sync_dial\<close>, before and from \<open>uv_sem_wait\<close>.\<close>

definition pp_sync_dial_send :: "int \<Rightarrow> pp_sync \<Rightarrow> pp_sync" where
  "pp_sync_dial_send req handle = handle\<lparr>code_req := req, have_req := True, sem_req := sem_req handle + 1\<rparr>"

definition pp_sync_dial_wait :: "pp_sync \<Rightarrow> (int \<times> pp_sync) option" where
  "pp_sync_dial_wait handle =
     (if sem_rsp handle = 0 then None else Some (code_rsp handle, handle\<lparr>sem_rsp := sem_rsp handle - 1\<rparr>))"

datatype dial = Answered int | Dialling

definition pp_sync_dial_once :: "int \<Rightarrow> pp_sync \<Rightarrow> dial \<times> pp_sync" where
  "pp_sync_dial_once req handle =
     (if have_rsp handle then (Answered (code_rsp handle), handle) else (Dialling, pp_sync_dial_send req handle))"

definition pp_sync_wait :: "pp_sync \<Rightarrow> (int \<times> pp_sync) option" where
  "pp_sync_wait handle =
     (if sem_req handle = 0 then None else Some (code_req handle, handle\<lparr>sem_req := sem_req handle - 1\<rparr>))"

definition pp_sync_answer :: "int \<Rightarrow> pp_sync \<Rightarrow> pp_sync" where
  "pp_sync_answer rsp handle = handle\<lparr>code_rsp := rsp, have_rsp := True, sem_rsp := sem_rsp handle + 1\<rparr>"

subsection \<open>The main thread\<close>

definition pp_hook_on_load_before :: "env \<Rightarrow> pp_state \<Rightarrow> (dial \<times> pp_state) option" where
  "pp_hook_on_load_before E pp = do {
     w \<leftarrow> FOREACH_VOID_HOOK E on_load_before UHook pp (pp_world pp);
     let (d, s) = pp_sync_dial_once 0 (init_point pp);
     Some (d, pp\<lparr>pp_world := w, init_point := s\<rparr>) }"

definition pp_notify_exit_thread :: "pp_state \<Rightarrow> dial \<times> pp_state" where
  "pp_notify_exit_thread pp =
     (let pp = pp\<lparr>pp_looping := False\<rparr>;
          pp = (if async_active pp then pp\<lparr>async_pending := True\<rparr> else pp);
          (d, s) = pp_sync_dial_once 0 (exit_point pp) in
      (d, pp\<lparr>exit_point := s\<rparr>))"

definition pp_hook_on_exit_after :: "env \<Rightarrow> pp_state \<Rightarrow> (dial \<times> pp_state) option" where
  "pp_hook_on_exit_after E pp = do {
     w \<leftarrow> FOREACH_VOID_HOOK E on_exit_after UHook pp (pp_world pp);
     Some (pp_notify_exit_thread (pp\<lparr>pp_world := w\<rparr>)) }"

definition eaf_uv_mod :: "pp_state \<Rightarrow> pp_state" where
  "eaf_uv_mod pp = pp\<lparr>async_pending := True\<rparr>"

subsection \<open>The thread of the loop\<close>

partial_function (option) call_init_loop :: "env \<Rightarrow> pp_state \<Rightarrow> ptr \<Rightarrow> size_t \<Rightarrow> world \<Rightarrow> (int \<times> size_t \<times> world) option" where
  "call_init_loop E pp it idx w =
     (case it of
        None \<Rightarrow> Some (0, idx, w)
      | Some n \<Rightarrow> do {
          record \<leftarrow> pp_hooks pp n;
          if on_loop_init record = 0 then call_init_loop E pp (eaf_list_next (pp_lheap pp) n) (idx + 1) w
          else do {
            (ret, w) \<leftarrow> e_ucode E (UHook (on_loop_init record)) w;
            if ret < 0 then Some (- 1, idx, w)
            else call_init_loop E pp (eaf_list_next (pp_lheap pp) n) (idx + 1) w } })"

definition pp_call_init :: "env \<Rightarrow> pp_state \<Rightarrow> world \<Rightarrow> (int \<times> size_t \<times> world) option" where
  "pp_call_init E pp w = call_init_loop E pp (eaf_list_begin (pp_table pp)) 0 w"

partial_function (option) call_exit_loop :: "env \<Rightarrow> pp_state \<Rightarrow> size_t \<Rightarrow> ptr \<Rightarrow> size_t \<Rightarrow> world \<Rightarrow> world option" where
  "call_exit_loop E pp idx it i w =
     (case it of
        None \<Rightarrow> Some w
      | Some n \<Rightarrow>
          if i < idx then do {
            record \<leftarrow> pp_hooks pp n;
            w \<leftarrow> (if on_loop_exit record = 0 then Some w
               else do { (_, w) \<leftarrow> e_ucode E (UHook (on_loop_exit record)) w; Some w });
            call_exit_loop E pp idx (eaf_list_next (pp_lheap pp) n) (i + 1) w }
          else Some w)"

definition pp_call_exit :: "env \<Rightarrow> pp_state \<Rightarrow> size_t \<Rightarrow> world \<Rightarrow> world option" where
  "pp_call_exit E pp idx w = call_exit_loop E pp idx (eaf_list_begin (pp_table pp)) 0 w"

declare call_init_loop.simps [code] call_exit_loop.simps [code]

definition pp_on_uv_async_mode :: "env \<Rightarrow> pp_state \<Rightarrow> pp_state option" where
  "pp_on_uv_async_mode E pp =
     (if \<not> pp_looping pp then do {
        w \<leftarrow> pp_call_exit E pp (- 1) (pp_world pp);
        Some (pp\<lparr>pp_world := w, async_active := False\<rparr>) }
      else Some pp)"

text \<open>The body of \<open>_pp_thread\<close> between two waits. The loop of libuv runs as long as a handle is active, and
  calls back after \<open>uv_async_send\<close>.\<close>

datatype pp_phase = PT_wait_init | PT_loop | PT_wait_exit | PT_done

definition pp_thread :: "env \<Rightarrow> pp_phase \<Rightarrow> pp_state \<Rightarrow> (pp_phase \<times> pp_state) option" where
  "pp_thread E ph pp =
     (case ph of
        PT_wait_init \<Rightarrow> do {
          (_, s) \<leftarrow> pp_sync_wait (init_point pp);
          let pp = pp\<lparr>init_point := s\<rparr>;
          (ret, idx, w) \<leftarrow> pp_call_init E pp (pp_world pp);
          if ret < 0 then do {
            w \<leftarrow> pp_call_exit E pp idx w;
            Some (PT_done, pp\<lparr>pp_world := w, init_point := pp_sync_answer (- 1) (init_point pp)\<rparr>) }
          else Some (PT_loop, pp\<lparr>pp_world := w, init_point := pp_sync_answer 0 (init_point pp)\<rparr>) }
      | PT_loop \<Rightarrow>
          if \<not> async_active pp then Some (PT_wait_exit, pp)
          else if async_pending pp then do {
            pp \<leftarrow> pp_on_uv_async_mode E (pp\<lparr>async_pending := False\<rparr>);
            Some (PT_loop, pp) }
          else None
      | PT_wait_exit \<Rightarrow> do {
          (req, s) \<leftarrow> pp_sync_wait (exit_point pp);
          Some (PT_done, pp\<lparr>exit_point := pp_sync_answer req s\<rparr>) }
      | PT_done \<Rightarrow> None)"

subsection \<open>Start and end\<close>

text \<open>The items of \<open>g_pp_init_table\<close> (net and log) are functions given by address.\<close>

fun call_items :: "env \<Rightarrow> fnptr list \<Rightarrow> world \<Rightarrow> world option" where
  "call_items E [] w = Some w"
| "call_items E (f # fs) w = do { (_, w) \<leftarrow> e_ucode E (UHook f) w; call_items E fs w }"

definition eaf_powerpack_hook_register :: "addr \<Rightarrow> size_t \<Rightarrow> size_t \<Rightarrow> pp_state \<Rightarrow> (int \<times> pp_state) option" where
  "eaf_powerpack_hook_register hook sz sizeof_hook pp =
     (if sz \<noteq> sizeof_hook then Some (eaf_errno_invalid, pp)
      else if \<not> pp_initialized pp then Some (eaf_errno_state, pp)
      else do {
        (l, h) \<leftarrow> eaf_list_push_back (pp_table pp) (pp_lheap pp) hook;
        Some (eaf_errno_success, pp\<lparr>pp_table := l, pp_lheap := h\<rparr>) })"

partial_function (option) unregister_loop :: "addr \<Rightarrow> ptr \<Rightarrow> pp_state \<Rightarrow> pp_state option" where
  "unregister_loop hook it pp =
     (case it of
        None \<Rightarrow> Some pp
      | Some n \<Rightarrow>
          if n = hook then do {
            (l, h) \<leftarrow> eaf_list_erase (pp_table pp) (pp_lheap pp) n;
            Some (pp\<lparr>pp_table := l, pp_lheap := h\<rparr>) }
          else unregister_loop hook (eaf_list_next (pp_lheap pp) n) pp)"

definition eaf_powerpack_hook_unregister :: "addr \<Rightarrow> pp_state \<Rightarrow> pp_state option" where
  "eaf_powerpack_hook_unregister hook pp = unregister_loop hook (eaf_list_begin (pp_table pp)) pp"

partial_function (option) clear_table_loop :: "pp_state \<Rightarrow> pp_state option" where
  "clear_table_loop pp = do {
     (it, l, h) \<leftarrow> eaf_list_pop_front (pp_table pp) (pp_lheap pp);
     let pp = pp\<lparr>pp_table := l, pp_lheap := h\<rparr>;
     if it \<noteq> None then clear_table_loop pp else Some pp }"

declare unregister_loop.simps [code] clear_table_loop.simps [code]

record uv_results =
  uv_init_point :: "int \<times> int \<times> int"
  uv_exit_point :: "int \<times> int \<times> int"
  uv_loop_init :: int
  uv_async_init :: int
  uv_thread :: bool

definition pp_init_libuv_ctx :: "uv_results \<Rightarrow> pp_state \<Rightarrow> int \<times> pp_state" where
  "pp_init_libuv_ctx R pp =
     (let (a, b, c) = uv_init_point R; (ret, ip) = pp_sync_init a b c (init_point pp) in
      if ret < 0 then (- 1, pp)
      else let (a, b, c) = uv_exit_point R; (ret, ep) = pp_sync_init a b c (exit_point pp) in
        if ret < 0 then (- 1, pp)
        else if uv_loop_init R < 0 then (- 1, pp)
        else if uv_async_init R < 0 then (- 1, pp)
        else (0, pp\<lparr>init_point := ip, exit_point := ep, async_active := True, async_pending := False\<rparr>))"

definition pp_exit_libuv_ctx :: "pp_state \<Rightarrow> pp_state" where
  "pp_exit_libuv_ctx pp = (if async_active pp then pp\<lparr>async_active := False\<rparr> else pp)"

definition pp_init_pp_ctx :: "env \<Rightarrow> uv_results \<Rightarrow> (fnptr \<times> fnptr) list \<Rightarrow> pp_state \<Rightarrow> (int \<times> pp_state) option" where
  "pp_init_pp_ctx E R g_pp_init_table pp = do {
     w \<leftarrow> call_items E (map fst g_pp_init_table) (pp_world pp);
     Some (if uv_thread R then 0 else - 1, pp\<lparr>pp_world := w\<rparr>) }"

definition eaf_powerpack_init ::
  "env \<Rightarrow> uv_results \<Rightarrow> (fnptr \<times> fnptr) list \<Rightarrow> addr \<times> hooks \<Rightarrow> size_t \<Rightarrow> pp_state \<Rightarrow> (int \<times> pp_state) option" where
  "eaf_powerpack_init E R g_pp_init_table inject sizeof_hook pp =
     (if pp_initialized pp then Some (eaf_errno_duplicate, pp)
      else let (ret, w) = eaf_inject inject sizeof_hook sizeof_hook (pp_world pp); pp = pp\<lparr>pp_world := w\<rparr> in
        if ret < 0 then Some (ret, pp)
        else let err_init_uv = (\<lambda>ret pp. Some (ret, pp\<lparr>pp_world := snd (eaf_uninject (Some (fst inject)) (pp_world pp))\<rparr>));
                 (ret, pp) = pp_init_libuv_ctx R pp in
          if ret < 0 then err_init_uv ret pp
          else do {
            (ret, pp) \<leftarrow> pp_init_pp_ctx E R g_pp_init_table pp;
            if ret < 0 then err_init_uv ret (pp_exit_libuv_ctx pp)
            else Some (eaf_errno_success, pp\<lparr>pp_initialized := True\<rparr>) })"

text \<open>The part of \<open>eaf_powerpack_exit\<close> after the thread has ended.\<close>

definition pp_exit_rest :: "env \<Rightarrow> (fnptr \<times> fnptr) list \<Rightarrow> pp_state \<Rightarrow> pp_state option" where
  "pp_exit_rest E g_pp_init_table pp = do {
     w \<leftarrow> call_items E (map snd g_pp_init_table) (pp_world pp);
     pp \<leftarrow> clear_table_loop (pp_exit_libuv_ctx (pp\<lparr>pp_world := w\<rparr>));
     Some (pp\<lparr>pp_initialized := False\<rparr>) }"

subsection \<open>Both threads\<close>

text \<open>The main thread makes a sequence of calls of which these concern the power pack: \<open>eaf_load\<close> up to its
  first hook, the hooks around \<open>eaf_cleanup\<close>, and \<open>eaf_powerpack_exit\<close>. A thread that waits for a semaphore
  or for the end of the other thread is in a phase of its own.\<close>

datatype pp_call = Call_load | Call_cleanup | Call_exit
datatype main_phase = M_next | M_wait_init | M_wait_exit | M_wait_exit_join | M_join

type_synonym pp_sys = "main_phase \<times> pp_call list \<times> pp_phase \<times> pp_state"

definition eaf_powerpack_exit :: "pp_state \<Rightarrow> main_phase \<times> pp_state" where
  "eaf_powerpack_exit pp =
     (if \<not> pp_initialized pp then (M_next, pp)
      else let (d, pp) = pp_notify_exit_thread pp in
        (case d of Answered r \<Rightarrow> M_join | Dialling \<Rightarrow> M_wait_exit_join, pp))"

fun pp_main :: "env \<Rightarrow> (fnptr \<times> fnptr) list \<Rightarrow> pp_sys \<Rightarrow> pp_sys option" where
  "pp_main E items (M_next, [], ph, pp) = None"
| "pp_main E items (M_next, Call_load # cs, ph, pp) = do {
     (d, pp) \<leftarrow> pp_hook_on_load_before E pp;
     Some (case d of Answered r \<Rightarrow> M_next | Dialling \<Rightarrow> M_wait_init, cs, ph, pp) }"
| "pp_main E items (M_next, Call_cleanup # cs, ph, pp) = do {
     w \<leftarrow> pp_hook_on_exit_before E pp (pp_world pp);
     (d, pp) \<leftarrow> pp_hook_on_exit_after E (pp\<lparr>pp_world := w\<rparr>);
     Some (case d of Answered r \<Rightarrow> M_next | Dialling \<Rightarrow> M_wait_exit, cs, ph, pp) }"
| "pp_main E items (M_next, Call_exit # cs, ph, pp) =
     (let (m, pp) = eaf_powerpack_exit pp in Some (m, cs, ph, pp))"
| "pp_main E items (M_wait_init, cs, ph, pp) = do {
     (_, s) \<leftarrow> pp_sync_dial_wait (init_point pp);
     Some (M_next, cs, ph, pp\<lparr>init_point := s\<rparr>) }"
| "pp_main E items (M_wait_exit, cs, ph, pp) = do {
     (_, s) \<leftarrow> pp_sync_dial_wait (exit_point pp);
     Some (M_next, cs, ph, pp\<lparr>exit_point := s\<rparr>) }"
| "pp_main E items (M_wait_exit_join, cs, ph, pp) = do {
     (_, s) \<leftarrow> pp_sync_dial_wait (exit_point pp);
     Some (M_join, cs, ph, pp\<lparr>exit_point := s\<rparr>) }"
| "pp_main E items (M_join, cs, ph, pp) =
     (if ph = PT_done then do { pp \<leftarrow> pp_exit_rest E items pp; Some (M_next, cs, ph, pp) } else None)"

inductive pp_step :: "env \<Rightarrow> (fnptr \<times> fnptr) list \<Rightarrow> pp_sys \<Rightarrow> pp_sys \<Rightarrow> bool" for E items where
  main: "pp_main E items s = Some s' \<Longrightarrow> pp_step E items s s'"
| thread: "pp_thread E ph pp = Some (ph', pp') \<Longrightarrow> pp_step E items (m, cs, ph, pp) (m, cs, ph', pp')"

inductive_simps pp_step_iff: "pp_step E items (m, cs, ph, pp) s'"

text \<open>The runtime with the hook of the power pack injected at \<open>inject\<close>: its calls of that hook go through the
  table.\<close>

definition pp_ucode :: "env \<Rightarrow> hooks \<Rightarrow> pp_state \<Rightarrow> ucall \<Rightarrow> world \<Rightarrow> (int \<times> world) option" where
  "pp_ucode E inject pp u w =
     (let void = map_option (Pair (0 :: int)) in
      case u of
        UHook f \<Rightarrow>
          if f = on_load_before inject then void (FOREACH_VOID_HOOK E on_load_before UHook pp w)
          else if f = on_exit_before inject then void (pp_hook_on_exit_before E pp w)
          else if f = on_exit_after inject then void (FOREACH_VOID_HOOK E on_exit_after UHook pp w)
          else e_ucode E u w
      | UHookId f i \<Rightarrow>
          if f = on_service_init_before inject then void (pp_hook_on_service_init_before E i pp w)
          else if f = on_service_init_after inject then void (pp_hook_on_service_init_after E i pp w)
          else if f = on_service_exit_before inject then void (pp_hook_on_service_exit_before E i pp w)
          else if f = on_service_exit_after inject then void (pp_hook_on_service_exit_after E i pp w)
          else if f = on_service_yield inject then void (pp_hook_on_service_yield E i pp w)
          else if f = on_service_resume inject then void (pp_hook_on_service_resume E i pp w)
          else if f = on_service_register inject then pp_hook_on_service_register E i pp w
          else e_ucode E u w
      | UHookMsg f from to m \<Rightarrow>
          if f = on_message_send_before inject then pp_hook_on_message_send_before E from to m pp w
          else if f = on_message_handle_before inject then pp_hook_on_message_handle_before E from to m pp w
          else if f = on_message_handle_after inject then void (pp_hook_on_message_handle_after E from to m pp w)
          else e_ucode E u w
      | UHookSent f from to m ret \<Rightarrow>
          if f = on_message_send_after inject then void (pp_hook_on_message_send_after E from to m ret pp w)
          else e_ucode E u w
      | UHookRet f ret \<Rightarrow>
          if f = on_load_after inject then void (pp_hook_on_load_after E ret pp w)
          else e_ucode E u w
      | _ \<Rightarrow> e_ucode E u w)"

definition pp_env :: "env \<Rightarrow> hooks \<Rightarrow> pp_state \<Rightarrow> env" where
  "pp_env E inject pp = E\<lparr>e_ucode := pp_ucode E inject pp\<rparr>"

end
