(* ===== verification/PPHookCalls.thy ===== *)
theory PPHookCalls
  imports PPHooks ServiceProps
begin

text \<open>
  The power pack as the hook of the runtime: its table calls every registered hook in order, fulfils the
  contract of user code if each registered hook does, and returns the result of the first one.
\<close>

subsection \<open>The hooks as a list\<close>

text \<open>What \<open>FOREACH_VOID_HOOK\<close> and \<open>FOREACH_INT_HOOK\<close> do, on the list of the registered hooks.\<close>

fun call_hooks :: "env \<Rightarrow> (hooks \<Rightarrow> fnptr) \<Rightarrow> (fnptr \<Rightarrow> ucall) \<Rightarrow> (addr \<Rightarrow> pp_hook option) \<Rightarrow> addr list \<Rightarrow> world \<Rightarrow> world option" where
  "call_hooks E fn args H [] w = Some w"
| "call_hooks E fn args H (n # ns) w = do {
     w \<leftarrow> (if fn (pp_fns (the (H n))) = 0 then Some w
        else map_option snd (e_ucode E (args (fn (pp_fns (the (H n))))) w));
     call_hooks E fn args H ns w }"

fun first_result :: "env \<Rightarrow> (hooks \<Rightarrow> fnptr) \<Rightarrow> (fnptr \<Rightarrow> ucall) \<Rightarrow> (addr \<Rightarrow> pp_hook option) \<Rightarrow> addr list \<Rightarrow> world \<Rightarrow> (int \<times> world) option" where
  "first_result E fn args H [] w = Some (0, w)"
| "first_result E fn args H (n # ns) w =
     (if fn (pp_fns (the (H n))) = 0 then first_result E fn args H ns w
      else do {
        (r, w) \<leftarrow> e_ucode E (args (fn (pp_fns (the (H n))))) w;
        w \<leftarrow> call_hooks E fn args H ns w;
        Some (r, w) })"

definition pp_hooked :: "pp_state \<Rightarrow> addr list \<Rightarrow> bool" where
  "pp_hooked pp ns \<longleftrightarrow> list_rep (pp_table pp, pp_lheap pp) ns \<and> set ns \<subseteq> dom (pp_hooks pp)"

lemma foreach_void_list:
  assumes "seg (pp_lheap pp) p ns None" "set ns \<subseteq> dom (pp_hooks pp)"
  shows "foreach_void_loop E fn args pp (hd_opt ns) w = call_hooks E fn args (pp_hooks pp) ns w"
  using assms
proof (induction ns arbitrary: p w)
  case Nil
  then show ?case by (subst foreach_void_loop.simps) simp
next
  case (Cons n ns)
  then have nxt: "eaf_list_next (pp_lheap pp) n = hd_opt ns" by (cases ns) (simp_all add: eaf_list_next_def)
  obtain k where k: "pp_hooks pp n = Some k" using Cons.prems(2) by auto
  have ih: "foreach_void_loop E fn args pp (hd_opt ns) w = call_hooks E fn args (pp_hooks pp) ns w" for w
    by (rule Cons.IH) (use Cons.prems in auto)
  show ?case
    by (subst foreach_void_loop.simps) (simp add: k nxt ih map_option_case split: option.split)
qed

lemma foreach_void:
  assumes "pp_hooked pp ns"
  shows "FOREACH_VOID_HOOK E fn args pp w = call_hooks E fn args (pp_hooks pp) ns w"
  using assms foreach_void_list [of pp None ns]
  by (simp add: pp_hooked_def list_rep_def FOREACH_VOID_HOOK_def eaf_list_begin_def)

lemma foreach_int_rest:
  assumes "seg (pp_lheap pp) p ns None" "set ns \<subseteq> dom (pp_hooks pp)"
  shows "foreach_int_loop E fn args pp (hd_opt ns) ret False w = map_option (Pair ret) (call_hooks E fn args (pp_hooks pp) ns w)"
  using assms
proof (induction ns arbitrary: p w)
  case Nil
  then show ?case by (subst foreach_int_loop.simps) simp
next
  case (Cons n ns)
  then have nxt: "eaf_list_next (pp_lheap pp) n = hd_opt ns" by (cases ns) (simp_all add: eaf_list_next_def)
  obtain k where k: "pp_hooks pp n = Some k" using Cons.prems(2) by auto
  have ih: "foreach_int_loop E fn args pp (hd_opt ns) ret False w = map_option (Pair ret) (call_hooks E fn args (pp_hooks pp) ns w)" for w
    by (rule Cons.IH) (use Cons.prems in auto)
  show ?case
    by (subst foreach_int_loop.simps) (simp add: k nxt ih map_option_case split: option.split)
qed

lemma foreach_int_list:
  assumes "seg (pp_lheap pp) p ns None" "set ns \<subseteq> dom (pp_hooks pp)"
  shows "foreach_int_loop E fn args pp (hd_opt ns) 0 True w = first_result E fn args (pp_hooks pp) ns w"
  using assms
proof (induction ns arbitrary: p w)
  case Nil
  then show ?case by (subst foreach_int_loop.simps) simp
next
  case (Cons n ns)
  then have nxt: "eaf_list_next (pp_lheap pp) n = hd_opt ns" by (cases ns) (simp_all add: eaf_list_next_def)
  obtain k where k: "pp_hooks pp n = Some k" using Cons.prems(2) by auto
  have ih: "foreach_int_loop E fn args pp (hd_opt ns) 0 True w = first_result E fn args (pp_hooks pp) ns w" for w
    by (rule Cons.IH) (use Cons.prems in auto)
  have rest: "foreach_int_loop E fn args pp (hd_opt ns) ret False w = map_option (Pair ret) (call_hooks E fn args (pp_hooks pp) ns w)" for ret w
    by (rule foreach_int_rest) (use Cons.prems in auto)
  show ?case
    by (subst foreach_int_loop.simps, cases "e_ucode E (args (fn (pp_fns k))) w")
      (auto simp: k nxt ih rest map_option_case split: option.split)
qed

lemma foreach_int:
  assumes "pp_hooked pp ns"
  shows "FOREACH_INT_HOOK E fn args pp w = first_result E fn args (pp_hooks pp) ns w"
  using assms foreach_int_list [of pp None ns]
  by (simp add: pp_hooked_def list_rep_def FOREACH_INT_HOOK_def eaf_list_begin_def)

subsection \<open>The contract of the runtime\<close>

definition hook_kept :: "world \<Rightarrow> world \<Rightarrow> bool" where
  "hook_kept w w' \<longleftrightarrow> (\<forall>a m. w_mheap w a = Some m \<longrightarrow> w_mheap w' a = Some m) \<and>
     (\<forall>gi g. grp w gi = Some g \<longrightarrow> map_option g_cc0 (grp w' gi) = Some (g_cc0 g))"

lemma hook_kept_refl [simp]: "hook_kept w w"
  by (simp add: hook_kept_def)

lemma hook_kept_trans: "hook_kept w w' \<Longrightarrow> hook_kept w' w'' \<Longrightarrow> hook_kept w w''"
proof -
  assume *: "hook_kept w w'" "hook_kept w' w''"
  have "map_option g_cc0 (grp w'' gi) = Some (g_cc0 g)" if "grp w gi = Some g" for gi g
  proof -
    have "map_option g_cc0 (grp w' gi) = Some (g_cc0 g)" using *(1) that by (simp add: hook_kept_def)
    then obtain g' where g': "grp w' gi = Some g'" "g_cc0 g' = g_cc0 g" by auto
    then have "map_option g_cc0 (grp w'' gi) = Some (g_cc0 g')" using *(2) unfolding hook_kept_def by blast
    then show ?thesis using g'(2) by simp
  qed
  then show "hook_kept w w''" using * by (simp add: hook_kept_def)
qed

context user_code begin

lemma one_hook:
  assumes "winv w" "is_hook u"
  obtains r w' where "e_ucode E u w = Some (r, w')" "winv w'" "frame {} w w'" "hook_kept w w'"
proof -
  obtain r w' where w': "e_ucode E u w = Some (r, w')" "winv w'" "frame {} w w'" using user [OF assms(1)] by blast
  have "hook_kept w w'"
    unfolding hook_kept_def using hook_quiet [OF assms(2,1) w'(1)] cc0_quiet [OF disjI1 [OF assms(2)] assms(1) w'(1)] by blast
  then show thesis using that w' by blast
qed

lemma call_hooks_good:
  assumes "winv w" "\<And>p. is_hook (args p)"
  shows "good {} w (call_hooks E fn args H ns w) (hook_kept w)"
  using assms(1)
proof (induction ns arbitrary: w)
  case Nil
  then show ?case by (simp add: good_return)
next
  case (Cons n ns)
  let ?f = "fn (pp_fns (the (H n)))"
  show ?case
  proof (cases "?f = 0")
    case True
    then show ?thesis using Cons.IH [OF Cons.prems] by simp
  next
    case False
    obtain r w' where w': "e_ucode E (args ?f) w = Some (r, w')" "winv w'" "frame {} w w'" "hook_kept w w'"
      by (rule one_hook [OF Cons.prems, of "args ?f"]) (use assms(2) in blast)+
    obtain w'' where "call_hooks E fn args H ns w' = Some w''" "winv w''" "frame {} w' w''" "hook_kept w' w''"
      using Cons.IH [OF w'(2)] by (auto simp: good_def)
    then show ?thesis using False w'(1) frame_trans [OF w'(3)] hook_kept_trans [OF w'(4)] by (simp add: good_def)
  qed
qed

lemma first_result_good:
  assumes "winv w" "\<And>p. is_hook (args p)"
  shows "goodr {} w (first_result E fn args H ns w) (\<lambda>_. hook_kept w)"
proof (induction ns)
  case Nil
  then show ?case using assms(1) by (simp add: goodr_return)
next
  case (Cons n ns)
  let ?f = "fn (pp_fns (the (H n)))"
  show ?case
  proof (cases "?f = 0")
    case False
    obtain r w' where w': "e_ucode E (args ?f) w = Some (r, w')" "winv w'" "frame {} w w'" "hook_kept w w'"
      by (rule one_hook [OF assms(1), of "args ?f"]) (use assms(2) in blast)+
    obtain w'' where "call_hooks E fn args H ns w' = Some w''" "winv w''" "frame {} w' w''" "hook_kept w' w''"
      using call_hooks_good [where args = args and fn = fn and H = H and ns = ns, OF w'(2) assms(2)] by (auto simp: good_def)
    then show ?thesis using False w'(1) frame_trans [OF w'(3)] hook_kept_trans [OF w'(4)] by (simp add: goodr_def)
  qed (use Cons in simp)
qed

lemma call_exit_hooks: "\<exists>w'. call_hooks E fn UHook H ns w = Some w'"
proof (induction ns arbitrary: w)
  case (Cons n ns)
  show ?case
  proof (cases "fn (pp_fns (the (H n))) = 0")
    case False
    obtain r w' where "e_ucode E (UHook (fn (pp_fns (the (H n))))) w = Some (r, w')" using exit_hook by blast
    then show ?thesis using Cons.IH [of w'] False by simp
  qed (use Cons.IH in simp)
qed simp

end

text \<open>What the injected hook does with a call.\<close>

definition through_table :: "env \<Rightarrow> pp_state \<Rightarrow> addr list \<Rightarrow> ucall \<Rightarrow> world \<Rightarrow> (int \<times> world) option \<Rightarrow> bool" where
  "through_table E pp ns u w x \<longleftrightarrow> x = e_ucode E u w \<or>
     is_hook u \<and> (\<exists>fn args. (\<forall>p. is_hook (args p)) \<and> ((\<exists>p. u = UHook p) \<longrightarrow> args = UHook) \<and>
       (x = map_option (Pair 0) (call_hooks E fn args (pp_hooks pp) ns w) \<or>
        (\<forall>p. u \<noteq> UHook p) \<and> x = first_result E fn args (pp_hooks pp) ns w))"

lemma through_void: "is_hook u \<Longrightarrow> (\<And>p. is_hook (args p)) \<Longrightarrow> ((\<exists>p. u = UHook p) \<longrightarrow> args = UHook) \<Longrightarrow>
    through_table E pp ns u w (map_option (Pair 0) (call_hooks E fn args (pp_hooks pp) ns w))"
  unfolding through_table_def by blast

lemma through_int: "is_hook u \<Longrightarrow> (\<And>p. is_hook (args p)) \<Longrightarrow> (\<And>p. u \<noteq> UHook p) \<Longrightarrow>
    through_table E pp ns u w (first_result E fn args (pp_hooks pp) ns w)"
  unfolding through_table_def by blast

lemma through_user: "through_table E pp ns u w (e_ucode E u w)"
  by (simp add: through_table_def)

lemma pp_ucode_table:
  assumes "pp_hooked pp ns"
  shows "through_table E pp ns u w (pp_ucode E inject pp u w)"
  by (cases u) (auto simp: pp_ucode_def foreach_void [OF assms] foreach_int [OF assms]
      pp_hook_on_service_init_before_def pp_hook_on_service_init_after_def pp_hook_on_service_exit_before_def
      pp_hook_on_service_exit_after_def pp_hook_on_service_yield_def pp_hook_on_service_resume_def
      pp_hook_on_service_register_def pp_hook_on_message_send_before_def pp_hook_on_message_send_after_def
      pp_hook_on_message_handle_before_def pp_hook_on_message_handle_after_def pp_hook_on_load_after_def
      pp_hook_on_exit_before_def Let_def intro: through_void through_int through_user)

context user_code begin

lemma through_good:
  assumes "through_table E pp ns u w x" "winv w"
  shows "goodr {} w x (\<lambda>_ w'. is_hook u \<longrightarrow> hook_kept w w')"
proof -
  consider "x = e_ucode E u w" | fn args where "\<forall>p. is_hook (args p)" "x = map_option (Pair 0) (call_hooks E fn args (pp_hooks pp) ns w)"
    | fn args where "\<forall>p. is_hook (args p)" "x = first_result E fn args (pp_hooks pp) ns w"
    using assms(1) unfolding through_table_def by blast
  then show ?thesis
  proof cases
    case 1
    show ?thesis
    proof (cases "is_hook u")
      case True
      then obtain r w' where "e_ucode E u w = Some (r, w')" "winv w'" "frame {} w w'" "hook_kept w w'"
        by (rule one_hook [OF assms(2)])
      then show ?thesis using 1 by (simp add: goodr_def)
    qed (use user_good [OF assms(2)] 1 in simp)
  next
    case 2
    then show ?thesis using call_hooks_good [OF assms(2), of args fn "pp_hooks pp" ns] by (auto simp: good_def goodr_def)
  next
    case 3
    then show ?thesis using first_result_good [OF assms(2), of args fn "pp_hooks pp" ns] by (auto simp: goodr_def)
  qed
qed

lemma through_exit: "through_table E pp ns (UHook p) w x \<Longrightarrow> \<exists>r w'. x = Some (r, w')"
  using exit_hook [of p w] call_exit_hooks [of _ "pp_hooks pp" ns w] unfolding through_table_def by fastforce

lemma through_cc0:
  assumes "through_table E pp ns (UInit p) w x"
  shows "x = e_ucode E (UInit p) w"
  using assms by (simp add: through_table_def)

lemma pp_env_user:
  assumes "pp_hooked pp ns"
  shows "user_code (pp_env E inject pp)"
proof
  note t = pp_ucode_table [OF assms, of E _ _ inject]
  have e: "e_ucode (pp_env E inject pp) u = pp_ucode E inject pp u" for u by (simp add: pp_env_def)
  fix w u assume w: "winv w"
  from through_good [OF t [of u] w] show "\<exists>r w'. e_ucode (pp_env E inject pp) u w = Some (r, w') \<and> winv w' \<and> frame {} w w'"
    by (auto simp: e goodr_def)
  fix r w' a f
  { assume "is_hook u" "e_ucode (pp_env E inject pp) u w = Some (r, w')" "w_mheap w a = Some f"
    then show "w_mheap w' a = Some f" using through_good [OF t [of u] w] by (auto simp: e goodr_def hook_kept_def) }
  { fix p gi g
    assume u: "is_hook u \<or> u = UInit p" "e_ucode (pp_env E inject pp) u w = Some (r, w')" "grp w gi = Some g"
    show "map_option g_cc0 (grp w' gi) = Some (g_cc0 g)"
    proof (cases "is_hook u")
      case True
      then show ?thesis using through_good [OF t [of u] w] u(2,3) by (auto simp: e goodr_def hook_kept_def)
    next
      case False
      then have "u = UInit p" using u(1) by simp
      then show ?thesis using cc0_quiet [OF u(1) w _ u(3), of r w'] through_cc0 [OF t [of "UInit p" w, unfolded e [symmetric]]] u(2) by (simp add: e)
    qed }
next
  fix p w
  show "\<exists>r w'. e_ucode (pp_env E inject pp) (UHook p) w = Some (r, w')"
    using through_exit [OF pp_ucode_table [OF assms]] by (simp add: pp_env_def)
next
  fix w a n
  show "e_alloc (pp_env E inject pp) w = Some a \<Longrightarrow> w_recs w a = None" using alloc_fresh by (simp add: pp_env_def)
  show "finite (dom (w_mheap w)) \<Longrightarrow> \<exists>a. malloc (e_menv (pp_env E inject pp) w) n = Some a \<and> w_mheap w a = None \<and>
      0 \<le> lock_init (e_menv (pp_env E inject pp) w)" using malloc_ok by (simp add: pp_env_def)
qed

end


lemma first_result_split:
  assumes "\<forall>b \<in> set before. fn (pp_fns (the (H b))) = 0"
  shows "first_result E fn args H (before @ ns) w = first_result E fn args H ns w"
  using assms by (induction before) simp_all

text \<open>The result of a hook. The runtime gets the result of the hook that was registered first among
  those that have the function, or success if none has; the others are called in order of
  registration, and what they return is lost. So only the first can refuse a message.\<close>

theorem pp_send_hook:
  assumes "list_rep (pp_table pp, pp_lheap pp) ns" "set ns \<subseteq> dom (pp_hooks pp)"
    "map_option c_hook (w_ctx w) = Some (Some (a, inject))" "on_message_send_before inject \<noteq> 0"
  shows "hook_message_send_before (pp_env E inject pp) from to m w =
    (case filter (\<lambda>n. on_message_send_before (pp_fns (the (pp_hooks pp n))) \<noteq> 0) ns of
       [] \<Rightarrow> Some (0, w)
     | n # rest \<Rightarrow> do {
         (r, w1) \<leftarrow> e_ucode E (UHookMsg (on_message_send_before (pp_fns (the (pp_hooks pp n)))) from to m) w;
         w2 \<leftarrow> foldl (\<lambda>x k. do { w1 \<leftarrow> x;
             map_option snd (e_ucode E (UHookMsg (on_message_send_before (pp_fns (the (pp_hooks pp k)))) from to m) w1) })
           (Some w1) rest;
         Some (r, w2) })"
proof -
  let ?u = "\<lambda>p. UHookMsg p from to m"
  let ?f = "\<lambda>k. on_message_send_before (pp_fns (the (pp_hooks pp k)))"
  have hooked: "pp_hooked pp ns" using assms(1,2) by (simp add: pp_hooked_def)
  have none: "foldl (\<lambda>x k. do { w1 \<leftarrow> x; map_option snd (e_ucode E (?u (?f k)) w1) }) None ks = None" for ks
    by (induction ks) simp_all
  have calls: "call_hooks E on_message_send_before ?u (pp_hooks pp) ks w1 =
      foldl (\<lambda>x k. do { w1 \<leftarrow> x; map_option snd (e_ucode E (?u (?f k)) w1) }) (Some w1) (filter (\<lambda>n. ?f n \<noteq> 0) ks)" for ks w1
    by (induction ks arbitrary: w1) (auto simp: none split: option.split bind_split)
  have first: "first_result E on_message_send_before ?u (pp_hooks pp) ks w =
    (case filter (\<lambda>n. ?f n \<noteq> 0) ks of
       [] \<Rightarrow> Some (0, w)
     | n # rest \<Rightarrow> do { (r, w1) \<leftarrow> e_ucode E (?u (?f n)) w;
         w2 \<leftarrow> foldl (\<lambda>x k. do { w1 \<leftarrow> x; map_option snd (e_ucode E (?u (?f k)) w1) }) (Some w1) rest;
         Some (r, w2) })" for ks
    by (induction ks) (simp_all add: calls)
  obtain c where c: "w_ctx w = Some c" "c_hook c = Some (a, inject)" using assms(3) by auto
  have "hook_message_send_before (pp_env E inject pp) from to m w = first_result E on_message_send_before ?u (pp_hooks pp) ns w"
    using c assms(4)
    by (simp add: hook_message_send_before_def hook_call_def hook_fn_def pp_env_def pp_ucode_def
        pp_hook_on_message_send_before_def foreach_int [OF hooked] Let_def)
  then show ?thesis unfolding first .
qed

end
