(* ===== verification/PPHookProps.thy ===== *)
theory PPHookProps
  imports PPHookCalls
begin

text \<open>
  The threads of the power pack: the two rendezvous of the main thread and the thread of the loop, the runs
  that do not end, registration, and the witnesses.
\<close>

subsection \<open>The two threads\<close>

definition callbacks_return :: "env \<Rightarrow> bool" where
  "callbacks_return E \<longleftrightarrow> (\<forall>u w. \<exists>r w'. e_ucode E u w = Some (r, w'))"

lemma call_hooks_total:
  assumes "callbacks_return E"
  shows "\<exists>w'. call_hooks E fn args H ns w = Some w'"
proof (induction ns arbitrary: w)
  case (Cons n ns)
  obtain r w' where "e_ucode E (args (fn (pp_fns (the (H n))))) w = Some (r, w')" using assms unfolding callbacks_return_def by blast
  then show ?case using Cons.IH [of w] Cons.IH [of w'] by simp
qed simp

lemma call_items_total:
  assumes "callbacks_return E"
  shows "\<exists>w'. call_items E fs w = Some w'"
proof (induction fs arbitrary: w)
  case (Cons f fs)
  obtain r w' where "e_ucode E (UHook f) w = Some (r, w')" using assms unfolding callbacks_return_def by blast
  then show ?case using Cons.IH [of w'] by simp
qed simp

lemma call_exit_total:
  assumes "callbacks_return E" "seg (pp_lheap pp) p ns None" "set ns \<subseteq> dom (pp_hooks pp)"
  shows "\<exists>w'. call_exit_loop E pp idx (hd_opt ns) i w = Some w'"
  using assms(2,3)
proof (induction ns arbitrary: p i w)
  case Nil
  then show ?case by (subst call_exit_loop.simps) simp
next
  case (Cons n ns)
  then have nxt: "eaf_list_next (pp_lheap pp) n = hd_opt ns" by (cases ns) (simp_all add: eaf_list_next_def)
  obtain k where k: "pp_hooks pp n = Some k" using Cons.prems(2) by auto
  have ih: "\<exists>w'. call_exit_loop E pp idx (hd_opt ns) j w = Some w'" for j w by (rule Cons.IH) (use Cons.prems in auto)
  obtain r w' where "e_ucode E (UHook (on_loop_exit k)) w = Some (r, w')" using assms(1) unfolding callbacks_return_def by blast
  then show ?case using ih [of "i + 1" w] ih [of "i + 1" w'] by (subst call_exit_loop.simps) (auto simp: k nxt)
qed

text \<open>The result of \<open>on_loop_init\<close> of a hook, if it has one.\<close>

definition loop_init_ok :: "env \<Rightarrow> pp_hook \<Rightarrow> bool" where
  "loop_init_ok E k \<longleftrightarrow> on_loop_init k = 0 \<or> (\<forall>w r w'. e_ucode E (UHook (on_loop_init k)) w = Some (r, w') \<longrightarrow> 0 \<le> r)"

definition loop_init_fails :: "env \<Rightarrow> pp_hook \<Rightarrow> bool" where
  "loop_init_fails E k \<longleftrightarrow> on_loop_init k \<noteq> 0 \<and> (\<forall>w r w'. e_ucode E (UHook (on_loop_init k)) w = Some (r, w') \<longrightarrow> r < 0)"

lemma call_init_list:
  assumes "callbacks_return E" "seg (pp_lheap pp) p (ns @ ks) None" "set (ns @ ks) \<subseteq> dom (pp_hooks pp)"
    "\<forall>n \<in> set ns. loop_init_ok E (the (pp_hooks pp n))" "ks = [] \<or> loop_init_fails E (the (pp_hooks pp (hd ks)))"
  shows "\<exists>w'. call_init_loop E pp (hd_opt (ns @ ks)) i w = Some (if ks = [] then 0 else - 1, i + of_nat (length ns), w')"
  using assms(2-4)
proof (induction ns arbitrary: p i w)
  case Nil
  show ?case
  proof (cases ks)
    case Nil
    then show ?thesis by (subst call_init_loop.simps) simp
  next
    case (Cons n ks')
    obtain k where k: "pp_hooks pp n = Some k" using Nil.prems(2) Cons by auto
    obtain r w' where e: "e_ucode E (UHook (on_loop_init k)) w = Some (r, w')" using assms(1) unfolding callbacks_return_def by blast
    have "on_loop_init k \<noteq> 0" "r < 0" using assms(5) Cons k e by (auto simp: loop_init_fails_def)
    then show ?thesis using Cons k e by (subst call_init_loop.simps) simp
  qed
next
  case (Cons n ns)
  have nxt: "eaf_list_next (pp_lheap pp) n = hd_opt (ns @ ks)" using Cons.prems(1) by (cases "ns @ ks") (simp_all add: eaf_list_next_def)
  obtain k where k: "pp_hooks pp n = Some k" using Cons.prems(2) by auto
  obtain r w' where e: "e_ucode E (UHook (on_loop_init k)) w = Some (r, w')" using assms(1) unfolding callbacks_return_def by blast
  have ok: "on_loop_init k = 0 \<or> \<not> r < 0" using Cons.prems(3) k e by (force simp: loop_init_ok_def)
  have ih: "\<exists>w'. call_init_loop E pp (hd_opt (ns @ ks)) (i + 1) w = Some (if ks = [] then 0 else - 1, i + 1 + of_nat (length ns), w')" for w
    by (rule Cons.IH) (use Cons.prems in auto)
  show ?case using ih [of w] ih [of w'] ok e by (subst call_init_loop.simps) (auto simp: k nxt add.assoc)
qed

lemma clear_table:
  assumes "list_rep (pp_table pp, pp_lheap pp) ns"
  shows "\<exists>l h. clear_table_loop pp = Some (pp\<lparr>pp_table := l, pp_lheap := h\<rparr>) \<and> list_rep (l, h) []"
  using assms
proof (induction ns arbitrary: pp)
  case Nil
  then have "eaf_list_pop_front (pp_table pp) (pp_lheap pp) = Some (None, pp_table pp, pp_lheap pp)"
    by (simp add: eaf_list_pop_front_def list_rep_def)
  then show ?case using Nil
    by (subst clear_table_loop.simps) (simp, rule exI [of _ "pp_table pp"], rule exI [of _ "pp_lheap pp"], simp)
next
  case (Cons n ns)
  obtain s where s: "eaf_list_pop_front (pp_table pp) (pp_lheap pp) = Some (Some n, s)" "list_rep s ns"
    using pop_front_rep [OF Cons.prems] by auto
  obtain l h where lh: "s = (l, h)" by (cases s)
  show ?case using Cons.IH [of "pp\<lparr>pp_table := l, pp_lheap := h\<rparr>"] s unfolding lh
    by (subst clear_table_loop.simps) auto
qed

text \<open>What matters of a state for the rendezvous, and the states a run goes through.\<close>

definition sync_view :: "pp_sync \<Rightarrow> bool \<times> nat \<times> nat" where
  "sync_view s = (have_rsp s, sem_req s, sem_rsp s)"

type_synonym pp_view = "main_phase \<times> pp_call list \<times> pp_phase \<times> (bool \<times> nat \<times> nat) \<times> (bool \<times> nat \<times> nat) \<times> bool \<times> bool"

fun pp_view :: "pp_sys \<Rightarrow> pp_view" where
  "pp_view (m, cs, ph, pp) = (m, cs, ph, sync_view (init_point pp), sync_view (exit_point pp), async_active pp, async_pending pp)"

definition pp_kept :: "addr list \<Rightarrow> pp_state \<Rightarrow> pp_state \<Rightarrow> bool" where
  "pp_kept ns pp0 pp \<longleftrightarrow> pp_hooked pp ns \<and> pp_initialized pp \<and> \<not> pp_looping pp \<and> pp_hooks pp = pp_hooks pp0"

text \<open>A step of a system in a state with a given view.\<close>

definition pp_moves :: "env \<Rightarrow> (fnptr \<times> fnptr) list \<Rightarrow> addr list \<Rightarrow> pp_state \<Rightarrow> pp_view \<Rightarrow> pp_view \<Rightarrow> bool" where
  "pp_moves E items ns pp0 v v' \<longleftrightarrow> (\<forall>s. pp_view s = v \<longrightarrow> pp_kept ns pp0 (snd (snd (snd s))) \<longrightarrow>
     (\<exists>s'. pp_step E items s s') \<and>
     (\<forall>s'. pp_step E items s s' \<longrightarrow> pp_view s' = v' \<and> pp_kept ns pp0 (snd (snd (snd s')))))"

lemma foreach_total:
  assumes "callbacks_return E" "pp_hooked pp ns"
  obtains w' where "FOREACH_VOID_HOOK E fn args pp w = Some w'"
  using call_hooks_total [OF assms(1)] foreach_void [OF assms(2)] by metis

lemmas sync_defs = sync_view_def pp_sync_dial_once_def pp_sync_dial_send_def pp_sync_dial_wait_def pp_sync_wait_def pp_sync_answer_def

text \<open>One thread can move, and only one.\<close>

lemma moves_main:
  assumes "\<And>pp. pp_view (m, cs, ph, pp) = (m, cs, ph, i, e, a, p) \<Longrightarrow> pp_kept ns pp0 pp \<Longrightarrow>
    pp_thread E ph pp = None \<and> (\<exists>s'. pp_main E items (m, cs, ph, pp) = Some s' \<and> pp_view s' = v' \<and> pp_kept ns pp0 (snd (snd (snd s'))))"
  shows "pp_moves E items ns pp0 (m, cs, ph, i, e, a, p) v'"
  unfolding pp_moves_def
proof (intro allI impI)
  fix s assume v: "pp_view s = (m, cs, ph, i, e, a, p)" "pp_kept ns pp0 (snd (snd (snd s)))"
  obtain pp where s: "s = (m, cs, ph, pp)" using v(1) by (cases s) auto
  obtain s' where "pp_thread E ph pp = None" "pp_main E items (m, cs, ph, pp) = Some s'" "pp_view s' = v'"
    "pp_kept ns pp0 (snd (snd (snd s')))" using assms [of pp] v unfolding s by auto
  then show "(\<exists>s'. pp_step E items s s') \<and>
    (\<forall>s'. pp_step E items s s' \<longrightarrow> pp_view s' = v' \<and> pp_kept ns pp0 (snd (snd (snd s'))))"
    unfolding s by (cases s') (simp add: pp_step_iff)
qed

lemma moves_thread:
  assumes "\<And>pp. pp_view (m, cs, ph, pp) = (m, cs, ph, i, e, a, p) \<Longrightarrow> pp_kept ns pp0 pp \<Longrightarrow>
    pp_main E items (m, cs, ph, pp) = None \<and>
    (\<exists>ph' pp'. pp_thread E ph pp = Some (ph', pp') \<and> pp_view (m, cs, ph', pp') = v' \<and> pp_kept ns pp0 pp')"
  shows "pp_moves E items ns pp0 (m, cs, ph, i, e, a, p) v'"
  unfolding pp_moves_def
proof (intro allI impI)
  fix s assume v: "pp_view s = (m, cs, ph, i, e, a, p)" "pp_kept ns pp0 (snd (snd (snd s)))"
  obtain pp where s: "s = (m, cs, ph, pp)" using v(1) by (cases s) auto
  obtain ph' pp' where "pp_main E items (m, cs, ph, pp) = None" "pp_thread E ph pp = Some (ph', pp')"
    "pp_view (m, cs, ph', pp') = v'" "pp_kept ns pp0 pp'" using assms [of pp] v unfolding s by auto
  then show "(\<exists>s'. pp_step E items s s') \<and>
    (\<forall>s'. pp_step E items s s' \<longrightarrow> pp_view s' = v' \<and> pp_kept ns pp0 (snd (snd (snd s'))))"
    unfolding s by (simp add: pp_step_iff)
qed

lemma move_load:
  assumes "callbacks_return E"
  shows "pp_moves E items ns pp0 (M_next, Call_load # cs, PT_wait_init, (False, 0, 0), e, a, p)
    (M_wait_init, cs, PT_wait_init, (False, 1, 0), e, a, p)"
proof (rule moves_main)
  fix pp assume v: "pp_view (M_next, Call_load # cs, PT_wait_init, pp) = (M_next, Call_load # cs, PT_wait_init, (False, 0, 0), e, a, p)"
    and k: "pp_kept ns pp0 pp"
  obtain w' where "FOREACH_VOID_HOOK E on_load_before UHook pp (pp_world pp) = Some w'"
    by (rule foreach_total [OF assms, of pp ns]) (use k in \<open>simp add: pp_kept_def\<close>)
  then show "pp_thread E PT_wait_init pp = None \<and> (\<exists>s'. pp_main E items (M_next, Call_load # cs, PT_wait_init, pp) = Some s' \<and>
      pp_view s' = (M_wait_init, cs, PT_wait_init, (False, 1, 0), e, a, p) \<and> pp_kept ns pp0 (snd (snd (snd s'))))"
    using v k by (auto simp: pp_thread_def pp_hook_on_load_before_def sync_defs pp_kept_def pp_hooked_def)
qed

lemma move_init:
  assumes "callbacks_return E" "ns = ns1 @ ks" "\<forall>n \<in> set ns1. loop_init_ok E (the (pp_hooks pp0 n))"
    "ks = [] \<or> loop_init_fails E (the (pp_hooks pp0 (hd ks)))"
  shows "pp_moves E items ns pp0 (M_wait_init, cs, PT_wait_init, (False, 1, 0), e, a, p)
    (M_wait_init, cs, if ks = [] then PT_loop else PT_done, (True, 0, 1), e, a, p)"
proof (rule moves_thread)
  fix pp assume v: "pp_view (M_wait_init, cs, PT_wait_init, pp) = (M_wait_init, cs, PT_wait_init, (False, 1, 0), e, a, p)"
    and k: "pp_kept ns pp0 pp"
  let ?pp = "pp\<lparr>init_point := (init_point pp)\<lparr>sem_req := 0\<rparr>\<rparr>"
  have seg: "seg (pp_lheap ?pp) None (ns1 @ ks) None" "set (ns1 @ ks) \<subseteq> dom (pp_hooks ?pp)" "head (pp_table ?pp) = hd_opt (ns1 @ ks)"
    using k assms(2) by (auto simp: pp_kept_def pp_hooked_def list_rep_def)
  have inits: "\<forall>n \<in> set ns1. loop_init_ok E (the (pp_hooks ?pp n))" "ks = [] \<or> loop_init_fails E (the (pp_hooks ?pp (hd ks)))"
    using assms(3,4) k by (simp_all add: pp_kept_def)
  obtain w1 where c: "pp_call_init E ?pp (pp_world pp) = Some (if ks = [] then 0 else - 1, of_nat (length ns1), w1)"
    using call_init_list [OF assms(1) seg(1,2) inits, of 0 "pp_world pp"] seg(3) by (auto simp: pp_call_init_def eaf_list_begin_def)
  obtain w2 where x: "pp_call_exit E ?pp (of_nat (length ns1)) w1 = Some w2"
    using call_exit_total [OF assms(1) seg(1,2), where idx = "of_nat (length ns1)" and i = 0 and w = w1] seg(3) by (auto simp: pp_call_exit_def eaf_list_begin_def)
  show "pp_main E items (M_wait_init, cs, PT_wait_init, pp) = None \<and> (\<exists>ph' pp'. pp_thread E PT_wait_init pp = Some (ph', pp') \<and>
      pp_view (M_wait_init, cs, ph', pp') = (M_wait_init, cs, if ks = [] then PT_loop else PT_done, (True, 0, 1), e, a, p) \<and> pp_kept ns pp0 pp')"
    using v k c x by (auto simp: pp_thread_def sync_defs pp_kept_def pp_hooked_def Let_def)
qed

lemma move_init_answered:
  "pp_moves E items ns pp0 (M_wait_init, cs, PT_loop, (True, 0, 1), e, True, False) (M_next, cs, PT_loop, (True, 0, 0), e, True, False)"
  "pp_moves E items ns pp0 (M_wait_init, cs, PT_done, (True, 0, 1), e, a, p) (M_next, cs, PT_done, (True, 0, 0), e, a, p)"
  by (rule moves_main; auto simp: pp_thread_def sync_defs pp_kept_def pp_hooked_def)+

lemma cleanup_main:
  assumes "callbacks_return E" "pp_kept ns pp0 pp" "sync_view (exit_point pp) = (False, 0, 0)" "async_active pp"
  shows "\<exists>w'. pp_main E items (M_next, Call_cleanup # cs, ph, pp) = Some (M_wait_exit, cs, ph, pp\<lparr>pp_world := w', pp_looping := False,
    async_pending := True, exit_point := pp_sync_dial_send 0 (exit_point pp)\<rparr>)"
proof -
  have h: "pp_hooked pp ns" using assms(2) by (simp add: pp_kept_def)
  obtain w1 where w1: "pp_hook_on_exit_before E pp (pp_world pp) = Some w1"
    unfolding pp_hook_on_exit_before_def by (rule foreach_total [OF assms(1) h])
  have h1: "pp_hooked (pp\<lparr>pp_world := w1\<rparr>) ns" using h by (simp add: pp_hooked_def)
  obtain w2 where "FOREACH_VOID_HOOK E on_exit_after UHook (pp\<lparr>pp_world := w1\<rparr>) w1 = Some w2" by (rule foreach_total [OF assms(1) h1])
  then show ?thesis using w1 assms(3,4)
    by - (rule exI [of _ w2], simp add: pp_hook_on_exit_after_def pp_notify_exit_thread_def sync_defs Let_def)
qed

lemma move_cleanup:
  assumes "callbacks_return E" "ph = PT_loop \<and> \<not> p \<or> ph = PT_done"
  shows "pp_moves E items ns pp0 (M_next, Call_cleanup # cs, ph, i, (False, 0, 0), True, p)
    (M_wait_exit, cs, ph, i, (False, 1, 0), True, True)"
proof (rule moves_main)
  fix pp assume v: "pp_view (M_next, Call_cleanup # cs, ph, pp) = (M_next, Call_cleanup # cs, ph, i, (False, 0, 0), True, p)"
    and k: "pp_kept ns pp0 pp"
  obtain w' where "pp_main E items (M_next, Call_cleanup # cs, ph, pp) = Some (M_wait_exit, cs, ph, pp\<lparr>pp_world := w', pp_looping := False,
      async_pending := True, exit_point := pp_sync_dial_send 0 (exit_point pp)\<rparr>)"
    using cleanup_main [OF assms(1) k] v by auto
  then show "pp_thread E ph pp = None \<and> (\<exists>s'. pp_main E items (M_next, Call_cleanup # cs, ph, pp) = Some s' \<and>
      pp_view s' = (M_wait_exit, cs, ph, i, (False, 1, 0), True, True) \<and> pp_kept ns pp0 (snd (snd (snd s'))))"
    using v k assms(2) by (auto simp: pp_thread_def sync_defs pp_kept_def pp_hooked_def)
qed

lemma move_async:
  assumes "callbacks_return E"
  shows "pp_moves E items ns pp0 (M_wait_exit, cs, PT_loop, i, (False, 1, 0), True, True)
    (M_wait_exit, cs, PT_loop, i, (False, 1, 0), False, False)"
proof (rule moves_thread)
  fix pp assume v: "pp_view (M_wait_exit, cs, PT_loop, pp) = (M_wait_exit, cs, PT_loop, i, (False, 1, 0), True, True)"
    and k: "pp_kept ns pp0 pp"
  let ?pp = "pp\<lparr>async_pending := False\<rparr>"
  have seg: "seg (pp_lheap ?pp) None ns None" "set ns \<subseteq> dom (pp_hooks ?pp)" "head (pp_table ?pp) = hd_opt ns"
    using k by (auto simp: pp_kept_def pp_hooked_def list_rep_def)
  obtain w1 where "pp_call_exit E ?pp (- 1) (pp_world pp) = Some w1"
    using call_exit_total [OF assms seg(1,2), where idx = "- 1" and i = 0 and w = "pp_world pp"] seg(3) by (auto simp: pp_call_exit_def eaf_list_begin_def)
  then show "pp_main E items (M_wait_exit, cs, PT_loop, pp) = None \<and> (\<exists>ph' pp'. pp_thread E PT_loop pp = Some (ph', pp') \<and>
      pp_view (M_wait_exit, cs, ph', pp') = (M_wait_exit, cs, PT_loop, i, (False, 1, 0), False, False) \<and> pp_kept ns pp0 pp')"
    using v k by (auto simp: pp_thread_def pp_on_uv_async_mode_def sync_defs pp_kept_def pp_hooked_def)
qed

lemma move_end:
  "pp_moves E items ns pp0 (M_wait_exit, cs, PT_loop, i, (False, 1, 0), False, p) (M_wait_exit, cs, PT_wait_exit, i, (False, 1, 0), False, p)"
  "pp_moves E items ns pp0 (M_wait_exit, cs, PT_wait_exit, i, (False, 1, 0), a, p) (M_wait_exit, cs, PT_done, i, (True, 0, 1), a, p)"
  by (rule moves_thread; auto simp: pp_thread_def sync_defs pp_kept_def pp_hooked_def)+

lemma move_exit:
  "pp_moves E items ns pp0 (M_wait_exit, cs, PT_done, i, (True, 0, 1), a, p) (M_next, cs, PT_done, i, (True, 0, 0), a, p)"
  "pp_moves E items ns pp0 (M_next, Call_exit # cs, PT_done, i, (True, 0, 0), False, p) (M_join, cs, PT_done, i, (True, 0, 0), False, p)"
  by (rule moves_main; auto simp: pp_thread_def sync_defs pp_kept_def pp_hooked_def eaf_powerpack_exit_def pp_notify_exit_thread_def Let_def)+

lemma moves_chain:
  assumes "\<forall>k. Suc k < length vs \<longrightarrow> pp_moves E items ns pp0 (vs ! k) (vs ! Suc k)"
    "pp_view s0 = vs ! 0" "pp_kept ns pp0 (snd (snd (snd s0)))"
  shows "n < length vs \<Longrightarrow> (pp_step E items ^^ n) s0 s \<Longrightarrow>
    pp_view s = vs ! n \<and> pp_kept ns pp0 (snd (snd (snd s))) \<and> (Suc n < length vs \<longrightarrow> (\<exists>s'. pp_step E items s s'))"
proof (induction n arbitrary: s)
  case 0
  then have "s = s0" by simp
  moreover have "\<exists>s'. pp_step E items s0 s'" if "Suc 0 < length vs" using assms that unfolding pp_moves_def by blast
  ultimately show ?case using assms(2,3) by blast
next
  case (Suc n)
  from Suc.prems(2) obtain t where t: "(pp_step E items ^^ n) s0 t" "pp_step E items t s" by auto
  have ih: "pp_view t = vs ! n" "pp_kept ns pp0 (snd (snd (snd t)))" using Suc.IH [OF _ t(1)] Suc.prems(1) by auto
  have "pp_moves E items ns pp0 (vs ! n) (vs ! Suc n)" using assms(1) Suc.prems(1) by simp
  then have s: "pp_view s = vs ! Suc n" "pp_kept ns pp0 (snd (snd (snd s)))" using ih t(2) unfolding pp_moves_def by blast+
  moreover have "\<exists>s'. pp_step E items s s'" if "Suc (Suc n) < length vs"
    using assms(1) that s unfolding pp_moves_def by blast
  ultimately show ?case by blast
qed

text \<open>A run cannot be longer than a chain of views that ends in a state without steps.\<close>

lemma chain_stops:
  assumes "\<forall>k. Suc k < length vs \<longrightarrow> pp_moves E items ns pp0 (vs ! k) (vs ! Suc k)"
    "pp_view s0 = vs ! 0" "pp_kept ns pp0 (snd (snd (snd s0)))" "vs \<noteq> []"
    "\<forall>s s'. pp_view s = last vs \<longrightarrow> \<not> pp_step E items s s'" "(pp_step E items ^^ n) s0 s"
  shows "n < length vs"
proof (rule ccontr)
  assume "\<not> n < length vs"
  then obtain k where n: "n = Suc (length vs - 1) + k" using assms(4) le_iff_add [of "length vs" n] by (cases vs) auto
  obtain t where "(pp_step E items ^^ Suc (length vs - 1)) s0 t" using assms(6) unfolding n relpowp_add by (rule relcomppE) blast
  then obtain u where u: "(pp_step E items ^^ (length vs - 1)) s0 u" "pp_step E items u t" by (rule relpowp_Suc_E) blast
  have "pp_view u = last vs" using moves_chain [OF assms(1-3) _ u(1)] assms(4) by (simp add: last_conv_nth)
  then show False using assms(5) u(2) by blast
qed

definition pp_ready :: "pp_state \<Rightarrow> addr list \<Rightarrow> bool" where
  "pp_ready pp ns \<longleftrightarrow> list_rep (pp_table pp, pp_lheap pp) ns \<and> set ns \<subseteq> dom (pp_hooks pp) \<and> pp_initialized pp \<and> \<not> pp_looping pp \<and>
     \<not> have_rsp (init_point pp) \<and> sem_req (init_point pp) = 0 \<and> sem_rsp (init_point pp) = 0 \<and>
     \<not> have_rsp (exit_point pp) \<and> sem_req (exit_point pp) = 0 \<and> sem_rsp (exit_point pp) = 0 \<and>
     async_active pp \<and> \<not> async_pending pp"

lemma pp_ready_view:
  assumes "pp_ready pp ns"
  shows "pp_view (m, cs, ph, pp) = (m, cs, ph, (False, 0, 0), (False, 0, 0), True, False)" "pp_kept ns pp (snd (snd (snd (m, cs, ph, pp))))"
  using assms by (simp_all add: pp_ready_def pp_kept_def pp_hooked_def sync_view_def)

lemma less_numeral_cases: "k < Suc n \<longleftrightarrow> k = n \<or> k < n"
  by auto

definition good_run :: "pp_call list \<Rightarrow> pp_view list" where
  "good_run cs = [(M_next, Call_load # Call_cleanup # cs, PT_wait_init, (False, 0, 0), (False, 0, 0), True, False),
     (M_wait_init, Call_cleanup # cs, PT_wait_init, (False, 1, 0), (False, 0, 0), True, False),
     (M_wait_init, Call_cleanup # cs, PT_loop, (True, 0, 1), (False, 0, 0), True, False),
     (M_next, Call_cleanup # cs, PT_loop, (True, 0, 0), (False, 0, 0), True, False),
     (M_wait_exit, cs, PT_loop, (True, 0, 0), (False, 1, 0), True, True),
     (M_wait_exit, cs, PT_loop, (True, 0, 0), (False, 1, 0), False, False),
     (M_wait_exit, cs, PT_wait_exit, (True, 0, 0), (False, 1, 0), False, False),
     (M_wait_exit, cs, PT_done, (True, 0, 0), (True, 0, 1), False, False),
     (M_next, cs, PT_done, (True, 0, 0), (True, 0, 0), False, False)]"

lemma good_run_moves:
  assumes "callbacks_return E" "\<forall>n \<in> set ns. loop_init_ok E (the (pp_hooks pp0 n))" "Suc k < length (good_run cs)"
  shows "pp_moves E items ns pp0 (good_run cs ! k) (good_run cs ! Suc k)"
proof -
  have init: "pp_moves E items ns pp0 (M_wait_init, cs', PT_wait_init, (False, 1, 0), e, a, p) (M_wait_init, cs', PT_loop, (True, 0, 1), e, a, p)" for cs' e a p
    using move_init [OF assms(1), of ns ns "[]" pp0] assms(2) by simp
  have "k \<in> {0, 1, 2, 3, 4, 5, 6, 7}" using assms(3) by (simp add: good_run_def) arith
  then show ?thesis
    using move_load [OF assms(1)] init move_init_answered(1) move_cleanup [OF assms(1)] move_async [OF assms(1)] move_end move_exit(1)
    by (auto simp: good_run_def numeral_eq_Suc)
qed


text \<open>The two ends of the power pack that never come.\<close>

lemma stuck_wait:
  "pp_view s = (M_wait_exit_join, cs, PT_wait_init, (b, 0, c), (d, q, 0), a, p) \<Longrightarrow> \<not> pp_step E items s s'"
  "pp_view s = (M_wait_exit, cs, PT_done, i, (d, q, 0), a, p) \<Longrightarrow> \<not> pp_step E items s s'"
  by (cases s; auto simp: pp_step_iff pp_thread_def sync_defs)+

lemma exit_without_load:
  assumes "pp_ready pp ns" "(pp_step E items ^^ n) (M_next, [Call_exit], PT_wait_init, pp) s"
  shows "n \<le> 1 \<and> (n = 0 \<longrightarrow> (\<exists>s'. pp_step E items s s')) \<and> (n = 1 \<longrightarrow> fst s = M_wait_exit_join \<and> (\<nexists>s'. pp_step E items s s'))"
proof -
  let ?vs = "[(M_next, [Call_exit], PT_wait_init, (False, 0, 0), (False, 0, 0), True, False),
    (M_wait_exit_join, [], PT_wait_init, (False, 0, 0), (False, 1, 0), True, True)] :: pp_view list"
  note start = pp_ready_view [OF assms(1), of M_next "[Call_exit]" PT_wait_init]
  have moves: "pp_moves E items ns pp (?vs ! k) (?vs ! Suc k)" if "Suc k < length ?vs" for k
  proof -
    have "pp_moves E items ns pp (M_next, [Call_exit], PT_wait_init, (False, 0, 0), (False, 0, 0), True, False)
      (M_wait_exit_join, [], PT_wait_init, (False, 0, 0), (False, 1, 0), True, True)"
      by (rule moves_main) (auto simp: pp_thread_def sync_defs pp_kept_def pp_hooked_def eaf_powerpack_exit_def pp_notify_exit_thread_def Let_def)
    then show ?thesis using that by simp
  qed
  have moves_all: "\<forall>j. Suc j < length ?vs \<longrightarrow> pp_moves E items ns pp (?vs ! j) (?vs ! Suc j)" using moves by blast
  have v0: "pp_view (M_next, [Call_exit], PT_wait_init, pp) = ?vs ! 0" unfolding start(1) by simp
  have stop: "\<forall>s s'. pp_view s = last ?vs \<longrightarrow> \<not> pp_step E items s s'"
  proof (intro allI impI)
    fix s s' assume "pp_view s = last ?vs"
    then have "pp_view s = (M_wait_exit_join, [], PT_wait_init, (False, 0, 0), (False, 1, 0), True, True)" by simp
    then show "\<not> pp_step E items s s'" by (rule stuck_wait(1))
  qed
  have "n < length ?vs" using chain_stops [OF moves_all v0 start(2) _ stop assms(2)] by blast
  moreover have "pp_view s = ?vs ! n \<and> pp_kept ns pp (snd (snd (snd s))) \<and> (Suc n < length ?vs \<longrightarrow> (\<exists>s'. pp_step E items s s'))"
    by (rule moves_chain [OF moves_all v0 start(2) calculation assms(2)])
  ultimately show ?thesis using stuck_wait(1) [of s "[]" False 0 False 1 True True E items] by (cases s) (auto simp: less_Suc_eq)
qed

lemma exit_after_failure:
  assumes "callbacks_return E" "pp_ready pp ns" "ns = before @ k # after" "\<forall>n \<in> set before. loop_init_ok E (the (pp_hooks pp n))"
    "loop_init_fails E (the (pp_hooks pp k))" "(pp_step E items ^^ n) (M_next, [Call_load, Call_cleanup, Call_exit], PT_wait_init, pp) s"
  shows "n \<le> 4 \<and> (n < 4 \<longrightarrow> (\<exists>s'. pp_step E items s s')) \<and> (n = 3 \<longrightarrow> fst s = M_next) \<and>
    (n = 4 \<longrightarrow> fst s = M_wait_exit \<and> (\<nexists>s'. pp_step E items s s'))"
proof -
  let ?vs = "[(M_next, [Call_load, Call_cleanup, Call_exit], PT_wait_init, (False, 0, 0), (False, 0, 0), True, False),
    (M_wait_init, [Call_cleanup, Call_exit], PT_wait_init, (False, 1, 0), (False, 0, 0), True, False),
    (M_wait_init, [Call_cleanup, Call_exit], PT_done, (True, 0, 1), (False, 0, 0), True, False),
    (M_next, [Call_cleanup, Call_exit], PT_done, (True, 0, 0), (False, 0, 0), True, False),
    (M_wait_exit, [Call_exit], PT_done, (True, 0, 0), (False, 1, 0), True, True)] :: pp_view list"
  note start = pp_ready_view [OF assms(2), of M_next "[Call_load, Call_cleanup, Call_exit]" PT_wait_init]
  have init: "pp_moves E items ns pp (M_wait_init, cs, PT_wait_init, (False, 1, 0), e, a, p) (M_wait_init, cs, PT_done, (True, 0, 1), e, a, p)" for cs e a p
    using move_init [OF assms(1,3,4)] assms(5) by simp
  have moves: "pp_moves E items ns pp (?vs ! j) (?vs ! Suc j)" if "Suc j < length ?vs" for j
  proof -
    have "j \<in> {0, 1, 2, 3}" using that by simp arith
    then show ?thesis
      using move_load [OF assms(1)] init move_init_answered(2) move_cleanup [OF assms(1)] by (auto simp: numeral_eq_Suc)
  qed
  have moves_all: "\<forall>j. Suc j < length ?vs \<longrightarrow> pp_moves E items ns pp (?vs ! j) (?vs ! Suc j)" using moves by blast
  have v0: "pp_view (M_next, [Call_load, Call_cleanup, Call_exit], PT_wait_init, pp) = ?vs ! 0" unfolding start(1) by simp
  have stop: "\<forall>s s'. pp_view s = last ?vs \<longrightarrow> \<not> pp_step E items s s'"
  proof (intro allI impI)
    fix s s' assume "pp_view s = last ?vs"
    then have "pp_view s = (M_wait_exit, [Call_exit], PT_done, (True, 0, 0), (False, 1, 0), True, True)" by simp
    then show "\<not> pp_step E items s s'" by (rule stuck_wait(2))
  qed
  have "n < length ?vs" using chain_stops [OF moves_all v0 start(2) _ stop assms(6)] by blast
  moreover have "pp_view s = ?vs ! n \<and> pp_kept ns pp (snd (snd (snd s))) \<and> (Suc n < length ?vs \<longrightarrow> (\<exists>s'. pp_step E items s s'))"
    by (rule moves_chain [OF moves_all v0 start(2) calculation assms(6)])
  ultimately show ?thesis
    using stuck_wait(2) [of s "[Call_exit]" "(True, 0, 0)" False 1 True True E items] by (cases s) (auto simp: less_Suc_eq numeral_eq_Suc)
qed

text \<open>C19: The end that never comes. When the power pack is initialised but \<open>eaf_load\<close> is not called, or the
  loop function of a hook fails, the thread of the loop is not there to answer at the exit point:
  \<open>eaf_powerpack_exit\<close>, or already the hook of \<open>eaf_cleanup\<close>, waits forever. A failed start is not
  even seen by \<open>eaf_load\<close>, which goes on.\<close>

theorem pp_exit_hangs:
  assumes "callbacks_return E" "pp_ready pp ns"
  shows "(\<forall>n s. (pp_step E items ^^ n) (M_next, [Call_exit], PT_wait_init, pp) s \<longrightarrow>
      n \<le> 1 \<and> (n = 0 \<longrightarrow> (\<exists>s'. pp_step E items s s')) \<and> (n = 1 \<longrightarrow> fst s = M_wait_exit_join \<and> (\<nexists>s'. pp_step E items s s'))) \<and>
    (\<forall>before k after n s. ns = before @ k # after \<and> (\<forall>n \<in> set before. loop_init_ok E (the (pp_hooks pp n))) \<and>
      loop_init_fails E (the (pp_hooks pp k)) \<and>
      (pp_step E items ^^ n) (M_next, [Call_load, Call_cleanup, Call_exit], PT_wait_init, pp) s \<longrightarrow>
      n \<le> 4 \<and> (n < 4 \<longrightarrow> (\<exists>s'. pp_step E items s s')) \<and> (n = 3 \<longrightarrow> fst s = M_next) \<and>
      (n = 4 \<longrightarrow> fst s = M_wait_exit \<and> (\<nexists>s'. pp_step E items s s')))"
  by (intro conjI allI impI; (elim conjE)?; insert exit_without_load [OF assms(2)] exit_after_failure [OF assms]; blast)

subsection \<open>Start and registration\<close>

lemma init_ready:
  assumes "eaf_powerpack_init E R items inject sz pp = Some (eaf_errno_success, pp')" "list_rep (pp_table pp, pp_lheap pp) []" "\<not> pp_looping pp"
  shows "pp_ready pp' []"
  using assms
  by (auto simp: eaf_powerpack_init_def pp_init_libuv_ctx_def pp_sync_init_def pp_init_pp_ctx_def pp_ready_def eaf_errno_success_def
      eaf_errno_duplicate_def eaf_errno_unknown_def Let_def split: if_splits prod.splits option.splits bind_split_asm)

lemma unregister_list:
  assumes "list_rep (pp_table pp, pp_lheap pp) (ys @ ns)" "hook \<notin> set ys"
  shows "\<exists>l h. unregister_loop hook (hd_opt ns) pp = Some (pp\<lparr>pp_table := l, pp_lheap := h\<rparr>) \<and> list_rep (l, h) (remove1 hook (ys @ ns))"
  using assms
proof (induction ns arbitrary: ys)
  case Nil
  then show ?case
    by (subst unregister_loop.simps) (simp add: remove1_idem, rule exI [of _ "pp_table pp"], rule exI [of _ "pp_lheap pp"], simp)
next
  case (Cons n ns)
  show ?case
  proof (cases "n = hook")
    case True
    obtain l h where "eaf_list_erase (pp_table pp) (pp_lheap pp) n = Some (l, h)" "list_rep (l, h) (remove1 n (ys @ n # ns))"
      using erase_implements [OF Cons.prems(1), of n] by (auto simp: implements_def)
    then show ?thesis using True by (subst unregister_loop.simps) auto
  next
    case False
    have "seg (pp_lheap pp) (if ys = [] then None else last_opt ys) (n # ns) None"
      using Cons.prems(1) by (simp add: list_rep_def seg_append)
    then have nxt: "eaf_list_next (pp_lheap pp) n = hd_opt ns" by (cases ns) (simp_all add: eaf_list_next_def)
    show ?thesis using Cons.IH [of "ys @ [n]"] Cons.prems False by (subst unregister_loop.simps) (simp add: nxt)
  qed
qed

text \<open>Registration. A hook is appended, which leaves the power pack ready for its start; any registered
  hook can be taken out again, and taking out another address changes nothing.\<close>

theorem pp_registration:
  assumes "pp_ready pp ns" "hook \<notin> set ns" "pp_hooks pp hook = Some k"
  shows "\<exists>pp1. eaf_powerpack_hook_register hook sz sz pp = Some (eaf_errno_success, pp1) \<and> pp_ready pp1 (ns @ [hook]) \<and>
    (\<forall>x. \<exists>pp2. eaf_powerpack_hook_unregister x pp1 = Some pp2 \<and> pp_ready pp2 (remove1 x (ns @ [hook])))"
proof -
  have rep: "list_rep (pp_table pp, pp_lheap pp) ns" "pp_initialized pp" using assms(1) by (simp_all add: pp_ready_def)
  obtain l h where p: "eaf_list_push_back (pp_table pp) (pp_lheap pp) hook = Some (l, h)" "list_rep (l, h) (ns @ [hook])"
    using push_back_implements [OF rep(1) assms(2)] by (auto simp: implements_def)
  let ?pp = "pp\<lparr>pp_table := l, pp_lheap := h\<rparr>"
  have r: "eaf_powerpack_hook_register hook sz sz pp = Some (eaf_errno_success, ?pp)"
    using p(1) rep(2) by (simp add: eaf_powerpack_hook_register_def)
  have ready: "pp_ready ?pp (ns @ [hook])" using assms(1,3) p(2) by (auto simp: pp_ready_def)
  have "\<exists>pp2. eaf_powerpack_hook_unregister x ?pp = Some pp2 \<and> pp_ready pp2 (remove1 x (ns @ [hook]))" for x
  proof -
    obtain l' h' where "unregister_loop x (hd_opt (ns @ [hook])) ?pp = Some (?pp\<lparr>pp_table := l', pp_lheap := h'\<rparr>)"
      "list_rep (l', h') (remove1 x (ns @ [hook]))" using unregister_list [of ?pp "[]" "ns @ [hook]" x] p(2) by auto
    moreover have "head l = hd_opt (ns @ [hook])" using p(2) by (simp add: list_rep_def)
    moreover have "set (remove1 x (ns @ [hook])) \<subseteq> dom (pp_hooks ?pp)"
      using ready set_remove1_subset [of x "ns @ [hook]"] unfolding pp_ready_def by blast
    ultimately show ?thesis using ready by (auto simp: eaf_powerpack_hook_unregister_def eaf_list_begin_def pp_ready_def)
  qed
  then show ?thesis using r ready by blast
qed

subsection \<open>Witnesses\<close>

definition demo_hooks :: hooks where
  "demo_hooks = \<lparr>on_service_init_before = 1, on_service_init_after = 2, on_service_exit_before = 3, on_service_exit_after = 4,
     on_service_yield = 5, on_service_resume = 6, on_service_register = 7, on_message_send_before = 8, on_message_send_after = 9,
     on_message_handle_before = 10, on_message_handle_after = 11, on_load_before = 12, on_load_after = 13, on_exit_before = 14,
     on_exit_after = 15\<rparr>"

definition demo_sync :: pp_sync where
  "demo_sync = \<lparr>have_req = False, have_rsp = False, code_req = 0, code_rsp = 0, sem_req = 0, sem_rsp = 0\<rparr>"

definition demo_pp :: pp_state where
  "demo_pp = \<lparr>pp_initialized = True, pp_looping = False, pp_table = fst demo_list, pp_lheap = snd demo_list,
     pp_hooks = (\<lambda>a. Some \<lparr>pp_fns = demo_hooks\<lparr>on_message_send_before := of_nat (a - 1)\<rparr>, on_loop_init = 20, on_loop_exit = 21\<rparr>),
     init_point = demo_sync, exit_point = demo_sync, async_active = True, async_pending = False, pp_world = sys_demo_start\<rparr>"

lemma demo_pp_ready: "pp_ready demo_pp [1, 2, 3]"
  using demo_list_rep by (simp add: pp_ready_def demo_pp_def demo_sync_def)

lemma demo_callbacks: "callbacks_return base_env" "loop_init_ok base_env k"
  by (simp_all add: callbacks_return_def loop_init_ok_def)


theorem pp_send_hook_witness:
  "hook_message_send_before (pp_env (base_env\<lparr>e_ucode := \<lambda>u w. case u of UHookMsg f from to m \<Rightarrow> Some (- sint f, w) | _ \<Rightarrow> Some (0, w)\<rparr>) demo_hooks demo_pp)
     1 2 3 (sys_demo_start\<lparr>w_ctx := Some ((zero_ctx 0)\<lparr>c_hook := Some (5, demo_hooks)\<rparr>)\<rparr>) =
   Some (- 1, sys_demo_start\<lparr>w_ctx := Some ((zero_ctx 0)\<lparr>c_hook := Some (5, demo_hooks)\<rparr>)\<rparr>)"
  using pp_send_hook [of demo_pp "[1, 2, 3]"
      "sys_demo_start\<lparr>w_ctx := Some ((zero_ctx 0)\<lparr>c_hook := Some (5, demo_hooks)\<rparr>)\<rparr>" 5 demo_hooks
      "base_env\<lparr>e_ucode := \<lambda>u w. case u of UHookMsg f from to m \<Rightarrow> Some (- sint f, w) | _ \<Rightarrow> Some (0, w)\<rparr>" 1 2 3] demo_list_rep
  by (simp add: demo_pp_def demo_hooks_def)


theorem pp_exit_hangs_witness:
  "\<exists>s. (pp_step base_env [] ^^ 1) (M_next, [Call_exit], PT_wait_init, demo_pp) s \<and> fst s = M_wait_exit_join \<and>
     (\<nexists>s'. pp_step base_env [] s s')"
proof -
  note h = conjunct1 [OF pp_exit_hangs [OF demo_callbacks(1) demo_pp_ready, of "[]"]]
  have "(pp_step base_env [] ^^ 0) (M_next, [Call_exit], PT_wait_init, demo_pp) (M_next, [Call_exit], PT_wait_init, demo_pp)" by simp
  then obtain s where "pp_step base_env [] (M_next, [Call_exit], PT_wait_init, demo_pp) s" using h by blast
  then have "(pp_step base_env [] ^^ 1) (M_next, [Call_exit], PT_wait_init, demo_pp) s" by (simp add: eq_OO)
  then show ?thesis using h by blast
qed

theorem pp_registration_witness:
  "\<exists>pp1 pp2. eaf_powerpack_hook_register 7 200 200 demo_pp = Some (eaf_errno_success, pp1) \<and>
     eaf_powerpack_hook_unregister 2 pp1 = Some pp2 \<and> pp_ready pp2 [1, 3, 7]"
  using pp_registration [OF demo_pp_ready, of 7 _ 200] by (fastforce simp: demo_pp_def)

end
