(* ===== verification/Timer.thy ===== *)
theory Timer
  imports PPHooks TimerApi
begin

text \<open>
  The timer service of \<open>powerpack/timer.c\<close>. A delay request becomes a record that waits in \<open>idle_queue\<close>
  until the loop of libuv takes it over, in \<open>busy_queue\<close> while its libuv timer runs, and in \<open>dead_queue\<close>
  while the timer is being closed; the request is answered when the timer fires or cannot be started.

  State. \<open>timer_state\<close> holds \<open>g_timer_ctx\<close> with the three lists on one node heap, the records (a record has
  the address of its node), the state of the libuv timers, the world of the runtime, the contents of
  the responses and the responses sent so far. libuv closes a timer and calls back later, and calls
  back a started timer once; its results are parameters, as are the result of \<open>malloc\<close> and the number
  of milliseconds in a request. The lock has no effect, as every operation is one atomic step. \<open>None\<close> is
  undefined behaviour or a failed assertion.
\<close>

subsection \<open>State\<close>

record timer_record =
  td_req :: eaf_msg
  td_msec :: u32

datatype uv_timer = UV_init | UV_started | UV_closing

record timer_state =
  tm_inited :: bool
  tm_looping :: bool
  tm_inited_notifier :: bool
  idle_queue :: elist
  busy_queue :: elist
  dead_queue :: elist
  tm_lheap :: lheap
  tm_recs :: "addr \<Rightarrow> timer_record option"
  tm_uv :: "addr \<Rightarrow> uv_timer option"
  tm_world :: world
  tm_payload :: "addr \<Rightarrow> int option"
  tm_answers :: "(u64 \<times> int) list"

text \<open>The lists.\<close>

definition idle_push :: "addr \<Rightarrow> timer_state \<Rightarrow> timer_state option" where
  "idle_push n st = do {
     (l, h) \<leftarrow> eaf_list_push_back (idle_queue st) (tm_lheap st) n; Some (st\<lparr>idle_queue := l, tm_lheap := h\<rparr>) }"

definition idle_take :: "addr \<Rightarrow> timer_state \<Rightarrow> timer_state option" where
  "idle_take n st = do {
     (l, h) \<leftarrow> eaf_list_erase (idle_queue st) (tm_lheap st) n; Some (st\<lparr>idle_queue := l, tm_lheap := h\<rparr>) }"

definition idle_pop :: "timer_state \<Rightarrow> (ptr \<times> timer_state) option" where
  "idle_pop st = do {
     (it, l, h) \<leftarrow> eaf_list_pop_front (idle_queue st) (tm_lheap st); Some (it, st\<lparr>idle_queue := l, tm_lheap := h\<rparr>) }"

definition busy_push :: "addr \<Rightarrow> timer_state \<Rightarrow> timer_state option" where
  "busy_push n st = do {
     (l, h) \<leftarrow> eaf_list_push_back (busy_queue st) (tm_lheap st) n; Some (st\<lparr>busy_queue := l, tm_lheap := h\<rparr>) }"

definition busy_take :: "addr \<Rightarrow> timer_state \<Rightarrow> timer_state option" where
  "busy_take n st = do {
     (l, h) \<leftarrow> eaf_list_erase (busy_queue st) (tm_lheap st) n; Some (st\<lparr>busy_queue := l, tm_lheap := h\<rparr>) }"

definition busy_pop :: "timer_state \<Rightarrow> (ptr \<times> timer_state) option" where
  "busy_pop st = do {
     (it, l, h) \<leftarrow> eaf_list_pop_front (busy_queue st) (tm_lheap st); Some (it, st\<lparr>busy_queue := l, tm_lheap := h\<rparr>) }"

definition dead_push :: "addr \<Rightarrow> timer_state \<Rightarrow> timer_state option" where
  "dead_push n st = do {
     (l, h) \<leftarrow> eaf_list_push_back (dead_queue st) (tm_lheap st) n; Some (st\<lparr>dead_queue := l, tm_lheap := h\<rparr>) }"

definition dead_take :: "addr \<Rightarrow> timer_state \<Rightarrow> timer_state option" where
  "dead_take n st = do {
     (l, h) \<leftarrow> eaf_list_erase (dead_queue st) (tm_lheap st) n; Some (st\<lparr>dead_queue := l, tm_lheap := h\<rparr>) }"

text \<open>\<open>free\<close> and \<open>uv_close\<close>.\<close>

definition tm_free :: "addr \<Rightarrow> timer_state \<Rightarrow> timer_state" where
  "tm_free n st = st\<lparr>tm_recs := (tm_recs st)(n := None)\<rparr>"

definition uv_close :: "addr \<Rightarrow> timer_state \<Rightarrow> timer_state" where
  "uv_close n st = st\<lparr>tm_uv := (tm_uv st)(n \<mapsto> UV_closing)\<rparr>"

subsection \<open>Responses\<close>

definition timer_send_delay_rsp :: "env \<Rightarrow> u32 \<Rightarrow> eaf_msg \<Rightarrow> int \<Rightarrow> timer_state \<Rightarrow> timer_state option" where
  "timer_send_delay_rsp E to req ret st =
     (let w = tm_world st in
      case eaf_msg_create_rsp (e_menv E w) (w_mheap w) req 4 of
        (None, H) \<Rightarrow> None
      | (Some rsp, H) \<Rightarrow> do {
          (d, _) \<leftarrow> eaf_msg_get_data H rsp;
          a \<leftarrow> d;
          (_, w) \<leftarrow> eaf_send_rsp E EAF_TIMER_ID to rsp (w\<lparr>w_mheap := H\<rparr>);
          H \<leftarrow> eaf_msg_dec_ref (w_mheap w) rsp;
          Some (st\<lparr>tm_payload := (tm_payload st)(a \<mapsto> ret), tm_world := w\<lparr>w_mheap := H\<rparr>,
            tm_answers := tm_answers st @ [(uuid req, ret)]\<rparr>) })"

subsection \<open>The loop of libuv\<close>

definition timer_on_timer_close :: "addr \<Rightarrow> timer_state \<Rightarrow> timer_state option" where
  "timer_on_timer_close record st = do {
     st \<leftarrow> dead_take record (st\<lparr>tm_uv := (tm_uv st)(record := None)\<rparr>);
     Some (tm_free record st) }"

definition timer_on_active :: "env \<Rightarrow> addr \<Rightarrow> timer_state \<Rightarrow> timer_state option" where
  "timer_on_active E record st = do {
     r \<leftarrow> tm_recs st record;
     st \<leftarrow> timer_send_delay_rsp E (msg_from (td_req r)) (td_req r) eaf_errno_success st;
     st \<leftarrow> busy_take record st;
     st \<leftarrow> dead_push record st;
     Some (uv_close record st) }"

definition timer_handle_idle_record :: "env \<Rightarrow> (addr \<Rightarrow> int) \<Rightarrow> (addr \<Rightarrow> int) \<Rightarrow> addr \<Rightarrow> timer_state \<Rightarrow> timer_state option" where
  "timer_handle_idle_record E uv_timer_init_ret uv_timer_start_ret record st = do {
     r \<leftarrow> tm_recs st record;
     if uv_timer_init_ret record < 0 then do {
       st \<leftarrow> timer_send_delay_rsp E (msg_from (td_req r)) (td_req r) eaf_errno_unknown st;
       Some (tm_free record st) }
     else do {
       st \<leftarrow> busy_push record (st\<lparr>tm_uv := (tm_uv st)(record \<mapsto> UV_init)\<rparr>);
       if uv_timer_start_ret record < 0 then do {
         st \<leftarrow> busy_take record st;
         st \<leftarrow> dead_push record st;
         st \<leftarrow> timer_send_delay_rsp E (msg_from (td_req r)) (td_req r) eaf_errno_unknown st;
         Some (uv_close record st) }
       else Some (st\<lparr>tm_uv := (tm_uv st)(record \<mapsto> UV_started)\<rparr>) } }"

partial_function (option) close_busy_loop :: "timer_state \<Rightarrow> timer_state option" where
  "close_busy_loop st = do {
     (it, st) \<leftarrow> busy_pop st;
     case it of
       None \<Rightarrow> Some st
     | Some n \<Rightarrow> do {
         st \<leftarrow> dead_push n st;
         close_busy_loop (uv_close n st) } }"

partial_function (option) free_idle_loop :: "timer_state \<Rightarrow> timer_state option" where
  "free_idle_loop st = do {
     (it, st) \<leftarrow> idle_pop st;
     case it of
       None \<Rightarrow> Some st
     | Some n \<Rightarrow> free_idle_loop (tm_free n st) }"

definition timer_close_all_timer :: "timer_state \<Rightarrow> timer_state option" where
  "timer_close_all_timer st = do { st \<leftarrow> close_busy_loop st; free_idle_loop st }"

partial_function (option) handle_idle_loop ::
  "env \<Rightarrow> (addr \<Rightarrow> int) \<Rightarrow> (addr \<Rightarrow> int) \<Rightarrow> timer_state \<Rightarrow> timer_state option" where
  "handle_idle_loop E uv_timer_init_ret uv_timer_start_ret st = do {
     (it, st) \<leftarrow> idle_pop st;
     case it of
       None \<Rightarrow> Some st
     | Some n \<Rightarrow> do {
         st \<leftarrow> timer_handle_idle_record E uv_timer_init_ret uv_timer_start_ret n st;
         handle_idle_loop E uv_timer_init_ret uv_timer_start_ret st } }"

declare close_busy_loop.simps [code] free_idle_loop.simps [code] handle_idle_loop.simps [code]

definition timer_on_uv_notify :: "env \<Rightarrow> (addr \<Rightarrow> int) \<Rightarrow> (addr \<Rightarrow> int) \<Rightarrow> timer_state \<Rightarrow> timer_state option" where
  "timer_on_uv_notify E uv_timer_init_ret uv_timer_start_ret st =
     (if \<not> tm_looping st then timer_close_all_timer st
      else handle_idle_loop E uv_timer_init_ret uv_timer_start_ret st)"

definition timer_on_libuv_loop_init :: "int \<Rightarrow> timer_state \<Rightarrow> int \<times> timer_state" where
  "timer_on_libuv_loop_init uv_async_init_ret st =
     (if uv_async_init_ret < 0 then (- 1, st) else (0, st\<lparr>tm_inited_notifier := True\<rparr>))"

definition timer_on_libuv_loop_exit :: "timer_state \<Rightarrow> timer_state option" where
  "timer_on_libuv_loop_exit st =
     (if eaf_list_size (busy_queue st) = 0 \<and> eaf_list_size (dead_queue st) = 0 \<and> eaf_list_size (idle_queue st) = 0
      then Some st else None)"

subsection \<open>The service\<close>

definition timer_on_req_delay :: "env \<Rightarrow> ptr \<Rightarrow> int \<Rightarrow> u32 \<Rightarrow> u32 \<Rightarrow> addr \<Rightarrow> timer_state \<Rightarrow> timer_state option" where
  "timer_on_req_delay E malloc_ret uv_async_send_ret msec from m st = do {
     full \<leftarrow> w_mheap (tm_world st) m;
     if \<not> tm_looping st then timer_send_delay_rsp E from (msg full) eaf_errno_state st
     else do {
       record \<leftarrow> malloc_ret;
       (d, _) \<leftarrow> eaf_msg_get_data (w_mheap (tm_world st)) m;
       _ \<leftarrow> d;
       let st = st\<lparr>tm_recs := (tm_recs st)(record \<mapsto> \<lparr>td_req = msg full, td_msec = msec\<rparr>)\<rparr>;
       st \<leftarrow> idle_push record st;
       if uv_async_send_ret < 0 then do {
         st \<leftarrow> idle_take record st;
         st \<leftarrow> timer_send_delay_rsp E from (msg full) eaf_errno_unknown st;
         Some (tm_free record st) }
       else Some st } }"

definition timer_on_init :: "timer_state \<Rightarrow> timer_state" where
  "timer_on_init st = st\<lparr>tm_looping := True\<rparr>"

text \<open>\<open>_timer_on_exit\<close> notifies the loop of libuv and then waits as long as \<open>timer_exit_waits\<close>.\<close>

definition timer_on_exit :: "timer_state \<Rightarrow> timer_state" where
  "timer_on_exit st = st\<lparr>tm_looping := False\<rparr>"

definition timer_exit_waits :: "timer_state \<Rightarrow> bool" where
  "timer_exit_waits st \<longleftrightarrow>
     eaf_list_size (busy_queue st) + eaf_list_size (idle_queue st) + eaf_list_size (dead_queue st) \<noteq> 0"

definition eaf_timer_init ::
  "env \<Rightarrow> int \<Rightarrow> addr \<Rightarrow> size_t \<Rightarrow> fnptr \<Rightarrow> fnptr \<Rightarrow> fnptr \<Rightarrow> timer_state \<Rightarrow> pp_state \<Rightarrow> (int \<times> timer_state \<times> pp_state) option" where
  "eaf_timer_init E uv_mutex_init_ret hook sizeof_hook on_req_delay on_init on_exit st pp =
     (if tm_inited st then Some (eaf_errno_duplicate, st, pp)
      else if uv_mutex_init_ret < 0 then Some (eaf_errno_unknown, st, pp)
      else do {
        (ret, pp) \<leftarrow> eaf_powerpack_hook_register hook sizeof_hook sizeof_hook pp;
        if ret < 0 then Some (ret, st, pp)
        else do {
          let entry = \<lparr>msg_table = [(EAF_TIMER_MSG_DELAY_REQ, on_req_delay)], ep_on_init = on_init, ep_on_exit = on_exit\<rparr>;
          (ret, w) \<leftarrow> eaf_register E EAF_TIMER_ID entry (tm_world st);
          let st = st\<lparr>tm_world := w\<rparr>;
          if ret < 0 then do { pp \<leftarrow> eaf_powerpack_hook_unregister hook pp; Some (ret, st, pp) }
          else Some (eaf_errno_success, st\<lparr>tm_inited := True\<rparr>, pp) } })"

definition eaf_timer_exit :: "timer_state \<Rightarrow> timer_state" where
  "eaf_timer_exit st = (if \<not> tm_inited st then st else st\<lparr>tm_inited := False\<rparr>)"

subsection \<open>Runs\<close>

text \<open>What happens to the timer while it runs: requests, labelled by their uuid, turns of the loop of libuv,
  the exit of the service, and steps of others.\<close>

inductive tm_step :: "env \<Rightarrow> timer_state \<Rightarrow> u64 list \<Rightarrow> timer_state \<Rightarrow> bool" for E where
  request: "w_mheap (tm_world st) m = Some full \<Longrightarrow> data_size full \<noteq> 0 \<Longrightarrow> tm_recs st n = None \<Longrightarrow>
    timer_on_req_delay E (Some n) r msec from m st = Some st' \<Longrightarrow> tm_step E st [uuid (msg full)] st'"
| notify: "timer_on_uv_notify E ri rs st = Some st' \<Longrightarrow> tm_step E st [] st'"
| fire: "tm_uv st n = Some UV_started \<Longrightarrow> timer_on_active E n st = Some st' \<Longrightarrow> tm_step E st [] st'"
| closed: "tm_uv st n = Some UV_closing \<Longrightarrow> timer_on_timer_close n st = Some st' \<Longrightarrow> tm_step E st [] st'"
| exit: "tm_step E st [] (timer_on_exit st)"
| others: "winv w \<Longrightarrow> tm_step E st [] (st\<lparr>tm_world := w\<rparr>)"

inductive tm_run :: "env \<Rightarrow> timer_state \<Rightarrow> u64 list \<Rightarrow> timer_state \<Rightarrow> bool" for E where
  start: "tm_run E st [] st"
| step: "tm_run E st us st1 \<Longrightarrow> tm_step E st1 vs st2 \<Longrightarrow> tm_run E st (us @ vs) st2"

definition g_timer_ctx :: "world \<Rightarrow> timer_state" where
  "g_timer_ctx w = \<lparr>tm_inited = False, tm_looping = False, tm_inited_notifier = False,
     idle_queue = eaf_list_init, busy_queue = eaf_list_init, dead_queue = eaf_list_init, tm_lheap = (\<lambda>_. undefined),
     tm_recs = (\<lambda>_. None), tm_uv = (\<lambda>_. None), tm_world = w, tm_payload = (\<lambda>_. None), tm_answers = []\<rparr>"

end
