(* ===== verification/TimerProps.thy ===== *)
theory TimerProps
  imports Timer ServiceClient ServiceProps
begin

text \<open>
  The properties of the timer service: under every interleaving of requests, libuv callbacks, its exit and
  other threads no operation fails and every request is answered once or still pending, and the exit of
  the service comes to an end.
\<close>

subsection \<open>Three lists on one heap\<close>

definition lists3 :: "elist \<Rightarrow> elist \<Rightarrow> elist \<Rightarrow> lheap \<Rightarrow> addr list \<Rightarrow> addr list \<Rightarrow> addr list \<Rightarrow> bool" where
  "lists3 k l m h xs ys zs \<longleftrightarrow> list_rep (k, h) xs \<and> list_rep (l, h) ys \<and> list_rep (m, h) zs \<and> distinct (xs @ ys @ zs)"

lemma lists3_perm: "lists3 k l m h xs ys zs = lists3 l k m h ys xs zs" "lists3 k l m h xs ys zs = lists3 m l k h zs ys xs"
  unfolding lists3_def by auto

lemma list_rep_frame: "list_rep (l, h) xs \<Longrightarrow> (\<And>x. x \<in> set xs \<Longrightarrow> h' x = h x) \<Longrightarrow> list_rep (l, h') xs"
  using seg_frame [of xs h' h] by (simp add: list_rep_def)

lemma lists3_push:
  assumes "lists3 k l m h xs ys zs" "n \<notin> set (xs @ ys @ zs)"
  obtains k' h' where "eaf_list_push_back k h n = Some (k', h')" "lists3 k' l m h' (xs @ [n]) ys zs"
proof -
  have a: "list_rep (k, h) xs" "list_rep (l, h) ys" "list_rep (m, h) zs" "distinct (xs @ ys @ zs)" "n \<notin> set xs"
    using assms by (simp_all add: lists3_def)
  obtain k' h' where p: "eaf_list_push_back k h n = Some (k', h')" "list_rep (k', h') (xs @ [n])" "\<forall>a. a \<notin> insert n (set xs) \<longrightarrow> h' a = h a"
    using push_back_implements [OF a(1,5)] by (auto simp: implements_def)
  have fr: "h' x = h x" if "x \<in> set ys \<union> set zs" for x using p(3) a(4) assms(2) that by auto
  have "list_rep (l, h') ys" "list_rep (m, h') zs"
    by (rule list_rep_frame [OF a(2)], use fr in simp, rule list_rep_frame [OF a(3)], use fr in simp)
  then show thesis using that [OF p(1)] p(2) a(4) assms(2) by (auto simp: lists3_def)
qed

lemma lists3_take:
  assumes "lists3 k l m h xs ys zs" "n \<in> set xs"
  obtains k' h' where "eaf_list_erase k h n = Some (k', h')" "lists3 k' l m h' (remove1 n xs) ys zs"
proof -
  have a: "list_rep (k, h) xs" "list_rep (l, h) ys" "list_rep (m, h) zs" "distinct (xs @ ys @ zs)"
    using assms by (simp_all add: lists3_def)
  obtain k' h' where p: "eaf_list_erase k h n = Some (k', h')" "list_rep (k', h') (remove1 n xs)" "\<forall>a. a \<notin> set xs \<longrightarrow> h' a = h a"
    using erase_implements [OF a(1) assms(2)] by (auto simp: implements_def)
  have "list_rep (l, h') ys" "list_rep (m, h') zs"
    using list_rep_frame [OF a(2), of h'] list_rep_frame [OF a(3), of h'] p(3) a(4) by auto
  moreover have "set (remove1 n xs) \<subseteq> set xs" by (rule set_remove1_subset)
  ultimately show thesis using that [OF p(1)] p(2) a(4) by (auto simp: lists3_def distinct_remove1)
qed

lemma lists3_pop:
  assumes "lists3 k l m h xs ys zs"
  obtains k' h' where "eaf_list_pop_front k h = Some (hd_opt xs, k', h')" "lists3 k' l m h' (tl xs) ys zs"
proof -
  have a: "list_rep (k, h) xs" "list_rep (l, h) ys" "list_rep (m, h) zs" "distinct (xs @ ys @ zs)"
    using assms by (simp_all add: lists3_def)
  obtain k' h' where p: "eaf_list_pop_front k h = Some (hd_opt xs, k', h')" "list_rep (k', h') (tl xs)" "\<forall>a. a \<notin> set xs \<longrightarrow> h' a = h a"
    using pop_front_rep [OF a(1)] by auto
  have "list_rep (l, h') ys" "list_rep (m, h') zs"
    using list_rep_frame [OF a(2), of h'] list_rep_frame [OF a(3), of h'] p(3) a(4) by auto
  moreover have "set (tl xs) \<subseteq> set xs" by (cases xs) auto
  ultimately show thesis using that [OF p(1)] p(2) a(4) by (auto simp: lists3_def distinct_tl)
qed

subsection \<open>The invariant\<close>

text \<open>Records are in one queue each, busy ones have a running timer and dead ones a closing timer.\<close>

definition tm_lists :: "timer_state \<Rightarrow> addr list \<Rightarrow> addr list \<Rightarrow> addr list \<Rightarrow> bool" where
  "tm_lists st is bs ds \<longleftrightarrow> lists3 (idle_queue st) (busy_queue st) (dead_queue st) (tm_lheap st) is bs ds"

definition tm_inv :: "timer_state \<Rightarrow> addr list \<Rightarrow> addr list \<Rightarrow> addr list \<Rightarrow> bool" where
  "tm_inv st is bs ds \<longleftrightarrow> tm_lists st is bs ds \<and> dom (tm_recs st) = set (is @ bs @ ds) \<and>
     (\<forall>n. tm_uv st n = (if n \<in> set bs then Some UV_started else if n \<in> set ds then Some UV_closing else None)) \<and>
     winv (tm_world st)"

text \<open>The uuids of the requests that wait in some records.\<close>

definition tm_uuids :: "timer_state \<Rightarrow> addr list \<Rightarrow> u64 multiset" where
  "tm_uuids st ns = image_mset (\<lambda>n. uuid (td_req (the (tm_recs st n)))) (mset ns)"

definition tm_ledger :: "timer_state \<Rightarrow> addr list \<Rightarrow> addr list \<Rightarrow> u64 multiset" where
  "tm_ledger st is bs = mset (map fst (tm_answers st)) + tm_uuids st (is @ bs)"

lemma tm_invD:
  assumes "tm_inv st is bs ds"
  shows "tm_lists st is bs ds" "dom (tm_recs st) = set (is @ bs @ ds)"
    "\<And>n. tm_uv st n = (if n \<in> set bs then Some UV_started else if n \<in> set ds then Some UV_closing else None)"
    "winv (tm_world st)" "distinct (is @ bs @ ds)"
  using assms by (simp_all add: tm_inv_def tm_lists_def lists3_def)

lemma tm_lists_simps [simp]:
  "tm_lists (st\<lparr>tm_world := w\<rparr>) is bs ds = tm_lists st is bs ds"
  "tm_lists (st\<lparr>tm_payload := p\<rparr>) is bs ds = tm_lists st is bs ds"
  "tm_lists (st\<lparr>tm_answers := a\<rparr>) is bs ds = tm_lists st is bs ds"
  "tm_lists (st\<lparr>tm_recs := r\<rparr>) is bs ds = tm_lists st is bs ds"
  "tm_lists (st\<lparr>tm_uv := u\<rparr>) is bs ds = tm_lists st is bs ds"
  "tm_lists (st\<lparr>tm_looping := b\<rparr>) is bs ds = tm_lists st is bs ds"
  by (simp_all add: tm_lists_def)

lemma idle_push_ok:
  assumes "tm_lists st is bs ds" "n \<notin> set (is @ bs @ ds)"
  obtains l h where "idle_push n st = Some (st\<lparr>idle_queue := l, tm_lheap := h\<rparr>)" "tm_lists (st\<lparr>idle_queue := l, tm_lheap := h\<rparr>) (is @ [n]) bs ds"
  by (rule lists3_push [OF assms(1) [unfolded tm_lists_def] assms(2)], rule that) (simp_all add: idle_push_def tm_lists_def)

lemma idle_take_ok:
  assumes "tm_lists st is bs ds" "n \<in> set is"
  obtains l h where "idle_take n st = Some (st\<lparr>idle_queue := l, tm_lheap := h\<rparr>)" "tm_lists (st\<lparr>idle_queue := l, tm_lheap := h\<rparr>) (remove1 n is) bs ds"
  by (rule lists3_take [OF assms(1) [unfolded tm_lists_def] assms(2)], rule that) (simp_all add: idle_take_def tm_lists_def)

lemma idle_pop_ok:
  assumes "tm_lists st is bs ds"
  obtains l h where "idle_pop st = Some (hd_opt is, st\<lparr>idle_queue := l, tm_lheap := h\<rparr>)" "tm_lists (st\<lparr>idle_queue := l, tm_lheap := h\<rparr>) (tl is) bs ds"
  by (rule lists3_pop [OF assms [unfolded tm_lists_def]], rule that) (simp_all add: idle_pop_def tm_lists_def)

lemma busy_lists: "tm_lists st is bs ds \<longleftrightarrow> lists3 (busy_queue st) (idle_queue st) (dead_queue st) (tm_lheap st) bs is ds"
  unfolding tm_lists_def by (rule lists3_perm(1))

lemma dead_lists: "tm_lists st is bs ds \<longleftrightarrow> lists3 (dead_queue st) (busy_queue st) (idle_queue st) (tm_lheap st) ds bs is"
  unfolding tm_lists_def by (rule lists3_perm(2))

lemma busy_push_ok:
  assumes "tm_lists st is bs ds" "n \<notin> set (is @ bs @ ds)"
  obtains l h where "busy_push n st = Some (st\<lparr>busy_queue := l, tm_lheap := h\<rparr>)" "tm_lists (st\<lparr>busy_queue := l, tm_lheap := h\<rparr>) is (bs @ [n]) ds"
  by (rule lists3_push [OF assms(1) [unfolded busy_lists], of n], use assms(2) in simp, rule that) (simp_all add: busy_push_def busy_lists)

lemma busy_take_ok:
  assumes "tm_lists st is bs ds" "n \<in> set bs"
  obtains l h where "busy_take n st = Some (st\<lparr>busy_queue := l, tm_lheap := h\<rparr>)" "tm_lists (st\<lparr>busy_queue := l, tm_lheap := h\<rparr>) is (remove1 n bs) ds"
  by (rule lists3_take [OF assms(1) [unfolded busy_lists] assms(2)], rule that) (simp_all add: busy_take_def busy_lists)

lemma busy_pop_ok:
  assumes "tm_lists st is bs ds"
  obtains l h where "busy_pop st = Some (hd_opt bs, st\<lparr>busy_queue := l, tm_lheap := h\<rparr>)" "tm_lists (st\<lparr>busy_queue := l, tm_lheap := h\<rparr>) is (tl bs) ds"
  by (rule lists3_pop [OF assms [unfolded busy_lists]], rule that) (simp_all add: busy_pop_def busy_lists)

lemma dead_push_ok:
  assumes "tm_lists st is bs ds" "n \<notin> set (is @ bs @ ds)"
  obtains l h where "dead_push n st = Some (st\<lparr>dead_queue := l, tm_lheap := h\<rparr>)" "tm_lists (st\<lparr>dead_queue := l, tm_lheap := h\<rparr>) is bs (ds @ [n])"
  by (rule lists3_push [OF assms(1) [unfolded dead_lists], of n], use assms(2) in simp, rule that) (simp_all add: dead_push_def dead_lists)

lemma dead_take_ok:
  assumes "tm_lists st is bs ds" "n \<in> set ds"
  obtains l h where "dead_take n st = Some (st\<lparr>dead_queue := l, tm_lheap := h\<rparr>)" "tm_lists (st\<lparr>dead_queue := l, tm_lheap := h\<rparr>) is bs (remove1 n ds)"
  by (rule lists3_take [OF assms(1) [unfolded dead_lists] assms(2)], rule that) (simp_all add: dead_take_def dead_lists)

subsection \<open>The operations\<close>

lemma answer_ok:
  assumes "calm_env E" "winv (tm_world st)"
  obtains p w where "timer_send_delay_rsp E to req ret st =
      Some (st\<lparr>tm_payload := p, tm_world := w, tm_answers := tm_answers st @ [(uuid req, ret)]\<rparr>)" "winv w"
proof -
  let ?w = "tm_world st"
  obtain rsp H f where c: "eaf_msg_create_rsp (e_menv E ?w) (w_mheap ?w) req 4 = (Some rsp, H)" "winv (?w\<lparr>w_mheap := H\<rparr>)"
    "held rsp (?w\<lparr>w_mheap := H\<rparr>)" "H rsp = Some f" "refcnt f = 1" "data_size f = 4" by (rule create_rsp_good [OF assms])
  have f: "w_mheap (?w\<lparr>w_mheap := H\<rparr>) rsp = Some f" "refcnt f + 1 \<noteq> 0" using c(4,5) by simp_all
  obtain r w1 H1 where s: "eaf_send_rsp E EAF_TIMER_ID to rsp (?w\<lparr>w_mheap := H\<rparr>) = Some (r, w1)"
    "eaf_msg_dec_ref (w_mheap w1) rsp = Some H1" "winv (w1\<lparr>w_mheap := H1\<rparr>)"
    by (rule send_rsp_release [OF assms(1) c(2,3) f])
  show thesis by (rule that [OF _ s(3)]) (use c(1,4,6) s(1,2) in \<open>simp add: timer_send_delay_rsp_def eaf_msg_get_data_def\<close>)
qed

lemma tm_uuids_cong: "(\<And>n. n \<in> set ns \<Longrightarrow> tm_recs st' n = tm_recs st n) \<Longrightarrow> tm_uuids st' ns = tm_uuids st ns"
  unfolding tm_uuids_def by (rule image_mset_cong) simp

lemma tm_uuids_simps [simp]: "tm_uuids st [] = {#}" "tm_uuids st (n # ns) = {#uuid (td_req (the (tm_recs st n)))#} + tm_uuids st ns"
  "tm_uuids st (ns @ ms) = tm_uuids st ns + tm_uuids st ms"
  by (simp_all add: tm_uuids_def)

lemma closed_ok:
  assumes "tm_inv st is bs ds" "n \<in> set ds"
  obtains st' where "timer_on_timer_close n st = Some st'" "tm_inv st' is bs (remove1 n ds)" "tm_ledger st' is bs = tm_ledger st is bs"
    "tm_looping st' = tm_looping st" "tm_answers st' = tm_answers st" "tm_recs st' = (tm_recs st)(n := None)"
proof -
  note i = tm_invD [OF assms(1)]
  have "tm_lists (st\<lparr>tm_uv := (tm_uv st)(n := None)\<rparr>) is bs ds" using i(1) by simp
  then obtain l h where d: "dead_take n (st\<lparr>tm_uv := (tm_uv st)(n := None)\<rparr>) =
      Some (st\<lparr>tm_uv := (tm_uv st)(n := None), dead_queue := l, tm_lheap := h\<rparr>)"
    "tm_lists (st\<lparr>tm_uv := (tm_uv st)(n := None), dead_queue := l, tm_lheap := h\<rparr>) is bs (remove1 n ds)" by (rule dead_take_ok [OF _ assms(2)])
  let ?st = "tm_free n (st\<lparr>tm_uv := (tm_uv st)(n := None), dead_queue := l, tm_lheap := h\<rparr>)"
  have out: "n \<notin> set is" "n \<notin> set bs" "distinct ds" using i(5) assms(2) by auto
  have "tm_inv ?st is bs (remove1 n ds)"
    using d(2) i(2,3,4) out by (auto simp: tm_inv_def tm_free_def set_remove1_eq)
  moreover have "tm_uuids ?st (is @ bs) = tm_uuids st (is @ bs)" by (rule tm_uuids_cong) (use out in \<open>auto simp: tm_free_def\<close>)
  ultimately show thesis using d(1) by - (rule that [of ?st], simp_all add: timer_on_timer_close_def tm_ledger_def tm_free_def)
qed

text \<open>A record moves from \<open>busy_queue\<close> to \<open>dead_queue\<close>.\<close>

lemma bury_ok:
  assumes "tm_lists st is bs ds" "n \<in> set bs"
  obtains l h k g where "busy_take n st = Some (st\<lparr>busy_queue := l, tm_lheap := h\<rparr>)"
    "dead_push n (st\<lparr>busy_queue := l, tm_lheap := h\<rparr>) = Some (st\<lparr>busy_queue := l, dead_queue := k, tm_lheap := g\<rparr>)"
    "tm_lists (st\<lparr>busy_queue := l, dead_queue := k, tm_lheap := g\<rparr>) is (remove1 n bs) (ds @ [n])"
proof -
  obtain l h where b: "busy_take n st = Some (st\<lparr>busy_queue := l, tm_lheap := h\<rparr>)"
    "tm_lists (st\<lparr>busy_queue := l, tm_lheap := h\<rparr>) is (remove1 n bs) ds" by (rule busy_take_ok [OF assms])
  have "distinct (is @ bs @ ds)" using assms(1) by (simp add: tm_lists_def lists3_def)
  then have "n \<notin> set (is @ remove1 n bs @ ds)" using assms(2) by auto
  then obtain k g where "dead_push n (st\<lparr>busy_queue := l, tm_lheap := h\<rparr>) = Some (st\<lparr>busy_queue := l, tm_lheap := h\<rparr>\<lparr>dead_queue := k, tm_lheap := g\<rparr>)"
    "tm_lists (st\<lparr>busy_queue := l, tm_lheap := h\<rparr>\<lparr>dead_queue := k, tm_lheap := g\<rparr>) is (remove1 n bs) (ds @ [n])"
    by (rule dead_push_ok [OF b(2)])
  then show thesis using that [OF b(1), where k = k and g = g] by simp
qed

lemma active_ok:
  assumes "calm_env E" "tm_inv st is bs ds" "n \<in> set bs" "tm_recs st n = Some r"
  obtains st' where "timer_on_active E n st = Some st'" "tm_inv st' is (remove1 n bs) (ds @ [n])"
    "tm_ledger st' is (remove1 n bs) = tm_ledger st is bs" "tm_looping st' = tm_looping st"
    "tm_answers st' = tm_answers st @ [(uuid (td_req r), eaf_errno_success)]" "tm_recs st' = tm_recs st"
proof -
  note i = tm_invD [OF assms(2)]
  obtain p w where a: "timer_send_delay_rsp E (msg_from (td_req r)) (td_req r) eaf_errno_success st =
      Some (st\<lparr>tm_payload := p, tm_world := w, tm_answers := tm_answers st @ [(uuid (td_req r), eaf_errno_success)]\<rparr>)" "winv w"
    by (rule answer_ok [OF assms(1) i(4)])
  let ?st1 = "st\<lparr>tm_payload := p, tm_world := w, tm_answers := tm_answers st @ [(uuid (td_req r), eaf_errno_success)]\<rparr>"
  have "tm_lists ?st1 is bs ds" using i(1) by (simp add: tm_lists_def)
  then obtain l h k g where b: "busy_take n ?st1 = Some (?st1\<lparr>busy_queue := l, tm_lheap := h\<rparr>)"
    "dead_push n (?st1\<lparr>busy_queue := l, tm_lheap := h\<rparr>) = Some (?st1\<lparr>busy_queue := l, dead_queue := k, tm_lheap := g\<rparr>)"
    "tm_lists (?st1\<lparr>busy_queue := l, dead_queue := k, tm_lheap := g\<rparr>) is (remove1 n bs) (ds @ [n])" by (rule bury_ok [OF _ assms(3)])
  let ?st = "uv_close n (?st1\<lparr>busy_queue := l, dead_queue := k, tm_lheap := g\<rparr>)"
  have dist: "distinct bs" "n \<notin> set is" using i(5) assms(3) by auto
  have inv: "tm_inv ?st is (remove1 n bs) (ds @ [n])"
    using b(3) i(2,3) a(2) dist assms(3) by (auto simp: tm_inv_def uv_close_def set_remove1_eq tm_lists_def)
  have u: "tm_uuids ?st ns = tm_uuids st ns" for ns by (rule tm_uuids_cong) (simp add: uv_close_def)
  have "mset bs = add_mset n (mset (remove1 n bs))" using assms(3) by simp
  then have "tm_uuids st bs = {#uuid (td_req r)#} + tm_uuids st (remove1 n bs)"
    unfolding tm_uuids_def using assms(4) by (simp del: mset_remove1)
  then have "tm_ledger ?st is (remove1 n bs) = tm_ledger st is bs" by (simp add: tm_ledger_def u) (simp add: uv_close_def)
  then show thesis using inv assms(4) a(1) b(1,2) by - (rule that [of ?st], simp_all add: timer_on_active_def uv_close_def)
qed

text \<open>A record taken from \<open>idle_queue\<close> is answered, or its timer runs.\<close>

lemma handle_ok:
  assumes "calm_env E" "tm_inv st (n # is) bs ds"
  obtains st1 st' bs' ds' where "idle_pop st = Some (Some n, st1)" "timer_handle_idle_record E ri rs n st1 = Some st'"
    "tm_inv st' is bs' ds'" "tm_ledger st' is bs' = tm_ledger st (n # is) bs" "tm_looping st' = tm_looping st"
proof -
  note i = tm_invD [OF assms(2)]
  obtain l h where pop: "idle_pop st = Some (Some n, st\<lparr>idle_queue := l, tm_lheap := h\<rparr>)" "tm_lists (st\<lparr>idle_queue := l, tm_lheap := h\<rparr>) is bs ds"
    using idle_pop_ok [OF i(1)] by (metis hd_opt_simps(2) list.sel(3))
  let ?st1 = "st\<lparr>idle_queue := l, tm_lheap := h\<rparr>"
  obtain r where r: "tm_recs st n = Some r" using i(2) by (cases "tm_recs st n") auto
  have n: "n \<notin> set (is @ bs @ ds)" "distinct (is @ bs @ ds)" using i(5) by auto
  have uu: "tm_uuids st' ns = tm_uuids st ns" if "\<forall>k \<in> set ns. tm_recs st' k = tm_recs st k" for st' ns
    by (rule tm_uuids_cong) (use that in simp)
  show thesis
  proof (cases "ri n < 0")
    case True
    obtain p w where a: "timer_send_delay_rsp E (msg_from (td_req r)) (td_req r) eaf_errno_unknown ?st1 =
        Some (?st1\<lparr>tm_payload := p, tm_world := w, tm_answers := tm_answers ?st1 @ [(uuid (td_req r), eaf_errno_unknown)]\<rparr>)" "winv w"
      by (rule answer_ok [OF assms(1), of ?st1]) (use i(4) in simp)
    let ?st = "tm_free n (?st1\<lparr>tm_payload := p, tm_world := w, tm_answers := tm_answers st @ [(uuid (td_req r), eaf_errno_unknown)]\<rparr>)"
    have "tm_inv ?st is bs ds" using pop(2) i(2,3) a(2) n by (auto simp: tm_inv_def tm_free_def tm_lists_def)
    moreover have "tm_uuids ?st is = tm_uuids st is" "tm_uuids ?st bs = tm_uuids st bs"
      by (rule uu; use n in \<open>auto simp: tm_free_def\<close>)+
    moreover have "tm_answers ?st = tm_answers st @ [(uuid (td_req r), eaf_errno_unknown)]" by (simp add: tm_free_def)
    ultimately have "tm_inv ?st is bs ds" "tm_ledger ?st is bs = tm_ledger st (n # is) bs"
      using r by (simp_all add: tm_ledger_def)
    then show thesis using True pop(1) r a(1) by - (rule that [of ?st1 ?st], simp_all add: timer_handle_idle_record_def tm_free_def)
  next
    case False
    let ?st2 = "?st1\<lparr>tm_uv := (tm_uv st)(n \<mapsto> UV_init)\<rparr>"
    have "tm_lists ?st2 is bs ds" using pop(2) by simp
    then obtain k g where b: "busy_push n ?st2 = Some (?st2\<lparr>busy_queue := k, tm_lheap := g\<rparr>)" "tm_lists (?st2\<lparr>busy_queue := k, tm_lheap := g\<rparr>) is (bs @ [n]) ds"
      by (rule busy_push_ok [OF _ n(1)])
    let ?st3 = "?st2\<lparr>busy_queue := k, tm_lheap := g\<rparr>"
    show thesis
    proof (cases "rs n < 0")
      case True
      have "n \<in> set (bs @ [n])" by simp
      with b(2) obtain l1 h1 k1 g1 where c: "busy_take n ?st3 = Some (?st3\<lparr>busy_queue := l1, tm_lheap := h1\<rparr>)"
        "dead_push n (?st3\<lparr>busy_queue := l1, tm_lheap := h1\<rparr>) = Some (?st3\<lparr>busy_queue := l1, dead_queue := k1, tm_lheap := g1\<rparr>)"
        "tm_lists (?st3\<lparr>busy_queue := l1, dead_queue := k1, tm_lheap := g1\<rparr>) is (remove1 n (bs @ [n])) (ds @ [n])" by (rule bury_ok)
      let ?st4 = "?st3\<lparr>busy_queue := l1, dead_queue := k1, tm_lheap := g1\<rparr>"
      obtain p w where a: "timer_send_delay_rsp E (msg_from (td_req r)) (td_req r) eaf_errno_unknown ?st4 =
          Some (?st4\<lparr>tm_payload := p, tm_world := w, tm_answers := tm_answers ?st4 @ [(uuid (td_req r), eaf_errno_unknown)]\<rparr>)" "winv w"
        by (rule answer_ok [OF assms(1), of ?st4]) (use i(4) in simp)
      let ?st = "uv_close n (?st4\<lparr>tm_payload := p, tm_world := w, tm_answers := tm_answers st @ [(uuid (td_req r), eaf_errno_unknown)]\<rparr>)"
      have rm: "remove1 n (bs @ [n]) = bs" using n by (simp add: remove1_append)
      have "tm_inv ?st is bs (ds @ [n])" using c(3) i(2,3) a(2) n rm by (auto simp: tm_inv_def uv_close_def tm_lists_def)
      moreover have "tm_ledger ?st is bs = tm_ledger st (n # is) bs"
        using r uu [of "is" ?st] uu [of bs ?st] by (simp add: tm_ledger_def uv_close_def)
      ultimately show thesis using False True pop(1) r b(1) c(1,2) a(1)
        by - (rule that [of ?st1 ?st], simp_all add: timer_handle_idle_record_def uv_close_def)
    next
      case start: False
      let ?st = "?st3\<lparr>tm_uv := (tm_uv st)(n \<mapsto> UV_started)\<rparr>"
      have "tm_inv ?st is (bs @ [n]) ds" using b(2) i(2-4) n by (auto simp: tm_inv_def tm_lists_def)
      moreover have "tm_ledger ?st is (bs @ [n]) = tm_ledger st (n # is) bs"
        using uu [of "is" ?st] uu [of bs ?st] by (simp add: tm_ledger_def)
      ultimately show thesis using False start pop(1) r b(1)
        by - (rule that [of ?st1 ?st], simp_all add: timer_handle_idle_record_def)
    qed
  qed
qed

lemma handle_idle_ok:
  assumes "calm_env E" "tm_inv st is bs ds"
  shows "\<exists>st' bs' ds'. handle_idle_loop E ri rs st = Some st' \<and> tm_inv st' [] bs' ds' \<and>
    tm_ledger st' [] bs' = tm_ledger st is bs \<and> tm_looping st' = tm_looping st"
  using assms(2)
proof (induction "is" arbitrary: st bs ds)
  case Nil
  obtain l h where pop: "idle_pop st = Some (None, st\<lparr>idle_queue := l, tm_lheap := h\<rparr>)" "tm_lists (st\<lparr>idle_queue := l, tm_lheap := h\<rparr>) [] bs ds"
    using idle_pop_ok [OF tm_invD(1) [OF Nil]] by (metis hd_opt_simps(1) list.sel(2))
  let ?st = "st\<lparr>idle_queue := l, tm_lheap := h\<rparr>"
  have "handle_idle_loop E ri rs st = Some ?st" using pop(1) by (subst handle_idle_loop.simps) simp
  moreover have "tm_inv ?st [] bs ds" using pop(2) Nil by (simp add: tm_inv_def)
  moreover have "tm_ledger ?st [] bs = tm_ledger st [] bs" by (simp add: tm_ledger_def tm_uuids_def)
  ultimately show ?case by - (rule exI [of _ ?st], rule exI [of _ bs], rule exI [of _ ds], simp)
next
  case (Cons n xs)
  obtain st1 st' bs' ds' where h: "idle_pop st = Some (Some n, st1)" "timer_handle_idle_record E ri rs n st1 = Some st'"
    "tm_inv st' xs bs' ds'" "tm_ledger st' xs bs' = tm_ledger st (n # xs) bs" "tm_looping st' = tm_looping st"
    by (rule handle_ok [OF assms(1) Cons.prems])
  show ?case using Cons.IH [OF h(3)] h by (subst handle_idle_loop.simps) auto
qed

text \<open>The exit: busy records are buried, idle ones freed, and nobody is answered.\<close>

lemma close_busy_ok:
  assumes "tm_inv st is bs ds"
  shows "\<exists>st' ds'. close_busy_loop st = Some st' \<and> tm_inv st' is [] ds' \<and> set ds' = set bs \<union> set ds \<and>
    tm_answers st' = tm_answers st \<and> tm_looping st' = tm_looping st \<and> tm_recs st' = tm_recs st"
  using assms
proof (induction bs arbitrary: st ds)
  case Nil
  obtain l h where pop: "busy_pop st = Some (None, st\<lparr>busy_queue := l, tm_lheap := h\<rparr>)" "tm_lists (st\<lparr>busy_queue := l, tm_lheap := h\<rparr>) is [] ds"
    using busy_pop_ok [OF tm_invD(1) [OF Nil]] by (metis hd_opt_simps(1) list.sel(2))
  let ?st = "st\<lparr>busy_queue := l, tm_lheap := h\<rparr>"
  have "close_busy_loop st = Some ?st" using pop(1) by (subst close_busy_loop.simps) simp
  moreover have "tm_inv ?st is [] ds" using pop(2) Nil by (simp add: tm_inv_def)
  ultimately show ?case by - (rule exI [of _ ?st], rule exI [of _ ds], simp)
next
  case (Cons n bs)
  note i = tm_invD [OF Cons.prems]
  obtain l h where pop: "busy_pop st = Some (Some n, st\<lparr>busy_queue := l, tm_lheap := h\<rparr>)" "tm_lists (st\<lparr>busy_queue := l, tm_lheap := h\<rparr>) is bs ds"
    using busy_pop_ok [OF i(1)] by (metis hd_opt_simps(2) list.sel(3))
  have n: "n \<notin> set (is @ bs @ ds)" using i(5) by auto
  obtain k g where push: "dead_push n (st\<lparr>busy_queue := l, tm_lheap := h\<rparr>) = Some (st\<lparr>busy_queue := l, tm_lheap := h\<rparr>\<lparr>dead_queue := k, tm_lheap := g\<rparr>)"
    "tm_lists (st\<lparr>busy_queue := l, tm_lheap := h\<rparr>\<lparr>dead_queue := k, tm_lheap := g\<rparr>) is bs (ds @ [n])"
    by (rule dead_push_ok [OF pop(2) n])
  let ?st = "uv_close n (st\<lparr>busy_queue := l, dead_queue := k, tm_lheap := g\<rparr>)"
  have "tm_inv ?st is bs (ds @ [n])" using push(2) i(2-4) n by (auto simp: tm_inv_def uv_close_def)
  moreover have "close_busy_loop st = close_busy_loop ?st" using pop(1) push(1) by (subst close_busy_loop.simps) simp
  ultimately show ?case using Cons.IH [of ?st "ds @ [n]"] by (auto simp: uv_close_def)
qed

lemma free_idle_ok:
  assumes "tm_inv st is bs ds"
  shows "\<exists>st'. free_idle_loop st = Some st' \<and> tm_inv st' [] bs ds \<and>
    tm_answers st' = tm_answers st \<and> tm_looping st' = tm_looping st"
  using assms
proof (induction "is" arbitrary: st)
  case Nil
  obtain l h where pop: "idle_pop st = Some (None, st\<lparr>idle_queue := l, tm_lheap := h\<rparr>)" "tm_lists (st\<lparr>idle_queue := l, tm_lheap := h\<rparr>) [] bs ds"
    using idle_pop_ok [OF tm_invD(1) [OF Nil]] by (metis hd_opt_simps(1) list.sel(2))
  let ?st = "st\<lparr>idle_queue := l, tm_lheap := h\<rparr>"
  have "free_idle_loop st = Some ?st" using pop(1) by (subst free_idle_loop.simps) simp
  moreover have "tm_inv ?st [] bs ds" using pop(2) Nil by (simp add: tm_inv_def)
  ultimately show ?case by - (rule exI [of _ ?st], simp)
next
  case (Cons n xs)
  note i = tm_invD [OF Cons.prems]
  obtain l h where pop: "idle_pop st = Some (Some n, st\<lparr>idle_queue := l, tm_lheap := h\<rparr>)" "tm_lists (st\<lparr>idle_queue := l, tm_lheap := h\<rparr>) xs bs ds"
    using idle_pop_ok [OF i(1)] by (metis hd_opt_simps(2) list.sel(3))
  let ?st = "tm_free n (st\<lparr>idle_queue := l, tm_lheap := h\<rparr>)"
  have "tm_inv ?st xs bs ds" using pop(2) i(2-5) by (auto simp: tm_inv_def tm_free_def)
  moreover have "free_idle_loop st = free_idle_loop ?st" using pop(1) by (subst free_idle_loop.simps) simp
  ultimately show ?case using Cons.IH [of ?st] by (auto simp: tm_free_def)
qed

lemma close_all_ok:
  assumes "tm_inv st is bs ds"
  obtains st' ds' where "timer_close_all_timer st = Some st'" "tm_inv st' [] [] ds'" "set ds' = set bs \<union> set ds"
    "tm_answers st' = tm_answers st" "tm_looping st' = tm_looping st"
proof -
  obtain st1 ds' where b: "close_busy_loop st = Some st1" "tm_inv st1 is [] ds'" "set ds' = set bs \<union> set ds"
    "tm_answers st1 = tm_answers st" "tm_looping st1 = tm_looping st" using close_busy_ok [OF assms] by blast
  obtain st' where "free_idle_loop st1 = Some st'" "tm_inv st' [] [] ds'"
    "tm_answers st' = tm_answers st1" "tm_looping st' = tm_looping st1" using free_idle_ok [OF b(2)] by blast
  then show thesis using that [of st' ds'] b by (simp add: timer_close_all_timer_def)
qed

text \<open>A request is answered at once, or waits.\<close>

lemma request_ok:
  assumes "calm_env E" "tm_inv st is bs ds" "w_mheap (tm_world st) m = Some full" "data_size full \<noteq> 0" "tm_recs st n = None"
  obtains st' is' where "timer_on_req_delay E (Some n) r msec from m st = Some st'" "tm_inv st' is' bs ds"
    "tm_ledger st' is' bs = tm_ledger st is bs + {#uuid (msg full)#}" "tm_looping st' = tm_looping st"
proof -
  note i = tm_invD [OF assms(2)]
  have n: "n \<notin> set (is @ bs @ ds)" using i(2) assms(5) by auto
  have uu: "tm_uuids st' ns = tm_uuids st ns" if "\<forall>k \<in> set ns. tm_recs st' k = tm_recs st k" for st' ns
    by (rule tm_uuids_cong) (use that in simp)
  show thesis
  proof (cases "tm_looping st")
    case False
    obtain p w where a: "timer_send_delay_rsp E from (msg full) eaf_errno_state st =
        Some (st\<lparr>tm_payload := p, tm_world := w, tm_answers := tm_answers st @ [(uuid (msg full), eaf_errno_state)]\<rparr>)" "winv w"
      by (rule answer_ok [OF assms(1) i(4)])
    let ?st = "st\<lparr>tm_payload := p, tm_world := w, tm_answers := tm_answers st @ [(uuid (msg full), eaf_errno_state)]\<rparr>"
    have "tm_inv ?st is bs ds" using i(1-3) a(2) by (simp add: tm_inv_def tm_lists_def)
    moreover have "tm_ledger ?st is bs = tm_ledger st is bs + {#uuid (msg full)#}"
      using uu [of "is" ?st] uu [of bs ?st] by (simp add: tm_ledger_def)
    ultimately show thesis using a(1) False assms(3) by - (rule that [of ?st "is"], simp_all add: timer_on_req_delay_def)
  next
    case loop: True
    let ?st1 = "st\<lparr>tm_recs := (tm_recs st)(n \<mapsto> \<lparr>td_req = msg full, td_msec = msec\<rparr>)\<rparr>"
    have "tm_lists ?st1 is bs ds" using i(1) by simp
    then obtain l h where p: "idle_push n ?st1 = Some (?st1\<lparr>idle_queue := l, tm_lheap := h\<rparr>)"
      "tm_lists (?st1\<lparr>idle_queue := l, tm_lheap := h\<rparr>) (is @ [n]) bs ds" by (rule idle_push_ok [OF _ n])
    let ?st2 = "?st1\<lparr>idle_queue := l, tm_lheap := h\<rparr>"
    show thesis
    proof (cases "r < 0")
      case True
      have "n \<in> set (is @ [n])" by simp
      with p(2) obtain k g where t: "idle_take n ?st2 = Some (?st2\<lparr>idle_queue := k, tm_lheap := g\<rparr>)"
        "tm_lists (?st2\<lparr>idle_queue := k, tm_lheap := g\<rparr>) (remove1 n (is @ [n])) bs ds" by (rule idle_take_ok)
      let ?st3 = "?st2\<lparr>idle_queue := k, tm_lheap := g\<rparr>"
      obtain q w where a: "timer_send_delay_rsp E from (msg full) eaf_errno_unknown ?st3 =
          Some (?st3\<lparr>tm_payload := q, tm_world := w, tm_answers := tm_answers ?st3 @ [(uuid (msg full), eaf_errno_unknown)]\<rparr>)" "winv w"
        by (rule answer_ok [OF assms(1), of ?st3]) (use i(4) in simp)
      let ?st = "tm_free n (?st3\<lparr>tm_payload := q, tm_world := w, tm_answers := tm_answers st @ [(uuid (msg full), eaf_errno_unknown)]\<rparr>)"
      have rm: "remove1 n (is @ [n]) = is" using n by (simp add: remove1_append)
      have "tm_inv ?st is bs ds" using t(2) rm i(2,3) a(2) n by (auto simp: tm_inv_def tm_free_def tm_lists_def)
      moreover have "tm_uuids ?st is = tm_uuids st is" "tm_uuids ?st bs = tm_uuids st bs"
        by (rule uu; use n in \<open>auto simp: tm_free_def\<close>)+
      moreover have "tm_answers ?st = tm_answers st @ [(uuid (msg full), eaf_errno_unknown)]" by (simp add: tm_free_def)
      ultimately have "tm_inv ?st is bs ds" "tm_ledger ?st is bs = tm_ledger st is bs + {#uuid (msg full)#}" by (simp_all add: tm_ledger_def)
      then show thesis using loop True assms(3,4) p(1) t(1) a(1)
        by - (rule that [of ?st "is"], simp_all add: timer_on_req_delay_def eaf_msg_get_data_def tm_free_def)
    next
      case False
      have "tm_inv ?st2 (is @ [n]) bs ds" using p(2) i(2-4) n by (auto simp: tm_inv_def)
      moreover have "tm_uuids ?st2 is = tm_uuids st is" "tm_uuids ?st2 bs = tm_uuids st bs"
        by (rule uu; use n in auto)+
      then have "tm_ledger ?st2 (is @ [n]) bs = tm_ledger st is bs + {#uuid (msg full)#}" by (simp add: tm_ledger_def)
      ultimately show thesis using loop False assms(3,4) p(1)
        by - (rule that [of ?st2 "is @ [n]"], simp_all add: timer_on_req_delay_def eaf_msg_get_data_def)
    qed
  qed
qed

subsection \<open>Runs\<close>

lemma step_ok:
  assumes "calm_env E" "tm_inv st is bs ds" "tm_step E st us st'"
  shows "\<exists>is' bs' ds'. tm_inv st' is' bs' ds' \<and> tm_ledger st' is' bs' \<subseteq># tm_ledger st is bs + mset us \<and>
    (tm_looping st' \<longrightarrow> tm_looping st \<and> tm_ledger st' is' bs' = tm_ledger st is bs + mset us)"
  using assms(3)
proof cases
  case (request m full n r msec src)
  show ?thesis by (rule request_ok [OF assms(1,2) request(2,3,4), of r msec src]) (use request(1,5) in \<open>auto intro!: exI\<close>)
next
  case (notify ri rs)
  show ?thesis
  proof (cases "tm_looping st")
    case True
    then have "handle_idle_loop E ri rs st = Some st'" using notify(2) by (simp add: timer_on_uv_notify_def)
    with handle_idle_ok [OF assms(1,2), of ri rs] obtain bs' ds' where "tm_inv st' [] bs' ds'" "tm_ledger st' [] bs' = tm_ledger st is bs"
      by auto
    then show ?thesis using True notify(1) by (auto intro!: exI)
  next
    case False
    obtain ds' where c: "tm_inv st' [] [] ds'" "tm_answers st' = tm_answers st" "tm_looping st' = tm_looping st"
      by (rule close_all_ok [OF assms(2)]) (use notify(2) False in \<open>auto simp: timer_on_uv_notify_def\<close>)
    have "tm_ledger st' [] [] \<subseteq># tm_ledger st is bs" using c(2) by (simp add: tm_ledger_def)
    then show ?thesis using c notify False by (auto intro!: exI)
  qed
next
  case (fire n)
  have n: "n \<in> set bs" using tm_invD(3) [OF assms(2), of n] fire(2) by (auto split: if_splits)
  obtain r where r: "tm_recs st n = Some r" using tm_invD(2) [OF assms(2)] n by (cases "tm_recs st n") auto
  show ?thesis by (rule active_ok [OF assms(1,2) n r]) (use fire(1,3) in \<open>auto intro!: exI\<close>)
next
  case (closed n)
  have n: "n \<in> set ds" using tm_invD(3) [OF assms(2), of n] closed(2) by (auto split: if_splits)
  show ?thesis by (rule closed_ok [OF assms(2) n]) (use closed(1,3) in \<open>auto intro!: exI\<close>)
next
  case exit
  then have "tm_inv st' is bs ds" "tm_ledger st' is bs = tm_ledger st is bs"
    using assms(2) by (simp_all add: tm_inv_def timer_on_exit_def tm_ledger_def tm_uuids_def)
  then show ?thesis using exit by (auto simp: timer_on_exit_def intro!: exI)
next
  case (others w)
  then have "tm_inv st' is bs ds" "tm_ledger st' is bs = tm_ledger st is bs"
    using assms(2) by (simp_all add: tm_inv_def tm_ledger_def tm_uuids_def)
  then show ?thesis using others by (auto intro!: exI)
qed

lemma run_ok:
  assumes "calm_env E" "tm_run E st us st'" "tm_inv st is bs ds"
  shows "\<exists>is' bs' ds'. tm_inv st' is' bs' ds' \<and> tm_ledger st' is' bs' \<subseteq># tm_ledger st is bs + mset us \<and>
    (tm_looping st' \<longrightarrow> tm_ledger st' is' bs' = tm_ledger st is bs + mset us)"
  using assms(2,3)
proof induction
  case (start st)
  then show ?case by auto
next
  case (step st us st1 vs st2)
  obtain is1 bs1 ds1 where a: "tm_inv st1 is1 bs1 ds1" "tm_ledger st1 is1 bs1 \<subseteq># tm_ledger st is bs + mset us"
    "tm_looping st1 \<longrightarrow> tm_ledger st1 is1 bs1 = tm_ledger st is bs + mset us" using step.IH [OF step.prems] by blast
  obtain is2 bs2 ds2 where b: "tm_inv st2 is2 bs2 ds2" "tm_ledger st2 is2 bs2 \<subseteq># tm_ledger st1 is1 bs1 + mset vs"
    "tm_looping st2 \<longrightarrow> tm_looping st1 \<and> tm_ledger st2 is2 bs2 = tm_ledger st1 is1 bs1 + mset vs"
    using step_ok [OF assms(1) a(1) step.hyps(2)] by blast
  have "tm_ledger st2 is2 bs2 \<subseteq># tm_ledger st is bs + mset (us @ vs)"
    using subset_mset.order_trans [OF b(2) mset_subset_eq_mono_add [OF a(2) subset_mset.order_refl, of "mset vs"]] by (simp add: ac_simps)
  moreover have "tm_looping st2 \<longrightarrow> tm_ledger st2 is2 bs2 = tm_ledger st is bs + mset (us @ vs)" using a(3) b(3) by auto
  ultimately show ?case using b(1) by blast
qed

lemma start_inv: "winv w \<Longrightarrow> tm_inv (timer_on_init (g_timer_ctx w)) [] [] [] \<and> tm_ledger (timer_on_init (g_timer_ctx w)) [] [] = {#}"
  by (auto simp: tm_inv_def tm_ledger_def tm_lists_def lists3_def timer_on_init_def g_timer_ctx_def list_rep_init)

text \<open>A run of the timer, from its start in a world of the runtime.\<close>

definition tm_reach :: "env \<Rightarrow> u64 list \<Rightarrow> timer_state \<Rightarrow> bool" where
  "tm_reach E us st \<longleftrightarrow> (\<exists>w. winv w \<and> tm_run E (timer_on_init (g_timer_ctx w)) us st)"

lemma reach_ok:
  assumes "calm_env E" "tm_reach E us st"
  obtains "is" bs ds where "tm_inv st is bs ds" "tm_ledger st is bs \<subseteq># mset us" "tm_looping st \<longrightarrow> tm_ledger st is bs = mset us"
proof -
  obtain w where w: "winv w" "tm_run E (timer_on_init (g_timer_ctx w)) us st" using assms(2) by (auto simp: tm_reach_def)
  note i = start_inv [OF w(1)]
  show thesis using run_ok [OF assms(1) w(2) conjunct1 [OF i]] i that by auto
qed

text \<open>C30: In every reachable state of the timer service the three queues are well formed, every record is in
  one of them, the busy ones have a running libuv timer and the dead ones a closing one. As long as the
  service has not exited, the requests received are the requests answered and the ones waiting, each
  counted as often as it occurs: none is lost and none answered twice. After the exit none is answered twice.\<close>

theorem timer_ledger:
  assumes "calm_env E" "tm_reach E us st"
  shows "\<exists>is bs ds. tm_inv st is bs ds \<and> tm_ledger st is bs \<subseteq># mset us \<and> (tm_looping st \<longrightarrow> tm_ledger st is bs = mset us)"
  by (rule reach_ok [OF assms]) blast


lemma closings_ok:
  assumes "tm_inv st [] [] ds" "distinct ns" "set ns = set ds"
  obtains st' where "foldl (\<lambda>x n. x \<bind> timer_on_timer_close n) (Some st) ns = Some st'" "tm_inv st' [] [] []"
    "tm_answers st' = tm_answers st"
  using assms
proof (induction ns arbitrary: st ds thesis)
  case Nil
  then show ?case by simp
next
  case (Cons n ns)
  have n: "n \<in> set ds" using Cons.prems(4) by auto
  obtain st1 where s: "timer_on_timer_close n st = Some st1" "tm_inv st1 [] [] (remove1 n ds)" "tm_answers st1 = tm_answers st"
    by (rule closed_ok [OF Cons.prems(2) n]) auto
  have "distinct ds" using tm_invD(5) [OF Cons.prems(2)] by simp
  then have "set ns = set (remove1 n ds)" using Cons.prems(3,4) by auto
  with s(2) Cons.prems(3) obtain st' where "foldl (\<lambda>x n. x \<bind> timer_on_timer_close n) (Some st1) ns = Some st'" "tm_inv st' [] [] []"
    "tm_answers st' = tm_answers st1" by (metis Cons.IH distinct.simps(2))
  then show ?case using Cons.prems(1) s by simp
qed

text \<open>C32: The exit of the timer service ends. From any reachable state, after \<open>_timer_on_exit\<close> has told the
  loop of libuv and the loop has taken the notice, no timer runs; once libuv has called back for the timers
  it closes, in any order, nothing is left to wait for, the assertions of \<open>_timer_on_libuv_loop_exit\<close>
  hold and every record is freed. No request is answered by that: those that waited get no response.\<close>

theorem timer_exit_ends:
  assumes "calm_env E" "tm_reach E us st"
  shows "\<exists>st1. timer_on_uv_notify E ri rs (timer_on_exit st) = Some st1 \<and> tm_answers st1 = tm_answers st \<and>
    (\<forall>n. tm_uv st1 n \<noteq> Some UV_started) \<and>
    (\<forall>ns. distinct ns \<and> set ns = {n. tm_uv st1 n = Some UV_closing} \<longrightarrow>
      (\<exists>st2. foldl (\<lambda>x n. x \<bind> timer_on_timer_close n) (Some st1) ns = Some st2 \<and> \<not> timer_exit_waits st2 \<and>
        timer_on_libuv_loop_exit st2 = Some st2 \<and> tm_recs st2 = (\<lambda>_. None) \<and> tm_answers st2 = tm_answers st))"
proof -
  obtain "is" bs ds where i: "tm_inv st is bs ds" by (rule reach_ok [OF assms])
  have "tm_inv (timer_on_exit st) is bs ds" using i by (simp add: tm_inv_def timer_on_exit_def)
  then obtain st1 ds' where c: "timer_close_all_timer (timer_on_exit st) = Some st1" "tm_inv st1 [] [] ds'"
    "tm_answers st1 = tm_answers (timer_on_exit st)" by (rule close_all_ok)
  have closing: "{n. tm_uv st1 n = Some UV_closing} = set ds'" "\<forall>n. tm_uv st1 n \<noteq> Some UV_started" using tm_invD(3) [OF c(2)] by auto
  have "\<exists>st2. foldl (\<lambda>x n. x \<bind> timer_on_timer_close n) (Some st1) ns = Some st2 \<and> \<not> timer_exit_waits st2 \<and>
      timer_on_libuv_loop_exit st2 = Some st2 \<and> tm_recs st2 = (\<lambda>_. None) \<and> tm_answers st2 = tm_answers st"
    if that: "distinct ns" "set ns = {n. tm_uv st1 n = Some UV_closing}" for ns
  proof -
    have "set ns = set ds'" using that(2) closing(1) by simp
    then obtain st2 where e: "foldl (\<lambda>x n. x \<bind> timer_on_timer_close n) (Some st1) ns = Some st2" "tm_inv st2 [] [] []"
      "tm_answers st2 = tm_answers st1" using closings_ok [OF c(2) \<open>distinct ns\<close>] by blast
    have "list_rep (idle_queue st2, tm_lheap st2) []" "list_rep (busy_queue st2, tm_lheap st2) []" "list_rep (dead_queue st2, tm_lheap st2) []"
      using tm_invD(1) [OF e(2)] by (simp_all add: tm_lists_def lists3_def)
    then have "lsize (idle_queue st2) = 0" "lsize (busy_queue st2) = 0" "lsize (dead_queue st2) = 0" by (simp_all add: list_rep_def)
    then show ?thesis using e tm_invD(2) [OF e(2)] c(3)
      by (simp add: timer_exit_waits_def timer_on_libuv_loop_exit_def eaf_list_size_def timer_on_exit_def)
  qed
  then show ?thesis using c closing(2) by (simp add: timer_on_uv_notify_def timer_on_exit_def)
qed

subsection \<open>Witnesses\<close>

text \<open>A request that waits: message 9 of the runtime's heap, in the record at 500.\<close>

definition demo_delay :: eaf_msg_full where
  "demo_delay = \<lparr>msg = \<lparr>msg_id = 1, msg_from = 2, encs = EAF_MSG_ENCS_REQ, uuid = 9, orig = 6\<rparr>, refcnt = 1, data_size = 4\<rparr>"

definition with_delay :: "world \<Rightarrow> world" where
  "with_delay w = w\<lparr>w_mheap := (w_mheap w)(9 \<mapsto> demo_delay)\<rparr>"

lemma tm_demo:
  obtains st where "tm_reach base_env [9] st" "tm_looping st" "tm_uv st 500 = Some UV_started"
proof -
  let ?start = "\<lambda>w. timer_on_init (g_timer_ctx (with_delay w))"
  let ?req = "\<lambda>w. timer_on_req_delay base_env (Some 500) 0 1 2 9 (?start w)"
  let ?run = "\<lambda>w. ?req w \<bind> timer_on_uv_notify base_env (\<lambda>_. 0) (\<lambda>_. 0)"
  have "map_option (\<lambda>(w, ph, l). (w_mheap w 9, map_option (\<lambda>st. (tm_looping st, tm_uv st 500)) (?run w))) (sys_demo demo_yielded) =
    Some (None, Some (True, Some UV_started))" by code_simp
  then obtain w ph l st where s: "sys_demo demo_yielded = Some (w, ph, l)" "w_mheap w 9 = None" "?run w = Some st"
    "tm_looping st" "tm_uv st 500 = Some UV_started" by auto
  have inv: "winv w" using reachable_inv [OF demo_user demo_finite demo_reachable [OF s(1)]] by simp
  have ok: "winv (with_delay w)" unfolding with_delay_def
    by (rule winv_mheap [OF inv]) (use s(2) finite_heap [OF inv] in \<open>auto simp: refs_def\<close>)
  obtain st1 where r: "?req w = Some st1" "timer_on_uv_notify base_env (\<lambda>_. 0) (\<lambda>_. 0) st1 = Some st"
    using s(3) by (cases "?req w") auto
  have "w_mheap (tm_world (?start w)) 9 = Some demo_delay" "tm_recs (?start w) 500 = None"
    by (simp_all add: timer_on_init_def g_timer_ctx_def with_delay_def)
  then have "tm_step base_env (?start w) [uuid (msg demo_delay)] st1"
    by (intro tm_step.request [OF _ _ _ r(1)]) (simp_all add: demo_delay_def)
  then have "tm_run base_env (?start w) ([] @ [uuid (msg demo_delay)]) st1" by (rule tm_run.step [OF tm_run.start])
  then have "tm_run base_env (?start w) (([] @ [uuid (msg demo_delay)]) @ []) st" by (rule tm_run.step [OF _ tm_step.notify [OF r(2)]])
  then have "tm_reach base_env [9] st" using ok by (auto simp: tm_reach_def demo_delay_def)
  then show thesis by (rule that [OF _ s(4,5)])
qed

theorem timer_ledger_witness:
  "\<exists>st is bs ds. tm_reach base_env [9] st \<and> tm_looping st \<and> tm_inv st is bs ds \<and> tm_ledger st is bs = {#9#}"
proof -
  obtain st where s: "tm_reach base_env [9] st" "tm_looping st" by (rule tm_demo)
  then show ?thesis using timer_ledger [OF calm_base s(1)] by auto
qed


theorem timer_exit_ends_witness:
  "\<exists>st st1. tm_reach base_env [9] st \<and> tm_uv st 500 = Some UV_started \<and>
     timer_on_uv_notify base_env (\<lambda>_. 0) (\<lambda>_. 0) (timer_on_exit st) = Some st1 \<and> tm_uv st1 500 \<noteq> Some UV_started"
proof -
  obtain st where s: "tm_reach base_env [9] st" "tm_uv st 500 = Some UV_started" by (rule tm_demo)
  then show ?thesis using timer_exit_ends [OF calm_base s(1), of "\<lambda>_. 0" "\<lambda>_. 0"] by auto
qed

end
