(* ===== verification/Net.thy ===== *)
theory Net
  imports MapTable DList ServiceProgram
begin

text \<open>
  Waiting for a socket, \<open>powerpack/net.c\<close>. A service that calls \<open>eaf_socket_wait\<close> sets up a record with a
  libuv poll handle and a libuv timer, yields, and starts both handles; the first that fires stores the
  event for the service, resumes it and closes both handles, after which the record is freed.

  State. \<open>net_state\<close> holds \<open>powerpack_net_ctx_t\<close> with the table of the waits and the queue of the records
  that are being closed, each with its node heap (the code has the nodes in a union: a record is never in
  both), the records, the handles by their address, and the world of the runtime. The offsets of the
  two handles in a record come from libuv's structures and are a parameter, as are the results of libuv and
  \<open>malloc\<close>. The lock has no effect, as every operation is one atomic step. \<open>None\<close> is undefined behaviour.
\<close>

subsection \<open>State\<close>

record net_record =
  nr_data :: poll_data
  nr_refcnt :: u32

text \<open>A handle is initialised, watches a socket for input and output, counts down or is being closed.\<close>

datatype uv_handle = H_init | H_poll bool bool | H_timer u32 | H_closing

record net_layout =
  off_uv_poll :: nat
  off_uv_timer :: nat
  sizeof_poll_record :: nat

record net_state =
  net_ctx :: bool
  table_poll :: "unit eaf_map"
  queue_gc :: elist
  net_rb :: rb_heap
  net_lheap :: lheap
  net_recs :: "addr \<Rightarrow> net_record option"
  net_uv :: "addr \<Rightarrow> uv_handle option"
  net_world :: world

definition eaf_socket_event_in :: u32 where "eaf_socket_event_in = 1"
definition eaf_socket_event_out :: u32 where "eaf_socket_event_out = 2"
definition eaf_socket_event_timeout :: u32 where "eaf_socket_event_timeout = 4"
definition eaf_socket_event_error :: u32 where "eaf_socket_event_error = 8"

text \<open>The union \<open>unsafe[0]\<close> of a service: its member \<open>v_d32\<close> is the low half, which is also what \<open>(int)v_long\<close>
  reads.\<close>

definition write_d32 :: "u32 \<Rightarrow> u64 \<Rightarrow> u64" where
  "write_d32 x u = or (and u 0xFFFFFFFF00000000) (ucast x)"

definition eaf_socket_wait_result :: "service \<Rightarrow> int" where
  "eaf_socket_wait_result v = sint (ucast (s_unsafe v) :: u32)"

subsection \<open>The critical sections\<close>

definition net_cmp :: "(addr \<Rightarrow> net_record option) \<Rightarrow> unit eaf_map \<Rightarrow> unit eaf_map" where
  "net_cmp R m = m\<lparr>cmp_fn := net_on_cmp_record (\<lambda>a. nr_data (the (R a)))\<rparr>"

definition poll_insert :: "addr \<Rightarrow> net_state \<Rightarrow> (int \<times> net_state) option" where
  "poll_insert n st =
     (if \<not> net_ctx st then None
      else do {
        (ret, m, h) \<leftarrow> eaf_map_insert (net_cmp (net_recs st) (table_poll st)) n (net_rb st);
        Some (ret, st\<lparr>table_poll := m, net_rb := h\<rparr>) })"

definition poll_erase :: "addr \<Rightarrow> net_state \<Rightarrow> net_state option" where
  "poll_erase n st =
     (if \<not> net_ctx st then None
      else do {
        (m, h) \<leftarrow> eaf_map_erase (table_poll st) n (net_rb st);
        Some (st\<lparr>table_poll := m, net_rb := h\<rparr>) })"

definition poll_find :: "addr \<Rightarrow> u32 \<Rightarrow> net_state \<Rightarrow> ptr option" where
  "poll_find tmp i st =
     (let key = \<lparr>nr_data = \<lparr>pd_local = None, pd_id = i, pd_sock = 0, pd_evts = 0, pd_timeout = 0\<rparr>, nr_refcnt = 0\<rparr> in
      if \<not> net_ctx st then None
      else eaf_map_find (net_cmp ((net_recs st)(tmp \<mapsto> key)) (table_poll st)) tmp (net_rb st))"

definition gc_push :: "addr \<Rightarrow> net_state \<Rightarrow> net_state option" where
  "gc_push n st =
     (if \<not> net_ctx st then None
      else do {
        (l, h) \<leftarrow> eaf_list_push_back (queue_gc st) (net_lheap st) n;
        Some (st\<lparr>queue_gc := l, net_lheap := h\<rparr>) })"

definition gc_erase :: "addr \<Rightarrow> net_state \<Rightarrow> net_state option" where
  "gc_erase n st =
     (if \<not> net_ctx st then None
      else do {
        (l, h) \<leftarrow> eaf_list_erase (queue_gc st) (net_lheap st) n;
        Some (st\<lparr>queue_gc := l, net_lheap := h\<rparr>) })"

subsection \<open>libuv\<close>

text \<open>\<open>uv_close\<close> needs a handle that has been initialised and is not being closed.\<close>

definition net_uv_set :: "addr \<Rightarrow> uv_handle \<Rightarrow> net_state \<Rightarrow> net_state" where
  "net_uv_set handle s st = st\<lparr>net_uv := (net_uv st)(handle \<mapsto> s)\<rparr>"

definition net_uv_close :: "addr \<Rightarrow> net_state \<Rightarrow> net_state option" where
  "net_uv_close handle st =
     (case net_uv st handle of
        None \<Rightarrow> None
      | Some H_closing \<Rightarrow> None
      | _ \<Rightarrow> Some (net_uv_set handle H_closing st))"

definition net_uv_stop :: "addr \<Rightarrow> net_state \<Rightarrow> net_state" where
  "net_uv_stop handle st = st\<lparr>net_uv := (net_uv st)(handle := map_option (\<lambda>_. H_init) (net_uv st handle))\<rparr>"

subsection \<open>Closing\<close>

text \<open>The callback of both handles, called when one of them has been closed.\<close>

definition powerpack_net_on_poll_close :: "net_layout \<Rightarrow> addr \<Rightarrow> net_state \<Rightarrow> net_state option" where
  "powerpack_net_on_poll_close L handle st =
     (let st = st\<lparr>net_uv := (net_uv st)(handle := None)\<rparr>; rec = handle - off_uv_poll L in
      do {
        r \<leftarrow> net_recs st rec;
        let n = nr_refcnt r - 1;
        let st = st\<lparr>net_recs := (net_recs st)(rec \<mapsto> r\<lparr>nr_refcnt := n\<rparr>)\<rparr>;
        if n \<noteq> 0 then Some st
        else do {
          st \<leftarrow> gc_erase rec st;
          Some (st\<lparr>net_recs := (net_recs st)(rec := None)\<rparr>) } })"

definition powerpack_net_move_to_gc_queue_lock :: "addr \<Rightarrow> net_state \<Rightarrow> net_state option" where
  "powerpack_net_move_to_gc_queue_lock rec st = do { st \<leftarrow> poll_erase rec st; gc_push rec st }"

definition powerpack_net_cleanup :: "net_layout \<Rightarrow> addr \<Rightarrow> net_state \<Rightarrow> net_state option" where
  "powerpack_net_cleanup L rec st = do {
     st \<leftarrow> powerpack_net_move_to_gc_queue_lock rec st;
     let st = net_uv_stop (rec + off_uv_poll L) st;
     let st = net_uv_stop (rec + off_uv_timer L) st;
     st \<leftarrow> net_uv_close (rec + off_uv_poll L) st;
     net_uv_close (rec + off_uv_timer L) st }"

subsection \<open>Events\<close>

definition store_result :: "nat \<times> nat \<Rightarrow> u32 \<Rightarrow> net_state \<Rightarrow> net_state option" where
  "store_result local ret st = do {
     v \<leftarrow> srv (net_world st) local;
     let u = write_d32 ret (s_unsafe v);
     Some (st\<lparr>net_world := upd_srv local (\<lambda>v. v\<lparr>s_unsafe := u\<rparr>) (net_world st)\<rparr>) }"

text \<open>The events are given as two flags, the tests of \<open>UV_READABLE\<close> and \<open>UV_WRITABLE\<close>.\<close>

definition powerpack_net_on_uv_poll :: "env \<Rightarrow> net_layout \<Rightarrow> addr \<Rightarrow> int \<Rightarrow> bool \<Rightarrow> bool \<Rightarrow> net_state \<Rightarrow> net_state option" where
  "powerpack_net_on_uv_poll E L handle status readable writable st =
     (let rec = handle - off_uv_poll L;
          ret = (if status < 0 then eaf_socket_event_error else 0);
          ret = or ret (if readable then eaf_socket_event_in else 0);
          ret = or ret (if writable then eaf_socket_event_out else 0) in
      do {
        r \<leftarrow> net_recs st rec;
        local \<leftarrow> pd_local (nr_data r);
        st \<leftarrow> store_result local ret st;
        (_, w) \<leftarrow> eaf_resume E (pd_id (nr_data r)) (net_world st);
        powerpack_net_cleanup L rec (st\<lparr>net_world := w\<rparr>) })"

definition powerpack_net_on_timer :: "env \<Rightarrow> net_layout \<Rightarrow> addr \<Rightarrow> net_state \<Rightarrow> net_state option" where
  "powerpack_net_on_timer E L handle st =
     (let rec = handle - off_uv_timer L in
      do {
        r \<leftarrow> net_recs st rec;
        local \<leftarrow> pd_local (nr_data r);
        st \<leftarrow> store_result local eaf_socket_event_timeout st;
        (_, w) \<leftarrow> eaf_resume E (pd_id (nr_data r)) (net_world st);
        powerpack_net_cleanup L rec (st\<lparr>net_world := w\<rparr>) })"

subsection \<open>Start and end\<close>

definition eaf_powerpack_net_init :: "bool \<Rightarrow> bool \<Rightarrow> net_state \<Rightarrow> int \<times> net_state" where
  "eaf_powerpack_net_init allocated lock_created st =
     (if net_ctx st then (eaf_errno_duplicate, st)
      else if \<not> allocated \<or> \<not> lock_created then (eaf_errno_memory, st)
      else (eaf_errno_success, st\<lparr>net_ctx := True,
        table_poll := eaf_map_init (net_on_cmp_record (\<lambda>a. undefined)) (), queue_gc := eaf_list_init\<rparr>))"

definition eaf_powerpack_net_exit :: "net_state \<Rightarrow> net_state" where
  "eaf_powerpack_net_exit st = (if \<not> net_ctx st then st else st\<lparr>net_ctx := False\<rparr>)"

subsection \<open>Waiting\<close>

definition powerpack_net_append_to_gc_lock :: "addr \<Rightarrow> net_state \<Rightarrow> net_state option" where
  "powerpack_net_append_to_gc_lock rec st = gc_push rec st"

definition eaf_powerpack_net_socket_wait_setup ::
  "net_layout \<Rightarrow> ptr \<Rightarrow> int \<Rightarrow> int \<Rightarrow> u32 \<Rightarrow> int \<Rightarrow> u32 \<Rightarrow> u32 \<Rightarrow> net_state \<Rightarrow> (int \<times> net_state) option" where
  "eaf_powerpack_net_socket_wait_setup L mem uv_timer_init_ret uv_poll_init_ret i sock evts timeout st =
     (case mem of
        None \<Rightarrow> Some (eaf_errno_memory, st)
      | Some rec \<Rightarrow>
          let data = \<lparr>pd_local = None, pd_id = i, pd_sock = sock, pd_evts = evts, pd_timeout = timeout\<rparr>;
              st = st\<lparr>net_recs := (net_recs st)(rec \<mapsto> \<lparr>nr_data = data, nr_refcnt = 2\<rparr>)\<rparr> in
          if uv_timer_init_ret < 0 then Some (eaf_errno_unknown, st\<lparr>net_recs := (net_recs st)(rec := None)\<rparr>)
          else let st = net_uv_set (rec + off_uv_timer L) H_init st in
          if uv_poll_init_ret < 0 then do {
            let st = st\<lparr>net_recs := (net_recs st)(rec \<mapsto> \<lparr>nr_data = data, nr_refcnt = 1\<rparr>)\<rparr>;
            st \<leftarrow> powerpack_net_append_to_gc_lock rec st;
            st \<leftarrow> net_uv_close (rec + off_uv_poll L) st;
            Some (eaf_errno_unknown, st) }
          else do {
            let st = net_uv_set (rec + off_uv_poll L) H_init st;
            (res, st) \<leftarrow> poll_insert rec st;
            if res < 0 then do {
              st \<leftarrow> powerpack_net_append_to_gc_lock rec st;
              st \<leftarrow> net_uv_close (rec + off_uv_poll L) st;
              st \<leftarrow> net_uv_close (rec + off_uv_timer L) st;
              Some (eaf_errno_duplicate, st) }
            else Some (eaf_errno_success, st) })"

definition eaf_powerpack_net_socket_wait_commit ::
  "env \<Rightarrow> net_layout \<Rightarrow> addr \<Rightarrow> int \<Rightarrow> int \<Rightarrow> nat \<times> nat \<Rightarrow> net_state \<Rightarrow> net_state option" where
  "eaf_powerpack_net_socket_wait_commit E L tmp_key uv_poll_start_ret uv_timer_start_ret local st = do {
     v \<leftarrow> srv (net_world st) local;
     it \<leftarrow> poll_find tmp_key (s_id v) st;
     case it of
       None \<Rightarrow> do { (_, w) \<leftarrow> eaf_resume E (s_id v) (net_world st); Some (st\<lparr>net_world := w\<rparr>) }
     | Some rec \<Rightarrow> do {
         r \<leftarrow> net_recs st rec;
         let d = (nr_data r)\<lparr>pd_local := Some local\<rparr>;
         let st = st\<lparr>net_recs := (net_recs st)(rec \<mapsto> r\<lparr>nr_data := d\<rparr>)\<rparr>;
         let cleanup = (\<lambda>st. do {
           st \<leftarrow> powerpack_net_cleanup L rec st;
           (_, w) \<leftarrow> eaf_resume E (s_id v) (net_world st);
           Some (st\<lparr>net_world := w\<rparr>) });
         if uv_poll_start_ret < 0 then cleanup st
         else do {
           let st = net_uv_set (rec + off_uv_poll L)
             (H_poll (and (pd_evts d) eaf_socket_event_in \<noteq> 0) (and (pd_evts d) eaf_socket_event_out \<noteq> 0)) st;
           if uv_timer_start_ret < 0 then cleanup st
           else Some (net_uv_set (rec + off_uv_timer L) (H_timer (pd_timeout d)) st) } } }"

end
