(* ===== verification/NetProps.thy ===== *)
theory NetProps
  imports Net ServiceClient ServiceProps
begin

text \<open>
  The properties of waiting for a socket: the table holds the open waits and the queue the closed ones
  (\<open>net_ok\<close>), a wait ends with the event of the socket or the timeout, and what goes wrong in setting up, in
  starting the handles and in closing them.
\<close>

subsection \<open>The invariant\<close>

abbreviation net_key :: "(addr \<Rightarrow> net_record option) \<Rightarrow> addr \<Rightarrow> u32" where
  "net_key R \<equiv> \<lambda>a. pd_id (nr_data (the (R a)))"

text \<open>Records are blocks of memory that do not overlap, with the poll handle before the timer.\<close>

definition blocks :: "net_layout \<Rightarrow> addr set \<Rightarrow> bool" where
  "blocks L A \<longleftrightarrow> off_uv_poll L < off_uv_timer L \<and> off_uv_timer L < sizeof_poll_record L \<and>
     (\<forall>a \<in> A. \<forall>b \<in> A. a < b \<longrightarrow> a + sizeof_poll_record L \<le> b)"

lemma blocks_subset: "blocks L A \<Longrightarrow> B \<subseteq> A \<Longrightarrow> blocks L B"
  unfolding blocks_def by blast

lemma blocks_handles:
  assumes "blocks L A" "a \<in> A" "b \<in> A" "a \<noteq> b"
  shows "a + off_uv_poll L \<noteq> b + off_uv_poll L" "a + off_uv_poll L \<noteq> b + off_uv_timer L"
    "a + off_uv_timer L \<noteq> b + off_uv_poll L" "a + off_uv_timer L \<noteq> b + off_uv_timer L"
proof -
  have "a + sizeof_poll_record L \<le> b \<or> b + sizeof_poll_record L \<le> a"
    using assms unfolding blocks_def by (meson linorder_neqE_nat)
  then show "a + off_uv_poll L \<noteq> b + off_uv_timer L" "a + off_uv_timer L \<noteq> b + off_uv_poll L"
    using assms(1) unfolding blocks_def by linarith+
qed (use assms(4) in simp_all)

definition opened :: "uv_handle option \<Rightarrow> bool" where
  "opened u \<longleftrightarrow> u \<noteq> None \<and> u \<noteq> Some H_closing"

lemma opened_simps [simp]: "opened (Some H_init)" "opened (Some (H_poll i j))" "opened (Some (H_timer t))" "\<not> opened (Some H_closing)" "\<not> opened None"
  by (simp_all add: opened_def)

definition net_ok :: "net_layout \<Rightarrow> net_state \<Rightarrow> addr list \<Rightarrow> addr list \<Rightarrow> bool" where
  "net_ok L st ts qs \<longleftrightarrow> net_ctx st \<and> map_ok (net_key (net_recs st)) (net_rb st) (table_poll st) ts \<and>
     list_rep (queue_gc st, net_lheap st) qs \<and> set ts \<inter> set qs = {} \<and> dom (net_recs st) = set ts \<union> set qs \<and>
     (\<forall>a \<in> set ts. nr_refcnt (the (net_recs st a)) = 2 \<and> opened (net_uv st (a + off_uv_poll L)) \<and> opened (net_uv st (a + off_uv_timer L))) \<and>
     blocks L (set ts \<union> set qs) \<and> winv (net_world st)"

lemma net_okD:
  assumes "net_ok L st ts qs"
  shows "net_ctx st" "map_ok (net_key (net_recs st)) (net_rb st) (table_poll st) ts" "list_rep (queue_gc st, net_lheap st) qs"
    "set ts \<inter> set qs = {}" "dom (net_recs st) = set ts \<union> set qs"
    "\<And>a. a \<in> set ts \<Longrightarrow> nr_refcnt (the (net_recs st a)) = 2 \<and> opened (net_uv st (a + off_uv_poll L)) \<and> opened (net_uv st (a + off_uv_timer L))"
    "blocks L (set ts \<union> set qs)" "winv (net_world st)"
  using assms by (simp_all add: net_ok_def)

lemma net_ok_world: "net_ok L st ts qs \<Longrightarrow> winv w \<Longrightarrow> net_ok L (st\<lparr>net_world := w\<rparr>) ts qs"
  by (simp add: net_ok_def)

text \<open>A handle of a record changes its state; a record changes, but not its identifier.\<close>

lemma net_ok_uv:
  assumes "net_ok L st ts qs" "opened (Some s)"
  shows "net_ok L (net_uv_set handle s st) ts qs"
  using assms by (simp add: net_ok_def net_uv_set_def)

lemma net_ok_rec:
  assumes "net_ok L st ts qs" "a \<in> dom (net_recs st)" "pd_id (nr_data r) = net_key (net_recs st) a" "nr_refcnt r = nr_refcnt (the (net_recs st a))"
  shows "net_ok L (st\<lparr>net_recs := (net_recs st)(a \<mapsto> r)\<rparr>) ts qs"
proof -
  note n = net_okD [OF assms(1)]
  have "map_ok (net_key ((net_recs st)(a \<mapsto> r))) (net_rb st) (table_poll st) ts"
    by (rule map_ok_key [OF n(2)]) (use assms(3) in simp)
  moreover have "dom ((net_recs st)(a \<mapsto> r)) = dom (net_recs st)" using assms(2) by auto
  ultimately show ?thesis using n assms(4) by (simp add: net_ok_def)
qed

text \<open>A record moves from the table to the queue and both handles are closed.\<close>

lemma cleanup_ok:
  assumes "net_ok L st ts qs" "n \<in> set ts"
  shows "\<exists>st'. powerpack_net_cleanup L n st = Some st' \<and> net_ok L st' (remove1 n ts) (qs @ [n]) \<and>
    net_uv st' (n + off_uv_poll L) = Some H_closing \<and> net_uv st' (n + off_uv_timer L) = Some H_closing \<and>
    net_recs st' = net_recs st \<and> net_world st' = net_world st"
proof -
  note k = net_okD [OF assms(1)]
  obtain m h where e: "eaf_map_erase (table_poll st) n (net_rb st) = Some (m, h)" "map_ok (net_key (net_recs st)) h m (remove1 n ts)"
    using erase_spec [OF k(2) assms(2)] by blast
  have nq: "n \<notin> set qs" using k(4) assms(2) by auto
  obtain l g where p: "eaf_list_push_back (queue_gc st) (net_lheap st) n = Some (l, g)" "list_rep (l, g) (qs @ [n])"
    using push_back_implements [OF k(3) nq] by (auto simp: implements_def)
  have o: "opened (net_uv st (n + off_uv_poll L))" "opened (net_uv st (n + off_uv_timer L))" using k(6) [OF assms(2)] by auto
  define U where "U = (net_uv st)(n + off_uv_poll L := Some H_closing, n + off_uv_timer L := Some H_closing)"
  let ?st = "st\<lparr>table_poll := m, net_rb := h, queue_gc := l, net_lheap := g, net_uv := U\<rparr>"
  have d: "off_uv_poll L \<noteq> off_uv_timer L" using k(7) by (simp add: blocks_def)
  have run: "powerpack_net_cleanup L n st = Some ?st"
    using e(1) p(1) k(1) o d unfolding U_def
    by (auto simp: powerpack_net_cleanup_def powerpack_net_move_to_gc_queue_lock_def poll_erase_def gc_push_def net_uv_stop_def net_uv_close_def
        net_uv_set_def opened_def fun_upd_twist)
  have dist: "distinct ts" by (rule map_ok_distinct [OF k(2)])
  have "opened (U (a + off_uv_poll L)) \<and> opened (U (a + off_uv_timer L))" if "a \<in> set (remove1 n ts)" for a
  proof -
    have a: "a \<in> set ts" "a \<noteq> n" using that dist by (simp_all add: set_remove1_eq)
    then show ?thesis using k(6) [OF a(1)] blocks_handles [OF k(7), of a n] k(5) assms(2) by (simp add: U_def)
  qed
  moreover have un: "set (remove1 n ts) \<union> set (qs @ [n]) = set ts \<union> set qs" using assms(2) dist by (auto simp: set_remove1_eq)
  moreover have "set (remove1 n ts) \<inter> set (qs @ [n]) = {}" using k(4) dist by (auto simp: set_remove1_eq)
  moreover have "set (remove1 n ts) \<subseteq> set ts" by (rule set_remove1_subset)
  ultimately have "net_ok L ?st (remove1 n ts) (qs @ [n])"
    unfolding net_ok_def un using k e(2) p(2) by auto
  then show ?thesis using run d by (intro exI [of _ ?st]) (simp add: U_def)
qed

subsection \<open>Setting up, starting, events\<close>

lemma setup_ok:
  assumes "net_ok L st ts qs" "n \<notin> dom (net_recs st)" "blocks L (insert n (dom (net_recs st)))" "0 \<le> ti" "0 \<le> pi"
    "Suc (length ts) < 2 ^ 64" "\<forall>a \<in> set ts. net_key (net_recs st) a \<noteq> i"
  shows "\<exists>st'. eaf_powerpack_net_socket_wait_setup L (Some n) ti pi i sock evts timeout st = Some (eaf_errno_success, st') \<and>
    net_recs st' = (net_recs st)(n \<mapsto> \<lparr>nr_data = \<lparr>pd_local = None, pd_id = i, pd_sock = sock, pd_evts = evts, pd_timeout = timeout\<rparr>, nr_refcnt = 2\<rparr>) \<and>
    net_ok L st' (insort_key (net_key (net_recs st')) n ts) qs \<and> net_world st' = net_world st"
proof -
  note k = net_okD [OF assms(1)]
  define R where "R = (net_recs st)(n \<mapsto> \<lparr>nr_data = \<lparr>pd_local = None, pd_id = i, pd_sock = sock, pd_evts = evts, pd_timeout = timeout\<rparr>, nr_refcnt = 2\<rparr>)"
  define U where "U = (net_uv st)(n + off_uv_timer L \<mapsto> H_init, n + off_uv_poll L \<mapsto> H_init)"
  have n: "n \<notin> set ts" "n \<notin> set qs" using assms(2) k(5) by auto
  have keys: "net_key R a \<noteq> net_key R n" if "a \<in> set ts" for a using that n(1) assms(7) by (auto simp: R_def)
  have "map_ok (net_key R) (net_rb st) (table_poll st) ts" by (rule map_ok_key [OF k(2)]) (use n(1) in \<open>auto simp: R_def\<close>)
  from net_map.insert_now [OF this _ n(1) assms(6) keys]
  obtain m h where i: "eaf_map_insert (net_cmp R (table_poll st)) n (net_rb st) = Some (eaf_errno_success, m, h)"
    "map_ok (net_key R) h m (insort_key (net_key R) n ts)" by (auto simp: net_cmp_def)
  let ?st = "st\<lparr>net_recs := R, net_uv := U, table_poll := m, net_rb := h\<rparr>"
  have run: "eaf_powerpack_net_socket_wait_setup L (Some n) ti pi i sock evts timeout st = Some (eaf_errno_success, ?st)"
    using i(1) assms(4,5) k(1) unfolding R_def U_def
    by (simp add: eaf_powerpack_net_socket_wait_setup_def poll_insert_def net_uv_set_def eaf_errno_success_def)
  have "dom R = insert n (dom (net_recs st))" by (auto simp: R_def)
  moreover have "opened (U (a + off_uv_poll L)) \<and> opened (U (a + off_uv_timer L))" if "a \<in> insert n (set ts)" for a
    using that k(6) by (auto simp: U_def opened_def)
  moreover have "nr_refcnt (the (R a)) = 2" if "a \<in> insert n (set ts)" for a using that k(6) by (auto simp: R_def)
  ultimately have "net_ok L ?st (insort_key (net_key R) n ts) qs"
    using k(1,3,4,5,8) i(2) n(2) assms(3) by (auto simp: net_ok_def set_insort_key)
  then show ?thesis using run by (intro exI [of _ ?st]) (simp add: R_def)
qed

lemma poll_find_ok:
  assumes "net_ok L st ts qs" "tmp \<notin> dom (net_recs st)"
  shows "poll_find tmp i st = Some (find (\<lambda>a. net_key (net_recs st) a = i) ts)"
proof -
  note k = net_okD [OF assms(1)]
  let ?key = "\<lparr>nr_data = \<lparr>pd_local = None, pd_id = i, pd_sock = 0, pd_evts = 0, pd_timeout = 0\<rparr>, nr_refcnt = 0\<rparr> :: net_record"
  let ?R = "(net_recs st)(tmp \<mapsto> ?key)"
  have t: "tmp \<notin> set ts" using assms(2) k(5) by auto
  have "map_ok (net_key ?R) (net_rb st) (table_poll st) ts" by (rule map_ok_key [OF k(2)]) (use t in auto)
  from net_map.find_now [OF this, of tmp]
  have "poll_find tmp i st = Some (find (\<lambda>a. net_key ?R a = net_key ?R tmp) ts)" using k(1) by (simp add: poll_find_def net_cmp_def)
  moreover have "find (\<lambda>a. net_key ?R a = net_key ?R tmp) ts = find (\<lambda>a. net_key (net_recs st) a = i) ts"
    by (rule find_cong) (use t in auto)
  ultimately show ?thesis by simp
qed

lemma commit_find:
  assumes "net_ok L st ts qs" "tmp \<notin> dom (net_recs st)" "n \<in> set ts" "net_key (net_recs st) n = i"
  shows "poll_find tmp i st = Some (Some n)"
  using poll_find_ok [OF assms(1,2), of i] find_key [OF assms(3) map_ok_inj [OF net_okD(2) [OF assms(1)]] assms(4)] by simp

lemma commit_ok:
  assumes "net_ok L st ts qs" "tmp \<notin> dom (net_recs st)" "n \<in> set ts" "net_recs st n = Some r"
    "srv (net_world st) s = Some v" "pd_id (nr_data r) = s_id v" "0 \<le> ps" "0 \<le> tr"
  shows "\<exists>st'. eaf_powerpack_net_socket_wait_commit E L tmp ps tr s st = Some st' \<and> net_ok L st' ts qs \<and>
    net_uv st' (n + off_uv_poll L) = Some (H_poll (and (pd_evts (nr_data r)) 1 \<noteq> 0) (and (pd_evts (nr_data r)) 2 \<noteq> 0)) \<and>
    net_uv st' (n + off_uv_timer L) = Some (H_timer (pd_timeout (nr_data r))) \<and>
    net_recs st' = (net_recs st)(n \<mapsto> r\<lparr>nr_data := (nr_data r)\<lparr>pd_local := Some s\<rparr>\<rparr>) \<and> net_world st' = net_world st"
proof -
  note k = net_okD [OF assms(1)]
  let ?r = "r\<lparr>nr_data := (nr_data r)\<lparr>pd_local := Some s\<rparr>\<rparr>"
  let ?st = "net_uv_set (n + off_uv_timer L) (H_timer (pd_timeout (nr_data r)))
    (net_uv_set (n + off_uv_poll L) (H_poll (and (pd_evts (nr_data r)) eaf_socket_event_in \<noteq> 0) (and (pd_evts (nr_data r)) eaf_socket_event_out \<noteq> 0))
      (st\<lparr>net_recs := (net_recs st)(n \<mapsto> ?r)\<rparr>))"
  have "poll_find tmp (s_id v) st = Some (Some n)" by (rule commit_find [OF assms(1-3)]) (use assms(4,6) in simp)
  then have run: "eaf_powerpack_net_socket_wait_commit E L tmp ps tr s st = Some ?st"
    using assms(4,5,7,8) by (simp add: eaf_powerpack_net_socket_wait_commit_def)
  have "net_ok L (st\<lparr>net_recs := (net_recs st)(n \<mapsto> ?r)\<rparr>) ts qs" by (rule net_ok_rec [OF assms(1)]) (use assms(4) in auto)
  then have "net_ok L ?st ts qs" by (intro net_ok_uv) simp_all
  moreover have "off_uv_poll L \<noteq> off_uv_timer L" using k(7) by (simp add: blocks_def)
  ultimately show ?thesis using run
    by (intro exI [of _ ?st]) (simp add: net_uv_set_def eaf_socket_event_in_def eaf_socket_event_out_def)
qed

text \<open>An event: the result is stored, the service resumed and the record cleaned up.\<close>

lemma event_ok:
  assumes "net_ok L st ts qs" "n \<in> set ts" "calm_env E" "eaf_service_find_service i (net_world st) = Some (Some s)"
    "srv (net_world st) s = Some v" "s_state v = eaf_service_state_yield"
  shows "\<exists>w1 w2 st'. store_result s x st = Some (st\<lparr>net_world := w1\<rparr>) \<and> eaf_resume E i w1 = Some (eaf_errno_success, w2) \<and>
    powerpack_net_cleanup L n (st\<lparr>net_world := w2\<rparr>) = Some st' \<and> net_ok L st' (remove1 n ts) (qs @ [n]) \<and>
    net_uv st' (n + off_uv_poll L) = Some H_closing \<and> net_uv st' (n + off_uv_timer L) = Some H_closing \<and>
    frame {} (net_world st) (net_world st') \<and> net_recs st' = net_recs st \<and>
    srv (net_world st') s = Some (v\<lparr>s_unsafe := write_d32 x (s_unsafe v), s_state := eaf_service_state_busy\<rparr>)"
proof -
  note k = net_okD [OF assms(1)]
  let ?u = "write_d32 x (s_unsafe v)"
  let ?w = "upd_srv s (\<lambda>v. v\<lparr>s_unsafe := ?u\<rparr>) (net_world st)"
  note u = unsafe_good [OF k(8) assms(5), where u = ?u]
  have find: "eaf_service_find_service i ?w = Some (Some s)" using assms(4) by (simp add: find_service_upd)
  obtain w where r: "eaf_resume E i ?w = Some (eaf_errno_success, w)" "winv w" "frame {} ?w w"
    "srv w s = Some (v\<lparr>s_unsafe := ?u, s_state := eaf_service_state_busy\<rparr>)"
    using resume_yielded [OF u(1) calm_quiet [OF assms(3)] find u(5)] assms(6) by auto
  obtain st' where "powerpack_net_cleanup L n (st\<lparr>net_world := w\<rparr>) = Some st'" "net_ok L st' (remove1 n ts) (qs @ [n])"
    "net_uv st' (n + off_uv_poll L) = Some H_closing" "net_uv st' (n + off_uv_timer L) = Some H_closing"
    "net_recs st' = net_recs st" "net_world st' = w"
    using cleanup_ok [OF net_ok_world [OF assms(1) r(2)] assms(2)] by auto
  moreover have "store_result s x st = Some (st\<lparr>net_world := ?w\<rparr>)" using assms(5) by (simp add: store_result_def)
  moreover have "frame {} (net_world st) w" by (rule frame_trans [OF u(2) r(3)])
  ultimately show ?thesis using r(1,4)
    by - (rule exI [of _ ?w], rule exI [of _ w], rule exI [of _ st'], simp)
qed

subsection \<open>The properties\<close>

lemma wait_result: "eaf_socket_wait_result (v\<lparr>s_unsafe := write_d32 x u, s_state := b\<rparr>) = sint x"
proof -
  have c: "(0xFFFFFFFF00000000 :: u64) = push_bit 32 (mask 32)" by (simp add: mask_eq_exp_minus_1 push_bit_eq_mult)
  have "ucast (write_d32 x u) = x" unfolding write_d32_def c by (rule bit_word_eqI) (simp add: bit_simps)
  then show ?thesis by (simp add: eaf_socket_wait_result_def)
qed

definition net_resumed :: "nat \<times> nat \<Rightarrow> int \<Rightarrow> net_state \<Rightarrow> bool" where
  "net_resumed s x st \<longleftrightarrow>
     (\<exists>v. srv (net_world st) s = Some v \<and> s_state v = eaf_service_state_busy \<and> eaf_socket_wait_result v = x)"

definition net_closing :: "net_layout \<Rightarrow> addr \<Rightarrow> net_state \<Rightarrow> bool" where
  "net_closing L n st \<longleftrightarrow> net_uv st (n + off_uv_poll L) = Some H_closing \<and> net_uv st (n + off_uv_timer L) = Some H_closing"

text \<open>Whichever handle of the wait in \<open>n\<close> fires in \<open>st\<close>: the service is resumed with the result and both handles
  are closed.\<close>

definition net_fires :: "env \<Rightarrow> net_layout \<Rightarrow> addr \<Rightarrow> addr list \<Rightarrow> addr list \<Rightarrow> nat \<times> nat \<Rightarrow> net_state \<Rightarrow> bool" where
  "net_fires E L n ts qs s st \<longleftrightarrow>
     (\<forall>status readable writable. \<exists>st'. powerpack_net_on_uv_poll E L (n + off_uv_poll L) status readable writable st = Some st' \<and>
       net_resumed s ((if status < 0 then 8 else 0) + (if readable then 1 else 0) + (if writable then 2 else 0)) st' \<and>
       net_ok L st' ts qs \<and> net_closing L n st') \<and>
     (\<exists>st'. powerpack_net_on_timer E L (n + off_uv_timer L) st = Some st' \<and> net_resumed s 4 st' \<and>
       net_ok L st' ts qs \<and> net_closing L n st')"

lemma fired_ok:
  assumes "net_ok L st ts qs" "n \<in> set ts" "calm_env E" "net_recs st n = Some r" "pd_local (nr_data r) = Some s"
    "eaf_service_find_service (pd_id (nr_data r)) (net_world st) = Some (Some s)" "srv (net_world st) s = Some v"
    "s_state v = eaf_service_state_yield"
  shows "net_fires E L n (remove1 n ts) (qs @ [n]) s st"
proof -
  note e = event_ok [OF assms(1-3,6-8)]
  have "\<exists>st'. powerpack_net_on_uv_poll E L (n + off_uv_poll L) status readable writable st = Some st' \<and>
       net_resumed s ((if status < 0 then 8 else 0) + (if readable then 1 else 0) + (if writable then 2 else 0)) st' \<and>
       net_ok L st' (remove1 n ts) (qs @ [n]) \<and> net_closing L n st'" for status :: int and readable writable
  proof -
    let ?x = "or (or (if status < 0 then 8 else 0) (if readable then 1 else 0)) (if writable then 2 else 0) :: u32"
    obtain w1 w2 st' where p: "store_result s ?x st = Some (st\<lparr>net_world := w1\<rparr>)"
      "eaf_resume E (pd_id (nr_data r)) w1 = Some (eaf_errno_success, w2)"
      "powerpack_net_cleanup L n (st\<lparr>net_world := w2\<rparr>) = Some st'" "net_ok L st' (remove1 n ts) (qs @ [n])" "net_closing L n st'"
      "srv (net_world st') s = Some (v\<lparr>s_unsafe := write_d32 ?x (s_unsafe v), s_state := eaf_service_state_busy\<rparr>)"
      using e [of ?x] unfolding net_closing_def by blast
    have "net_resumed s (sint ?x) st'" using p(6) by (simp add: net_resumed_def wait_result)
    moreover have "sint ?x = (if status < 0 then 8 else 0) + (if readable then 1 else 0) + (if writable then 2 else 0)" by simp
    moreover have "powerpack_net_on_uv_poll E L (n + off_uv_poll L) status readable writable st = Some st'"
      using assms(4,5) p(1-3)
      by (simp add: powerpack_net_on_uv_poll_def eaf_socket_event_error_def eaf_socket_event_in_def eaf_socket_event_out_def cong: if_cong)
    ultimately show ?thesis using p(4,5) by auto
  qed
  moreover obtain w1 w2 st' where t: "store_result s 4 st = Some (st\<lparr>net_world := w1\<rparr>)"
    "eaf_resume E (pd_id (nr_data r)) w1 = Some (eaf_errno_success, w2)"
    "powerpack_net_cleanup L n (st\<lparr>net_world := w2\<rparr>) = Some st'" "net_ok L st' (remove1 n ts) (qs @ [n])" "net_closing L n st'"
    "srv (net_world st') s = Some (v\<lparr>s_unsafe := write_d32 4 (s_unsafe v), s_state := eaf_service_state_busy\<rparr>)"
    using e [of 4] unfolding net_closing_def by blast
  moreover have "net_resumed s 4 st'" using t(6) by (simp add: net_resumed_def wait_result)
  moreover have "powerpack_net_on_timer E L (n + off_uv_timer L) st = Some st'"
    using assms(4,5) t(1-3) by (simp add: powerpack_net_on_timer_def eaf_socket_event_timeout_def)
  ultimately show ?thesis unfolding net_fires_def by blast
qed

text \<open>C20: A wait for a socket. After the set-up the record is in the table; when the service has yielded, both
  handles are started for the requested events and time; whichever fires first stores its result,
  resumes the service, which then reads exactly the events of the socket (and the error flag), or the
  timeout flag, and closes both handles. The table is then what it was. Between the steps the
  runtime may do anything that keeps its invariant.\<close>

theorem net_wait:
  assumes "net_ok L st ts qs" "calm_env E" "n \<notin> dom (net_recs st)" "blocks L (insert n (dom (net_recs st)))"
    "Suc (length ts) < 2 ^ 64" "\<forall>a \<in> set ts. net_key (net_recs st) a \<noteq> i" "tmp \<notin> insert n (dom (net_recs st))"
  shows "\<exists>st1 ts1. eaf_powerpack_net_socket_wait_setup L (Some n) 0 0 i sock evts timeout st = Some (eaf_errno_success, st1) \<and>
    net_ok L st1 ts1 qs \<and> set ts1 = insert n (set ts) \<and>
    (\<forall>w1 s v. winv w1 \<and> srv w1 s = Some v \<and> s_id v = i \<longrightarrow>
      (\<exists>st2. eaf_powerpack_net_socket_wait_commit E L tmp 0 0 s (st1\<lparr>net_world := w1\<rparr>) = Some st2 \<and>
        net_uv st2 (n + off_uv_poll L) = Some (H_poll (and evts 1 \<noteq> 0) (and evts 2 \<noteq> 0)) \<and>
        net_uv st2 (n + off_uv_timer L) = Some (H_timer timeout) \<and>
        (\<forall>w2 v2. winv w2 \<and> eaf_service_find_service i w2 = Some (Some s) \<and> srv w2 s = Some v2 \<and> s_state v2 = eaf_service_state_yield \<longrightarrow>
          net_fires E L n ts (qs @ [n]) s (st2\<lparr>net_world := w2\<rparr>))))"
proof -
  let ?d = "\<lparr>pd_local = None, pd_id = i, pd_sock = sock, pd_evts = evts, pd_timeout = timeout\<rparr>"
  obtain st1 where s1: "eaf_powerpack_net_socket_wait_setup L (Some n) 0 0 i sock evts timeout st = Some (eaf_errno_success, st1)"
    "net_recs st1 = (net_recs st)(n \<mapsto> \<lparr>nr_data = ?d, nr_refcnt = 2\<rparr>)"
    "net_ok L st1 (insort_key (net_key (net_recs st1)) n ts) qs"
    using setup_ok [OF assms(1,3,4) _ _ assms(5,6)] by force
  define ts1 where "ts1 = insort_key (net_key (net_recs st1)) n ts"
  have n: "n \<in> set ts1" "remove1 n ts1 = ts" "set ts1 = insert n (set ts)"
    using net_okD(5) [OF assms(1)] assms(3) by (auto simp: ts1_def set_insort_key intro!: remove1_insort_key)
  have commit: "\<exists>st2. eaf_powerpack_net_socket_wait_commit E L tmp 0 0 s (st1\<lparr>net_world := w1\<rparr>) = Some st2 \<and>
      net_uv st2 (n + off_uv_poll L) = Some (H_poll (and evts 1 \<noteq> 0) (and evts 2 \<noteq> 0)) \<and>
      net_uv st2 (n + off_uv_timer L) = Some (H_timer timeout) \<and>
      (\<forall>w2 v2. winv w2 \<and> eaf_service_find_service i w2 = Some (Some s) \<and> srv w2 s = Some v2 \<and> s_state v2 = eaf_service_state_yield \<longrightarrow>
        net_fires E L n ts (qs @ [n]) s (st2\<lparr>net_world := w2\<rparr>))"
    if w1: "winv w1" "srv w1 s = Some v" "s_id v = i" for w1 s v
  proof -
    have "net_ok L (st1\<lparr>net_world := w1\<rparr>) ts1 qs" unfolding ts1_def by (rule net_ok_world [OF s1(3) w1(1)])
    from commit_ok [OF this _ n(1), of tmp "\<lparr>nr_data = ?d, nr_refcnt = 2\<rparr>" s v 0 0 E] w1 assms(7) s1(2)
    obtain st2 where c: "eaf_powerpack_net_socket_wait_commit E L tmp 0 0 s (st1\<lparr>net_world := w1\<rparr>) = Some st2"
      "net_uv st2 (n + off_uv_poll L) = Some (H_poll (and evts 1 \<noteq> 0) (and evts 2 \<noteq> 0))" "net_uv st2 (n + off_uv_timer L) = Some (H_timer timeout)"
      "net_ok L st2 ts1 qs" "net_recs st2 n = Some \<lparr>nr_data = ?d\<lparr>pd_local := Some s\<rparr>, nr_refcnt = 2\<rparr>" by auto
    have "net_fires E L n ts (qs @ [n]) s (st2\<lparr>net_world := w2\<rparr>)"
      if "winv w2" "eaf_service_find_service i w2 = Some (Some s)" "srv w2 s = Some v2" "s_state v2 = eaf_service_state_yield" for w2 v2
      using fired_ok [OF net_ok_world [OF c(4) that(1)] n(1) assms(2), of "\<lparr>nr_data = ?d\<lparr>pd_local := Some s\<rparr>, nr_refcnt = 2\<rparr>" s v2] c(5) that n(2)
      by simp
    with c(1-3) show ?thesis by blast
  qed
  then show ?thesis using s1(1,3) n(3) unfolding ts1_def [symmetric] by blast
qed

text \<open>C21: A wait that cannot be set up. Without memory, or when the timer cannot be initialised, nothing changes;
  a second wait of the same service is refused, its record is queued and both its handles are
  closed. But when the socket cannot be watched, the poll handle, which is not initialised, is closed.\<close>

theorem net_setup_errors:
  assumes "net_ok L st ts qs" "n \<notin> dom (net_recs st)" "blocks L (insert n (dom (net_recs st)))" "Suc (length ts) < 2 ^ 64"
    "net_uv st (n + off_uv_poll L) = None"
  shows "eaf_powerpack_net_socket_wait_setup L None ti pi i sock evts timeout st = Some (eaf_errno_memory, st) \<and>
    (ti < 0 \<longrightarrow> eaf_powerpack_net_socket_wait_setup L (Some n) ti pi i sock evts timeout st = Some (eaf_errno_unknown, st)) \<and>
    (0 \<le> ti \<and> pi < 0 \<longrightarrow> eaf_powerpack_net_socket_wait_setup L (Some n) ti pi i sock evts timeout st = None) \<and>
    (0 \<le> ti \<and> 0 \<le> pi \<and> (\<exists>a \<in> set ts. net_key (net_recs st) a = i) \<longrightarrow>
      (\<exists>st'. eaf_powerpack_net_socket_wait_setup L (Some n) ti pi i sock evts timeout st = Some (eaf_errno_duplicate, st') \<and>
        net_ok L st' ts (qs @ [n]) \<and> net_closing L n st'))"
proof -
  note k = net_okD [OF assms(1)]
  have n: "n \<notin> set ts" "n \<notin> set qs" using assms(2) k(5) by auto
  have d: "off_uv_poll L \<noteq> off_uv_timer L" using k(7) by (simp add: blocks_def)
  have free: "(net_recs st)(n := None) = net_recs st" using assms(2) by (auto simp: fun_upd_idem_iff)
  obtain l g where p: "eaf_list_push_back (queue_gc st) (net_lheap st) n = Some (l, g)" "list_rep (l, g) (qs @ [n])"
    using push_back_implements [OF k(3) n(2)] by (auto simp: implements_def)
  have "eaf_powerpack_net_socket_wait_setup L (Some n) ti pi i sock evts timeout st = None" if "0 \<le> ti" "pi < 0"
    using that p(1) k(1) d assms(5)
    by (simp add: eaf_powerpack_net_socket_wait_setup_def powerpack_net_append_to_gc_lock_def gc_push_def net_uv_close_def net_uv_set_def)
  moreover have "\<exists>st'. eaf_powerpack_net_socket_wait_setup L (Some n) ti pi i sock evts timeout st = Some (eaf_errno_duplicate, st') \<and>
      net_ok L st' ts (qs @ [n]) \<and> net_closing L n st'"
    if dup: "0 \<le> ti" "0 \<le> pi" "a \<in> set ts" "net_key (net_recs st) a = i" for a
  proof -
    define R where "R = (net_recs st)(n \<mapsto> \<lparr>nr_data = \<lparr>pd_local = None, pd_id = i, pd_sock = sock, pd_evts = evts, pd_timeout = timeout\<rparr>, nr_refcnt = 2\<rparr>)"
    define U where "U = (net_uv st)(n + off_uv_timer L \<mapsto> H_init, n + off_uv_poll L \<mapsto> H_init, n + off_uv_poll L \<mapsto> H_closing, n + off_uv_timer L \<mapsto> H_closing)"
    have m: "map_ok (net_key R) (net_rb st) (table_poll st) ts" by (rule map_ok_key [OF k(2)]) (use n(1) in \<open>auto simp: R_def\<close>)
    have a: "net_key R a = net_key R n" using dup(3,4) n(1) by (auto simp: R_def)
    have i: "eaf_map_insert (net_cmp R (table_poll st)) n (net_rb st) = Some (eaf_errno_duplicate, net_cmp R (table_poll st), net_rb st)"
      unfolding net_cmp_def by (rule net_map.insert_duplicate [OF m _ n(1) assms(4) dup(3) a]) simp
    let ?st = "st\<lparr>net_recs := R, table_poll := net_cmp R (table_poll st), queue_gc := l, net_lheap := g, net_uv := U\<rparr>"
    have run: "eaf_powerpack_net_socket_wait_setup L (Some n) ti pi i sock evts timeout st = Some (eaf_errno_duplicate, ?st)"
      using dup(1,2) i p(1) k(1) d unfolding R_def U_def
      by (simp add: eaf_powerpack_net_socket_wait_setup_def poll_insert_def powerpack_net_append_to_gc_lock_def gc_push_def
          net_uv_close_def net_uv_set_def eaf_errno_duplicate_def Let_def)
    have "opened (U (b + off_uv_poll L)) \<and> opened (U (b + off_uv_timer L)) \<and> nr_refcnt (the (R b)) = 2" if "b \<in> set ts" for b
    proof -
      have "b \<noteq> n" using that n(1) by blast
      then show ?thesis using k(6) [OF that] blocks_handles [OF assms(3), of b n] k(5) that by (simp add: U_def R_def)
    qed
    moreover have "dom R = set ts \<union> set (qs @ [n])" using k(5) by (auto simp: R_def)
    moreover have "set ts \<union> set (qs @ [n]) = insert n (dom (net_recs st))" using k(5) by auto
    then have "blocks L (set ts \<union> set (qs @ [n]))" using assms(3) by (simp only:)
    ultimately have "net_ok L ?st ts (qs @ [n])" using k(1,4,8) m n(1) p(2) by (simp add: net_ok_def net_cmp_def)
    then show ?thesis using run d by (intro exI [of _ ?st]) (simp add: net_closing_def U_def)
  qed
  ultimately show ?thesis using free by (auto simp: eaf_powerpack_net_socket_wait_setup_def)
qed

text \<open>Handles that cannot be started. The record is cleaned up and the service is resumed, but no result is
  stored: the service reads whatever its \<open>unsafe\<close> field held before.\<close>

theorem net_start_failure:
  assumes "net_ok L st ts qs" "calm_env E" "tmp \<notin> dom (net_recs st)" "n \<in> set ts" "net_key (net_recs st) n = s_id v"
    "eaf_service_find_service (s_id v) (net_world st) = Some (Some s)" "srv (net_world st) s = Some v"
    "s_state v = eaf_service_state_yield" "ps < 0 \<or> tr < 0"
  shows "\<exists>st'. eaf_powerpack_net_socket_wait_commit E L tmp ps tr s st = Some st' \<and>
    net_ok L st' (remove1 n ts) (qs @ [n]) \<and> net_closing L n st' \<and>
    srv (net_world st') s = Some (v\<lparr>s_state := eaf_service_state_busy\<rparr>) \<and> net_resumed s (eaf_socket_wait_result v) st'"
proof -
  note k = net_okD [OF assms(1)]
  obtain r where r: "net_recs st n = Some r" using k(5) assms(4) by blast
  let ?r = "r\<lparr>nr_data := (nr_data r)\<lparr>pd_local := Some s\<rparr>\<rparr>"
  let ?st = "st\<lparr>net_recs := (net_recs st)(n \<mapsto> ?r)\<rparr>"
  let ?poll = "H_poll (and (pd_evts (nr_data r)) eaf_socket_event_in \<noteq> 0) (and (pd_evts (nr_data r)) eaf_socket_event_out \<noteq> 0)"
  define st0 where "st0 = (if ps < 0 then ?st else net_uv_set (n + off_uv_poll L) ?poll ?st)"
  have "net_ok L ?st ts qs" by (rule net_ok_rec [OF assms(1)]) (use r in auto)
  then have ok: "net_ok L st0 ts qs" by (simp add: st0_def net_ok_uv)
  have w0: "net_world st0 = net_world st" by (simp add: st0_def net_uv_set_def)
  obtain st1 where c: "powerpack_net_cleanup L n st0 = Some st1" "net_ok L st1 (remove1 n ts) (qs @ [n])" "net_closing L n st1"
    "net_world st1 = net_world st"
    using cleanup_ok [OF ok assms(4)] w0 by (auto simp: net_closing_def)
  obtain w where w: "eaf_resume E (s_id v) (net_world st) = Some (eaf_errno_success, w)" "winv w"
    "srv w s = Some (v\<lparr>s_state := eaf_service_state_busy\<rparr>)"
    using resume_yielded [OF k(8) calm_quiet [OF assms(2)] assms(6-8)] by auto
  have "poll_find tmp (s_id v) st = Some (Some n)" by (rule commit_find [OF assms(1,3,4,5)])
  then have "eaf_powerpack_net_socket_wait_commit E L tmp ps tr s st = Some (st1\<lparr>net_world := w\<rparr>)"
    using assms(7,9) r c(1,4) w(1) by (cases "ps < 0") (auto simp: eaf_powerpack_net_socket_wait_commit_def st0_def Let_def)
  moreover have "net_closing L n (st1\<lparr>net_world := w\<rparr>)" using c(3) by (simp add: net_closing_def)
  ultimately show ?thesis using net_ok_world [OF c(2) w(2)] w(3) by (simp add: net_resumed_def eaf_socket_wait_result_def)
qed

text \<open>The end of a wait. Both handles have the same close callback, which takes the handle for the poll
  handle of its record. When the timer has been closed it computes an address inside a record, at which no
  record lies, and reads and writes its counter: so no wait ends without undefined behaviour. After
  the poll handle has been closed the record is still there, with a count of one.\<close>

theorem net_close_undefined:
  assumes "net_ok L st ts qs" "n \<in> set qs" "net_recs st n = Some r" "nr_refcnt r = 2"
  shows "powerpack_net_on_poll_close L (n + off_uv_timer L) st = None \<and>
    (\<exists>st1. powerpack_net_on_poll_close L (n + off_uv_poll L) st = Some st1 \<and> net_recs st1 = (net_recs st)(n \<mapsto> r\<lparr>nr_refcnt := 1\<rparr>) \<and>
      powerpack_net_on_poll_close L (n + off_uv_timer L) st1 = None)"
proof -
  note k = net_okD [OF assms(1)]
  have lay: "off_uv_poll L < off_uv_timer L" "off_uv_timer L < sizeof_poll_record L" using k(7) by (simp_all add: blocks_def)
  let ?a = "n + off_uv_timer L - off_uv_poll L"
  have a: "n < ?a" "?a < n + sizeof_poll_record L" using lay by linarith+
  have "?a \<notin> set ts \<union> set qs"
  proof
    assume "?a \<in> set ts \<union> set qs"
    then have "n + sizeof_poll_record L \<le> ?a" using k(7) a(1) assms(2) unfolding blocks_def by blast
    then show False using a(2) by linarith
  qed
  then have none: "net_recs st ?a = None" using k(5) by blast
  let ?st1 = "st\<lparr>net_uv := (net_uv st)(n + off_uv_poll L := None), net_recs := (net_recs st)(n \<mapsto> r\<lparr>nr_refcnt := 1\<rparr>)\<rparr>"
  have "powerpack_net_on_poll_close L (n + off_uv_poll L) st = Some ?st1"
    using assms(3,4) by (simp add: powerpack_net_on_poll_close_def)
  moreover have "powerpack_net_on_poll_close L (n + off_uv_timer L) st = None" "powerpack_net_on_poll_close L (n + off_uv_timer L) ?st1 = None"
    using none a(1) by (simp_all add: powerpack_net_on_poll_close_def)
  ultimately show ?thesis by auto
qed

subsection \<open>Witnesses\<close>

text \<open>The yielded service 2 of \<open>sys_demo\<close> waits for socket 5; its record is at 1000.\<close>

definition demo_layout :: net_layout where
  "demo_layout = \<lparr>off_uv_poll = 40, off_uv_timer = 200, sizeof_poll_record = 400\<rparr>"

definition demo_net :: "world \<Rightarrow> net_state" where
  "demo_net w = snd (eaf_powerpack_net_init True True \<lparr>net_ctx = False, table_poll = eaf_map_init (net_on_cmp_record (\<lambda>a. undefined)) (),
     queue_gc = eaf_list_init, net_rb = (\<lambda>_. undefined), net_lheap = (\<lambda>_. undefined), net_recs = (\<lambda>_. None), net_uv = (\<lambda>_. None),
     net_world = w\<rparr>)"

lemma demo_net_simps: "net_recs (demo_net w) = (\<lambda>_. None)" "net_uv (demo_net w) = (\<lambda>_. None)" "net_world (demo_net w) = w"
  by (simp_all add: demo_net_def eaf_powerpack_net_init_def)

lemma demo_blocks: "blocks demo_layout {}" "blocks demo_layout {a}"
  by (simp_all add: blocks_def demo_layout_def)

lemma demo_net_ok: "winv w \<Longrightarrow> net_ok demo_layout (demo_net w) [] []"
  by (simp add: net_ok_def demo_net_def eaf_powerpack_net_init_def init_ok list_rep_init demo_blocks)

lemma demo_net_world:
  obtains w v where "winv w" "srv w (0, 1) = Some v" "s_id v = 2" "s_state v = eaf_service_state_yield"
    "eaf_service_find_service 2 w = Some (Some (0, 1))"
proof -
  have "map_option (\<lambda>(w, ph, l). (map_option (\<lambda>v. (s_id v, s_state v)) (srv w (0, 1)), eaf_service_find_service 2 w)) (sys_demo demo_yielded) =
    Some (Some (2, eaf_service_state_yield), Some (Some (0, 1)))" by code_simp
  then obtain w ph l v where s: "sys_demo demo_yielded = Some (w, ph, l)" "srv w (0, 1) = Some v" "s_id v = 2"
    "s_state v = eaf_service_state_yield" "eaf_service_find_service 2 w = Some (Some (0, 1))" by auto
  have "winv w" using reachable_inv [OF demo_user demo_finite demo_reachable [OF s(1)]] by simp
  then show thesis using that s(2-5) by blast
qed

lemma demo_wait:
  assumes "winv w"
  obtains st r where "net_ok demo_layout st [1000] []" "net_recs st = [1000 \<mapsto> r]" "pd_id (nr_data r) = 2" "nr_refcnt r = 2" "net_world st = w"
  using setup_ok [OF demo_net_ok [OF assms], of 1000 0 0 2 5 1 100] by (auto simp: demo_net_simps demo_blocks)

theorem net_wait_witness:
  "\<exists>w st1 st2. eaf_powerpack_net_socket_wait_setup demo_layout (Some 1000) 0 0 2 5 1 100 (demo_net w) = Some (eaf_errno_success, st1) \<and>
     eaf_powerpack_net_socket_wait_commit base_env demo_layout 7 0 0 (0, 1) (st1\<lparr>net_world := w\<rparr>) = Some st2 \<and>
     net_fires base_env demo_layout 1000 [] [1000] (0, 1) (st2\<lparr>net_world := w\<rparr>)"
proof -
  obtain w v where w: "winv w" "srv w (0, 1) = Some v" "s_id v = 2" "s_state v = eaf_service_state_yield"
    "eaf_service_find_service 2 w = Some (Some (0, 1))" by (rule demo_net_world)
  have "1000 \<notin> dom (net_recs (demo_net w))" "blocks demo_layout (insert 1000 (dom (net_recs (demo_net w))))"
    "7 \<notin> insert 1000 (dom (net_recs (demo_net w)))" by (simp_all add: demo_net_simps demo_blocks)
  from net_wait [OF demo_net_ok [OF w(1)] calm_base this(1,2) _ _ this(3), of 2 5 1 100]
  show ?thesis using w by fastforce
qed

theorem net_setup_errors_witness:
  "\<exists>w. net_ok demo_layout (demo_net w) [] [] \<and> eaf_powerpack_net_socket_wait_setup demo_layout (Some 1000) 0 (- 1) 2 5 1 100 (demo_net w) = None"
proof -
  obtain w v where w: "winv w" "srv w (0, 1) = Some v" by (rule demo_net_world)
  have "1000 \<notin> dom (net_recs (demo_net w))" "blocks demo_layout (insert 1000 (dom (net_recs (demo_net w))))"
    "net_uv (demo_net w) (1000 + off_uv_poll demo_layout) = None" by (simp_all add: demo_net_simps demo_blocks)
  from net_setup_errors [OF demo_net_ok [OF w(1)] this(1,2) _ this(3), of 0 "- 1" 2 5 1 100]
  show ?thesis using demo_net_ok [OF w(1)] by auto
qed

theorem net_start_failure_witness:
  "\<exists>st st'. net_ok demo_layout st [1000] [] \<and> eaf_powerpack_net_socket_wait_commit base_env demo_layout 7 (- 1) 0 (0, 1) st = Some st' \<and>
     net_closing demo_layout 1000 st'"
proof -
  obtain w v where w: "winv w" "srv w (0, 1) = Some v" "s_id v = 2" "s_state v = eaf_service_state_yield"
    "eaf_service_find_service 2 w = Some (Some (0, 1))" by (rule demo_net_world)
  obtain st r where s: "net_ok demo_layout st [1000] []" "net_recs st = [1000 \<mapsto> r]" "pd_id (nr_data r) = 2" "net_world st = w"
    by (rule demo_wait [OF w(1)])
  have "7 \<notin> dom (net_recs st)" "(1000 :: addr) \<in> set [1000]" "net_key (net_recs st) 1000 = s_id v" using s(2,3) w(3) by auto
  from net_start_failure [OF s(1) calm_base this, of "(0, 1)" "- 1" 0] show ?thesis using s(1,4) w by auto
qed

theorem net_close_undefined_witness:
  "\<exists>st. net_ok demo_layout st [] [1000] \<and> net_closing demo_layout 1000 st \<and> powerpack_net_on_poll_close demo_layout (1000 + 200) st = None"
proof -
  obtain w v where w: "winv w" "srv w (0, 1) = Some v" by (rule demo_net_world)
  obtain st r where s: "net_ok demo_layout st [1000] []" "net_recs st = [1000 \<mapsto> r]" "nr_refcnt r = 2" by (rule demo_wait [OF w(1)])
  obtain st' where c: "net_ok demo_layout st' [] [1000]" "net_closing demo_layout 1000 st'" "net_recs st' = [1000 \<mapsto> r]"
    using cleanup_ok [OF s(1), of 1000] s(2) by (auto simp: net_closing_def)
  from net_close_undefined [OF c(1), of 1000 r] show ?thesis using c s(3) by (auto simp: demo_layout_def)
qed

end
