(* ===== verification/StringApply.thy ===== *)
theory StringApply
  imports Prelude
begin

text \<open>
  Building a string in a buffer, \<open>powerpack/string.c\<close>, and the conversions of \<open>printf\<close> that the monitor
  uses. A buffer is the list of its bytes; \<open>None\<close> is a write outside of it. \<open>vsnprintf\<close> is given the
  formatted text: it writes at most \<open>n - 1\<close> characters and a null byte, and returns the length of the
  whole text, or a negative number when an \<open>int\<close> cannot hold it.
\<close>

subsection \<open>The code\<close>

definition string_snprintf :: "string \<Rightarrow> nat \<Rightarrow> size_t \<Rightarrow> string \<Rightarrow> (int \<times> string) option" where
  "string_snprintf buffer start n text =
     (if 2 ^ 31 \<le> length text then Some (- 1, buffer)
      else if n = 0 then Some (int (length text), buffer)
      else let out = take (unat n - 1) text @ [CHR 0x00] in
        if start + length out \<le> length buffer
        then Some (int (length text), take start buffer @ out @ drop (start + length out) buffer) else None)"

definition eaf_string_apply :: "string \<Rightarrow> size_t \<Rightarrow> size_t option \<Rightarrow> string \<Rightarrow> (int \<times> size_t option \<times> string) option" where
  "eaf_string_apply buffer sz token text =
     (let start_pos = (case token of Some t \<Rightarrow> unat t | None \<Rightarrow> 0);
          left_size = (case token of Some t \<Rightarrow> sz - t | None \<Rightarrow> sz) in
      do {
        (write_size, buffer) \<leftarrow> string_snprintf buffer start_pos left_size text;
        if write_size < 0 then Some (write_size, token, buffer)
        else Some (write_size,
          (case token of
             None \<Rightarrow> None
           | Some t \<Rightarrow> Some (if left_size \<le> word_of_int write_size then sz else t + word_of_int write_size)),
          buffer) })"

subsection \<open>Conversions\<close>

definition digit :: "nat \<Rightarrow> char" where
  "digit n = (if n < 10 then char_of (48 + n) else char_of (87 + n))"

fun digits :: "nat \<Rightarrow> nat \<Rightarrow> string" where
  "digits base n = (if n < base \<or> base < 2 then [digit n] else digits base (n div base) @ [digit (n mod base)])"

declare digits.simps [simp del]

definition pad_left :: "nat \<Rightarrow> char \<Rightarrow> string \<Rightarrow> string" where
  "pad_left width c s = replicate (width - length s) c @ s"

definition pad_right :: "nat \<Rightarrow> char \<Rightarrow> string \<Rightarrow> string" where
  "pad_right width c s = s @ replicate (width - length s) c"

lemma length_pad [simp]: "length (pad_left w c s) = max w (length s)" "length (pad_right w c s) = max w (length s)"
  by (simp_all add: pad_left_def pad_right_def)

lemma length_digits:
  assumes "n < base ^ k" "0 < k" "2 \<le> base"
  shows "length (digits base n) \<le> k"
  using assms
proof (induction k arbitrary: n)
  case (Suc k)
  show ?case
  proof (cases "n < base")
    case True
    then show ?thesis by (subst digits.simps) simp
  next
    case False
    then have k: "0 < k" using Suc.prems by (cases k) auto
    have "n div base < base ^ k" using Suc.prems by (simp add: less_mult_imp_div_less mult.commute)
    then have "length (digits base (n div base)) \<le> k" using Suc.IH k Suc.prems(3) by blast
    then show ?thesis using False Suc.prems(3) by (subst digits.simps) simp
  qed
qed simp

lemma length_u32: "length (digits 10 (unat (w :: u32))) \<le> 10"
  by (rule length_digits) (use unsigned_less [of w, where 'a = nat] in simp_all)

lemma length_u64: "length (digits 10 (unat (w :: u64))) \<le> 20"
  by (rule length_digits) (use unsigned_less [of w, where 'a = nat] in simp_all)

lemma length_hex32: "length (digits 16 (unat (w :: u32))) \<le> 8"
  by (rule length_digits) (use unsigned_less [of w, where 'a = nat] in simp_all)

subsection \<open>A buffer that holds a text\<close>

text \<open>The first \<open>sz - 1\<close> characters of the text and a null byte; the token says where to go on, or that the
  buffer is full.\<close>

definition holds :: "string \<Rightarrow> size_t \<Rightarrow> size_t \<Rightarrow> string \<Rightarrow> bool" where
  "holds buffer sz token s \<longleftrightarrow> 0 < sz \<and> unat sz \<le> length buffer \<and>
     token = (if length s < unat sz then of_nat (length s) else sz) \<and>
     (let k = min (length s) (unat sz - 1) in take k buffer = take k s \<and> (s \<noteq> [] \<longrightarrow> buffer ! k = CHR 0x00))"

lemma holds_start: "0 < sz \<Longrightarrow> unat sz \<le> length buffer \<Longrightarrow> holds buffer sz 0 []"
  by (simp add: holds_def unat_gt_0)

lemma apply_step:
  assumes "holds buffer sz token s" "length text < 2 ^ 31"
  shows "\<exists>token' buffer'. eaf_string_apply buffer sz (Some token) text = Some (int (length text), Some token', buffer') \<and>
    holds buffer' sz token' (s @ text) \<and> length buffer' = length buffer \<and> drop (unat sz) buffer' = drop (unat sz) buffer"
proof (cases "length s < unat sz")
  case False
  then have t: "token = sz" "unat sz - 1 < length s" "s \<noteq> []" using assms(1) unat_gt_0 [of sz] by (auto simp: holds_def)
  then have "eaf_string_apply buffer sz (Some token) text = Some (int (length text), Some sz, buffer)"
    using assms(2) by (simp add: eaf_string_apply_def string_snprintf_def)
  moreover have "holds buffer sz sz (s @ text)" using assms(1) False t by (simp add: holds_def Let_def min_def)
  ultimately show ?thesis by blast
next
  case True
  let ?k = "length s" and ?n = "unat sz"
  have h: "0 < sz" "?n \<le> length buffer" "token = of_nat ?k" "take ?k buffer = s"
    using assms(1) True by (auto simp: holds_def Let_def min_absorb1)
  have tok: "unat token = ?k" using h(3) True unsigned_less [of sz, where 'a = nat] by (simp add: unat_of_nat)
  have "token \<le> sz" using tok True by (simp add: word_le_nat_alt)
  then have left: "unat (sz - token) = ?n - ?k" using tok by (simp add: unat_sub)
  let ?out = "take (?n - ?k - 1) text @ [CHR 0x00]"
  let ?b = "take ?k buffer @ ?out @ drop (?k + length ?out) buffer"
  have nz: "sz - token \<noteq> 0" using left True by (metis diff_is_0_eq not_le unat_0)
  have fits: "?k + length ?out \<le> ?n" using True by simp
  have run: "string_snprintf buffer ?k (sz - token) text = Some (int (length text), ?b)"
    using assms(2) nz fits h(2) left unfolding string_snprintf_def Let_def by auto
  have len: "unat (word_of_int (int (length text)) :: size_t) = length text" using assms(2) by (simp add: unat_of_nat)
  have full: "(sz - token \<le> word_of_int (int (length text))) = (?n \<le> ?k + length text)"
    using len left True by (auto simp: word_le_nat_alt)
  define t where "t = (if sz - token \<le> word_of_int (int (length text)) then sz else token + word_of_int (int (length text)))"
  have t: "t = (if length (s @ text) < ?n then of_nat (length (s @ text)) else sz)"
    unfolding t_def full using h(3) by auto
  have "eaf_string_apply buffer sz (Some token) text = Some (int (length text), Some t, ?b)"
    unfolding eaf_string_apply_def t_def using run tok by simp
  moreover have "holds ?b sz t (s @ text)"
    using h(1,2,4) t True fits by (auto simp: holds_def Let_def min_def nth_append)
  moreover have "length ?b = length buffer" "drop ?n ?b = drop ?n buffer" using fits h(2) by (simp_all add: drop_Cons')
  ultimately show ?thesis by blast
qed

text \<open>A sequence of calls with one token; the result is the sum of the results.\<close>

fun apply_all :: "size_t \<Rightarrow> string list \<Rightarrow> size_t \<times> size_t \<times> string \<Rightarrow> (size_t \<times> size_t \<times> string) option" where
  "apply_all sz [] x = Some x"
| "apply_all sz (text # texts) (write_size, token, buffer) = do {
     (ret, token', buffer) \<leftarrow> eaf_string_apply buffer sz (Some token) text;
     t \<leftarrow> token';
     apply_all sz texts (write_size + word_of_int ret, t, buffer) }"

lemma apply_all_append: "apply_all sz (xs @ ys) x = (apply_all sz xs x \<bind> apply_all sz ys)"
proof (induction xs arbitrary: x)
  case (Cons a xs)
  then show ?case by (cases x) (simp add: bind_assoc case_prod_beta cong: Option.bind_cong)
qed simp

lemma apply_all_holds:
  assumes "holds buffer sz token s" "\<forall>text \<in> set texts. length text < 2 ^ 31"
  shows "\<exists>token' buffer'. apply_all sz texts (n, token, buffer) = Some (n + of_nat (length (concat texts)), token', buffer') \<and>
    holds buffer' sz token' (s @ concat texts) \<and> length buffer' = length buffer \<and> drop (unat sz) buffer' = drop (unat sz) buffer"
  using assms
proof (induction texts arbitrary: buffer token s n)
  case Nil
  then show ?case by auto
next
  case (Cons x texts)
  obtain t b where s: "eaf_string_apply buffer sz (Some token) x = Some (int (length x), Some t, b)" "holds b sz t (s @ x)"
    "length b = length buffer" "drop (unat sz) b = drop (unat sz) buffer" using apply_step [OF Cons.prems(1), of x] Cons.prems(2) by auto
  obtain t' b' where "apply_all sz texts (n + of_nat (length x), t, b) = Some (n + of_nat (length x) + of_nat (length (concat texts)), t', b')"
    "holds b' sz t' ((s @ x) @ concat texts)" "length b' = length b" "drop (unat sz) b' = drop (unat sz) b"
    using Cons.IH [OF s(2)] Cons.prems(2) by force
  then show ?case using s by (auto simp: add.assoc)
qed

text \<open>C27: Building a string. Whatever is appended to a buffer with one token, the buffer holds the first
  \<open>size - 1\<close> characters of the whole text and a null byte behind them, nothing is written outside of it, and
  the results add up to the length of the whole text.\<close>

theorem string_apply_all:
  assumes "0 < sz" "unat sz \<le> length buffer" "texts \<noteq> []" "\<forall>text \<in> set texts. text \<noteq> [] \<and> length text < 2 ^ 31"
  shows "\<exists>token buffer'. apply_all sz texts (0, 0, buffer) = Some (of_nat (length (concat texts)), token, buffer') \<and>
    (let k = min (length (concat texts)) (unat sz - 1) in take k buffer' = take k (concat texts) \<and> buffer' ! k = CHR 0x00) \<and>
    length buffer' = length buffer \<and> drop (unat sz) buffer' = drop (unat sz) buffer"
proof -
  obtain t b where "apply_all sz texts (0, 0, buffer) = Some (0 + of_nat (length (concat texts)), t, b)" "holds b sz t ([] @ concat texts)"
    "length b = length buffer" "drop (unat sz) b = drop (unat sz) buffer"
    using apply_all_holds [OF holds_start [OF assms(1,2)], of texts 0] assms(4) by blast
  moreover have "concat texts \<noteq> []" using assms(3,4) by (cases texts) auto
  ultimately show ?thesis by (auto simp: holds_def Let_def)
qed

theorem string_apply_all_witness:
  "\<exists>token buffer'. apply_all 6 [''abc'', ''def''] (0, 0, ''xxxxxxxx'') = Some (6, token, buffer') \<and> take 5 buffer' = ''abcde'' \<and>
     buffer' ! 5 = CHR 0x00 \<and> drop 6 buffer' = ''xx''"
proof -
  have k: "min (length (concat [''abc'', ''def''])) (unat (6 :: size_t) - 1) = 5" "length (concat [''abc'', ''def'']) = 6"
    "take 5 (concat [''abc'', ''def'']) = ''abcde''" "drop (unat (6 :: size_t)) ''xxxxxxxx'' = ''xx''" by simp_all
  show ?thesis
    using string_apply_all [of 6 "''xxxxxxxx''" "[''abc'', ''def'']", unfolded Let_def k] by (auto simp del: apply_all.simps)
qed

end
