(* ===== verification/Monitor.thy ===== *)
theory Monitor
  imports MapTable PPHooks TimerApi StringApply
begin

text \<open>
  The monitor of \<open>powerpack/monitor.c\<close>: hooks that count the messages between services and the time services
  and groups take, and a service that reports the counters as text and resets some of them.

  State. \<open>mon_state\<close> holds \<open>g_monitor_ctx\<close>, the heap of the map nodes, the records of the services (a
  record has the address of \<open>node_group\<close>, and \<open>node_split\<close> lies \<open>n_split_offset\<close> behind it) and of the
  message paths, the world of the runtime and the contents of the messages the monitor writes. Parameters are
  the results of \<open>malloc\<close>, of libuv and of its clock, addresses of local variables, and the
  text of \<open>%.1f\<close> for \<open>_monitor_calculate_cpu\<close>, which computes with floating point numbers. The locks have
  no effect, as every operation is one atomic step. \<open>None\<close> is undefined behaviour or a failed assertion.
\<close>

subsection \<open>State\<close>

definition EAF_MONITOR_ID :: u32 where "EAF_MONITOR_ID = 0x00040000"
definition EAF_MINITOR_MSG_STRINGIFY_REQ :: u32 where "EAF_MINITOR_MSG_STRINGIFY_REQ = EAF_MONITOR_ID + 1"
definition EAF_MONITOR_MSG_FLUSH_REQ :: u32 where "EAF_MONITOR_MSG_FLUSH_REQ = EAF_MONITOR_ID + 2"

definition n_split_offset :: nat where "n_split_offset = 24"

record monitor_counter =
  flush_send :: u32
  flush_recv :: u32
  flush_use_time :: u64
  total_send :: u64
  total_recv :: u64

record monitor_service_record =
  mr_data :: monitor_service_data
  mr_counter :: monitor_counter
  use_time_start :: u64

record monitor_group_record =
  mg_gls :: nat
  mg_use_time :: u64

record monitor_ctx =
  record_group :: "unit eaf_map"
  record_split :: "unit eaf_map"
  mon_group_size :: size_t
  mon_group_table :: "monitor_group_record list option"
  dataflow_record :: "unit eaf_map"
  timeout_sec :: u32

datatype mon_payload = Mon_delay u32 | Mon_string size_t string | Mon_ret int

record mon_state =
  mon_ctx :: monitor_ctx
  mon_heap :: rb_heap
  mon_recs :: "addr \<Rightarrow> monitor_service_record option"
  mon_flows :: "addr \<Rightarrow> monitor_dataflow_data option"
  mon_world :: world
  mon_payload :: "addr \<Rightarrow> mon_payload option"

type_synonym mon_recs = "addr \<Rightarrow> monitor_service_record option"

text \<open>The comparison functions over the records of the moment.\<close>

definition group_cmp :: "mon_recs \<Rightarrow> addr \<Rightarrow> addr \<Rightarrow> unit \<Rightarrow> int" where
  "group_cmp R = monitor_cmp_service_record_group (\<lambda>a. mr_data (the (R a)))"

definition split_cmp :: "mon_recs \<Rightarrow> addr \<Rightarrow> addr \<Rightarrow> unit \<Rightarrow> int" where
  "split_cmp R = monitor_cmp_service_record_split (\<lambda>a. mr_data (the (R (a - n_split_offset))))"

definition flow_cmp :: "(addr \<Rightarrow> monitor_dataflow_data option) \<Rightarrow> addr \<Rightarrow> addr \<Rightarrow> unit \<Rightarrow> int" where
  "flow_cmp F = monitor_cmp_dataflow_record (\<lambda>a. the (F a))"

definition g_monitor_ctx :: monitor_ctx where
  "g_monitor_ctx = \<lparr>record_group = eaf_map_init (group_cmp (\<lambda>_. None)) (), record_split = eaf_map_init (split_cmp (\<lambda>_. None)) (),
     mon_group_size = 0, mon_group_table = None, dataflow_record = eaf_map_init (flow_cmp (\<lambda>_. None)) (), timeout_sec = 0\<rparr>"

subsection \<open>Access to the tables and the records\<close>

definition group_insert :: "addr \<Rightarrow> mon_state \<Rightarrow> (int \<times> mon_state) option" where
  "group_insert n st = do {
     (ret, m, h) \<leftarrow> eaf_map_insert ((record_group (mon_ctx st))\<lparr>cmp_fn := group_cmp (mon_recs st)\<rparr>) n (mon_heap st);
     Some (ret, st\<lparr>mon_ctx := (mon_ctx st)\<lparr>record_group := m\<rparr>, mon_heap := h\<rparr>) }"

definition split_insert :: "addr \<Rightarrow> mon_state \<Rightarrow> (int \<times> mon_state) option" where
  "split_insert n st = do {
     (ret, m, h) \<leftarrow> eaf_map_insert ((record_split (mon_ctx st))\<lparr>cmp_fn := split_cmp (mon_recs st)\<rparr>) n (mon_heap st);
     Some (ret, st\<lparr>mon_ctx := (mon_ctx st)\<lparr>record_split := m\<rparr>, mon_heap := h\<rparr>) }"

definition flow_insert :: "addr \<Rightarrow> mon_state \<Rightarrow> (int \<times> mon_state) option" where
  "flow_insert n st = do {
     (ret, m, h) \<leftarrow> eaf_map_insert ((dataflow_record (mon_ctx st))\<lparr>cmp_fn := flow_cmp (mon_flows st)\<rparr>) n (mon_heap st);
     Some (ret, st\<lparr>mon_ctx := (mon_ctx st)\<lparr>dataflow_record := m\<rparr>, mon_heap := h\<rparr>) }"

definition group_erase :: "addr \<Rightarrow> mon_state \<Rightarrow> mon_state option" where
  "group_erase n st = do {
     (m, h) \<leftarrow> eaf_map_erase (record_group (mon_ctx st)) n (mon_heap st);
     Some (st\<lparr>mon_ctx := (mon_ctx st)\<lparr>record_group := m\<rparr>, mon_heap := h\<rparr>) }"

definition split_erase :: "addr \<Rightarrow> mon_state \<Rightarrow> mon_state option" where
  "split_erase n st = do {
     (m, h) \<leftarrow> eaf_map_erase (record_split (mon_ctx st)) n (mon_heap st);
     Some (st\<lparr>mon_ctx := (mon_ctx st)\<lparr>record_split := m\<rparr>, mon_heap := h\<rparr>) }"

definition flow_erase :: "addr \<Rightarrow> mon_state \<Rightarrow> mon_state option" where
  "flow_erase n st = do {
     (m, h) \<leftarrow> eaf_map_erase (dataflow_record (mon_ctx st)) n (mon_heap st);
     Some (st\<lparr>mon_ctx := (mon_ctx st)\<lparr>dataflow_record := m\<rparr>, mon_heap := h\<rparr>) }"

definition upd_rec :: "addr \<Rightarrow> (monitor_service_record \<Rightarrow> monitor_service_record) \<Rightarrow> mon_state \<Rightarrow> mon_state option" where
  "upd_rec n f st = map_option (\<lambda>r. st\<lparr>mon_recs := (mon_recs st)(n \<mapsto> f r)\<rparr>) (mon_recs st n)"

text \<open>\<open>group.table[i]\<close>, read and changed.\<close>

definition group_at :: "nat \<Rightarrow> mon_state \<Rightarrow> monitor_group_record option" where
  "group_at i st = do {
     table \<leftarrow> mon_group_table (mon_ctx st);
     if i < length table then Some (table ! i) else None }"

definition upd_group_at :: "nat \<Rightarrow> (monitor_group_record \<Rightarrow> monitor_group_record) \<Rightarrow> mon_state \<Rightarrow> mon_state option" where
  "upd_group_at i f st = do {
     g \<leftarrow> group_at i st;
     table \<leftarrow> mon_group_table (mon_ctx st);
     Some (st\<lparr>mon_ctx := (mon_ctx st)\<lparr>mon_group_table := Some (table[i := f g])\<rparr>\<rparr>) }"

subsection \<open>Counting\<close>

text \<open>The key of a search is a local record of which only the identifier is set.\<close>

definition service_key :: "u32 \<Rightarrow> monitor_service_record" where
  "service_key sid = \<lparr>mr_data = \<lparr>ms_gid = 0, ms_sid = sid, ms_sls = (0, 0)\<rparr>,
     mr_counter = \<lparr>flush_send = 0, flush_recv = 0, flush_use_time = 0, total_send = 0, total_recv = 0\<rparr>, use_time_start = 0\<rparr>"

definition monitor_find_serivce :: "addr \<Rightarrow> u32 \<Rightarrow> mon_state \<Rightarrow> ptr option" where
  "monitor_find_serivce tmp_key sid st = do {
     it \<leftarrow> eaf_map_find ((record_split (mon_ctx st))\<lparr>cmp_fn := split_cmp ((mon_recs st)(tmp_key \<mapsto> service_key sid))\<rparr>)
       (tmp_key + n_split_offset) (mon_heap st);
     Some (case it of None \<Rightarrow> None | Some n \<Rightarrow> Some (n - n_split_offset)) }"

definition monitor_update_counter_send :: "addr \<Rightarrow> u32 \<Rightarrow> mon_state \<Rightarrow> mon_state option" where
  "monitor_update_counter_send tmp_key sid st = do {
     found \<leftarrow> monitor_find_serivce tmp_key sid st;
     record \<leftarrow> found;
     st \<leftarrow> upd_rec record (\<lambda>r. r\<lparr>mr_counter := (mr_counter r)\<lparr>flush_send := flush_send (mr_counter r) + 1\<rparr>\<rparr>) st;
     upd_rec record (\<lambda>r. r\<lparr>mr_counter := (mr_counter r)\<lparr>total_send := total_send (mr_counter r) + 1\<rparr>\<rparr>) st }"

definition monitor_dataflow_insert_new_record :: "ptr \<Rightarrow> u32 \<Rightarrow> u32 \<Rightarrow> mon_state \<Rightarrow> mon_state option" where
  "monitor_dataflow_insert_new_record mem from to st =
     (case mem of
        None \<Rightarrow> Some st
      | Some record \<Rightarrow> do {
          let st = st\<lparr>mon_flows := (mon_flows st)(record \<mapsto> \<lparr>md_from = from, md_to = to, md_count = 1\<rparr>)\<rparr>;
          (ret, st) \<leftarrow> flow_insert record st;
          if ret \<noteq> 0 then None else Some st })"

definition monitor_update_message_path :: "ptr \<Rightarrow> addr \<Rightarrow> u32 \<Rightarrow> u32 \<Rightarrow> mon_state \<Rightarrow> mon_state option" where
  "monitor_update_message_path mem tmp_key from to st = do {
     let key = \<lparr>md_from = from, md_to = to, md_count = 0\<rparr>;
     it \<leftarrow> eaf_map_find ((dataflow_record (mon_ctx st))\<lparr>cmp_fn := flow_cmp ((mon_flows st)(tmp_key \<mapsto> key))\<rparr>) tmp_key (mon_heap st);
     case it of
       None \<Rightarrow> monitor_dataflow_insert_new_record mem from to st
     | Some record \<Rightarrow> do {
         d \<leftarrow> mon_flows st record;
         Some (st\<lparr>mon_flows := (mon_flows st)(record \<mapsto> d\<lparr>md_count := md_count d + 1\<rparr>)\<rparr>) } }"

subsection \<open>The hooks\<close>

definition monitor_on_message_send_after :: "ptr \<Rightarrow> addr \<Rightarrow> u32 \<Rightarrow> u32 \<Rightarrow> int \<Rightarrow> mon_state \<Rightarrow> mon_state option" where
  "monitor_on_message_send_after mem tmp_key from to ret st =
     (if ret < 0 then Some st
      else do {
        st \<leftarrow> monitor_update_message_path mem tmp_key from to st;
        monitor_update_counter_send tmp_key from st })"

definition monitor_on_message_handle_before :: "u64 \<Rightarrow> addr \<Rightarrow> u32 \<Rightarrow> mon_state \<Rightarrow> (int \<times> mon_state) option" where
  "monitor_on_message_handle_before uv_hrtime tmp_key to st = do {
     found \<leftarrow> monitor_find_serivce tmp_key to st;
     case found of
       None \<Rightarrow> Some (0, st)
     | Some record \<Rightarrow> do {
         st \<leftarrow> upd_rec record (\<lambda>r. r\<lparr>use_time_start := uv_hrtime\<rparr>) st;
         Some (0, st) } }"

definition monitor_on_message_handle_after :: "u64 \<Rightarrow> addr \<Rightarrow> u32 \<Rightarrow> mon_state \<Rightarrow> mon_state option" where
  "monitor_on_message_handle_after uv_hrtime tmp_key to st = do {
     found \<leftarrow> monitor_find_serivce tmp_key to st;
     case found of
       None \<Rightarrow> Some st
     | Some record \<Rightarrow> do {
         r \<leftarrow> mon_recs st record;
         let use_time = uv_hrtime - use_time_start r;
         st \<leftarrow> upd_rec record (\<lambda>r. r\<lparr>mr_counter := (mr_counter r)\<lparr>flush_recv := flush_recv (mr_counter r) + 1,
           flush_use_time := flush_use_time (mr_counter r) + use_time\<rparr>\<rparr>) st;
         st \<leftarrow> upd_rec record (\<lambda>r. r\<lparr>mr_counter := (mr_counter r)\<lparr>total_recv := total_recv (mr_counter r) + 1\<rparr>\<rparr>) st;
         upd_group_at (unat (ms_gid (mr_data r))) (\<lambda>g. g\<lparr>mg_use_time := mg_use_time g + use_time\<rparr>) st } }"

text \<open>\<open>_monitor_on_load_before\<close>. For each service a parameter gives the address that \<open>malloc\<close> returns and the
  value of the one field that is not set.\<close>

definition monitor_add_service ::
  "(nat \<times> nat \<Rightarrow> (addr \<times> u64) option) \<Rightarrow> (nat \<times> nat \<Rightarrow> int) \<Rightarrow> nat \<Rightarrow> nat \<times> nat \<Rightarrow> mon_state \<Rightarrow> mon_state option" where
  "monitor_add_service mem uv_mutex_init idx sls st = do {
     (record, junk) \<leftarrow> mem sls;
     v \<leftarrow> srv (mon_world st) sls;
     let st = st\<lparr>mon_recs := (mon_recs st)(record \<mapsto>
       \<lparr>mr_data = \<lparr>ms_gid = of_nat idx, ms_sid = s_id v, ms_sls = sls\<rparr>,
        mr_counter = \<lparr>flush_send = 0, flush_recv = 0, flush_use_time = 0, total_send = 0, total_recv = 0\<rparr>, use_time_start = junk\<rparr>)\<rparr>;
     if uv_mutex_init sls < 0 then Some (st\<lparr>mon_recs := (mon_recs st)(record := None)\<rparr>)
     else do {
       (ret, st) \<leftarrow> split_insert (record + n_split_offset) st;
       if ret < 0 then Some (st\<lparr>mon_recs := (mon_recs st)(record := None)\<rparr>)
       else do { (_, st) \<leftarrow> group_insert record st; Some st } } }"

partial_function (option) load_services_loop ::
  "(nat \<times> nat \<Rightarrow> (addr \<times> u64) option) \<Rightarrow> (nat \<times> nat \<Rightarrow> int) \<Rightarrow> nat \<Rightarrow> nat \<Rightarrow> (nat \<times> nat) option \<Rightarrow> mon_state \<Rightarrow> mon_state option" where
  "load_services_loop mem uv_mutex_init idx gls sls st =
     (case sls of
        None \<Rightarrow> Some st
      | Some s \<Rightarrow> do {
          st \<leftarrow> monitor_add_service mem uv_mutex_init idx s st;
          sls \<leftarrow> eaf_service_next gls s (mon_world st);
          load_services_loop mem uv_mutex_init idx gls sls st })"

partial_function (option) load_groups_loop ::
  "(nat \<times> nat \<Rightarrow> (addr \<times> u64) option) \<Rightarrow> (nat \<times> nat \<Rightarrow> int) \<Rightarrow> (nat \<Rightarrow> int) \<Rightarrow> nat option \<Rightarrow> nat \<Rightarrow> mon_state \<Rightarrow> mon_state option" where
  "load_groups_loop mem uv_mutex_init group_mutex_init gls idx st =
     (case gls of
        None \<Rightarrow> Some st
      | Some gi \<Rightarrow>
          if idx < unat (mon_group_size (mon_ctx st)) then do {
            table \<leftarrow> mon_group_table (mon_ctx st);
            let st = st\<lparr>mon_ctx := (mon_ctx st)\<lparr>mon_group_table := Some (table @ [\<lparr>mg_gls = gi, mg_use_time = 0\<rparr>])\<rparr>\<rparr>;
            if group_mutex_init idx < 0 then None
            else do {
              st \<leftarrow> load_services_loop mem uv_mutex_init idx gi (eaf_service_begin gi (mon_world st)) st;
              gls \<leftarrow> eaf_group_next gi (mon_world st);
              load_groups_loop mem uv_mutex_init group_mutex_init gls (idx + 1) st } }
          else Some st)"

declare load_services_loop.simps [code] load_groups_loop.simps [code]

definition monitor_on_load_before ::
  "bool \<Rightarrow> (nat \<times> nat \<Rightarrow> (addr \<times> u64) option) \<Rightarrow> (nat \<times> nat \<Rightarrow> int) \<Rightarrow> (nat \<Rightarrow> int) \<Rightarrow> mon_state \<Rightarrow> mon_state option" where
  "monitor_on_load_before table_allocated mem uv_mutex_init group_mutex_init st = do {
     sz \<leftarrow> eaf_group_size (mon_world st);
     if \<not> table_allocated then None
     else load_groups_loop mem uv_mutex_init group_mutex_init (eaf_group_begin (mon_world st)) 0
       (st\<lparr>mon_ctx := (mon_ctx st)\<lparr>mon_group_size := of_nat sz, mon_group_table := Some []\<rparr>\<rparr>) }"

subsection \<open>Resetting\<close>

partial_function (option) reset_services_loop :: "ptr \<Rightarrow> mon_state \<Rightarrow> mon_state option" where
  "reset_services_loop it st =
     (case it of
        None \<Rightarrow> Some st
      | Some n \<Rightarrow> do {
          st \<leftarrow> upd_rec n (\<lambda>r. r\<lparr>mr_counter := (mr_counter r)\<lparr>flush_send := 0, flush_recv := 0, flush_use_time := 0\<rparr>\<rparr>) st;
          it \<leftarrow> eaf_map_next n (mon_heap st);
          reset_services_loop it st })"

fun reset_groups_loop :: "nat \<Rightarrow> nat \<Rightarrow> mon_state \<Rightarrow> mon_state option" where
  "reset_groups_loop i 0 st = Some st"
| "reset_groups_loop i (Suc k) st = do {
     st \<leftarrow> upd_group_at i (\<lambda>g. g\<lparr>mg_use_time := 0\<rparr>) st;
     reset_groups_loop (i + 1) k st }"

definition monitor_reset_flush_nolock :: "mon_state \<Rightarrow> mon_state option" where
  "monitor_reset_flush_nolock st = do {
     it \<leftarrow> eaf_map_begin (record_group (mon_ctx st)) (mon_heap st);
     st \<leftarrow> reset_services_loop it st;
     reset_groups_loop 0 (unat (mon_group_size (mon_ctx st))) st }"

subsection \<open>Reports\<close>

definition monitor_state_2_string :: "srv_state \<Rightarrow> string" where
  "monitor_state_2_string s =
     (case s of
        eaf_service_state_init0 \<Rightarrow> ''init0''
      | eaf_service_state_init1 \<Rightarrow> ''init1''
      | eaf_service_state_init2 \<Rightarrow> ''init2''
      | eaf_service_state_idle \<Rightarrow> ''idle''
      | eaf_service_state_busy \<Rightarrow> ''busy''
      | eaf_service_state_yield \<Rightarrow> ''yield''
      | eaf_service_state_exit0 \<Rightarrow> ''exit0''
      | eaf_service_state_exit1 \<Rightarrow> ''exit1'')"

definition newline :: char where "newline = CHR 0x0A"

definition use_msec :: "monitor_service_record \<Rightarrow> u32" where
  "use_msec r = ucast (flush_use_time (mr_counter r) div 1000 div 1000)"

definition normal_head :: string where
  "normal_head = ''[SERVICE]    [STATE]   [RECV]   [SEND] [MSGQ] [TIME] [CPU%]'' @ [newline]"

definition normal_group :: "u32 \<Rightarrow> u64 \<Rightarrow> string" where
  "normal_group gid tid = digits 10 (unat gid) @ '':'' @ digits 10 (unat tid) @ [newline]"

definition normal_service :: "string \<Rightarrow> srv_state \<Rightarrow> u32 \<Rightarrow> monitor_service_record \<Rightarrow> string" where
  "normal_service cpu state msgq r =
     ''|-0x'' @ pad_left 8 CHR ''0'' (digits 16 (unat (ms_sid (mr_data r)))) @ '' '' @
     pad_right 7 CHR '' '' (monitor_state_2_string state) @ '' '' @
     pad_left 8 CHR '' '' (digits 10 (unat (flush_recv (mr_counter r)))) @ '' '' @
     pad_left 8 CHR '' '' (digits 10 (unat (flush_send (mr_counter r)))) @ '' '' @
     pad_left 6 CHR '' '' (digits 10 (unat msgq)) @ '' '' @
     pad_left 6 CHR '' '' (digits 10 (unat (use_msec r))) @ ''  '' @
     pad_left 5 CHR '' '' cpu @ [newline]"

definition json_group :: "u32 \<Rightarrow> u64 \<Rightarrow> string" where
  "json_group gid tid = ''{\"gid\":'' @ digits 10 (unat gid) @ '',\"tid\":'' @ digits 10 (unat tid) @ '',\"service\":[''"

definition json_service :: "string \<Rightarrow> srv_state \<Rightarrow> u32 \<Rightarrow> monitor_service_record \<Rightarrow> string" where
  "json_service cpu state msgq r =
     ''{\"id\":'' @ digits 10 (unat (ms_sid (mr_data r))) @
     '',\"state\":\"'' @ monitor_state_2_string state @
     ''\",\"recv\":'' @ digits 10 (unat (flush_recv (mr_counter r))) @
     '',\"send\":'' @ digits 10 (unat (flush_send (mr_counter r))) @
     '',\"msgq\":'' @ digits 10 (unat msgq) @
     '',\"time\":'' @ digits 10 (unat (use_msec r)) @
     '',\"cpu\":'' @ cpu @ ''}''"

text \<open>\<open>write_size += eaf_string_apply(buffer, size, &token, text)\<close>; the text of the line of a record.\<close>

definition emit :: "size_t \<Rightarrow> string \<Rightarrow> size_t \<times> size_t \<times> string \<Rightarrow> (size_t \<times> size_t \<times> string) option" where
  "emit sz piece x = apply_all sz [piece] x"

definition service_line ::
  "(u64 \<Rightarrow> u64 \<Rightarrow> string) \<Rightarrow> (string \<Rightarrow> srv_state \<Rightarrow> u32 \<Rightarrow> monitor_service_record \<Rightarrow> string) \<Rightarrow>
     mon_state \<Rightarrow> monitor_service_record \<Rightarrow> monitor_group_record \<Rightarrow> string option" where
  "service_line cpu_text line st r g = do {
     v \<leftarrow> srv (mon_world st) (ms_sls (mr_data r));
     msgq \<leftarrow> eaf_message_queue_size (ms_sls (mr_data r)) (mon_world st);
     Some (line (cpu_text (flush_use_time (mr_counter r)) (mg_use_time g)) (s_state v) (of_nat msgq) r) }"

definition tid_of :: "mon_state \<Rightarrow> monitor_group_record \<Rightarrow> u64 option" where
  "tid_of st g = map_option g_tid (grp (mon_world st) (mg_gls g))"

partial_function (option) normal_fill_loop ::
  "(u64 \<Rightarrow> u64 \<Rightarrow> string) \<Rightarrow> mon_state \<Rightarrow> size_t \<Rightarrow> u32 \<Rightarrow> monitor_group_record option \<Rightarrow> ptr \<Rightarrow> size_t \<times> size_t \<times> string \<Rightarrow>
     (size_t \<times> size_t \<times> string) option" where
  "normal_fill_loop cpu_text st sz last_gid g_record it x =
     (case it of
        None \<Rightarrow> Some x
      | Some n \<Rightarrow> do {
          r \<leftarrow> mon_recs st n;
          (last_gid, g_record, x) \<leftarrow>
            (if last_gid \<noteq> ms_gid (mr_data r) then do {
               g \<leftarrow> group_at (unat (ms_gid (mr_data r))) st;
               tid \<leftarrow> tid_of st g;
               x \<leftarrow> emit sz (normal_group (ms_gid (mr_data r)) tid) x;
               Some (ms_gid (mr_data r), Some g, x) }
             else Some (last_gid, g_record, x));
          g \<leftarrow> g_record;
          line \<leftarrow> service_line cpu_text normal_service st r g;
          x \<leftarrow> emit sz line x;
          it \<leftarrow> eaf_map_next n (mon_heap st);
          normal_fill_loop cpu_text st sz last_gid g_record it x })"

definition monitor_stringify_normal_fill_nolock ::
  "(u64 \<Rightarrow> u64 \<Rightarrow> string) \<Rightarrow> string \<Rightarrow> size_t \<Rightarrow> mon_state \<Rightarrow> (size_t \<times> string) option" where
  "monitor_stringify_normal_fill_nolock cpu_text buffer sz st = do {
     x \<leftarrow> emit sz normal_head (0, 0, buffer);
     it \<leftarrow> eaf_map_begin (record_group (mon_ctx st)) (mon_heap st);
     (write_size, _, buffer) \<leftarrow> normal_fill_loop cpu_text st sz (- 1) None it x;
     Some (write_size, buffer) }"

partial_function (option) json_fill_loop ::
  "(u64 \<Rightarrow> u64 \<Rightarrow> string) \<Rightarrow> mon_state \<Rightarrow> size_t \<Rightarrow> bool \<Rightarrow> u32 \<Rightarrow> monitor_group_record option \<Rightarrow> ptr \<Rightarrow> size_t \<times> size_t \<times> string \<Rightarrow>
     (size_t \<times> size_t \<times> string) option" where
  "json_fill_loop cpu_text st sz flag_write_service_end last_gid g_record it x =
     (case it of
        None \<Rightarrow> Some x
      | Some n \<Rightarrow> do {
          r \<leftarrow> mon_recs st n;
          (flag_write_service_end, last_gid, g_record, x) \<leftarrow>
            (if last_gid \<noteq> ms_gid (mr_data r) then do {
               x \<leftarrow> (if g_record \<noteq> None then emit sz '']},'' x else Some x);
               g \<leftarrow> group_at (unat (ms_gid (mr_data r))) st;
               tid \<leftarrow> tid_of st g;
               x \<leftarrow> emit sz (json_group (ms_gid (mr_data r)) tid) x;
               Some (False, ms_gid (mr_data r), Some g, x) }
             else Some (flag_write_service_end, last_gid, g_record, x));
          x \<leftarrow> (if flag_write_service_end then emit sz '','' x else Some x);
          g \<leftarrow> g_record;
          line \<leftarrow> service_line cpu_text json_service st r g;
          x \<leftarrow> emit sz line x;
          it \<leftarrow> eaf_map_next n (mon_heap st);
          json_fill_loop cpu_text st sz True last_gid g_record it x })"

declare reset_services_loop.simps [code] normal_fill_loop.simps [code] json_fill_loop.simps [code]

definition monitor_stringify_json_fill_nolock ::
  "(u64 \<Rightarrow> u64 \<Rightarrow> string) \<Rightarrow> string \<Rightarrow> size_t \<Rightarrow> mon_state \<Rightarrow> (size_t \<times> string) option" where
  "monitor_stringify_json_fill_nolock cpu_text buffer sz st = do {
     x \<leftarrow> emit sz ''{\"group\":['' (0, 0, buffer);
     it \<leftarrow> eaf_map_begin (record_group (mon_ctx st)) (mon_heap st);
     x \<leftarrow> json_fill_loop cpu_text st sz False (- 1) None it x;
     (write_size, _, buffer) \<leftarrow> emit sz '']}]}'' x;
     Some (write_size, buffer) }"

definition normal_string_size :: "mon_state \<Rightarrow> size_t" where
  "normal_string_size st = 60 + 32 * mon_group_size (mon_ctx st) + 60 * eaf_map_size (record_split (mon_ctx st)) + 1"

definition json_string_size :: "mon_state \<Rightarrow> size_t" where
  "json_string_size st = 12 + 59 * mon_group_size (mon_ctx st) + 120 * eaf_map_size (record_split (mon_ctx st)) + 1"

text \<open>Sending a response with contents: the data are written where \<open>eaf_msg_get_data\<close> points.\<close>

definition monitor_respond :: "env \<Rightarrow> u32 \<Rightarrow> addr \<Rightarrow> size_t \<Rightarrow> (mon_state \<Rightarrow> (mon_payload \<times> mon_state) option) \<Rightarrow> mon_state \<Rightarrow> mon_state option" where
  "monitor_respond E from req data_sz contents st = do {
     full \<leftarrow> w_mheap (mon_world st) req;
     (case eaf_msg_create_rsp (e_menv E (mon_world st)) (w_mheap (mon_world st)) (msg full) data_sz of
        (None, H) \<Rightarrow> None
      | (Some rsp, H) \<Rightarrow> do {
          (d, _) \<leftarrow> eaf_msg_get_data H rsp;
          a \<leftarrow> d;
          (x, st) \<leftarrow> contents (st\<lparr>mon_world := (mon_world st)\<lparr>w_mheap := H\<rparr>\<rparr>);
          let st = st\<lparr>mon_payload := (mon_payload st)(a \<mapsto> x)\<rparr>;
          (_, w) \<leftarrow> eaf_send_rsp E EAF_MONITOR_ID from rsp (mon_world st);
          H \<leftarrow> eaf_msg_dec_ref (w_mheap w) rsp;
          Some (st\<lparr>mon_world := w\<lparr>w_mheap := H\<rparr>\<rparr>) }) }"

definition monitor_on_req_stringify_error :: "env \<Rightarrow> u32 \<Rightarrow> addr \<Rightarrow> mon_state \<Rightarrow> mon_state option" where
  "monitor_on_req_stringify_error E from req = monitor_respond E from req 8 (\<lambda>st. Some (Mon_string 0 '''', st))"

definition monitor_on_req_stringify_normal :: "env \<Rightarrow> (u64 \<Rightarrow> u64 \<Rightarrow> string) \<Rightarrow> char \<Rightarrow> u32 \<Rightarrow> addr \<Rightarrow> mon_state \<Rightarrow> mon_state option" where
  "monitor_on_req_stringify_normal E cpu_text junk from req st =
     (let string_size = normal_string_size st in
      monitor_respond E from req (8 + string_size) (\<lambda>st. do {
        (sz, data) \<leftarrow> monitor_stringify_normal_fill_nolock cpu_text (replicate (unat string_size) junk) string_size st;
        Some (Mon_string sz data, st) }) st)"

definition monitor_on_req_stringify_json :: "env \<Rightarrow> (u64 \<Rightarrow> u64 \<Rightarrow> string) \<Rightarrow> char \<Rightarrow> u32 \<Rightarrow> addr \<Rightarrow> mon_state \<Rightarrow> mon_state option" where
  "monitor_on_req_stringify_json E cpu_text junk from req st =
     (let string_size = json_string_size st in
      monitor_respond E from req (8 + string_size) (\<lambda>st. do {
        (sz, data) \<leftarrow> monitor_stringify_json_fill_nolock cpu_text (replicate (unat string_size) junk) string_size st;
        Some (Mon_string sz data, st) }) st)"

text \<open>The type in the request: 0 for \<open>normal\<close>, 1 for \<open>json\<close>.\<close>

definition monitor_on_req_stringify ::
  "env \<Rightarrow> (u64 \<Rightarrow> u64 \<Rightarrow> string) \<Rightarrow> char \<Rightarrow> u32 \<Rightarrow> u32 \<Rightarrow> addr \<Rightarrow> mon_state \<Rightarrow> mon_state option" where
  "monitor_on_req_stringify E cpu_text junk req_type from req st = do {
     (d, _) \<leftarrow> eaf_msg_get_data (w_mheap (mon_world st)) req;
     _ \<leftarrow> d;
     if req_type = 0 then monitor_on_req_stringify_normal E cpu_text junk from req st
     else if req_type = 1 then monitor_on_req_stringify_json E cpu_text junk from req st
     else monitor_on_req_stringify_error E from req st }"

definition monitor_on_req_flush :: "env \<Rightarrow> u32 \<Rightarrow> addr \<Rightarrow> mon_state \<Rightarrow> mon_state option" where
  "monitor_on_req_flush E from req st = do {
     st \<leftarrow> monitor_reset_flush_nolock st;
     monitor_respond E from req 4 (\<lambda>st. Some (Mon_ret eaf_errno_success, st)) st }"

subsection \<open>The timer and the service\<close>

text \<open>\<open>EAF_TIMER_DELAY\<close>.\<close>

definition monitor_delay :: "env \<Rightarrow> fnptr \<Rightarrow> mon_state \<Rightarrow> (int \<times> mon_state) option" where
  "monitor_delay E rsp_fn st =
     (case eaf_msg_create_req (e_menv E (mon_world st)) (w_mheap (mon_world st)) EAF_TIMER_MSG_DELAY_REQ 4 rsp_fn of
        (None, H) \<Rightarrow> Some (eaf_errno_memory, st\<lparr>mon_world := (mon_world st)\<lparr>w_mheap := H\<rparr>\<rparr>)
      | (Some req, H) \<Rightarrow> do {
          (d, _) \<leftarrow> eaf_msg_get_data H req;
          a \<leftarrow> d;
          (ret, w) \<leftarrow> eaf_send_req E EAF_MONITOR_ID EAF_TIMER_ID req ((mon_world st)\<lparr>w_mheap := H\<rparr>);
          H \<leftarrow> eaf_msg_dec_ref (w_mheap w) req;
          Some (ret, st\<lparr>mon_payload := (mon_payload st)(a \<mapsto> Mon_delay (timeout_sec (mon_ctx st) * 1000)), mon_world := w\<lparr>w_mheap := H\<rparr>\<rparr>) })"

definition monitor_on_timer :: "env \<Rightarrow> int \<Rightarrow> fnptr \<Rightarrow> mon_state \<Rightarrow> mon_state option" where
  "monitor_on_timer E uv_mutex_trylock on_timer st =
     (if uv_mutex_trylock < 0 then Some st
      else do {
        st \<leftarrow> monitor_reset_flush_nolock st;
        (_, st) \<leftarrow> monitor_delay E on_timer st;
        Some st })"

definition monitor_on_service_init :: "env \<Rightarrow> fnptr \<Rightarrow> mon_state \<Rightarrow> mon_state option" where
  "monitor_on_service_init E on_timer st = do {
     (ret, st) \<leftarrow> monitor_delay E on_timer st;
     if ret < 0 then do { (_, w) \<leftarrow> eaf_exit E ret (mon_world st); Some (st\<lparr>mon_world := w\<rparr>) } else Some st }"

definition eaf_monitor_init ::
  "env \<Rightarrow> u32 \<Rightarrow> int \<Rightarrow> int \<Rightarrow> addr \<Rightarrow> size_t \<Rightarrow> fnptr \<Rightarrow> fnptr \<Rightarrow> fnptr \<Rightarrow> fnptr \<Rightarrow> mon_state \<Rightarrow> pp_state \<Rightarrow> (int \<times> mon_state \<times> pp_state) option" where
  "eaf_monitor_init E sec uv_rwlock_init uv_mutex_init hook sizeof_hook on_req_stringify on_req_flush on_init on_exit st pp =
     (let st = st\<lparr>mon_ctx := (mon_ctx st)\<lparr>timeout_sec := sec\<rparr>\<rparr> in
      if uv_rwlock_init < 0 then Some (eaf_errno_unknown, st, pp)
      else if uv_mutex_init < 0 then Some (eaf_errno_unknown, st, pp)
      else do {
        (ret, pp) \<leftarrow> eaf_powerpack_hook_register hook sizeof_hook sizeof_hook pp;
        if ret < 0 then Some (ret, st, pp)
        else do {
          let entry = \<lparr>msg_table = [(EAF_MINITOR_MSG_STRINGIFY_REQ, on_req_stringify), (EAF_MONITOR_MSG_FLUSH_REQ, on_req_flush)],
            ep_on_init = on_init, ep_on_exit = on_exit\<rparr>;
          (ret, w) \<leftarrow> eaf_register E EAF_MONITOR_ID entry (mon_world st);
          let st = st\<lparr>mon_world := w\<rparr>;
          if ret < 0 then do { pp \<leftarrow> eaf_powerpack_hook_unregister hook pp; Some (ret, st, pp) }
          else Some (eaf_errno_success, st, pp) } })"

partial_function (option) exit_services_loop :: "ptr \<Rightarrow> mon_state \<Rightarrow> mon_state option" where
  "exit_services_loop it st =
     (case it of
        None \<Rightarrow> Some st
      | Some tmp \<Rightarrow> do {
          it \<leftarrow> eaf_map_next tmp (mon_heap st);
          st \<leftarrow> split_erase tmp st;
          st \<leftarrow> group_erase (tmp - n_split_offset) st;
          exit_services_loop it (st\<lparr>mon_recs := (mon_recs st)(tmp - n_split_offset := None)\<rparr>) })"

partial_function (option) exit_flows_loop :: "ptr \<Rightarrow> mon_state \<Rightarrow> mon_state option" where
  "exit_flows_loop it st =
     (case it of
        None \<Rightarrow> Some st
      | Some tmp \<Rightarrow> do {
          it \<leftarrow> eaf_map_next tmp (mon_heap st);
          st \<leftarrow> flow_erase tmp st;
          exit_flows_loop it (st\<lparr>mon_flows := (mon_flows st)(tmp := None)\<rparr>) })"

declare exit_services_loop.simps [code] exit_flows_loop.simps [code]

text \<open>The flag \<open>refresh_timer_running\<close> is never set, so the wait before the loops is empty.\<close>

definition eaf_monitor_exit :: "mon_state \<Rightarrow> mon_state option" where
  "eaf_monitor_exit st = do {
     it \<leftarrow> eaf_map_begin (record_split (mon_ctx st)) (mon_heap st);
     st \<leftarrow> exit_services_loop it st;
     it \<leftarrow> eaf_map_begin (dataflow_record (mon_ctx st)) (mon_heap st);
     st \<leftarrow> exit_flows_loop it st;
     Some (st\<lparr>mon_ctx := (mon_ctx st)\<lparr>mon_group_table := None\<rparr>\<rparr>) }"

end
