(* ===== verification/MonitorInv.thy ===== *)
theory MonitorInv
  imports Monitor ServiceClient ServiceProps
begin

text \<open>
  The invariant of the monitor: its three maps hold the records of the services, under two orders, and of
  the message paths (\<open>mon_tables\<close>). The effect of each counting operation on them.
\<close>

subsection \<open>The tables\<close>

abbreviation rec_gid :: "mon_recs \<Rightarrow> addr \<Rightarrow> u32" where
  "rec_gid R \<equiv> \<lambda>a. ms_gid (mr_data (the (R a)))"

abbreviation rec_sid :: "mon_recs \<Rightarrow> addr \<Rightarrow> u32" where
  "rec_sid R \<equiv> \<lambda>a. ms_sid (mr_data (the (R a)))"

abbreviation group_key :: "mon_recs \<Rightarrow> addr \<Rightarrow> u32 \<times> u32" where
  "group_key R \<equiv> \<lambda>a. (rec_gid R a, rec_sid R a)"

abbreviation split_key :: "mon_recs \<Rightarrow> addr \<Rightarrow> u32" where
  "split_key R \<equiv> \<lambda>a. rec_sid R (a - n_split_offset)"

abbreviation flow_key :: "(addr \<Rightarrow> monitor_dataflow_data option) \<Rightarrow> addr \<Rightarrow> u32 \<times> u32" where
  "flow_key F \<equiv> \<lambda>a. (md_from (the (F a)), md_to (the (F a)))"

definition mon_tables :: "mon_state \<Rightarrow> addr list \<Rightarrow> addr list \<Rightarrow> addr list \<Rightarrow> bool" where
  "mon_tables st gs ss fs \<longleftrightarrow>
     map_ok (group_key (mon_recs st)) (mon_heap st) (record_group (mon_ctx st)) gs \<and>
     map_ok (split_key (mon_recs st)) (mon_heap st) (record_split (mon_ctx st)) ss \<and>
     map_ok (flow_key (mon_flows st)) (mon_heap st) (dataflow_record (mon_ctx st)) fs \<and>
     set ss = (\<lambda>a. a + n_split_offset) ` set gs \<and> set gs \<inter> set ss = {} \<and> (set gs \<union> set ss) \<inter> set fs = {} \<and>
     dom (mon_recs st) = set gs \<and> dom (mon_flows st) = set fs"

lemma mon_tablesD:
  assumes "mon_tables st gs ss fs"
  shows "map_ok (group_key (mon_recs st)) (mon_heap st) (record_group (mon_ctx st)) gs"
    "map_ok (split_key (mon_recs st)) (mon_heap st) (record_split (mon_ctx st)) ss"
    "map_ok (flow_key (mon_flows st)) (mon_heap st) (dataflow_record (mon_ctx st)) fs"
    "set ss = (\<lambda>a. a + n_split_offset) ` set gs" "set gs \<inter> set ss = {}" "(set gs \<union> set ss) \<inter> set fs = {}"
    "dom (mon_recs st) = set gs" "dom (mon_flows st) = set fs"
  using assms unfolding mon_tables_def by blast+

lemma mon_tablesI:
  assumes "map_ok (group_key (mon_recs st)) (mon_heap st) (record_group (mon_ctx st)) gs"
    "map_ok (split_key (mon_recs st)) (mon_heap st) (record_split (mon_ctx st)) ss"
    "map_ok (flow_key (mon_flows st)) (mon_heap st) (dataflow_record (mon_ctx st)) fs"
    "set ss = (\<lambda>a. a + n_split_offset) ` set gs" "set gs \<inter> set ss = {}" "(set gs \<union> set ss) \<inter> set fs = {}"
    "dom (mon_recs st) = set gs" "dom (mon_flows st) = set fs"
  shows "mon_tables st gs ss fs"
  using assms unfolding mon_tables_def by blast

lemma mon_tables_world [simp]: "mon_tables (st\<lparr>mon_world := w\<rparr>) gs ss fs = mon_tables st gs ss fs"
  by (simp add: mon_tables_def)

lemma mon_tables_payload [simp]: "mon_tables (st\<lparr>mon_payload := p\<rparr>) gs ss fs = mon_tables st gs ss fs"
  by (simp add: mon_tables_def)

lemma mon_tables_group_table: "mon_tables (st\<lparr>mon_ctx := (mon_ctx st)\<lparr>mon_group_table := t\<rparr>\<rparr>) gs ss fs = mon_tables st gs ss fs"
  by (simp add: mon_tables_def)

text \<open>A record may change where its key does not look.\<close>

lemma mon_tables_rec:
  assumes "mon_tables st gs ss fs" "n \<in> set gs" "mr_data r = mr_data (the (mon_recs st n))"
  shows "mon_tables (st\<lparr>mon_recs := (mon_recs st)(n \<mapsto> r)\<rparr>) gs ss fs"
proof -
  note t = mon_tablesD [OF assms(1)]
  let ?R = "(mon_recs st)(n \<mapsto> r)"
  have "mr_data (the (?R a)) = mr_data (the (mon_recs st a))" for a using assms(3) by simp
  then have "group_key ?R = group_key (mon_recs st)" "split_key ?R = split_key (mon_recs st)" by (simp_all add: fun_eq_iff)
  moreover have "dom ?R = set gs" using t(7) assms(2) by auto
  ultimately show ?thesis using t unfolding mon_tables_def by simp
qed

lemma sid_unique:
  assumes "mon_tables st gs ss fs" "a \<in> set gs" "b \<in> set gs" "rec_sid (mon_recs st) a = rec_sid (mon_recs st) b"
  shows "a = b"
proof -
  note t = mon_tablesD [OF assms(1)]
  have "a + n_split_offset \<in> set ss" "b + n_split_offset \<in> set ss" using t(4) assms(2,3) by blast+
  moreover have "split_key (mon_recs st) (a + n_split_offset) = split_key (mon_recs st) (b + n_split_offset)" using assms(4) by simp
  ultimately have "a + n_split_offset = b + n_split_offset" using map_ok_inj [OF t(2)] by (meson inj_onD)
  then show ?thesis by simp
qed

lemma find_serivce_ok:
  assumes "mon_tables st gs ss fs" "tmp \<notin> dom (mon_recs st)"
  shows "monitor_find_serivce tmp sid st = Some (if \<exists>a \<in> set gs. rec_sid (mon_recs st) a = sid
    then Some (SOME a. a \<in> set gs \<and> rec_sid (mon_recs st) a = sid) else None)"
proof -
  note t = mon_tablesD [OF assms(1)]
  let ?R = "(mon_recs st)(tmp \<mapsto> service_key sid)"
  have in_ss: "a - n_split_offset \<in> set gs \<and> a - n_split_offset \<noteq> tmp" if "a \<in> set ss" for a
    using that t(4,7) assms(2) by auto
  have m: "map_ok (split_key ?R) (mon_heap st) (record_split (mon_ctx st)) ss"
    by (rule map_ok_key [OF t(2)]) (use in_ss in simp)
  have f: "monitor_find_serivce tmp sid st = Some (case find (\<lambda>a. split_key ?R a = sid) ss of None \<Rightarrow> None | Some n \<Rightarrow> Some (n - n_split_offset))"
    using monitor_split_map.find_now [where rc = "\<lambda>a. mr_data (the (?R (a - n_split_offset)))", OF m, of "tmp + n_split_offset"]
    by (simp add: monitor_find_serivce_def split_cmp_def service_key_def)
  have key: "split_key ?R a = split_key (mon_recs st) a" if "a \<in> set ss" for a using in_ss [OF that] by simp
  show ?thesis
  proof (cases "\<exists>a \<in> set gs. rec_sid (mon_recs st) a = sid")
    case True
    then obtain a where a: "a \<in> set gs" "rec_sid (mon_recs st) a = sid" by blast
    then have ss: "a + n_split_offset \<in> set ss" using t(4) by blast
    have "find (\<lambda>b. split_key ?R b = sid) ss = Some (a + n_split_offset)"
      by (rule find_key [OF ss map_ok_inj [OF m]]) (use key [OF ss] a(2) in simp)
    moreover have "(SOME a. a \<in> set gs \<and> rec_sid (mon_recs st) a = sid) = a"
      by (rule some_equality) (use a sid_unique [OF assms(1)] in auto)
    ultimately show ?thesis using f True by simp
  next
    case False
    have "find (\<lambda>a. split_key ?R a = sid) ss = None"
      by (rule find_no_key) (use key in_ss False in auto)
    then show ?thesis using f False by simp
  qed
qed

lemma find_known:
  assumes "mon_tables st gs ss fs" "tmp \<notin> dom (mon_recs st)" "n \<in> set gs" "rec_sid (mon_recs st) n = sid"
  shows "monitor_find_serivce tmp sid st = Some (Some n)"
proof -
  have "(SOME a. a \<in> set gs \<and> rec_sid (mon_recs st) a = sid) = n"
    by (rule some_equality) (use assms(3,4) sid_unique [OF assms(1)] in auto)
  then show ?thesis using find_serivce_ok [OF assms(1,2), of sid] assms(3,4) by auto
qed

lemma find_unknown:
  assumes "mon_tables st gs ss fs" "tmp \<notin> dom (mon_recs st)" "\<forall>a \<in> set gs. rec_sid (mon_recs st) a \<noteq> sid"
  shows "monitor_find_serivce tmp sid st = Some None"
  using find_serivce_ok [OF assms(1,2), of sid] assms(3) by auto

lemma splits_length:
  assumes "mon_tables st gs ss fs"
  shows "length ss = length gs"
proof -
  note t = mon_tablesD [OF assms]
  have "length ss = card (set ss)" using map_ok_distinct [OF t(2)] by (simp add: distinct_card)
  also have "\<dots> = card (set gs)" unfolding t(4) by (rule card_image) (auto intro: inj_onI)
  also have "\<dots> = length gs" using map_ok_distinct [OF t(1)] by (simp add: distinct_card)
  finally show ?thesis .
qed

subsection \<open>Message paths\<close>

text \<open>How many messages from \<open>f\<close> to \<open>t\<close> the table has counted.\<close>

definition flow_count :: "mon_state \<Rightarrow> addr list \<Rightarrow> u32 \<Rightarrow> u32 \<Rightarrow> u64" where
  "flow_count st fs f t = (case find (\<lambda>a. flow_key (mon_flows st) a = (f, t)) fs of None \<Rightarrow> 0 | Some a \<Rightarrow> md_count (the (mon_flows st a)))"

lemma flow_count_eq:
  assumes "inj_on (flow_key (mon_flows st)) (set fs)" "a \<in> set fs"
  shows "flow_count st fs (md_from (the (mon_flows st a))) (md_to (the (mon_flows st a))) = md_count (the (mon_flows st a))"
  using find_key [OF assms(2,1)] by (simp add: flow_count_def)

lemma flow_count_key:
  assumes "inj_on (flow_key (mon_flows st)) (set fs)" "a \<in> set fs" "flow_key (mon_flows st) a = (f, t)"
  shows "flow_count st fs f t = md_count (the (mon_flows st a))"
  using flow_count_eq [OF assms(1,2)] assms(3) by simp

lemma flow_count_none:
  assumes "\<forall>a \<in> set fs. flow_key (mon_flows st) a \<noteq> (f, t)"
  shows "flow_count st fs f t = 0"
  using find_no_key [of fs "flow_key (mon_flows st)" "(f, t)"] assms by (simp add: flow_count_def)

text \<open>Two tables with the same keyed counts.\<close>

lemma flow_count_cases:
  assumes "inj_on (flow_key (mon_flows st)) (set fs)"
  obtains a where "a \<in> set fs" "flow_key (mon_flows st) a = (f, t)" "flow_count st fs f t = md_count (the (mon_flows st a))"
  | "\<forall>a \<in> set fs. flow_key (mon_flows st) a \<noteq> (f, t)" "flow_count st fs f t = 0"
  using flow_count_eq [OF assms] flow_count_none [of fs st f t] by (metis prod.inject)

lemma path_ok:
  assumes "mon_tables st gs ss fs" "tmp \<notin> dom (mon_flows st)" "a \<notin> set gs \<union> set ss \<union> set fs" "Suc (length fs) < 2 ^ 64"
  shows "\<exists>st' fs'. monitor_update_message_path (Some a) tmp from to st = Some st' \<and> mon_tables st' gs ss fs' \<and>
    set fs' \<subseteq> insert a (set fs) \<and> mon_recs st' = mon_recs st \<and> mon_world st' = mon_world st \<and>
    mon_group_table (mon_ctx st') = mon_group_table (mon_ctx st) \<and> mon_group_size (mon_ctx st') = mon_group_size (mon_ctx st) \<and>
    (\<forall>f t. flow_count st' fs' f t = flow_count st fs f t + (if f = from \<and> t = to then 1 else 0))"
proof -
  note t = mon_tablesD [OF assms(1)]
  let ?key = "\<lparr>md_from = from, md_to = to, md_count = 0\<rparr>"
  let ?F = "(mon_flows st)(tmp \<mapsto> ?key)"
  have tmp: "tmp \<notin> set fs" using assms(2) t(8) by simp
  have inj: "inj_on (flow_key (mon_flows st)) (set fs)" by (rule map_ok_inj [OF t(3)])
  have m: "map_ok (flow_key ?F) (mon_heap st) (dataflow_record (mon_ctx st)) fs" by (rule map_ok_key [OF t(3)]) (use tmp in auto)
  have find: "eaf_map_find ((dataflow_record (mon_ctx st))\<lparr>cmp_fn := flow_cmp ?F\<rparr>) tmp (mon_heap st) = Some (find (\<lambda>b. flow_key (mon_flows st) b = (from, to)) fs)"
  proof -
    have "find (\<lambda>b. flow_key ?F b = flow_key ?F tmp) fs = find (\<lambda>b. flow_key (mon_flows st) b = (from, to)) fs"
      by (rule find_cong) (use tmp in auto)
    then show ?thesis using monitor_dataflow_map.find_now [where rc = "\<lambda>a. the (?F a)", OF m, of tmp] by (simp add: flow_cmp_def)
  qed
  show ?thesis
  proof (cases "\<exists>b \<in> set fs. flow_key (mon_flows st) b = (from, to)")
    case True
    then obtain b where b: "b \<in> set fs" "flow_key (mon_flows st) b = (from, to)" by blast
    obtain d where d: "mon_flows st b = Some d" using t(8) b(1) by blast
    have fb: "find (\<lambda>b. flow_key (mon_flows st) b = (from, to)) fs = Some b" by (rule find_key [OF b(1) inj b(2)])
    let ?G = "(mon_flows st)(b \<mapsto> d\<lparr>md_count := md_count d + 1\<rparr>)"
    let ?st = "st\<lparr>mon_flows := ?G\<rparr>"
    have key: "flow_key ?G = flow_key (mon_flows st)" using d by (auto simp: fun_eq_iff)
    have "dom ?G = set fs" using t(8) b(1) by auto
    then have tab: "mon_tables ?st gs ss fs" using t unfolding mon_tables_def by (simp add: key [unfolded fun_upd_def] key)
    have "flow_count ?st fs f u = flow_count st fs f u + (if f = from \<and> u = to then 1 else 0)" for f u
    proof (cases rule: flow_count_cases [OF inj, of f u])
      case (1 c)
      have G: "flow_count ?st fs f u = md_count (the (?G c))" 
      proof -
        have "inj_on (flow_key (mon_flows ?st)) (set fs)" "flow_key (mon_flows ?st) c = (f, u)" using key fun_cong [OF key, of c] inj 1(2) by simp_all
        from flow_count_key [OF this(1) 1(1) this(2)] show ?thesis by simp
      qed
      show ?thesis
      proof (cases "c = b")
        case True
        then have "f = from \<and> u = to" using 1(2) b(2) by simp
        then show ?thesis using G 1(3) d True by simp
      next
        case False
        then have "\<not> (f = from \<and> u = to)" using 1(1,2) b inj_onD [OF inj] by metis
        then show ?thesis using G 1(3) False by simp
      qed
    next
      case 2
      have "\<forall>c \<in> set fs. flow_key (mon_flows ?st) c \<noteq> (f, u)" 
      proof
        fix c assume "c \<in> set fs"
        then show "flow_key (mon_flows ?st) c \<noteq> (f, u)" using 2(1) fun_cong [OF key, of c] by simp
      qed
      then have "flow_count ?st fs f u = 0" by (rule flow_count_none)
      moreover have "\<not> (f = from \<and> u = to)" using 2(1) b by auto
      ultimately show ?thesis using 2(2) by simp
    qed
    then show ?thesis using fb d find tab by (intro exI [of _ ?st] exI [of _ fs]) (simp add: monitor_update_message_path_def subset_insertI)
  next
    case False
    then have fb: "find (\<lambda>b. flow_key (mon_flows st) b = (from, to)) fs = None" by (intro find_no_key) auto
    let ?G = "(mon_flows st)(a \<mapsto> \<lparr>md_from = from, md_to = to, md_count = 1\<rparr>)"
    have a: "a \<notin> set fs" using assms(3) by blast
    have mG: "map_ok (flow_key ?G) (mon_heap st) (dataflow_record (mon_ctx st)) fs" by (rule map_ok_key [OF t(3)]) (use a in auto)
    have keys: "flow_key ?G b \<noteq> flow_key ?G a" if "b \<in> set fs" for b using False that a by auto
    obtain m' h where i: "eaf_map_insert ((dataflow_record (mon_ctx st))\<lparr>cmp_fn := flow_cmp ?G\<rparr>) a (mon_heap st) = Some (eaf_errno_success, m', h)"
      "map_ok (flow_key ?G) h m' (insort_key (flow_key ?G) a fs)" "same_off (insert a (set fs)) (mon_heap st) h"
      using monitor_dataflow_map.insert_now [where rc = "\<lambda>a. the (?G a)", OF mG _ a assms(4) keys] by (auto simp: flow_cmp_def)
    define fs' where "fs' = insort_key (flow_key ?G) a fs"
    have set: "set fs' = insert a (set fs)" by (simp add: fs'_def set_insort_key)
    let ?st = "st\<lparr>mon_flows := ?G, mon_ctx := (mon_ctx st)\<lparr>dataflow_record := m'\<rparr>, mon_heap := h\<rparr>"
    have "map_ok (group_key (mon_recs st)) h (record_group (mon_ctx st)) gs" "map_ok (split_key (mon_recs st)) h (record_split (mon_ctx st)) ss"
      using map_ok_frame [OF t(1) i(3)] map_ok_frame [OF t(2) i(3)] t(6) assms(3) by auto
    moreover have "dom ?G = set fs'" using t(8) set by auto
    ultimately have tab: "mon_tables ?st gs ss fs'"
      using t i(2) assms(3) set unfolding mon_tables_def fs'_def [symmetric] by auto
    have injG: "inj_on (flow_key ?G) (set fs')" using map_ok_inj [OF i(2)] by (simp add: fs'_def)
    have "flow_count ?st fs' f u = flow_count st fs f u + (if f = from \<and> u = to then 1 else 0)" for f u
    proof (cases "f = from \<and> u = to")
      case True
      have "flow_count st fs f u = 0" using False True by (intro flow_count_none) auto
      moreover have "flow_count ?st fs' from to = 1" using flow_count_eq [of ?st fs' a] injG set by simp
      ultimately show ?thesis using True by simp
    next
      case other: False
      show ?thesis
      proof (cases rule: flow_count_cases [OF inj, of f u])
        case (1 c)
        then have "c \<noteq> a" "c \<in> set fs'" using a set by auto
        then show ?thesis using flow_count_eq [of ?st fs' c] injG 1 other by auto
      next
        case 2
        then have "\<forall>b \<in> set fs'. flow_key (mon_flows ?st) b \<noteq> (f, u)" using set other a by auto
        then show ?thesis using flow_count_none [of fs' ?st f u] 2(2) other by simp
      qed
    qed
    moreover have "monitor_update_message_path (Some a) tmp from to st = Some ?st"
      using fb find i(1) by (simp add: monitor_update_message_path_def monitor_dataflow_insert_new_record_def flow_insert_def eaf_errno_success_def)
    ultimately show ?thesis using tab set by (intro exI [of _ ?st] exI [of _ fs']) simp
  qed
qed

lemma counter_send_ok:
  assumes "mon_tables st gs ss fs" "tmp \<notin> dom (mon_recs st)" "n \<in> set gs" "mon_recs st n = Some r" "ms_sid (mr_data r) = sid"
  shows "\<exists>r'. monitor_update_counter_send tmp sid st = Some (st\<lparr>mon_recs := (mon_recs st)(n \<mapsto> r')\<rparr>) \<and>
    mon_tables (st\<lparr>mon_recs := (mon_recs st)(n \<mapsto> r')\<rparr>) gs ss fs \<and>
    r' = r\<lparr>mr_counter := (mr_counter r)\<lparr>flush_send := flush_send (mr_counter r) + 1, total_send := total_send (mr_counter r) + 1\<rparr>\<rparr>"
proof -
  let ?r = "r\<lparr>mr_counter := (mr_counter r)\<lparr>flush_send := flush_send (mr_counter r) + 1, total_send := total_send (mr_counter r) + 1\<rparr>\<rparr>"
  have "monitor_find_serivce tmp sid st = Some (Some n)" by (rule find_known [OF assms(1-3)]) (use assms(4,5) in simp)
  then have "monitor_update_counter_send tmp sid st = Some (st\<lparr>mon_recs := (mon_recs st)(n \<mapsto> ?r)\<rparr>)"
    using assms(4) by (simp add: monitor_update_counter_send_def upd_rec_def)
  moreover have "mon_tables (st\<lparr>mon_recs := (mon_recs st)(n \<mapsto> ?r)\<rparr>) gs ss fs"
    by (rule mon_tables_rec [OF assms(1,3)]) (use assms(4) in simp)
  ultimately show ?thesis by blast
qed

end
