(* ===== verification/MonitorSpec.thy ===== *)
theory MonitorSpec
  imports MonitorInv
begin

text \<open>
  What the monitor counts, as a specification over identifiers, and the proof that the hooks of
  \<open>monitor.c\<close> implement it (\<open>monitor_refines\<close>, \<open>monitor_totals\<close>).
\<close>

subsection \<open>The invariant and the abstraction\<close>

definition mon_ok :: "mon_state \<Rightarrow> addr list \<Rightarrow> addr list \<Rightarrow> addr list \<Rightarrow> bool" where
  "mon_ok st gs ss fs \<longleftrightarrow> mon_tables st gs ss fs \<and>
     (case mon_group_table (mon_ctx st) of None \<Rightarrow> False | Some T \<Rightarrow>
        length T = unat (mon_group_size (mon_ctx st)) \<and> (\<forall>a \<in> set gs. unat (rec_gid (mon_recs st) a) < length T))"

lemma mon_okD: "mon_ok st gs ss fs \<Longrightarrow> mon_tables st gs ss fs"
  by (simp add: mon_ok_def)

record mon_spec =
  sp_srv :: "u32 \<Rightarrow> monitor_service_record option"
  sp_grp :: "nat \<Rightarrow> u64 option"
  sp_flow :: "u32 \<Rightarrow> u32 \<Rightarrow> u64"

definition mon_srv :: "mon_state \<Rightarrow> addr list \<Rightarrow> u32 \<Rightarrow> monitor_service_record option" where
  "mon_srv st gs sid = map_option (\<lambda>a. the (mon_recs st a)) (find (\<lambda>a. rec_sid (mon_recs st) a = sid) gs)"

definition mon_abs :: "mon_state \<Rightarrow> addr list \<Rightarrow> addr list \<Rightarrow> mon_spec" where
  "mon_abs st gs fs = \<lparr>sp_srv = mon_srv st gs, sp_grp = \<lambda>i. map_option mg_use_time (group_at i st), sp_flow = flow_count st fs\<rparr>"

lemma mon_abs_sel [simp]:
  "sp_srv (mon_abs st gs fs) = mon_srv st gs" "sp_grp (mon_abs st gs fs) = (\<lambda>i. map_option mg_use_time (group_at i st))"
  "sp_flow (mon_abs st gs fs) = flow_count st fs"
  by (simp_all add: mon_abs_def)

lemma mon_srv_cases:
  assumes "mon_tables st gs ss fs" "tmp \<notin> dom (mon_recs st)"
  obtains n r where "n \<in> set gs" "mon_recs st n = Some r" "ms_sid (mr_data r) = sid" "mon_srv st gs sid = Some r"
    "monitor_find_serivce tmp sid st = Some (Some n)"
  | "mon_srv st gs sid = None" "monitor_find_serivce tmp sid st = Some None"
proof (cases "\<exists>n \<in> set gs. rec_sid (mon_recs st) n = sid")
  case True
  then obtain n where n: "n \<in> set gs" "rec_sid (mon_recs st) n = sid" by blast
  obtain r where r: "mon_recs st n = Some r" using n(1) mon_tablesD(7) [OF assms(1)] by blast
  have "inj_on (rec_sid (mon_recs st)) (set gs)" using sid_unique [OF assms(1)] by (auto intro: inj_onI)
  from find_key [where key = "rec_sid (mon_recs st)", OF n(1) this n(2)]
  have "find (\<lambda>a. rec_sid (mon_recs st) a = sid) gs = Some n" .
  then have "mon_srv st gs sid = Some r" using r by (simp add: mon_srv_def)
  then show thesis using that(1) [OF n(1) r] n find_known [OF assms n] r by simp
next
  case False
  then have "find (\<lambda>a. rec_sid (mon_recs st) a = sid) gs = None" by (intro find_no_key) blast
  then have "mon_srv st gs sid = None" by (simp add: mon_srv_def)
  then show thesis using that(2) find_unknown [OF assms] False by blast
qed

lemma mon_srv_known:
  assumes "mon_tables st gs ss fs" "n \<in> set gs" "mon_recs st n = Some r"
  shows "mon_srv st gs (ms_sid (mr_data r)) = Some r"
proof -
  have "inj_on (rec_sid (mon_recs st)) (set gs)" using sid_unique [OF assms(1)] by (auto intro: inj_onI)
  then have "find (\<lambda>a. rec_sid (mon_recs st) a = ms_sid (mr_data r)) gs = Some n"
    by (rule find_key [OF assms(2)]) (use assms(3) in simp)
  then show ?thesis using assms(3) by (simp add: mon_srv_def)
qed

lemma mon_srv_upd:
  assumes "mon_tables st gs ss fs" "n \<in> set gs" "mon_recs st n = Some r" "mr_data r' = mr_data r"
  shows "mon_srv (st\<lparr>mon_recs := (mon_recs st)(n \<mapsto> r')\<rparr>) gs = (mon_srv st gs)(ms_sid (mr_data r) \<mapsto> r')"
proof
  fix sid
  let ?st = "st\<lparr>mon_recs := (mon_recs st)(n \<mapsto> r')\<rparr>"
  have tab: "mon_tables ?st gs ss fs" by (rule mon_tables_rec [OF assms(1,2)]) (use assms(3,4) in simp)
  show "mon_srv ?st gs sid = ((mon_srv st gs)(ms_sid (mr_data r) \<mapsto> r')) sid"
  proof (cases "sid = ms_sid (mr_data r)")
    case True
    then show ?thesis using mon_srv_known [OF tab assms(2), of r'] assms(4) by simp
  next
    case False
    have "rec_sid (mon_recs ?st) = rec_sid (mon_recs st)" using assms(3,4) by (auto simp: fun_eq_iff)
    then have f: "find (\<lambda>a. rec_sid (mon_recs ?st) a = sid) gs = find (\<lambda>a. rec_sid (mon_recs st) a = sid) gs" by metis
    have "b \<noteq> n" if "find (\<lambda>a. rec_sid (mon_recs st) a = sid) gs = Some b" for b
      using that False assms(3) unfolding find_Some_iff by auto
    then show ?thesis using False unfolding mon_srv_def f by (cases "find (\<lambda>a. rec_sid (mon_recs st) a = sid) gs") auto
  qed
qed

lemma flow_count_cong: "mon_flows st' = mon_flows st \<Longrightarrow> flow_count st' fs = flow_count st fs"
  by (intro ext) (simp only: flow_count_def)

lemma group_at_cong: "mon_group_table (mon_ctx st') = mon_group_table (mon_ctx st) \<Longrightarrow> group_at i st' = group_at i st"
  by (simp add: group_at_def)

lemma mon_srv_cong: "mon_recs st' = mon_recs st \<Longrightarrow> mon_srv st' gs = mon_srv st gs"
  by (intro ext) (simp only: mon_srv_def)

lemma mon_ok_rec:
  assumes "mon_ok st gs ss fs" "n \<in> set gs" "mon_recs st n = Some r" "mr_data r' = mr_data r"
  shows "mon_ok (st\<lparr>mon_recs := (mon_recs st)(n \<mapsto> r')\<rparr>) gs ss fs"
    "mon_abs (st\<lparr>mon_recs := (mon_recs st)(n \<mapsto> r')\<rparr>) gs fs = (mon_abs st gs fs)\<lparr>sp_srv := (mon_srv st gs)(ms_sid (mr_data r) \<mapsto> r')\<rparr>"
proof -
  let ?st = "st\<lparr>mon_recs := (mon_recs st)(n \<mapsto> r')\<rparr>"
  have "mon_tables ?st gs ss fs" by (rule mon_tables_rec [OF mon_okD [OF assms(1)] assms(2)]) (use assms(3,4) in simp)
  moreover have "rec_gid (mon_recs ?st) a = rec_gid (mon_recs st) a" for a using assms(3,4) by simp
  ultimately show "mon_ok ?st gs ss fs" using assms(1) unfolding mon_ok_def by (auto split: option.splits simp del: fun_upd_apply)
  have "flow_count ?st fs = flow_count st fs" by (rule flow_count_cong) simp
  moreover have "group_at i ?st = group_at i st" for i by (rule group_at_cong) simp
  ultimately show "mon_abs ?st gs fs = (mon_abs st gs fs)\<lparr>sp_srv := (mon_srv st gs)(ms_sid (mr_data r) \<mapsto> r')\<rparr>"
    using mon_srv_upd [OF mon_okD [OF assms(1)] assms(2-4)] by (simp add: mon_abs_def)
qed

subsection \<open>The specification\<close>

datatype mon_event = Sent ptr addr u32 u32 int | Handle_before u64 addr u32 | Handle_after u64 addr u32 | Flush

definition count_send :: "monitor_service_record \<Rightarrow> monitor_service_record" where
  "count_send r = r\<lparr>mr_counter := (mr_counter r)\<lparr>flush_send := flush_send (mr_counter r) + 1, total_send := total_send (mr_counter r) + 1\<rparr>\<rparr>"

definition count_recv :: "u64 \<Rightarrow> monitor_service_record \<Rightarrow> monitor_service_record" where
  "count_recv t r = r\<lparr>mr_counter := (mr_counter r)\<lparr>flush_recv := flush_recv (mr_counter r) + 1,
     flush_use_time := flush_use_time (mr_counter r) + (t - use_time_start r), total_recv := total_recv (mr_counter r) + 1\<rparr>\<rparr>"

definition clear_flush :: "monitor_service_record \<Rightarrow> monitor_service_record" where
  "clear_flush r = r\<lparr>mr_counter := (mr_counter r)\<lparr>flush_send := 0, flush_recv := 0, flush_use_time := 0\<rparr>\<rparr>"

lemma count_data [simp]:
  "mr_data (count_send r) = mr_data r" "mr_data (count_recv t r) = mr_data r" "mr_data (clear_flush r) = mr_data r"
  by (simp_all add: count_send_def count_recv_def clear_flush_def)

fun spec_step :: "mon_event \<Rightarrow> mon_spec \<Rightarrow> mon_spec option" where
  "spec_step (Sent _ _ from to ret) sp =
     (if ret < 0 then Some sp
      else map_option (\<lambda>r. sp\<lparr>sp_srv := (sp_srv sp)(from \<mapsto> count_send r),
        sp_flow := \<lambda>f t. sp_flow sp f t + (if f = from \<and> t = to then 1 else 0)\<rparr>) (sp_srv sp from))"
| "spec_step (Handle_before time _ to) sp =
     (case sp_srv sp to of None \<Rightarrow> Some sp
      | Some r \<Rightarrow> Some (sp\<lparr>sp_srv := (sp_srv sp)(to \<mapsto> r\<lparr>use_time_start := time\<rparr>)\<rparr>))"
| "spec_step (Handle_after time _ to) sp =
     (case sp_srv sp to of None \<Rightarrow> Some sp
      | Some r \<Rightarrow> Some (sp\<lparr>sp_srv := (sp_srv sp)(to \<mapsto> count_recv time r),
          sp_grp := (sp_grp sp)(unat (ms_gid (mr_data r)) :=
            map_option (\<lambda>u. u + (time - use_time_start r)) (sp_grp sp (unat (ms_gid (mr_data r)))))\<rparr>))"
| "spec_step Flush sp = Some (sp\<lparr>sp_srv := \<lambda>s. map_option clear_flush (sp_srv sp s), sp_grp := \<lambda>i. map_option (\<lambda>_. 0) (sp_grp sp i)\<rparr>)"

fun mon_step :: "mon_event \<Rightarrow> mon_state \<Rightarrow> mon_state option" where
  "mon_step (Sent mem tmp from to ret) st = monitor_on_message_send_after mem tmp from to ret st"
| "mon_step (Handle_before time tmp to) st = map_option snd (monitor_on_message_handle_before time tmp to st)"
| "mon_step (Handle_after time tmp to) st = monitor_on_message_handle_after time tmp to st"
| "mon_step Flush st = monitor_reset_flush_nolock st"

text \<open>The addresses of an event: the local variables of the call and what \<open>malloc\<close> returns are not in use.\<close>

fun fresh_event :: "mon_event \<Rightarrow> mon_state \<Rightarrow> bool" where
  "fresh_event (Sent mem tmp _ _ _) st \<longleftrightarrow> mon_recs st tmp = None \<and> mon_flows st tmp = None \<and>
     (case mem of None \<Rightarrow> False | Some a \<Rightarrow> mon_recs st a = None \<and> mon_flows st a = None \<and>
        (a < n_split_offset \<or> mon_recs st (a - n_split_offset) = None))"
| "fresh_event (Handle_before _ tmp _) st \<longleftrightarrow> mon_recs st tmp = None"
| "fresh_event (Handle_after _ tmp _) st \<longleftrightarrow> mon_recs st tmp = None"
| "fresh_event Flush st \<longleftrightarrow> True"

subsection \<open>Each event\<close>

lemma sent_ok:
  assumes "mon_ok st gs ss fs" "fresh_event (Sent mem tmp from to ret) st" "Suc (length fs) < 2 ^ 64"
  shows "case spec_step (Sent mem tmp from to ret) (mon_abs st gs fs) of
      None \<Rightarrow> mon_step (Sent mem tmp from to ret) st = None
    | Some sp \<Rightarrow> \<exists>st' fs'. mon_step (Sent mem tmp from to ret) st = Some st' \<and> mon_ok st' gs ss fs' \<and> mon_abs st' gs fs' = sp \<and>
        length fs' \<le> Suc (length fs)"
proof (cases "ret < 0")
  case True
  then show ?thesis using assms(1) by (auto simp: monitor_on_message_send_after_def)
next
  case False
  note tab = mon_okD [OF assms(1)]
  note t = mon_tablesD [OF tab]
  obtain a where a: "mem = Some a" "a \<notin> set gs \<union> set ss \<union> set fs"
  proof (cases mem)
    case None
    then show thesis using assms(2) by simp
  next
    case (Some a)
    then have f: "a \<notin> set gs" "a \<notin> set fs" "a < n_split_offset \<or> a - n_split_offset \<notin> set gs" using assms(2) unfolding t(7) [symmetric] t(8) [symmetric] by auto
    then have "a \<notin> set ss" unfolding t(4) by auto
    then show thesis using that Some f by blast
  qed
  obtain st' fs' where p: "monitor_update_message_path mem tmp from to st = Some st'" "mon_tables st' gs ss fs'" "set fs' \<subseteq> insert a (set fs)"
    "mon_recs st' = mon_recs st" "mon_group_table (mon_ctx st') = mon_group_table (mon_ctx st)" "mon_group_size (mon_ctx st') = mon_group_size (mon_ctx st)"
    "\<forall>f t. flow_count st' fs' f t = flow_count st fs f t + (if f = from \<and> t = to then 1 else 0)"
    using path_ok [OF tab, of tmp a "from" to] a assms(2,3) by (auto simp: domIff)
  have ok': "mon_ok st' gs ss fs'" using assms(1) p(2) unfolding mon_ok_def p(4-6) by blast
  have len: "length fs' \<le> Suc (length fs)"
  proof -
    have "length fs' = card (set fs')" using map_ok_distinct [OF mon_tablesD(3) [OF p(2)]] by (simp add: distinct_card)
    also have "\<dots> \<le> card (insert a (set fs))" by (rule card_mono) (use p(3) in simp_all)
    also have "\<dots> \<le> Suc (length fs)" using card_length [of "a # fs"] by simp
    finally show ?thesis .
  qed
  have tmp: "tmp \<notin> dom (mon_recs st')" using assms(2) p(4) by (simp add: domIff)
  have srv: "mon_srv st' gs = mon_srv st gs" by (rule mon_srv_cong [OF p(4)])
  have abs: "mon_abs st' gs fs' = (mon_abs st gs fs)\<lparr>sp_flow := \<lambda>f t. flow_count st fs f t + (if f = from \<and> t = to then 1 else 0)\<rparr>"
  proof -
    have "flow_count st' fs' = (\<lambda>f t. flow_count st fs f t + (if f = from \<and> t = to then 1 else 0))" using p(7) by blast
    moreover have "group_at i st' = group_at i st" for i by (rule group_at_cong [OF p(5)])
    ultimately show ?thesis using srv by (simp add: mon_abs_def)
  qed
  show ?thesis
  proof (cases rule: mon_srv_cases [OF p(2) tmp, of "from"])
    case (1 n r)
    have c: "mon_step (Sent mem tmp from to ret) st = Some (st'\<lparr>mon_recs := (mon_recs st')(n \<mapsto> count_send r)\<rparr>)"
      using False p(1) 1(2,5) by (simp add: monitor_on_message_send_after_def monitor_update_counter_send_def upd_rec_def count_send_def)
    moreover have "mon_ok (st'\<lparr>mon_recs := (mon_recs st')(n \<mapsto> count_send r)\<rparr>) gs ss fs'"
      "mon_abs (st'\<lparr>mon_recs := (mon_recs st')(n \<mapsto> count_send r)\<rparr>) gs fs' = (mon_abs st' gs fs')\<lparr>sp_srv := (mon_srv st' gs)(from \<mapsto> count_send r)\<rparr>"
      using mon_ok_rec [OF ok' 1(1,2), of "count_send r"] 1(3) by simp_all
    ultimately show ?thesis using False 1(4) srv abs len by auto
  next
    case 2
    then show ?thesis using False p(1) srv by (simp add: monitor_on_message_send_after_def monitor_update_counter_send_def)
  qed
qed

lemma before_ok:
  assumes "mon_ok st gs ss fs" "tmp \<notin> dom (mon_recs st)"
  shows "\<exists>st'. mon_step (Handle_before time tmp to) st = Some st' \<and> mon_ok st' gs ss fs \<and>
    spec_step (Handle_before time tmp to) (mon_abs st gs fs) = Some (mon_abs st' gs fs)"
proof (cases rule: mon_srv_cases [OF mon_okD [OF assms(1)] assms(2), of to])
  case (1 n r)
  then show ?thesis using mon_ok_rec [OF assms(1) 1(1,2), of "r\<lparr>use_time_start := time\<rparr>"]
    by (simp add: monitor_on_message_handle_before_def upd_rec_def)
next
  case 2
  then show ?thesis using assms(1) by (simp add: monitor_on_message_handle_before_def)
qed

lemma upd_group_ok:
  assumes "mon_ok st gs ss fs" "n \<in> set gs" "i = unat (rec_gid (mon_recs st) n)"
  shows "\<exists>st'. upd_group_at i f st = Some st' \<and> mon_ok st' gs ss fs \<and> mon_recs st' = mon_recs st \<and> mon_flows st' = mon_flows st \<and>
    (\<forall>j. group_at j st' = (if j = i then map_option f (group_at j st) else group_at j st))"
proof -
  obtain T where T: "mon_group_table (mon_ctx st) = Some T" "length T = unat (mon_group_size (mon_ctx st))" "i < length T"
    using assms by (auto simp: mon_ok_def split: option.splits)
  let ?st = "st\<lparr>mon_ctx := (mon_ctx st)\<lparr>mon_group_table := Some (T[i := f (T ! i)])\<rparr>\<rparr>"
  have "upd_group_at i f st = Some ?st" using T by (simp add: upd_group_at_def group_at_def)
  moreover have "mon_ok ?st gs ss fs"
    using assms(1) T mon_tables_group_table by (simp add: mon_ok_def)
  moreover have "group_at j ?st = (if j = i then map_option f (group_at j st) else group_at j st)" for j
    using T by (simp add: group_at_def)
  ultimately show ?thesis by (intro exI [of _ ?st]) simp
qed

lemma after_ok:
  assumes "mon_ok st gs ss fs" "tmp \<notin> dom (mon_recs st)"
  shows "\<exists>st'. mon_step (Handle_after time tmp to) st = Some st' \<and> mon_ok st' gs ss fs \<and>
    spec_step (Handle_after time tmp to) (mon_abs st gs fs) = Some (mon_abs st' gs fs)"
proof (cases rule: mon_srv_cases [OF mon_okD [OF assms(1)] assms(2), of to])
  case (1 n r)
  let ?st = "st\<lparr>mon_recs := (mon_recs st)(n \<mapsto> count_recv time r)\<rparr>"
  have s: "mon_ok ?st gs ss fs" "mon_abs ?st gs fs = (mon_abs st gs fs)\<lparr>sp_srv := (mon_srv st gs)(to \<mapsto> count_recv time r)\<rparr>"
    using mon_ok_rec [OF assms(1) 1(1,2), of "count_recv time r"] 1(3) by simp_all
  obtain st' where g: "upd_group_at (unat (ms_gid (mr_data r))) (\<lambda>g. g\<lparr>mg_use_time := mg_use_time g + (time - use_time_start r)\<rparr>) ?st = Some st'"
    "mon_ok st' gs ss fs" "mon_recs st' = mon_recs ?st" "mon_flows st' = mon_flows ?st"
    "\<forall>j. group_at j st' = (if j = unat (ms_gid (mr_data r)) then map_option (\<lambda>g. g\<lparr>mg_use_time := mg_use_time g + (time - use_time_start r)\<rparr>) (group_at j ?st)
       else group_at j ?st)"
    using upd_group_ok [OF s(1) 1(1)] 1(2) by fastforce
  have "mon_step (Handle_after time tmp to) st = Some st'"
    using 1(2,5) g(1) by (simp add: monitor_on_message_handle_after_def upd_rec_def count_recv_def Let_def)
  moreover have "mon_abs st' gs fs = (mon_abs st gs fs)\<lparr>sp_srv := (mon_srv st gs)(to \<mapsto> count_recv time r),
      sp_grp := (sp_grp (mon_abs st gs fs))(unat (ms_gid (mr_data r)) :=
        map_option (\<lambda>u. u + (time - use_time_start r)) (sp_grp (mon_abs st gs fs) (unat (ms_gid (mr_data r)))))\<rparr>"
  proof -
    have "group_at j ?st = group_at j st" for j by (rule group_at_cong) simp
    then have "(\<lambda>j. map_option mg_use_time (group_at j st')) = (\<lambda>j. map_option mg_use_time (group_at j st))(unat (ms_gid (mr_data r)) :=
        map_option (\<lambda>u. u + (time - use_time_start r)) (map_option mg_use_time (group_at (unat (ms_gid (mr_data r))) st)))"
      using g(5) by (auto simp: fun_eq_iff option.map_comp comp_def)
    moreover have "mon_srv st' gs = mon_srv ?st gs" by (rule mon_srv_cong [OF g(3)])
    moreover have "flow_count st' fs = flow_count ?st fs" by (rule flow_count_cong [OF g(4)])
    ultimately show ?thesis using s(2) by (simp add: mon_abs_def)
  qed
  ultimately show ?thesis using g(2) 1(4) by simp
next
  case 2
  then show ?thesis using assms(1) by (simp add: monitor_on_message_handle_after_def)
qed

subsection \<open>Resetting\<close>

definition clear_recs :: "addr set \<Rightarrow> mon_recs \<Rightarrow> mon_recs" where
  "clear_recs A R = (\<lambda>a. if a \<in> A then map_option clear_flush (R a) else R a)"

lemma clear_recs_Some: "R a = Some r \<Longrightarrow> clear_recs A R a = Some (if a \<in> A then clear_flush r else r)"
  by (simp add: clear_recs_def)

lemma clear_recs_data: "R a = Some r \<Longrightarrow> mr_data (the (clear_recs A R a)) = mr_data (the (R a))"
  by (simp add: clear_recs_Some)

lemma reset_services_ok:
  assumes "map_ok key (mon_heap st) m (ys @ zs)" "set (ys @ zs) \<subseteq> dom (mon_recs st)"
  shows "reset_services_loop (hd_opt zs) st = Some (st\<lparr>mon_recs := clear_recs (set zs) (mon_recs st)\<rparr>)"
  using assms
proof (induction zs arbitrary: ys st)
  case Nil
  then show ?case by (subst reset_services_loop.simps) (simp add: clear_recs_def)
next
  case (Cons n zs)
  obtain r where r: "mon_recs st n = Some r" using Cons.prems(2) by auto
  let ?st = "st\<lparr>mon_recs := (mon_recs st)(n \<mapsto> clear_flush r)\<rparr>"
  have nz: "n \<notin> set zs" using map_ok_distinct [OF Cons.prems(1)] by simp
  have "reset_services_loop (hd_opt zs) ?st = Some (?st\<lparr>mon_recs := clear_recs (set zs) (mon_recs ?st)\<rparr>)"
    by (rule Cons.IH [of _ "ys @ [n]"]) (use Cons.prems in auto)
  moreover have "clear_recs (set zs) (mon_recs ?st) = clear_recs (set (n # zs)) (mon_recs st)"
    using r nz by (auto simp: clear_recs_def fun_eq_iff)
  moreover have "upd_rec n (\<lambda>r. r\<lparr>mr_counter := (mr_counter r)\<lparr>flush_send := 0, flush_recv := 0, flush_use_time := 0\<rparr>\<rparr>) st = Some ?st"
    using r by (simp add: upd_rec_def clear_flush_def)
  moreover have "eaf_map_next n (mon_heap st) = Some (hd_opt zs)" using iteration_spec(3) [OF Cons.prems(1)] by blast
  ultimately show ?case by (subst reset_services_loop.simps) simp
qed

lemma reset_groups_ok:
  assumes "mon_group_table (mon_ctx st) = Some T" "i + k = length T"
  shows "reset_groups_loop i k st = Some (st\<lparr>mon_ctx := (mon_ctx st)\<lparr>mon_group_table :=
    Some (take i T @ map (\<lambda>g. g\<lparr>mg_use_time := 0\<rparr>) (drop i T))\<rparr>\<rparr>)"
  using assms
proof (induction k arbitrary: i st T)
  case 0
  then show ?case by (cases st; cases "mon_ctx st") simp
next
  case (Suc k)
  let ?z = "\<lambda>g. g\<lparr>mg_use_time := 0\<rparr>"
  let ?T = "T[i := ?z (T ! i)]"
  let ?st = "st\<lparr>mon_ctx := (mon_ctx st)\<lparr>mon_group_table := Some ?T\<rparr>\<rparr>"
  have "upd_group_at i ?z st = Some ?st" using Suc.prems by (simp add: upd_group_at_def group_at_def)
  moreover have "reset_groups_loop (i + 1) k ?st = Some (?st\<lparr>mon_ctx := (mon_ctx ?st)\<lparr>mon_group_table :=
      Some (take (i + 1) ?T @ map ?z (drop (i + 1) ?T))\<rparr>\<rparr>)"
    by (rule Suc.IH) (use Suc.prems in simp_all)
  moreover have "take (i + 1) ?T @ map ?z (drop (i + 1) ?T) = take i T @ map ?z (drop i T)"
  proof -
    have i: "i < length T" using Suc.prems(2) by simp
    then have "drop i T = T ! i # drop (Suc i) T" by (simp add: Cons_nth_drop_Suc)
    moreover have "take (Suc i) ?T = take i T @ [?z (T ! i)]" using i by (simp add: take_Suc_conv_app_nth)
    ultimately show ?thesis by simp
  qed
  ultimately show ?case by simp
qed

lemma flush_ok:
  assumes "mon_ok st gs ss fs"
  shows "\<exists>st'. mon_step Flush st = Some st' \<and> mon_ok st' gs ss fs \<and> spec_step Flush (mon_abs st gs fs) = Some (mon_abs st' gs fs)"
proof -
  note tab = mon_okD [OF assms]
  note t = mon_tablesD [OF tab]
  obtain T where T: "mon_group_table (mon_ctx st) = Some T" "length T = unat (mon_group_size (mon_ctx st))"
    "\<forall>a \<in> set gs. unat (rec_gid (mon_recs st) a) < length T"
    using assms by (auto simp: mon_ok_def split: option.splits)
  let ?R = "clear_recs (set gs) (mon_recs st)"
  let ?T = "map (\<lambda>g. g\<lparr>mg_use_time := 0\<rparr>) T"
  let ?s1 = "st\<lparr>mon_recs := ?R\<rparr>"
  let ?st = "st\<lparr>mon_recs := ?R, mon_ctx := (mon_ctx st)\<lparr>mon_group_table := Some ?T\<rparr>\<rparr>"
  have "reset_services_loop (hd_opt gs) st = Some ?s1" by (rule reset_services_ok [where ys = "[]"]) (use t(1,7) in auto)
  moreover have "reset_groups_loop 0 (unat (mon_group_size (mon_ctx ?s1))) ?s1 = Some ?st"
    using reset_groups_ok [of ?s1 T 0 "length T"] T(1,2) by simp
  ultimately have run: "mon_step Flush st = Some ?st"
    using iteration_spec(1) [OF t(1)] by (simp add: monitor_reset_flush_nolock_def)
  have data: "mr_data (the (?R a)) = mr_data (the (mon_recs st a))" if "a \<in> set gs" for a
  proof -
    have "a \<in> dom (mon_recs st)" using that by (simp only: t(7))
    then obtain r where "mon_recs st a = Some r" unfolding domIff by blast
    then show ?thesis by (rule clear_recs_data)
  qed
  have tab': "mon_tables ?st gs ss fs"
  proof (rule mon_tablesI)
    show "map_ok (group_key (mon_recs ?st)) (mon_heap ?st) (record_group (mon_ctx ?st)) gs" using map_ok_key [OF t(1)] data by simp
    have "a - n_split_offset \<in> set gs" if "a \<in> set ss" for a using that t(4) by auto
    then show "map_ok (split_key (mon_recs ?st)) (mon_heap ?st) (record_split (mon_ctx ?st)) ss" using map_ok_key [OF t(2)] data by simp
    have "dom ?R = dom (mon_recs st)" by (auto simp: clear_recs_def split: if_splits)
    then show "dom (mon_recs ?st) = set gs" using t(7) by simp
  qed (use t in simp_all)
  have ok: "mon_ok ?st gs ss fs" using tab' T data by (simp add: mon_ok_def)
  have "mon_srv ?st gs sid = map_option clear_flush (mon_srv st gs sid)" for sid
  proof -
    have f: "find (\<lambda>a. rec_sid ?R a = sid) gs = find (\<lambda>a. rec_sid (mon_recs st) a = sid) gs" by (rule find_cong) (use data in auto)
    have "the (?R b) = clear_flush (the (mon_recs st b))" if "find (\<lambda>a. rec_sid (mon_recs st) a = sid) gs = Some b" for b
    proof -
      have "b \<in> set gs" using that unfolding find_Some_iff by auto
      then have "b \<in> dom (mon_recs st)" by (simp only: t(7))
      then obtain r where "mon_recs st b = Some r" unfolding domIff by blast
      moreover have "b \<in> set gs" using \<open>b \<in> dom (mon_recs st)\<close> by (simp only: t(7))
      ultimately show ?thesis by (simp add: clear_recs_Some)
    qed
    then show ?thesis using f unfolding mon_srv_def by (cases "find (\<lambda>a. rec_sid (mon_recs st) a = sid) gs") simp_all
  qed
  moreover have "flow_count ?st fs = flow_count st fs" by (rule flow_count_cong) simp
  moreover have "map_option mg_use_time (group_at i ?st) = map_option (\<lambda>_. 0) (group_at i st)" for i using T(1) by (simp add: group_at_def)
  ultimately have "mon_abs ?st gs fs = (mon_abs st gs fs)\<lparr>sp_srv := \<lambda>s. map_option clear_flush (mon_srv st gs s),
      sp_grp := \<lambda>i. map_option (\<lambda>_. 0) (sp_grp (mon_abs st gs fs) i)\<rparr>"
    by (simp add: mon_abs_def option.map_comp comp_def fun_eq_iff)
  then show ?thesis using run ok by (intro exI [of _ ?st]) (simp add: mon_abs_def)
qed

subsection \<open>A run of the program\<close>

fun spec_run :: "mon_event list \<Rightarrow> mon_spec \<Rightarrow> mon_spec option" where
  "spec_run [] sp = Some sp"
| "spec_run (e # es) sp = spec_step e sp \<bind> spec_run es"

text \<open>The events on the model; \<open>None\<close> also when an event uses an address that is in use.\<close>

fun mon_run :: "mon_event list \<Rightarrow> mon_state \<Rightarrow> mon_state option" where
  "mon_run [] st = Some st"
| "mon_run (e # es) st = mon_step e st \<bind> mon_run es"

fun fresh_run :: "mon_event list \<Rightarrow> mon_state \<Rightarrow> bool" where
  "fresh_run [] st = True"
| "fresh_run (e # es) st = (fresh_event e st \<and> (case mon_step e st of None \<Rightarrow> True | Some st' \<Rightarrow> fresh_run es st'))"

lemma step_refines:
  assumes "mon_ok st gs ss fs" "fresh_event e st" "Suc (length fs) < 2 ^ 64"
  shows "case spec_step e (mon_abs st gs fs) of
      None \<Rightarrow> mon_step e st = None
    | Some sp \<Rightarrow> \<exists>st' fs'. mon_step e st = Some st' \<and> mon_ok st' gs ss fs' \<and> mon_abs st' gs fs' = sp \<and> length fs' \<le> Suc (length fs)"
proof (cases e)
  case (Sent mem tmp sid to ret)
  show ?thesis unfolding Sent by (rule sent_ok [OF assms(1) _ assms(3)]) (use assms(2) Sent in blast)
next
  case (Handle_before time tmp to)
  then obtain st' where "mon_step e st = Some st'" "mon_ok st' gs ss fs" "spec_step e (mon_abs st gs fs) = Some (mon_abs st' gs fs)"
    using before_ok [OF assms(1), of tmp time to] assms(2) by (auto simp: domIff simp del: spec_step.simps mon_step.simps)
  then show ?thesis by auto
next
  case (Handle_after time tmp to)
  then obtain st' where "mon_step e st = Some st'" "mon_ok st' gs ss fs" "spec_step e (mon_abs st gs fs) = Some (mon_abs st' gs fs)"
    using after_ok [OF assms(1), of tmp time to] assms(2) by (auto simp: domIff simp del: spec_step.simps mon_step.simps)
  then show ?thesis by auto
next
  case Flush
  then obtain st' where "mon_step e st = Some st'" "mon_ok st' gs ss fs" "spec_step e (mon_abs st gs fs) = Some (mon_abs st' gs fs)"
    using flush_ok [OF assms(1)] by fastforce
  then show ?thesis by auto
qed

lemma run_refines:
  assumes "mon_ok st gs ss fs" "fresh_run es st" "length fs + length es < 2 ^ 64"
  shows "case spec_run es (mon_abs st gs fs) of
      None \<Rightarrow> mon_run es st = None
    | Some sp \<Rightarrow> \<exists>st' fs'. mon_run es st = Some st' \<and> mon_ok st' gs ss fs' \<and> mon_abs st' gs fs' = sp"
  using assms
proof (induction es arbitrary: st fs)
  case Nil
  then show ?case by auto
next
  case (Cons e es)
  have step: "case spec_step e (mon_abs st gs fs) of
      None \<Rightarrow> mon_step e st = None
    | Some sp \<Rightarrow> \<exists>st' fs'. mon_step e st = Some st' \<and> mon_ok st' gs ss fs' \<and> mon_abs st' gs fs' = sp \<and> length fs' \<le> Suc (length fs)"
    by (rule step_refines [OF Cons.prems(1)]) (use Cons.prems in simp_all)
  show ?case
  proof (cases "spec_step e (mon_abs st gs fs)")
    case None
    then show ?thesis using step by simp
  next
    case (Some sp)
    then obtain st' fs' where s: "mon_step e st = Some st'" "mon_ok st' gs ss fs'" "mon_abs st' gs fs' = sp" "length fs' \<le> Suc (length fs)"
      using step by auto
    have "case spec_run es (mon_abs st' gs fs') of None \<Rightarrow> mon_run es st' = None
      | Some sp \<Rightarrow> \<exists>st'' fs''. mon_run es st' = Some st'' \<and> mon_ok st'' gs ss fs'' \<and> mon_abs st'' gs fs'' = sp"
      by (rule Cons.IH [OF s(2)]) (use Cons.prems s in simp_all)
    moreover have "mon_run (e # es) st = mon_run es st'" "spec_run (e # es) (mon_abs st gs fs) = spec_run es (mon_abs st' gs fs')"
      using s Some by simp_all
    ultimately show ?thesis by (simp only:)
  qed
qed

subsection \<open>Totals\<close>

definition sent_on :: "u32 \<Rightarrow> u32 \<Rightarrow> mon_event \<Rightarrow> bool" where
  "sent_on f t e = (case e of Sent _ _ sid to ret \<Rightarrow> 0 \<le> ret \<and> sid = f \<and> to = t | _ \<Rightarrow> False)"

definition sent_by :: "u32 \<Rightarrow> mon_event \<Rightarrow> bool" where
  "sent_by f e = (case e of Sent _ _ sid _ ret \<Rightarrow> 0 \<le> ret \<and> sid = f | _ \<Rightarrow> False)"

definition handled_by :: "u32 \<Rightarrow> mon_event \<Rightarrow> bool" where
  "handled_by f e = (case e of Handle_after _ _ to \<Rightarrow> to = f | _ \<Rightarrow> False)"

lemmas event_kinds = sent_on_def sent_by_def handled_by_def

definition knows :: "mon_spec \<Rightarrow> u32 \<Rightarrow> bool" where "knows sp f \<longleftrightarrow> sp_srv sp f \<noteq> None"

lemma spec_step_knows: "spec_step e sp = Some sp' \<Longrightarrow> knows sp' f = knows sp f"
  by (cases e) (auto simp: knows_def split: if_splits option.splits)

lemma spec_step_none: "spec_step e sp = None \<longleftrightarrow> (\<exists>f. sent_by f e \<and> \<not> knows sp f)"
  by (cases e) (auto simp: knows_def sent_by_def split: option.splits)

lemma spec_step_totals:
  assumes "spec_step e sp = Some sp'"
  shows "sp_flow sp' f t = sp_flow sp f t + (if sent_on f t e then 1 else 0)"
    "sp_srv sp f = Some r \<Longrightarrow> \<exists>r'. sp_srv sp' f = Some r' \<and> mr_data r' = mr_data r \<and>
       total_send (mr_counter r') = total_send (mr_counter r) + (if sent_by f e then 1 else 0) \<and>
       total_recv (mr_counter r') = total_recv (mr_counter r) + (if handled_by f e then 1 else 0)"
  using assms
  by (cases e; auto simp: event_kinds count_send_def count_recv_def clear_flush_def split: if_splits option.splits)+

lemma spec_run_none: "spec_run es sp = None \<longleftrightarrow> (\<exists>e \<in> set es. \<exists>f. sent_by f e \<and> \<not> knows sp f)"
proof (induction es arbitrary: sp)
  case (Cons e es)
  show ?case
  proof (cases "spec_step e sp")
    case None
    then show ?thesis using spec_step_none [of e sp] by auto
  next
    case (Some sp')
    then have "\<not> (\<exists>f. sent_by f e \<and> \<not> knows sp f)" using spec_step_none [of e sp] by auto
    then show ?thesis using Some Cons.IH [of sp'] spec_step_knows [OF Some] by auto
  qed
qed simp

lemma spec_run_totals:
  assumes "spec_run es sp = Some sp'"
  shows "sp_flow sp' f t = sp_flow sp f t + of_nat (length (filter (sent_on f t) es)) \<and>
    (\<forall>r. sp_srv sp f = Some r \<longrightarrow> (\<exists>r'. sp_srv sp' f = Some r' \<and> mr_data r' = mr_data r \<and>
       total_send (mr_counter r') = total_send (mr_counter r) + of_nat (length (filter (sent_by f) es)) \<and>
       total_recv (mr_counter r') = total_recv (mr_counter r) + of_nat (length (filter (handled_by f) es))))"
  using assms
proof (induction es arbitrary: sp)
  case (Cons e es)
  obtain sp1 where s: "spec_step e sp = Some sp1" "spec_run es sp1 = Some sp'" using Cons.prems by (cases "spec_step e sp") auto
  note IH = Cons.IH [OF s(2)]
  have "\<exists>r'. sp_srv sp' f = Some r' \<and> mr_data r' = mr_data r \<and>
       total_send (mr_counter r') = total_send (mr_counter r) + of_nat (length (filter (sent_by f) (e # es))) \<and>
       total_recv (mr_counter r') = total_recv (mr_counter r) + of_nat (length (filter (handled_by f) (e # es)))"
    if known: "sp_srv sp f = Some r" for r
  proof -
    obtain r1 where "sp_srv sp1 f = Some r1" "mr_data r1 = mr_data r" "total_send (mr_counter r1) = total_send (mr_counter r) + (if sent_by f e then 1 else 0)"
      "total_recv (mr_counter r1) = total_recv (mr_counter r) + (if handled_by f e then 1 else 0)"
      using spec_step_totals(2) [OF s(1) known] by blast
    then show ?thesis using IH by auto
  qed
  then show ?case using IH spec_step_totals(1) [OF s(1), of f t] by auto
qed simp

end
