(* ===== verification/MonitorReport.thy ===== *)
theory MonitorReport
  imports MonitorSpec
begin

text \<open>
  The reports of the monitor against a description of the text: the services in the order of the first map,
  in runs of equal group.
\<close>

subsection \<open>Runs of equal keys\<close>

function runs :: "('a \<Rightarrow> 'k) \<Rightarrow> 'a list \<Rightarrow> 'a list list" where
  "runs key [] = []"
| "runs key (x # xs) = (x # takeWhile (\<lambda>y. key y = key x) xs) # runs key (dropWhile (\<lambda>y. key y = key x) xs)"
  by pat_completeness auto
termination by (relation "measure (\<lambda>(_, xs). length xs)") (auto simp: less_Suc_eq_le length_dropWhile_le)

fun join :: "string \<Rightarrow> string list \<Rightarrow> string" where
  "join sep [] = []"
| "join sep [x] = x"
| "join sep (x # y # xs) = x @ sep @ join sep (y # xs)"

lemma join_Cons: "join sep (x # xs) = x @ concat (map (\<lambda>y. sep @ y) xs)"
  by (induction xs arbitrary: x) simp_all

lemma concat_runs: "concat (runs key xs) = xs"
  by (induction key xs rule: runs.induct) simp_all

lemma runs_not_Nil: "r \<in> set (runs key xs) \<Longrightarrow> r \<noteq> []"
  by (induction key xs rule: runs.induct) auto

lemma length_runs:
  assumes "sorted (map key xs)"
  shows "length (runs key xs) \<le> card (key ` set xs)"
  using assms
proof (induction key xs rule: runs.induct)
  case (2 key x xs)
  let ?d = "dropWhile (\<lambda>y. key y = key x) xs"
  have sorted: "sorted (map key ?d)" using 2(2) by (simp add: sorted_map sorted_wrt_dropWhile)
  have notin: "key x \<notin> key ` set ?d"
  proof
    assume "key x \<in> key ` set ?d"
    then have "?d \<noteq> []" by (metis image_empty list.set(1) empty_iff)
    then have hd: "key (hd ?d) \<noteq> key x" by (rule hd_dropWhile)
    have "hd ?d \<in> set xs" using \<open>?d \<noteq> []\<close> by (meson hd_in_set set_dropWhileD)
    then have "key x \<le> key (hd ?d)" using 2(2) by auto
    moreover have "key (hd ?d) \<le> key y" if "y \<in> set ?d" for y
      using sorted that \<open>?d \<noteq> []\<close> by (cases ?d) auto
    ultimately show False using hd \<open>key x \<in> key ` set ?d\<close> by force
  qed
  have "Suc (card (key ` set ?d)) = card (insert (key x) (key ` set ?d))" using notin by simp
  also have "\<dots> \<le> card (key ` set (x # xs))" by (rule card_mono) (auto dest: set_dropWhileD)
  finally show ?case using 2(1) [OF sorted] by simp
qed simp

subsection \<open>The lines\<close>

definition line_of ::
  "(u64 \<Rightarrow> u64 \<Rightarrow> string) \<Rightarrow> (string \<Rightarrow> srv_state \<Rightarrow> u32 \<Rightarrow> monitor_service_record \<Rightarrow> string) \<Rightarrow> mon_state \<Rightarrow> addr \<Rightarrow> string" where
  "line_of cpu_text line st n = the (service_line cpu_text line st (the (mon_recs st n)) (the (group_at (unat (rec_gid (mon_recs st) n)) st)))"

definition head_of :: "(u32 \<Rightarrow> u64 \<Rightarrow> string) \<Rightarrow> mon_state \<Rightarrow> u32 \<Rightarrow> string" where
  "head_of hline st gid = hline gid (the (tid_of st (the (group_at (unat gid) st))))"

text \<open>What a report reads is there: the records, the table of groups, and in the runtime the groups and the
  services the records point to.\<close>

definition readable :: "mon_state \<Rightarrow> addr list \<Rightarrow> bool" where
  "readable st gs \<longleftrightarrow> (\<forall>n \<in> set gs. mon_recs st n \<noteq> None \<and> rec_gid (mon_recs st) n \<noteq> - 1 \<and>
     (case group_at (unat (rec_gid (mon_recs st) n)) st of None \<Rightarrow> False | Some g \<Rightarrow> tid_of st g \<noteq> None) \<and>
     srv (mon_world st) (ms_sls (mr_data (the (mon_recs st n)))) \<noteq> None)"

lemma readable_Cons:
  assumes "readable st (n # ns)"
  obtains r g t where "mon_recs st n = Some r" "ms_gid (mr_data r) \<noteq> - 1" "group_at (unat (ms_gid (mr_data r))) st = Some g"
    "tid_of st g = Some t" "\<And>c l. service_line c l st r g = Some (line_of c l st n)"
    "\<And>h. h (ms_gid (mr_data r)) t = head_of h st (ms_gid (mr_data r))" "readable st ns"
proof -
  from assms obtain r where r: "mon_recs st n = Some r" by (auto simp: readable_def)
  obtain g t where g: "group_at (unat (ms_gid (mr_data r))) st = Some g" "tid_of st g = Some t" "srv (mon_world st) (ms_sls (mr_data r)) \<noteq> None"
    using assms r by (auto simp: readable_def split: option.splits)
  have "service_line c l st r g = Some (line_of c l st n)" for c l
    using r g by (auto simp: line_of_def service_line_def eaf_message_queue_size_def)
  moreover have "h (ms_gid (mr_data r)) t = head_of h st (ms_gid (mr_data r))" for h using g(1,2) by (simp add: head_of_def)
  ultimately show thesis using that r g assms by (auto simp: readable_def)
qed

subsection \<open>The report for reading\<close>

lemma apply_Cons: "apply_all sz (p # ps) = (\<lambda>x. emit sz p x \<bind> apply_all sz ps)"
  by (rule ext) (use apply_all_append [of sz "[p]" ps] in \<open>simp add: emit_def del: apply_all.simps(2)\<close>)

fun normal_pieces :: "(u32 \<Rightarrow> string) \<Rightarrow> (addr \<Rightarrow> string) \<Rightarrow> (addr \<Rightarrow> u32) \<Rightarrow> u32 \<Rightarrow> addr list \<Rightarrow> string list" where
  "normal_pieces H L gid last_gid [] = []"
| "normal_pieces H L gid last_gid (n # ns) =
     (if last_gid \<noteq> gid n then [H (gid n)] else []) @ L n # normal_pieces H L gid (gid n) ns"

lemma normal_loop:
  assumes "map_ok key (mon_heap st) m (ys @ zs)" "readable st zs"
    "last_gid = - 1 \<or> g_record = group_at (unat last_gid) st \<and> g_record \<noteq> None"
  shows "normal_fill_loop cpu_text st sz last_gid g_record (hd_opt zs) x =
    apply_all sz (normal_pieces (head_of normal_group st) (line_of cpu_text normal_service st) (rec_gid (mon_recs st)) last_gid zs) x"
  using assms
proof (induction zs arbitrary: ys last_gid g_record x)
  case Nil
  then show ?case by (subst normal_fill_loop.simps) simp
next
  case (Cons n zs)
  obtain r g t where r: "mon_recs st n = Some r" "ms_gid (mr_data r) \<noteq> - 1" "group_at (unat (ms_gid (mr_data r))) st = Some g"
    "tid_of st g = Some t" "\<And>c l. service_line c l st r g = Some (line_of c l st n)"
    "\<And>h. h (ms_gid (mr_data r)) t = head_of h st (ms_gid (mr_data r))" "readable st zs"
    by (rule readable_Cons [OF Cons.prems(2)], rule that)
  have nxt: "eaf_map_next n (mon_heap st) = Some (hd_opt zs)" using iteration_spec(3) [OF Cons.prems(1)] by blast
  let ?H = "head_of normal_group st" and ?L = "line_of cpu_text normal_service st"
  have IH: "normal_fill_loop cpu_text st sz (ms_gid (mr_data r)) (Some g) (hd_opt zs) =
      apply_all sz (normal_pieces ?H ?L (rec_gid (mon_recs st)) (ms_gid (mr_data r)) zs)"
    by (rule ext, rule Cons.IH [of "ys @ [n]"]) (use Cons.prems r in simp_all)
  show ?case
  proof (cases "last_gid = ms_gid (mr_data r)")
    case True
    then have "g_record = Some g" using Cons.prems(3) r(2,3) by auto
    then show ?thesis using True r IH nxt
      by (subst normal_fill_loop.simps) (simp add: apply_Cons)
  next
    case False
    then show ?thesis using r IH nxt
      by (subst normal_fill_loop.simps) (simp add: apply_Cons)
  qed
qed

lemma normal_pieces_runs:
  "concat (normal_pieces H L gid last_gid ns) =
     concat (map L (takeWhile (\<lambda>n. gid n = last_gid) ns)) @
     concat (map (\<lambda>run. H (gid (hd run)) @ concat (map L run)) (runs gid (dropWhile (\<lambda>n. gid n = last_gid) ns)))"
proof (induction ns arbitrary: last_gid)
  case (Cons n ns)
  show ?case
  proof (cases "gid n = last_gid")
    case True
    then show ?thesis using Cons.IH [of last_gid] by simp
  next
    case False
    then have "last_gid \<noteq> gid n" by simp
    with False show ?thesis using Cons.IH [of "gid n"] by simp
  qed
qed simp

definition normal_text :: "(u64 \<Rightarrow> u64 \<Rightarrow> string) \<Rightarrow> mon_state \<Rightarrow> addr list \<Rightarrow> string" where
  "normal_text cpu_text st gs = normal_head @
     concat (map (\<lambda>run. head_of normal_group st (rec_gid (mon_recs st) (hd run)) @ concat (map (line_of cpu_text normal_service st) run))
       (runs (rec_gid (mon_recs st)) gs))"

subsection \<open>The JSON report\<close>

fun json_pieces :: "(u32 \<Rightarrow> string) \<Rightarrow> (addr \<Rightarrow> string) \<Rightarrow> (addr \<Rightarrow> u32) \<Rightarrow> bool \<Rightarrow> bool \<Rightarrow> u32 \<Rightarrow> addr list \<Rightarrow> string list" where
  "json_pieces H L gid in_group comma last_gid [] = []"
| "json_pieces H L gid in_group comma last_gid (n # ns) =
     (if last_gid \<noteq> gid n then (if in_group then ['']},''] else []) @ [H (gid n)] else if comma then ['',''] else []) @
     L n # json_pieces H L gid True True (gid n) ns"

lemma json_loop:
  assumes "map_ok key (mon_heap st) m (ys @ zs)" "readable st zs"
    "g_record = None \<and> last_gid = - 1 \<or> g_record = group_at (unat last_gid) st \<and> g_record \<noteq> None"
  shows "json_fill_loop cpu_text st sz comma last_gid g_record (hd_opt zs) x =
    apply_all sz (json_pieces (head_of json_group st) (line_of cpu_text json_service st) (rec_gid (mon_recs st))
      (g_record \<noteq> None) comma last_gid zs) x"
  using assms
proof (induction zs arbitrary: ys comma last_gid g_record x)
  case Nil
  then show ?case by (subst json_fill_loop.simps) simp
next
  case (Cons n zs)
  obtain r g t where r: "mon_recs st n = Some r" "ms_gid (mr_data r) \<noteq> - 1" "group_at (unat (ms_gid (mr_data r))) st = Some g"
    "tid_of st g = Some t" "\<And>c l. service_line c l st r g = Some (line_of c l st n)"
    "\<And>h. h (ms_gid (mr_data r)) t = head_of h st (ms_gid (mr_data r))" "readable st zs"
    by (rule readable_Cons [OF Cons.prems(2)], rule that)
  have nxt: "eaf_map_next n (mon_heap st) = Some (hd_opt zs)" using iteration_spec(3) [OF Cons.prems(1)] by blast
  let ?H = "head_of json_group st" and ?L = "line_of cpu_text json_service st"
  have IH: "json_fill_loop cpu_text st sz True (ms_gid (mr_data r)) (Some g) (hd_opt zs) =
      apply_all sz (json_pieces ?H ?L (rec_gid (mon_recs st)) True True (ms_gid (mr_data r)) zs)"
    by (rule ext, subst Cons.IH [of "ys @ [n]"]) (use Cons.prems r in simp_all)
  show ?case
  proof (cases "last_gid = ms_gid (mr_data r)")
    case True
    then have "g_record = Some g" using Cons.prems(3) r(2,3) by auto
    then show ?thesis using True r IH nxt
      by (subst json_fill_loop.simps) (simp add: apply_Cons)
  next
    case False
    then show ?thesis using r IH nxt
      by (cases g_record; subst json_fill_loop.simps) (simp_all add: apply_Cons bind_assoc)
  qed
qed

lemma json_pieces_runs:
  "concat (json_pieces H L gid True True last_gid ns) =
     concat (map (\<lambda>n. '','' @ L n) (takeWhile (\<lambda>n. gid n = last_gid) ns)) @
     concat (map (\<lambda>run. '']},'' @ H (gid (hd run)) @ join '','' (map L run)) (runs gid (dropWhile (\<lambda>n. gid n = last_gid) ns)))"
proof (induction ns arbitrary: last_gid)
  case (Cons n ns)
  show ?case
  proof (cases "gid n = last_gid")
    case True
    then show ?thesis using Cons.IH [of last_gid] by simp
  next
    case False
    then have "last_gid \<noteq> gid n" by simp
    with False show ?thesis using Cons.IH [of "gid n"] by (simp add: join_Cons comp_def)
  qed
qed simp

definition json_text :: "(u64 \<Rightarrow> u64 \<Rightarrow> string) \<Rightarrow> mon_state \<Rightarrow> addr list \<Rightarrow> string" where
  "json_text cpu_text st gs = ''{\"group\":['' @
     join '','' (map (\<lambda>run. head_of json_group st (rec_gid (mon_recs st) (hd run)) @ join '','' (map (line_of cpu_text json_service st) run) @ '']}'')
       (runs (rec_gid (mon_recs st)) gs)) @ '']}''"

subsection \<open>The calls\<close>

lemma normal_fill:
  assumes "map_ok key (mon_heap st) (record_group (mon_ctx st)) gs" "readable st gs"
  obtains ps where "monitor_stringify_normal_fill_nolock cpu_text buffer sz st =
      map_option (\<lambda>(n, t, b). (n, b)) (apply_all sz ps (0, 0, buffer))"
    "concat ps = normal_text cpu_text st gs"
    "set ps \<subseteq> {normal_head} \<union> range (head_of normal_group st) \<union> line_of cpu_text normal_service st ` set gs"
proof
  let ?H = "head_of normal_group st" and ?L = "line_of cpu_text normal_service st" and ?gid = "rec_gid (mon_recs st)"
  let ?ps = "normal_head # normal_pieces ?H ?L ?gid (- 1) gs"
  have "normal_fill_loop cpu_text st sz (- 1) None (hd_opt gs) = apply_all sz (normal_pieces ?H ?L ?gid (- 1) gs)"
    by (rule ext, rule normal_loop [where ys = "[]"]) (use assms in simp_all)
  then show "monitor_stringify_normal_fill_nolock cpu_text buffer sz st = map_option (\<lambda>(n, t, b). (n, b)) (apply_all sz ?ps (0, 0, buffer))"
    using iteration_spec(1) [OF assms(1)]
    by (simp add: monitor_stringify_normal_fill_nolock_def apply_Cons map_option_case case_prod_beta split: bind_split option.split)
  have ne: "\<forall>n \<in> set gs. ?gid n \<noteq> - 1" using assms(2) by (auto simp: readable_def)
  then have "takeWhile (\<lambda>n. ?gid n = - 1) gs = []" "dropWhile (\<lambda>n. ?gid n = - 1) gs = gs" by (cases gs; simp)+
  then show "concat ?ps = normal_text cpu_text st gs" by (simp add: normal_pieces_runs normal_text_def)
  have "set (normal_pieces H L gid l ns) \<subseteq> range H \<union> L ` set ns" for H :: "u32 \<Rightarrow> string" and L gid l and ns :: "addr list"
    by (induction ns arbitrary: l) auto
  then show "set ?ps \<subseteq> {normal_head} \<union> range ?H \<union> ?L ` set gs" by fastforce
qed

lemma json_fill:
  assumes "map_ok key (mon_heap st) (record_group (mon_ctx st)) gs" "readable st gs" "gs \<noteq> []"
  obtains ps where "monitor_stringify_json_fill_nolock cpu_text buffer sz st =
      map_option (\<lambda>(n, t, b). (n, b)) (apply_all sz ps (0, 0, buffer))"
    "concat ps = json_text cpu_text st gs"
    "set ps \<subseteq> {''{\"group\":['', '']},'', '','', '']}]}''} \<union> range (head_of json_group st) \<union> line_of cpu_text json_service st ` set gs"
proof
  let ?H = "head_of json_group st" and ?L = "line_of cpu_text json_service st" and ?gid = "rec_gid (mon_recs st)"
  let ?ps = "''{\"group\":['' # json_pieces ?H ?L ?gid False False (- 1) gs @ ['']}]}'']"
  have "json_fill_loop cpu_text st sz False (- 1) None (hd_opt gs) = apply_all sz (json_pieces ?H ?L ?gid False False (- 1) gs)"
    by (rule ext, subst json_loop [where ys = "[]"]) (use assms in simp_all)
  then show "monitor_stringify_json_fill_nolock cpu_text buffer sz st = map_option (\<lambda>(n, t, b). (n, b)) (apply_all sz ?ps (0, 0, buffer))"
    using iteration_spec(1) [OF assms(1)]
    by (simp add: monitor_stringify_json_fill_nolock_def apply_Cons apply_all_append map_option_case case_prod_beta split: bind_split option.split)
  obtain n ns where gs: "gs = n # ns" using assms(3) by (cases gs) auto
  have "?gid n \<noteq> - 1" using assms(2) gs by (auto simp: readable_def)
  then have ne: "- 1 \<noteq> ?gid n" by (rule not_sym)
  have rot: "concat (map (\<lambda>r. a @ f r) rs) @ a = a @ concat (map (\<lambda>r. f r @ a) rs)" for a and f :: "addr list \<Rightarrow> string" and rs
    by (induction rs) simp_all
  show "concat ?ps = json_text cpu_text st gs" using ne rot [of "'']}''" "\<lambda>r. '','' @ _ r"] unfolding gs
    by (simp add: json_pieces_runs json_text_def join_Cons comp_def)
  have "set (json_pieces H L gid g c l ns) \<subseteq> {'']},'', '',''} \<union> range H \<union> L ` set ns" for H :: "u32 \<Rightarrow> string" and L gid g c l and ns :: "addr list"
  proof (induction ns arbitrary: g c l)
    case (Cons n ns)
    show ?case using Cons.IH [of True True "gid n"] by auto
  qed simp
  then show "set ?ps \<subseteq> {''{\"group\":['', '']},'', '','', '']}]}''} \<union> range ?H \<union> ?L ` set gs" by fastforce
qed

subsection \<open>Lengths\<close>

lemma length_state: "length (monitor_state_2_string s) \<le> 5"
  by (cases s) (simp_all add: monitor_state_2_string_def)

lemma length_normal_head: "length normal_head = 60"
  by (simp add: normal_head_def)

lemma length_normal_group: "length (normal_group gid tid) \<le> 32"
  using length_u32 [of gid] length_u64 [of tid] by (simp add: normal_group_def)

lemma length_json_group: "length (json_group gid tid) \<le> 56"
  using length_u32 [of gid] length_u64 [of tid] by (simp add: json_group_def)

lemma length_normal_service:
  assumes "length cpu \<le> 5"
  shows "length (normal_service cpu state msgq r) \<le> 72"
  using assms length_hex32 [of "ms_sid (mr_data r)"] length_state [of state] length_u32 [of "flush_recv (mr_counter r)"]
    length_u32 [of "flush_send (mr_counter r)"] length_u32 [of msgq] length_u32 [of "use_msec r"]
  by (simp add: normal_service_def)

lemma length_normal_service_small:
  assumes "length cpu \<le> 5" "flush_recv (mr_counter r) < 100000000" "flush_send (mr_counter r) < 100000000"
    "msgq < 1000000" "use_msec r < 1000000"
  shows "length (normal_service cpu state msgq r) = 60"
proof -
  have "length (digits 10 (unat w)) \<le> 8" if "w < 100000000" for w :: u32
    by (rule length_digits) (use that in \<open>simp_all add: word_less_nat_alt\<close>)
  moreover have "length (digits 10 (unat w)) \<le> 6" if "w < 1000000" for w :: u32
    by (rule length_digits) (use that in \<open>simp_all add: word_less_nat_alt\<close>)
  ultimately show ?thesis
    using assms length_hex32 [of "ms_sid (mr_data r)"] length_state [of state]
    by (simp add: normal_service_def max_absorb1)
qed

lemma length_json_service:
  assumes "length cpu \<le> 5"
  shows "length (json_service cpu state msgq r) \<le> 117"
  using assms length_u32 [of "ms_sid (mr_data r)"] length_state [of state] length_u32 [of "flush_recv (mr_counter r)"]
    length_u32 [of "flush_send (mr_counter r)"] length_u32 [of msgq] length_u32 [of "use_msec r"]
  by (simp add: json_service_def)

lemma length_concat_le: "(\<And>x. x \<in> set xs \<Longrightarrow> length (f x) \<le> k) \<Longrightarrow> length (concat (map f xs)) \<le> k * length xs"
  by (induction xs) (simp_all add: add_mono)

lemma length_join_le: "(\<And>x. x \<in> set xs \<Longrightarrow> length (f x) \<le> k) \<Longrightarrow> length (join '','' (map f xs)) \<le> Suc k * length xs"
proof (induction xs)
  case (Cons x xs)
  have "length (concat (map (\<lambda>y. '','' @ f y) xs)) \<le> Suc k * length xs" by (rule length_concat_le) (use Cons.prems in simp)
  then show ?case using Cons.prems [of x] by (simp add: join_Cons comp_def)
qed simp

text \<open>A text that consists of runs with a head each: the heads are at most as many as the groups.\<close>

lemma sum_runs: "(\<Sum>r \<leftarrow> rs. a + k * length r) = a * length rs + k * length (concat rs)" for a k :: nat
  by (induction rs) (simp_all add: algebra_simps)

lemma line_of_ex:
  assumes "readable st gs" "n \<in> set gs"
  obtains r and g :: monitor_group_record and v where "mon_recs st n = Some r" "srv (mon_world st) (ms_sls (mr_data r)) = Some v"
    "\<forall>c l. line_of c l st n = l (c (flush_use_time (mr_counter r)) (mg_use_time g)) (s_state v) (of_nat (length (s_queue v))) r"
proof -
  obtain r where r: "mon_recs st n = Some r" using assms by (auto simp: readable_def)
  obtain g v where g: "group_at (unat (ms_gid (mr_data r))) st = Some g" "srv (mon_world st) (ms_sls (mr_data r)) = Some v"
  proof -
    have "(case group_at (unat (rec_gid (mon_recs st) n)) st of None \<Rightarrow> False | Some g \<Rightarrow> tid_of st g \<noteq> None) \<and>
      srv (mon_world st) (ms_sls (mr_data (the (mon_recs st n)))) \<noteq> None"
      using assms unfolding readable_def by blast
    then show thesis using that r by (auto split: option.splits)
  qed
  have "line_of c l st n = l (c (flush_use_time (mr_counter r)) (mg_use_time g)) (s_state v) (of_nat (length (s_queue v))) r" for c l
    using r g by (simp add: line_of_def service_line_def eaf_message_queue_size_def)
  then have "\<forall>c l. line_of c l st n = l (c (flush_use_time (mr_counter r)) (mg_use_time g)) (s_state v) (of_nat (length (s_queue v))) r" by blast
  from that [OF r g(2) this] show thesis .
qed

lemma length_join_sum: "length (join '','' (map f rs)) \<le> (\<Sum>r \<leftarrow> rs. Suc (length (f r)))"
proof (cases rs)
  case (Cons r rs')
  have "length (concat (map (\<lambda>y. '','' @ f y) rs')) = (\<Sum>r \<leftarrow> rs'. Suc (length (f r)))" by (induction rs') simp_all
  then show ?thesis using Cons by (simp add: join_Cons comp_def)
qed simp

lemma length_concat_sum: "length (concat (map f rs)) = (\<Sum>r \<leftarrow> rs. length (f r))"
  by (induction rs) simp_all

lemma runs_of_groups:
  assumes "mon_ok st gs ss fs"
  shows "length (runs (rec_gid (mon_recs st)) gs) \<le> unat (mon_group_size (mon_ctx st))"
proof -
  let ?gid = "rec_gid (mon_recs st)"
  have "sorted_wrt (\<lambda>a b. group_key (mon_recs st) a < group_key (mon_recs st) b) gs"
    using mon_tablesD(1) [OF mon_okD [OF assms]] by (simp add: map_ok_def)
  then have "sorted_wrt (\<lambda>a b. ?gid a \<le> ?gid b) gs" by (rule sorted_wrt_mono_rel [rotated]) (auto simp: less_prod_def)
  then have "sorted (map ?gid gs)" by (simp add: sorted_map)
  then have "length (runs ?gid gs) \<le> card (?gid ` set gs)" by (rule length_runs)
  also have "\<dots> = card (unat ` ?gid ` set gs)" by (rule card_image [symmetric]) (auto intro!: inj_onI simp: word_unat_eq_iff)
  also have "\<dots> \<le> card {..<unat (mon_group_size (mon_ctx st))}"
    using assms by (intro card_mono) (auto simp: mon_ok_def split: option.splits)
  finally show ?thesis by simp
qed

lemma splits_of_services: "mon_tables st gs ss fs \<Longrightarrow> unat (eaf_map_size (record_split (mon_ctx st))) = length gs"
  using size_spec [OF mon_tablesD(2)] splits_length by metis

lemma runs_subset: "r \<in> set (runs key xs) \<Longrightarrow> set r \<subseteq> set xs"
  using concat_runs [of key xs] by (metis UN_upper set_concat)

lemma length_json_text:
  assumes "readable st gs" "\<forall>u t. length (cpu_text u t) \<le> 5"
  shows "length (json_text cpu_text st gs) \<le> 12 + 59 * length (runs (rec_gid (mon_recs st)) gs) + 118 * length gs"
proof -
  let ?gid = "rec_gid (mon_recs st)"
  let ?run = "\<lambda>run. head_of json_group st (?gid (hd run)) @ join '','' (map (line_of cpu_text json_service st) run) @ '']}''"
  have one: "Suc (length (?run r)) \<le> 59 + 118 * length r" if "r \<in> set (runs ?gid gs)" for r
  proof -
    have "length (line_of cpu_text json_service st n) \<le> 117" if n: "n \<in> set r" for n
    proof -
      have "n \<in> set gs" using runs_subset [OF \<open>r \<in> _\<close>] n by blast
      then obtain r and g :: monitor_group_record and v where "mon_recs st n = Some r" "srv (mon_world st) (ms_sls (mr_data r)) = Some v"
        "\<forall>c l. line_of c l st n = l (c (flush_use_time (mr_counter r)) (mg_use_time g)) (s_state v) (of_nat (length (s_queue v))) r"
        by (rule line_of_ex [OF assms(1)])
      then show ?thesis using length_json_service assms(2) by simp
    qed
    then have "length (join '','' (map (line_of cpu_text json_service st) r)) \<le> Suc 117 * length r" by (rule length_join_le)
    moreover have "length (head_of json_group st (?gid (hd r))) \<le> 56" by (simp add: head_of_def length_json_group)
    ultimately show ?thesis by simp
  qed
  have "length (join '','' (map ?run (runs ?gid gs))) \<le> (\<Sum>r \<leftarrow> runs ?gid gs. Suc (length (?run r)))" by (rule length_join_sum)
  also have "\<dots> \<le> (\<Sum>r \<leftarrow> runs ?gid gs. 59 + 118 * length r)" by (rule sum_list_mono) (rule one)
  also have "\<dots> = 59 * length (runs ?gid gs) + 118 * length gs" by (simp only: sum_runs concat_runs)
  finally show ?thesis by (simp add: json_text_def)
qed

text \<open>The counters that the columns of the report have room for.\<close>

definition small :: "mon_state \<Rightarrow> addr \<Rightarrow> bool" where
  "small st n \<longleftrightarrow> (case mon_recs st n of None \<Rightarrow> False | Some r \<Rightarrow>
     flush_recv (mr_counter r) < 100000000 \<and> flush_send (mr_counter r) < 100000000 \<and> use_msec r < 1000000 \<and>
     (case srv (mon_world st) (ms_sls (mr_data r)) of None \<Rightarrow> False | Some v \<Rightarrow> length (s_queue v) < 1000000))"

lemma length_normal_text:
  assumes "readable st gs" "\<forall>u t. length (cpu_text u t) \<le> 5" "\<forall>n \<in> set gs. small st n"
  shows "length (normal_text cpu_text st gs) \<le> 60 + 32 * length (runs (rec_gid (mon_recs st)) gs) + 60 * length gs"
proof -
  let ?gid = "rec_gid (mon_recs st)"
  let ?run = "\<lambda>run. head_of normal_group st (?gid (hd run)) @ concat (map (line_of cpu_text normal_service st) run)"
  have one: "length (?run r) \<le> 32 + 60 * length r" if "r \<in> set (runs ?gid gs)" for r
  proof -
    have "length (line_of cpu_text normal_service st n) \<le> 60" if n: "n \<in> set r" for n
    proof -
      have n: "n \<in> set gs" using runs_subset [OF \<open>r \<in> _\<close>] n by blast
      obtain r and g :: monitor_group_record and v where l: "mon_recs st n = Some r" "srv (mon_world st) (ms_sls (mr_data r)) = Some v"
        "\<forall>c l. line_of c l st n = l (c (flush_use_time (mr_counter r)) (mg_use_time g)) (s_state v) (of_nat (length (s_queue v))) r"
        by (rule line_of_ex [OF assms(1) n])
      have s: "flush_recv (mr_counter r) < 100000000" "flush_send (mr_counter r) < 100000000" "use_msec r < 1000000" "length (s_queue v) < 1000000"
        using assms(3) n l(1,2) by (auto simp: small_def)
      have "(of_nat (length (s_queue v)) :: u32) < 1000000" using s(4) by (simp add: word_less_nat_alt unat_of_nat)
      then show ?thesis using l(3) length_normal_service_small [OF _ s(1,2) _ s(3)] assms(2) by simp
    qed
    then have "length (concat (map (line_of cpu_text normal_service st) r)) \<le> 60 * length r" by (rule length_concat_le)
    moreover have "length (head_of normal_group st (?gid (hd r))) \<le> 32" by (simp add: head_of_def length_normal_group)
    ultimately show ?thesis by simp
  qed
  have "length (concat (map ?run (runs ?gid gs))) = (\<Sum>r \<leftarrow> runs ?gid gs. length (?run r))" by (rule length_concat_sum)
  also have "\<dots> \<le> (\<Sum>r \<leftarrow> runs ?gid gs. 32 + 60 * length r)" by (rule sum_list_mono) (rule one)
  also have "\<dots> = 32 * length (runs ?gid gs) + 60 * length gs" by (simp only: sum_runs concat_runs)
  finally show ?thesis by (simp add: normal_text_def length_normal_head)
qed

lemma string_sizes:
  assumes "mon_tables st gs ss fs" "unat (mon_group_size (mon_ctx st)) < 2 ^ 32" "length gs < 2 ^ 32"
  shows "unat (json_string_size st) = 12 + 59 * unat (mon_group_size (mon_ctx st)) + 120 * length gs + 1"
    "unat (normal_string_size st) = 60 + 32 * unat (mon_group_size (mon_ctx st)) + 60 * length gs + 1"
proof -
  define G where "G = unat (mon_group_size (mon_ctx st))"
  define S where "S = length gs"
  have w: "mon_group_size (mon_ctx st) = of_nat G" "eaf_map_size (record_split (mon_ctx st)) = of_nat S"
    unfolding G_def S_def splits_of_services [OF assms(1), symmetric] by simp_all
  have b: "G < 2 ^ 32" "S < 2 ^ 32" using assms(2,3) by (simp_all add: G_def S_def)
  have "json_string_size st = of_nat (12 + 59 * G + 120 * S + 1)" "normal_string_size st = of_nat (60 + 32 * G + 60 * S + 1)"
    by (simp_all add: json_string_size_def normal_string_size_def w)
  moreover have "12 + 59 * G + 120 * S + 1 < 2 ^ 64" "60 + 32 * G + 60 * S + 1 < 2 ^ 64" using b by simp_all
  moreover have "unat (of_nat k :: size_t) = k" if "k < 2 ^ 64" for k using that by (simp add: unat_of_nat)
  ultimately have "unat (json_string_size st) = 12 + 59 * G + 120 * S + 1" "unat (normal_string_size st) = 60 + 32 * G + 60 * S + 1"
    by (simp_all only:)
  then show "unat (json_string_size st) = 12 + 59 * unat (mon_group_size (mon_ctx st)) + 120 * length gs + 1"
    "unat (normal_string_size st) = 60 + 32 * unat (mon_group_size (mon_ctx st)) + 60 * length gs + 1"
    by (simp_all add: G_def S_def)
qed

end
