(* ===== verification/MonitorLife.thy ===== *)
theory MonitorLife
  imports MonitorReport
begin

text \<open>
  The start and the end of the monitor: \<open>_monitor_on_load_before\<close> makes a record for each service,
  \<open>eaf_monitor_exit\<close> takes all records out of the maps and frees them.
\<close>

subsection \<open>Exit\<close>

lemma erase_now:
  assumes "map_ok key h m xs" "n \<in> set xs"
  obtains m' h' where "eaf_map_erase m n h = Some (m', h')" "map_ok key h' m' (remove1 n xs)" "same_off (set xs) h h'"
  using erase_spec [OF assms] by blast

lemma exit_service_ok:
  assumes "mon_tables st gs (n # ss) fs"
  shows "\<exists>st1 st2. split_erase n st = Some st1 \<and> group_erase (n - n_split_offset) st1 = Some st2 \<and>
    mon_tables (st2\<lparr>mon_recs := (mon_recs st2)(n - n_split_offset := None)\<rparr>) (remove1 (n - n_split_offset) gs) ss fs \<and>
    mon_flows st2 = mon_flows st"
proof -
  note t = mon_tablesD [OF assms]
  let ?g = "n - n_split_offset"
  have "n \<in> (\<lambda>a. a + n_split_offset) ` set gs" unfolding t(4) [symmetric] by simp
  then have g: "?g \<in> set gs" "n = ?g + n_split_offset" by auto
  have d: "distinct gs" "distinct (n # ss)" using map_ok_distinct t(1,2) by blast+
  obtain m h where e: "eaf_map_erase (record_split (mon_ctx st)) n (mon_heap st) = Some (m, h)"
    "map_ok (split_key (mon_recs st)) h m ss" "same_off (set (n # ss)) (mon_heap st) h"
    using erase_now [OF t(2), of n] by auto
  have o: "map_ok (group_key (mon_recs st)) h (record_group (mon_ctx st)) gs" "map_ok (flow_key (mon_flows st)) h (dataflow_record (mon_ctx st)) fs"
    using map_ok_frame [OF t(1) e(3)] map_ok_frame [OF t(3) e(3)] t(5,6) by auto
  obtain m' h' where e': "eaf_map_erase (record_group (mon_ctx st)) ?g h = Some (m', h')"
    "map_ok (group_key (mon_recs st)) h' m' (remove1 ?g gs)" "same_off (set gs) h h'"
    using erase_now [OF o(1) g(1)] by blast
  have o': "map_ok (split_key (mon_recs st)) h' m ss" "map_ok (flow_key (mon_flows st)) h' (dataflow_record (mon_ctx st)) fs"
    using map_ok_frame [OF e(2) e'(3)] map_ok_frame [OF o(2) e'(3)] t(5,6) by auto
  let ?st1 = "st\<lparr>mon_ctx := (mon_ctx st)\<lparr>record_split := m\<rparr>, mon_heap := h\<rparr>"
  let ?st2 = "?st1\<lparr>mon_ctx := (mon_ctx ?st1)\<lparr>record_group := m'\<rparr>, mon_heap := h'\<rparr>"
  let ?R = "(mon_recs st)(?g := None)"
  have rem: "set (remove1 ?g gs) = set gs - {?g}" using d(1) by simp
  have ss: "set ss = set (n # ss) - {n}" using d(2) by auto
  have tab: "mon_tables (?st2\<lparr>mon_recs := ?R\<rparr>) (remove1 ?g gs) ss fs"
  proof (rule mon_tablesI)
    show "map_ok (group_key (mon_recs (?st2\<lparr>mon_recs := ?R\<rparr>))) (mon_heap (?st2\<lparr>mon_recs := ?R\<rparr>)) (record_group (mon_ctx (?st2\<lparr>mon_recs := ?R\<rparr>))) (remove1 ?g gs)"
      using map_ok_key [OF e'(2), of "group_key ?R"] rem by simp
    have "a - n_split_offset \<noteq> ?g" if "a \<in> set ss" for a
    proof -
      have "a \<in> (\<lambda>a. a + n_split_offset) ` set gs" unfolding t(4) [symmetric] using that by simp
      then show ?thesis using that d(2) g(2) by auto
    qed
    then show "map_ok (split_key (mon_recs (?st2\<lparr>mon_recs := ?R\<rparr>))) (mon_heap (?st2\<lparr>mon_recs := ?R\<rparr>)) (record_split (mon_ctx (?st2\<lparr>mon_recs := ?R\<rparr>))) ss"
      using map_ok_key [OF o'(1), of "split_key ?R"] by simp
    show "set ss = (\<lambda>a. a + n_split_offset) ` set (remove1 ?g gs)" unfolding rem ss t(4) using g(2) by auto
    show "dom (mon_recs (?st2\<lparr>mon_recs := ?R\<rparr>)) = set (remove1 ?g gs)" unfolding rem using t(7) by auto
  qed (use o' t(5,6,8) rem in auto)
  then show ?thesis using e(1) e'(1) by (intro exI [of _ ?st1] exI [of _ ?st2]) (simp add: split_erase_def group_erase_def)
qed

lemma exit_services_ok:
  assumes "mon_tables st gs ss fs"
  shows "\<exists>st'. exit_services_loop (hd_opt ss) st = Some st' \<and> mon_tables st' [] [] fs"
  using assms
proof (induction ss arbitrary: st gs)
  case Nil
  then have "gs = []" using mon_tablesD(4) [OF Nil] by simp
  then show ?case using Nil by (subst exit_services_loop.simps) simp
next
  case (Cons n ss)
  note t = mon_tablesD [OF Cons.prems]
  have nxt: "eaf_map_next n (mon_heap st) = Some (hd_opt ss)" using iteration_spec(3) [OF t(2), of "[]" n ss] by simp
  obtain st1 st2 where s: "split_erase n st = Some st1" "group_erase (n - n_split_offset) st1 = Some st2"
    "mon_tables (st2\<lparr>mon_recs := (mon_recs st2)(n - n_split_offset := None)\<rparr>) (remove1 (n - n_split_offset) gs) ss fs"
    using exit_service_ok [OF Cons.prems] by blast
  obtain st' where "exit_services_loop (hd_opt ss) (st2\<lparr>mon_recs := (mon_recs st2)(n - n_split_offset := None)\<rparr>) = Some st'" "mon_tables st' [] [] fs"
    using Cons.IH [OF s(3)] by blast
  then show ?case using nxt s by (subst exit_services_loop.simps) simp
qed

lemma exit_flows_ok:
  assumes "mon_tables st [] [] fs"
  shows "\<exists>st'. exit_flows_loop (hd_opt fs) st = Some st' \<and> mon_tables st' [] [] []"
  using assms
proof (induction fs arbitrary: st)
  case Nil
  then show ?case by (subst exit_flows_loop.simps) simp
next
  case (Cons n fs)
  note t = mon_tablesD [OF Cons.prems]
  have nxt: "eaf_map_next n (mon_heap st) = Some (hd_opt fs)" using iteration_spec(3) [OF t(3), of "[]" n fs] by simp
  have d: "n \<notin> set fs" using map_ok_distinct [OF t(3)] by simp
  obtain m h where e: "eaf_map_erase (dataflow_record (mon_ctx st)) n (mon_heap st) = Some (m, h)"
    "map_ok (flow_key (mon_flows st)) h m fs" "same_off (set (n # fs)) (mon_heap st) h"
    using erase_now [OF t(3), of n] by auto
  let ?st = "st\<lparr>mon_ctx := (mon_ctx st)\<lparr>dataflow_record := m\<rparr>, mon_heap := h\<rparr>"
  let ?s = "?st\<lparr>mon_flows := (mon_flows ?st)(n := None)\<rparr>"
  have "mon_tables ?s [] [] fs"
  proof (rule mon_tablesI)
    show "map_ok (flow_key (mon_flows ?s)) (mon_heap ?s) (dataflow_record (mon_ctx ?s)) fs"
    proof -
      have "flow_key ((mon_flows st)(n := None)) a = flow_key (mon_flows st) a" if "a \<in> set fs" for a using that d by auto
      from map_ok_key [OF e(2) this] show ?thesis by simp
    qed
    show "map_ok (group_key (mon_recs ?s)) (mon_heap ?s) (record_group (mon_ctx ?s)) []" using map_ok_frame [OF t(1) e(3)] by simp
    show "map_ok (split_key (mon_recs ?s)) (mon_heap ?s) (record_split (mon_ctx ?s)) []" using map_ok_frame [OF t(2) e(3)] by simp
    show "dom (mon_flows ?s) = set fs" using t(8) d by auto
  qed (use t(7) in simp_all)
  then obtain st' where "exit_flows_loop (hd_opt fs) ?s = Some st'" "mon_tables st' [] [] []" using Cons.IH by blast
  then show ?case using nxt e(1) by (subst exit_flows_loop.simps) (simp add: flow_erase_def)
qed

subsection \<open>Load\<close>

text \<open>The services of a group, from a position on; the addresses the records get. All of them, and the nodes
  in them, are fresh and apart.\<close>

definition fresh_rec :: "mon_state \<Rightarrow> addr list \<Rightarrow> addr list \<Rightarrow> addr list \<Rightarrow> addr \<Rightarrow> bool" where
  "fresh_rec st gs ss fs a \<longleftrightarrow> a \<notin> set gs \<union> set ss \<union> set fs \<and> a + n_split_offset \<notin> set gs \<union> set ss \<union> set fs"

lemma add_service_ok:
  assumes "mon_tables st gs ss fs" "mem s = Some (a, junk)" "srv (mon_world st) s = Some v" "0 \<le> uv_mutex_init s"
    "fresh_rec st gs ss fs a" "Suc (length gs) < 2 ^ 64" "idx < 2 ^ 32"
  shows "\<exists>st' gs' ss'. monitor_add_service mem uv_mutex_init idx s st = Some st' \<and> mon_tables st' gs' ss' fs \<and>
    (if \<exists>b \<in> set gs. rec_sid (mon_recs st) b = s_id v then gs' = gs \<and> ss' = ss \<and> mon_recs st' = mon_recs st
     else set gs' = insert a (set gs) \<and> set ss' = insert (a + n_split_offset) (set ss) \<and>
       (\<exists>r. mon_recs st' = (mon_recs st)(a \<mapsto> r) \<and> mr_data r = \<lparr>ms_gid = of_nat idx, ms_sid = s_id v, ms_sls = s\<rparr> \<and>
          mr_counter r = \<lparr>flush_send = 0, flush_recv = 0, flush_use_time = 0, total_send = 0, total_recv = 0\<rparr>)) \<and>
    mon_world st' = mon_world st \<and> mon_flows st' = mon_flows st \<and>
    mon_group_table (mon_ctx st') = mon_group_table (mon_ctx st) \<and> mon_group_size (mon_ctx st') = mon_group_size (mon_ctx st)"
proof -
  note t = mon_tablesD [OF assms(1)]
  let ?r = "\<lparr>mr_data = \<lparr>ms_gid = of_nat idx, ms_sid = s_id v, ms_sls = s\<rparr>,
        mr_counter = \<lparr>flush_send = 0, flush_recv = 0, flush_use_time = 0, total_send = 0, total_recv = 0\<rparr>, use_time_start = junk\<rparr> :: monitor_service_record"
  let ?R = "(mon_recs st)(a \<mapsto> ?r)"
  let ?n = "a + n_split_offset"
  have fresh: "a \<notin> set gs" "a \<notin> set ss" "a \<notin> set fs" "?n \<notin> set gs" "?n \<notin> set ss" "?n \<notin> set fs" using assms(5) by (auto simp: fresh_rec_def)
  have na: "b \<noteq> a" if "b \<in> set gs" for b using that fresh by blast
  have nb: "b - n_split_offset \<noteq> a \<and> b - n_split_offset \<in> set gs" if "b \<in> set ss" for b
  proof -
    have "b \<in> (\<lambda>a. a + n_split_offset) ` set gs" unfolding t(4) [symmetric] by (rule that)
    then obtain c where "c \<in> set gs" "b = c + n_split_offset" by blast
    then show ?thesis using na [of c] by simp
  qed
  have Ra: "mon_recs st a = None" using t(7) fresh(1) by blast
  have msplit: "map_ok (split_key ?R) (mon_heap st) (record_split (mon_ctx st)) ss" by (rule map_ok_key [OF t(2)]) (use nb in simp)
  have mgroup: "map_ok (group_key ?R) (mon_heap st) (record_group (mon_ctx st)) gs" by (rule map_ok_key [OF t(1)]) (use na in simp)
  have len: "Suc (length ss) < 2 ^ 64"
    using splits_length [OF assms(1)] assms(6) by simp
  show ?thesis
  proof (cases "\<exists>b \<in> set gs. rec_sid (mon_recs st) b = s_id v")
    case True
    then obtain b where b: "b \<in> set gs" "rec_sid (mon_recs st) b = s_id v" by blast
    then have bs: "b + n_split_offset \<in> set ss" unfolding t(4) by blast
    have "split_key ?R (b + n_split_offset) = split_key ?R ?n" using b na by simp
    then have "eaf_map_insert ((record_split (mon_ctx st))\<lparr>cmp_fn := split_cmp ?R\<rparr>) ?n (mon_heap st) =
        Some (eaf_errno_duplicate, (record_split (mon_ctx st))\<lparr>cmp_fn := split_cmp ?R\<rparr>, mon_heap st)"
      using monitor_split_map.insert_duplicate [where rc = "\<lambda>a. mr_data (the (?R (a - n_split_offset)))", OF msplit _ fresh(5) len bs]
      by (simp add: split_cmp_def)
    then have "monitor_add_service mem uv_mutex_init idx s st = Some (st\<lparr>mon_recs := mon_recs st,
        mon_ctx := (mon_ctx st)\<lparr>record_split := (record_split (mon_ctx st))\<lparr>cmp_fn := split_cmp ?R\<rparr>\<rparr>\<rparr>)"
      using assms(2-4) Ra by (simp add: monitor_add_service_def split_insert_def eaf_errno_duplicate_def fun_upd_idem)
    moreover have "mon_tables (st\<lparr>mon_recs := mon_recs st,
        mon_ctx := (mon_ctx st)\<lparr>record_split := (record_split (mon_ctx st))\<lparr>cmp_fn := split_cmp ?R\<rparr>\<rparr>\<rparr>) gs ss fs"
      by (rule mon_tablesI) (use t in simp_all)
    ultimately show ?thesis using True by (intro exI conjI) (assumption | simp)+
  next
    case False
    have keys: "split_key ?R b \<noteq> split_key ?R ?n" if "b \<in> set ss" for b using False nb [OF that] by auto
    obtain m h where i: "eaf_map_insert ((record_split (mon_ctx st))\<lparr>cmp_fn := split_cmp ?R\<rparr>) ?n (mon_heap st) = Some (eaf_errno_success, m, h)"
      "map_ok (split_key ?R) h m (insort_key (split_key ?R) ?n ss)" "same_off (insert ?n (set ss)) (mon_heap st) h"
      using monitor_split_map.insert_now [where rc = "\<lambda>a. mr_data (the (?R (a - n_split_offset)))", OF msplit _ fresh(5) len keys] by (auto simp: split_cmp_def)
    have g: "map_ok (group_key ?R) h (record_group (mon_ctx st)) gs" using map_ok_frame [OF mgroup i(3)] fresh t(5) by auto
    have keys': "group_key ?R b \<noteq> group_key ?R a" if "b \<in> set gs" for b using False na [OF that] that by auto
    obtain m' h' where j: "eaf_map_insert ((record_group (mon_ctx st))\<lparr>cmp_fn := group_cmp ?R\<rparr>) a h = Some (eaf_errno_success, m', h')"
      "map_ok (group_key ?R) h' m' (insort_key (group_key ?R) a gs)" "same_off (insert a (set gs)) h h'"
      using monitor_group_map.insert_now [where rc = "\<lambda>a. mr_data (the (?R a))", OF g _ fresh(1) assms(6) keys'] by (auto simp: group_cmp_def)
    define gs' where "gs' = insort_key (group_key ?R) a gs"
    define ss' where "ss' = insort_key (split_key ?R) ?n ss"
    have sets: "set gs' = insert a (set gs)" "set ss' = insert ?n (set ss)" by (simp_all add: gs'_def ss'_def set_insort_key)
    let ?st = "st\<lparr>mon_recs := ?R, mon_ctx := (mon_ctx st)\<lparr>record_split := m, record_group := m'\<rparr>, mon_heap := h'\<rparr>"
    have "map_ok (split_key ?R) h' m ss'" using map_ok_frame [OF i(2) j(3)] fresh t(5) by (auto simp: ss'_def set_insort_key n_split_offset_def)
    moreover have "map_ok (flow_key (mon_flows st)) h' (dataflow_record (mon_ctx st)) fs"
      using map_ok_frame [OF map_ok_frame [OF t(3) i(3)] j(3)] fresh t(6) by auto
    ultimately have tab: "mon_tables ?st gs' ss' fs"
    proof (intro mon_tablesI)
      show "set ss' = (\<lambda>a. a + n_split_offset) ` set gs'" unfolding sets t(4) by simp
      show "set gs' \<inter> set ss' = {}" unfolding sets using t(5) fresh by (auto simp: n_split_offset_def)
      show "(set gs' \<union> set ss') \<inter> set fs = {}" unfolding sets using t(6) fresh by auto
      show "dom (mon_recs ?st) = set gs'" unfolding sets using t(7) by simp
      show "map_ok (group_key (mon_recs ?st)) (mon_heap ?st) (record_group (mon_ctx ?st)) gs'"
      proof -
        have "mon_recs ?st = ?R" "mon_heap ?st = h'" "record_group (mon_ctx ?st) = m'" by simp_all
        then show ?thesis unfolding gs'_def using j(2) by (simp only:)
      qed
    qed (use t(8) in simp_all)
    have run: "monitor_add_service mem uv_mutex_init idx s st = Some ?st"
      using assms(2-4) i(1) j(1) by (simp add: monitor_add_service_def split_insert_def group_insert_def eaf_errno_success_def)
    have ex: "\<exists>r. ?R = (mon_recs st)(a \<mapsto> r) \<and> mr_data r = \<lparr>ms_gid = of_nat idx, ms_sid = s_id v, ms_sls = s\<rparr> \<and>
          mr_counter r = \<lparr>flush_send = 0, flush_recv = 0, flush_use_time = 0, total_send = 0, total_recv = 0\<rparr>"
      by (rule exI [of _ ?r]) simp
    show ?thesis by (rule exI [of _ ?st], rule exI [of _ gs'], rule exI [of _ ss']) (use False sets tab run ex in simp)
  qed
qed

text \<open>What is known after the services at the positions \<open>P\<close>. \<open>addr_of\<close> is the address the record of a
  service gets.\<close>

abbreviation addr_of :: "(nat \<times> nat \<Rightarrow> (addr \<times> u64) option) \<Rightarrow> nat \<times> nat \<Rightarrow> addr" where
  "addr_of mem s \<equiv> fst (the (mem s))"

abbreviation sid_at :: "world \<Rightarrow> nat \<times> nat \<Rightarrow> u32" where
  "sid_at w s \<equiv> s_id (the (srv w s))"

definition positions :: "world \<Rightarrow> (nat \<times> nat) set" where
  "positions w = {s. srv w s \<noteq> None}"

definition apart :: "(nat \<times> nat \<Rightarrow> (addr \<times> u64) option) \<Rightarrow> addr list \<Rightarrow> (nat \<times> nat) set \<Rightarrow> bool" where
  "apart mem fs A \<longleftrightarrow> (\<forall>s \<in> A. mem s \<noteq> None \<and> addr_of mem s \<notin> set fs \<and> addr_of mem s + n_split_offset \<notin> set fs \<and>
     (\<forall>t \<in> A. s \<noteq> t \<longrightarrow> addr_of mem s \<noteq> addr_of mem t \<and> addr_of mem s + n_split_offset \<noteq> addr_of mem t))"

definition loaded :: "(nat \<times> nat \<Rightarrow> (addr \<times> u64) option) \<Rightarrow> world \<Rightarrow> addr list \<Rightarrow> (nat \<times> nat) set \<Rightarrow> mon_state \<Rightarrow> addr list \<Rightarrow> addr list \<Rightarrow> bool" where
  "loaded mem w fs P st gs ss \<longleftrightarrow> mon_tables st gs ss fs \<and> mon_world st = w \<and> finite P \<and> set gs \<subseteq> addr_of mem ` P \<and>
     rec_sid (mon_recs st) ` set gs = sid_at w ` P \<and>
     (\<forall>a \<in> set gs. \<exists>s \<in> P. mr_data (the (mon_recs st a)) = \<lparr>ms_gid = of_nat (fst s), ms_sid = sid_at w s, ms_sls = s\<rparr> \<and>
       mr_counter (the (mon_recs st a)) = \<lparr>flush_send = 0, flush_recv = 0, flush_use_time = 0, total_send = 0, total_recv = 0\<rparr>)"

lemma loadedD:
  assumes "loaded mem w fs P st gs ss"
  shows "mon_tables st gs ss fs" "mon_world st = w" "finite P" "set gs \<subseteq> addr_of mem ` P" "rec_sid (mon_recs st) ` set gs = sid_at w ` P"
    "a \<in> set gs \<Longrightarrow> \<exists>s \<in> P. mr_data (the (mon_recs st a)) = \<lparr>ms_gid = of_nat (fst s), ms_sid = sid_at w s, ms_sls = s\<rparr> \<and>
       mr_counter (the (mon_recs st a)) = \<lparr>flush_send = 0, flush_recv = 0, flush_use_time = 0, total_send = 0, total_recv = 0\<rparr>"
  using assms unfolding loaded_def by blast+

lemma loaded_fresh:
  assumes "loaded mem w fs P st gs ss" "apart mem fs A" "insert s P \<subseteq> A" "s \<notin> P"
  shows "fresh_rec st gs ss fs (addr_of mem s)"
proof -
  note l = loadedD [OF assms(1)]
  have ss: "set ss = (\<lambda>a. a + n_split_offset) ` set gs" by (rule mon_tablesD(4) [OF l(1)])
  have ne: "addr_of mem s \<noteq> addr_of mem t \<and> addr_of mem s + n_split_offset \<noteq> addr_of mem t \<and> addr_of mem t + n_split_offset \<noteq> addr_of mem s"
    if "t \<in> P" for t
  proof -
    have st: "s \<in> A" "t \<in> A" "s \<noteq> t" using assms(3,4) that by auto
    have ap: "addr_of mem x \<noteq> addr_of mem y \<and> addr_of mem x + n_split_offset \<noteq> addr_of mem y" if "x \<in> A" "y \<in> A" "x \<noteq> y" for x y
      using assms(2) that unfolding apart_def by blast
    show ?thesis using ap [OF st] ap [OF st(2,1) st(3) [symmetric]] by simp
  qed
  have fs: "addr_of mem s \<notin> set fs" "addr_of mem s + n_split_offset \<notin> set fs" using assms(2,3) by (auto simp: apart_def)
  have gs: "addr_of mem s \<noteq> a \<and> addr_of mem s + n_split_offset \<noteq> a \<and> a + n_split_offset \<noteq> addr_of mem s" if "a \<in> set gs" for a
  proof -
    obtain t where "t \<in> P" "a = addr_of mem t" using l(4) \<open>a \<in> set gs\<close> by blast
    then show ?thesis using ne by blast
  qed
  then have "addr_of mem s \<notin> set gs" "addr_of mem s + n_split_offset \<notin> set gs" by blast+
  moreover have "addr_of mem s \<notin> set ss" "addr_of mem s + n_split_offset \<notin> set ss" unfolding ss using gs by force+
  ultimately show ?thesis using fs by (simp add: fresh_rec_def)
qed

lemma load_service_step:
  assumes "loaded mem w fs P st gs ss" "apart mem fs A" "insert s P \<subseteq> A" "s \<notin> P" "srv w s \<noteq> None" "0 \<le> uv_mutex_init s"
    "Suc (card P) < 2 ^ 64" "fst s < 2 ^ 32"
  shows "\<exists>st' gs' ss'. monitor_add_service mem uv_mutex_init (fst s) s st = Some st' \<and> loaded mem w fs (insert s P) st' gs' ss' \<and>
    mon_group_table (mon_ctx st') = mon_group_table (mon_ctx st) \<and> mon_group_size (mon_ctx st') = mon_group_size (mon_ctx st)"
proof -
  note l = loadedD [OF assms(1)]
  obtain a junk where a: "mem s = Some (a, junk)" using assms(2,3) by (auto simp: apart_def)
  obtain v where v: "srv w s = Some v" using assms(5) by blast
  have "length gs = card (set gs)" using map_ok_distinct [OF mon_tablesD(1) [OF l(1)]] by (simp add: distinct_card)
  also have "\<dots> \<le> card (addr_of mem ` P)" by (rule card_mono) (use l(3,4) in simp_all)
  also have "\<dots> \<le> card P" by (rule card_image_le [OF l(3)])
  finally have len: "Suc (length gs) < 2 ^ 64" using assms(7) by simp
  have fresh: "fresh_rec st gs ss fs a" using loaded_fresh [OF assms(1-4)] a by simp
  obtain st' gs' ss' where st': "monitor_add_service mem uv_mutex_init (fst s) s st = Some st'" "mon_tables st' gs' ss' fs"
    "if \<exists>b \<in> set gs. rec_sid (mon_recs st) b = s_id v then gs' = gs \<and> ss' = ss \<and> mon_recs st' = mon_recs st
     else set gs' = insert a (set gs) \<and> set ss' = insert (a + n_split_offset) (set ss) \<and>
       (\<exists>r. mon_recs st' = (mon_recs st)(a \<mapsto> r) \<and> mr_data r = \<lparr>ms_gid = of_nat (fst s), ms_sid = s_id v, ms_sls = s\<rparr> \<and>
          mr_counter r = \<lparr>flush_send = 0, flush_recv = 0, flush_use_time = 0, total_send = 0, total_recv = 0\<rparr>)"
    "mon_world st' = mon_world st" "mon_group_table (mon_ctx st') = mon_group_table (mon_ctx st)"
    "mon_group_size (mon_ctx st') = mon_group_size (mon_ctx st)"
    using add_service_ok [where mem = mem and s = s and st = st and uv_mutex_init = uv_mutex_init and idx = "fst s", OF l(1) a v [folded l(2)] assms(6) fresh len assms(8)] by blast
  have "loaded mem w fs (insert s P) st' gs' ss'"
  proof (cases "\<exists>b \<in> set gs. rec_sid (mon_recs st) b = s_id v")
    case True
    then have same: "gs' = gs" "ss' = ss" "mon_recs st' = mon_recs st" using st'(3) by simp_all
    have "s_id v \<in> sid_at w ` P" using True l(5) by force
    then have sids: "sid_at w ` insert s P = sid_at w ` P" using v by (simp add: insert_absorb)
    show ?thesis unfolding loaded_def sids unfolding same(3)
      using st'(2,4) l(2-6) same by (intro conjI ballI) (blast | simp)+
  next
    case False
    then obtain r where r: "set gs' = insert a (set gs)" "mon_recs st' = (mon_recs st)(a \<mapsto> r)"
      "mr_data r = \<lparr>ms_gid = of_nat (fst s), ms_sid = s_id v, ms_sls = s\<rparr>"
      "mr_counter r = \<lparr>flush_send = 0, flush_recv = 0, flush_use_time = 0, total_send = 0, total_recv = 0\<rparr>"
      using st'(3) by auto
    have na: "a \<notin> set gs" using fresh by (simp add: fresh_rec_def)
    have old: "mon_recs st' b = mon_recs st b" if "b \<in> set gs" for b using that na r(2) by auto
    have "rec_sid (mon_recs st') ` set gs = rec_sid (mon_recs st) ` set gs" by (rule image_cong) (use old in simp_all)
    then have sids: "rec_sid (mon_recs st') ` set gs' = sid_at w ` insert s P" using l(5) r v by simp
    show ?thesis unfolding loaded_def
    proof (intro conjI ballI)
      fix b assume b: "b \<in> set gs'"
      show "\<exists>s' \<in> insert s P. mr_data (the (mon_recs st' b)) = \<lparr>ms_gid = of_nat (fst s'), ms_sid = sid_at w s', ms_sls = s'\<rparr> \<and>
          mr_counter (the (mon_recs st' b)) = \<lparr>flush_send = 0, flush_recv = 0, flush_use_time = 0, total_send = 0, total_recv = 0\<rparr>"
      proof (cases "b = a")
        case True
        then show ?thesis using r v by simp
      next
        case False
        then have "b \<in> set gs" using b r(1) by simp
        then show ?thesis using l(6) [of b] old by auto
      qed
    next
      show "set gs' \<subseteq> addr_of mem ` insert s P" using r(1) l(4) a by auto
    qed (use st'(2,4) l(2,3) sids in simp_all)
  qed
  then show ?thesis using st' by blast
qed

lemma load_services_ok:
  assumes "loaded mem w fs P st gs ss" "apart mem fs A" "P \<union> {gi} \<times> {j..<n} \<subseteq> A" "P \<inter> {gi} \<times> {j..<n} = {}"
    "grp w gi = Some g" "n = length (g_services g)" "j \<le> n" "\<forall>s. 0 \<le> uv_mutex_init s" "card P + (n - j) < 2 ^ 64" "gi < 2 ^ 32"
  shows "\<exists>st' gs' ss'. load_services_loop mem uv_mutex_init gi gi (if j < n then Some (gi, j) else None) st = Some st' \<and>
    loaded mem w fs (P \<union> {gi} \<times> {j..<n}) st' gs' ss' \<and>
    mon_group_table (mon_ctx st') = mon_group_table (mon_ctx st) \<and> mon_group_size (mon_ctx st') = mon_group_size (mon_ctx st)"
  using assms
proof (induction "n - j" arbitrary: j P st gs ss)
  case 0
  then show ?case by (intro exI [of _ st]) (auto simp: load_services_loop.simps)
next
  case (Suc k)
  then have j: "j < n" by simp
  have range: "{gi} \<times> {j..<n} = insert (gi, j) ({gi} \<times> {Suc j..<n})" using j by auto
  have np: "(gi, j) \<notin> P" using Suc.prems(4) j by auto
  have fin: "finite P" by (rule loadedD(3) [OF Suc.prems(1)])
  obtain st1 gs1 ss1 where s: "monitor_add_service mem uv_mutex_init gi (gi, j) st = Some st1" "loaded mem w fs (insert (gi, j) P) st1 gs1 ss1"
    "mon_group_table (mon_ctx st1) = mon_group_table (mon_ctx st)" "mon_group_size (mon_ctx st1) = mon_group_size (mon_ctx st)"
  proof -
    have "insert (gi, j) P \<subseteq> A" using Suc.prems(3) range by auto
    moreover have "srv w (gi, j) \<noteq> None" using Suc.prems(5,6) j by (simp add: srv_def)
    moreover have "Suc (card P) < 2 ^ 64" "fst (gi, j) < 2 ^ 32" using Suc.prems(9,10) j by simp_all
    ultimately show thesis using load_service_step [where s = "(gi, j)" and uv_mutex_init = uv_mutex_init, OF Suc.prems(1,2) _ np _ spec [where x = "(gi, j)", OF Suc.prems(8)]] that by auto
  qed
  have w1: "mon_world st1 = w" by (rule loadedD(2) [OF s(2)])
  have nxt: "eaf_service_next gi (gi, j) w = Some (if Suc j < n then Some (gi, Suc j) else None)"
    using Suc.prems(5,6) j by (auto simp: eaf_service_next_def)
  have "\<exists>st' gs' ss'. load_services_loop mem uv_mutex_init gi gi (if Suc j < n then Some (gi, Suc j) else None) st1 = Some st' \<and>
    loaded mem w fs (insert (gi, j) P \<union> {gi} \<times> {Suc j..<n}) st' gs' ss' \<and>
    mon_group_table (mon_ctx st') = mon_group_table (mon_ctx st1) \<and> mon_group_size (mon_ctx st') = mon_group_size (mon_ctx st1)"
  proof (rule Suc.hyps(1) [OF _ s(2) Suc.prems(2)])
    show "insert (gi, j) P \<union> {gi} \<times> {Suc j..<n} \<subseteq> A" using Suc.prems(3) range by auto
    show "insert (gi, j) P \<inter> {gi} \<times> {Suc j..<n} = {}" using Suc.prems(4) range by auto
    show "card (insert (gi, j) P) + (n - Suc j) < 2 ^ 64" using Suc.prems(9) j np fin by simp
  qed (use Suc j in simp_all)
  then obtain st' gs' ss' where e: "load_services_loop mem uv_mutex_init gi gi (if Suc j < n then Some (gi, Suc j) else None) st1 = Some st'"
    "loaded mem w fs (P \<union> {gi} \<times> {j..<n}) st' gs' ss'"
    "mon_group_table (mon_ctx st') = mon_group_table (mon_ctx st1)" "mon_group_size (mon_ctx st') = mon_group_size (mon_ctx st1)"
    unfolding range by auto
  have "load_services_loop mem uv_mutex_init gi gi (if j < n then Some (gi, j) else None) st = Some st'"
    using j s(1) e(1) nxt w1 by (subst load_services_loop.simps) simp
  then show ?case using e s by auto
qed

definition group_table_of :: "nat \<Rightarrow> monitor_group_record list" where
  "group_table_of n = map (\<lambda>i. \<lparr>mg_gls = i, mg_use_time = 0\<rparr>) [0..<n]"

lemma loaded_ctx: "loaded mem w fs P st gs ss \<Longrightarrow> loaded mem w fs P (st\<lparr>mon_ctx := (mon_ctx st)\<lparr>mon_group_table := T\<rparr>\<rparr>) gs ss"
  unfolding loaded_def using mon_tables_group_table [of T st gs ss fs] by simp

lemma load_groups_ok:
  assumes "loaded mem w fs ({s. fst s < gi} \<inter> positions w) st gs ss" "apart mem fs (positions w)" "w_ctx w = Some c"
    "n = length (c_groups c)" "gi \<le> n" "\<forall>i < n. g_index (c_groups c ! i) = i" "n < 2 ^ 32" "card (positions w) < 2 ^ 64" "finite (positions w)"
    "\<forall>s. 0 \<le> uv_mutex_init s" "\<forall>i. 0 \<le> group_mutex_init i" "mon_group_table (mon_ctx st) = Some (group_table_of gi)"
    "mon_group_size (mon_ctx st) = of_nat n"
  shows "\<exists>st' gs' ss'. load_groups_loop mem uv_mutex_init group_mutex_init (if gi < n then Some gi else None) gi st = Some st' \<and>
    loaded mem w fs (positions w) st' gs' ss' \<and>
    mon_group_table (mon_ctx st') = Some (group_table_of n) \<and> mon_group_size (mon_ctx st') = of_nat n"
  using assms
proof (induction "n - gi" arbitrary: gi st gs ss)
  case 0
  have "{s. fst s < n} \<inter> positions w = positions w" using 0(4,5) by (auto simp: positions_def srv_def grp_def split: if_splits)
  then show ?case using 0 by (subst load_groups_loop.simps) auto
next
  case (Suc k)
  then have gi: "gi < n" and k: "k = n - Suc gi" by simp_all
  let ?g = "c_groups c ! gi" and ?P = "{s. fst s < gi} \<inter> positions w"
  let ?m = "length (g_services ?g)"
  have grp: "grp w gi = Some ?g" using Suc.prems(3,4) gi by (simp add: grp_def)
  have size: "unat (of_nat n :: size_t) = n" using Suc.prems(7) by (simp add: unat_of_nat)
  have here: "{gi} \<times> {0..<?m} = {s. fst s = gi} \<inter> positions w" using grp by (auto simp: positions_def srv_def split: if_splits)
  have upto: "?P \<union> {gi} \<times> {0..<?m} = {s. fst s < Suc gi} \<inter> positions w" unfolding here by (auto simp: less_Suc_eq)
  have "?P \<inter> {gi} \<times> {0..<?m} = {}" by auto
  moreover from this have "card ?P + ?m = card ({s. fst s < Suc gi} \<inter> positions w)"
    using card_Un_disjoint [of ?P "{gi} \<times> {0..<?m}"] Suc.prems(9) upto by simp
  moreover have "\<dots> \<le> card (positions w)" by (rule card_mono) (use Suc.prems(9) in auto)
  ultimately have dis: "?P \<inter> {gi} \<times> {0..<?m} = {}" "card ?P + (?m - 0) < 2 ^ 64" using Suc.prems(8) by simp_all
  let ?st = "st\<lparr>mon_ctx := (mon_ctx st)\<lparr>mon_group_table := Some (group_table_of gi @ [\<lparr>mg_gls = gi, mg_use_time = 0\<rparr>])\<rparr>\<rparr>"
  have tab: "group_table_of gi @ [\<lparr>mg_gls = gi, mg_use_time = 0\<rparr>] = group_table_of (Suc gi)" by (simp add: group_table_of_def)
  have sub: "?P \<union> {gi} \<times> {0..<?m} \<subseteq> positions w" unfolding upto by blast
  have "gi < 2 ^ 32" using gi Suc.prems(7) by simp
  then obtain st1 gs1 ss1 where s: "load_services_loop mem uv_mutex_init gi gi (if 0 < ?m then Some (gi, 0) else None) ?st = Some st1"
    "loaded mem w fs ({s. fst s < Suc gi} \<inter> positions w) st1 gs1 ss1" "mon_group_table (mon_ctx st1) = Some (group_table_of (Suc gi))"
    "mon_group_size (mon_ctx st1) = of_nat n"
    using load_services_ok [OF loaded_ctx [OF Suc.prems(1), of "Some (group_table_of (Suc gi))"] Suc.prems(2) sub dis(1) grp refl _ Suc.prems(10) dis(2)] Suc.prems(13)
    unfolding upto tab by auto
  have w: "mon_world st = w" "mon_world st1 = w" using loadedD(2) [OF Suc.prems(1)] loadedD(2) [OF s(2)] by simp_all
  have beg: "eaf_service_begin gi w = (if 0 < ?m then Some (gi, 0) else None)" using grp by (auto simp: eaf_service_begin_def)
  have nxt: "eaf_group_next gi w = Some (if Suc gi < n then Some (Suc gi) else None)"
    using grp Suc.prems(3,4,6) gi by (auto simp: eaf_group_next_def)
  obtain st' gs' ss' where e: "load_groups_loop mem uv_mutex_init group_mutex_init (if Suc gi < n then Some (Suc gi) else None) (Suc gi) st1 = Some st'"
    "loaded mem w fs (positions w) st' gs' ss'" "mon_group_table (mon_ctx st') = Some (group_table_of n)" "mon_group_size (mon_ctx st') = of_nat n"
    using Suc.hyps(1) [OF k s(2) Suc.prems(2-4) _ Suc.prems(6-11) s(3,4)] gi by auto
  have "\<not> group_mutex_init gi < 0" using Suc.prems(11) by (simp add: not_less)
  then have "load_groups_loop mem uv_mutex_init group_mutex_init (if gi < n then Some gi else None) gi st = Some st'"
    using gi Suc.prems(12,13) size s(1) e(1) w beg nxt by (subst load_groups_loop.simps) (simp add: Let_def)
  then show ?case using e by blast
qed

lemma card_positions: "w_ctx w = Some c \<Longrightarrow> finite (positions w)"
proof -
  assume c: "w_ctx w = Some c"
  have "positions w \<subseteq> (\<Union>i < length (c_groups c). {i} \<times> {..<length (g_services (c_groups c ! i))})"
    using c by (auto simp: positions_def srv_def grp_def split: if_splits)
  then show ?thesis by (rule finite_subset) simp
qed

lemma load_ok:
  assumes "mon_tables st [] [] fs" "w_ctx (mon_world st) = Some c" "\<forall>i < length (c_groups c). g_index (c_groups c ! i) = i"
    "length (c_groups c) < 2 ^ 32" "card (positions (mon_world st)) < 2 ^ 64" "apart mem fs (positions (mon_world st))"
    "\<forall>s. 0 \<le> uv_mutex_init s" "\<forall>i. 0 \<le> group_mutex_init i"
  obtains st' gs ss where "monitor_on_load_before True mem uv_mutex_init group_mutex_init st = Some st'"
    "loaded mem (mon_world st) fs (positions (mon_world st)) st' gs ss"
    "mon_group_table (mon_ctx st') = Some (group_table_of (length (c_groups c)))" "mon_group_size (mon_ctx st') = of_nat (length (c_groups c))"
proof -
  let ?n = "length (c_groups c)" and ?w = "mon_world st"
  let ?st = "st\<lparr>mon_ctx := (mon_ctx st)\<lparr>mon_group_size := of_nat ?n, mon_group_table := Some []\<rparr>\<rparr>"
  have "mon_tables ?st [] [] fs" by (rule mon_tablesI) (use mon_tablesD [OF assms(1)] in simp_all)
  then have "loaded mem ?w fs ({s. fst s < 0} \<inter> positions ?w) ?st [] []" by (simp add: loaded_def)
  from load_groups_ok [OF this assms(6,2) refl _ assms(3-5) card_positions [OF assms(2)] assms(7,8)]
  obtain st' gs' ss' where "load_groups_loop mem uv_mutex_init group_mutex_init (if 0 < ?n then Some 0 else None) 0 ?st = Some st'"
    "loaded mem ?w fs (positions ?w) st' gs' ss'" "mon_group_table (mon_ctx st') = Some (group_table_of ?n)" "mon_group_size (mon_ctx st') = of_nat ?n"
    by (auto simp: group_table_of_def)
  moreover have "eaf_group_begin ?w = (if 0 < ?n then Some 0 else None)" "eaf_group_size ?w = Some ?n"
    using assms(2) by (simp_all add: eaf_group_begin_def eaf_group_size_def)
  ultimately show thesis using that [of st' gs' ss'] by (simp add: monitor_on_load_before_def)
qed

lemma loaded_readable:
  assumes "loaded mem w fs (positions w) st gs ss" "w_ctx w = Some c" "length (c_groups c) < 2 ^ 32"
    "mon_group_table (mon_ctx st) = Some (group_table_of (length (c_groups c)))" "mon_group_size (mon_ctx st) = of_nat (length (c_groups c))"
  shows "mon_ok st gs ss fs" "readable st gs"
proof -
  note l = loadedD [OF assms(1)]
  let ?n = "length (c_groups c)"
  have gid: "\<exists>s v. srv w s = Some v \<and> fst s < ?n \<and> mr_data (the (mon_recs st a)) = \<lparr>ms_gid = of_nat (fst s), ms_sid = s_id v, ms_sls = s\<rparr> \<and>
      unat (rec_gid (mon_recs st) a) = fst s"
    if a: "a \<in> set gs" for a
  proof -
    obtain s where s: "s \<in> positions w" "mr_data (the (mon_recs st a)) = \<lparr>ms_gid = of_nat (fst s), ms_sid = sid_at w s, ms_sls = s\<rparr>"
      using l(6) [OF a] by blast
    obtain v where v: "srv w s = Some v" using s(1) by (auto simp: positions_def)
    have n: "fst s < ?n" using v assms(2) by (auto simp: srv_def grp_def split: if_splits)
    then have "unat (of_nat (fst s) :: u32) = fst s" using assms(3) by (simp add: unat_of_nat)
    then show ?thesis using s(2) v n by (intro exI [of _ s] exI [of _ v]) simp
  qed
  have len: "length (group_table_of ?n) = ?n" by (simp add: group_table_of_def)
  have size: "unat (mon_group_size (mon_ctx st)) = ?n" using assms(3,5) by (simp add: unat_of_nat)
  have lt: "unat (rec_gid (mon_recs st) a) < ?n" if "a \<in> set gs" for a using gid [OF that] by auto
  then show "mon_ok st gs ss fs" using l(1) assms(4) len size by (simp add: mon_ok_def)
  have "mon_recs st a \<noteq> None \<and> rec_gid (mon_recs st) a \<noteq> - 1 \<and>
     (case group_at (unat (rec_gid (mon_recs st) a)) st of None \<Rightarrow> False | Some g \<Rightarrow> tid_of st g \<noteq> None) \<and>
     srv (mon_world st) (ms_sls (mr_data (the (mon_recs st a)))) \<noteq> None" if a: "a \<in> set gs" for a
  proof -
    obtain s v where s: "srv w s = Some v" "fst s < ?n" "mr_data (the (mon_recs st a)) = \<lparr>ms_gid = of_nat (fst s), ms_sid = s_id v, ms_sls = s\<rparr>"
      "unat (rec_gid (mon_recs st) a) = fst s" using gid [OF a] by blast
    have "mon_recs st a \<noteq> None" using a mon_tablesD(7) [OF l(1)] by blast
    moreover have "rec_gid (mon_recs st) a \<noteq> - 1"
    proof
      assume "rec_gid (mon_recs st) a = - 1"
      then have "fst s = unat (- 1 :: u32)" using s(4) by simp
      then have "fst s = 2 ^ 32 - 1" by (simp add: unsigned_minus_1_eq_mask mask_eq_exp_minus_1)
      then show False using s(2) assms(3) by simp
    qed
    moreover have "group_at (fst s) st = Some \<lparr>mg_gls = fst s, mg_use_time = 0\<rparr>" using s(2) assms(4) len by (simp add: group_at_def group_table_of_def)
    moreover have "tid_of st \<lparr>mg_gls = fst s, mg_use_time = 0\<rparr> \<noteq> None" using s(2) assms(2) l(2) by (simp add: tid_of_def grp_def)
    ultimately show ?thesis using s l(2) by simp
  qed
  then show "readable st gs" unfolding readable_def by blast
qed

end
