(* ===== verification/MonitorProps.thy ===== *)
theory MonitorProps
  imports MonitorLife ServiceCalls
begin

text \<open>
  The properties of the monitor: what it counts, against the specification of \<open>MonitorSpec\<close>, and the text of its
  reports, against the description of \<open>MonitorReport\<close>.
\<close>

subsection \<open>An example: two services of one group\<close>

definition demo_record :: "u32 \<Rightarrow> monitor_service_record" where
  "demo_record sid = \<lparr>mr_data = \<lparr>ms_gid = 0, ms_sid = sid, ms_sls = (0, unat sid - 1)\<rparr>,
     mr_counter = \<lparr>flush_send = 0, flush_recv = 0, flush_use_time = 0, total_send = 0, total_recv = 0\<rparr>, use_time_start = 0\<rparr>"

definition demo_mon_heap :: rb_heap where
  "demo_mon_heap = (\<lambda>a.
     if a = 100 then \<lparr>rb_parent = None, rb_color = RB_BLACK, rb_right = Some 200, rb_left = None\<rparr>
     else if a = 200 then \<lparr>rb_parent = Some 100, rb_color = RB_RED, rb_right = None, rb_left = None\<rparr>
     else if a = 124 then \<lparr>rb_parent = None, rb_color = RB_BLACK, rb_right = Some 224, rb_left = None\<rparr>
     else \<lparr>rb_parent = Some 124, rb_color = RB_RED, rb_right = None, rb_left = None\<rparr>)"

definition demo_mon :: "world \<Rightarrow> mon_state" where
  "demo_mon w = \<lparr>mon_ctx = g_monitor_ctx\<lparr>record_group := (record_group g_monitor_ctx)\<lparr>map_low := Some 100, map_size := 2\<rparr>,
       record_split := (record_split g_monitor_ctx)\<lparr>map_low := Some 124, map_size := 2\<rparr>, mon_group_size := 1,
       mon_group_table := Some [\<lparr>mg_gls = 0, mg_use_time = 0\<rparr>]\<rparr>,
     mon_heap = demo_mon_heap, mon_recs = [100 \<mapsto> demo_record 1, 200 \<mapsto> demo_record 2], mon_flows = \<lambda>_. None,
     mon_world = w, mon_payload = \<lambda>_. None\<rparr>"

lemma demo_mon_ok: "mon_ok (demo_mon w) [100, 200] [124, 224] []"
proof -
  have "mon_tables (demo_mon w) [100, 200] [124, 224] []"
  proof (rule mon_tablesI)
    show "map_ok (group_key (mon_recs (demo_mon w))) (mon_heap (demo_mon w)) (record_group (mon_ctx (demo_mon w))) [100, 200]"
      by (auto simp: map_ok_def rb_rep_def demo_mon_def demo_mon_heap_def demo_record_def rbt_def
          intro!: exI [of _ "Node Leaf (100, RB_BLACK) (Node Leaf (200, RB_RED) Leaf)"])
    show "map_ok (split_key (mon_recs (demo_mon w))) (mon_heap (demo_mon w)) (record_split (mon_ctx (demo_mon w))) [124, 224]"
      by (auto simp: map_ok_def rb_rep_def demo_mon_def demo_mon_heap_def demo_record_def rbt_def n_split_offset_def
          intro!: exI [of _ "Node Leaf (124, RB_BLACK) (Node Leaf (224, RB_RED) Leaf)"])
    show "map_ok (flow_key (mon_flows (demo_mon w))) (mon_heap (demo_mon w)) (dataflow_record (mon_ctx (demo_mon w))) []"
      by (simp add: demo_mon_def g_monitor_ctx_def init_ok)
    show "dom (mon_recs (demo_mon w)) = set [100, 200]" by (auto simp: demo_mon_def)
  qed (simp_all add: demo_mon_def n_split_offset_def)
  then show ?thesis by (simp add: mon_ok_def demo_mon_def demo_record_def)
qed

definition demo_events :: "mon_event list" where
  "demo_events = [Sent (Some 500) 7 1 2 0, Handle_before 5 7 2, Handle_after 9 7 2, Flush, Sent (Some 600) 7 1 2 0, Sent (Some 600) 7 3 2 (- 1)]"

lemma demo_fresh: "fresh_run demo_events (demo_mon w)"
  by code_simp

subsection \<open>Properties\<close>





text \<open>C24: Loading. When the runtime is loaded and the tables are empty, \<open>_monitor_on_load_before\<close> visits every service
  of every group and returns; afterwards the tables are valid, a service is known under its identifier exactly if the
  runtime has one with that identifier, all its counters are zero, and its record names its group and position,
  also when two services have the same identifier. \<open>malloc\<close> gives each record an address apart from the others.\<close>

theorem monitor_load:
  assumes "mon_tables st [] [] fs" "w_ctx (mon_world st) = Some c" "\<forall>i < length (c_groups c). g_index (c_groups c ! i) = i"
    "length (c_groups c) < 2 ^ 32" "card (positions (mon_world st)) < 2 ^ 64" "apart mem fs (positions (mon_world st))"
    "\<forall>s. 0 \<le> uv_mutex_init s" "\<forall>i. 0 \<le> group_mutex_init i"
  shows "\<exists>st' gs ss. monitor_on_load_before True mem uv_mutex_init group_mutex_init st = Some st' \<and> mon_ok st' gs ss fs \<and> readable st' gs \<and>
    (\<forall>sid. mon_srv st' gs sid = None \<longleftrightarrow> (\<forall>s v. srv (mon_world st) s = Some v \<longrightarrow> s_id v \<noteq> sid)) \<and>
    (\<forall>sid r. mon_srv st' gs sid = Some r \<longrightarrow>
       mr_counter r = \<lparr>flush_send = 0, flush_recv = 0, flush_use_time = 0, total_send = 0, total_recv = 0\<rparr> \<and>
       (\<exists>v. srv (mon_world st) (ms_sls (mr_data r)) = Some v \<and> s_id v = sid \<and> ms_gid (mr_data r) = of_nat (fst (ms_sls (mr_data r)))))"
proof -
  let ?w = "mon_world st"
  obtain st' gs ss where st': "monitor_on_load_before True mem uv_mutex_init group_mutex_init st = Some st'" "loaded mem ?w fs (positions ?w) st' gs ss"
    "mon_group_table (mon_ctx st') = Some (group_table_of (length (c_groups c)))" "mon_group_size (mon_ctx st') = of_nat (length (c_groups c))"
    by (rule load_ok [OF assms])
  note l = loadedD [OF st'(2)]
  have ok: "mon_ok st' gs ss fs" "readable st' gs" using loaded_readable [OF st'(2) assms(2,4) st'(3,4)] by simp_all
  have none: "mon_srv st' gs sid = None \<longleftrightarrow> sid \<notin> rec_sid (mon_recs st') ` set gs" for sid
    by (auto simp: mon_srv_def find_None_iff image_iff)
  have "mon_srv st' gs sid = None \<longleftrightarrow> (\<forall>s v. srv ?w s = Some v \<longrightarrow> s_id v \<noteq> sid)" for sid
  proof -
    have "sid \<in> sid_at ?w ` positions ?w \<longleftrightarrow> (\<exists>s v. srv ?w s = Some v \<and> s_id v = sid)"
      by (rule iffI; elim imageE exE conjE) (force simp: positions_def)+
    then show ?thesis unfolding none l(5) by blast
  qed
  moreover have "mr_counter r = \<lparr>flush_send = 0, flush_recv = 0, flush_use_time = 0, total_send = 0, total_recv = 0\<rparr> \<and>
       (\<exists>v. srv ?w (ms_sls (mr_data r)) = Some v \<and> s_id v = sid \<and> ms_gid (mr_data r) = of_nat (fst (ms_sls (mr_data r))))"
    if r: "mon_srv st' gs sid = Some r" for sid r
  proof -
    obtain a where a: "find (\<lambda>a. rec_sid (mon_recs st') a = sid) gs = Some a" "r = the (mon_recs st' a)" using r by (auto simp: mon_srv_def)
    then have in_gs: "a \<in> set gs" "rec_sid (mon_recs st') a = sid" unfolding find_Some_iff by auto
    obtain s where "s \<in> positions ?w" "mr_data r = \<lparr>ms_gid = of_nat (fst s), ms_sid = sid_at ?w s, ms_sls = s\<rparr>"
      "mr_counter r = \<lparr>flush_send = 0, flush_recv = 0, flush_use_time = 0, total_send = 0, total_recv = 0\<rparr>"
      using l(6) [OF in_gs(1)] a(2) by blast
    then show ?thesis using in_gs(2) a(2) by (auto simp: positions_def)
  qed
  ultimately show ?thesis using st'(1) ok by blast
qed

text \<open>C26: Leaving. \<open>eaf_monitor_exit\<close> returns for every monitor with valid tables, takes every record of a service out of
  both of its maps and every record of a path out of its map, frees each of them once, and leaves all tables empty.\<close>

theorem monitor_exit:
  assumes "mon_tables st gs ss fs"
  shows "\<exists>st'. eaf_monitor_exit st = Some st' \<and> mon_tables st' [] [] [] \<and> (\<forall>a. mon_recs st' a = None \<and> mon_flows st' a = None) \<and>
    eaf_map_size (record_group (mon_ctx st')) = 0 \<and> eaf_map_size (record_split (mon_ctx st')) = 0 \<and>
    eaf_map_size (dataflow_record (mon_ctx st')) = 0 \<and> mon_group_table (mon_ctx st') = None"
proof -
  obtain s1 where s1: "exit_services_loop (hd_opt ss) st = Some s1" "mon_tables s1 [] [] fs" using exit_services_ok [OF assms] by blast
  obtain s2 where s2: "exit_flows_loop (hd_opt fs) s1 = Some s2" "mon_tables s2 [] [] []" using exit_flows_ok [OF s1(2)] by blast
  let ?st = "s2\<lparr>mon_ctx := (mon_ctx s2)\<lparr>mon_group_table := None\<rparr>\<rparr>"
  have run: "eaf_monitor_exit st = Some ?st"
    using s1(1) s2(1) iteration_spec(1) [OF mon_tablesD(2) [OF assms]] iteration_spec(1) [OF mon_tablesD(3) [OF s1(2)]]
    by (simp add: eaf_monitor_exit_def)
  note t = mon_tablesD [OF s2(2)]
  have "unat (eaf_map_size (record_group (mon_ctx ?st))) = 0" "unat (eaf_map_size (record_split (mon_ctx ?st))) = 0"
    "unat (eaf_map_size (dataflow_record (mon_ctx ?st))) = 0"
    using size_spec [OF t(1)] size_spec [OF t(2)] size_spec [OF t(3)] by simp_all
  then show ?thesis using run s2(2) t(7,8) mon_tables_group_table [of None s2] by (intro exI [of _ ?st]) (simp add: unat_eq_0)
qed

theorem monitor_exit_witness:
  "\<exists>st'. eaf_monitor_exit (demo_mon sys_demo_start) = Some st' \<and> mon_recs st' 100 = None \<and> eaf_map_size (record_group (mon_ctx st')) = 0"
  using monitor_exit [OF mon_okD [OF demo_mon_ok]] by blast

text \<open>The addresses of the records of the example.\<close>

definition demo_mem :: "nat \<times> nat \<Rightarrow> (addr \<times> u64) option" where
  "demo_mem s = Some (100 + 100 * (64 * fst s + snd s), 0)"

definition demo_mon_start :: mon_state where
  "demo_mon_start = \<lparr>mon_ctx = g_monitor_ctx, mon_heap = demo_mon_heap, mon_recs = (\<lambda>_. None), mon_flows = (\<lambda>_. None),
     mon_world = demo_init_world sys_demo_info, mon_payload = (\<lambda>_. None)\<rparr>"

lemma demo_mon_start_ok: "mon_tables demo_mon_start [] [] []"
  by (rule mon_tablesI) (simp_all add: demo_mon_start_def g_monitor_ctx_def init_ok)

theorem monitor_load_witness:
  "\<exists>st' gs ss. monitor_on_load_before True demo_mem (\<lambda>_. 0) (\<lambda>_. 0) demo_mon_start = Some st' \<and> mon_ok st' gs ss [] \<and>
     mon_srv st' gs 3 = None \<and> mon_srv st' gs 2 \<noteq> None"
proof -
  let ?w = "demo_init_world sys_demo_info"
  have w: "mon_world demo_mon_start = ?w" by (simp add: demo_mon_start_def)
  have c: "map_option (\<lambda>c. map (\<lambda>g. (g_index g, map s_id (g_services g))) (c_groups c)) (w_ctx ?w) = Some [(0, [1, 2])]" by code_simp
  then obtain c where c: "w_ctx ?w = Some c" "map (\<lambda>g. (g_index g, map s_id (g_services g))) (c_groups c) = [(0, [1, 2])]" by auto
  then obtain g where g: "c_groups c = [g]" "g_index g = 0" "map s_id (g_services g) = [1, 2]" by auto
  then obtain u v where uv: "g_services g = [u, v]" "s_id u = 1" "s_id v = 2" by auto
  have srv: "srv ?w s = (if s = (0, 0) then Some u else if s = (0, 1) then Some v else None)" for s
    using c(1) g(1) uv(1) by (cases s) (auto simp: srv_def grp_def less_Suc_eq)
  have pos: "positions ?w = {(0, 0), (0, 1)}" unfolding positions_def srv by auto
  have fin: "card (positions (mon_world demo_mon_start)) < 2 ^ 64" unfolding w pos by simp
  have apart: "apart demo_mem [] (positions (mon_world demo_mon_start))" unfolding w pos by (simp add: apart_def demo_mem_def n_split_offset_def)
  have len: "length (c_groups c) < 2 ^ 32" "\<forall>i < length (c_groups c). g_index (c_groups c ! i) = i" using g(1,2) by simp_all
  obtain st' gs ss where st': "monitor_on_load_before True demo_mem (\<lambda>_. 0) (\<lambda>_. 0) demo_mon_start = Some st'" "mon_ok st' gs ss []"
    "\<forall>sid. mon_srv st' gs sid = None \<longleftrightarrow> (\<forall>s v. srv ?w s = Some v \<longrightarrow> s_id v \<noteq> sid)"
    using monitor_load [OF demo_mon_start_ok c(1) [folded w] len(2,1) fin apart, of "\<lambda>_. 0" "\<lambda>_. 0"] unfolding w by auto
  have "mon_srv st' gs 3 = None" "mon_srv st' gs 2 \<noteq> None" unfolding st'(3) [THEN spec] srv using uv by auto
  then show ?thesis using st' by blast
qed

subsection \<open>Reports\<close>

lemma fill_holds:
  assumes "0 < sz" "unat sz \<le> length buffer" "\<forall>p \<in> set ps. length p < 2 ^ 31" "concat ps \<noteq> []"
  shows "\<exists>buffer'. map_option (\<lambda>(n, t, b). (n, b)) (apply_all sz ps (0, 0, buffer)) = Some (of_nat (length (concat ps)), buffer') \<and>
    (let k = min (length (concat ps)) (unat sz - 1) in take k buffer' = take k (concat ps) \<and> buffer' ! k = CHR 0x00)"
proof -
  obtain t b where r: "apply_all sz ps (0, 0, buffer) = Some (of_nat (length (concat ps)), t, b)" "holds b sz t (concat ps)"
    using apply_all_holds [OF holds_start [OF assms(1,2)] assms(3), of 0] by auto
  then have "map_option (\<lambda>(n, t, b). (n, b)) (apply_all sz ps (0, 0, buffer)) = Some (of_nat (length (concat ps)), b)" by simp
  moreover have "let k = min (length (concat ps)) (unat sz - 1) in take k b = take k (concat ps) \<and> b ! k = CHR 0x00"
    using r(2) assms(4) by (simp add: holds_def)
  ultimately show ?thesis by blast
qed

text \<open>C25: The JSON report. For a monitor with at least one service, \<open>_monitor_stringify_json_fill_nolock\<close> writes
  exactly the document that lists the groups, and in each the services, in the order of the map, separated by
  commas; the size the caller reserves, \<open>12 + 59 * G + 120 * S + 1\<close>, is always enough for it and the null byte behind it. The
  text of \<open>%.1f\<close> of a value from 0 to 100 has at most five characters.\<close>

theorem monitor_json_report:
  assumes "mon_ok st gs ss fs" "readable st gs" "gs \<noteq> []" "\<forall>u t. length (cpu_text u t) \<le> 5"
    "unat (mon_group_size (mon_ctx st)) < 2 ^ 32" "length gs < 2 ^ 32" "length buffer = unat (json_string_size st)"
  shows "\<exists>buffer'. monitor_stringify_json_fill_nolock cpu_text buffer (json_string_size st) st =
      Some (of_nat (length (json_text cpu_text st gs)), buffer') \<and>
    length (json_text cpu_text st gs) < length buffer \<and>
    take (length (json_text cpu_text st gs)) buffer' = json_text cpu_text st gs \<and> buffer' ! length (json_text cpu_text st gs) = CHR 0x00"
proof -
  note t = mon_tablesD [OF mon_okD [OF assms(1)]]
  have cpu: "length (cpu_text u t) \<le> 5" for u t using assms(4) by blast
  note sz = string_sizes(1) [OF mon_okD [OF assms(1)] assms(5,6)]
  obtain ps where ps: "monitor_stringify_json_fill_nolock cpu_text buffer (json_string_size st) st =
      map_option (\<lambda>(n, t, b). (n, b)) (apply_all (json_string_size st) ps (0, 0, buffer))" "concat ps = json_text cpu_text st gs"
    "set ps \<subseteq> {''{\"group\":['', '']},'', '','', '']}]}''} \<union> range (head_of json_group st) \<union> line_of cpu_text json_service st ` set gs"
    by (rule json_fill [OF t(1) assms(2,3)])
  have len: "length (json_text cpu_text st gs) < unat (json_string_size st)"
    using length_json_text [OF assms(2,4)] runs_of_groups [OF assms(1)] unfolding sz by linarith
  have line: "length (line_of cpu_text json_service st n) < 2 ^ 31" if n: "n \<in> set gs" for n
  proof -
    obtain r and g :: monitor_group_record and v where "mon_recs st n = Some r" "srv (mon_world st) (ms_sls (mr_data r)) = Some v"
      "\<forall>c l. line_of c l st n = l (c (flush_use_time (mr_counter r)) (mg_use_time g)) (s_state v) (of_nat (length (s_queue v))) r"
      by (rule line_of_ex [OF assms(2) n])
    then have "length (line_of cpu_text json_service st n) \<le> 117" using length_json_service [OF cpu] by simp
    then show ?thesis by simp
  qed
  have head: "length (head_of json_group st g) < 2 ^ 31" for g
    using length_json_group [of g "the (tid_of st (the (group_at (unat g) st)))"] by (simp add: head_of_def)
  have "\<forall>p \<in> set ps. length p < 2 ^ 31" using ps(3) line head by auto
  moreover have "0 < json_string_size st" using sz by (simp add: word_less_nat_alt)
  moreover have "concat ps \<noteq> []" unfolding ps(2) by (simp add: json_text_def)
  ultimately obtain b where b: "monitor_stringify_json_fill_nolock cpu_text buffer (json_string_size st) st = Some (of_nat (length (concat ps)), b)"
    "let k = min (length (concat ps)) (unat (json_string_size st) - 1) in take k b = take k (concat ps) \<and> b ! k = CHR 0x00"
    using fill_holds [of "json_string_size st" buffer ps] assms(7) ps(1) by auto
  have "min (length (concat ps)) (unat (json_string_size st) - 1) = length (concat ps)" using len ps(2) by simp
  then show ?thesis using b len assms(7) unfolding ps(2) by (auto simp: Let_def)
qed

text \<open>The report for reading. \<open>_monitor_stringify_normal_fill_nolock\<close> puts the described text into the
  buffer, as much of it as fits before the null byte, and returns the length of the whole text. The size the caller
  reserves, \<open>60 + 32 * G + 60 * S + 1\<close>, is enough as long as the counters fit into their columns: at most eight
  digits for messages, six for the queue and for the time; beyond that the size in the answer can exceed the text
  that was written.\<close>

theorem monitor_normal_report:
  assumes "mon_ok st gs ss fs" "readable st gs" "\<forall>u t. length (cpu_text u t) \<le> 5"
    "unat (mon_group_size (mon_ctx st)) < 2 ^ 32" "length gs < 2 ^ 32" "length buffer = unat (normal_string_size st)"
  shows "\<exists>buffer'. monitor_stringify_normal_fill_nolock cpu_text buffer (normal_string_size st) st =
      Some (of_nat (length (normal_text cpu_text st gs)), buffer') \<and>
    (let k = min (length (normal_text cpu_text st gs)) (length buffer - 1) in
       take k buffer' = take k (normal_text cpu_text st gs) \<and> buffer' ! k = CHR 0x00) \<and>
    ((\<forall>n \<in> set gs. small st n) \<longrightarrow> length (normal_text cpu_text st gs) < length buffer)"
proof -
  note t = mon_tablesD [OF mon_okD [OF assms(1)]]
  note sz = string_sizes(2) [OF mon_okD [OF assms(1)] assms(4,5)]
  obtain ps where ps: "monitor_stringify_normal_fill_nolock cpu_text buffer (normal_string_size st) st =
      map_option (\<lambda>(n, t, b). (n, b)) (apply_all (normal_string_size st) ps (0, 0, buffer))" "concat ps = normal_text cpu_text st gs"
    "set ps \<subseteq> {normal_head} \<union> range (head_of normal_group st) \<union> line_of cpu_text normal_service st ` set gs"
    by (rule normal_fill [OF t(1) assms(2)])
  have len: "length (normal_text cpu_text st gs) < length buffer" if "\<forall>n \<in> set gs. small st n"
    using length_normal_text [OF assms(2,3) that] runs_of_groups [OF assms(1)] unfolding assms(6) sz by linarith
  have line: "length (line_of cpu_text normal_service st n) < 2 ^ 31" if n: "n \<in> set gs" for n
  proof -
    obtain r and g :: monitor_group_record and v where "mon_recs st n = Some r" "srv (mon_world st) (ms_sls (mr_data r)) = Some v"
      "\<forall>c l. line_of c l st n = l (c (flush_use_time (mr_counter r)) (mg_use_time g)) (s_state v) (of_nat (length (s_queue v))) r"
      by (rule line_of_ex [OF assms(2) n])
    then have "length (line_of cpu_text normal_service st n) \<le> 72" using length_normal_service assms(3) by simp
    then show ?thesis by simp
  qed
  have head: "length (head_of normal_group st g) < 2 ^ 31" for g
    using length_normal_group [of g "the (tid_of st (the (group_at (unat g) st)))"] by (simp add: head_of_def)
  have "\<forall>p \<in> set ps. length p < 2 ^ 31" using ps(3) line head length_normal_head by auto
  moreover have "0 < normal_string_size st" using sz by (simp add: word_less_nat_alt)
  moreover have "concat ps \<noteq> []" unfolding ps(2) by (simp add: normal_text_def normal_head_def)
  ultimately obtain b where b: "monitor_stringify_normal_fill_nolock cpu_text buffer (normal_string_size st) st = Some (of_nat (length (concat ps)), b)"
    "let k = min (length (concat ps)) (unat (normal_string_size st) - 1) in take k b = take k (concat ps) \<and> b ! k = CHR 0x00"
    using fill_holds [of "normal_string_size st" buffer ps] assms(6) ps(1) by auto
  show ?thesis using b len unfolding ps(2) assms(6) [symmetric] by blast
qed

theorem monitor_normal_report_witness:
  "\<exists>buffer'. monitor_stringify_normal_fill_nolock (\<lambda>_ _. ''0.0'') (replicate 213 CHR ''x'') 213 (demo_mon (demo_init_world sys_demo_info)) =
     Some (184, buffer') \<and> take 9 buffer' = ''[SERVICE]'' \<and> buffer' ! 184 = CHR 0x00"
proof -
  let ?st = "demo_mon (demo_init_world sys_demo_info)" and ?gs = "[100, 200] :: addr list" and ?c = "\<lambda>_ _. ''0.0''"
  have r: "readable ?st ?gs" by code_simp
  have sz: "normal_string_size ?st = 213" by code_simp
  have t: "take 9 (normal_text ?c ?st ?gs) = ''[SERVICE]''" by code_simp
  have n: "length (normal_text ?c ?st ?gs) = 184" by code_simp
  have "unat (mon_group_size (mon_ctx ?st)) < 2 ^ 32" by (simp add: demo_mon_def)
  from monitor_normal_report [OF demo_mon_ok r _ this, where cpu_text = ?c and buffer = "replicate 213 CHR ''x''", unfolded n sz]
  obtain b where b: "monitor_stringify_normal_fill_nolock ?c (replicate 213 CHR ''x'') 213 ?st = Some (184, b)"
    "take 184 b = normal_text ?c ?st ?gs" "b ! 184 = CHR 0x00" using n by (auto simp: Let_def)
  have "take 9 b = take 9 (take 184 b)" by simp
  then show ?thesis using b t by auto
qed

text \<open>With no service the text is not JSON: the group that was not opened is closed.\<close>

definition demo_mon_empty :: mon_state where
  "demo_mon_empty = \<lparr>mon_ctx = g_monitor_ctx\<lparr>mon_group_size := 1, mon_group_table := Some [\<lparr>mg_gls = 0, mg_use_time = 0\<rparr>]\<rparr>,
     mon_heap = demo_mon_heap, mon_recs = (\<lambda>_. None), mon_flows = (\<lambda>_. None), mon_world = sys_demo_start, mon_payload = (\<lambda>_. None)\<rparr>"

theorem monitor_json_empty:
  "\<exists>buffer'. monitor_stringify_json_fill_nolock (\<lambda>_ _. ''0.0'') (replicate 72 CHR ''x'') (json_string_size demo_mon_empty) demo_mon_empty =
     Some (14, buffer') \<and> take 14 buffer' = ''{\"group\":[]}]}''"
proof -
  have sz: "json_string_size demo_mon_empty = 72" by code_simp
  have "map_ok (\<lambda>a. a) (mon_heap demo_mon_empty) (record_group (mon_ctx demo_mon_empty)) []"
    by (simp add: demo_mon_empty_def g_monitor_ctx_def init_ok)
  from iteration_spec(1) [OF this]
  have fill: "monitor_stringify_json_fill_nolock cpu b sz demo_mon_empty =
      map_option (\<lambda>(n, t, b). (n, b)) (apply_all sz [''{\"group\":['', '']}]}''] (0, 0, b))" for cpu b sz
    by (simp add: monitor_stringify_json_fill_nolock_def apply_Cons json_fill_loop.simps map_option_case case_prod_beta split: bind_split option.split)
  let ?ps = "[''{\"group\":['', '']}]}'']"
  have k: "min (length (concat ?ps)) (unat (72 :: size_t) - 1) = 14" "length (concat ?ps) = 14" "take 14 (concat ?ps) = ''{\"group\":[]}]}''" by simp_all
  show ?thesis using fill_holds [of 72 "replicate 72 CHR ''x''" ?ps, unfolded Let_def k] unfolding fill sz by (auto simp del: apply_all.simps)
qed


theorem monitor_json_report_witness:
  "\<exists>buffer'. monitor_stringify_json_fill_nolock (\<lambda>_ _. ''0.0'') (replicate 312 CHR ''x'') 312 (demo_mon (demo_init_world sys_demo_info)) =
     Some (183, buffer') \<and> take 21 buffer' = ''{\"group\":[{\"gid\":0,\"t'' \<and> buffer' ! 183 = CHR 0x00"
proof -
  let ?st = "demo_mon (demo_init_world sys_demo_info)" and ?gs = "[100, 200] :: addr list" and ?c = "\<lambda>_ _. ''0.0''"
  have r: "readable ?st ?gs" by code_simp
  have sz: "json_string_size ?st = 312" by code_simp
  have t: "take 21 (json_text ?c ?st ?gs) = ''{\"group\":[{\"gid\":0,\"t''" by code_simp
  have n: "length (json_text ?c ?st ?gs) = 183" by code_simp
  have "unat (mon_group_size (mon_ctx ?st)) < 2 ^ 32" by (simp add: demo_mon_def)
  from monitor_json_report [OF demo_mon_ok r _ _ this, where cpu_text = ?c and buffer = "replicate 312 CHR ''x''", unfolded n sz]
  obtain b where b: "monitor_stringify_json_fill_nolock ?c (replicate 312 CHR ''x'') 312 ?st = Some (183, b)"
    "take 183 b = json_text ?c ?st ?gs" "b ! 183 = CHR 0x00" by auto
  have "take 21 b = take 21 (take 183 b)" by simp
  then show ?thesis using b t by auto
qed

end
