(* ===== verification/RandomBytes.thy ===== *)
theory RandomBytes
  imports Errno
begin

text \<open>
  Random bytes, \<open>powerpack/random.c\<close> (the branch for POSIX): bytes of the random device, and behind them numbers
  of a linear congruence generator. Memory maps addresses to bytes; a number is stored with its low byte first. What
  \<open>open\<close> and \<open>read\<close> return is a parameter. \<open>None\<close> is a failed assertion.
\<close>

subsection \<open>The code\<close>

record random_ctx =
  seed :: u64
  random_fd :: int

definition g_random_ctx :: random_ctx where "g_random_ctx = \<lparr>seed = - 1, random_fd = - 1\<rparr>"

definition random_non_failure :: "random_ctx \<Rightarrow> u32 \<times> random_ctx" where
  "random_non_failure c = (let s = 6364136223846793005 * seed c + 1 in (ucast (drop_bit 33 s), c\<lparr>seed := s\<rparr>))"

definition eaf_random_init :: "int \<Rightarrow> u32 \<Rightarrow> random_ctx \<Rightarrow> int \<times> random_ctx" where
  "eaf_random_init fd s c =
     (let c = c\<lparr>seed := ucast (s - 1)\<rparr> in
      if 0 \<le> random_fd c then (eaf_errno_duplicate, c)
      else let c = c\<lparr>random_fd := fd\<rparr> in
        if random_fd c < 0 then (eaf_errno_unknown, c) else (eaf_errno_success, c))"

definition eaf_random_exit :: "random_ctx \<Rightarrow> random_ctx" where
  "eaf_random_exit c = (if random_fd c < 0 then c else c\<lparr>random_fd := - 1, seed := - 1\<rparr>)"

type_synonym bytes = "u64 \<Rightarrow> u8"

definition put_bytes :: "bytes \<Rightarrow> u64 \<Rightarrow> u8 list \<Rightarrow> bytes" where
  "put_bytes mem a bs = (\<lambda>x. if unat (x - a) < length bs then bs ! unat (x - a) else mem x)"

definition bytes_of :: "u32 \<Rightarrow> u8 list" where
  "bytes_of w = [ucast w, ucast (drop_bit 8 w), ucast (drop_bit 16 w), ucast (drop_bit 24 w)]"

partial_function (option) random_fill_loop :: "u64 \<Rightarrow> u64 \<Rightarrow> u64 \<Rightarrow> random_ctx \<Rightarrow> bytes \<Rightarrow> (u64 \<times> random_ctx \<times> bytes) option" where
  "random_fill_loop buffer sz start_pos c mem =
     (if start_pos \<le> buffer + sz - 4 then
        let (pad, c) = random_non_failure c in
        random_fill_loop buffer sz (start_pos + 4) c (put_bytes mem start_pos (bytes_of pad))
      else Some (start_pos, c, mem))"

declare random_fill_loop.simps [code]

definition eaf_random :: "(int \<Rightarrow> int \<times> u8 list) \<Rightarrow> u64 \<Rightarrow> u64 \<Rightarrow> random_ctx \<Rightarrow> bytes \<Rightarrow> (random_ctx \<times> bytes) option" where
  "eaf_random read buffer sz c mem =
     (let (read_size, data) = read (random_fd c);
          mem = put_bytes mem buffer data in
      if sint sz \<le> read_size then Some (c, mem)
      else do {
        (start_pos, c, mem) \<leftarrow> random_fill_loop buffer sz (buffer + (if 0 \<le> read_size then word_of_int read_size else 0)) c mem;
        if buffer + sz \<le> start_pos then Some (c, mem)
        else let diff_size = buffer + sz - start_pos in
          if \<not> diff_size < 4 then None
          else let (pad, c) = random_non_failure c in
            Some (c, put_bytes mem start_pos (take (unat diff_size) (bytes_of pad))) })"

definition eaf_random32 :: "(int \<Rightarrow> int \<times> u8 list) \<Rightarrow> u64 \<Rightarrow> random_ctx \<Rightarrow> bytes \<Rightarrow> (u32 \<times> random_ctx \<times> bytes) option" where
  "eaf_random32 read pad c mem = do {
     (c, mem) \<leftarrow> eaf_random read pad 4 c mem;
     Some (\<Sum>i \<leftarrow> [0..<4]. push_bit (8 * i) (ucast (mem (pad + of_nat i))), c, mem) }"

definition eaf_random64 :: "(int \<Rightarrow> int \<times> u8 list) \<Rightarrow> u64 \<Rightarrow> random_ctx \<Rightarrow> bytes \<Rightarrow> (u64 \<times> random_ctx \<times> bytes) option" where
  "eaf_random64 read pad c mem = do {
     (c, mem) \<leftarrow> eaf_random read pad 8 c mem;
     Some (\<Sum>i \<leftarrow> [0..<8]. push_bit (8 * i) (ucast (mem (pad + of_nat i))), c, mem) }"

subsection \<open>Writing bytes\<close>

lemma put_nothing [simp]: "put_bytes mem a [] = mem"
  by (simp add: put_bytes_def)

lemma unat_sub_wrap: "y < z \<Longrightarrow> unat (y - z) = 2 ^ 64 + unat y - unat (z :: u64)"
  by (simp add: unat_sub_if' word_less_nat_alt)

lemma put_put:
  assumes "length xs + length ys \<le> 2 ^ 64"
  shows "put_bytes (put_bytes mem a xs) (a + of_nat (length xs)) ys = put_bytes mem a (xs @ ys)"
proof
  fix x
  let ?d = "unat (x - a)" and ?l = "length xs"
  have d: "?d < 2 ^ 64" using unsigned_less [of "x - a", where 'a = nat] by simp
  show "put_bytes (put_bytes mem a xs) (a + of_nat ?l) ys x = put_bytes mem a (xs @ ys) x"
  proof (cases "ys = []")
    case True
    then show ?thesis by simp
  next
    case False
    then have l: "?l < 2 ^ 64" using assms by (cases ys) auto
    then have ul: "unat (of_nat ?l :: u64) = ?l" by (simp add: unat_of_nat)
    have e: "x - (a + of_nat ?l) = (x - a) - of_nat ?l" by simp
    show ?thesis
    proof (cases "?l \<le> ?d")
      case True
      then have "unat (x - (a + of_nat ?l)) = ?d - ?l" unfolding e using ul by (simp add: unat_sub word_le_nat_alt)
      then show ?thesis using True by (auto simp: put_bytes_def nth_append)
    next
      case False
      then have "x - a < of_nat ?l" using ul by (simp add: word_less_nat_alt)
      then have "unat (x - (a + of_nat ?l)) = 2 ^ 64 + ?d - ?l" unfolding e using unat_sub_wrap ul by simp
      then have "\<not> unat (x - (a + of_nat ?l)) < length ys" using assms False by simp
      then show ?thesis using False by (simp add: put_bytes_def nth_append)
    qed
  qed
qed

subsection \<open>The generator\<close>

fun draws :: "nat \<Rightarrow> random_ctx \<Rightarrow> u32 list" where
  "draws 0 c = []"
| "draws (Suc n) c = (let (w, c') = random_non_failure c in w # draws n c')"

fun after_draws :: "nat \<Rightarrow> random_ctx \<Rightarrow> random_ctx" where
  "after_draws 0 c = c"
| "after_draws (Suc n) c = after_draws n (snd (random_non_failure c))"

definition random_bytes :: "nat \<Rightarrow> random_ctx \<Rightarrow> u8 list" where
  "random_bytes n c = concat (map bytes_of (draws n c))"

lemma length_random_bytes: "length (random_bytes n c) = 4 * n"
  by (induction n arbitrary: c) (simp_all add: random_bytes_def bytes_of_def case_prod_beta Let_def)

lemma random_bytes_Suc: "random_bytes (Suc n) c = bytes_of (fst (random_non_failure c)) @ random_bytes n (snd (random_non_failure c))"
  by (simp add: random_bytes_def case_prod_beta Let_def)

lemma draws_snoc: "draws (Suc n) c = draws n c @ [fst (random_non_failure (after_draws n c))]"
  by (induction n arbitrary: c) (simp_all add: case_prod_beta Let_def)

lemma after_draws_snoc: "after_draws (Suc n) c = snd (random_non_failure (after_draws n c))"
  by (induction n arbitrary: c) simp_all

lemma random_bytes_snoc: "random_bytes (Suc n) c = random_bytes n c @ bytes_of (fst (random_non_failure (after_draws n c)))"
  unfolding random_bytes_def draws_snoc by simp

lemma fill_loop_ok:
  assumes "unat (buffer + sz) = unat start_pos + left" "4 \<le> unat (buffer + sz)"
  shows "random_fill_loop buffer sz start_pos c mem =
    Some (start_pos + 4 * of_nat (left div 4), after_draws (left div 4) c, put_bytes mem start_pos (random_bytes (left div 4) c))"
  using assms
proof (induction left arbitrary: start_pos c mem rule: less_induct)
  case (less left)
  let ?e = "buffer + sz"
  have e: "unat ?e < 2 ^ 64" using unsigned_less [of ?e, where 'a = nat] by simp
  have e4: "unat (?e - 4) = unat ?e - 4" using less.prems(2) by (simp add: unat_sub word_le_nat_alt)
  have cond: "start_pos \<le> ?e - 4 \<longleftrightarrow> 4 \<le> left" unfolding word_le_nat_alt e4 using less.prems by linarith
  show ?case
  proof (cases "4 \<le> left")
    case False
    then show ?thesis using cond by (subst random_fill_loop.simps) (simp add: random_bytes_def)
  next
    case True
    let ?w = "fst (random_non_failure c)" and ?c = "snd (random_non_failure c)"
    have up: "unat (start_pos + 4) = unat start_pos + 4" using less.prems(1) True e by (subst unat_add_lem [THEN iffD1]) simp_all
    have k: "left div 4 = Suc ((left - 4) div 4)" using True by (simp add: le_div_geq)
    have "random_fill_loop buffer sz (start_pos + 4) ?c (put_bytes mem start_pos (bytes_of ?w)) =
        Some (start_pos + 4 + 4 * of_nat ((left - 4) div 4), after_draws ((left - 4) div 4) ?c,
          put_bytes (put_bytes mem start_pos (bytes_of ?w)) (start_pos + 4) (random_bytes ((left - 4) div 4) ?c))"
      by (rule less.IH) (use less.prems True up in simp_all)
    moreover have "put_bytes (put_bytes mem start_pos (bytes_of ?w)) (start_pos + 4) (random_bytes ((left - 4) div 4) ?c) =
        put_bytes mem start_pos (random_bytes (left div 4) c)"
    proof -
      have "length (bytes_of ?w) = 4" by (simp add: bytes_of_def)
      moreover have "4 + 4 * ((left - 4) div 4) \<le> 2 ^ 64" using less.prems(1) e True by linarith
      ultimately show ?thesis using put_put [of "bytes_of ?w" "random_bytes ((left - 4) div 4) ?c" mem start_pos] unfolding k random_bytes_Suc
        by (simp add: length_random_bytes)
    qed
    ultimately show ?thesis using True cond unfolding k
      by (subst random_fill_loop.simps) (simp add: case_prod_beta Let_def algebra_simps)
  qed
qed

subsection \<open>Filling a buffer\<close>

text \<open>C28: Random bytes. Whatever part of the buffer the random device has filled, all of it, some or none when
  \<open>read\<close> fails, \<open>eaf_random\<close> returns, keeps the bytes of the device, fills exactly the rest of the buffer with
  the numbers of the generator, one draw for each four bytes begun, and writes no other byte.\<close>

theorem random_fills:
  assumes "unat buffer + unat sz < 2 ^ 64" "4 \<le> unat buffer" "unat sz < 2 ^ 63" "read (random_fd c) = (r, data)"
    "length data = nat r" "nat r \<le> unat sz"
  shows "\<exists>n. n = (unat sz - length data + 3) div 4 \<and>
    eaf_random read buffer sz c mem = Some (after_draws n c, put_bytes mem buffer (take (unat sz) (data @ random_bytes n c))) \<and>
    length (take (unat sz) (data @ random_bytes n c)) = unat sz"
proof -
  define left where "left = unat sz - length data"
  define n where "n = (left + 3) div 4"
  let ?e = "buffer + sz" and ?start = "buffer + of_nat (length data)"
  let ?rest = "left mod 4" and ?k = "left div 4"
  have ue: "unat ?e = unat buffer + unat sz" using assms(1) by (subst unat_add_lem [THEN iffD1]) simp_all
  have ssz: "sint sz = int (unat sz)" 
  proof -
    have "sint (word_of_int (int k) :: u64) = int k" if "k < 2 ^ 63" for k unfolding int_word_sint using that by simp
    from this [OF assms(3)] show ?thesis by simp
  qed
  have dl: "unat (of_nat (length data) :: u64) = length data" using assms(3,5,6) by (simp add: unat_of_nat)
  have us: "unat ?start = unat buffer + length data" using assms(1,5,6) dl by (subst unat_add_lem [THEN iffD1]) simp_all
  have fits: "length data + left = unat sz" using assms(5,6) by (simp add: left_def)
  have len: "length (take (unat sz) (data @ random_bytes n c)) = unat sz" using fits by (simp add: length_random_bytes n_def)
  have start: "buffer + (if 0 \<le> r then word_of_int r else 0) = ?start"
    using assms(5) by (cases "0 \<le> r") (simp_all add: of_nat_nat)
  have "eaf_random read buffer sz c mem = Some (after_draws n c, put_bytes mem buffer (take (unat sz) (data @ random_bytes n c)))"
  proof (cases "sint sz \<le> r")
    case True
    then have "left = 0" using assms(5,6) fits unfolding ssz by linarith
    then have "n = 0" "length data = unat sz" using fits by (simp_all add: n_def)
    then show ?thesis using True assms(4) by (simp add: eaf_random_def random_bytes_def)
  next
    case False
    note nr = this
    let ?s = "?start + 4 * of_nat ?k"
    let ?m = "put_bytes (put_bytes mem buffer data) ?start (random_bytes ?k c)"
    have loop: "random_fill_loop buffer sz ?start c (put_bytes mem buffer data) = Some (?s, after_draws ?k c, ?m)"
      by (rule fill_loop_ok) (use ue us fits assms(2) in simp_all)
    have run: "eaf_random read buffer sz c mem =
        (if ?e \<le> ?s then Some (after_draws ?k c, ?m)
         else if \<not> ?e - ?s < 4 then None
         else Some (snd (random_non_failure (after_draws ?k c)), put_bytes ?m ?s (take (unat (?e - ?s)) (bytes_of (fst (random_non_failure (after_draws ?k c)))))))"
      unfolding eaf_random_def assms(4) Let_def prod.case start loop if_not_P [OF nr] Option.bind.simps case_prod_beta fst_conv snd_conv by (rule refl)
    have m: "?m = put_bytes mem buffer (data @ random_bytes ?k c)"
      by (rule put_put) (use fits assms(1) in \<open>simp add: length_random_bytes\<close>)
    have k4: "unat (4 * of_nat ?k :: u64) = 4 * ?k"
    proof -
      have "(4 * of_nat ?k :: u64) = of_nat (4 * ?k)" by simp
      then show ?thesis using fits assms(3) by (simp only: unat_of_nat) simp
    qed
    have uss: "unat ?s = unat buffer + length data + 4 * ?k"
      using us k4 fits assms(1) by (subst unat_add_lem [THEN iffD1]) simp_all
    have fin: "?e \<le> ?s \<longleftrightarrow> ?rest = 0" unfolding word_le_nat_alt uss ue fits [symmetric] by presburger
    show ?thesis
    proof (cases "?rest = 0")
      case True
      then have n: "n = ?k" by (simp add: n_def) presburger
      have "take (unat sz) (data @ random_bytes ?k c) = data @ random_bytes ?k c" using fits True by (simp add: length_random_bytes)
      then show ?thesis using fin True m unfolding n run by simp
    next
      case False
      then have n: "n = Suc ?k" by (simp add: n_def) presburger
      have diff: "unat (?e - ?s) = ?rest"
      proof -
        have "?s \<le> ?e" unfolding word_le_nat_alt uss ue fits [symmetric] by presburger
        then have "unat (?e - ?s) = unat ?e - unat ?s" by (rule unat_sub)
        also have "\<dots> = ?rest" unfolding uss ue fits [symmetric] by presburger
        finally show ?thesis .
      qed
      then have small: "?e - ?s < 4" by (simp add: word_less_nat_alt)
      let ?w = "fst (random_non_failure (after_draws ?k c))"
      have "put_bytes ?m ?s (take ?rest (bytes_of ?w)) = put_bytes mem buffer ((data @ random_bytes ?k c) @ take ?rest (bytes_of ?w))"
      proof -
        have "?s = buffer + of_nat (length (data @ random_bytes ?k c))" by (simp add: length_random_bytes)
        moreover have "length (data @ random_bytes ?k c) + length (take ?rest (bytes_of ?w)) \<le> 2 ^ 64"
          using fits assms(1) by (simp add: length_random_bytes bytes_of_def)
        ultimately show ?thesis unfolding m using put_put by metis
      qed
      moreover have "take (unat sz) (data @ random_bytes (Suc ?k) c) = (data @ random_bytes ?k c) @ take ?rest (bytes_of ?w)"
        unfolding fits [symmetric] random_bytes_snoc by (simp add: length_random_bytes minus_mult_div_eq_mod)
      ultimately show ?thesis using fin False diff small unfolding n after_draws_snoc run by simp
    qed
  qed
  then show ?thesis using len unfolding n_def left_def by blast
qed

theorem random_fills_witness:
  "map_option (\<lambda>(c, mem). (seed c, map mem [99, 100, 101, 102, 103, 104, 105, 106]))
     (eaf_random (\<lambda>_. (2, [7, 8])) 100 6 \<lparr>seed = 0, random_fd = - 1\<rparr> (\<lambda>_. 255)) =
   Some (1, [255, 7, 8, 0, 0, 0, 0, 255])"
proof -
  let ?c = "\<lparr>seed = 0, random_fd = - 1\<rparr>"
  have b: "random_bytes 1 ?c = [0, 0, 0, 0]" "after_draws 1 ?c = \<lparr>seed = 1, random_fd = - 1\<rparr>" by code_simp+
  have n: "(unat (6 :: u64) - length [7 :: u8, 8] + 3) div 4 = 1" by simp
  have "eaf_random (\<lambda>_. (2, [7, 8])) 100 6 ?c (\<lambda>_. 255) = Some (\<lparr>seed = 1, random_fd = - 1\<rparr>, put_bytes (\<lambda>_. 255) 100 [7, 8, 0, 0, 0, 0])"
    using random_fills [of 100 6 "\<lambda>_. (2, [7, 8])" ?c 2 "[7, 8]" "\<lambda>_. 255", unfolded n b] by (simp add: b [unfolded One_nat_def] random_non_failure_def)
  moreover have "map (put_bytes (\<lambda>_. 255) 100 [7, 8, 0, 0, 0, 0]) [99, 100, 101, 102, 103, 104, 105, 106] = [255, 7, 8, 0, 0, 0, 0, 255]" by (simp add: put_bytes_def unsigned_minus_1_eq_mask mask_eq_exp_minus_1)
  ultimately show ?thesis by simp
qed

end
