(* ===== verification/Log.thy ===== *)
theory Log
  imports ClockTime StringApply
begin

text \<open>
  The log, \<open>powerpack/log.c\<close>: the filter and the callback, the line that is printed, and the dump of memory.
  Printing returns the text; the format of the message is applied by the caller of the model. A level is the number
  of its constant, and \<open>%p\<close> a parameter.
\<close>

subsection \<open>The code\<close>

datatype log_level = eaf_log_level_trace | eaf_log_level_debug | eaf_log_level_info | eaf_log_level_warn | eaf_log_level_error | eaf_log_level_fatal

fun level_num :: "log_level \<Rightarrow> int" where
  "level_num eaf_log_level_trace = 0"
| "level_num eaf_log_level_debug = 1"
| "level_num eaf_log_level_info = 2"
| "level_num eaf_log_level_warn = 3"
| "level_num eaf_log_level_error = 4"
| "level_num eaf_log_level_fatal = 5"

record log_info =
  info_mode :: string
  info_file :: string
  info_func :: string
  info_line :: int
  info_level :: log_level

record log_ctx =
  filter_level :: log_level
  log_cb_fn :: nat
  log_cb_arg :: nat

definition LOG_DEFAULT_FILTER_LEVEL :: log_level where "LOG_DEFAULT_FILTER_LEVEL = eaf_log_level_info"

definition g_eaf_log_ctx :: log_ctx where "g_eaf_log_ctx = \<lparr>filter_level = LOG_DEFAULT_FILTER_LEVEL, log_cb_fn = 0, log_cb_arg = 0\<rparr>"

text \<open>What a call does: it calls the callback, or prints.\<close>

datatype log_effect = Callback nat log_info string nat | Print string

definition eaf_log_set_callback :: "nat \<Rightarrow> nat \<Rightarrow> log_ctx \<Rightarrow> log_ctx" where
  "eaf_log_set_callback fn arg c = c\<lparr>log_cb_fn := fn, log_cb_arg := arg\<rparr>"

definition log_reset_default_config :: "log_ctx \<Rightarrow> log_ctx" where
  "log_reset_default_config c = eaf_log_set_callback 0 0 (c\<lparr>filter_level := LOG_DEFAULT_FILTER_LEVEL\<rparr>)"

fun log_filename_loop :: "string \<Rightarrow> string \<Rightarrow> string" where
  "log_filename_loop last_delimiter [] = last_delimiter"
| "log_filename_loop last_delimiter (c # file) =
     log_filename_loop (if c = CHR 0x5C \<or> c = CHR ''/'' then file else last_delimiter) file"

definition log_filename :: "string \<Rightarrow> string" where "log_filename file = log_filename_loop file file"

definition log_ascii_to_char :: "u8 \<Rightarrow> char" where
  "log_ascii_to_char c = (if 32 \<le> c \<and> c \<le> 126 then char_of (unat c) else CHR ''.'')"

definition log_redirect :: "log_ctx \<Rightarrow> log_info \<Rightarrow> string \<Rightarrow> log_effect list" where
  "log_redirect c info msg = [Callback (log_cb_fn c) info msg (log_cb_arg c)]"

fun level_prefix :: "log_level \<Rightarrow> string" where
  "level_prefix eaf_log_level_fatal = ''F''"
| "level_prefix eaf_log_level_error = ''E''"
| "level_prefix eaf_log_level_warn = ''W''"
| "level_prefix eaf_log_level_info = ''I''"
| "level_prefix eaf_log_level_debug = ''D''"
| "level_prefix eaf_log_level_trace = ''T''"

definition int_text :: "int \<Rightarrow> string" where
  "int_text i = (if i < 0 then ''-'' else []) @ digits 10 (nat \<bar>i\<bar>)"

definition two :: "u32 \<Rightarrow> string" where "two n = pad_left 2 CHR ''0'' (digits 10 (unat n))"

text \<open>\<open>getsystem\<close> is the result of \<open>eaf_time_getsystem\<close> with the time it stored.\<close>

definition log_direct :: "int \<times> calendar_time \<Rightarrow> log_ctx \<Rightarrow> log_info \<Rightarrow> string \<Rightarrow> log_effect list" where
  "log_direct getsystem c info msg =
     (if level_num (info_level info) < level_num (filter_level c) then []
      else let (ret, t) = getsystem in
        if ret < 0 then []
        else [Print (''['' @ level_prefix (info_level info) @ '' '' @ two (hour t) @ '':'' @ two (minute t) @ '':'' @ two (second t) @ ''.'' @
            pad_left 3 CHR ''0'' (digits 10 (unat (mseconds t))) @ '' '' @ log_filename (info_file info) @ '':'' @ int_text (info_line info) @ '' '' @
            info_func info @ '']<'' @ info_mode info @ ''> ''), Print msg, Print [CHR 0x0A]])"

definition eaf_log :: "int \<times> calendar_time \<Rightarrow> log_level \<Rightarrow> string \<Rightarrow> string \<Rightarrow> int \<Rightarrow> string \<Rightarrow> string \<Rightarrow> log_ctx \<Rightarrow> log_effect list" where
  "eaf_log getsystem level file func line mname msg c =
     (let info = \<lparr>info_mode = mname, info_file = file, info_func = func, info_line = line, info_level = level\<rparr> in
      if log_cb_fn c \<noteq> 0 then log_redirect c info msg else log_direct getsystem c info msg)"

definition eaf_log_init :: "log_ctx \<Rightarrow> int \<times> log_ctx" where "eaf_log_init c = (0, log_reset_default_config c)"
definition eaf_log_exit :: "log_ctx \<Rightarrow> log_ctx" where "eaf_log_exit c = log_reset_default_config c"
definition eaf_log_set_level :: "log_level \<Rightarrow> log_ctx \<Rightarrow> log_ctx" where "eaf_log_set_level level c = c\<lparr>filter_level := level\<rparr>"
definition eaf_log_get_level :: "log_ctx \<Rightarrow> log_level" where "eaf_log_get_level c = filter_level c"

subsection \<open>Dumps\<close>

text \<open>The cells of the hexadecimal part and of the text part of a line, which begins at \<open>idx\<close>.\<close>

definition dump_hex :: "(u64 \<Rightarrow> u8) \<Rightarrow> u64 \<Rightarrow> u64 \<Rightarrow> u64 \<Rightarrow> u64 \<Rightarrow> string" where
  "dump_hex pdat sz width idx col =
     (let postfix = (if col < width - 1 then '''' else ''|'') in
      if col + idx < sz then pad_left 2 CHR ''0'' (digits 16 (unat (pdat (col + idx)))) @ '' '' @ postfix else ''   '' @ postfix)"

definition dump_char :: "(u64 \<Rightarrow> u8) \<Rightarrow> u64 \<Rightarrow> u64 \<Rightarrow> u64 \<Rightarrow> string" where
  "dump_char pdat width idx col = [log_ascii_to_char (pdat (col + idx))] @ (if col < width - 1 then '' '' else '''')"

definition dump_line :: "(u64 \<Rightarrow> string) \<Rightarrow> (u64 \<Rightarrow> u8) \<Rightarrow> u64 \<Rightarrow> u64 \<Rightarrow> u64 \<Rightarrow> string" where
  "dump_line ptr_text pdat sz width idx =
     ptr_text idx @ '' | '' @
     concat (map (\<lambda>j. dump_hex pdat sz width idx (of_nat j)) [0..<unat width]) @ '' '' @
     concat (map (\<lambda>j. dump_char pdat width idx (of_nat j)) (takeWhile (\<lambda>j. of_nat j + idx < sz) [0..<unat width])) @ [CHR 0x0A]"

partial_function (option) dump_loop :: "(u64 \<Rightarrow> string) \<Rightarrow> (u64 \<Rightarrow> u8) \<Rightarrow> u64 \<Rightarrow> u64 \<Rightarrow> u64 \<Rightarrow> string \<Rightarrow> string option" where
  "dump_loop ptr_text pdat sz width idx out =
     (if idx < sz then dump_loop ptr_text pdat sz width (idx + width) (out @ dump_line ptr_text pdat sz width idx) else Some out)"

declare dump_loop.simps [code]

definition eaf_dump_data :: "(u64 \<Rightarrow> string) \<Rightarrow> (u64 \<Rightarrow> u8) \<Rightarrow> u64 \<Rightarrow> u64 \<Rightarrow> string option" where
  "eaf_dump_data ptr_text pdat sz width = dump_loop ptr_text pdat sz width 0 ''''"

definition eaf_dump_data_pretty :: "(u64 \<Rightarrow> string) \<Rightarrow> string \<Rightarrow> string \<Rightarrow> string \<Rightarrow> int \<Rightarrow> (u64 \<Rightarrow> u8) \<Rightarrow> u64 \<Rightarrow> string option" where
  "eaf_dump_data_pretty ptr_text name file func line data sz =
     map_option (\<lambda>out. ''dump `'' @ name @ [CHR 0x27] @ '' with size `'' @ digits 10 (unat sz) @ [CHR 0x27] @ '' -> '' @ log_filename file @ '':'' @
       int_text line @ '':'' @ func @ '':'' @ [CHR 0x0A] @ out) (eaf_dump_data ptr_text data sz 16)"

subsection \<open>File names\<close>

text \<open>The part behind the last delimiter.\<close>

definition is_delimiter :: "char \<Rightarrow> bool" where "is_delimiter c \<longleftrightarrow> c = CHR 0x5C \<or> c = CHR ''/''"

definition base_name :: "string \<Rightarrow> string" where
  "base_name cs = rev (takeWhile (\<lambda>c. \<not> is_delimiter c) (rev cs))"

lemma base_name_Cons: "base_name (c # cs) = (if list_ex is_delimiter cs then base_name cs else if is_delimiter c then cs else c # cs)"
  by (auto simp: base_name_def takeWhile_append list_ex_iff takeWhile_eq_all_conv simp del: takeWhile_eq_Nil_iff)

lemma base_name_all: "\<not> list_ex is_delimiter cs \<Longrightarrow> base_name cs = cs"
  by (induction cs) (auto simp: base_name_Cons base_name_def [of "[]"])

lemma log_filename_loop_eq: "log_filename_loop l0 cs = (if list_ex is_delimiter cs then base_name cs else l0)"
proof (induction cs arbitrary: l0)
  case (Cons c cs)
  then show ?case by (simp add: base_name_Cons flip: is_delimiter_def)
qed simp

lemma log_filename_eq: "log_filename cs = base_name cs"
  by (simp add: log_filename_def log_filename_loop_eq base_name_all)

subsection \<open>The dump ends\<close>

lemma dump_loop_lines:
  assumes "0 < width" "unat sz + unat width \<le> 2 ^ 64" "unat idx + (k - 1) * unat width < unat sz \<or> k = 0" "unat sz \<le> unat idx + k * unat width"
  shows "dump_loop pt pdat sz width idx out =
    Some (out @ concat (map (\<lambda>i. dump_line pt pdat sz width (idx + of_nat i * width)) [0..<k]))"
  using assms
proof (induction k arbitrary: idx out)
  case 0
  then have "\<not> idx < sz" by (simp add: word_less_nat_alt)
  then show ?case by (subst dump_loop.simps) simp
next
  case (Suc k)
  let ?l = "\<lambda>i. dump_line pt pdat sz width (idx + of_nat i * width)"
  have "unat idx + k * unat width < unat sz" using Suc.prems(3) by simp
  then have lt: "unat idx < unat sz" by linarith
  have up: "unat (idx + width) = unat idx + unat width" using lt Suc.prems(2) by (subst unat_add_lem [THEN iffD1]) simp_all
  have "dump_loop pt pdat sz width (idx + width) (out @ ?l 0) =
      Some ((out @ ?l 0) @ concat (map (\<lambda>i. dump_line pt pdat sz width (idx + width + of_nat i * width)) [0..<k]))"
    by (rule Suc.IH) (use Suc.prems up in \<open>auto simp: algebra_simps diff_mult_distrib\<close>)
  moreover have "map ?l [0..<Suc k] = ?l 0 # map (\<lambda>i. dump_line pt pdat sz width (idx + width + of_nat i * width)) [0..<k]"
    unfolding upt_conv_Cons [OF zero_less_Suc] map_Suc_upt [symmetric] by (simp add: algebra_simps comp_def del: upt_Suc map_Suc_upt)
  moreover have "idx < sz" using lt by (simp add: word_less_nat_alt)
  ultimately show ?case by (subst dump_loop.simps) simp
qed

lemma dump_loop_stuck:
  assumes "dump_loop pt pdat sz width idx out = Some y"
  shows "\<not> (width = 0 \<and> idx < sz)"
  using assms
proof (rule dump_loop.raw_induct [of "\<lambda>pt pdat sz width idx out y. \<not> (width = 0 \<and> idx < sz)", rotated])
  fix loop :: "(u64 \<Rightarrow> string) \<Rightarrow> (u64 \<Rightarrow> u8) \<Rightarrow> u64 \<Rightarrow> u64 \<Rightarrow> u64 \<Rightarrow> string \<Rightarrow> string option" and pt pdat sz width idx out y
  assume IH: "\<And>pt pdat sz width idx out y. loop pt pdat sz width idx out = Some y \<Longrightarrow> \<not> (width = 0 \<and> idx < sz)"
    and step: "(if idx < sz then loop pt pdat sz width (idx + width) (out @ dump_line pt pdat sz width idx) else Some out) = Some y"
  show "\<not> (width = 0 \<and> idx < sz)" using step IH [of pt pdat sz width "idx + width"] by (auto split: if_splits)
qed

text \<open>A dump prints \<open>\<lceil>size / width\<rceil>\<close> lines, in order, and ends; with the width 0 it does not end.\<close>

theorem dump_ends:
  assumes "unat sz + unat width \<le> 2 ^ 64" "0 < sz"
  shows "if width = 0 then eaf_dump_data pt pdat sz width = None
    else eaf_dump_data pt pdat sz width =
      Some (concat (map (\<lambda>i. dump_line pt pdat sz width (of_nat i * width)) [0..<(unat sz + unat width - 1) div unat width]))"
proof (cases "width = 0")
  case True
  then show ?thesis using dump_loop_stuck [of pt pdat sz width 0 "[]"] assms(2) unfolding eaf_dump_data_def
    by (cases "dump_loop pt pdat sz width 0 []") auto
next
  case False
  let ?w = "unat width" and ?s = "unat sz"
  have w: "0 < ?w" using False by (simp add: unat_gt_0)
  have s: "0 < ?s" using assms(2) by (simp add: word_less_nat_alt)
  define k where "k = (?s + ?w - 1) div ?w"
  have "?s + ?w - 1 = k * ?w + (?s + ?w - 1) mod ?w" "(?s + ?w - 1) mod ?w < ?w" unfolding k_def using w by simp_all
  then have bounds: "?s \<le> k * ?w" "k * ?w < ?s + ?w" using s w by linarith+
  then have "(k - 1) * ?w < ?s" using w s by (cases k) simp_all
  then have "dump_loop pt pdat sz width 0 [] = Some ([] @ concat (map (\<lambda>i. dump_line pt pdat sz width (0 + of_nat i * width)) [0..<k]))"
    using bounds False assms(1) by (intro dump_loop_lines) (auto simp: word_gt_0)
  then show ?thesis using False by (simp add: eaf_dump_data_def k_def)
qed

end
