(* ===== verification/Infra.thy ===== *)
theory Infra
  imports Errno
begin

text \<open>
  Locks, semaphores and threads: \<open>src/infra/lock.c\<close>, \<open>src/infra/semaphore.c\<close>, \<open>src/infra/thread.c\<close> over
  \<open>src/compat/linux\<close>. The results of \<open>malloc\<close> and of the system are parameters; a function returns its
  result and the calls it makes, in order.
\<close>

datatype lock_attr = eaf_lock_attr_normal | eaf_lock_attr_recursive

record thread_attr =
  valid :: u64
  priority :: u64
  affinity :: u64
  stacksize :: u64

definition EAF_THREAD_VALID_PRIORITY :: u64 where "EAF_THREAD_VALID_PRIORITY = push_bit 0 1"
definition EAF_THREAD_VALID_AFFINITY :: u64 where "EAF_THREAD_VALID_AFFINITY = push_bit 1 1"
definition EAF_THREAD_VALID_STACKSIZE :: u64 where "EAF_THREAD_VALID_STACKSIZE = push_bit 2 1"

datatype os_call =
    Malloc ptr | Free
  | Mutexattr_init | Mutexattr_settype | Mutexattr_destroy | Mutex_init | Mutex_destroy | Mutex_lock | Mutex_unlock
  | Sem_init u32 | Sem_destroy | Sem_post
  | Attr_init | Attr_stacksize u64 | Attr_schedparam "32 word" | Attr_destroy | Thread_create nat nat | Thread_affinity u64 | Thread_join
  | Sched_yield | Usleep u32 | Gettid | Key_create | Key_delete | Setspecific nat | Getspecific

subsection \<open>Locks\<close>

definition eaf_compat_lock_init :: "int \<Rightarrow> int \<Rightarrow> lock_attr \<Rightarrow> int \<times> os_call list" where
  "eaf_compat_lock_init mutexattr_init mutex_init attr =
     (if mutexattr_init < 0 then (eaf_errno_unknown, [Mutexattr_init])
      else (if mutex_init < 0 then eaf_errno_unknown else eaf_errno_success,
        [Mutexattr_init] @ (if attr = eaf_lock_attr_recursive then [Mutexattr_settype] else []) @ [Mutex_init, Mutexattr_destroy]))"

definition eaf_lock_create :: "nat option \<Rightarrow> int \<Rightarrow> int \<Rightarrow> lock_attr \<Rightarrow> nat option \<times> os_call list" where
  "eaf_lock_create mem mutexattr_init mutex_init attr =
     (case mem of
        None \<Rightarrow> (None, [Malloc None])
      | Some handler \<Rightarrow>
          let (ret, calls) = eaf_compat_lock_init mutexattr_init mutex_init attr in
          if ret < 0 then (None, [Malloc mem] @ calls @ [Free]) else (Some handler, [Malloc mem] @ calls))"

definition eaf_compat_lock_exit :: "os_call list" where "eaf_compat_lock_exit = [Mutex_destroy]"
definition eaf_lock_destroy :: "os_call list" where "eaf_lock_destroy = eaf_compat_lock_exit @ [Free]"
definition eaf_compat_lock_enter :: "int \<Rightarrow> int \<times> os_call list" where "eaf_compat_lock_enter mutex_lock = (mutex_lock, [Mutex_lock])"
definition eaf_compat_lock_leave :: "int \<Rightarrow> int \<times> os_call list" where "eaf_compat_lock_leave mutex_unlock = (mutex_unlock, [Mutex_unlock])"
definition eaf_lock_enter :: "int \<Rightarrow> os_call list" where "eaf_lock_enter mutex_lock = snd (eaf_compat_lock_enter mutex_lock)"
definition eaf_lock_leave :: "int \<Rightarrow> os_call list" where "eaf_lock_leave mutex_unlock = snd (eaf_compat_lock_leave mutex_unlock)"

subsection \<open>Semaphores\<close>

text \<open>\<open>sem_init\<close> takes an \<open>unsigned\<close>.\<close>

definition eaf_compat_sem_init :: "int \<Rightarrow> u64 \<Rightarrow> int \<times> os_call list" where
  "eaf_compat_sem_init sem_init count = (sem_init, [Sem_init (ucast count)])"

definition eaf_sem_create :: "nat option \<Rightarrow> int \<Rightarrow> u64 \<Rightarrow> nat option \<times> os_call list" where
  "eaf_sem_create mem sem_init count =
     (case mem of
        None \<Rightarrow> (None, [Malloc None])
      | Some handler \<Rightarrow>
          let (ret, calls) = eaf_compat_sem_init sem_init count in
          if ret < 0 then (None, [Malloc mem] @ calls @ [Free]) else (Some handler, [Malloc mem] @ calls))"

definition eaf_compat_sem_exit :: "os_call list" where "eaf_compat_sem_exit = [Sem_destroy]"
definition eaf_sem_destroy :: "os_call list" where "eaf_sem_destroy = eaf_compat_sem_exit @ [Free]"
definition eaf_compat_sem_post :: "int \<Rightarrow> int \<times> os_call list" where "eaf_compat_sem_post sem_post = (sem_post, [Sem_post])"
definition eaf_sem_post :: "int \<Rightarrow> int \<times> os_call list" where "eaf_sem_post sem_post = eaf_compat_sem_post sem_post"

text \<open>Waiting. The \<open>i\<close>-th call of \<open>sem_wait\<close> returns a value and whether \<open>errno\<close> is \<open>EINTR\<close>, the
  \<open>i\<close>-th call of \<open>sem_trywait\<close> a value. The result has the number of calls made.\<close>

partial_function (option) sem_wait_loop :: "(nat \<Rightarrow> int \<times> bool) \<Rightarrow> nat \<Rightarrow> (int \<times> nat) option" where
  "sem_wait_loop sem_wait i =
     (let (ret, eintr) = sem_wait i in
      if ret \<noteq> 0 \<and> eintr then sem_wait_loop sem_wait (i + 1) else Some (ret, i + 1))"

declare sem_wait_loop.simps [code]

function sem_try_loop :: "(nat \<Rightarrow> int) \<Rightarrow> u64 \<Rightarrow> nat \<Rightarrow> int \<times> nat" where
  "sem_try_loop sem_trywait tries i =
     (let ret = sem_trywait i in
      if ret \<noteq> 0 \<and> 0 < tries then sem_try_loop sem_trywait (tries - 1) (i + 1) else (ret, i + 1))"
  by pat_completeness auto
termination
  by (relation "measure (\<lambda>(_, tries, _). unat tries)") (auto simp: word_less_nat_alt unat_minus_one unat_gt_0)

declare sem_try_loop.simps [simp del]

definition eaf_compat_sem_pend :: "(nat \<Rightarrow> int \<times> bool) \<Rightarrow> (nat \<Rightarrow> int) \<Rightarrow> u64 \<Rightarrow> (int \<times> nat) option" where
  "eaf_compat_sem_pend sem_wait sem_trywait timeout =
     (if timeout = - 1 then do {
        (ret, n) \<leftarrow> sem_wait_loop sem_wait 0;
        Some (if ret = 0 then eaf_errno_success else eaf_errno_unknown, n) }
      else if timeout = 0 then Some (if sem_trywait 0 = 0 then 0 else - 1, 1)
      else let (ret, n) = sem_try_loop sem_trywait ((timeout + 9) div 10) 0 in
        Some (if ret = 0 then eaf_errno_success else eaf_errno_timeout, n))"

definition eaf_sem_pend :: "(nat \<Rightarrow> int \<times> bool) \<Rightarrow> (nat \<Rightarrow> int) \<Rightarrow> u64 \<Rightarrow> (int \<times> nat) option" where
  "eaf_sem_pend sem_wait sem_trywait ms = eaf_compat_sem_pend sem_wait sem_trywait ms"

subsection \<open>Threads\<close>

text \<open>\<open>cpu_set\<close> is the result of \<open>malloc\<close> for the set of processors; \<open>CPU_SET\<close> ignores numbers it has no room
  for.\<close>

definition eaf_compat_thread_init :: "int \<Rightarrow> int \<Rightarrow> nat option \<Rightarrow> thread_attr option \<Rightarrow> nat \<Rightarrow> nat \<Rightarrow> int \<times> os_call list" where
  "eaf_compat_thread_init attr_init create cpu_set cfg fn arg =
     (if attr_init < 0 then (eaf_errno_unknown, [Attr_init])
      else
        let calls = [Attr_init] @
          (case cfg of Some c \<Rightarrow> if valid c AND EAF_THREAD_VALID_STACKSIZE \<noteq> 0 then [Attr_stacksize (stacksize c)] else [] | None \<Rightarrow> []) @
          (case cfg of Some c \<Rightarrow> if valid c AND EAF_THREAD_VALID_PRIORITY \<noteq> 0 then [Attr_schedparam (ucast (priority c))] else [] | None \<Rightarrow> []) @
          [Thread_create fn arg] in
        if create \<noteq> 0 then (eaf_errno_unknown, calls @ [Attr_destroy])
        else (eaf_errno_success, calls @
          (case cfg of
             Some c \<Rightarrow> if valid c AND EAF_THREAD_VALID_AFFINITY \<noteq> 0
               then [Malloc cpu_set] @ (if cpu_set = None then [] else [Thread_affinity (affinity c), Free]) else []
           | None \<Rightarrow> []) @ [Attr_destroy]))"

definition eaf_thread_create ::
  "nat option \<Rightarrow> int \<Rightarrow> int \<Rightarrow> nat option \<Rightarrow> thread_attr option \<Rightarrow> nat \<Rightarrow> nat \<Rightarrow> nat option \<times> os_call list" where
  "eaf_thread_create mem attr_init create cpu_set cfg fn arg =
     (case mem of
        None \<Rightarrow> (None, [Malloc None])
      | Some handler \<Rightarrow>
          let (ret, calls) = eaf_compat_thread_init attr_init create cpu_set cfg fn arg in
          if ret < 0 then (None, [Malloc mem] @ calls @ [Free]) else (Some handler, [Malloc mem] @ calls))"

definition eaf_compat_thread_exit :: "os_call list" where "eaf_compat_thread_exit = [Thread_join]"
definition eaf_thread_destroy :: "os_call list" where "eaf_thread_destroy = eaf_compat_thread_exit @ [Free]"
definition eaf_compat_thread_id :: "u64 \<Rightarrow> u64 \<times> os_call list" where "eaf_compat_thread_id gettid = (gettid, [Gettid])"
definition eaf_thread_id :: "u64 \<Rightarrow> u64 \<times> os_call list" where "eaf_thread_id gettid = eaf_compat_thread_id gettid"

definition eaf_compat_thread_sleep :: "u32 \<Rightarrow> os_call list" where
  "eaf_compat_thread_sleep timeout = (if timeout = 0 then [Sched_yield] else [Usleep (timeout * 1000)])"

definition eaf_thread_sleep :: "u32 \<Rightarrow> os_call list" where "eaf_thread_sleep msec = eaf_compat_thread_sleep msec"

definition eaf_thread_storage_init :: "int \<Rightarrow> int \<times> os_call list" where
  "eaf_thread_storage_init key_create = (if key_create = 0 then eaf_errno_success else eaf_errno_unknown, [Key_create])"
definition eaf_thread_storage_exit :: "os_call list" where "eaf_thread_storage_exit = [Key_delete]"
definition eaf_thread_storage_set :: "int \<Rightarrow> nat \<Rightarrow> int \<times> os_call list" where
  "eaf_thread_storage_set setspecific val = (if setspecific = 0 then eaf_errno_success else eaf_errno_unknown, [Setspecific val])"
definition eaf_thread_storage_get :: "nat option \<Rightarrow> nat option \<times> os_call list" where
  "eaf_thread_storage_get getspecific = (getspecific, [Getspecific])"

subsection \<open>What create leaves behind\<close>

text \<open>A function that returns no handle has released what it took, and one that returns a handle has
  released everything but the handle.\<close>

definition held :: "os_call list \<Rightarrow> int" where
  "held calls = int (length (filter (\<lambda>c. case c of Malloc p \<Rightarrow> p \<noteq> None | _ \<Rightarrow> False) calls)) - int (length (filter (\<lambda>c. c = Free) calls))"

lemma create_balanced:
  "held (snd (eaf_lock_create (Some h) i m attr)) = (if fst (eaf_lock_create (Some h) i m attr) = None then 0 else 1)"
  "held (snd (eaf_sem_create (Some h) r count)) = (if fst (eaf_sem_create (Some h) r count) = None then 0 else 1)"
  "held (snd (eaf_thread_create (Some h) i c cpu cfg fn arg)) = (if fst (eaf_thread_create (Some h) i c cpu cfg fn arg) = None then 0 else 1)"
  by (auto simp: held_def eaf_lock_create_def eaf_compat_lock_init_def eaf_sem_create_def eaf_compat_sem_init_def eaf_thread_create_def
      eaf_compat_thread_init_def eaf_errno_unknown_def eaf_errno_success_def Let_def split: option.splits)

text \<open>The functions of pthread return a positive number for an error, but the code tests for a negative one: an
  error of the system is not noticed, and the caller gets a lock that was not initialised.\<close>

lemma lock_error_missed:
  "0 \<le> i \<Longrightarrow> 0 \<le> m \<Longrightarrow> fst (eaf_lock_create (Some h) i m attr) = Some h"
  by (simp add: eaf_lock_create_def eaf_compat_lock_init_def eaf_errno_success_def)

text \<open>A count that does not fit into an \<open>unsigned\<close> is truncated.\<close>

lemma sem_count_truncated: "eaf_compat_sem_init 0 (2 ^ 32) = (0, [Sem_init 0])"
  by (simp add: eaf_compat_sem_init_def)

subsection \<open>Waiting ends\<close>

lemma sem_try_loop_first:
  assumes "\<forall>j < k. sem_trywait (i + j) \<noteq> 0" "k \<le> unat tries" "sem_trywait (i + k) = 0 \<or> k = unat tries"
  shows "sem_try_loop sem_trywait tries i = (sem_trywait (i + k), i + k + 1)"
  using assms
proof (induction k arbitrary: i tries)
  case 0
  then have "sem_trywait i = 0 \<or> tries = 0" by (auto simp: unat_eq_0)
  then show ?case by (subst sem_try_loop.simps) auto
next
  case (Suc k)
  have t: "0 < tries" using Suc.prems(2) by (simp add: word_less_nat_alt)
  then have "unat (tries - 1) = unat tries - 1" by (simp add: unat_minus_one unat_gt_0)
  then have "sem_try_loop sem_trywait (tries - 1) (i + 1) = (sem_trywait (i + 1 + k), i + 1 + k + 1)"
    using Suc.prems by (intro Suc.IH) auto
  moreover have "sem_trywait i \<noteq> 0" using Suc.prems(1) by (metis add_0_right zero_less_Suc)
  ultimately show ?case using t by (subst sem_try_loop.simps) simp
qed

lemma sem_wait_some:
  assumes "sem_wait_loop w i = Some y"
  shows "i < snd y \<and> fst (w (snd y - 1)) = fst y \<and> (fst y = 0 \<or> \<not> snd (w (snd y - 1)))"
  using assms
proof (rule sem_wait_loop.raw_induct [of "\<lambda>w i y. i < snd y \<and> fst (w (snd y - 1)) = fst y \<and> (fst y = 0 \<or> \<not> snd (w (snd y - 1)))", rotated])
  fix loop :: "(nat \<Rightarrow> int \<times> bool) \<Rightarrow> nat \<Rightarrow> (int \<times> nat) option" and w :: "nat \<Rightarrow> int \<times> bool" and i y
  assume IH: "\<And>w i y. loop w i = Some y \<Longrightarrow> i < snd y \<and> fst (w (snd y - 1)) = fst y \<and> (fst y = 0 \<or> \<not> snd (w (snd y - 1)))"
    and step: "(let (ret, eintr) = w i in if ret \<noteq> 0 \<and> eintr then loop w (i + 1) else Some (ret, i + 1)) = Some y"
  show "i < snd y \<and> fst (w (snd y - 1)) = fst y \<and> (fst y = 0 \<or> \<not> snd (w (snd y - 1)))"
    using step IH [of w "i + 1" y] by (cases "w i") (auto split: if_splits)
qed

lemma sem_wait_first:
  assumes "\<forall>j < k. fst (w (i + j)) \<noteq> 0 \<and> snd (w (i + j))" "fst (w (i + k)) = 0 \<or> \<not> snd (w (i + k))"
  shows "sem_wait_loop w i = Some (fst (w (i + k)), i + k + 1)"
  using assms
proof (induction k arbitrary: i)
  case 0
  then show ?case by (cases "w i") (subst sem_wait_loop.simps, auto)
next
  case (Suc k)
  have "sem_wait_loop w (i + 1) = Some (fst (w (i + 1 + k)), i + 1 + k + 1)" using Suc.prems by (intro Suc.IH) auto
  moreover have "fst (w i) \<noteq> 0" "snd (w i)" using Suc.prems(1) by (metis add_0_right zero_less_Suc)+
  ultimately show ?case by (cases "w i") (subst sem_wait_loop.simps, simp)
qed

text \<open>C29: Waiting for a semaphore with a timeout ends. For every timeout but the nine largest, \<open>eaf_compat_sem_pend\<close>
  asks at most \<open>1 + \<lceil>timeout / 10\<rceil>\<close> times, ten milliseconds apart, so it sleeps for less than ten milliseconds
  more than the timeout; it succeeds exactly if one of these calls takes the semaphore, and stops there. A wait
  without timeout returns exactly if some call of \<open>sem_wait\<close> is not interrupted.\<close>

theorem sem_pend_ends:
  shows "(0 < timeout \<and> unat timeout < 2 ^ 64 - 9 \<longrightarrow> (\<exists>k. unat timeout \<le> 10 * k \<and> 10 * k < unat timeout + 10 \<and>
      eaf_compat_sem_pend sem_wait sem_trywait timeout =
        (case find (\<lambda>i. sem_trywait i = 0) [0..<k + 1] of
           None \<Rightarrow> Some (eaf_errno_timeout, k + 1)
         | Some i \<Rightarrow> Some (eaf_errno_success, i + 1)))) \<and>
    (eaf_compat_sem_pend sem_wait sem_trywait (- 1) = None \<longleftrightarrow> (\<forall>i. fst (sem_wait i) \<noteq> 0 \<and> snd (sem_wait i)))"
proof (intro conjI impI)
  assume t: "0 < timeout \<and> unat timeout < 2 ^ 64 - 9"
  define k where "k = (unat timeout + 9) div 10"
  have "unat (timeout + 9) = unat timeout + 9" using t by (subst unat_add_lem [THEN iffD1]) simp_all
  then have tries: "unat ((timeout + 9) div 10) = k" by (simp add: unat_div k_def)
  have ne: "timeout \<noteq> - 1" "timeout \<noteq> 0" using t by (auto simp: unsigned_minus_1_eq_mask mask_eq_exp_minus_1)
  have "eaf_compat_sem_pend sem_wait sem_trywait timeout =
        (case find (\<lambda>i. sem_trywait i = 0) [0..<k + 1] of
           None \<Rightarrow> Some (eaf_errno_timeout, k + 1)
         | Some i \<Rightarrow> Some (eaf_errno_success, i + 1))"
  proof (cases "find (\<lambda>i. sem_trywait i = 0) [0..<k + 1]")
    case None
    then have fail: "\<forall>i < k + 1. sem_trywait i \<noteq> 0" unfolding find_None_iff by (metis atLeast0LessThan atLeast_upt lessThan_iff)
    then have "sem_try_loop sem_trywait ((timeout + 9) div 10) 0 = (sem_trywait (0 + k), 0 + k + 1)"
      using tries by (intro sem_try_loop_first) auto
    then show ?thesis using None ne fail by (simp add: eaf_compat_sem_pend_def)
  next
    case (Some i)
    then have i: "i < k + 1" "sem_trywait i = 0" "\<forall>j < i. sem_trywait j \<noteq> 0" unfolding find_Some_iff by (auto simp del: upt_Suc)
    then have "sem_try_loop sem_trywait ((timeout + 9) div 10) 0 = (sem_trywait (0 + i), 0 + i + 1)"
      using tries by (intro sem_try_loop_first) auto
    then show ?thesis using Some ne i(2) by (simp add: eaf_compat_sem_pend_def)
  qed
  moreover have "unat timeout \<le> 10 * k" "10 * k < unat timeout + 10" by (simp_all add: k_def)
  ultimately show "\<exists>k. unat timeout \<le> 10 * k \<and> 10 * k < unat timeout + 10 \<and>
      eaf_compat_sem_pend sem_wait sem_trywait timeout =
        (case find (\<lambda>i. sem_trywait i = 0) [0..<k + 1] of
           None \<Rightarrow> Some (eaf_errno_timeout, k + 1)
         | Some i \<Rightarrow> Some (eaf_errno_success, i + 1))" by blast
next
  show "eaf_compat_sem_pend sem_wait sem_trywait (- 1) = None \<longleftrightarrow> (\<forall>i. fst (sem_wait i) \<noteq> 0 \<and> snd (sem_wait i))"
  proof (cases "\<exists>i. fst (sem_wait i) = 0 \<or> \<not> snd (sem_wait i)")
    case True
    define k where "k = (LEAST i. fst (sem_wait i) = 0 \<or> \<not> snd (sem_wait i))"
    have "fst (sem_wait k) = 0 \<or> \<not> snd (sem_wait k)" unfolding k_def using True by (rule LeastI_ex)
    moreover have "\<forall>j < k. fst (sem_wait j) \<noteq> 0 \<and> snd (sem_wait j)" unfolding k_def using not_less_Least by blast
    ultimately have "sem_wait_loop sem_wait 0 = Some (fst (sem_wait (0 + k)), 0 + k + 1)" by (intro sem_wait_first) auto
    then show ?thesis using True by (auto simp: eaf_compat_sem_pend_def)
  next
    case False
    then have "sem_wait_loop sem_wait 0 = None" using sem_wait_some [of sem_wait 0] by (cases "sem_wait_loop sem_wait 0") auto
    then show ?thesis using False by (simp add: eaf_compat_sem_pend_def)
  qed
qed

theorem sem_pend_ends_witness:
  "eaf_compat_sem_pend (\<lambda>_. (- 1, True)) (\<lambda>i. if i = 2 then 0 else - 1) 25 = Some (eaf_errno_success, 3)"
proof -
  obtain k where k: "25 \<le> 10 * k" "10 * k < 35" "eaf_compat_sem_pend (\<lambda>_. (- 1, True)) (\<lambda>i. if i = 2 then 0 else - 1) 25 =
        (case find (\<lambda>i. (if i = 2 then 0 else - 1 :: int) = 0) [0..<k + 1] of
           None \<Rightarrow> Some (eaf_errno_timeout, k + 1)
         | Some i \<Rightarrow> Some (eaf_errno_success, i + 1))"
    using sem_pend_ends [of 25 "\<lambda>_. (- 1, True)" "\<lambda>i. if i = 2 then 0 else - 1"] by auto
  then have "k = 3" by linarith
  then show ?thesis using k(3) by (simp add: upt_rec)
qed

text \<open>For the nine largest timeouts the sum overflows, and the function asks only once.\<close>

lemma sem_pend_overflow: "eaf_compat_sem_pend w (\<lambda>_. - 1) (- 2) = Some (eaf_errno_timeout, 1)"
  by (simp add: eaf_compat_sem_pend_def sem_try_loop.simps)

end
